(* ===== verification/Prelude.thy ===== *)
theory Prelude
  imports Main "HOL-Library.Multiset"
begin

text \<open>
  Shared vocabulary of the development.

  \<^item> \<open>run_sched\<close> executes a schedule: a list of events, each of which is one step of
    one thread.  All concurrent components are modelled as a deterministic
    function \<open>step event state\<close>, the event naming the thread (and, where a thread is
    idle, the call it makes next); every interleaving is a schedule.
    Each step is one access to shared memory (an atomic load, store, exchange or
    compare-exchange, a plain array access, a lock acquisition with the critical section
    it protects), so the interleavings are those of sequentially consistent memory.
  \<^item> the locale \<open>interleaving\<close> lifts an invariant of single steps to all schedules, and
    \<open>linearizable\<close> lifts a step-wise simulation to the whole trace: the visible
    actions of a run, in order, form a run of the abstract specification.
  \<^item> \<open>chain\<close> is the relation between a linked structure and the list of its cells.
\<close>

named_theorems conc_simps \<open>definitions unfolded in every step-wise invariant proof\<close>

section \<open>Schedules\<close>

primrec run_sched :: "('e \<Rightarrow> 's \<Rightarrow> 's) \<Rightarrow> 'e list \<Rightarrow> 's \<Rightarrow> 's" where
  "run_sched step [] s = s"
| "run_sched step (e # es) s = run_sched step es (step e s)"

lemma run_sched_append [simp]:
  "run_sched step (es @ fs) s = run_sched step fs (run_sched step es s)"
  by (induction es arbitrary: s) simp_all

lemma run_sched_cong:
  "(\<And>e s. e \<in> set es \<Longrightarrow> f e s = g e s) \<Longrightarrow> run_sched f es s = run_sched g es s"
  by (induction es arbitrary: s) simp_all

text \<open>Some schedule of the events \<open>own\<close> leads to a state with \<open>Q\<close>.\<close>

definition reaches :: "('e \<Rightarrow> bool) \<Rightarrow> ('e \<Rightarrow> 's \<Rightarrow> 's) \<Rightarrow> ('s \<Rightarrow> bool) \<Rightarrow> 's \<Rightarrow> bool" where
  "reaches own step Q s \<longleftrightarrow> (\<exists>es. list_all own es \<and> Q (run_sched step es s))"

lemma reach_now: "Q s \<Longrightarrow> reaches own step Q s"
  unfolding reaches_def by (intro exI [of _ "[]"]) simp

lemma reach_trans:
  assumes "reaches own step P s" and "\<And>s'. P s' \<Longrightarrow> reaches own step Q s'"
  shows "reaches own step Q s"
proof -
  obtain es where es: "list_all own es" "P (run_sched step es s)" using assms(1) by (auto simp: reaches_def)
  obtain fs where "list_all own fs" "Q (run_sched step fs (run_sched step es s))"
    using assms(2) [OF es(2)] by (auto simp: reaches_def)
  then show ?thesis unfolding reaches_def using es(1) by (intro exI [of _ "es @ fs"]) simp
qed

lemma reach_step:
  assumes "own e" and "reaches own step Q (step e s)"
  shows "reaches own step Q s"
proof -
  obtain es where "list_all own es" "Q (run_sched step es (step e s))" using assms(2) by (auto simp: reaches_def)
  then show ?thesis unfolding reaches_def using assms(1) by (intro exI [of _ "e # es"]) simp
qed

primrec visible_trace ::
  "('e \<Rightarrow> 's \<Rightarrow> 's) \<Rightarrow> ('e \<Rightarrow> 's \<Rightarrow> 'l option) \<Rightarrow> 'e list \<Rightarrow> 's \<Rightarrow> 'l list" where
  "visible_trace step vis [] s = []"
| "visible_trace step vis (e # es) s =
     (case vis e s of None \<Rightarrow> [] | Some l \<Rightarrow> [l]) @ visible_trace step vis es (step e s)"

lemma visible_trace_append:
  "visible_trace step vis (es @ fs) s =
     visible_trace step vis es s @ visible_trace step vis fs (run_sched step es s)"
  by (induction es arbitrary: s) simp_all

text \<open>An abstract specification answers \<open>None\<close> when an action is not allowed.\<close>

primrec spec_run :: "('l \<Rightarrow> 'a \<Rightarrow> 'a option) \<Rightarrow> 'l list \<Rightarrow> 'a \<Rightarrow> 'a option" where
  "spec_run spec [] a = Some a"
| "spec_run spec (l # ls) a =
     (case spec l a of None \<Rightarrow> None | Some a' \<Rightarrow> spec_run spec ls a')"

lemma spec_run_append:
  "spec_run spec (ls @ ms) a =
     (case spec_run spec ls a of None \<Rightarrow> None | Some b \<Rightarrow> spec_run spec ms b)"
  by (induction ls arbitrary: a) (simp_all split: option.splits)

locale interleaving =
  fixes step :: "'e \<Rightarrow> 's \<Rightarrow> 's"
    and invar :: "'s \<Rightarrow> bool"
  assumes step_keeps: "invar s \<Longrightarrow> invar (step e s)"
begin

lemma sched_keeps: "invar s \<Longrightarrow> invar (run_sched step es s)"
  by (induction es arbitrary: s) (simp_all add: step_keeps)

end

text \<open>
  An invariant that holds for a bounded number of steps only, because some counter of the
  program would wrap around: the invariant is indexed by the steps taken so far.
\<close>

locale counted_interleaving =
  fixes step :: "'e \<Rightarrow> 's \<Rightarrow> 's"
    and allowed :: "'e \<Rightarrow> bool"
    and invar :: "nat \<Rightarrow> 's \<Rightarrow> bool"
    and bound :: nat
  assumes counted_step: "invar k s \<Longrightarrow> k < bound \<Longrightarrow> allowed e \<Longrightarrow> invar (Suc k) (step e s)"
begin

lemma counted_keeps:
  "invar k s \<Longrightarrow> k + length es \<le> bound \<Longrightarrow> \<forall>e \<in> set es. allowed e \<Longrightarrow>
     invar (k + length es) (run_sched step es s)"
proof (induction es arbitrary: k s)
  case Nil
  then show ?case by simp
next
  case (Cons e es)
  then have "invar (Suc k) (step e s)" by (intro counted_step) auto
  from Cons.IH [OF this] Cons.prems show ?case by simp
qed

end

locale linearizable = interleaving step invar
  for step :: "'e \<Rightarrow> 's \<Rightarrow> 's" and invar :: "'s \<Rightarrow> bool" +
  fixes absf :: "'s \<Rightarrow> 'a"
    and vis :: "'e \<Rightarrow> 's \<Rightarrow> 'l option"
    and spec :: "'l \<Rightarrow> 'a \<Rightarrow> 'a option"
  assumes hidden: "invar s \<Longrightarrow> vis e s = None \<Longrightarrow> absf (step e s) = absf s"
    and shown: "invar s \<Longrightarrow> vis e s = Some l \<Longrightarrow> spec l (absf s) = Some (absf (step e s))"
begin

lemma trace_meets_spec:
  "invar s \<Longrightarrow>
     spec_run spec (visible_trace step vis es s) (absf s) = Some (absf (run_sched step es s))"
proof (induction es arbitrary: s)
  case Nil
  then show ?case by simp
next
  case (Cons e es)
  then have IH: "spec_run spec (visible_trace step vis es (step e s)) (absf (step e s)) =
      Some (absf (run_sched step es (step e s)))"
    by (simp add: step_keeps)
  show ?case
  proof (cases "vis e s")
    case None
    with IH Cons.prems show ?thesis by (simp add: hidden)
  next
    case (Some l)
    with IH Cons.prems show ?thesis by (simp add: shown)
  qed
qed

end

section \<open>Specifications of the containers\<close>

datatype 'a queue_act = Enq 'a bool | Deq "'a option"

text \<open>
  A first-in first-out queue.  The bound is \<open>Some n\<close> for a queue that holds at most \<open>n\<close>
  elements, \<open>None\<close> for an unbounded one.  A refused enqueue is allowed only when the
  queue is full, an empty answer only when it is empty.
\<close>

definition has_room :: "nat option \<Rightarrow> 'a list \<Rightarrow> bool" where
  "has_room bound xs = (case bound of None \<Rightarrow> True | Some n \<Rightarrow> length xs < n)"

lemma has_room_None [simp]: "has_room None xs"
  by (simp add: has_room_def)

fun fifo_spec :: "nat option \<Rightarrow> 'a queue_act \<Rightarrow> 'a list \<Rightarrow> 'a list option" where
  "fifo_spec bound (Enq x True) xs = (if has_room bound xs then Some (xs @ [x]) else None)"
| "fifo_spec bound (Enq x False) xs = (if has_room bound xs then None else Some xs)"
| "fifo_spec bound (Deq None) xs = (if xs = [] then Some xs else None)"
| "fifo_spec bound (Deq (Some x)) xs =
     (case xs of [] \<Rightarrow> None | y # ys \<Rightarrow> if x = y then Some ys else None)"

datatype 'a stack_act = Push 'a bool | Pop "'a option"

fun lifo_spec :: "nat option \<Rightarrow> 'a stack_act \<Rightarrow> 'a list \<Rightarrow> 'a list option" where
  "lifo_spec bound (Push x True) xs = (if has_room bound xs then Some (x # xs) else None)"
| "lifo_spec bound (Push x False) xs = (if has_room bound xs then None else Some xs)"
| "lifo_spec bound (Pop None) xs = (if xs = [] then Some xs else None)"
| "lifo_spec bound (Pop (Some x)) xs =
     (case xs of [] \<Rightarrow> None | y # ys \<Rightarrow> if x = y then Some ys else None)"

primrec enqueued :: "'a queue_act list \<Rightarrow> 'a list" where
  "enqueued [] = []"
| "enqueued (a # as) = (case a of Enq x True \<Rightarrow> [x] | _ \<Rightarrow> []) @ enqueued as"

primrec dequeued :: "'a queue_act list \<Rightarrow> 'a list" where
  "dequeued [] = []"
| "dequeued (a # as) = (case a of Deq (Some x) \<Rightarrow> [x] | _ \<Rightarrow> []) @ dequeued as"

text \<open>What comes out of a FIFO queue is what was put in, in the same order.\<close>

lemma fifo_spec_SomeE:
  assumes "fifo_spec bound a xs = Some ys"
  obtains (enq) x where "a = Enq x True" "ys = xs @ [x]" "has_room bound xs"
  | (full) x where "a = Enq x False" "ys = xs" "\<not> has_room bound xs"
  | (none) "a = Deq None" "xs = []" "ys = []"
  | (deq) x where "a = Deq (Some x)" "xs = x # ys"
  using assms
  by (cases "(bound, a, xs)" rule: fifo_spec.cases) (auto split: if_splits list.splits)

lemma fifo_run_order:
  "spec_run (fifo_spec bound) as xs = Some ys \<Longrightarrow> xs @ enqueued as = dequeued as @ ys"
proof (induction as arbitrary: xs)
  case Nil
  then show ?case by simp
next
  case (Cons a as)
  then obtain zs where step: "fifo_spec bound a xs = Some zs"
    and rest: "spec_run (fifo_spec bound) as zs = Some ys"
    by (auto split: option.splits)
  from Cons.IH [OF rest] have "zs @ enqueued as = dequeued as @ ys" .
  with step show ?case by (auto elim!: fifo_spec_SomeE)
qed

text \<open>
  A concurrent bounded stack may also refuse a push while its remaining cells are in the
  hands of calls that have not returned: \<open>lifo_lax_spec\<close> leaves refusals open.
\<close>

fun lifo_lax_spec :: "'a stack_act \<Rightarrow> 'a list \<Rightarrow> 'a list option" where
  "lifo_lax_spec (Push x False) xs = Some xs"
| "lifo_lax_spec a xs = lifo_spec None a xs"

primrec pushed :: "'a stack_act list \<Rightarrow> 'a list" where
  "pushed [] = []"
| "pushed (a # as) = (case a of Push x True \<Rightarrow> [x] | _ \<Rightarrow> []) @ pushed as"

primrec popped :: "'a stack_act list \<Rightarrow> 'a list" where
  "popped [] = []"
| "popped (a # as) = (case a of Pop (Some x) \<Rightarrow> [x] | _ \<Rightarrow> []) @ popped as"

lemma lifo_spec_SomeE:
  assumes "lifo_spec bound a xs = Some ys"
  obtains (push) x where "a = Push x True" "ys = x # xs" "has_room bound xs"
  | (full) x where "a = Push x False" "ys = xs" "\<not> has_room bound xs"
  | (none) "a = Pop None" "xs = []" "ys = []"
  | (pop) x where "a = Pop (Some x)" "xs = x # ys"
  using assms
  by (cases "(bound, a, xs)" rule: lifo_spec.cases) (auto split: if_splits list.splits)

lemma lifo_run_conserves:
  "spec_run (lifo_spec bound) as xs = Some ys \<Longrightarrow>
     mset xs + mset (pushed as) = mset (popped as) + mset ys"
proof (induction as arbitrary: xs)
  case Nil
  then show ?case by simp
next
  case (Cons a as)
  then obtain zs where step: "lifo_spec bound a xs = Some zs"
    and rest: "spec_run (lifo_spec bound) as zs = Some ys"
    by (auto split: option.splits)
  from Cons.IH [OF rest] have "mset zs + mset (pushed as) = mset (popped as) + mset ys" .
  with step show ?case by (auto elim!: lifo_spec_SomeE)
qed

lemma lifo_lax_run_conserves:
  "spec_run lifo_lax_spec as xs = Some ys \<Longrightarrow>
     mset xs + mset (pushed as) = mset (popped as) + mset ys"
proof (induction as arbitrary: xs)
  case Nil
  then show ?case by simp
next
  case (Cons a as)
  then obtain zs where step: "lifo_lax_spec a xs = Some zs"
    and rest: "spec_run lifo_lax_spec as zs = Some ys"
    by (auto split: option.splits)
  from Cons.IH [OF rest] have "mset zs + mset (pushed as) = mset (popped as) + mset ys" .
  with step show ?case
    by (cases "(a, xs)" rule: lifo_lax_spec.cases) (auto elim!: lifo_spec_SomeE)
qed

section \<open>Linked structures\<close>

text \<open>
  \<open>chain nxt p xs q\<close>: following \<open>nxt\<close> from the reference \<open>p\<close> visits exactly the cells
  \<open>xs\<close>, in this order, and arrives at \<open>q\<close>; the null reference is \<open>None\<close>.
\<close>

primrec chain :: "('c \<Rightarrow> 'c option) \<Rightarrow> 'c option \<Rightarrow> 'c list \<Rightarrow> 'c option \<Rightarrow> bool" where
  "chain nxt p [] q \<longleftrightarrow> p = q"
| "chain nxt p (c # cs) q \<longleftrightarrow> p = Some c \<and> chain nxt (nxt c) cs q"

lemma chain_append [simp]:
  "chain nxt p (cs @ ds) q \<longleftrightarrow> (\<exists>m. chain nxt p cs m \<and> chain nxt m ds q)"
  by (induction cs arbitrary: p) auto

lemma chain_frame:
  "(\<And>c. c \<in> set cs \<Longrightarrow> nxt' c = nxt c) \<Longrightarrow> chain nxt' p cs q = chain nxt p cs q"
  by (induction cs arbitrary: p) auto

lemma chain_upd [simp]:
  "c \<notin> set cs \<Longrightarrow> chain (nxt(c := r)) p cs q = chain nxt p cs q"
  by (rule chain_frame) auto

lemma chain_None [simp]: "chain nxt None cs None \<longleftrightarrow> cs = []"
  by (cases cs) auto

lemma chain_Some_None:
  "chain nxt (Some c) cs None \<longleftrightarrow> (\<exists>ds. cs = c # ds \<and> chain nxt (nxt c) ds None)"
  by (cases cs) auto

lemma chain_unique:
  "chain nxt p cs None \<Longrightarrow> chain nxt p ds None \<Longrightarrow> cs = ds"
proof (induction cs arbitrary: p ds)
  case Nil
  then show ?case by simp
next
  case (Cons c cs)
  then obtain es where "ds = c # es" "chain nxt (nxt c) es None"
    by (auto simp: chain_Some_None)
  with Cons show ?case by auto
qed

lemma chain_distinct: "chain nxt p cs None \<Longrightarrow> distinct cs"
proof (induction cs arbitrary: p)
  case Nil
  then show ?case by simp
next
  case (Cons c cs)
  then have tail: "chain nxt (nxt c) cs None" by simp
  have "c \<notin> set cs"
  proof
    assume "c \<in> set cs"
    then obtain us vs where cs: "cs = us @ c # vs" by (auto dest: split_list)
    with tail have "chain nxt (nxt c) vs None" by auto
    with tail have "cs = vs" by (rule chain_unique)
    moreover have "length cs = length us + Suc (length vs)" using cs by simp
    ultimately show False by simp
  qed
  with Cons tail show ?case by simp
qed

text \<open>The cells of a structure, read off by following at most \<open>n\<close> references.\<close>

primrec cells :: "('c \<Rightarrow> 'c option) \<Rightarrow> nat \<Rightarrow> 'c option \<Rightarrow> 'c list" where
  "cells nxt 0 p = []"
| "cells nxt (Suc n) p = (case p of None \<Rightarrow> [] | Some c \<Rightarrow> c # cells nxt n (nxt c))"

lemma cells_of_chain: "chain nxt p cs None \<Longrightarrow> length cs \<le> n \<Longrightarrow> cells nxt n p = cs"
proof (induction cs arbitrary: p n)
  case Nil
  then show ?case by (cases n) auto
next
  case (Cons c cs)
  then show ?case by (cases n) auto
qed

section \<open>Lists\<close>

lemma filter_id_Some [simp]: "List.map_filter id (xs @ [Some x]) = List.map_filter id xs @ [x]"
  by (simp add: map_filter_def)

lemma list_update_nth_other [simp]: "i \<noteq> j \<Longrightarrow> xs[i := x] ! j = xs ! j"
  by simp

lemma count_list_update:
  "i < length xs \<Longrightarrow>
     count_list (xs[i := y]) z + (if xs ! i = z then 1 else 0) = count_list xs z + (if y = z then 1 else 0)"
proof (induction xs arbitrary: i)
  case (Cons x xs)
  show ?case
  proof (cases i)
    case (Suc j)
    with Cons.IH [of j] Cons.prems show ?thesis by auto
  qed simp
qed simp

lemma count_list_pos: "i < length xs \<Longrightarrow> 0 < count_list xs (xs ! i)"
  by (metis count_list_0_iff gr0I nth_mem)

text \<open>The number of threads in a given condition, after one of them has moved.\<close>

lemma card_threads_upd:
  assumes "finite {u. P (f u)}"
  shows "card {u. P ((f(t := x)) u)} + (if P (f t) then 1 else 0)
    = card {u. P (f u)} + (if P x then 1 else 0)"
    and "finite {u. P ((f(t := x)) u)}"
proof -
  let ?A = "{u. P (f u) \<and> u \<noteq> t}"
  have old: "{u. P (f u)} = (if P (f t) then insert t ?A else ?A)" by auto
  have new: "{u. P ((f(t := x)) u)} = (if P x then insert t ?A else ?A)" by auto
  have fin: "finite ?A" using assms by (rule rev_finite_subset) auto
  then have "card (insert t ?A) = Suc (card ?A)" by simp
  with old new show "card {u. P ((f(t := x)) u)} + (if P (f t) then 1 else 0)
    = card {u. P (f u)} + (if P x then 1 else 0)" by simp
  show "finite {u. P ((f(t := x)) u)}" unfolding new using fin by simp
qed

text \<open>Values carried by \<open>n\<close> threads and values in \<open>n\<close> queues, after one of them has changed.\<close>

lemma sum_threads_upd:
  fixes f :: "'b \<Rightarrow> 'a multiset" and n :: nat
  assumes "i < n"
  shows "(\<Sum>j<n. f ((w(i := p)) j)) + f (w i) = (\<Sum>j<n. f (w j)) + f p"
proof -
  have rest: "(\<Sum>j\<in>{..<n} - {i}. f ((w(i := p)) j)) = (\<Sum>j\<in>{..<n} - {i}. f (w j))"
    by (rule sum.cong) auto
  have "(\<Sum>j<n. f ((w(i := p)) j)) = f p + (\<Sum>j\<in>{..<n} - {i}. f (w j))"
    using sum.remove [of "{..<n}" i "\<lambda>j. f ((w(i := p)) j)"] assms by (simp add: rest)
  moreover have "(\<Sum>j<n. f (w j)) = f (w i) + (\<Sum>j\<in>{..<n} - {i}. f (w j))"
    using sum.remove [of "{..<n}" i "\<lambda>j. f (w j)"] assms by simp
  ultimately show ?thesis by (simp add: ac_simps)
qed

lemma multiset_exchange:
  fixes a :: "'a multiset"
  assumes "a + w = b + p" and "p + (b + r) = m + w"
  shows "m = r + a"
proof -
  have "(r + a) + w = r + (a + w)" by (simp add: ac_simps)
  also have "\<dots> = m + w" using assms by (simp add: ac_simps)
  finally show ?thesis by simp
qed

lemma mset_concat_update:
  "i < length xss \<Longrightarrow> mset (concat (xss[i := xs])) + mset (xss ! i) = mset (concat xss) + mset xs"
proof (induction xss arbitrary: i)
  case (Cons ys xss)
  then show ?case by (cases i) (auto simp: ac_simps)
qed simp

section \<open>The type \<open>int\<close>\<close>

text \<open>The counters of type \<open>int\<close> are kept as integers: passing \<open>int_max\<close> is undefined for an \<open>int\<close>, and wraps around for an \<open>atomic<int>\<close>.\<close>

definition int_max :: int where
  "int_max = 2 ^ 31 - 1"

definition int32 :: "int \<Rightarrow> int" where
  "int32 x = (x + 2 ^ 31) mod 2 ^ 32 - 2 ^ 31"

lemma int32_id: "- (2 ^ 31) \<le> x \<Longrightarrow> x \<le> int_max \<Longrightarrow> int32 x = x"
  by (simp add: int32_def int_max_def)

lemma int32_le: "int32 x \<le> int_max"
  using pos_mod_bound [of "2 ^ 32" "x + 2 ^ 31"] by (simp add: int32_def int_max_def)

lemma upt_snoc_map: "i \<le> j \<Longrightarrow> map f [i..<Suc j] = map f [i..<j] @ [f j]"
  by simp

end
