(* ===== verification/SpscQueue.thy ===== *)
theory SpscQueue
  imports Prelude
begin

text \<open>
  \<open>modern_cpp_core/data_structures/lock_free_queue.hpp\<close>: the single-producer
  single-consumer ring buffer \<open>LockFreeQueue<T, Capacity>\<close>.

  The state \<open>spsc\<close> has the members of the class (\<open>m_buffer\<close>, \<open>m_head\<close>, \<open>m_tail\<close>)
  and the template parameter \<open>Capacity\<close>.  \<open>size_t\<close> indices stay below
  \<open>kRealCapacity\<close>, so they are naturals.  \<open>mv\<close> is what a move leaves behind in its
  source, any function of the element type.  The sequential operations come first;
  \<open>spsc_step\<close> then runs a producer and a consumer thread one memory access at a time.
\<close>

section \<open>State and sequential operations\<close>

record 'a spsc =
  sq_capacity :: nat
  sq_buffer :: "'a list"
  sq_head :: nat
  sq_tail :: nat

definition real_capacity :: "('a, 'z) spsc_scheme \<Rightarrow> nat" where
  "real_capacity q = sq_capacity q + 1"

definition spsc_new :: "nat \<Rightarrow> 'a list \<Rightarrow> 'a spsc" where
  "spsc_new cap buf = \<lparr>sq_capacity = cap, sq_buffer = buf, sq_head = 0, sq_tail = 0\<rparr>"

definition spsc_push :: "'a \<Rightarrow> 'a spsc \<Rightarrow> bool \<times> 'a spsc" where
  "spsc_push value q =
     (let current_tail = sq_tail q;
          next_tail = (current_tail + 1) mod real_capacity q
      in if next_tail = sq_head q then (False, q)
         else (True, q\<lparr>sq_buffer := (sq_buffer q)[current_tail := value],
                       sq_tail := next_tail\<rparr>))"

text \<open>The overload for rvalues also leaves something behind in the caller's object.\<close>

definition spsc_push_move :: "('a \<Rightarrow> 'a) \<Rightarrow> 'a \<Rightarrow> 'a spsc \<Rightarrow> bool \<times> 'a \<times> 'a spsc" where
  "spsc_push_move mv value q =
     (let current_tail = sq_tail q;
          next_tail = (current_tail + 1) mod real_capacity q
      in if next_tail = sq_head q then (False, value, q)
         else (True, mv value,
               q\<lparr>sq_buffer := (sq_buffer q)[current_tail := value], sq_tail := next_tail\<rparr>))"

definition spsc_pop :: "('a \<Rightarrow> 'a) \<Rightarrow> 'a spsc \<Rightarrow> 'a option \<times> 'a spsc" where
  "spsc_pop mv q =
     (let current_head = sq_head q
      in if current_head = sq_tail q then (None, q)
         else (let value = sq_buffer q ! current_head
               in (Some value,
                   q\<lparr>sq_buffer := (sq_buffer q)[current_head := mv value],
                     sq_head := (current_head + 1) mod real_capacity q\<rparr>)))"

section \<open>The queue as a list\<close>

definition spsc_ok :: "'a spsc \<Rightarrow> bool" where
  "spsc_ok q \<longleftrightarrow> length (sq_buffer q) = real_capacity q
     \<and> sq_head q < real_capacity q \<and> sq_tail q < real_capacity q"

definition spsc_count :: "'a spsc \<Rightarrow> nat" where
  "spsc_count q = (sq_tail q + real_capacity q - sq_head q) mod real_capacity q"

definition spsc_items :: "'a spsc \<Rightarrow> 'a list" where
  "spsc_items q =
     map (\<lambda>k. sq_buffer q ! ((sq_head q + k) mod real_capacity q)) [0..<spsc_count q]"

lemma real_capacity_simps [simp]:
  "real_capacity (q\<lparr>sq_buffer := b\<rparr>) = real_capacity q"
  "real_capacity (q\<lparr>sq_head := h\<rparr>) = real_capacity q"
  "real_capacity (q\<lparr>sq_tail := t\<rparr>) = real_capacity q"
  "0 < real_capacity q"
  by (simp_all add: real_capacity_def)

lemma Suc_mod_if: "i < n \<Longrightarrow> Suc i mod n = (if Suc i = n then 0 else Suc i)" for n :: nat
  by simp

lemma mod_below_double: "n \<le> i \<Longrightarrow> i < 2 * n \<Longrightarrow> i mod n = i - n" for n :: nat
  by (simp add: mod_if)

lemma spsc_count_cases:
  "spsc_ok q \<Longrightarrow> spsc_count q =
     (if sq_head q \<le> sq_tail q then sq_tail q - sq_head q
      else sq_tail q + real_capacity q - sq_head q)"
  by (auto simp: spsc_count_def spsc_ok_def mod_if)

lemma spsc_count_bound: "spsc_ok q \<Longrightarrow> spsc_count q \<le> sq_capacity q"
  by (auto simp: spsc_count_cases spsc_ok_def real_capacity_def)

lemma length_spsc_items [simp]: "length (spsc_items q) = spsc_count q"
  by (simp add: spsc_items_def)

lemma spsc_items_Nil: "spsc_ok q \<Longrightarrow> spsc_items q = [] \<longleftrightarrow> sq_head q = sq_tail q"
  by (auto simp: spsc_items_def spsc_count_cases spsc_ok_def)

lemma spsc_full_iff:
  assumes "spsc_ok q"
  shows "Suc (sq_tail q) mod real_capacity q = sq_head q \<longleftrightarrow> spsc_count q = sq_capacity q"
  using assms Suc_mod_if [of "sq_tail q" "real_capacity q"]
  by (auto simp: spsc_count_cases spsc_ok_def real_capacity_def split: if_splits)

lemma spsc_slot:
  assumes "spsc_ok q" "k \<le> spsc_count q"
  shows "(sq_head q + k) mod real_capacity q =
    (if sq_head q + k < real_capacity q then sq_head q + k else sq_head q + k - real_capacity q)"
proof -
  have "sq_head q + k < 2 * real_capacity q"
    using assms spsc_count_bound [OF assms(1)] by (auto simp: spsc_ok_def real_capacity_def)
  then show ?thesis by (auto simp: mod_below_double)
qed

lemma spsc_slot_of_tail:
  assumes "spsc_ok q"
  shows "(sq_head q + spsc_count q) mod real_capacity q = sq_tail q"
  using assms spsc_slot [OF assms, of "spsc_count q"]
  by (auto simp: spsc_count_cases spsc_ok_def)

lemma spsc_live_slot:
  assumes "spsc_ok q" "k < spsc_count q"
  shows "sq_tail q \<noteq> (sq_head q + k) mod real_capacity q"
  using assms spsc_slot [OF assms(1), of k] by (auto simp: spsc_count_cases spsc_ok_def split: if_splits)

text \<open>Writing the free slot at the tail does not show; publishing it appends.\<close>

lemma spsc_items_write_tail [simp]:
  assumes "spsc_ok q"
  shows "spsc_items (q\<lparr>sq_buffer := (sq_buffer q)[sq_tail q := v]\<rparr>) = spsc_items q"
proof -
  have [simp]: "spsc_count (q\<lparr>sq_buffer := (sq_buffer q)[sq_tail q := v]\<rparr>) = spsc_count q"
    by (simp add: spsc_count_def)
  show ?thesis
    using spsc_live_slot [OF assms] by (auto simp: spsc_items_def nth_list_update_neq)
qed

lemma spsc_count_publish:
  assumes "spsc_ok q" "Suc (sq_tail q) mod real_capacity q \<noteq> sq_head q"
  shows "spsc_count (q\<lparr>sq_tail := Suc (sq_tail q) mod real_capacity q\<rparr>) = Suc (spsc_count q)"
proof -
  have "spsc_ok (q\<lparr>sq_tail := Suc (sq_tail q) mod real_capacity q\<rparr>)"
    using assms by (simp add: spsc_ok_def)
  with assms Suc_mod_if [of "sq_tail q" "real_capacity q"] show ?thesis
    by (auto simp: spsc_count_cases spsc_ok_def split: if_splits)
qed

lemma spsc_items_publish:
  assumes "spsc_ok q" "Suc (sq_tail q) mod real_capacity q \<noteq> sq_head q"
  shows "spsc_items (q\<lparr>sq_tail := Suc (sq_tail q) mod real_capacity q\<rparr>) =
    spsc_items q @ [sq_buffer q ! sq_tail q]"
  using spsc_slot_of_tail [OF assms(1)]
  by (simp add: spsc_items_def [of "_ \<lparr>sq_tail := _\<rparr>"] spsc_count_publish [OF assms])
    (simp add: spsc_items_def)

lemma spsc_count_consume:
  assumes "spsc_ok q" "sq_head q \<noteq> sq_tail q"
  shows "spsc_count q = Suc (spsc_count (q\<lparr>sq_head := Suc (sq_head q) mod real_capacity q\<rparr>))"
proof -
  have "spsc_ok (q\<lparr>sq_head := Suc (sq_head q) mod real_capacity q\<rparr>)"
    using assms by (simp add: spsc_ok_def)
  with assms Suc_mod_if [of "sq_head q" "real_capacity q"] show ?thesis
    by (auto simp: spsc_count_cases spsc_ok_def split: if_splits)
qed

lemma spsc_items_consume:
  assumes ok: "spsc_ok q" and ne: "sq_head q \<noteq> sq_tail q"
  shows "spsc_items q = sq_buffer q ! sq_head q #
    spsc_items (q\<lparr>sq_head := Suc (sq_head q) mod real_capacity q\<rparr>)"
proof -
  let ?q' = "q\<lparr>sq_head := Suc (sq_head q) mod real_capacity q\<rparr>"
  have shift: "(sq_head q + Suc k) mod real_capacity q =
      (Suc (sq_head q) mod real_capacity q + k) mod real_capacity q" for k
    by (simp add: mod_add_left_eq)
  have "spsc_items q = map (\<lambda>k. sq_buffer q ! ((sq_head q + k) mod real_capacity q))
      (0 # map Suc [0..<spsc_count ?q'])"
    unfolding spsc_items_def spsc_count_consume [OF ok ne]
    by (subst upt_conv_Cons) (simp_all add: map_Suc_upt del: upt_Suc)
  also have "\<dots> = sq_buffer q ! sq_head q # spsc_items ?q'"
    using ok by (simp add: spsc_items_def shift spsc_ok_def o_def del: add_Suc_right)
  finally show ?thesis .
qed

text \<open>The consumed slot is no longer part of the queue, so what the move left there does not show.\<close>

lemma spsc_items_write_consumed:
  assumes ok: "spsc_ok q" and ne: "sq_head q \<noteq> sq_tail q"
  shows "spsc_items (q\<lparr>sq_buffer := (sq_buffer q)[sq_head q := v],
      sq_head := Suc (sq_head q) mod real_capacity q\<rparr>) =
    spsc_items (q\<lparr>sq_head := Suc (sq_head q) mod real_capacity q\<rparr>)"
proof -
  let ?q' = "q\<lparr>sq_head := Suc (sq_head q) mod real_capacity q\<rparr>"
  have ok': "spsc_ok ?q'" using ok by (simp add: spsc_ok_def)
  have "sq_head q \<noteq> (sq_head ?q' + k) mod real_capacity q" if "k < spsc_count ?q'" for k
    using that ok spsc_slot [OF ok', of k] spsc_count_consume [OF ok ne] spsc_count_bound [OF ok]
      Suc_mod_if [of "sq_head q" "real_capacity q"]
    by (auto simp: spsc_ok_def real_capacity_def split: if_splits)
  then show ?thesis
    by (auto simp: spsc_items_def spsc_count_def nth_list_update_neq)
qed

section \<open>Two threads\<close>

text \<open>
  The program counters name the points between two accesses of the shared members; their
  arguments are the local variables that are live there.  The producer executes \<open>push\<close>:
  load \<open>m_tail\<close>; load \<open>m_head\<close> and compare; write the slot; store \<open>m_tail\<close>.  The
  consumer executes \<open>pop\<close>: load \<open>m_head\<close>; load \<open>m_tail\<close> and compare; move the slot
  out; store \<open>m_head\<close>.  Both start the next call when the last one has returned, and a
  log keeps what each call returned.
\<close>

datatype 'a producer_pc = PIdle | PLoaded 'a nat | PWrite 'a nat nat | PPublish 'a nat nat

datatype 'a consumer_pc = CIdle | CLoaded nat | CRead nat | CPublish nat 'a

record 'a spsc_sys =
  sq_queue :: "'a spsc"
  sq_ppc :: "'a producer_pc"
  sq_cpc :: "'a consumer_pc"
  sq_plog :: "('a \<times> bool) list"
  sq_clog :: "'a option list"

datatype 'a spsc_event = Producer 'a | Consumer

definition spsc_start :: "'a spsc \<Rightarrow> 'a spsc_sys" where
  "spsc_start q = \<lparr>sq_queue = q, sq_ppc = PIdle, sq_cpc = CIdle, sq_plog = [], sq_clog = []\<rparr>"

fun producer_step :: "'a \<Rightarrow> 'a spsc_sys \<Rightarrow> 'a spsc_sys" where
  "producer_step arg s =
     (let q = sq_queue s in
      case sq_ppc s of
        PIdle \<Rightarrow> s\<lparr>sq_ppc := PLoaded arg (sq_tail q)\<rparr>
      | PLoaded value current_tail \<Rightarrow>
          (let next_tail = (current_tail + 1) mod real_capacity q
           in if next_tail = sq_head q
              then s\<lparr>sq_ppc := PIdle, sq_plog := sq_plog s @ [(value, False)]\<rparr>
              else s\<lparr>sq_ppc := PWrite value current_tail next_tail\<rparr>)
      | PWrite value current_tail next_tail \<Rightarrow>
          s\<lparr>sq_queue := q\<lparr>sq_buffer := (sq_buffer q)[current_tail := value]\<rparr>,
            sq_ppc := PPublish value current_tail next_tail\<rparr>
      | PPublish value current_tail next_tail \<Rightarrow>
          s\<lparr>sq_queue := q\<lparr>sq_tail := next_tail\<rparr>, sq_ppc := PIdle,
            sq_plog := sq_plog s @ [(value, True)]\<rparr>)"

fun consumer_step :: "('a \<Rightarrow> 'a) \<Rightarrow> 'a spsc_sys \<Rightarrow> 'a spsc_sys" where
  "consumer_step mv s =
     (let q = sq_queue s in
      case sq_cpc s of
        CIdle \<Rightarrow> s\<lparr>sq_cpc := CLoaded (sq_head q)\<rparr>
      | CLoaded current_head \<Rightarrow>
          (if current_head = sq_tail q
           then s\<lparr>sq_cpc := CIdle, sq_clog := sq_clog s @ [None]\<rparr>
           else s\<lparr>sq_cpc := CRead current_head\<rparr>)
      | CRead current_head \<Rightarrow>
          (let value = sq_buffer q ! current_head
           in s\<lparr>sq_queue := q\<lparr>sq_buffer := (sq_buffer q)[current_head := mv value]\<rparr>,
                sq_cpc := CPublish current_head value\<rparr>)
      | CPublish current_head value \<Rightarrow>
          s\<lparr>sq_queue := q\<lparr>sq_head := (current_head + 1) mod real_capacity q\<rparr>,
            sq_cpc := CIdle, sq_clog := sq_clog s @ [Some value]\<rparr>)"

fun spsc_step :: "('a \<Rightarrow> 'a) \<Rightarrow> 'a spsc_event \<Rightarrow> 'a spsc_sys \<Rightarrow> 'a spsc_sys" where
  "spsc_step mv (Producer arg) s = producer_step arg s"
| "spsc_step mv Consumer s = consumer_step mv s"

text \<open>The action a step makes visible: the call that returns in it.\<close>

fun spsc_vis :: "'a spsc_event \<Rightarrow> 'a spsc_sys \<Rightarrow> 'a queue_act option" where
  "spsc_vis (Producer arg) s =
     (case sq_ppc s of
        PLoaded value t \<Rightarrow>
          (if (t + 1) mod real_capacity (sq_queue s) = sq_head (sq_queue s)
           then Some (Enq value False) else None)
      | PPublish value t n \<Rightarrow> Some (Enq value True)
      | _ \<Rightarrow> None)"
| "spsc_vis Consumer s =
     (case sq_cpc s of
        CLoaded h \<Rightarrow> (if h = sq_tail (sq_queue s) then Some (Deq None) else None)
      | CPublish h value \<Rightarrow> Some (Deq (Some value))
      | _ \<Rightarrow> None)"

section \<open>The invariant\<close>

fun producer_ok :: "'a spsc \<Rightarrow> 'a producer_pc \<Rightarrow> bool" where
  "producer_ok q PIdle \<longleftrightarrow> True"
| "producer_ok q (PLoaded v t) \<longleftrightarrow> t = sq_tail q"
| "producer_ok q (PWrite v t n) \<longleftrightarrow>
     t = sq_tail q \<and> n = Suc t mod real_capacity q \<and> n \<noteq> sq_head q"
| "producer_ok q (PPublish v t n) \<longleftrightarrow>
     t = sq_tail q \<and> n = Suc t mod real_capacity q \<and> n \<noteq> sq_head q \<and> sq_buffer q ! t = v"

fun consumer_ok :: "'a spsc \<Rightarrow> 'a consumer_pc \<Rightarrow> bool" where
  "consumer_ok q CIdle \<longleftrightarrow> True"
| "consumer_ok q (CLoaded h) \<longleftrightarrow> h = sq_head q"
| "consumer_ok q (CRead h) \<longleftrightarrow> h = sq_head q \<and> h \<noteq> sq_tail q"
| "consumer_ok q (CPublish h v) \<longleftrightarrow> h = sq_head q \<and> h \<noteq> sq_tail q"

definition spsc_inv :: "'a spsc_sys \<Rightarrow> bool" where
  "spsc_inv s \<longleftrightarrow> spsc_ok (sq_queue s) \<and> producer_ok (sq_queue s) (sq_ppc s)
     \<and> consumer_ok (sq_queue s) (sq_cpc s)"

text \<open>
  The abstract queue.  Between moving the element out and publishing the new head the slot
  holds what the move left, and the element is in the consumer's hands.
\<close>

definition spsc_abs :: "'a spsc_sys \<Rightarrow> 'a list" where
  "spsc_abs s = (case sq_cpc s of
       CPublish h v \<Rightarrow> v # tl (spsc_items (sq_queue s))
     | _ \<Rightarrow> spsc_items (sq_queue s))"

lemma next_head_not_tail:
  assumes "spsc_ok q" "Suc (sq_tail q) mod real_capacity q \<noteq> sq_head q" "sq_head q \<noteq> sq_tail q"
  shows "Suc (sq_tail q) mod real_capacity q \<noteq> Suc (sq_head q) mod real_capacity q"
  using assms Suc_mod_if [of "sq_head q" "real_capacity q"] Suc_mod_if [of "sq_tail q" "real_capacity q"]
  by (auto simp: spsc_ok_def split: if_splits)

lemma spsc_ok_updates:
  assumes "spsc_ok q"
  shows "spsc_ok (q\<lparr>sq_buffer := (sq_buffer q)[i := v]\<rparr>)"
    "spsc_ok (q\<lparr>sq_tail := n mod real_capacity q\<rparr>)"
    "spsc_ok (q\<lparr>sq_head := n mod real_capacity q\<rparr>)"
  using assms by (simp_all add: spsc_ok_def)

lemma producer_keeps: "spsc_inv s \<Longrightarrow> spsc_inv (producer_step arg s)"
  by (auto simp: spsc_inv_def Let_def spsc_ok_updates spsc_ok_def split: producer_pc.splits;
      cases "sq_cpc s"; auto)

lemma consumer_keeps: "spsc_inv s \<Longrightarrow> spsc_inv (consumer_step mv s)"
  by (auto simp: spsc_inv_def Let_def spsc_ok_updates split: consumer_pc.splits;
      cases "sq_ppc s"; auto simp: next_head_not_tail)

lemma capacity_kept: "sq_capacity (sq_queue (spsc_step mv e s)) = sq_capacity (sq_queue s)"
  by (cases e) (auto simp: Let_def split: producer_pc.splits consumer_pc.splits)

section \<open>Simulation of the bounded FIFO queue\<close>

lemma tl_items_write_head:
  assumes "spsc_ok q" "sq_head q \<noteq> sq_tail q"
  shows "tl (spsc_items (q\<lparr>sq_buffer := (sq_buffer q)[sq_head q := v]\<rparr>)) = tl (spsc_items q)"
proof -
  let ?q = "q\<lparr>sq_buffer := (sq_buffer q)[sq_head q := v]\<rparr>"
  have "spsc_ok ?q" using assms(1) by (rule spsc_ok_updates)
  from spsc_items_consume [OF this] assms show ?thesis
    by (simp add: spsc_items_write_consumed spsc_items_consume [of q])
qed

lemmas spsc_abs_simps = spsc_abs_def spsc_inv_def Let_def

lemma items_nonempty: "spsc_ok q \<Longrightarrow> sq_head q \<noteq> sq_tail q \<Longrightarrow> spsc_items q \<noteq> []"
  by (simp add: spsc_items_Nil)

lemma producer_hidden:
  "spsc_inv s \<Longrightarrow> spsc_vis (Producer arg) s = None \<Longrightarrow> spsc_abs (producer_step arg s) = spsc_abs s"
  by (auto simp: spsc_abs_simps split: producer_pc.splits consumer_pc.splits if_splits)

lemma abs_length:
  "spsc_inv s \<Longrightarrow> length (spsc_abs s) = spsc_count (sq_queue s)"
  by (cases "sq_cpc s") (auto simp: spsc_abs_simps spsc_items_Nil dest: items_nonempty
      simp flip: length_spsc_items)

lemma producer_shown:
  assumes inv: "spsc_inv s" and vis: "spsc_vis (Producer arg) s = Some l"
  shows "fifo_spec (Some (sq_capacity (sq_queue s))) l (spsc_abs s) =
    Some (spsc_abs (producer_step arg s))"
proof (cases "sq_ppc s")
  case (PLoaded v t)
  with inv vis have "l = Enq v False" "spsc_count (sq_queue s) = sq_capacity (sq_queue s)"
    by (auto simp: spsc_inv_def spsc_full_iff split: if_splits)
  moreover have "spsc_abs (producer_step arg s) = spsc_abs s"
    using PLoaded by (auto simp: spsc_abs_def Let_def split: consumer_pc.splits)
  ultimately show ?thesis using inv by (simp add: has_room_def abs_length)
next
  case (PPublish v t n)
  let ?q = "sq_queue s"
  from PPublish inv have q: "spsc_ok ?q" "Suc (sq_tail ?q) mod real_capacity ?q \<noteq> sq_head ?q"
    "sq_buffer ?q ! sq_tail ?q = v" "t = sq_tail ?q" "n = Suc (sq_tail ?q) mod real_capacity ?q"
    by (auto simp: spsc_inv_def)
  then have room: "spsc_count ?q < sq_capacity ?q"
    using spsc_count_bound [of ?q] spsc_full_iff [of ?q] by fastforce
  have "spsc_abs (producer_step arg s) = spsc_abs s @ [v]"
    using PPublish q inv
    by (auto simp: spsc_abs_simps spsc_items_publish spsc_items_Nil split: consumer_pc.splits)
  with PPublish vis room inv show ?thesis by (auto simp: has_room_def abs_length)
qed (use vis in auto)

lemma consumer_hidden:
  "spsc_inv s \<Longrightarrow> spsc_vis Consumer s = None \<Longrightarrow> spsc_abs (consumer_step mv s) = spsc_abs s"
  by (auto simp: spsc_abs_simps tl_items_write_head spsc_items_consume
      split: consumer_pc.splits if_splits)

lemma consumer_shown:
  assumes inv: "spsc_inv s" and vis: "spsc_vis Consumer s = Some l"
  shows "fifo_spec bound l (spsc_abs s) = Some (spsc_abs (consumer_step mv s))"
  using inv vis
  by (auto simp: spsc_abs_simps spsc_items_Nil spsc_items_consume
      split: consumer_pc.splits if_splits)

interpretation spsc: linearizable "spsc_step mv"
  "\<lambda>s. spsc_inv s \<and> sq_capacity (sq_queue s) = cap" spsc_abs spsc_vis "fifo_spec (Some cap)"
proof unfold_locales
  fix s :: "'a spsc_sys" and e l
  assume inv: "spsc_inv s \<and> sq_capacity (sq_queue s) = cap"
  show "spsc_inv (spsc_step mv e s) \<and> sq_capacity (sq_queue (spsc_step mv e s)) = cap"
    using inv capacity_kept [of mv e s] by (cases e) (simp_all add: producer_keeps consumer_keeps
        del: producer_step.simps consumer_step.simps)
  show "spsc_vis e s = None \<Longrightarrow> spsc_abs (spsc_step mv e s) = spsc_abs s"
    using inv by (cases e) (simp_all add: producer_hidden consumer_hidden
        del: producer_step.simps consumer_step.simps spsc_vis.simps)
  show "spsc_vis e s = Some l \<Longrightarrow>
      fifo_spec (Some cap) l (spsc_abs s) = Some (spsc_abs (spsc_step mv e s))"
    using inv producer_shown [of s] consumer_shown [of s]
    by (cases e) (auto simp del: producer_step.simps consumer_step.simps spsc_vis.simps)
qed

section \<open>The sequential operations\<close>

lemma spsc_push_spec:
  assumes ok: "spsc_ok q"
  shows "fifo_spec (Some (sq_capacity q)) (Enq v (fst (spsc_push v q))) (spsc_items q) =
      Some (spsc_items (snd (spsc_push v q)))"
    and "spsc_ok (snd (spsc_push v q))"
proof -
  let ?q = "q\<lparr>sq_buffer := (sq_buffer q)[sq_tail q := v]\<rparr>"
  have ok': "spsc_ok ?q" using ok by (rule spsc_ok_updates)
  show "spsc_ok (snd (spsc_push v q))"
    using ok by (simp add: spsc_push_def spsc_ok_def Let_def)
  have "spsc_count q < sq_capacity q" if "Suc (sq_tail q) mod real_capacity q \<noteq> sq_head q"
    using that spsc_full_iff [OF ok] spsc_count_bound [OF ok] by simp
  then show "fifo_spec (Some (sq_capacity q)) (Enq v (fst (spsc_push v q))) (spsc_items q) =
      Some (spsc_items (snd (spsc_push v q)))"
    using ok spsc_full_iff [OF ok] spsc_items_publish [OF ok']
    by (auto simp: spsc_push_def Let_def has_room_def spsc_ok_def)
qed

lemma spsc_pop_spec:
  assumes ok: "spsc_ok q"
  shows "fifo_spec bound (Deq (fst (spsc_pop mv q))) (spsc_items q) =
      Some (spsc_items (snd (spsc_pop mv q)))"
    and "spsc_ok (snd (spsc_pop mv q))"
  using ok by (simp_all add: spsc_pop_def Let_def spsc_items_Nil spsc_items_consume
      spsc_items_write_consumed spsc_ok_def)

lemma spsc_push_steps:
  "sq_queue (run_sched (spsc_step mv)
     (if fst (spsc_push v q) then replicate 4 (Producer v) else replicate 2 (Producer v))
     (spsc_start q)) = snd (spsc_push v q)"
  by (simp add: spsc_push_def spsc_start_def Let_def numeral_eq_Suc)

lemma spsc_pop_steps:
  "sq_queue (run_sched (spsc_step mv)
     (if fst (spsc_pop mv q) = None then replicate 2 Consumer else replicate 4 Consumer)
     (spsc_start q)) = snd (spsc_pop mv q)"
  by (simp add: spsc_pop_def spsc_start_def Let_def numeral_eq_Suc)

lemma spsc_push_move_push:
  "spsc_push_move mv v q =
     (fst (spsc_push v q), if fst (spsc_push v q) then mv v else v, snd (spsc_push v q))"
  by (simp add: spsc_push_move_def spsc_push_def Let_def)

section \<open>Properties\<close>

definition spsc_reach :: "('a \<Rightarrow> 'a) \<Rightarrow> nat \<Rightarrow> 'a list \<Rightarrow> 'a spsc_event list \<Rightarrow> 'a spsc_sys" where
  "spsc_reach mv cap buf es = run_sched (spsc_step mv) es (spsc_start (spsc_new cap buf))"

lemma spsc_start_inv:
  "length buf = cap + 1 \<Longrightarrow> spsc_inv (spsc_start (spsc_new cap buf))"
  by (simp add: spsc_inv_def spsc_start_def spsc_new_def spsc_ok_def real_capacity_def)

lemma spsc_start_abs: "spsc_abs (spsc_start (spsc_new cap buf)) = []"
  by (simp add: spsc_abs_def spsc_start_def spsc_items_def spsc_count_def spsc_new_def real_capacity_def)

lemma spsc_reach_inv:
  assumes "length buf = cap + 1"
  shows "spsc_inv (spsc_reach mv cap buf es)"
    and "sq_capacity (sq_queue (spsc_reach mv cap buf es)) = cap"
proof -
  have "spsc_inv (spsc_start (spsc_new cap buf)) \<and> sq_capacity (sq_queue (spsc_start (spsc_new cap buf))) = cap"
    using spsc_start_inv [OF assms] by (simp add: spsc_start_def spsc_new_def)
  from spsc.sched_keeps [OF this, of mv es] show "spsc_inv (spsc_reach mv cap buf es)"
    and "sq_capacity (sq_queue (spsc_reach mv cap buf es)) = cap"
    by (simp_all add: spsc_reach_def)
qed

lemma spsc_reach_spec:
  assumes "length buf = cap + 1"
  shows "spec_run (fifo_spec (Some cap))
      (visible_trace (spsc_step mv) spsc_vis es (spsc_start (spsc_new cap buf))) [] =
    Some (spsc_abs (spsc_reach mv cap buf es))"
  using spsc.trace_meets_spec [of "spsc_start (spsc_new cap buf)" cap mv es]
    spsc_start_inv [OF assms]
  by (simp add: spsc_reach_def spsc_start_abs) (simp add: spsc_start_def spsc_new_def)

text \<open>The logs hold exactly the results of the visible actions.\<close>

lemma plog_step:
  "map fst (filter snd (sq_plog (spsc_step mv e s))) =
     map fst (filter snd (sq_plog s)) @ (case spsc_vis e s of None \<Rightarrow> [] | Some l \<Rightarrow> enqueued [l])"
  by (cases e) (auto simp: Let_def split: producer_pc.splits consumer_pc.splits)

lemma clog_step:
  "List.map_filter id (sq_clog (spsc_step mv e s)) =
     List.map_filter id (sq_clog s) @ (case spsc_vis e s of None \<Rightarrow> [] | Some l \<Rightarrow> dequeued [l])"
  by (cases e) (auto simp: Let_def map_filter_def split: producer_pc.splits consumer_pc.splits)

lemma plog_run:
  "map fst (filter snd (sq_plog (run_sched (spsc_step mv) es s))) =
     map fst (filter snd (sq_plog s)) @ enqueued (visible_trace (spsc_step mv) spsc_vis es s)"
  by (induction es arbitrary: s) (auto simp: plog_step split: option.splits)

lemma clog_run:
  "List.map_filter id (sq_clog (run_sched (spsc_step mv) es s)) =
     List.map_filter id (sq_clog s) @ dequeued (visible_trace (spsc_step mv) spsc_vis es s)"
  by (induction es arbitrary: s) (auto simp: clog_step split: option.splits)

text \<open>
  For every interleaving of one producer and one consumer, at the granularity of single
  memory accesses, the elements whose push returned true are, in order, the elements the
  pops returned followed by the elements still in the queue, which never exceed the
  capacity: nothing is lost, duplicated or reordered.
\<close>

theorem spsc_fifo:
  assumes "length buf = cap + 1"
  shows "map fst (filter snd (sq_plog (spsc_reach mv cap buf es))) =
      List.map_filter id (sq_clog (spsc_reach mv cap buf es)) @ spsc_abs (spsc_reach mv cap buf es)
    \<and> length (spsc_abs (spsc_reach mv cap buf es)) \<le> cap"
proof
  let ?s = "spsc_start (spsc_new cap buf)"
  show "map fst (filter snd (sq_plog (spsc_reach mv cap buf es))) =
      List.map_filter id (sq_clog (spsc_reach mv cap buf es)) @ spsc_abs (spsc_reach mv cap buf es)"
    using fifo_run_order [OF spsc_reach_spec [OF assms, of mv es]]
    by (simp add: spsc_reach_def plog_run clog_run) (simp add: spsc_start_def map_filter_def)
  show "length (spsc_abs (spsc_reach mv cap buf es)) \<le> cap"
    using spsc_reach_inv [OF assms, of mv es] spsc_count_bound
    by (metis abs_length spsc_inv_def)
qed

theorem spsc_fifo_witness:
  "map fst (filter snd (sq_plog (spsc_reach id 1 [0, 0 :: int] [Producer 7, Producer 7, Producer 7]))) =
      List.map_filter id (sq_clog (spsc_reach id 1 [0, 0] [Producer 7, Producer 7, Producer 7]))
      @ spsc_abs (spsc_reach id 1 [0, 0] [Producer 7, Producer 7, Producer 7])
    \<and> length (spsc_abs (spsc_reach id 1 [0, 0 :: int] [Producer 7, Producer 7, Producer 7])) \<le> 1"
  by (rule spsc_fifo) simp

text \<open>
  (C1) Linearizability: in every interleaving the calls, in the order in which they return,
  form a run of the bounded FIFO queue specification.  In particular a push is refused
  only at a moment when the queue holds \<open>Capacity\<close> elements, and a pop answers
  \<open>nullopt\<close> only at a moment when it is empty.
\<close>

theorem spsc_linearizable:
  assumes "length buf = cap + 1"
  shows "spec_run (fifo_spec (Some cap))
      (visible_trace (spsc_step mv) spsc_vis es (spsc_start (spsc_new cap buf))) [] =
    Some (spsc_abs (spsc_reach mv cap buf es))"
  using assms by (rule spsc_reach_spec)

theorem spsc_linearizable_witness:
  "spec_run (fifo_spec (Some 1))
      (visible_trace (spsc_step id) spsc_vis [Producer 7, Consumer, Producer 8, Consumer]
        (spsc_start (spsc_new 1 [0, 0 :: int]))) [] =
    Some (spsc_abs (spsc_reach id 1 [0, 0] [Producer 7, Consumer, Producer 8, Consumer]))"
  by (rule spsc_linearizable) simp

text \<open>
  Freedom from data races on the slots: in no reachable state is the producer about to
  write the slot that the consumer is about to read, and both accesses are inside the
  array.
\<close>

theorem spsc_no_slot_race:
  assumes "length buf = cap + 1"
    and "sq_ppc (spsc_reach mv cap buf es) = PWrite v t n"
    and "sq_cpc (spsc_reach mv cap buf es) = CRead h"
  shows "t \<noteq> h \<and> t < length (sq_buffer (sq_queue (spsc_reach mv cap buf es)))
    \<and> h < length (sq_buffer (sq_queue (spsc_reach mv cap buf es)))"
  using spsc_reach_inv(1) [OF assms(1), of mv es] assms(2,3)
  by (auto simp: spsc_inv_def spsc_ok_def)

theorem spsc_no_slot_race_witness:
  "(0 :: nat) < length [1 :: nat] \<and>
   (let s = spsc_reach id 1 [0, 0 :: int]
        [Producer 7, Producer 7, Producer 7, Producer 7, Consumer, Consumer] in
      sq_cpc s = CRead 0)
   \<and> (let s = spsc_reach id 2 [0, 0, 0 :: int]
        [Producer 7, Producer 7, Producer 7, Producer 7, Consumer, Consumer, Producer 8, Producer 8] in
      1 \<noteq> (0 :: nat) \<and> 1 < length (sq_buffer (sq_queue s)) \<and> 0 < length (sq_buffer (sq_queue s)))"
proof -
  let ?es = "[Producer 7, Producer 7, Producer 7, Producer 7, Consumer, Consumer, Producer 8, Producer 8]"
  have "sq_ppc (spsc_reach id 2 [0, 0, 0 :: int] ?es) = PWrite 8 1 2"
    and "sq_cpc (spsc_reach id 2 [0, 0, 0 :: int] ?es) = CRead 0"
    by (simp_all add: spsc_reach_def spsc_start_def spsc_new_def real_capacity_def Let_def)
  from spsc_no_slot_race [OF _ this] show ?thesis
    by (simp add: spsc_reach_def spsc_start_def spsc_new_def real_capacity_def Let_def)
qed

text \<open>
  Run alone, the four steps of the producer are the sequential \<open>push\<close> and the four
  steps of the consumer are \<open>pop\<close>, and each of these implements its operation of the
  bounded FIFO queue on the list of stored elements, error answers included.
\<close>

theorem spsc_sequential:
  assumes "spsc_ok q"
  shows "fifo_spec (Some (sq_capacity q)) (Enq v (fst (spsc_push v q))) (spsc_items q) =
      Some (spsc_items (snd (spsc_push v q)))
    \<and> fifo_spec (Some (sq_capacity q)) (Deq (fst (spsc_pop mv q))) (spsc_items q) =
      Some (spsc_items (snd (spsc_pop mv q)))
    \<and> spsc_ok (snd (spsc_push v q)) \<and> spsc_ok (snd (spsc_pop mv q))
    \<and> snd (spsc_push v q) = sq_queue (run_sched (spsc_step mv)
        (if fst (spsc_push v q) then replicate 4 (Producer v) else replicate 2 (Producer v))
        (spsc_start q))
    \<and> snd (spsc_pop mv q) = sq_queue (run_sched (spsc_step mv)
        (if fst (spsc_pop mv q) = None then replicate 2 Consumer else replicate 4 Consumer)
        (spsc_start q))"
  using spsc_push_spec [OF assms] spsc_pop_spec [OF assms] spsc_push_steps spsc_pop_steps
  by metis

theorem spsc_sequential_witness:
  "spsc_ok (spsc_new 1 [0, 0 :: int]) \<and>
   fifo_spec (Some 1) (Enq 7 (fst (spsc_push 7 (spsc_new 1 [0, 0 :: int]))))
      (spsc_items (spsc_new 1 [0, 0])) =
    Some (spsc_items (snd (spsc_push 7 (spsc_new 1 [0, 0 :: int]))))"
proof -
  have ok: "spsc_ok (spsc_new 1 [0, 0 :: int])"
    by (simp add: spsc_ok_def spsc_new_def real_capacity_def)
  have "sq_capacity (spsc_new 1 [0, 0 :: int]) = 1" by (simp add: spsc_new_def)
  with ok spsc_sequential [OF ok, of 7 id] show ?thesis by simp
qed

end
