(* ===== verification/TaggedStack.thy ===== *)
theory TaggedStack
  imports Prelude "HOL-Library.Word"
begin

text \<open>
  \<open>modern_cpp_core/data_structures/lock_free_stack.hpp\<close>: the bounded lock-free stack
  \<open>LockFreeStack<T, Capacity>\<close>, a Treiber stack and a free list over one array of nodes,
  both headed by an index with a version tag.

  Any number of threads execute \<open>push_impl\<close> and \<open>pop\<close>; a step is one access to shared
  memory together with the thread-local computation that follows it.  Indices are
  \<open>uint32_t\<close>.  The model is polymorphic in the type of the tags: the code's stack has
  \<open>32 word\<close> tags, and the same step function with \<open>nat\<close> tags, which never wrap, is the
  ideal stack that the proofs are about first.
\<close>

section \<open>State\<close>

type_synonym index = "32 word"

definition kNullIndex :: index where
  "kNullIndex = 0xFFFFFFFF"

datatype 't tagged = Tagged (ti_index: index) (ti_tag: 't)

datatype 'a ts_call = CallPush 'a | CallPop

text \<open>
  The points between two accesses, with the local variables live there: \<open>old_head\<close>,
  \<open>old_free_head\<close>, the next index just loaded, the index of the node the call holds and
  the result it will return.
\<close>

datatype ('a, 't) ts_pc =
    TIdle
  | PopNext "'t tagged"
  | PopCas "'t tagged" index
  | PopTake index
  | PopClear index "'a option"
  | PopFreeLoad index "'a option"
  | PopLink index "'a option" "'t tagged"
  | PopFreeCas index "'a option" "'t tagged"
  | PushNext 'a "'t tagged"
  | PushFreeCas 'a "'t tagged" index
  | PushStore 'a index
  | PushLoad 'a index
  | PushLink 'a index "'t tagged"
  | PushCas 'a index "'t tagged"

record ('a, 't) tstack =
  ts_data :: "index \<Rightarrow> 'a option"
  ts_next :: "index \<Rightarrow> index"
  ts_head :: "'t tagged"
  ts_free :: "'t tagged"
  ts_pcs :: "nat \<Rightarrow> ('a, 't) ts_pc"
  ts_log :: "(nat \<times> 'a stack_act) list"

text \<open>The constructor threads all nodes onto the free list.\<close>

definition ts_new :: "nat \<Rightarrow> ('a, 't::zero) tstack" where
  "ts_new cap = \<lparr>
     ts_data = (\<lambda>_. None),
     ts_next = (\<lambda>i. if unat i < cap - 1 then i + 1 else kNullIndex),
     ts_head = Tagged kNullIndex 0,
     ts_free = Tagged 0 0,
     ts_pcs = (\<lambda>_. TIdle),
     ts_log = []\<rparr>"

abbreviation goto :: "nat \<Rightarrow> ('a, 't) ts_pc \<Rightarrow> ('a, 't) tstack \<Rightarrow> ('a, 't) tstack" where
  "goto t pc s \<equiv> s\<lparr>ts_pcs := (ts_pcs s)(t := pc)\<rparr>"

abbreviation answer :: "nat \<Rightarrow> 'a stack_act \<Rightarrow> ('a, 't) tstack \<Rightarrow> ('a, 't) tstack" where
  "answer t r s \<equiv> s\<lparr>ts_pcs := (ts_pcs s)(t := TIdle), ts_log := ts_log s @ [(t, r)]\<rparr>"

text \<open>The tests at the top of the two acquiring loops, after the head has been (re)loaded.\<close>

definition pop_loop :: "nat \<Rightarrow> 't tagged \<Rightarrow> ('a, 't) tstack \<Rightarrow> ('a, 't) tstack" where
  "pop_loop t old_head s =
     (if ti_index old_head = kNullIndex then answer t (Pop None) s else goto t (PopNext old_head) s)"

definition push_loop :: "nat \<Rightarrow> 'a \<Rightarrow> 't tagged \<Rightarrow> ('a, 't) tstack \<Rightarrow> ('a, 't) tstack" where
  "push_loop t value old_free s =
     (if ti_index old_free = kNullIndex then answer t (Push value False) s
      else goto t (PushNext value old_free) s)"

text \<open>
  An event is a thread, the call it makes when it is idle, and whether a weak
  compare-exchange executed in this step fails spuriously.  A failed compare-exchange
  reloads the expected value.
\<close>

type_synonym 'a ts_event = "nat \<times> 'a ts_call \<times> bool"

fun ts_step ::
  "('a \<Rightarrow> 'a) \<Rightarrow> 'a ts_event \<Rightarrow> ('a, 't::{plus, one}) tstack \<Rightarrow> ('a, 't) tstack" where
  "ts_step mv (t, call, spurious) s =
     (case ts_pcs s t of
        TIdle \<Rightarrow>
          (case call of
             CallPop \<Rightarrow> pop_loop t (ts_head s) s
           | CallPush value \<Rightarrow> push_loop t value (ts_free s) s)
      | PopNext old_head \<Rightarrow> goto t (PopCas old_head (ts_next s (ti_index old_head))) s
      | PopCas old_head next_index \<Rightarrow>
          (if ts_head s = old_head \<and> \<not> spurious
           then goto t (PopTake (ti_index old_head))
                  (s\<lparr>ts_head := Tagged next_index (ti_tag old_head + 1)\<rparr>)
           else pop_loop t (ts_head s) s)
      | PopTake i \<Rightarrow>
          goto t (PopClear i (ts_data s i))
            (s\<lparr>ts_data := (ts_data s)(i := map_option mv (ts_data s i))\<rparr>)
      | PopClear i result \<Rightarrow>
          goto t (PopFreeLoad i result) (s\<lparr>ts_data := (ts_data s)(i := None)\<rparr>)
      | PopFreeLoad i result \<Rightarrow> goto t (PopLink i result (ts_free s)) s
      | PopLink i result old_free \<Rightarrow>
          goto t (PopFreeCas i result old_free)
            (s\<lparr>ts_next := (ts_next s)(i := ti_index old_free)\<rparr>)
      | PopFreeCas i result old_free \<Rightarrow>
          (if ts_free s = old_free \<and> \<not> spurious
           then answer t (Pop result) (s\<lparr>ts_free := Tagged i (ti_tag old_free + 1)\<rparr>)
           else goto t (PopLink i result (ts_free s)) s)
      | PushNext value old_free \<Rightarrow>
          goto t (PushFreeCas value old_free (ts_next s (ti_index old_free))) s
      | PushFreeCas value old_free next_index \<Rightarrow>
          (if ts_free s = old_free \<and> \<not> spurious
           then goto t (PushStore value (ti_index old_free))
                  (s\<lparr>ts_free := Tagged next_index (ti_tag old_free + 1)\<rparr>)
           else push_loop t value (ts_free s) s)
      | PushStore value i \<Rightarrow>
          goto t (PushLoad value i) (s\<lparr>ts_data := (ts_data s)(i := Some value)\<rparr>)
      | PushLoad value i \<Rightarrow> goto t (PushLink value i (ts_head s)) s
      | PushLink value i old_head \<Rightarrow>
          goto t (PushCas value i old_head)
            (s\<lparr>ts_next := (ts_next s)(i := ti_index old_head)\<rparr>)
      | PushCas value i old_head \<Rightarrow>
          (if ts_head s = old_head \<and> \<not> spurious
           then answer t (Push value True) (s\<lparr>ts_head := Tagged i (ti_tag old_head + 1)\<rparr>)
           else goto t (PushLink value i (ts_head s)) s))"

declare ts_step.simps [simp del]

section \<open>The visible actions\<close>

text \<open>
  Each call has one step at which it takes effect: a push when it swings \<open>m_head\<close> to its
  node or reads an empty free list, a pop when it swings \<open>m_head\<close> past a node or reads a
  null \<open>m_head\<close>.
\<close>

fun ts_vis :: "'a ts_event \<Rightarrow> ('a, 't) tstack \<Rightarrow> (nat \<times> 'a stack_act) option" where
  "ts_vis (t, call, spurious) s =
     (case ts_pcs s t of
        TIdle \<Rightarrow>
          (case call of
             CallPop \<Rightarrow> if ti_index (ts_head s) = kNullIndex then Some (t, Pop None) else None
           | CallPush v \<Rightarrow>
               if ti_index (ts_free s) = kNullIndex then Some (t, Push v False) else None)
      | PopCas old_head n \<Rightarrow>
          if ts_head s = old_head \<and> \<not> spurious
          then Some (t, Pop (ts_data s (ti_index old_head)))
          else if ti_index (ts_head s) = kNullIndex then Some (t, Pop None) else None
      | PushFreeCas v old_free n \<Rightarrow>
          if ts_free s = old_free \<and> \<not> spurious then None
          else if ti_index (ts_free s) = kNullIndex then Some (t, Push v False) else None
      | PushCas v i old_head \<Rightarrow>
          if ts_head s = old_head \<and> \<not> spurious then Some (t, Push v True) else None
      | _ \<Rightarrow> None)"

declare ts_vis.simps [simp del]

definition ts_ref :: "index \<Rightarrow> index option" where
  "ts_ref i = (if i = kNullIndex then None else Some i)"

definition ts_nxt :: "(index \<Rightarrow> index) \<Rightarrow> index \<Rightarrow> index option" where
  "ts_nxt nx i = ts_ref (nx i)"

definition ts_abs :: "nat \<Rightarrow> ('a, 't) tstack \<Rightarrow> 'a list" where
  "ts_abs cap s =
     map (\<lambda>i. the (ts_data s i)) (cells (ts_nxt (ts_next s)) cap (ts_ref (ti_index (ts_head s))))"

section \<open>The invariant of the ideal stack\<close>

fun ts_own :: "('a, 't) ts_pc \<Rightarrow> index option" where
  "ts_own (PopTake i) = Some i"
| "ts_own (PopClear i r) = Some i"
| "ts_own (PopFreeLoad i r) = Some i"
| "ts_own (PopLink i r f) = Some i"
| "ts_own (PopFreeCas i r f) = Some i"
| "ts_own (PushStore v i) = Some i"
| "ts_own (PushLoad v i) = Some i"
| "ts_own (PushLink v i h) = Some i"
| "ts_own (PushCas v i h) = Some i"
| "ts_own _ = None"

text \<open>A remembered head is either current or carries an older tag.\<close>

definition remembers :: "nat tagged \<Rightarrow> nat tagged \<Rightarrow> bool" where
  "remembers old cur \<longleftrightarrow> ti_tag old < ti_tag cur \<or> old = cur"

fun ts_pc_ok :: "('a, nat) tstack \<Rightarrow> ('a, nat) ts_pc \<Rightarrow> bool" where
  "ts_pc_ok s TIdle \<longleftrightarrow> True"
| "ts_pc_ok s (PopNext h) \<longleftrightarrow> ti_index h \<noteq> kNullIndex \<and> remembers h (ts_head s)"
| "ts_pc_ok s (PopCas h n) \<longleftrightarrow> ti_index h \<noteq> kNullIndex \<and> remembers h (ts_head s)
     \<and> (h = ts_head s \<longrightarrow> ts_next s (ti_index h) = n)"
| "ts_pc_ok s (PopTake i) \<longleftrightarrow> ts_data s i \<noteq> None"
| "ts_pc_ok s (PopClear i r) \<longleftrightarrow> r \<noteq> None"
| "ts_pc_ok s (PopFreeLoad i r) \<longleftrightarrow> r \<noteq> None"
| "ts_pc_ok s (PopLink i r f) \<longleftrightarrow> r \<noteq> None"
| "ts_pc_ok s (PopFreeCas i r f) \<longleftrightarrow> r \<noteq> None \<and> ts_next s i = ti_index f"
| "ts_pc_ok s (PushNext v f) \<longleftrightarrow> ti_index f \<noteq> kNullIndex \<and> remembers f (ts_free s)"
| "ts_pc_ok s (PushFreeCas v f n) \<longleftrightarrow> ti_index f \<noteq> kNullIndex \<and> remembers f (ts_free s)
     \<and> (f = ts_free s \<longrightarrow> ts_next s (ti_index f) = n)"
| "ts_pc_ok s (PushStore v i) \<longleftrightarrow> True"
| "ts_pc_ok s (PushLoad v i) \<longleftrightarrow> ts_data s i = Some v"
| "ts_pc_ok s (PushLink v i h) \<longleftrightarrow> ts_data s i = Some v"
| "ts_pc_ok s (PushCas v i h) \<longleftrightarrow> ts_data s i = Some v \<and> ts_next s i = ti_index h"

text \<open>
  The nodes are divided between the free list, the stack and the calls that hold one; a
  call holds at most one node and no node is in two places.
\<close>

definition ts_parts :: "nat \<Rightarrow> ('a, nat) tstack \<Rightarrow> index list \<Rightarrow> index list \<Rightarrow> bool" where
  "ts_parts cap s fs ss \<longleftrightarrow>
     chain (ts_nxt (ts_next s)) (ts_ref (ti_index (ts_free s))) fs None
   \<and> chain (ts_nxt (ts_next s)) (ts_ref (ti_index (ts_head s))) ss None
   \<and> distinct (fs @ ss)
   \<and> (\<forall>t i. ts_own (ts_pcs s t) = Some i \<longrightarrow> i \<notin> set fs \<and> i \<notin> set ss)
   \<and> (\<forall>t u i. ts_own (ts_pcs s t) = Some i \<longrightarrow> ts_own (ts_pcs s u) = Some i \<longrightarrow> t = u)
   \<and> set fs \<union> set ss \<union> {i. \<exists>t. ts_own (ts_pcs s t) = Some i} = {i. unat i < cap}
   \<and> (\<forall>i \<in> set ss. ts_data s i \<noteq> None)"

definition ts_inv :: "nat \<Rightarrow> ('a, nat) tstack \<Rightarrow> index list \<Rightarrow> index list \<Rightarrow> bool" where
  "ts_inv cap s fs ss \<longleftrightarrow> cap < 2 ^ 32 \<and> ts_parts cap s fs ss \<and> (\<forall>t. ts_pc_ok s (ts_pcs s t))"

subsection \<open>What a change of the shared members does to the other threads\<close>

lemma pc_ok_irrelevant [simp]:
  "ts_pc_ok (s\<lparr>ts_pcs := p\<rparr>) pc = ts_pc_ok s pc"
  "ts_pc_ok (s\<lparr>ts_log := l\<rparr>) pc = ts_pc_ok s pc"
  by (cases pc; simp)+

lemma pc_ok_head:
  "ts_pc_ok s pc \<Longrightarrow> ti_tag (ts_head s) < ti_tag h \<Longrightarrow> ts_pc_ok (s\<lparr>ts_head := h\<rparr>) pc"
  by (cases pc) (auto simp: remembers_def)

lemma pc_ok_free:
  "ts_pc_ok s pc \<Longrightarrow> ti_tag (ts_free s) < ti_tag f \<Longrightarrow> ts_pc_ok (s\<lparr>ts_free := f\<rparr>) pc"
  by (cases pc) (auto simp: remembers_def)

lemma pc_ok_data:
  "ts_pc_ok s pc \<Longrightarrow> ts_own pc \<noteq> Some i \<Longrightarrow> ts_pc_ok (s\<lparr>ts_data := (ts_data s)(i := x)\<rparr>) pc"
  by (cases pc) auto

lemma pc_ok_next:
  "ts_pc_ok s pc \<Longrightarrow> ts_own pc \<noteq> Some i \<Longrightarrow>
     (ti_index (ts_head s) \<noteq> kNullIndex \<Longrightarrow> i \<noteq> ti_index (ts_head s)) \<Longrightarrow>
     (ti_index (ts_free s) \<noteq> kNullIndex \<Longrightarrow> i \<noteq> ti_index (ts_free s)) \<Longrightarrow>
     ts_pc_ok (s\<lparr>ts_next := (ts_next s)(i := x)\<rparr>) pc"
  by (cases pc) auto

subsection \<open>Moves between the three parts\<close>

lemma ts_nxt_upd [simp]: "ts_nxt (nx(i := j)) = (ts_nxt nx)(i := ts_ref j)"
  by (auto simp: ts_nxt_def)

lemma ts_ref_simps [simp]:
  "ts_ref kNullIndex = None"
  "i \<noteq> kNullIndex \<Longrightarrow> ts_ref i = Some i"
  "ts_ref i = None \<longleftrightarrow> i = kNullIndex"
  "ts_ref i = Some j \<longleftrightarrow> i = j \<and> i \<noteq> kNullIndex"
  by (auto simp: ts_ref_def)

lemma small_not_null: "cap < 2 ^ 32 \<Longrightarrow> unat i < cap \<Longrightarrow> i \<noteq> kNullIndex"
  by (auto simp: kNullIndex_def)

lemma head_in_stack:
  "ts_parts cap s fs ss \<Longrightarrow> ti_index (ts_head s) \<noteq> kNullIndex \<Longrightarrow>
     \<exists>ss'. ss = ti_index (ts_head s) # ss'"
  by (auto simp: ts_parts_def chain_Some_None)

lemma head_in_free:
  "ts_parts cap s fs ss \<Longrightarrow> ti_index (ts_free s) \<noteq> kNullIndex \<Longrightarrow>
     \<exists>fs'. fs = ti_index (ts_free s) # fs'"
  by (auto simp: ts_parts_def chain_Some_None)

lemma parts_goto:
  assumes "ts_parts cap s fs ss" "ts_own pc = ts_own (ts_pcs s t)"
  shows "ts_parts cap (goto t pc s) fs ss"
proof -
  have "ts_own (((ts_pcs s)(t := pc)) u) = ts_own (ts_pcs s u)" for u
    using assms(2) by simp
  with assms(1) show ?thesis unfolding ts_parts_def by simp
qed

lemma inv_goto:
  assumes "ts_inv cap s fs ss" "ts_own pc = ts_own (ts_pcs s t)" "ts_pc_ok s pc"
  shows "ts_inv cap (goto t pc s) fs ss"
  using assms parts_goto [of cap s fs ss pc t] by (simp add: ts_inv_def)

lemma parts_log [simp]: "ts_parts cap (s\<lparr>ts_log := l\<rparr>) fs ss = ts_parts cap s fs ss"
  by (simp add: ts_parts_def)

lemma inv_log [simp]: "ts_inv cap (s\<lparr>ts_log := l\<rparr>) fs ss = ts_inv cap s fs ss"
  by (simp add: ts_inv_def)

lemma inv_answer:
  assumes "ts_inv cap s fs ss" "ts_own (ts_pcs s t) = None"
  shows "ts_inv cap (answer t r s) fs ss"
proof -
  have "ts_inv cap (goto t TIdle s) fs ss" using assms by (simp add: inv_goto)
  then have "ts_inv cap (goto t TIdle s\<lparr>ts_log := ts_log s @ [(t, r)]\<rparr>) fs ss"
    by (simp only: inv_log)
  then show ?thesis by simp
qed

lemma inv_data:
  assumes inv: "ts_inv cap s fs ss" and own: "ts_own (ts_pcs s t) = Some i"
    and pc: "ts_own pc = Some i" "ts_pc_ok (s\<lparr>ts_data := (ts_data s)(i := x)\<rparr>) pc"
  shows "ts_inv cap (goto t pc (s\<lparr>ts_data := (ts_data s)(i := x)\<rparr>)) fs ss"
proof -
  let ?s = "s\<lparr>ts_data := (ts_data s)(i := x)\<rparr>"
  have other: "ts_own (ts_pcs s u) \<noteq> Some i" if "u \<noteq> t" for u
    using inv own that by (auto simp: ts_inv_def ts_parts_def)
  have "i \<notin> set ss" using inv own by (auto simp: ts_inv_def ts_parts_def)
  then have "ts_parts cap ?s fs ss"
    using inv by (auto simp: ts_inv_def ts_parts_def)
  then have "ts_parts cap (goto t pc ?s) fs ss"
    using own pc by (intro parts_goto) simp_all
  moreover have "ts_pc_ok ?s (ts_pcs s u)" if "u \<noteq> t" for u
    using inv other [OF that] by (intro pc_ok_data) (simp_all add: ts_inv_def)
  ultimately show ?thesis using inv pc(2) by (simp add: ts_inv_def)
qed

lemma inv_next:
  assumes inv: "ts_inv cap s fs ss" and own: "ts_own (ts_pcs s t) = Some i"
    and pc: "ts_own pc = Some i" "ts_pc_ok (s\<lparr>ts_next := (ts_next s)(i := x)\<rparr>) pc"
  shows "ts_inv cap (goto t pc (s\<lparr>ts_next := (ts_next s)(i := x)\<rparr>)) fs ss"
proof -
  let ?s = "s\<lparr>ts_next := (ts_next s)(i := x)\<rparr>"
  have parts: "ts_parts cap s fs ss" using inv by (simp add: ts_inv_def)
  have other: "ts_own (ts_pcs s u) \<noteq> Some i" if "u \<noteq> t" for u
    using parts own that by (auto simp: ts_parts_def)
  have out: "i \<notin> set ss" "i \<notin> set fs" using parts own by (auto simp: ts_parts_def)
  then have "ts_parts cap ?s fs ss" using parts by (simp add: ts_parts_def)
  then have "ts_parts cap (goto t pc ?s) fs ss"
    using own pc by (intro parts_goto) simp_all
  moreover have "ts_pc_ok ?s (ts_pcs s u)" if "u \<noteq> t" for u
    using inv other [OF that] out head_in_stack [OF parts] head_in_free [OF parts]
    by (intro pc_ok_next) (auto simp: ts_inv_def)
  ultimately show ?thesis using inv pc(2) by (simp add: ts_inv_def)
qed

lemma inv_take_head:
  assumes inv: "ts_inv cap s fs ss" and own: "ts_own (ts_pcs s t) = None"
    and old: "ts_head s = h" "ti_index h \<noteq> kNullIndex" "ts_next s (ti_index h) = n"
  shows "\<exists>ss'. ss = ti_index h # ss' \<and>
    ts_inv cap (goto t (PopTake (ti_index h)) (s\<lparr>ts_head := Tagged n (ti_tag h + 1)\<rparr>)) fs ss'"
proof -
  have parts: "ts_parts cap s fs ss" using inv by (simp add: ts_inv_def)
  from head_in_stack [OF parts] old obtain ss' where ss: "ss = ti_index h # ss'" by auto
  let ?s = "s\<lparr>ts_head := Tagged n (ti_tag h + 1)\<rparr>"
  let ?g = "goto t (PopTake (ti_index h)) ?s"
  have own': "ts_own (ts_pcs ?g u) = Some i \<longleftrightarrow> ts_own (ts_pcs s u) = Some i \<or> u = t \<and> i = ti_index h"
    for u i using own by auto
  have "ts_parts cap ?g fs ss'"
    unfolding ts_parts_def own'
  proof (intro conjI)
    show "chain (ts_nxt (ts_next ?g)) (ts_ref (ti_index (ts_head ?g))) ss' None"
      using parts ss old by (auto simp: ts_parts_def ts_nxt_def)
    show "set fs \<union> set ss' \<union> {i. \<exists>u. ts_own (ts_pcs s u) = Some i \<or> u = t \<and> i = ti_index h} =
        {i. unat i < cap}"
      using parts ss by (auto simp: ts_parts_def)
  qed (use parts ss own in \<open>auto simp: ts_parts_def\<close>)
  moreover have "ts_pc_ok ?s (ts_pcs s u)" for u
    using inv old by (intro pc_ok_head) (auto simp: ts_inv_def)
  moreover have "ts_pc_ok ?s (PopTake (ti_index h))" using parts ss by (simp add: ts_parts_def)
  ultimately show ?thesis using inv ss by (auto simp: ts_inv_def)
qed

lemma inv_take_free:
  assumes inv: "ts_inv cap s fs ss" and own: "ts_own (ts_pcs s t) = None"
    and old: "ts_free s = f" "ti_index f \<noteq> kNullIndex" "ts_next s (ti_index f) = n"
  shows "\<exists>fs'. fs = ti_index f # fs' \<and>
    ts_inv cap (goto t (PushStore v (ti_index f)) (s\<lparr>ts_free := Tagged n (ti_tag f + 1)\<rparr>)) fs' ss"
proof -
  have parts: "ts_parts cap s fs ss" using inv by (simp add: ts_inv_def)
  from head_in_free [OF parts] old obtain fs' where fs: "fs = ti_index f # fs'" by auto
  let ?s = "s\<lparr>ts_free := Tagged n (ti_tag f + 1)\<rparr>"
  let ?g = "goto t (PushStore v (ti_index f)) ?s"
  have own': "ts_own (ts_pcs ?g u) = Some i \<longleftrightarrow> ts_own (ts_pcs s u) = Some i \<or> u = t \<and> i = ti_index f"
    for u i using own by auto
  have "ts_parts cap ?g fs' ss"
    unfolding ts_parts_def own'
  proof (intro conjI)
    show "chain (ts_nxt (ts_next ?g)) (ts_ref (ti_index (ts_free ?g))) fs' None"
      using parts fs old by (auto simp: ts_parts_def ts_nxt_def)
    show "set fs' \<union> set ss \<union> {i. \<exists>u. ts_own (ts_pcs s u) = Some i \<or> u = t \<and> i = ti_index f} =
        {i. unat i < cap}"
      using parts fs by (auto simp: ts_parts_def)
  qed (use parts fs own in \<open>auto simp: ts_parts_def\<close>)
  moreover have "ts_pc_ok ?s (ts_pcs s u)" for u
    using inv old by (intro pc_ok_free) (auto simp: ts_inv_def)
  ultimately show ?thesis using inv fs by (auto simp: ts_inv_def)
qed

lemma inv_give_head:
  assumes inv: "ts_inv cap s fs ss" and own: "ts_own (ts_pcs s t) = Some i"
    and link: "ts_next s i = ti_index (ts_head s)" and data: "ts_data s i \<noteq> None"
  shows "ts_inv cap (goto t TIdle (s\<lparr>ts_head := Tagged i (ti_tag (ts_head s) + 1)\<rparr>)) fs (i # ss)"
proof -
  have parts: "ts_parts cap s fs ss" using inv by (simp add: ts_inv_def)
  let ?s = "s\<lparr>ts_head := Tagged i (ti_tag (ts_head s) + 1)\<rparr>"
  let ?g = "goto t TIdle ?s"
  have own': "ts_own (ts_pcs ?g u) = Some j \<longleftrightarrow> u \<noteq> t \<and> ts_own (ts_pcs s u) = Some j" for u j
    by auto
  have "i \<noteq> kNullIndex"
    using parts own inv by (intro small_not_null [of cap]) (auto simp: ts_parts_def ts_inv_def)
  have "ts_parts cap ?g fs (i # ss)"
    unfolding ts_parts_def own'
  proof (intro conjI)
    show "chain (ts_nxt (ts_next ?g)) (ts_ref (ti_index (ts_head ?g))) (i # ss) None"
      using parts link \<open>i \<noteq> kNullIndex\<close> by (simp add: ts_parts_def ts_nxt_def)
    have "{j. \<exists>u. ts_own (ts_pcs s u) = Some j} =
        insert i {j. \<exists>u. u \<noteq> t \<and> ts_own (ts_pcs s u) = Some j}"
      using own by force
    then show "set fs \<union> set (i # ss) \<union> {j. \<exists>u. u \<noteq> t \<and> ts_own (ts_pcs s u) = Some j} =
        {i. unat i < cap}"
      using parts by (auto simp: ts_parts_def)
  qed (use parts own data in \<open>auto simp: ts_parts_def\<close>)
  moreover have "ts_pc_ok ?s (ts_pcs s u)" for u
    using inv by (intro pc_ok_head) (auto simp: ts_inv_def)
  ultimately show ?thesis using inv by (auto simp: ts_inv_def)
qed

lemma inv_give_free:
  assumes inv: "ts_inv cap s fs ss" and own: "ts_own (ts_pcs s t) = Some i"
    and link: "ts_next s i = ti_index (ts_free s)"
  shows "ts_inv cap (goto t TIdle (s\<lparr>ts_free := Tagged i (ti_tag (ts_free s) + 1)\<rparr>)) (i # fs) ss"
proof -
  have parts: "ts_parts cap s fs ss" using inv by (simp add: ts_inv_def)
  let ?s = "s\<lparr>ts_free := Tagged i (ti_tag (ts_free s) + 1)\<rparr>"
  let ?g = "goto t TIdle ?s"
  have own': "ts_own (ts_pcs ?g u) = Some j \<longleftrightarrow> u \<noteq> t \<and> ts_own (ts_pcs s u) = Some j" for u j
    by auto
  have "i \<noteq> kNullIndex"
    using parts own inv by (intro small_not_null [of cap]) (auto simp: ts_parts_def ts_inv_def)
  have "ts_parts cap ?g (i # fs) ss"
    unfolding ts_parts_def own'
  proof (intro conjI)
    show "chain (ts_nxt (ts_next ?g)) (ts_ref (ti_index (ts_free ?g))) (i # fs) None"
      using parts link \<open>i \<noteq> kNullIndex\<close> by (simp add: ts_parts_def ts_nxt_def)
    have "{j. \<exists>u. ts_own (ts_pcs s u) = Some j} =
        insert i {j. \<exists>u. u \<noteq> t \<and> ts_own (ts_pcs s u) = Some j}"
      using own by force
    then show "set (i # fs) \<union> set ss \<union> {j. \<exists>u. u \<noteq> t \<and> ts_own (ts_pcs s u) = Some j} =
        {i. unat i < cap}"
      using parts by (auto simp: ts_parts_def)
  qed (use parts own in \<open>auto simp: ts_parts_def\<close>)
  moreover have "ts_pc_ok ?s (ts_pcs s u)" for u
    using inv by (intro pc_ok_free) (auto simp: ts_inv_def)
  ultimately show ?thesis using inv by (auto simp: ts_inv_def)
qed

section \<open>Every step keeps the invariant and is an abstract action or hidden\<close>

definition ts_values :: "('a, 't) tstack \<Rightarrow> index list \<Rightarrow> 'a list" where
  "ts_values s ss = map (\<lambda>i. the (ts_data s i)) ss"

lemma ts_values_simps [simp]:
  "ts_values s [] = []"
  "ts_values s (i # ss) = the (ts_data s i) # ts_values s ss"
  "ts_values (s\<lparr>ts_pcs := p\<rparr>) ss = ts_values s ss"
  "ts_values (s\<lparr>ts_log := l\<rparr>) ss = ts_values s ss"
  "ts_values (s\<lparr>ts_next := n\<rparr>) ss = ts_values s ss"
  "ts_values (s\<lparr>ts_head := h\<rparr>) ss = ts_values s ss"
  "ts_values (s\<lparr>ts_free := f\<rparr>) ss = ts_values s ss"
  by (simp_all add: ts_values_def)

lemma ts_values_data:
  "i \<notin> set ss \<Longrightarrow> ts_values (s\<lparr>ts_data := (ts_data s)(i := x)\<rparr>) ss = ts_values s ss"
  by (auto simp: ts_values_def)

definition ts_effect :: "(nat \<times> 'a stack_act) option \<Rightarrow> 'a list \<Rightarrow> 'a list \<Rightarrow> bool" where
  "ts_effect l xs ys \<longleftrightarrow>
     (case l of None \<Rightarrow> ys = xs | Some (t, a) \<Rightarrow> lifo_lax_spec a xs = Some ys)"

lemma ts_effect_simps [simp]:
  "ts_effect None xs ys \<longleftrightarrow> ys = xs"
  "ts_effect (Some (t, a)) xs ys \<longleftrightarrow> lifo_lax_spec a xs = Some ys"
  by (simp_all add: ts_effect_def)

lemma stack_empty: "ts_inv cap s fs ss \<Longrightarrow> ti_index (ts_head s) = kNullIndex \<longleftrightarrow> ss = []"
  by (cases ss) (auto simp: ts_inv_def ts_parts_def)

lemma pop_loop_inv:
  assumes inv: "ts_inv cap s fs ss" and own: "ts_own (ts_pcs s t) = None"
  shows "ts_inv cap (pop_loop t (ts_head s) s) fs ss"
  using inv_answer [OF inv own, of "Pop None"] inv_goto [OF inv, of "PopNext (ts_head s)" t] own
  by (simp add: pop_loop_def remembers_def)

lemma push_loop_inv:
  assumes inv: "ts_inv cap s fs ss" and own: "ts_own (ts_pcs s t) = None"
  shows "ts_inv cap (push_loop t v (ts_free s) s) fs ss"
  using inv_answer [OF inv own, of "Push v False"] inv_goto [OF inv, of "PushNext v (ts_free s)" t] own
  by (simp add: push_loop_def remembers_def)

lemma loop_values [simp]:
  "ts_values (pop_loop t h s) ss = ts_values s ss"
  "ts_values (push_loop t v f s) ss = ts_values s ss"
  by (simp_all add: pop_loop_def push_loop_def)

lemma owned_apart:
  assumes "ts_inv cap s fs ss" "ts_own (ts_pcs s t) = Some i"
  shows "i \<notin> set ss" "i \<notin> set fs"
  using assms by (auto simp: ts_inv_def ts_parts_def)

lemma ts_step_sim:
  assumes inv: "ts_inv cap s fs ss"
  shows "\<exists>fs' ss'. ts_inv cap (ts_step mv e s) fs' ss' \<and>
    ts_effect (ts_vis e s) (ts_values s ss) (ts_values (ts_step mv e s) ss')"
proof -
  obtain t call spurious where e: "e = (t, call, spurious)" by (cases e)
  have pc: "ts_pc_ok s (ts_pcs s t)" using inv by (simp add: ts_inv_def)
  note [simp] = e ts_step.simps ts_vis.simps
  show ?thesis
  proof (cases "ts_pcs s t")
    case TIdle
    then show ?thesis
      using pop_loop_inv [OF inv, of t] push_loop_inv [OF inv, of t] stack_empty [OF inv]
      by - (rule exI [of _ fs], rule exI [of _ ss], cases call; auto)
  next
    case (PopNext h)
    then show ?thesis
      using pc inv_goto [OF inv, of "PopCas h (ts_next s (ti_index h))" t]
      by - (rule exI [of _ fs], rule exI [of _ ss], auto)
  next
    case (PopCas h n)
    show ?thesis
    proof (cases "ts_head s = h \<and> \<not> spurious")
      case True
      with PopCas pc inv_take_head [OF inv, of t h n] obtain ss' where
        ss: "ss = ti_index h # ss'" and inv':
        "ts_inv cap (goto t (PopTake (ti_index h)) (s\<lparr>ts_head := Tagged n (ti_tag h + 1)\<rparr>)) fs ss'"
        by auto
      have "ts_data s (ti_index h) \<noteq> None" using inv ss by (simp add: ts_inv_def ts_parts_def)
      with True PopCas inv' ss show ?thesis
        by - (rule exI [of _ fs], rule exI [of _ ss'], auto)
    next
      case False
      with PopCas show ?thesis using pop_loop_inv [OF inv, of t] stack_empty [OF inv]
        by - (rule exI [of _ fs], rule exI [of _ ss], auto)
    qed
  next
    case (PopTake i)
    then show ?thesis
      using pc inv_data [OF inv, of t i "PopClear i (ts_data s i)"] owned_apart [OF inv, of t i]
      by - (rule exI [of _ fs], rule exI [of _ ss], auto simp: ts_values_data)
  next
    case (PopClear i r)
    then show ?thesis
      using pc inv_data [OF inv, of t i "PopFreeLoad i r"] owned_apart [OF inv, of t i]
      by - (rule exI [of _ fs], rule exI [of _ ss], auto simp: ts_values_data)
  next
    case (PopFreeLoad i r)
    then show ?thesis
      using pc inv_goto [OF inv, of "PopLink i r (ts_free s)" t]
      by - (rule exI [of _ fs], rule exI [of _ ss], auto)
  next
    case (PopLink i r f)
    then show ?thesis
      using pc inv_next [OF inv, of t i "PopFreeCas i r f"]
      by - (rule exI [of _ fs], rule exI [of _ ss], auto)
  next
    case (PopFreeCas i r f)
    show ?thesis
    proof (cases "ts_free s = f \<and> \<not> spurious")
      case True
      with PopFreeCas pc inv_give_free [OF inv, of t i] have
        "ts_inv cap (goto t TIdle (s\<lparr>ts_free := Tagged i (ti_tag (ts_free s) + 1)\<rparr>)) (i # fs) ss"
        by auto
      then have "ts_inv cap (goto t TIdle (s\<lparr>ts_free := Tagged i (ti_tag (ts_free s) + 1)\<rparr>)
          \<lparr>ts_log := ts_log s @ [(t, Pop r)]\<rparr>) (i # fs) ss"
        by (simp only: inv_log)
      with True PopFreeCas show ?thesis by - (rule exI [of _ "i # fs"], rule exI [of _ ss], auto)
    next
      case False
      with PopFreeCas pc inv_goto [OF inv, of "PopLink i r (ts_free s)" t] show ?thesis
        by - (rule exI [of _ fs], rule exI [of _ ss], auto)
    qed
  next
    case (PushNext v f)
    then show ?thesis
      using pc inv_goto [OF inv, of "PushFreeCas v f (ts_next s (ti_index f))" t]
      by - (rule exI [of _ fs], rule exI [of _ ss], auto)
  next
    case (PushFreeCas v f n)
    show ?thesis
    proof (cases "ts_free s = f \<and> \<not> spurious")
      case True
      with PushFreeCas pc inv_take_free [OF inv, of t f n v] obtain fs' where
        "ts_inv cap (goto t (PushStore v (ti_index f)) (s\<lparr>ts_free := Tagged n (ti_tag f + 1)\<rparr>)) fs' ss"
        by auto
      with True PushFreeCas show ?thesis by - (rule exI [of _ fs'], rule exI [of _ ss], auto)
    next
      case False
      with PushFreeCas show ?thesis using push_loop_inv [OF inv, of t v]
        by - (rule exI [of _ fs], rule exI [of _ ss], auto)
    qed
  next
    case (PushStore v i)
    then show ?thesis
      using pc inv_data [OF inv, of t i "PushLoad v i"] owned_apart [OF inv, of t i]
      by - (rule exI [of _ fs], rule exI [of _ ss], auto simp: ts_values_data)
  next
    case (PushLoad v i)
    then show ?thesis
      using pc inv_goto [OF inv, of "PushLink v i (ts_head s)" t]
      by - (rule exI [of _ fs], rule exI [of _ ss], auto)
  next
    case (PushLink v i h)
    then show ?thesis
      using pc inv_next [OF inv, of t i "PushCas v i h"]
      by - (rule exI [of _ fs], rule exI [of _ ss], auto)
  next
    case (PushCas v i h)
    show ?thesis
    proof (cases "ts_head s = h \<and> \<not> spurious")
      case True
      with PushCas pc inv_give_head [OF inv, of t i] have
        "ts_inv cap (goto t TIdle (s\<lparr>ts_head := Tagged i (ti_tag (ts_head s) + 1)\<rparr>)) fs (i # ss)"
        by auto
      then have "ts_inv cap (goto t TIdle (s\<lparr>ts_head := Tagged i (ti_tag (ts_head s) + 1)\<rparr>)
          \<lparr>ts_log := ts_log s @ [(t, Push v True)]\<rparr>) fs (i # ss)"
        by (simp only: inv_log)
      with True PushCas pc show ?thesis by - (rule exI [of _ fs], rule exI [of _ "i # ss"], auto)
    next
      case False
      with PushCas pc inv_goto [OF inv, of "PushLink v i (ts_head s)" t] show ?thesis
        by - (rule exI [of _ fs], rule exI [of _ ss], auto)
    qed
  qed
qed

section \<open>The initial state\<close>

lemma unat_small [simp]: "n < 2 ^ 32 \<Longrightarrow> unat (of_nat n :: index) = n"
  by (simp add: unat_of_nat)

lemma new_free_chain:
  assumes "k < cap" "cap < 2 ^ 32"
  shows "chain (ts_nxt (ts_next (ts_new cap :: ('a, nat) tstack))) (Some (of_nat k))
    (map of_nat [k..<cap]) None"
  using assms
proof (induction "cap - k" arbitrary: k)
  case 0
  then show ?case by simp
next
  case (Suc m)
  show ?case
  proof (cases "Suc k < cap")
    case True
    have "unat (of_nat (Suc k) :: index) < cap" using True Suc.prems by (subst unat_small) auto
    then have "(of_nat (Suc k) :: index) \<noteq> kNullIndex"
      using Suc.prems by (intro small_not_null [of cap]) auto
    moreover have "unat (of_nat k :: index) < cap - 1" using True Suc.prems by (subst unat_small) auto
    ultimately have "ts_nxt (ts_next (ts_new cap :: ('a, nat) tstack)) (of_nat k) = Some (of_nat (Suc k))"
      using True by (simp add: ts_nxt_def ts_new_def ac_simps)
    moreover have "chain (ts_nxt (ts_next (ts_new cap :: ('a, nat) tstack))) (Some (of_nat (Suc k)))
        (map of_nat [Suc k..<cap]) None"
      using Suc.hyps(1) [of "Suc k"] Suc.hyps(2) Suc.prems True by simp
    ultimately show ?thesis using Suc.prems by (simp only: upt_conv_Cons list.map chain.simps)
  next
    case False
    with Suc.prems have "cap = Suc k" by simp
    moreover have "unat (of_nat k :: index) = k" using Suc.prems by simp
    ultimately show ?thesis by (simp add: ts_nxt_def ts_new_def)
  qed
qed

lemma index_range: "cap < 2 ^ 32 \<Longrightarrow> set (map of_nat [0..<cap]) = {i :: index. unat i < cap}"
proof (intro equalityI subsetI)
  fix i :: index
  assume "cap < 2 ^ 32" "i \<in> {i. unat i < cap}"
  then have "i = of_nat (unat i)" "unat i < cap" by simp_all
  then show "i \<in> set (map of_nat [0..<cap])" by (metis atLeastLessThan_iff image_eqI le0 list.set_map set_upt)
qed auto

lemma distinct_indices: "cap < 2 ^ 32 \<Longrightarrow> distinct (map of_nat [0..<cap] :: index list)"
  unfolding distinct_map by (auto intro: inj_on_inverseI [where g = unat])

lemma ts_new_inv:
  assumes "0 < cap" "cap < 2 ^ 32"
  shows "ts_inv cap (ts_new cap) (map of_nat [0..<cap]) []"
proof -
  have "(0 :: index) \<noteq> kNullIndex" by (simp add: kNullIndex_def)
  then have "chain (ts_nxt (ts_next (ts_new cap :: ('a, nat) tstack)))
      (ts_ref (ti_index (ts_free (ts_new cap :: ('a, nat) tstack)))) (map of_nat [0..<cap]) None"
    using new_free_chain [of 0 cap] assms by (simp add: ts_new_def)
  with index_range [OF assms(2)] distinct_indices [OF assms(2)] assms(2) show ?thesis
    by (simp add: ts_inv_def ts_parts_def) (simp add: ts_new_def)
qed

lemma card_indices:
  assumes "cap < 2 ^ 32"
  shows "card {i :: index. unat i < cap} = cap" "finite {i :: index. unat i < cap}"
proof -
  have "card (set (map of_nat [0..<cap] :: index list)) = cap"
    using distinct_card [OF distinct_indices [OF assms]] by simp
  then show "card {i :: index. unat i < cap} = cap" by (simp only: index_range [OF assms])
qed simp

lemma ts_inv_length:
  assumes "ts_inv cap s fs ss"
  shows "length fs + length ss \<le> cap"
proof -
  have "set (fs @ ss) \<subseteq> {i. unat i < cap}" "distinct (fs @ ss)" "cap < 2 ^ 32"
    using assms by (auto simp: ts_inv_def ts_parts_def)
  then show ?thesis
    using card_mono [OF card_indices(2), of cap "set (fs @ ss)"] card_indices(1) [of cap]
      distinct_card [of "fs @ ss"] by simp
qed

lemma ts_abs_values:
  assumes "ts_inv cap s fs ss"
  shows "ts_abs cap s = ts_values s ss"
proof -
  have "cells (ts_nxt (ts_next s)) cap (ts_ref (ti_index (ts_head s))) = ss"
    using ts_inv_length [OF assms] assms
    by (intro cells_of_chain) (auto simp: ts_inv_def ts_parts_def)
  then show ?thesis by (simp add: ts_abs_def ts_values_def)
qed

definition ts_good :: "nat \<Rightarrow> ('a, nat) tstack \<Rightarrow> bool" where
  "ts_good cap s \<longleftrightarrow> (\<exists>fs ss. ts_inv cap s fs ss)"

interpretation ideal: linearizable "ts_step mv" "ts_good cap" "ts_abs cap" ts_vis
  "\<lambda>(t, a). lifo_lax_spec a"
proof unfold_locales
  fix s :: "('a, nat) tstack" and e l
  assume "ts_good cap s"
  then obtain fs ss where inv: "ts_inv cap s fs ss" by (auto simp: ts_good_def)
  from ts_step_sim [OF inv] obtain fs' ss' where inv': "ts_inv cap (ts_step mv e s) fs' ss'"
    and eff: "ts_effect (ts_vis e s) (ts_values s ss) (ts_values (ts_step mv e s) ss')" by blast
  show "ts_good cap (ts_step mv e s)" using inv' by (auto simp: ts_good_def)
  show "ts_vis e s = None \<Longrightarrow> ts_abs cap (ts_step mv e s) = ts_abs cap s"
    using eff by (simp add: ts_abs_values [OF inv] ts_abs_values [OF inv'])
  show "ts_vis e s = Some l \<Longrightarrow>
      (case l of (t, a) \<Rightarrow> lifo_lax_spec a) (ts_abs cap s) = Some (ts_abs cap (ts_step mv e s))"
    using eff by (cases l) (simp add: ts_abs_values [OF inv] ts_abs_values [OF inv'])
qed

section \<open>What the calls return\<close>

text \<open>
  A pop takes effect at its compare-exchange and returns later; in between it is pending
  with the answer it will give.
\<close>

fun ts_pending :: "(index \<Rightarrow> 'a option) \<Rightarrow> ('a, 't) ts_pc \<Rightarrow> 'a stack_act list" where
  "ts_pending d (PopTake i) = [Pop (d i)]"
| "ts_pending d (PopClear i r) = [Pop r]"
| "ts_pending d (PopFreeLoad i r) = [Pop r]"
| "ts_pending d (PopLink i r f) = [Pop r]"
| "ts_pending d (PopFreeCas i r f) = [Pop r]"
| "ts_pending d _ = []"

definition acts_of :: "nat \<Rightarrow> (nat \<times> 'a) list \<Rightarrow> 'a list" where
  "acts_of u xs = map snd (filter (\<lambda>x. fst x = u) xs)"

lemma acts_of_simps [simp]:
  "acts_of u [] = []" "acts_of u (xs @ ys) = acts_of u xs @ acts_of u ys"
  "acts_of u ((t, a) # xs) = (if t = u then a # acts_of u xs else acts_of u xs)"
  by (simp_all add: acts_of_def)

lemma pending_frame: "ts_own pc \<noteq> Some i \<Longrightarrow> ts_pending (d(i := x)) pc = ts_pending d pc"
  by (cases pc) auto

lemma pending_step:
  assumes "ts_good cap s"
  shows "acts_of u (ts_log (ts_step mv e s))
      @ ts_pending (ts_data (ts_step mv e s)) (ts_pcs (ts_step mv e s) u) =
    acts_of u (ts_log s) @ ts_pending (ts_data s) (ts_pcs s u)
      @ (case ts_vis e s of None \<Rightarrow> [] | Some l \<Rightarrow> acts_of u [l])"
proof -
  obtain t call spurious where e: "e = (t, call, spurious)" by (cases e)
  have apart: "ts_pending ((ts_data s)(i := x)) (ts_pcs s u) = ts_pending (ts_data s) (ts_pcs s u)"
    if "u \<noteq> t" "ts_own (ts_pcs s t) = Some i" for i x
    using assms that by (intro pending_frame) (auto simp: ts_good_def ts_inv_def ts_parts_def)
  show ?thesis
    using apart
    by (cases "ts_pcs s t"; cases call; cases "u = t")
      (auto simp: e ts_step.simps ts_vis.simps pop_loop_def push_loop_def)
qed

lemma pending_run:
  assumes "ts_good cap s"
  shows "acts_of u (ts_log (run_sched (ts_step mv) es s))
      @ ts_pending (ts_data (run_sched (ts_step mv) es s)) (ts_pcs (run_sched (ts_step mv) es s) u) =
    acts_of u (ts_log s) @ ts_pending (ts_data s) (ts_pcs s u)
      @ acts_of u (visible_trace (ts_step mv) ts_vis es s)"
  using assms
proof (induction es arbitrary: s)
  case Nil
  then show ?case by simp
next
  case (Cons e es)
  from ideal.step_keeps [OF Cons.prems] have "ts_good cap (ts_step mv e s)" .
  from Cons.IH [OF this] pending_step [OF Cons.prems, of u mv e] show ?case
    by (simp split: option.splits)
qed

section \<open>From ideal tags to 32-bit tags\<close>

definition retag :: "('t \<Rightarrow> 'u) \<Rightarrow> ('a, 't) tstack \<Rightarrow> ('a, 'u) tstack" where
  "retag g s = \<lparr>ts_data = ts_data s, ts_next = ts_next s, ts_head = map_tagged g (ts_head s),
     ts_free = map_tagged g (ts_free s), ts_pcs = (\<lambda>t. map_ts_pc id g (ts_pcs s t)),
     ts_log = ts_log s\<rparr>"

lemma retag_sel [simp]:
  "ts_data (retag g s) = ts_data s" "ts_next (retag g s) = ts_next s"
  "ts_head (retag g s) = map_tagged g (ts_head s)" "ts_free (retag g s) = map_tagged g (ts_free s)"
  "ts_pcs (retag g s) t = map_ts_pc id g (ts_pcs s t)" "ts_log (retag g s) = ts_log s"
  by (simp_all add: retag_def)

lemma map_tagged_index [simp]: "ti_index (map_tagged g x) = ti_index x" "ti_tag (map_tagged g x) = g (ti_tag x)"
  by (cases x; simp)+

lemma retag_upd:
  "goto t (map_ts_pc id g pc) (retag g s) = retag g (goto t pc s)"
  "(retag g s)\<lparr>ts_log := l\<rparr> = retag g (s\<lparr>ts_log := l\<rparr>)"
  "(retag g s)\<lparr>ts_data := d\<rparr> = retag g (s\<lparr>ts_data := d\<rparr>)"
  "(retag g s)\<lparr>ts_next := n\<rparr> = retag g (s\<lparr>ts_next := n\<rparr>)"
  "(retag g s)\<lparr>ts_head := map_tagged g h\<rparr> = retag g (s\<lparr>ts_head := h\<rparr>)"
  "(retag g s)\<lparr>ts_free := map_tagged g h\<rparr> = retag g (s\<lparr>ts_free := h\<rparr>)"
  by (auto simp: retag_def)

definition tags_le :: "nat \<Rightarrow> ('a, nat) tstack \<Rightarrow> bool" where
  "tags_le k s \<longleftrightarrow> ti_tag (ts_head s) \<le> k \<and> ti_tag (ts_free s) \<le> k
     \<and> (\<forall>t. \<forall>x \<in> set2_ts_pc (ts_pcs s t). x \<le> k)"

lemma set_tagged_tag [simp]: "set_tagged h = {ti_tag h}"
  by (cases h) simp

lemma tags_le_step:
  assumes "tags_le k s"
  shows "tags_le (Suc k) (ts_step mv e s)"
proof -
  obtain t call spurious where e: "e = (t, call, spurious)" by (cases e)
  have t: "\<forall>x \<in> set2_ts_pc (ts_pcs s t). x \<le> k" using assms by (simp add: tags_le_def)
  have le: "ti_tag (ts_head s) \<le> Suc k" "ti_tag (ts_free s) \<le> Suc k"
    "\<And>u x. x \<in> set2_ts_pc (ts_pcs s u) \<Longrightarrow> x \<le> Suc k"
    using assms by (auto simp: tags_le_def intro: le_SucI)
  show ?thesis using t le
    by (cases "ts_pcs s t"; cases call)
      (auto simp: e ts_step.simps pop_loop_def push_loop_def tags_le_def)
qed

lemma retag_eq_iff:
  "ti_tag a < 2 ^ 32 \<Longrightarrow> ti_tag b < 2 ^ 32 \<Longrightarrow>
     map_tagged (of_nat :: nat \<Rightarrow> 32 word) a = map_tagged of_nat b \<longleftrightarrow> a = b"
proof (cases a; cases b)
  fix i m j n
  assume "ti_tag a < 2 ^ 32" "ti_tag b < 2 ^ 32" "a = Tagged i m" "b = Tagged j n"
  then have "(of_nat m :: 32 word) = of_nat n \<longleftrightarrow> m = n"
    using unat_small [of m] unat_small [of n] by (metis ti_tag_def tagged.sel(2))
  then show ?thesis using \<open>a = _\<close> \<open>b = _\<close> by simp
qed

abbreviation tag32 :: "('a, nat) tstack \<Rightarrow> ('a, 32 word) tstack" where
  "tag32 \<equiv> retag of_nat"

lemma retag_loops:
  "pop_loop t (map_tagged g h) (retag g s) = retag g (pop_loop t h s)"
  "push_loop t v (map_tagged g h) (retag g s) = retag g (push_loop t v h s)"
  by (auto simp: pop_loop_def push_loop_def retag_def)

lemma tag32_step:
  assumes tags: "tags_le k s" and k: "k < 2 ^ 32"
  shows "ts_step mv e (tag32 s) = tag32 (ts_step mv e s)" and "ts_vis e (tag32 s) = ts_vis e s"
proof -
  obtain t call spurious where e: "e = (t, call, spurious)" by (cases e)
  have small: "ti_tag (ts_head s) < 2 ^ 32" "ti_tag (ts_free s) < 2 ^ 32"
    "\<And>x. x \<in> set2_ts_pc (ts_pcs s t) \<Longrightarrow> x < 2 ^ 32"
    using tags k by (auto simp: tags_le_def intro: order.strict_trans1)
  note eqs = retag_eq_iff [OF small(1)] retag_eq_iff [OF small(2)]
  show "ts_step mv e (tag32 s) = tag32 (ts_step mv e s)"
    by (cases "ts_pcs s t"; cases call)
      (use small(3) in \<open>auto simp: e ts_step.simps eqs retag_loops option.map_id0 ac_simps
        intro!: tstack.equality ext\<close>)
  show "ts_vis e (tag32 s) = ts_vis e s"
    by (cases "ts_pcs s t"; cases call) (use small(3) in \<open>auto simp: e ts_vis.simps eqs\<close>)
qed

lemma tag32_run:
  assumes "tags_le k s" "k + length es \<le> 2 ^ 32"
  shows "run_sched (ts_step mv) es (tag32 s) = tag32 (run_sched (ts_step mv) es s)"
    and "visible_trace (ts_step mv) ts_vis es (tag32 s) = visible_trace (ts_step mv) ts_vis es s"
  using assms
proof (induction es arbitrary: s k)
  case (Cons e es)
  case 1
  with Cons.IH(1) [OF tags_le_step [of k s mv e]] show ?case
    by (simp add: tag32_step(1) [of k])
next
  case (Cons e es)
  case 2
  with Cons.IH(2) [OF tags_le_step [of k s mv e]] show ?case
    by (simp add: tag32_step [of k])
qed simp_all

lemma ts_abs_tag32 [simp]: "ts_abs cap (tag32 s) = ts_abs cap s"
  by (simp add: ts_abs_def)

lemma ts_own_map [simp]: "ts_own (map_ts_pc id g pc) = ts_own pc"
  by (cases pc) simp_all

lemma ts_pending_map [simp]: "ts_pending d (map_ts_pc id g pc) = ts_pending d pc"
  by (cases pc) (simp_all add: option.map_id0)

lemma ts_new_tag32: "(ts_new cap :: ('a, 32 word) tstack) = tag32 (ts_new cap)"
  by (simp add: ts_new_def retag_def)

lemma ts_new_tags: "tags_le 0 (ts_new cap)"
  by (simp add: tags_le_def ts_new_def)

section \<open>Properties\<close>

text \<open>The code's stack: the tags are \<open>uint32_t\<close>.\<close>

definition ts_reach ::
  "('a \<Rightarrow> 'a) \<Rightarrow> nat \<Rightarrow> 'a ts_event list \<Rightarrow> ('a, 32 word) tstack" where
  "ts_reach mv cap es = run_sched (ts_step mv) es (ts_new cap)"

definition ts_trace :: "('a \<Rightarrow> 'a) \<Rightarrow> nat \<Rightarrow> 'a ts_event list \<Rightarrow> (nat \<times> 'a stack_act) list" where
  "ts_trace mv cap es = visible_trace (ts_step mv) ts_vis es (ts_new cap :: ('a, 32 word) tstack)"

lemma ts_reach_ideal:
  assumes "0 < cap" "cap < 2 ^ 32" "length es \<le> 2 ^ 32"
  obtains s where "ts_good cap s" "ts_reach mv cap es = tag32 s"
    "s = run_sched (ts_step mv) es (ts_new cap)"
    "ts_trace mv cap es = visible_trace (ts_step mv) ts_vis es (ts_new cap :: ('a, nat) tstack)"
proof
  have "ts_good cap (ts_new cap :: ('a, nat) tstack)"
    using ts_new_inv [OF assms(1,2)] by (auto simp: ts_good_def)
  then show "ts_good cap (run_sched (ts_step mv) es (ts_new cap))" by (rule ideal.sched_keeps)
qed (use tag32_run [OF ts_new_tags, where es = es and mv = mv] assms(3)
      in \<open>simp_all add: ts_reach_def ts_trace_def ts_new_tag32\<close>)

text \<open>
  (C2) Linearizability of the tagged stack: for every interleaving of any number of threads
  calling push and pop, spurious failures of the weak compare-exchanges included, in
  at most \<open>2 ^ 32\<close> steps (so that no version tag recurs), the calls in the order of their
  decisive steps form a run of the LIFO stack from empty to the current contents, each
  thread's calls return exactly these answers in this order, and the contents never
  exceed the capacity.
\<close>

theorem ts_linearizable:
  assumes "0 < cap" "cap < 2 ^ 32" "length es \<le> 2 ^ 32"
  shows "spec_run (\<lambda>(t, a). lifo_lax_spec a) (ts_trace mv cap es) [] =
      Some (ts_abs cap (ts_reach mv cap es))
    \<and> acts_of u (ts_log (ts_reach mv cap es))
        @ ts_pending (ts_data (ts_reach mv cap es)) (ts_pcs (ts_reach mv cap es) u) =
      acts_of u (ts_trace mv cap es)
    \<and> length (ts_abs cap (ts_reach mv cap es)) \<le> cap"
proof -
  obtain s where s: "ts_good cap s" "ts_reach mv cap es = tag32 s"
    "s = run_sched (ts_step mv) es (ts_new cap)"
    "ts_trace mv cap es = visible_trace (ts_step mv) ts_vis es (ts_new cap :: ('a, nat) tstack)"
    using ts_reach_ideal [OF assms] by blast
  have new: "ts_good cap (ts_new cap :: ('a, nat) tstack)"
    using ts_new_inv [OF assms(1,2)] by (auto simp: ts_good_def)
  have empty: "ts_abs cap (ts_new cap :: ('a, nat) tstack) = []"
    using ts_abs_values [OF ts_new_inv [OF assms(1,2)]] by simp
  have "length (ts_abs cap s) \<le> cap"
    using s(1) ts_abs_values [of cap s] ts_inv_length [of cap s]
    by (fastforce simp: ts_good_def ts_values_def)
  moreover have "ts_log (ts_new cap :: ('a, nat) tstack) = []"
    "ts_pcs (ts_new cap :: ('a, nat) tstack) u = TIdle" by (simp_all add: ts_new_def)
  ultimately show ?thesis
    using ideal.trace_meets_spec [OF new, of mv es] pending_run [OF new, of u mv es]
    by (simp add: s(2,4) empty flip: s(3))
qed

theorem ts_linearizable_witness:
  "spec_run (\<lambda>(t, a). lifo_lax_spec a)
      (ts_trace id 2 [(0, CallPush (5 :: int), False), (1, CallPop, True)]) [] =
      Some (ts_abs 2 (ts_reach id 2 [(0, CallPush 5, False), (1, CallPop, True)]))"
  using ts_linearizable [of 2 "[(0, CallPush (5 :: int), False), (1, CallPop, True)]" id 0] by simp

text \<open>
  A node of the pool belongs to at most one call at a time: the accesses of a thread to the
  non-atomic \<open>data\<close> of the node it holds, and its store to the node's \<open>next\<close>, never
  concern a node that another thread holds; the node is inside the array and on neither list.
\<close>

theorem ts_exclusive_nodes:
  assumes "0 < cap" "cap < 2 ^ 32" "length es \<le> 2 ^ 32"
    and "ts_own (ts_pcs (ts_reach mv cap es) t) = Some i"
  shows "unat i < cap
    \<and> {u. ts_own (ts_pcs (ts_reach mv cap es) u) = Some i} = {t}
    \<and> ti_index (ts_head (ts_reach mv cap es)) \<noteq> i \<and> ti_index (ts_free (ts_reach mv cap es)) \<noteq> i"
proof -
  obtain s where s: "ts_good cap s" "ts_reach mv cap es = tag32 s"
    using ts_reach_ideal [OF assms(1-3)] by blast
  then obtain fs ss where inv: "ts_inv cap s fs ss" by (auto simp: ts_good_def)
  have own: "ts_own (ts_pcs s t) = Some i" using assms(4) s(2) by simp
  then have "i \<in> {i. unat i < cap}" using inv by (auto simp: ts_inv_def ts_parts_def)
  then have "i \<noteq> kNullIndex" using assms(2) by (intro small_not_null [of cap]) simp_all
  have parts: "ts_parts cap s fs ss" using inv by (simp add: ts_inv_def)
  have "ti_index (ts_head s) \<noteq> i"
    using head_in_stack [OF parts] owned_apart(1) [OF inv own] \<open>i \<noteq> kNullIndex\<close> by auto
  moreover have "ti_index (ts_free s) \<noteq> i"
    using head_in_free [OF parts] owned_apart(2) [OF inv own] \<open>i \<noteq> kNullIndex\<close> by auto
  moreover have "{u. ts_own (ts_pcs s u) = Some i} = {t}"
    using parts own by (auto simp: ts_parts_def)
  ultimately show ?thesis using \<open>i \<in> _\<close> by (simp add: s(2))
qed

theorem ts_exclusive_nodes_witness:
  "ts_own (ts_pcs (ts_reach id 2 [(7, CallPush (5 :: int), False), (7, CallPush (5 :: int), False), (7, CallPush (5 :: int), False)]) 7) = Some 0 \<and>
   {u. ts_own (ts_pcs (ts_reach id 2 [(7, CallPush (5 :: int), False), (7, CallPush (5 :: int), False), (7, CallPush (5 :: int), False)]) u) = Some 0} = {7}"
proof -
  have "ts_own (ts_pcs (ts_reach id 2 [(7, CallPush (5 :: int), False), (7, CallPush (5 :: int), False), (7, CallPush (5 :: int), False)]) 7) = Some 0"
    by (simp add: ts_reach_def ts_new_def ts_step.simps push_loop_def kNullIndex_def)
  with ts_exclusive_nodes [of 2 "[(7, CallPush (5 :: int), False), (7, CallPush (5 :: int), False), (7, CallPush (5 :: int), False)]" id 7 0] show ?thesis
    by simp
qed

text \<open>
  The free list is empty, which is the only reason for which a push is refused, exactly when
  the elements of the stack and the calls that hold a node at this moment add up to the capacity.
  So with no other call under way a push is refused only when \<open>Capacity\<close> elements are stored.
\<close>

theorem ts_refused_iff_used_up:
  assumes "0 < cap" "cap < 2 ^ 32" "length es \<le> 2 ^ 32"
  shows "ti_index (ts_free (ts_reach mv cap es)) = kNullIndex \<longleftrightarrow>
    length (ts_abs cap (ts_reach mv cap es))
      + card {t. ts_own (ts_pcs (ts_reach mv cap es) t) \<noteq> None} = cap"
proof -
  obtain s where s: "ts_good cap s" "ts_reach mv cap es = tag32 s"
    using ts_reach_ideal [OF assms] by blast
  then obtain fs ss where inv: "ts_inv cap s fs ss" by (auto simp: ts_good_def)
  let ?T = "{t. ts_own (ts_pcs s t) \<noteq> None}"
  let ?O = "{i. \<exists>t. ts_own (ts_pcs s t) = Some i}"
  have parts: "distinct (fs @ ss)" "set fs \<union> set ss \<union> ?O = {i. unat i < cap}"
    "(set fs \<union> set ss) \<inter> ?O = {}"
    using inv by (auto simp: ts_inv_def ts_parts_def)
  have "inj_on (\<lambda>t. the (ts_own (ts_pcs s t))) ?T"
    using inv by (auto simp: inj_on_def ts_inv_def ts_parts_def)
  moreover have "?O = (\<lambda>t. the (ts_own (ts_pcs s t))) ` ?T" by force
  ultimately have "card ?O = card ?T" by (simp add: card_image)
  moreover have "card (set fs \<union> set ss) = length fs + length ss"
    using distinct_card [OF parts(1)] by simp
  moreover have "finite ?O"
    by (rule finite_subset [OF _ card_indices(2) [OF assms(2)]]) (use parts(2) in blast)
  ultimately have "length fs + length ss + card ?T = cap"
    using card_Un_disjoint [of "set fs \<union> set ss" ?O] parts(2,3) card_indices(1) [OF assms(2)]
    by simp
  moreover have "ti_index (ts_free s) = kNullIndex \<longleftrightarrow> fs = []"
    using inv by (cases fs) (auto simp: ts_inv_def ts_parts_def)
  moreover have "length (ts_abs cap s) = length ss"
    by (simp add: ts_abs_values [OF inv] ts_values_def)
  ultimately show ?thesis by (auto simp: s(2))
qed

theorem ts_refused_iff_used_up_witness:
  "ti_index (ts_free (ts_reach id 1 [(7, CallPush (5 :: int), False), (7, CallPush (5 :: int), False), (7, CallPush (5 :: int), False)])) = kNullIndex \<and>
   length (ts_abs 1 (ts_reach id 1 [(7, CallPush (5 :: int), False), (7, CallPush (5 :: int), False), (7, CallPush (5 :: int), False)]))
      + card {t. ts_own (ts_pcs (ts_reach id 1 [(7, CallPush (5 :: int), False), (7, CallPush (5 :: int), False), (7, CallPush (5 :: int), False)]) t) \<noteq> None} = 1"
proof -
  have "ti_index (ts_free (ts_reach id 1 [(7, CallPush (5 :: int), False), (7, CallPush (5 :: int), False), (7, CallPush (5 :: int), False)])) = kNullIndex"
    by (simp add: ts_reach_def ts_new_def ts_step.simps push_loop_def kNullIndex_def)
  with ts_refused_iff_used_up [of 1 "[(7, CallPush (5 :: int), False), (7, CallPush (5 :: int), False), (7, CallPush (5 :: int), False)]" id] show ?thesis
    by simp
qed

text \<open>
  Obstruction freedom: a thread that runs alone, without spurious failures, finishes its call
  from any state: a push in seven steps (in one when the free list is empty) and a pop in eight
  (in one when the stack is empty), with the answer the stack owes it.
\<close>

theorem ts_solo_call:
  fixes s :: "('a, 32 word) tstack"
  assumes "ts_pcs s t = TIdle"
  shows "(\<exists>n \<le> 7. ts_pcs (run_sched (ts_step mv) (replicate n (t, CallPush v, False)) s) t = TIdle
      \<and> ts_log (run_sched (ts_step mv) (replicate n (t, CallPush v, False)) s) =
          ts_log s @ [(t, Push v (ti_index (ts_free s) \<noteq> kNullIndex))])
    \<and> (\<exists>n \<le> 8. ts_pcs (run_sched (ts_step mv) (replicate n (t, CallPop, False)) s) t = TIdle
      \<and> ts_log (run_sched (ts_step mv) (replicate n (t, CallPop, False)) s) =
          ts_log s @ [(t, Pop (if ti_index (ts_head s) = kNullIndex then None
                                else ts_data s (ti_index (ts_head s))))])"
  (is "(\<exists>n \<le> 7. ?push n) \<and> (\<exists>n \<le> 8. ?pop n)")
proof
  note [simp] = ts_step.simps push_loop_def pop_loop_def numeral_eq_Suc
  show "\<exists>n \<le> 7. ?push n"
    by (rule exI [of _ "if ti_index (ts_free s) = kNullIndex then 1 else 7"]) (simp add: assms)
  show "\<exists>n \<le> 8. ?pop n"
    by (rule exI [of _ "if ti_index (ts_head s) = kNullIndex then 1 else 8"]) (simp add: assms)
qed

theorem ts_solo_call_witness:
  "ts_pcs (ts_new 3 :: (int, 32 word) tstack) 0 = TIdle \<and>
   (\<exists>n \<le> 7. ts_pcs (run_sched (ts_step id) (replicate n (0, CallPush 5, False))
      (ts_new 3 :: (int, 32 word) tstack)) 0 = TIdle)"
proof -
  have "ts_pcs (ts_new 3 :: (int, 32 word) tstack) 0 = TIdle" by (simp add: ts_new_def)
  with ts_solo_call [OF this, of id 5] show ?thesis by blast
qed

section \<open>What happens when a tag recurs\<close>

text \<open>
  Thread 0 is stopped in a pop that has read node 2 with tag 3 and its successor 1.  The other
  threads empty the stack, return node 2 to the top of the free list last, and push it again.
  From then on each push and pop of thread 1 brings the stack back to the same nodes and
  advances the tag by two.
\<close>

definition aba_setup :: "nat ts_event list" where
  "aba_setup =
     replicate 7 (1, CallPush 0, False) @ replicate 7 (1, CallPush 0, False)
     @ replicate 7 (1, CallPush 0, False) @ replicate 2 (0, CallPop, False)
     @ replicate 5 (2, CallPop, False) @ replicate 8 (1, CallPop, False)
     @ replicate 8 (1, CallPop, False) @ replicate 3 (2, CallPop, False)
     @ replicate 7 (1, CallPush 0, False)"

definition aba_cycle :: "nat ts_event list" where
  "aba_cycle = replicate 7 (1, CallPush 0, False) @ replicate 8 (1, CallPop, False)"

definition aba_state :: "32 word \<Rightarrow> (nat, 32 word) tstack \<Rightarrow> bool" where
  "aba_state k s \<longleftrightarrow> ts_pcs s 0 = PopCas (Tagged 2 3) 1 \<and> ts_pcs s 1 = TIdle
     \<and> ts_head s = Tagged 2 k \<and> ti_index (ts_free s) = 0
     \<and> ts_next s 0 = 1 \<and> ts_next s 1 = kNullIndex \<and> ts_next s 2 = kNullIndex"

lemma null_neq [simp]:
  "kNullIndex \<noteq> 0" "0 \<noteq> kNullIndex" "kNullIndex \<noteq> 1" "1 \<noteq> kNullIndex"
  "kNullIndex \<noteq> 2" "2 \<noteq> kNullIndex"
  by (simp_all add: kNullIndex_def)

lemma replicate_lists:
  "replicate 2 x = [x, x]" "replicate 3 x = [x, x, x]" "replicate 5 x = [x, x, x, x, x]"
  "replicate 7 x = [x, x, x, x, x, x, x]" "replicate 8 x = [x, x, x, x, x, x, x, x]"
  by (simp_all add: numeral_eq_Suc)

lemmas aba_eval = ts_step.simps push_loop_def pop_loop_def replicate_lists

lemma aba_cycle_step: "aba_state k s \<Longrightarrow> aba_state (k + 2) (run_sched (ts_step mv) aba_cycle s)"
proof -
  assume a: "aba_state k s"
  then obtain f where "ts_free s = Tagged 0 f" by (cases "ts_free s") (auto simp: aba_state_def)
  with a show ?thesis unfolding aba_cycle_def by (simp add: aba_state_def aba_eval)
qed

lemma aba_cycles:
  "aba_state k s \<Longrightarrow>
     aba_state (k + 2 * of_nat n) (run_sched (ts_step mv) (concat (replicate n aba_cycle)) s)"
proof (induction n arbitrary: k s)
  case 0
  then show ?case by simp
next
  case (Suc n)
  have "aba_state (k + 2 + 2 * of_nat n)
      (run_sched (ts_step mv) (concat (replicate n aba_cycle)) (run_sched (ts_step mv) aba_cycle s))"
    using aba_cycle_step [OF Suc.prems] by (rule Suc.IH)
  moreover have "k + 2 + 2 * of_nat n = k + 2 * of_nat (Suc n)" by simp
  ultimately show ?case by (simp only: replicate_Suc concat.simps run_sched_append)
qed

lemma aba_setup_state: "aba_state 7 (ts_reach mv 3 aba_setup)"
  unfolding ts_reach_def aba_setup_def
  by (simp add: aba_eval ts_new_def) (simp add: aba_state_def)

text \<open>
  The bound on the number of steps in the linearizability theorem is needed: the tags wrap
  around after \<open>2 ^ 32\<close> operations, and there is a longer schedule of three threads
  on a stack of three nodes after which one and the same node is both on the stack and on
  the free list.
\<close>

theorem ts_aba_after_wrap:
  "\<exists>es :: nat ts_event list. set (cells (ts_nxt (ts_next (ts_reach mv 3 es))) 3 (ts_ref (ti_index (ts_head (ts_reach mv 3 es)))))
    \<inter> set (cells (ts_nxt (ts_next (ts_reach mv 3 es))) 3 (ts_ref (ti_index (ts_free (ts_reach mv 3 es)))))
    \<noteq> {}"
proof -
  let ?n = "2147483646 :: nat"
  let ?es = "aba_setup @ concat (replicate ?n aba_cycle)"
  have "aba_state (7 + 2 * of_nat ?n) (ts_reach mv 3 ?es)"
    using aba_cycles [OF aba_setup_state, of ?n] by (simp add: ts_reach_def)
  moreover have "7 + 2 * of_nat ?n = (3 :: 32 word)" by simp
  ultimately have a: "aba_state 3 (ts_reach mv 3 ?es)" by (simp only:)
  then obtain f where f: "ts_free (ts_reach mv 3 ?es) = Tagged 0 f"
    by (cases "ts_free (ts_reach mv 3 ?es)") (auto simp: aba_state_def)
  let ?s = "ts_step mv (0, CallPop, False) (ts_reach mv 3 ?es)"
  have "ts_reach mv 3 (?es @ [(0, CallPop, False)]) = ?s" by (simp add: ts_reach_def)
  moreover have "1 \<in> set (cells (ts_nxt (ts_next ?s)) 3 (ts_ref (ti_index (ts_head ?s))))"
    "1 \<in> set (cells (ts_nxt (ts_next ?s)) 3 (ts_ref (ti_index (ts_free ?s))))"
    using a f by (simp_all add: aba_state_def aba_eval ts_nxt_def numeral_3_eq_3)
  ultimately show ?thesis by (intro exI [of _ "?es @ [(0, CallPop, False)]"]) auto
qed

end
