(* ===== verification/Rcu.thy ===== *)
theory Rcu
  imports Prelude "HOL-Library.Code_Target_Nat"
begin

text \<open>
  \<open>modern_cpp_core/data_structures/rcu.hpp\<close>: epoch-based read-copy-update.

  The state holds any number of \<open>rcu_domain\<close>s (each 64 thread records and a global
  epoch), any number of \<open>RcuPtr\<close>s (\<open>rdom r\<close> is the domain the pointer \<open>r\<close> was constructed
  with), the thread-local \<open>RcuThreadContext\<close> of every thread, the memory the pointers point to
  (addresses; \<open>rc_freed\<close> are the deleted ones) and a flag that is set when freed memory
  is dereferenced or deleted.  Epochs are \<open>uint64_t\<close>: naturals with the wrap-around written out.
  A step is one atomic access of one thread.  The caller of \<open>update\<close> passes a freshly
  allocated object or null.
\<close>

section \<open>State\<close>

definition kMaxRcuThreads :: nat where
  "kMaxRcuThreads = 64"

datatype rcu_call =
    Enter nat \<comment> \<open>construct a \<open>scoped_rcu_reader\<close> on a domain\<close>
  | Nest      \<comment> \<open>construct another one inside, on the same domain\<close>
  | Read nat  \<comment> \<open>\<open>RcuPtr::read\<close>\<close>
  | Deref nat \<comment> \<open>use one of the pointers read in this critical section\<close>
  | Leave     \<comment> \<open>destroy the innermost \<open>scoped_rcu_reader\<close>\<close>
  | Update nat bool \<comment> \<open>\<open>RcuPtr::update\<close> with a new object, or with null\<close>
  | Destroy nat \<comment> \<open>\<open>RcuPtr::~RcuPtr\<close>\<close>
  | Exit      \<comment> \<open>the thread ends: \<open>RcuThreadContext::~RcuThreadContext\<close>\<close>

datatype rcu_pc =
    RIdle
  | Register nat nat               \<comment> \<open>domain, slot to try\<close>
  | RegStore nat nat
  | Lock nat nat nat "nat list"    \<comment> \<open>domain, slot, open readers, pointers read\<close>
  | LockX nat nat nat "nat list" nat
  | Reading nat nat nat "nat list"
  | ExitEpoch nat nat
  | ExitUse nat nat
  | WFetch nat nat                 \<comment> \<open>\<open>RcuPtr\<close>, old pointer\<close>
  | WScan nat nat nat nat          \<comment> \<open>\<open>RcuPtr\<close>, old pointer, new epoch, slot\<close>
  | WSpin nat nat nat nat

record rcu_sys =
  rc_epoch :: "nat \<Rightarrow> nat \<Rightarrow> nat"
  rc_in_use :: "nat \<Rightarrow> nat \<Rightarrow> bool"
  rc_global :: "nat \<Rightarrow> nat"
  rc_ptr :: "nat \<Rightarrow> nat option"
  rc_ctx :: "nat \<Rightarrow> (nat \<times> nat) option"
  rc_pcs :: "nat \<Rightarrow> rcu_pc"
  rc_next :: nat
  rc_freed :: "nat set"
  rc_fault :: bool
  rc_threw :: "nat list"

definition rcu_new :: rcu_sys where
  "rcu_new = \<lparr>rc_epoch = (\<lambda>_ _. 0), rc_in_use = (\<lambda>_ _. False), rc_global = (\<lambda>_. 1),
     rc_ptr = (\<lambda>_. None), rc_ctx = (\<lambda>_. None), rc_pcs = (\<lambda>_. RIdle), rc_next = 0,
     rc_freed = {}, rc_fault = False, rc_threw = []\<rparr>"

section \<open>Steps\<close>

abbreviation at_pc :: "nat \<Rightarrow> rcu_pc \<Rightarrow> rcu_sys \<Rightarrow> rcu_sys" where
  "at_pc t pc s \<equiv> s\<lparr>rc_pcs := (rc_pcs s)(t := pc)\<rparr>"

definition set_epoch :: "nat \<Rightarrow> nat \<Rightarrow> nat \<Rightarrow> rcu_sys \<Rightarrow> rcu_sys" where
  "set_epoch d i e s = s\<lparr>rc_epoch := (rc_epoch s)(d := (rc_epoch s d)(i := e))\<rparr>"

definition set_in_use :: "nat \<Rightarrow> nat \<Rightarrow> bool \<Rightarrow> rcu_sys \<Rightarrow> rcu_sys" where
  "set_in_use d i b s = s\<lparr>rc_in_use := (rc_in_use s)(d := (rc_in_use s d)(i := b))\<rparr>"

definition delete_obj :: "nat \<Rightarrow> rcu_sys \<Rightarrow> rcu_sys" where
  "delete_obj a s = s\<lparr>rc_fault := (rc_fault s \<or> a \<in> rc_freed s), rc_freed := insert a (rc_freed s)\<rparr>"

text \<open>\<open>get_rcu_thread_context\<close>: the thread-local context is constructed once per thread, with
  the domain of the first call; later calls return it whatever domain they ask for.\<close>

definition enter_reader :: "nat \<Rightarrow> nat \<Rightarrow> rcu_sys \<Rightarrow> rcu_sys" where
  "enter_reader t d s =
     (case rc_ctx s t of
        None \<Rightarrow> at_pc t (Register d 0) s
      | Some (d0, slot) \<Rightarrow> at_pc t (Lock d slot 0 []) s)"

definition exchange_ptr :: "nat \<Rightarrow> nat \<Rightarrow> bool \<Rightarrow> rcu_sys \<Rightarrow> rcu_sys" where
  "exchange_ptr t r fresh s =
     (let s' = s\<lparr>rc_ptr := (rc_ptr s)(r := if fresh then Some (rc_next s) else None),
                 rc_next := (if fresh then Suc (rc_next s) else rc_next s)\<rparr>
      in case rc_ptr s r of None \<Rightarrow> s' | Some old \<Rightarrow> at_pc t (WFetch r old) s')"

definition idle_call :: "nat \<Rightarrow> rcu_call \<Rightarrow> rcu_sys \<Rightarrow> rcu_sys" where
  "idle_call t call s =
     (case call of
        Enter d \<Rightarrow> enter_reader t d s
      | Update r fresh \<Rightarrow> exchange_ptr t r fresh s
      | Destroy r \<Rightarrow> (case rc_ptr s r of None \<Rightarrow> s | Some a \<Rightarrow> delete_obj a s)
      | Exit \<Rightarrow> (case rc_ctx s t of None \<Rightarrow> s | Some (d, i) \<Rightarrow> at_pc t (ExitEpoch d i) s)
      | _ \<Rightarrow> s)"

definition reader_call :: "nat \<Rightarrow> rcu_call \<Rightarrow> nat \<Rightarrow> nat \<Rightarrow> nat \<Rightarrow> nat list \<Rightarrow> rcu_sys \<Rightarrow> rcu_sys" where
  "reader_call t call d i n held s =
     (case call of
        Read r \<Rightarrow>
          (case rc_ptr s r of None \<Rightarrow> s | Some a \<Rightarrow> at_pc t (Reading d i n (a # held)) s)
      | Deref k \<Rightarrow>
          s\<lparr>rc_fault := (rc_fault s \<or> (k < length held \<and> held ! k \<in> rc_freed s))\<rparr>
      | Leave \<Rightarrow>
          at_pc t (if n \<le> 1 then RIdle else Reading d i (n - 1) held) (set_epoch d i 0 s)
      | Nest \<Rightarrow> at_pc t (Lock d i n held) s
      | _ \<Rightarrow> s)"

fun rcu_step :: "(nat \<Rightarrow> nat) \<Rightarrow> nat \<times> rcu_call \<Rightarrow> rcu_sys \<Rightarrow> rcu_sys" where
  "rcu_step rdom (t, call) s =
     (case rc_pcs s t of
        RIdle \<Rightarrow> idle_call t call s
      | Register d i \<Rightarrow>
          (if i < kMaxRcuThreads
           then if rc_in_use s d i then at_pc t (Register d (i + 1)) s
                else at_pc t (RegStore d i) (set_in_use d i True s)
           else at_pc t RIdle (s\<lparr>rc_threw := rc_threw s @ [t]\<rparr>))
      | RegStore d i \<Rightarrow>
          at_pc t (Lock d i 0 []) (set_epoch d i 0 (s\<lparr>rc_ctx := (rc_ctx s)(t := Some (d, i))\<rparr>))
      | Lock d i n held \<Rightarrow> at_pc t (LockX d i n held (rc_global s d)) s
      | LockX d i n held current_epoch \<Rightarrow>
          at_pc t (Reading d i (n + 1) held) (set_epoch d i current_epoch s)
      | Reading d i n held \<Rightarrow> reader_call t call d i n held s
      | ExitEpoch d i \<Rightarrow> at_pc t (ExitUse d i) (set_epoch d i 0 s)
      | ExitUse d i \<Rightarrow>
          at_pc t RIdle (set_in_use d i False (s\<lparr>rc_ctx := (rc_ctx s)(t := None)\<rparr>))
      | WFetch r old \<Rightarrow>
          (let d = rdom r; new_epoch = (rc_global s d + 1) mod 2 ^ 64
           in at_pc t (WScan r old new_epoch 0) (s\<lparr>rc_global := (rc_global s)(d := new_epoch)\<rparr>))
      | WScan r old new_epoch i \<Rightarrow>
          (if i < kMaxRcuThreads
           then if rc_in_use s (rdom r) i then at_pc t (WSpin r old new_epoch i) s
                else at_pc t (WScan r old new_epoch (i + 1)) s
           else at_pc t RIdle (delete_obj old s))
      | WSpin r old new_epoch i \<Rightarrow>
          (let thread_epoch = rc_epoch s (rdom r) i
           in if thread_epoch = 0 \<or> thread_epoch \<ge> new_epoch
              then at_pc t (WScan r old new_epoch (i + 1)) s else s))"

declare rcu_step.simps [simp del]

definition rcu_run :: "(nat \<Rightarrow> nat) \<Rightarrow> (nat \<times> rcu_call) list \<Rightarrow> rcu_sys" where
  "rcu_run rdom es = run_sched (rcu_step rdom) es rcu_new"

section \<open>Proper use\<close>

text \<open>
  What the callers owe: a thread enters readers on one domain only, without nesting them, reads only
  pointers of that domain, and nobody destroys a pointer while the threads run.
\<close>

fun proper :: "(nat \<Rightarrow> nat) \<Rightarrow> (nat \<Rightarrow> nat) \<Rightarrow> nat \<times> rcu_call \<Rightarrow> bool" where
  "proper rdom home (t, Enter d) \<longleftrightarrow> d = home t"
| "proper rdom home (t, Read r) \<longleftrightarrow> rdom r = home t"
| "proper rdom home (t, Nest) \<longleftrightarrow> False"
| "proper rdom home (t, Destroy r) \<longleftrightarrow> False"
| "proper rdom home (t, call) \<longleftrightarrow> True"

section \<open>Invariants\<close>

text \<open>The slot a thread has won: its context's, or the one it is about to put there.\<close>

fun claimed :: "rcu_pc \<Rightarrow> (nat \<times> nat) option" where
  "claimed (RegStore d i) = Some (d, i)"
| "claimed _ = None"

definition slot_of :: "rcu_sys \<Rightarrow> nat \<Rightarrow> (nat \<times> nat) option" where
  "slot_of s t = (case rc_ctx s t of Some x \<Rightarrow> Some x | None \<Rightarrow> claimed (rc_pcs s t))"

definition slots_ok :: "(nat \<Rightarrow> nat) \<Rightarrow> rcu_sys \<Rightarrow> bool" where
  "slots_ok home s \<longleftrightarrow>
     (\<forall>t d i. slot_of s t = Some (d, i) \<longrightarrow> i < kMaxRcuThreads \<and> rc_in_use s d i \<and> d = home t)
   \<and> (\<forall>t u x. slot_of s t = Some x \<longrightarrow> slot_of s u = Some x \<longrightarrow> t = u)"

fun pc_ok :: "(nat \<Rightarrow> nat) \<Rightarrow> (nat \<Rightarrow> nat) \<Rightarrow> rcu_sys \<Rightarrow> nat \<Rightarrow> rcu_pc \<Rightarrow> bool" where
  "pc_ok rdom home s t (Register d i) \<longleftrightarrow> rc_ctx s t = None \<and> d = home t"
| "pc_ok rdom home s t (RegStore d i) \<longleftrightarrow> rc_ctx s t = None"
| "pc_ok rdom home s t (Lock d i n h) \<longleftrightarrow>
     rc_ctx s t = Some (d, i) \<and> n = 0 \<and> h = [] \<and> rc_epoch s d i = 0"
| "pc_ok rdom home s t (LockX d i n h g) \<longleftrightarrow>
     rc_ctx s t = Some (d, i) \<and> n = 0 \<and> h = [] \<and> rc_epoch s d i = 0 \<and> 1 \<le> g \<and> g \<le> rc_global s d"
| "pc_ok rdom home s t (Reading d i n h) \<longleftrightarrow>
     rc_ctx s t = Some (d, i) \<and> n = 1 \<and> 1 \<le> rc_epoch s d i"
| "pc_ok rdom home s t (ExitEpoch d i) \<longleftrightarrow> rc_ctx s t = Some (d, i) \<and> rc_epoch s d i = 0"
| "pc_ok rdom home s t (ExitUse d i) \<longleftrightarrow> rc_ctx s t = Some (d, i) \<and> rc_epoch s d i = 0"
| "pc_ok rdom home s t pc \<longleftrightarrow> (\<forall>d i. rc_ctx s t = Some (d, i) \<longrightarrow> rc_epoch s d i = 0)"

definition epochs_ok :: "nat \<Rightarrow> rcu_sys \<Rightarrow> bool" where
  "epochs_ok k s \<longleftrightarrow> (\<forall>d. 1 \<le> rc_global s d \<and> rc_global s d \<le> Suc k
     \<and> (\<forall>i. rc_epoch s d i \<le> rc_global s d))"

fun retired :: "rcu_pc \<Rightarrow> (nat \<times> nat) option" where
  "retired (WFetch r a) = Some (r, a)"
| "retired (WScan r a n i) = Some (r, a)"
| "retired (WSpin r a n i) = Some (r, a)"
| "retired _ = None"

definition places_ok :: "rcu_sys \<Rightarrow> bool" where
  "places_ok s \<longleftrightarrow>
     (\<forall>r a. rc_ptr s r = Some a \<longrightarrow> a < rc_next s \<and> a \<notin> rc_freed s)
   \<and> (\<forall>r q a. rc_ptr s r = Some a \<longrightarrow> rc_ptr s q = Some a \<longrightarrow> r = q)
   \<and> (\<forall>t r a. retired (rc_pcs s t) = Some (r, a) \<longrightarrow>
        a < rc_next s \<and> a \<notin> rc_freed s \<and> (\<forall>q. rc_ptr s q \<noteq> Some a))
   \<and> (\<forall>t u r q a. retired (rc_pcs s t) = Some (r, a) \<longrightarrow> retired (rc_pcs s u) = Some (q, a) \<longrightarrow> t = u)
   \<and> (\<forall>a \<in> rc_freed s. a < rc_next s)"

text \<open>What a reader holds is published in its domain or waits for a grace period there.\<close>

definition held_ok :: "(nat \<Rightarrow> nat) \<Rightarrow> rcu_sys \<Rightarrow> bool" where
  "held_ok rdom s \<longleftrightarrow> (\<forall>t d i n h a. rc_pcs s t = Reading d i n h \<longrightarrow> a \<in> set h \<longrightarrow>
     (\<exists>r. rdom r = d \<and> (rc_ptr s r = Some a \<or> (\<exists>w. retired (rc_pcs s w) = Some (r, a)))))"

fun scanning :: "rcu_pc \<Rightarrow> (nat \<times> nat \<times> nat) option" where
  "scanning (WScan r a n i) = Some (a, n, i)"
| "scanning (WSpin r a n i) = Some (a, n, i)"
| "scanning _ = None"

text \<open>A reader that still holds a retired object has an old epoch and a slot not yet scanned.\<close>

definition grace_ok :: "rcu_sys \<Rightarrow> bool" where
  "grace_ok s \<longleftrightarrow> (\<forall>w a e j. scanning (rc_pcs s w) = Some (a, e, j) \<longrightarrow>
     (\<forall>t d i n h. rc_pcs s t = Reading d i n h \<longrightarrow> a \<in> set h \<longrightarrow> rc_epoch s d i < e \<and> j \<le> i))"

definition rcu_inv :: "(nat \<Rightarrow> nat) \<Rightarrow> (nat \<Rightarrow> nat) \<Rightarrow> nat \<Rightarrow> rcu_sys \<Rightarrow> bool" where
  "rcu_inv rdom home k s \<longleftrightarrow> slots_ok home s \<and> (\<forall>t. pc_ok rdom home s t (rc_pcs s t))
     \<and> epochs_ok k s \<and> places_ok s \<and> held_ok rdom s \<and> grace_ok s \<and> \<not> rc_fault s"


section \<open>The invariant is kept\<close>

lemma set_epoch_fields [simp]:
  "rc_epoch (set_epoch d i e s) = (rc_epoch s)(d := (rc_epoch s d)(i := e))"
  "rc_in_use (set_epoch d i e s) = rc_in_use s"
  "rc_global (set_epoch d i e s) = rc_global s"
  "rc_ptr (set_epoch d i e s) = rc_ptr s"
  "rc_ctx (set_epoch d i e s) = rc_ctx s"
  "rc_pcs (set_epoch d i e s) = rc_pcs s"
  "rc_next (set_epoch d i e s) = rc_next s"
  "rc_freed (set_epoch d i e s) = rc_freed s"
  "rc_fault (set_epoch d i e s) = rc_fault s"
  by (simp_all add: set_epoch_def)

lemma set_in_use_fields [simp]:
  "rc_epoch (set_in_use d i b s) = rc_epoch s"
  "rc_in_use (set_in_use d i b s) = (rc_in_use s)(d := (rc_in_use s d)(i := b))"
  "rc_global (set_in_use d i b s) = rc_global s"
  "rc_ptr (set_in_use d i b s) = rc_ptr s"
  "rc_ctx (set_in_use d i b s) = rc_ctx s"
  "rc_pcs (set_in_use d i b s) = rc_pcs s"
  "rc_next (set_in_use d i b s) = rc_next s"
  "rc_freed (set_in_use d i b s) = rc_freed s"
  "rc_fault (set_in_use d i b s) = rc_fault s"
  by (simp_all add: set_in_use_def)

lemma delete_obj_fields [simp]:
  "rc_epoch (delete_obj a s) = rc_epoch s"
  "rc_in_use (delete_obj a s) = rc_in_use s"
  "rc_global (delete_obj a s) = rc_global s"
  "rc_ptr (delete_obj a s) = rc_ptr s"
  "rc_ctx (delete_obj a s) = rc_ctx s"
  "rc_pcs (delete_obj a s) = rc_pcs s"
  "rc_next (delete_obj a s) = rc_next s"
  "rc_freed (delete_obj a s) = insert a (rc_freed s)"
  "rc_fault (delete_obj a s) = (rc_fault s \<or> a \<in> rc_freed s)"
  by (simp_all add: delete_obj_def)

lemmas rcu_unfold = rcu_step.simps idle_call_def enter_reader_def exchange_ptr_def
  reader_call_def Let_def

lemmas rcu_split = rcu_call.splits option.splits if_splits

lemma slot_of_ctx: "rc_ctx s t = Some x \<Longrightarrow> slot_of s t = Some x"
  by (simp add: slot_of_def)

lemma slots_frame:
  "slots_ok home s \<Longrightarrow> slot_of s' = slot_of s \<Longrightarrow> rc_in_use s' = rc_in_use s \<Longrightarrow> slots_ok home s'"
  by (simp add: slots_ok_def)

lemma slot_of_at_pc:
  "claimed pc = claimed (rc_pcs s t) \<Longrightarrow> slot_of (at_pc t pc s) = slot_of s"
  by (auto simp: slot_of_def fun_eq_iff split: option.splits)

lemma slot_of_cong:
  "rc_ctx s' = rc_ctx s \<Longrightarrow> (\<And>u. claimed (rc_pcs s' u) = claimed (rc_pcs s u)) \<Longrightarrow> slot_of s' = slot_of s"
  by (auto simp: slot_of_def fun_eq_iff split: option.splits)

text \<open>The transitions other than these four leave the assignment of the slots alone.\<close>

fun moves_slot :: "rcu_pc \<Rightarrow> bool" where
  "moves_slot (Register d i) = True"
| "moves_slot (RegStore d i) = True"
| "moves_slot (ExitUse d i) = True"
| "moves_slot _ = False"

lemma still_slots:
  assumes "\<not> moves_slot (rc_pcs s t)"
  shows "rc_ctx (rcu_step rdom (t, c) s) = rc_ctx s"
    and "rc_in_use (rcu_step rdom (t, c) s) = rc_in_use s"
    and "claimed (rc_pcs (rcu_step rdom (t, c) s) u) = claimed (rc_pcs s u)"
  using assms by (cases "rc_pcs s t"; auto simp: rcu_unfold split: rcu_split)+

lemma slots_step:
  assumes inv: "rcu_inv rdom home k s" and call: "proper rdom home (t, c)"
  shows "slots_ok home (rcu_step rdom (t, c) s)"
proof -
  have ok: "slots_ok home s" and pc: "pc_ok rdom home s t (rc_pcs s t)"
    using inv by (auto simp: rcu_inv_def)
  show ?thesis
  proof (cases "moves_slot (rc_pcs s t)")
    case False
    with ok show ?thesis
      by (intro slots_frame [OF ok] slot_of_cong) (simp_all add: still_slots)
  next
    case True
    then consider (reg) d i where "rc_pcs s t = Register d i"
      | (store) d i where "rc_pcs s t = RegStore d i"
      | (exit) d i where "rc_pcs s t = ExitUse d i"
      by (auto elim!: moves_slot.elims)
    then show ?thesis
    proof cases
      case reg
      have slot: "slot_of (rcu_step rdom (t, c) s) = (slot_of s)
          (t := if i < kMaxRcuThreads \<and> \<not> rc_in_use s d i then Some (d, i) else None)"
        using reg pc by (auto simp: rcu_unfold slot_of_def fun_eq_iff split: option.splits)
      have use: "rc_in_use (rcu_step rdom (t, c) s) =
          (if i < kMaxRcuThreads then (rc_in_use s)(d := (rc_in_use s d)(i := True)) else rc_in_use s)"
        using reg by (auto simp: rcu_unfold fun_eq_iff)
      show ?thesis using ok reg pc unfolding slots_ok_def slot use
        by (auto split: if_splits)
    next
      case store
      have "slot_of (rcu_step rdom (t, c) s) = slot_of s"
        using store pc by (auto simp: rcu_unfold slot_of_def fun_eq_iff split: option.splits)
      with ok store show ?thesis by (intro slots_frame [OF ok]) (simp_all add: rcu_unfold)
    next
      case exit
      have slot: "slot_of (rcu_step rdom (t, c) s) = (slot_of s)(t := None)"
        using exit by (auto simp: rcu_unfold slot_of_def fun_eq_iff split: option.splits)
      have use: "rc_in_use (rcu_step rdom (t, c) s) = (rc_in_use s)(d := (rc_in_use s d)(i := False))"
        using exit by (simp add: rcu_unfold)
      have own: "slot_of s t = Some (d, i)" using exit pc by (simp add: slot_of_def)
      have "slot_of s u = Some (d, i) \<longrightarrow> u = t" for u
        using ok own unfolding slots_ok_def by blast
      then show ?thesis using ok unfolding slots_ok_def slot use
        by (auto split: if_splits)
    qed
  qed
qed

lemma epochs_step:
  assumes inv: "rcu_inv rdom home k s" and k: "k < 2 ^ 64 - 2"
  shows "epochs_ok (Suc k) (rcu_step rdom (t, c) s)"
proof -
  have ok: "epochs_ok k s" and pc: "pc_ok rdom home s t (rc_pcs s t)"
    using inv by (auto simp: rcu_inv_def)
  have small: "(rc_global s d + 1) mod 2 ^ 64 = rc_global s d + 1" for d
  proof -
    have "rc_global s d \<le> Suc k" using ok by (simp add: epochs_ok_def)
    with k show ?thesis by simp
  qed
  have le: "rc_epoch s d i \<le> Suc (rc_global s d)" "rc_global s d \<le> Suc (Suc k)" for d i
    using ok by (auto simp: epochs_ok_def le_SucI)
  have ok': "epochs_ok (Suc k) s" using ok by (auto simp: epochs_ok_def le_SucI)
  show ?thesis
  proof (cases "rc_pcs s t")
    case (WFetch r a)
    then show ?thesis using ok ok' small le by (auto simp: rcu_unfold epochs_ok_def)
  next
    case (LockX d i n h g)
    then show ?thesis using ok' pc by (auto simp: rcu_unfold epochs_ok_def)
  qed (use ok' in \<open>auto simp: rcu_unfold epochs_ok_def split: rcu_split\<close>)
qed

lemma other_thread:
  assumes "u \<noteq> t"
  shows "rc_ctx (rcu_step rdom (t, c) s) u = rc_ctx s u"
    and "rc_pcs (rcu_step rdom (t, c) s) u = rc_pcs s u"
  using assms by (cases "rc_pcs s t"; auto simp: rcu_unfold split: rcu_split)+

lemma epoch_own_slot:
  assumes pc: "pc_ok rdom home s t (rc_pcs s t)" and "slot_of s t \<noteq> Some (d, i)"
  shows "rc_epoch (rcu_step rdom (t, c) s) d i = rc_epoch s d i"
  using assms by (cases "rc_pcs s t"; auto simp: rcu_unfold slot_of_def split: rcu_split)

lemma epoch_other:
  assumes inv: "rcu_inv rdom home k s" and ne: "u \<noteq> t" and ctx: "rc_ctx s u = Some (d, i)"
  shows "rc_epoch (rcu_step rdom (t, c) s) d i = rc_epoch s d i"
proof (rule epoch_own_slot)
  show "pc_ok rdom home s t (rc_pcs s t)" using inv by (simp add: rcu_inv_def)
  have "slot_of s u = Some (d, i)" using ctx by (rule slot_of_ctx)
  with inv ne show "slot_of s t \<noteq> Some (d, i)" unfolding rcu_inv_def slots_ok_def by blast
qed

lemma global_grows:
  assumes inv: "rcu_inv rdom home k s" and k: "k < 2 ^ 64 - 2"
  shows "rc_global s d \<le> rc_global (rcu_step rdom (t, c) s) d"
proof -
  have "rc_global s r + 1 < 2 ^ 64" for r
  proof -
    have "rc_global s r \<le> Suc k" using inv by (simp add: rcu_inv_def epochs_ok_def)
    with k show ?thesis by simp
  qed
  then show ?thesis by (cases "rc_pcs s t") (auto simp: rcu_unfold split: rcu_split)
qed

lemma pc_frame:
  assumes "pc_ok rdom home s u pc" and "rc_ctx s' u = rc_ctx s u"
    and "\<And>d i. rc_ctx s u = Some (d, i) \<Longrightarrow> rc_epoch s' d i = rc_epoch s d i"
    and "\<And>d. rc_global s d \<le> rc_global s' d"
  shows "pc_ok rdom home s' u pc"
  using assms by (cases "(rdom, home, s, u, pc)" rule: pc_ok.cases) (auto intro: order_trans)

lemma pc_self:
  assumes inv: "rcu_inv rdom home k s" and call: "proper rdom home (t, c)"
  shows "pc_ok rdom home (rcu_step rdom (t, c) s) t (rc_pcs (rcu_step rdom (t, c) s) t)"
proof -
  have pc: "pc_ok rdom home s t (rc_pcs s t)" and slots: "slots_ok home s"
    and glob: "\<And>d. 1 \<le> rc_global s d"
    using inv by (auto simp: rcu_inv_def epochs_ok_def)
  have mine: "\<And>d i. rc_ctx s t = Some (d, i) \<Longrightarrow> d = home t"
    using slots slot_of_ctx unfolding slots_ok_def by blast
  show ?thesis
  proof (cases "rc_pcs s t")
    case RIdle
    show ?thesis
    proof (cases c)
      case (Enter d)
      with RIdle pc mine call show ?thesis by (auto simp: rcu_unfold split: option.splits)
    qed (use RIdle pc in \<open>auto simp: rcu_unfold split: option.splits\<close>)
  next
    case (Reading d i n h)
    then show ?thesis using pc call by (cases c) (auto simp: rcu_unfold split: option.splits)
  qed (use pc glob in \<open>auto simp: rcu_unfold split: rcu_split\<close>)
qed

lemma pcs_step:
  assumes inv: "rcu_inv rdom home k s" and k: "k < 2 ^ 64 - 2" and call: "proper rdom home (t, c)"
  shows "pc_ok rdom home (rcu_step rdom (t, c) s) u (rc_pcs (rcu_step rdom (t, c) s) u)"
proof (cases "u = t")
  case True
  with inv call show ?thesis by (simp add: pc_self)
next
  case False
  have "pc_ok rdom home (rcu_step rdom (t, c) s) u (rc_pcs s u)"
    by (rule pc_frame [of rdom home s])
      (use inv False in \<open>simp_all add: rcu_inv_def other_thread epoch_other [OF inv] global_grows [OF inv k]\<close>)
  with False show ?thesis by (simp add: other_thread)
qed

lemma places_retired:
  assumes "places_ok s" and "retired (rc_pcs s t) = Some (r, a)"
  shows "a < rc_next s" and "a \<notin> rc_freed s" and "rc_ptr s q \<noteq> Some a"
    and "retired (rc_pcs s u) = Some (q, a) \<Longrightarrow> u = t"
  using assms unfolding places_ok_def by blast+

lemma places_shrink:
  assumes "places_ok s" and "\<And>u. rc_pcs s' u = (if u = t then pc else rc_pcs s u)"
    and "rc_ptr s' = rc_ptr s" "rc_next s' = rc_next s" "rc_freed s' = rc_freed s"
    and "retired pc = retired (rc_pcs s t) \<or> retired pc = None"
  shows "places_ok s'"
proof -
  have "retired (rc_pcs s' u) = retired (rc_pcs s u) \<or> retired (rc_pcs s' u) = None" for u
    using assms(2,6) by auto
  then have "retired (rc_pcs s' u) = Some x \<Longrightarrow> retired (rc_pcs s u) = Some x" for u x
    by (metis option.distinct(1))
  note R = this
  from assms(1) show ?thesis unfolding places_ok_def assms(3-5)
    by (elim conjE, intro conjI) (blast dest: R)+
qed

lemma places_step:
  assumes inv: "rcu_inv rdom home k s" and call: "proper rdom home (t, c)"
  shows "places_ok (rcu_step rdom (t, c) s)"
proof -
  have ok: "places_ok s" using inv by (simp add: rcu_inv_def)
  then have bound: "rc_ptr s r = Some a \<Longrightarrow> a < rc_next s"
    "retired (rc_pcs s w) = Some (r, a) \<Longrightarrow> a < rc_next s"
    "a \<in> rc_freed s \<Longrightarrow> a < rc_next s" for r a w
    unfolding places_ok_def by blast+
  show ?thesis
  proof (cases "rc_pcs s t")
    case RIdle
    show ?thesis
    proof (cases c)
      case (Update r fresh)
      then show ?thesis using RIdle ok
        by (cases "rc_ptr s r"; cases fresh)
          (auto simp: rcu_unfold places_ok_def dest: bound intro: less_SucI split: if_splits)
    qed (use RIdle ok call in \<open>auto simp: rcu_unfold places_ok_def split: option.splits\<close>)
  next
    case (WScan r a n i)
    show ?thesis
    proof (cases "i < kMaxRcuThreads")
      case True
      with WScan show ?thesis
        by (intro places_shrink [OF ok, of _ t "rc_pcs (rcu_step rdom (t, c) s) t"])
          (auto simp: rcu_unfold split: if_splits)
    next
      case False
      have "retired (rc_pcs s t) = Some (r, a)" using WScan by simp
      note own = places_retired [OF ok this]
      from False WScan show ?thesis using ok own unfolding places_ok_def
        by (auto simp: rcu_unfold split: if_splits)
    qed
  next
    case (Reading d i n h)
    then show ?thesis
      by (intro places_shrink [OF ok, of _ t "rc_pcs (rcu_step rdom (t, c) s) t"]; cases c)
        (auto simp: rcu_unfold split: option.splits)
  qed (intro places_shrink [OF ok, of _ t "rc_pcs (rcu_step rdom (t, c) s) t"],
      auto simp: rcu_unfold split: if_splits)+
qed

text \<open>What a reader may hold after a step: what it held before, or what is published now.\<close>

lemma held_after:
  assumes inv: "rcu_inv rdom home k s" and call: "proper rdom home (t, c)"
    and rd: "rc_pcs (rcu_step rdom (t, c) s) u = Reading d i n h" and a: "a \<in> set h"
  obtains (old) n' h' where "rc_pcs s u = Reading d i n' h'" "a \<in> set h'"
      "rc_epoch (rcu_step rdom (t, c) s) d i = rc_epoch s d i"
  | (new) r n' h' where "u = t" "rc_pcs s t = Reading d i n' h'" "rdom r = d" "rc_ptr s r = Some a"
      "c = Read r" "rc_epoch (rcu_step rdom (t, c) s) d i = rc_epoch s d i"
proof (cases "u = t")
  case False
  with rd have rd': "rc_pcs s u = Reading d i n h" by (simp add: other_thread)
  then have "rc_ctx s u = Some (d, i)" using inv by (auto dest!: spec [of _ u] simp: rcu_inv_def)
  then show ?thesis using old [OF rd' a] epoch_other [OF inv False] by blast
next
  case True
  have pc: "pc_ok rdom home s t (rc_pcs s t)" and slots: "slots_ok home s"
    using inv by (auto simp: rcu_inv_def)
  show ?thesis
  proof (cases "rc_pcs s t")
    case (Reading d' i' n' h')
    then have "rc_ctx s t = Some (d', i')" using pc by simp
    then have "d' = home t" using slots slot_of_ctx unfolding slots_ok_def by blast
    with Reading rd True a call pc old new show ?thesis
      by (cases c) (auto simp: rcu_unfold split: option.splits if_splits)
  next
    case RIdle
    with rd True show ?thesis by (auto simp: rcu_unfold split: rcu_split)
  next
    case (LockX d' i' n' h' g)
    with rd True pc a show ?thesis by (auto simp: rcu_unfold)
  qed (use rd True in \<open>auto simp: rcu_unfold split: if_splits\<close>)
qed

lemma retired_after:
  assumes "retired (rc_pcs s w) = Some (r, a)"
  shows "retired (rc_pcs (rcu_step rdom (t, c) s) w) = Some (r, a) \<or>
    (\<exists>n i. w = t \<and> rc_pcs s t = WScan r a n i \<and> \<not> i < kMaxRcuThreads)"
proof (cases "w = t")
  case True
  with assms show ?thesis by (cases "rc_pcs s t") (auto simp: rcu_unfold)
qed (use assms in \<open>simp add: other_thread\<close>)

lemma published_after:
  assumes "rc_ptr s r = Some a" and "proper rdom home (t, c)"
  shows "rc_ptr (rcu_step rdom (t, c) s) r = Some a \<or>
    retired (rc_pcs (rcu_step rdom (t, c) s) t) = Some (r, a)"
  using assms by (cases "rc_pcs s t"; cases c) (auto simp: rcu_unfold split: option.splits)

text \<open>The end of a grace period: no reader holds the retired object.\<close>

lemma grace_over:
  assumes inv: "rcu_inv rdom home k s" and "rc_pcs s t = WScan r a n j" "\<not> j < kMaxRcuThreads"
    and rd: "rc_pcs s u = Reading d i m h"
  shows "a \<notin> set h"
proof
  assume "a \<in> set h"
  moreover have "scanning (rc_pcs s t) = Some (a, n, j)" using assms by simp
  ultimately have "j \<le> i" using inv rd unfolding rcu_inv_def grace_ok_def by blast
  moreover have "rc_ctx s u = Some (d, i)" using inv rd by (auto dest!: spec [of _ u] simp: rcu_inv_def)
  then have "slot_of s u = Some (d, i)" by (rule slot_of_ctx)
  with inv have "i < kMaxRcuThreads" unfolding rcu_inv_def slots_ok_def by blast
  ultimately show False using assms by simp
qed

lemma held_step:
  assumes inv: "rcu_inv rdom home k s" and call: "proper rdom home (t, c)"
  shows "held_ok rdom (rcu_step rdom (t, c) s)"
  unfolding held_ok_def
proof (intro allI impI)
  fix u d i n h a
  assume rd: "rc_pcs (rcu_step rdom (t, c) s) u = Reading d i n h" and a: "a \<in> set h"
  have held: "held_ok rdom s" using inv by (simp add: rcu_inv_def)
  from inv call rd a
  show "\<exists>r. rdom r = d \<and> (rc_ptr (rcu_step rdom (t, c) s) r = Some a \<or>
      (\<exists>w. retired (rc_pcs (rcu_step rdom (t, c) s) w) = Some (r, a)))"
  proof (cases rule: held_after)
    case (old n' h')
    then obtain r where r: "rdom r = d"
      "rc_ptr s r = Some a \<or> (\<exists>w. retired (rc_pcs s w) = Some (r, a))"
      using held unfolding held_ok_def by blast
    then show ?thesis
      using published_after [OF _ call] retired_after grace_over [OF inv _ _ old(1)] old(2) by metis
  next
    case (new r n' h')
    then show ?thesis using published_after [OF _ call] by metis
  qed
qed

text \<open>A scan after a step: the same scan, one that has just begun, or one slot further.\<close>

lemma scan_after:
  assumes "scanning (rc_pcs (rcu_step rdom (t, c) s) w) = Some (a, e, j)"
  obtains (same) "scanning (rc_pcs s w) = Some (a, e, j)"
  | (begun) r where "w = t" "rc_pcs s t = WFetch r a" "j = 0" "e = (rc_global s (rdom r) + 1) mod 2 ^ 64"
  | (unused) r i where "w = t" "rc_pcs s t = WScan r a e i" "j = Suc i" "\<not> rc_in_use s (rdom r) i"
  | (passed) r i where "w = t" "rc_pcs s t = WSpin r a e i" "j = Suc i"
      "rc_epoch s (rdom r) i = 0 \<or> rc_epoch s (rdom r) i \<ge> e"
proof (cases "w = t")
  case False
  with assms same show ?thesis by (simp add: other_thread)
next
  case True
  show ?thesis
  proof (cases "rc_pcs s t")
    case RIdle
    with assms True show ?thesis by (auto simp: rcu_unfold split: rcu_split)
  next
    case (Reading d i n h)
    with assms True show ?thesis by (cases c) (auto simp: rcu_unfold split: option.splits if_splits)
  qed (use assms True same begun unused passed in \<open>auto simp: rcu_unfold split: if_splits\<close>)
qed

lemma reader_facts:
  assumes inv: "rcu_inv rdom home k s" and rd: "rc_pcs s u = Reading d i n h"
  shows "rc_in_use s d i" and "1 \<le> rc_epoch s d i" and "rc_epoch s d i \<le> rc_global s d"
proof -
  have pc: "rc_ctx s u = Some (d, i) \<and> 1 \<le> rc_epoch s d i"
    using inv rd by (auto dest!: spec [of _ u] simp: rcu_inv_def)
  then have "slot_of s u = Some (d, i)" by (simp add: slot_of_ctx)
  with inv pc show "rc_in_use s d i" "1 \<le> rc_epoch s d i" "rc_epoch s d i \<le> rc_global s d"
    unfolding rcu_inv_def slots_ok_def epochs_ok_def by blast+
qed

lemma holder_domain:
  assumes inv: "rcu_inv rdom home k s" and rd: "rc_pcs s u = Reading d i n h" and a: "a \<in> set h"
    and ret: "retired (rc_pcs s w) = Some (r, a)"
  shows "d = rdom r"
proof -
  have places: "places_ok s" and held: "held_ok rdom s" using inv by (auto simp: rcu_inv_def)
  from held rd a obtain q where q: "rdom q = d"
    "rc_ptr s q = Some a \<or> (\<exists>v. retired (rc_pcs s v) = Some (q, a))"
    unfolding held_ok_def by blast
  from q(2) places_retired [OF places ret] have "\<exists>v. retired (rc_pcs s v) = Some (q, a)" by blast
  then obtain v where v: "retired (rc_pcs s v) = Some (q, a)" ..
  then have "v = w" by (rule places_retired(4) [OF places ret])
  with v ret q(1) show ?thesis by simp
qed

lemma grace_step:
  assumes inv: "rcu_inv rdom home k s" and k: "k < 2 ^ 64 - 2" and call: "proper rdom home (t, c)"
  shows "grace_ok (rcu_step rdom (t, c) s)"
  unfolding grace_ok_def
proof (intro allI impI)
  fix w a e j u d i n h
  assume scan: "scanning (rc_pcs (rcu_step rdom (t, c) s) w) = Some (a, e, j)"
    and rd: "rc_pcs (rcu_step rdom (t, c) s) u = Reading d i n h" and a: "a \<in> set h"
  have grace: "grace_ok s" and places: "places_ok s" using inv by (auto simp: rcu_inv_def)
  have glob: "(rc_global s r + 1) mod 2 ^ 64 = rc_global s r + 1" for r
  proof -
    have "rc_global s r \<le> Suc k" using inv by (simp add: rcu_inv_def epochs_ok_def)
    with k show ?thesis by simp
  qed
  have ret: "\<exists>r. retired (rc_pcs s w) = Some (r, a)"
    using scan by (cases rule: scan_after) (auto elim!: scanning.elims)
  from inv call rd a show "rc_epoch (rcu_step rdom (t, c) s) d i < e \<and> j \<le> i"
  proof (cases rule: held_after)
    case (old n' h')
    note fact = reader_facts [OF inv old(1)] and dom = holder_domain [OF inv old(1,2)]
    from scan have "rc_epoch s d i < e \<and> j \<le> i"
    proof (cases rule: scan_after)
      case same
      with grace old show ?thesis unfolding grace_ok_def by blast
    next
      case (begun r)
      then have "d = rdom r" using dom [of t r] by simp
      with begun fact glob show ?thesis by simp
    next
      case (unused r i')
      then have "d = rdom r" using dom [of t r] by simp
      with unused fact have "i \<noteq> i'" by auto
      moreover have "rc_epoch s d i < e \<and> i' \<le> i"
        using grace old unused unfolding grace_ok_def by (metis scanning.simps(1))
      ultimately show ?thesis using unused by simp
    next
      case (passed r i')
      then have "d = rdom r" using dom [of t r] by simp
      moreover have "rc_epoch s d i < e \<and> i' \<le> i"
        using grace old passed unfolding grace_ok_def by (metis scanning.simps(2))
      ultimately have "i \<noteq> i'" using passed fact by auto
      with \<open>rc_epoch s d i < e \<and> i' \<le> i\<close> passed show ?thesis by simp
    qed
    with old show ?thesis by simp
  next
    case (new r n' h')
    from ret places_retired(3) [OF places] new show ?thesis by blast
  qed
qed

lemma held_alive:
  assumes "held_ok rdom s" "places_ok s" "rc_pcs s t = Reading d i n h" "a \<in> set h"
  shows "a \<notin> rc_freed s"
proof -
  obtain r where "rc_ptr s r = Some a \<or> (\<exists>w. retired (rc_pcs s w) = Some (r, a))"
    using assms unfolding held_ok_def by blast
  with assms(2) show ?thesis unfolding places_ok_def by blast
qed

lemma fault_step:
  assumes inv: "rcu_inv rdom home k s" and call: "proper rdom home (t, c)"
  shows "\<not> rc_fault (rcu_step rdom (t, c) s)"
proof -
  have ok: "\<not> rc_fault s" and places: "places_ok s" and held: "held_ok rdom s"
    using inv by (auto simp: rcu_inv_def)
  show ?thesis
  proof (cases "rc_pcs s t")
    case RIdle
    then show ?thesis using ok call by (cases c) (auto simp: rcu_unfold split: option.splits)
  next
    case (Reading d i n h)
    have "a \<notin> rc_freed s" if "a \<in> set h" for a
      using held_alive [OF held places Reading that] .
    then show ?thesis using Reading ok by (cases c) (auto simp: rcu_unfold split: option.splits)
  next
    case (WScan r a n i)
    then have "retired (rc_pcs s t) = Some (r, a)" by simp
    from places_retired(2) [OF places this] show ?thesis using WScan ok by (auto simp: rcu_unfold)
  qed (use ok in \<open>auto simp: rcu_unfold split: if_splits\<close>)
qed

lemma rcu_inv_step:
  assumes "rcu_inv rdom home k s" and "k < 2 ^ 64 - 2" and "proper rdom home e"
  shows "rcu_inv rdom home (Suc k) (rcu_step rdom e s)"
proof -
  obtain t c where e: "e = (t, c)" by (cases e)
  note assms = assms [unfolded e]
  show ?thesis unfolding e rcu_inv_def
    using slots_step [OF assms(1,3)] pcs_step [OF assms] epochs_step [OF assms(1,2)]
      places_step [OF assms(1,3)] held_step [OF assms(1,3)] grace_step [OF assms]
      fault_step [OF assms(1,3)]
    by blast
qed

lemma rcu_inv_new: "rcu_inv rdom home 0 rcu_new"
  by (auto simp: rcu_inv_def rcu_new_def slots_ok_def slot_of_def epochs_ok_def places_ok_def
      held_ok_def grace_ok_def)

interpretation rcu: counted_interleaving "rcu_step rdom" "proper rdom home" "rcu_inv rdom home" "2 ^ 64 - 2"
  for rdom home
  by unfold_locales (rule rcu_inv_step)

section \<open>Properties\<close>

text \<open>(C3) For any number of threads, domains and pointers and any interleaving of fewer than
  \<open>2^64 - 2\<close> steps in which every thread reads, un-nested, on one domain, pointers of that
  domain: no freed object is dereferenced and none is deleted twice, what a reader holds is not
  freed, and no published object is freed.\<close>
theorem rcu_safe:
  assumes "\<forall>e \<in> set es. proper rdom home e" and "length es \<le> 2 ^ 64 - 2"
  shows "\<not> rc_fault (rcu_run rdom es)
    \<and> (\<forall>t d i n h. rc_pcs (rcu_run rdom es) t = Reading d i n h \<longrightarrow>
         set h \<inter> rc_freed (rcu_run rdom es) = {})
    \<and> (\<forall>r a. rc_ptr (rcu_run rdom es) r = Some a \<longrightarrow> a \<notin> rc_freed (rcu_run rdom es))"
proof -
  have "rcu_inv rdom home (0 + length es) (rcu_run rdom es)"
    unfolding rcu_run_def using assms by (intro rcu.counted_keeps rcu_inv_new) auto
  then have ok: "\<not> rc_fault (rcu_run rdom es)" and places: "places_ok (rcu_run rdom es)"
    and held: "held_ok rdom (rcu_run rdom es)" by (auto simp: rcu_inv_def)
  show ?thesis
  proof (intro conjI allI impI)
    fix t d i n h
    assume "rc_pcs (rcu_run rdom es) t = Reading d i n h"
    then show "set h \<inter> rc_freed (rcu_run rdom es) = {}"
      using held_alive [OF held places] by blast
  next
    fix r a
    assume "rc_ptr (rcu_run rdom es) r = Some a"
    then show "a \<notin> rc_freed (rcu_run rdom es)"
      using places unfolding places_ok_def by blast
  qed (rule ok)
qed


text \<open>The schedules below have one pointer, updates by thread 0 and reads by thread 1.\<close>

definition publish_and_enter :: "nat \<Rightarrow> nat \<Rightarrow> (nat \<times> rcu_call) list" where
  "publish_and_enter r d = (0, Update r True) # replicate 5 (1, Enter d)"

definition replace_and_use :: "nat \<Rightarrow> (nat \<times> rcu_call) list" where
  "replace_and_use r = (0, Update r True) # replicate 67 (0, Leave) @ [(1, Deref 0)]"

theorem rcu_safe_witness:
  "\<not> rc_fault (rcu_run (\<lambda>_. 0) (publish_and_enter 0 0 @ [(1, Read 0)] @ replace_and_use 0))"
  using rcu_safe [of "publish_and_enter 0 0 @ [(1, Read 0)] @ replace_and_use 0" "\<lambda>_. 0" "\<lambda>_. 0"]
  by (simp add: publish_and_enter_def replace_and_use_def)

text \<open>A second \<open>scoped_rcu_reader\<close> inside the first one on the same thread ends the
  protection: when the inner one is destroyed the epoch is set to 0, a concurrent update no longer
  waits, and the outer reader's pointer is freed while the reader still uses it.\<close>
theorem rcu_nested_reader_unprotected:
  "rc_fault (rcu_run (\<lambda>_. 0) (publish_and_enter 0 0
     @ [(1, Read 0), (1, Nest), (1, Leave), (1, Leave), (1, Leave)] @ replace_and_use 0))"
  by code_simp

text \<open>A thread has one context, made for the first domain it reads on, and uses its slot on
  every other domain without marking it in use there: an update on the second domain skips the
  slot and frees what the reader still uses.\<close>
theorem rcu_second_domain_unprotected:
  "rc_fault (rcu_run (\<lambda>r. r) (publish_and_enter 1 0
     @ [(1, Leave), (1, Enter 1), (1, Leave), (1, Leave), (1, Read 1)] @ replace_and_use 1))"
  by code_simp

section \<open>Updates finish when no reader is active\<close>

lemma scan_returns:
  assumes "i \<le> kMaxRcuThreads" and "rc_pcs s t = WScan r a e i" and "\<And>j. rc_epoch s (rdom r) j = 0"
  shows "\<exists>n \<le> 2 * (kMaxRcuThreads - i) + 1.
    run_sched (rcu_step rdom) (replicate n (t, Leave)) s = at_pc t RIdle (delete_obj a s)"
  using assms
proof (induction i arbitrary: s rule: inc_induct)
  case base
  then have "rcu_step rdom (t, Leave) s = at_pc t RIdle (delete_obj a s)" by (simp add: rcu_unfold)
  then have last: "run_sched (rcu_step rdom) (replicate 1 (t, Leave)) s = at_pc t RIdle (delete_obj a s)"
    by simp
  show ?case by (intro exI [of _ 1] conjI last) simp
next
  case (step i)
  define m :: nat where "m = (if rc_in_use s (rdom r) i then 2 else 1)"
  let ?s = "at_pc t (WScan r a e (Suc i)) s"
  have "run_sched (rcu_step rdom) (replicate m (t, Leave)) s = ?s"
    using step by (simp add: m_def rcu_unfold numeral_2_eq_2)
  moreover have "\<exists>n \<le> 2 * (kMaxRcuThreads - Suc i) + 1.
    run_sched (rcu_step rdom) (replicate n (t, Leave)) ?s = at_pc t RIdle (delete_obj a ?s)"
    by (rule step.IH) (use step.prems in simp_all)
  then obtain n where "n \<le> 2 * (kMaxRcuThreads - Suc i) + 1"
    "run_sched (rcu_step rdom) (replicate n (t, Leave)) ?s = at_pc t RIdle (delete_obj a ?s)"
    by blast
  ultimately have run: "run_sched (rcu_step rdom) (replicate (m + n) (t, Leave)) s = at_pc t RIdle (delete_obj a s)"
    and le: "m + n \<le> 2 * (kMaxRcuThreads - i) + 1"
    using step.hyps by (auto simp: replicate_add delete_obj_def m_def split: if_splits)
  show ?case by (intro exI [of _ "m + n"] conjI run le)
qed

text \<open>An \<open>update\<close> that runs while no reader of its domain is active returns, within 131 of its
  own steps: the new object is published, the old one is deleted and the global epoch has
  grown by one.\<close>
theorem rcu_update_returns:
  assumes "rc_pcs s t = RIdle" and "rc_ptr s r = Some a" and "\<And>j. rc_epoch s (rdom r) j = 0"
  shows "\<exists>n \<le> 131. \<exists>s'. run_sched (rcu_step rdom) ((t, Update r True) # replicate n (t, Leave)) s = s'
    \<and> rc_pcs s' t = RIdle \<and> rc_ptr s' r = Some (rc_next s) \<and> rc_freed s' = insert a (rc_freed s)
    \<and> rc_global s' (rdom r) = (rc_global s (rdom r) + 1) mod 2 ^ 64"
proof -
  define s1 where "s1 = rcu_step rdom (t, Leave) (rcu_step rdom (t, Update r True) s)"
  have scan: "rc_pcs s1 t = WScan r a ((rc_global s (rdom r) + 1) mod 2 ^ 64) 0"
    and quiet: "\<And>j. rc_epoch s1 (rdom r) j = 0"
    using assms by (simp_all add: s1_def rcu_unfold)
  from scan_returns [where rdom = rdom, OF _ scan quiet] obtain n where n: "n \<le> 2 * (kMaxRcuThreads - 0) + 1"
    "run_sched (rcu_step rdom) (replicate n (t, Leave)) s1 = at_pc t RIdle (delete_obj a s1)"
    by blast
  have "run_sched (rcu_step rdom) ((t, Update r True) # replicate (Suc n) (t, Leave)) s
      = at_pc t RIdle (delete_obj a s1)"
    using n by (simp add: s1_def)
  moreover have "Suc n \<le> 131" using n by (simp add: kMaxRcuThreads_def)
  moreover have "rc_ptr s1 r = Some (rc_next s)" "rc_freed s1 = rc_freed s"
    "rc_global s1 (rdom r) = (rc_global s (rdom r) + 1) mod 2 ^ 64"
    using assms by (simp_all add: s1_def rcu_unfold)
  ultimately show ?thesis by (intro exI [of _ "Suc n"]) simp
qed

theorem rcu_update_returns_witness:
  "\<exists>n \<le> 131. rc_pcs (run_sched (rcu_step (\<lambda>_. 0)) ((0, Update 0 True) # replicate n (0, Leave))
     (rcu_run (\<lambda>_. 0) [(0, Update 0 True)])) 0 = RIdle"
  using rcu_update_returns [of "rcu_run (\<lambda>_. 0) [(0, Update 0 True)]" 0 0 0 "\<lambda>_. 0"]
  by (simp add: rcu_run_def rcu_new_def rcu_unfold) blast

end
