(* ===== verification/HashMaps.thy ===== *)
theory HashMaps
  imports Prelude
begin

text \<open>
  The two hash tables with one lock per bucket:
  \<open>ThreadSafeHashMap\<close> (modern_cpp_core/data_structures/thread_safe_hash_map.hpp) and
  \<open>threadsafe_lookup_table\<close> (C++_ConcurrencyInAction/designLockBase/dataStructures.hpp).

  A table is the list of its buckets, a bucket the list of its pairs in list order; the hash
  function, \<open>std::hash\<close> or the table's own, is the argument \<open>h\<close>.  An operation holds its
  bucket's lock from before its first access to after its last, so an execution of any number of
  threads is a sequence of whole operations; \<open>get_map\<close> holds all locks.  The remainder by zero
  buckets is undefined behaviour: the operations answer \<open>None\<close> there.
\<close>

section \<open>The contract of a table\<close>

datatype ('k, 'v) kv_op = Put 'k 'v | Del 'k | Get 'k

datatype ('k, 'v) kv_act = DidPut 'k 'v | DidDel 'k | Got 'k "'v option"

fun kv_spec :: "('k, 'v) kv_act \<Rightarrow> ('k \<rightharpoonup> 'v) \<Rightarrow> ('k \<rightharpoonup> 'v) option" where
  "kv_spec (DidPut k v) m = Some (m(k \<mapsto> v))"
| "kv_spec (DidDel k) m = Some (m(k := None))"
| "kv_spec (Got k r) m = (if m k = r then Some m else None)"

text \<open>The operations are given as functions that fail on undefined behaviour.\<close>

fun kv_step ::
  "('k \<Rightarrow> 'v \<Rightarrow> 'm \<Rightarrow> 'm option) \<Rightarrow> ('k \<Rightarrow> 'm \<Rightarrow> 'm option) \<Rightarrow> ('k, 'v) kv_op \<Rightarrow> 'm \<Rightarrow> 'm" where
  "kv_step put del (Put k v) m = (case put k v m of None \<Rightarrow> m | Some m' \<Rightarrow> m')"
| "kv_step put del (Del k) m = (case del k m of None \<Rightarrow> m | Some m' \<Rightarrow> m')"
| "kv_step put del (Get k) m = m"

fun kv_vis :: "('k \<Rightarrow> 'm \<Rightarrow> 'v option option) \<Rightarrow> ('k, 'v) kv_op \<Rightarrow> 'm \<Rightarrow> ('k, 'v) kv_act option" where
  "kv_vis get (Put k v) m = Some (DidPut k v)"
| "kv_vis get (Del k) m = Some (DidDel k)"
| "kv_vis get (Get k) m = (case get k m of None \<Rightarrow> None | Some r \<Rightarrow> Some (Got k r))"

locale kv_table =
  fixes ok :: "'m \<Rightarrow> bool" and content :: "'m \<Rightarrow> 'k \<rightharpoonup> 'v"
    and put :: "'k \<Rightarrow> 'v \<Rightarrow> 'm \<Rightarrow> 'm option" and del :: "'k \<Rightarrow> 'm \<Rightarrow> 'm option"
    and get :: "'k \<Rightarrow> 'm \<Rightarrow> 'v option option"
  assumes put: "ok m \<Longrightarrow> \<exists>m'. put k v m = Some m' \<and> ok m' \<and> content m' = (content m)(k \<mapsto> v)"
    and del: "ok m \<Longrightarrow> \<exists>m'. del k m = Some m' \<and> ok m' \<and> content m' = (content m)(k := None)"
    and get: "ok m \<Longrightarrow> get k m = Some (content m k)"
begin

lemma get_after_put: "ok m \<Longrightarrow> put k v m = Some m' \<Longrightarrow> get j m' = Some (if j = k then Some v else content m j)"
  using put [of m k v] get [of m' j] by auto

lemma get_after_del: "ok m \<Longrightarrow> del k m = Some m' \<Longrightarrow> get j m' = Some (if j = k then None else content m j)"
  using del [of m k] get [of m' j] by auto

lemma kv_step_ok: "ok m \<Longrightarrow> ok (kv_step put del op m)"
proof (cases op)
  case (Put k v)
  then show "ok m \<Longrightarrow> ?thesis" using put [of m k v] by auto
next
  case (Del k)
  then show "ok m \<Longrightarrow> ?thesis" using del [of m k] by auto
qed simp

lemma every_op_shown: "ok m \<Longrightarrow> length (visible_trace (kv_step put del) (kv_vis get) ops m) = length ops"
proof (induction ops arbitrary: m)
  case (Cons op ops)
  then have "length (visible_trace (kv_step put del) (kv_vis get) ops (kv_step put del op m)) = length ops"
    by (intro Cons.IH kv_step_ok)
  then show ?case using Cons.prems by (cases op) (simp_all add: get)
qed simp

end

sublocale kv_table \<subseteq> linearizable "kv_step put del" ok content "kv_vis get" kv_spec
proof
  fix m op l
  assume m: "ok m"
  then show "ok (kv_step put del op m)" by (rule kv_step_ok)
  show "content (kv_step put del op m) = content m" if "kv_vis get op m = None"
    using that m by (cases op) (simp_all add: get split: option.splits)
  show "kv_spec l (content m) = Some (content (kv_step put del op m))" if "kv_vis get op m = Some l"
  proof (cases op)
    case (Put k v)
    with that put [OF m, of k v] show ?thesis by auto
  next
    case (Del k)
    with that del [OF m, of k] show ?thesis by auto
  next
    case (Get k)
    with that m show ?thesis by (auto simp: get)
  qed
qed

section \<open>Buckets\<close>

type_synonym ('k, 'v) bucket = "('k \<times> 'v) list"

text \<open>The well-formed tables: every key in the bucket it hashes to, and at most once.\<close>

definition table_ok :: "('k \<Rightarrow> nat) \<Rightarrow> ('k, 'v) bucket list \<Rightarrow> bool" where
  "table_ok h bs \<longleftrightarrow> bs \<noteq> [] \<and> (\<forall>i < length bs. distinct (map fst (bs ! i))
     \<and> (\<forall>k \<in> fst ` set (bs ! i). h k mod length bs = i))"

definition table_content :: "('k \<Rightarrow> nat) \<Rightarrow> ('k, 'v) bucket list \<Rightarrow> 'k \<rightharpoonup> 'v" where
  "table_content h bs k = map_of (bs ! (h k mod length bs)) k"

definition bucket_index :: "('k \<Rightarrow> nat) \<Rightarrow> 'k \<Rightarrow> ('k, 'v) bucket list \<Rightarrow> nat option" where
  "bucket_index h key bs = (if length bs = 0 then None else Some (h key mod length bs))"

section \<open>ThreadSafeHashMap\<close>

text \<open>The loop of \<open>insert\<close> over the bucket, with the \<open>emplace_back\<close> after it.\<close>

fun insert_bucket :: "'k \<Rightarrow> 'v \<Rightarrow> ('k, 'v) bucket \<Rightarrow> ('k, 'v) bucket" where
  "insert_bucket key value [] = [(key, value)]"
| "insert_bucket key value ((k, v) # data) =
     (if k = key then (k, value) # data else (k, v) # insert_bucket key value data)"

fun get_loop :: "'k \<Rightarrow> ('k, 'v) bucket \<Rightarrow> 'v option" where
  "get_loop key [] = None"
| "get_loop key ((k, v) # data) = (if k = key then Some v else get_loop key data)"

definition hm_new :: "nat \<Rightarrow> ('k, 'v) bucket list" where
  "hm_new NumBuckets = replicate NumBuckets []"

definition hm_insert :: "('k \<Rightarrow> nat) \<Rightarrow> 'k \<Rightarrow> 'v \<Rightarrow> ('k, 'v) bucket list \<Rightarrow> ('k, 'v) bucket list option" where
  "hm_insert h key value bs =
     (case bucket_index h key bs of None \<Rightarrow> None
      | Some i \<Rightarrow> Some (bs[i := insert_bucket key value (bs ! i)]))"

definition hm_get :: "('k \<Rightarrow> nat) \<Rightarrow> 'k \<Rightarrow> ('k, 'v) bucket list \<Rightarrow> 'v option option" where
  "hm_get h key bs =
     (case bucket_index h key bs of None \<Rightarrow> None | Some i \<Rightarrow> Some (get_loop key (bs ! i)))"

definition hm_remove :: "('k \<Rightarrow> nat) \<Rightarrow> 'k \<Rightarrow> ('k, 'v) bucket list \<Rightarrow> ('k, 'v) bucket list option" where
  "hm_remove h key bs =
     (case bucket_index h key bs of None \<Rightarrow> None
      | Some i \<Rightarrow> Some (bs[i := filter (\<lambda>pair. \<not> fst pair = key) (bs ! i)]))"

section \<open>threadsafe\_lookup\_table\<close>

text \<open>\<open>find_entry_for\<close> answers a position, the length of the list for \<open>end()\<close>.\<close>

fun find_entry_for :: "'k \<Rightarrow> ('k, 'v) bucket \<Rightarrow> nat" where
  "find_entry_for key [] = 0"
| "find_entry_for key (item # data) = (if fst item = key then 0 else Suc (find_entry_for key data))"

definition bucket_value_for :: "'k \<Rightarrow> 'v \<Rightarrow> ('k, 'v) bucket \<Rightarrow> 'v" where
  "bucket_value_for key default_value data =
     (let found = find_entry_for key data
      in if found = length data then default_value else snd (data ! found))"

definition bucket_add_or_update :: "'k \<Rightarrow> 'v \<Rightarrow> ('k, 'v) bucket \<Rightarrow> ('k, 'v) bucket" where
  "bucket_add_or_update key value data =
     (let found = find_entry_for key data
      in if found = length data then data @ [(key, value)]
         else data[found := (fst (data ! found), value)])"

definition bucket_remove :: "'k \<Rightarrow> ('k, 'v) bucket \<Rightarrow> ('k, 'v) bucket" where
  "bucket_remove key data =
     (let found = find_entry_for key data
      in if found \<noteq> length data then take found data @ drop (Suc found) data else data)"

definition lt_new :: "nat \<Rightarrow> ('k, 'v) bucket list" where
  "lt_new num_buckets = replicate num_buckets []"

definition lt_value_for :: "('k \<Rightarrow> nat) \<Rightarrow> 'k \<Rightarrow> 'v \<Rightarrow> ('k, 'v) bucket list \<Rightarrow> 'v option" where
  "lt_value_for h key default_value bs =
     (case bucket_index h key bs of None \<Rightarrow> None
      | Some i \<Rightarrow> Some (bucket_value_for key default_value (bs ! i)))"

definition lt_add_or_update ::
  "('k \<Rightarrow> nat) \<Rightarrow> 'k \<Rightarrow> 'v \<Rightarrow> ('k, 'v) bucket list \<Rightarrow> ('k, 'v) bucket list option" where
  "lt_add_or_update h key value bs =
     (case bucket_index h key bs of None \<Rightarrow> None
      | Some i \<Rightarrow> Some (bs[i := bucket_add_or_update key value (bs ! i)]))"

definition lt_remove :: "('k \<Rightarrow> nat) \<Rightarrow> 'k \<Rightarrow> ('k, 'v) bucket list \<Rightarrow> ('k, 'v) bucket list option" where
  "lt_remove h key bs =
     (case bucket_index h key bs of None \<Rightarrow> None
      | Some i \<Rightarrow> Some (bs[i := bucket_remove key (bs ! i)]))"

text \<open>\<open>std::map::insert\<close> keeps an entry that is there.\<close>

definition map_insert :: "'k \<times> 'v \<Rightarrow> ('k \<rightharpoonup> 'v) \<Rightarrow> 'k \<rightharpoonup> 'v" where
  "map_insert pair res = (case res (fst pair) of None \<Rightarrow> res(fst pair \<mapsto> snd pair) | Some _ \<Rightarrow> res)"

definition lt_get_map :: "('k, 'v) bucket list \<Rightarrow> 'k \<rightharpoonup> 'v" where
  "lt_get_map bs = fold (\<lambda>data res. fold map_insert data res) bs Map.empty"

text \<open>A lookup without a default of its own tells presence from absence.\<close>

definition lt_lookup :: "('k \<Rightarrow> nat) \<Rightarrow> 'k \<Rightarrow> ('k, 'v) bucket list \<Rightarrow> 'v option option" where
  "lt_lookup h key bs =
     (case bucket_index h key bs of None \<Rightarrow> None
      | Some i \<Rightarrow> Some (if find_entry_for key (bs ! i) = length (bs ! i) then None
                        else Some (snd (bs ! i ! find_entry_for key (bs ! i)))))"

section \<open>Correctness\<close>

lemma insert_bucket_map: "map_of (insert_bucket key v data) = (map_of data)(key \<mapsto> v)"
  by (induction key v data rule: insert_bucket.induct) (auto simp: fun_eq_iff)

lemma insert_bucket_keys: "fst ` set (insert_bucket key v data) = insert key (fst ` set data)"
  by (induction key v data rule: insert_bucket.induct) auto

lemma insert_bucket_distinct:
  "distinct (map fst (insert_bucket key v data)) = distinct (map fst data)"
  using insert_bucket_keys [of key v]
  by (induction key v data rule: insert_bucket.induct) auto

lemma get_loop_map: "get_loop key data = map_of data key"
  by (induction key data rule: get_loop.induct) auto

lemma find_entry_le: "find_entry_for key data \<le> length data"
  by (induction key data rule: find_entry_for.induct) auto

lemma find_entry_end: "find_entry_for key data = length data \<longleftrightarrow> key \<notin> fst ` set data"
  by (induction key data rule: find_entry_for.induct) auto

lemma find_entry_found:
  "key \<in> fst ` set data \<Longrightarrow>
     data ! find_entry_for key data = (key, the (map_of data key)) \<and> find_entry_for key data < length data"
  by (induction key data rule: find_entry_for.induct) auto

lemma add_or_update_eq: "bucket_add_or_update key v data = insert_bucket key v data"
proof (induction data)
  case (Cons item data)
  then show ?case by (cases item) (auto simp: bucket_add_or_update_def Let_def)
qed (simp add: bucket_add_or_update_def)

lemma bucket_remove_eq:
  "distinct (map fst data) \<Longrightarrow> bucket_remove key data = filter (\<lambda>pair. \<not> fst pair = key) data"
proof (induction data)
  case (Cons item data)
  show ?case
  proof (cases "fst item = key")
    case True
    with Cons.prems have "\<forall>x \<in> set data. \<not> fst x = key"
      by (metis distinct.simps(2) image_eqI list.simps(9) set_map)
    then have "filter (\<lambda>pair. \<not> fst pair = key) data = data" by (simp add: filter_id_conv)
    with True show ?thesis by (simp add: bucket_remove_def)
  next
    case False
    with Cons show ?thesis by (auto simp: bucket_remove_def Let_def)
  qed
qed (simp add: bucket_remove_def)

lemma filter_key_map: "map_of (filter (\<lambda>pair. \<not> fst pair = key) data) = (map_of data)(key := None)"
  by (induction data) (auto simp: fun_eq_iff)

lemma table_update:
  assumes ok: "table_ok h bs" and i: "i = h key mod length bs"
    and keys: "fst ` set b \<subseteq> insert key (fst ` set (bs ! i))" and dist: "distinct (map fst b)"
    and same: "\<And>j. j \<noteq> key \<Longrightarrow> map_of b j = map_of (bs ! i) j"
  shows "table_ok h (bs[i := b]) \<and> table_content h (bs[i := b]) = (table_content h bs)(key := map_of b key)"
proof -
  have len: "i < length bs" using ok i by (simp add: table_ok_def)
  have "h k mod length bs = i" if "k \<in> fst ` set b" for k
    using that keys ok len i unfolding table_ok_def by blast
  then have "table_ok h (bs[i := b])"
    using ok dist len unfolding table_ok_def by (auto simp: nth_list_update)
  moreover have "table_content h (bs[i := b]) k = ((table_content h bs)(key := map_of b key)) k" for k
    using len i same by (cases "h k mod length bs = i") (auto simp: table_content_def)
  ultimately show ?thesis by auto
qed

lemma index_ok: "table_ok h bs \<Longrightarrow> bucket_index h key bs = Some (h key mod length bs)"
  by (simp add: bucket_index_def table_ok_def)

lemma hm_insert_ok:
  assumes "table_ok h bs"
  shows "\<exists>bs'. hm_insert h k v bs = Some bs' \<and> table_ok h bs'
     \<and> table_content h bs' = (table_content h bs)(k \<mapsto> v)"
  using table_update [OF assms refl, of "insert_bucket k v (bs ! (h k mod length bs))" k] assms
  by (simp add: hm_insert_def index_ok insert_bucket_map insert_bucket_keys insert_bucket_distinct)
    (simp add: table_ok_def)

lemma hm_remove_ok:
  assumes "table_ok h bs"
  shows "\<exists>bs'. hm_remove h k bs = Some bs' \<and> table_ok h bs'
     \<and> table_content h bs' = (table_content h bs)(k := None)"
  using table_update [OF assms refl, of "filter (\<lambda>pair. \<not> fst pair = k) (bs ! (h k mod length bs))" k] assms
  by (auto simp: hm_remove_def index_ok filter_key_map table_ok_def distinct_map_filter)

interpretation hm: kv_table "table_ok h" "table_content h" "hm_insert h" "hm_remove h" "hm_get h"
  for h
proof
  show "hm_get h k m = Some (table_content h m k)" if "table_ok h m" for m k
    using that by (simp add: hm_get_def index_ok get_loop_map table_content_def)
qed (rule hm_insert_ok hm_remove_ok; assumption)+

lemma lt_add_or_update_eq: "lt_add_or_update h k v bs = hm_insert h k v bs"
  by (simp add: lt_add_or_update_def hm_insert_def add_or_update_eq split: option.splits)

lemma lt_remove_eq:
  assumes "table_ok h bs"
  shows "lt_remove h k bs = hm_remove h k bs"
proof -
  have "h k mod length bs < length bs" using assms by (simp add: table_ok_def)
  then have "distinct (map fst (bs ! (h k mod length bs)))" using assms by (simp add: table_ok_def)
  then show ?thesis using assms by (simp add: lt_remove_def hm_remove_def index_ok bucket_remove_eq)
qed

lemma lt_lookup_ok: "table_ok h bs \<Longrightarrow> lt_lookup h k bs = Some (table_content h bs k)"
  using find_entry_found [of k "bs ! (h k mod length bs)"]
  by (auto simp: lt_lookup_def index_ok table_content_def find_entry_end map_of_eq_None_iff)
    (metis map_of_eq_None_iff option.exhaust_sel)

interpretation lt: kv_table "table_ok h" "table_content h" "lt_add_or_update h" "lt_remove h" "lt_lookup h"
  for h
proof
  show "\<exists>m'. lt_remove h k m = Some m' \<and> table_ok h m' \<and> table_content h m' = (table_content h m)(k := None)"
    if "table_ok h m" for m k
    using that by (simp add: lt_remove_eq hm_remove_ok)
qed (simp_all add: lt_add_or_update_eq hm_insert_ok lt_lookup_ok)

lemma new_table_ok: "0 < n \<Longrightarrow> table_ok h (replicate n [])"
  by (simp add: table_ok_def)

lemma new_table_content: "0 < n \<Longrightarrow> table_content h (replicate n []) = Map.empty"
  by (simp add: table_content_def fun_eq_iff)

text \<open>\<open>get_map\<close> collects the content.\<close>

lemma fold_map_insert:
  "distinct (map fst data) \<Longrightarrow> (\<forall>k \<in> fst ` set data. res k = None) \<Longrightarrow>
     fold map_insert data res = res ++ map_of data"
proof (induction data arbitrary: res)
  case (Cons item data)
  then have ins: "map_insert item res = res(fst item \<mapsto> snd item)" by (simp add: map_insert_def)
  have new: "map_of data (fst item) = None" "fst item \<notin> fst ` set data"
    using Cons.prems by (simp_all add: map_of_eq_None_iff)
  then have "\<forall>k \<in> fst ` set data. (res(fst item \<mapsto> snd item)) k = None"
    using Cons.prems by (metis fun_upd_other image_eqI list.set_intros(2) imageE)
  have "fold map_insert (item # data) res = fold map_insert data (res(fst item \<mapsto> snd item))"
    by (simp add: ins)
  also from \<open>\<forall>k \<in> fst ` set data. _\<close> have "\<dots> = (res(fst item \<mapsto> snd item)) ++ map_of data"
    using Cons.prems by (intro Cons.IH) simp_all
  also have "\<dots> = res ++ map_of (item # data)"
    by (rule ext) (use new in \<open>auto simp: map_add_def split: option.splits\<close>)
  finally show ?case .
qed simp

lemma get_map_buckets:
  assumes "table_ok h bs" and "i \<le> length bs"
  shows "fold (\<lambda>data res. fold map_insert data res) (take i bs) Map.empty
    = (\<lambda>k. if h k mod length bs < i then table_content h bs k else None)"
  using assms(2)
proof (induction i)
  case (Suc i)
  then have i: "i < length bs" by simp
  have keys: "h k mod length bs = i" if "k \<in> fst ` set (bs ! i)" for k
    using assms i that by (auto simp: table_ok_def)
  have dist: "distinct (map fst (bs ! i))" using assms i by (simp add: table_ok_def)
  have "fold (\<lambda>data res. fold map_insert data res) (take (Suc i) bs) Map.empty
      = fold map_insert (bs ! i) (\<lambda>k. if h k mod length bs < i then table_content h bs k else None)"
    using Suc i by (simp add: take_Suc_conv_app_nth)
  also have "\<dots> = (\<lambda>k. if h k mod length bs < i then table_content h bs k else None) ++ map_of (bs ! i)"
    by (rule fold_map_insert [OF dist]) (use keys in auto)
  also have "\<dots> = (\<lambda>k. if h k mod length bs < Suc i then table_content h bs k else None)"
  proof
    fix k
    have "map_of (bs ! i) k = None" if "h k mod length bs \<noteq> i"
      using keys that by (metis map_of_eq_None_iff)
    then show "((\<lambda>k. if h k mod length bs < i then table_content h bs k else None) ++ map_of (bs ! i)) k
        = (if h k mod length bs < Suc i then table_content h bs k else None)"
      by (auto simp: map_add_def table_content_def less_Suc_eq split: option.splits)
  qed
  finally show ?case .
qed simp

lemma get_map_content:
  assumes "table_ok h bs"
  shows "lt_get_map bs = table_content h bs"
proof -
  have "h k mod length bs < length bs" for k using assms by (simp add: table_ok_def)
  with get_map_buckets [OF assms, of "length bs"] show ?thesis by (simp add: lt_get_map_def)
qed

section \<open>The locks\<close>

text \<open>
  A thread updates a bucket under its exclusive lock, reads one under its shared lock, or
  collects the map: it takes all locks, the one of bucket 0 first.  \<open>Collect j\<close> holds the
  locks below \<open>j\<close> and waits for the next one.  One step acquires or releases.
\<close>

datatype lk_call = CUpdate nat | CLookup nat | CCollect

datatype lk_pc = LIdle | WantW nat | HoldW nat | WantR nat | HoldR nat | Collect nat

fun excl :: "lk_pc \<Rightarrow> nat \<Rightarrow> bool" where
  "excl (HoldW i) b \<longleftrightarrow> i = b"
| "excl (Collect j) b \<longleftrightarrow> b < j"
| "excl _ b \<longleftrightarrow> False"

fun shrd :: "lk_pc \<Rightarrow> nat \<Rightarrow> bool" where
  "shrd (HoldR i) b \<longleftrightarrow> i = b"
| "shrd _ b \<longleftrightarrow> False"

definition free_w :: "lk_pc list \<Rightarrow> nat \<Rightarrow> bool" where
  "free_w pcs b = list_all (\<lambda>pc. \<not> excl pc b \<and> \<not> shrd pc b) pcs"

definition free_r :: "lk_pc list \<Rightarrow> nat \<Rightarrow> bool" where
  "free_r pcs b = list_all (\<lambda>pc. \<not> excl pc b) pcs"

fun lk_step :: "nat \<Rightarrow> nat \<times> lk_call \<Rightarrow> lk_pc list \<Rightarrow> lk_pc list" where
  "lk_step n (t, call) pcs =
     (if t < length pcs then
        case pcs ! t of
          LIdle \<Rightarrow> pcs[t := (case call of CUpdate b \<Rightarrow> WantW (b mod n)
                                        | CLookup b \<Rightarrow> WantR (b mod n) | CCollect \<Rightarrow> Collect 0)]
        | WantW b \<Rightarrow> if free_w pcs b then pcs[t := HoldW b] else pcs
        | WantR b \<Rightarrow> if free_r pcs b then pcs[t := HoldR b] else pcs
        | HoldW b \<Rightarrow> pcs[t := LIdle]
        | HoldR b \<Rightarrow> pcs[t := LIdle]
        | Collect j \<Rightarrow>
            if j < n then if free_w pcs j then pcs[t := Collect (Suc j)] else pcs
            else pcs[t := LIdle]
      else pcs)"

declare lk_step.simps [simp del]

definition lk_inv :: "nat \<Rightarrow> lk_pc list \<Rightarrow> bool" where
  "lk_inv n pcs \<longleftrightarrow> (\<forall>t u b. t < length pcs \<longrightarrow> u < length pcs \<longrightarrow> t \<noteq> u \<longrightarrow>
     excl (pcs ! t) b \<longrightarrow> \<not> excl (pcs ! u) b \<and> \<not> shrd (pcs ! u) b)"

lemma lk_inv_put:
  assumes inv: "lk_inv n pcs" and t: "t < length pcs"
    and w: "\<And>b. excl pc b \<Longrightarrow> excl (pcs ! t) b \<or> free_w pcs b"
    and r: "\<And>b. shrd pc b \<Longrightarrow> shrd (pcs ! t) b \<or> free_r pcs b"
  shows "lk_inv n (pcs[t := pc])"
  unfolding lk_inv_def
proof (intro allI impI)
  fix a u b
  assume "a < length (pcs[t := pc])" "u < length (pcs[t := pc])" and ne: "a \<noteq> u"
    and ex: "excl (pcs[t := pc] ! a) b"
  then have a: "a < length pcs" and u: "u < length pcs" by simp_all
  have old: "excl (pcs ! x) b \<Longrightarrow> x < length pcs \<Longrightarrow> y < length pcs \<Longrightarrow> x \<noteq> y \<Longrightarrow>
      \<not> excl (pcs ! y) b \<and> \<not> shrd (pcs ! y) b" for x y
    using inv unfolding lk_inv_def by blast
  have fw: "free_w pcs b \<Longrightarrow> x < length pcs \<Longrightarrow> \<not> excl (pcs ! x) b \<and> \<not> shrd (pcs ! x) b" for x
    by (simp add: free_w_def list_all_length)
  have fr: "free_r pcs b \<Longrightarrow> x < length pcs \<Longrightarrow> \<not> excl (pcs ! x) b" for x
    by (simp add: free_r_def list_all_length)
  consider "a = t" | "u = t" "a \<noteq> t" | "a \<noteq> t" "u \<noteq> t" by blast
  then show "\<not> excl (pcs[t := pc] ! u) b \<and> \<not> shrd (pcs[t := pc] ! u) b"
  proof cases
    case 1
    with ex t have "excl pc b" by simp
    with w have "excl (pcs ! t) b \<or> free_w pcs b" .
    then have "\<not> excl (pcs ! u) b \<and> \<not> shrd (pcs ! u) b"
      using old [of t u] fw [of u] t u ne 1 by blast
    with 1 ne show ?thesis by simp
  next
    case 2
    with ex have "excl (pcs ! a) b" by simp
    with 2 old [of a t] fw [of a] fr [of a] w [of b] r [of b] a t ne show ?thesis by auto
  next
    case 3
    with ex old [of a u] a u ne show ?thesis by simp
  qed
qed

lemma lk_inv_step:
  assumes "lk_inv n pcs"
  shows "lk_inv n (lk_step n e pcs)"
proof (cases e)
  case (Pair t call)
  show ?thesis
  proof (cases "t < length pcs")
    case True
    have put: "lk_inv n (pcs[t := pc])"
      if "\<forall>b. excl pc b \<longrightarrow> excl (pcs ! t) b \<or> free_w pcs b"
        "\<forall>b. shrd pc b \<longrightarrow> shrd (pcs ! t) b \<or> free_r pcs b" for pc
      by (rule lk_inv_put [OF assms True]) (use that in blast)+
    show ?thesis
    proof (cases "pcs ! t")
      case LIdle
      then have "lk_inv n (pcs[t := (case call of CUpdate b \<Rightarrow> WantW (b mod n)
          | CLookup b \<Rightarrow> WantR (b mod n) | CCollect \<Rightarrow> Collect 0)])"
        by (intro put) (simp_all split: lk_call.splits)
      with LIdle True show ?thesis by (simp add: Pair lk_step.simps)
    next
      case (WantW i)
      have "free_w pcs i \<Longrightarrow> lk_inv n (pcs[t := HoldW i])" by (intro put) auto
      with WantW True assms show ?thesis by (simp add: Pair lk_step.simps)
    next
      case (WantR i)
      have "free_r pcs i \<Longrightarrow> lk_inv n (pcs[t := HoldR i])" by (intro put) auto
      with WantR True assms show ?thesis by (simp add: Pair lk_step.simps)
    next
      case (Collect j)
      have "free_w pcs j \<Longrightarrow> lk_inv n (pcs[t := Collect (Suc j)])"
        by (intro put) (auto simp: Collect less_Suc_eq)
      moreover have "lk_inv n (pcs[t := LIdle])" by (intro put) auto
      ultimately show ?thesis using Collect True assms by (simp add: Pair lk_step.simps)
    next
      case (HoldW i)
      have "lk_inv n (pcs[t := LIdle])" by (intro put) auto
      with HoldW True show ?thesis by (simp add: Pair lk_step.simps)
    next
      case (HoldR i)
      have "lk_inv n (pcs[t := LIdle])" by (intro put) auto
      with HoldR True show ?thesis by (simp add: Pair lk_step.simps)
    qed
  qed (simp add: Pair lk_step.simps assms)
qed

interpretation lk: interleaving "lk_step n" "lk_inv n"
  for n
  by unfold_locales (rule lk_inv_step)

text \<open>Some thread that is not idle can always take a step.\<close>

lemma lk_progress:
  assumes "lk_inv n pcs" and "t < length pcs" and "pcs ! t \<noteq> LIdle"
  shows "\<exists>u < length pcs. pcs ! u \<noteq> LIdle \<and> (\<forall>call. lk_step n (u, call) pcs \<noteq> pcs)"
proof (cases "\<exists>u < length pcs. (\<exists>b. pcs ! u = HoldW b \<or> pcs ! u = HoldR b)
    \<or> (\<exists>j \<ge> n. pcs ! u = Collect j)")
  case True
  then obtain u where u: "u < length pcs"
    "(\<exists>b. pcs ! u = HoldW b \<or> pcs ! u = HoldR b) \<or> (\<exists>j \<ge> n. pcs ! u = Collect j)" by blast
  then have step: "lk_step n (u, call) pcs = pcs[u := LIdle]" for call
    by (auto simp: lk_step.simps)
  have "pcs[u := LIdle] \<noteq> pcs" using u by (metis lk_pc.distinct(3,7,9) nth_list_update_eq)
  with u step show ?thesis by auto
next
  case none: False
  have free: "free_w pcs b \<and> free_r pcs b" if "\<forall>u < length pcs. \<forall>j. pcs ! u = Collect j \<longrightarrow> j \<le> b" for b
    unfolding free_w_def free_r_def list_all_length
  proof -
    have "\<not> excl (pcs ! u) b \<and> \<not> shrd (pcs ! u) b" if "u < length pcs" for u
      using none that \<open>\<forall>u < length pcs. \<forall>j. pcs ! u = Collect j \<longrightarrow> j \<le> b\<close>
      by (cases "pcs ! u") force+
    then show "(\<forall>u < length pcs. \<not> excl (pcs ! u) b \<and> \<not> shrd (pcs ! u) b)
        \<and> (\<forall>u < length pcs. \<not> excl (pcs ! u) b)" by blast
  qed
  show ?thesis
  proof (cases "\<exists>u < length pcs. \<exists>j. pcs ! u = Collect j")
    case False
    with free have "\<And>b. free_w pcs b \<and> free_r pcs b" by blast
    then have "lk_step n (t, call) pcs \<noteq> pcs" for call
      using assms none False
      by (cases "pcs ! t") (auto simp: lk_step.simps list_update_same_conv)
    with assms show ?thesis by blast
  next
    case True
    let ?P = "\<lambda>j. \<exists>u < length pcs. pcs ! u = Collect j"
    have bound: "\<forall>j. ?P j \<longrightarrow> j < n" using none by (metis not_less)
    from True obtain j0 where "?P j0" by blast
    then have P: "?P (GREATEST j. ?P j)" and most: "\<forall>j. ?P j \<longrightarrow> j \<le> (GREATEST j. ?P j)"
      using GreatestI_nat [of ?P j0 n] Greatest_le_nat [of ?P _ n] bound by (meson less_imp_le)+
    define j where "j = (GREATEST j. ?P j)"
    from P obtain u where u: "u < length pcs" "pcs ! u = Collect j" by (auto simp: j_def)
    have "free_w pcs j" using free most by (auto simp: j_def)
    moreover have "j < n" using bound u by blast
    ultimately have "lk_step n (u, call) pcs = pcs[u := Collect (Suc j)]" for call
      using u by (simp add: lk_step.simps)
    moreover have "pcs[u := Collect (Suc j)] \<noteq> pcs"
      using u by (metis lk_pc.inject(5) n_not_Suc_n nth_list_update_eq)
    ultimately show ?thesis using u by auto
  qed
qed

section \<open>Properties\<close>

text \<open>(C19) Any sequence of \<open>insert\<close>, \<open>remove\<close> and \<open>get\<close> calls, of any number of threads, on a
  \<open>ThreadSafeHashMap\<close> with at least one bucket behaves as the same sequence on a finite map that
  is empty at first: every \<open>get\<close> answers the value last inserted and not removed since, and
  whatever the hash function collides on makes no difference.\<close>
theorem hash_map_refines_map:
  fixes h :: "'k \<Rightarrow> nat" and ops :: "('k, 'v) kv_op list"
  assumes "0 < n"
  defines "trace \<equiv> visible_trace (kv_step (hm_insert h) (hm_remove h)) (kv_vis (hm_get h)) ops (hm_new n)"
  shows "spec_run kv_spec trace Map.empty = Some (table_content h
      (run_sched (kv_step (hm_insert h) (hm_remove h)) ops (hm_new n)))
    \<and> length trace = length ops"
  using hm.trace_meets_spec [OF new_table_ok [OF assms(1)], of h ops]
    hm.every_op_shown [OF new_table_ok [OF assms(1)], of h ops]
  by (simp add: trace_def hm_new_def new_table_content [OF assms(1)])

theorem hash_map_refines_map_witness:
  "length (visible_trace (kv_step (hm_insert id) (hm_remove id)) (kv_vis (hm_get id))
     [Put 3 ''a'', Put 34 ''b'', Get 3, Del 3, Get 34] (hm_new 31)) = 5"
  using hash_map_refines_map [of 31 id "[Put 3 ''a'', Put 34 ''b'', Get 3, Del 3, Get 34]"] by simp

text \<open>The same for \<open>threadsafe_lookup_table\<close>, whose lookups are \<open>value_for\<close> with a default.\<close>
theorem lookup_table_refines_map:
  fixes h :: "'k \<Rightarrow> nat" and ops :: "('k, 'v) kv_op list"
  assumes "0 < n"
  defines "trace \<equiv> visible_trace (kv_step (lt_add_or_update h) (lt_remove h)) (kv_vis (lt_lookup h)) ops (lt_new n)"
    and "bs \<equiv> run_sched (kv_step (lt_add_or_update h) (lt_remove h)) ops (lt_new n)"
  shows "spec_run kv_spec trace Map.empty = Some (table_content h bs) \<and> length trace = length ops
    \<and> lt_value_for h key default_value bs = Some (case table_content h bs key of None \<Rightarrow> default_value | Some v \<Rightarrow> v)"
proof -
  have "table_ok h bs"
    unfolding bs_def lt_new_def by (rule lt.sched_keeps [OF new_table_ok [OF assms(1)]])
  then have "lt_lookup h key bs = Some (table_content h bs key)" and "bucket_index h key bs \<noteq> None"
    by (simp_all add: lt_lookup_ok index_ok)
  then have "lt_value_for h key default_value bs = Some (case table_content h bs key of None \<Rightarrow> default_value | Some v \<Rightarrow> v)"
    by (auto simp: lt_lookup_def lt_value_for_def bucket_value_for_def Let_def split: if_splits option.splits)
  then show ?thesis
    using lt.trace_meets_spec [OF new_table_ok [OF assms(1)], of h ops]
      lt.every_op_shown [OF new_table_ok [OF assms(1)], of h ops]
    by (simp add: trace_def bs_def lt_new_def new_table_content [OF assms(1)])
qed

theorem lookup_table_refines_map_witness:
  "lt_value_for id (22::nat) ''none'' (run_sched (kv_step (lt_add_or_update id) (lt_remove id))
     [Put 3 ''a'', Put 22 ''b'', Del 3] (lt_new 19)) = Some ''b''"
  using lookup_table_refines_map [of 19 id "[Put 3 ''a'', Put 22 ''b'', Del 3]" 22 "''none''"]
  by (simp add: lt_new_def lt_add_or_update_def lt_remove_def bucket_index_def bucket_add_or_update_def
      bucket_remove_def table_content_def)

text \<open>\<open>get_map\<close> of a \<open>threadsafe_lookup_table\<close> returns exactly its key-value pairs: after any
  sequence of updates its map answers every key as \<open>value_for\<close> does.\<close>
theorem lookup_table_get_map:
  assumes "0 < n"
  shows "lt_get_map (run_sched (kv_step (lt_add_or_update h) (lt_remove h)) ops (lt_new n))
    = table_content h (run_sched (kv_step (lt_add_or_update h) (lt_remove h)) ops (lt_new n))"
  unfolding lt_new_def
  by (rule get_map_content [OF lt.sched_keeps [OF new_table_ok [OF assms]]])

theorem lookup_table_get_map_witness:
  "lt_get_map (run_sched (kv_step (lt_add_or_update id) (lt_remove id)) [Put 3 (1::int)] (lt_new 2))
    = table_content id (run_sched (kv_step (lt_add_or_update id) (lt_remove id)) [Put (3::nat) 1] (lt_new 2))"
  by (rule lookup_table_get_map) simp

text \<open>The locks of a table with any number of threads updating, reading and collecting the map:
  an exclusive lock excludes every other holder, and no deadlock occurs, because \<open>get_map\<close> takes the
  locks in ascending order: while some thread is inside an operation, one such thread can go on.\<close>
theorem lookup_table_locks:
  fixes n threads :: nat and es :: "(nat \<times> lk_call) list"
  defines "pcs \<equiv> run_sched (lk_step n) es (replicate threads LIdle)"
  shows "lk_inv n pcs \<and> (\<forall>t < length pcs. pcs ! t \<noteq> LIdle \<longrightarrow>
     (\<exists>u < length pcs. pcs ! u \<noteq> LIdle \<and> (\<forall>call. lk_step n (u, call) pcs \<noteq> pcs)))"
proof -
  have "lk_inv n (replicate threads LIdle)" by (simp add: lk_inv_def)
  then have "lk_inv n pcs" unfolding pcs_def by (rule lk.sched_keeps)
  with lk_progress show ?thesis by blast
qed

theorem lookup_table_locks_witness:
  "\<exists>u < 2. \<forall>call. lk_step 3 (u, call) (run_sched (lk_step 3) [(0, CCollect), (0, CCollect), (1, CUpdate 0)]
      (replicate 2 LIdle))
     \<noteq> run_sched (lk_step 3) [(0, CCollect), (0, CCollect), (1, CUpdate 0)] (replicate 2 LIdle)"
proof -
  let ?pcs = "run_sched (lk_step 3) [(0, CCollect), (0, CCollect), (1, CUpdate 0)] (replicate 2 LIdle)"
  have "length ?pcs = 2" "?pcs ! 0 \<noteq> LIdle" by code_simp+
  with lookup_table_locks [of 3 "[(0, CCollect), (0, CCollect), (1, CUpdate 0)]" 2]
  show ?thesis by (metis zero_less_numeral)
qed

end
