(* ===== verification/WaitQueues.thy ===== *)
theory WaitQueues
  imports Prelude
begin

text \<open>
  The containers with one mutex:
  \<^item> \<open>threadsafe_stack\<close> and \<open>threadsafe_queue_single_mutex\<close>
    (C++_ConcurrencyInAction/designLockBase/dataStructures.hpp);
  \<^item> \<open>ThreadSafeQueue\<close> (modern_cpp_core/data_structures/thread_safe_queue.hpp), a mutex and a
    counting semaphore.

  A critical section is one step.  A blocked thread sleeps on the condition variable until it
  is notified (or wakes up spuriously), then takes the mutex again and tests the predicate again;
  the number in a notifying event chooses the sleeper that \<open>notify_one\<close> wakes.
\<close>

section \<open>threadsafe\_stack\<close>

datatype stack_error = Empty_stack

definition st_push :: "'a \<Rightarrow> 'a list \<Rightarrow> 'a list" where
  "st_push new_value data = new_value # data"

definition st_pop :: "'a list \<Rightarrow> (stack_error + 'a) \<times> 'a list" where
  "st_pop data = (case data of [] \<Rightarrow> (Inl Empty_stack, []) | x # rest \<Rightarrow> (Inr x, rest))"

definition st_copy :: "'a list \<Rightarrow> 'a list" where
  "st_copy other = other"

definition st_empty :: "'a list \<Rightarrow> bool" where
  "st_empty data = (case data of [] \<Rightarrow> True | _ \<Rightarrow> False)"

datatype 'a st_call = CPush 'a | CPop

fun st_step :: "'a st_call \<Rightarrow> 'a list \<Rightarrow> 'a list" where
  "st_step (CPush x) data = st_push x data"
| "st_step CPop data = snd (st_pop data)"

fun st_vis :: "'a st_call \<Rightarrow> 'a list \<Rightarrow> 'a stack_act option" where
  "st_vis (CPush x) data = Some (Push x True)"
| "st_vis CPop data = Some (Pop (case fst (st_pop data) of Inl _ \<Rightarrow> None | Inr x \<Rightarrow> Some x))"

interpretation st: linearizable st_step "\<lambda>_. True" "\<lambda>data. data" st_vis "lifo_spec None"
proof
  show "lifo_spec None l s = Some (st_step e s)" if "st_vis e s = Some l" for s :: "'a list" and e l
    using that by (cases e; cases s) (auto simp: st_push_def st_pop_def)
  show "st_step e s = s" if "st_vis e s = None" for s :: "'a list" and e
    using that by (cases e) auto
qed simp

section \<open>threadsafe\_queue\_single\_mutex\<close>

record 'a wqueue =
  wq_data :: "'a list"
  wq_sleeping :: "nat list"
  wq_woken :: "nat list"

definition wq_new :: "'a wqueue" where
  "wq_new = \<lparr>wq_data = [], wq_sleeping = [], wq_woken = []\<rparr>"

definition wq_empty :: "'a wqueue \<Rightarrow> bool" where
  "wq_empty q \<longleftrightarrow> wq_data q = []"

definition remove_nth :: "nat \<Rightarrow> 'b list \<Rightarrow> 'b list" where
  "remove_nth i xs = take i xs @ drop (Suc i) xs"

definition notify_one :: "nat \<Rightarrow> 'a wqueue \<Rightarrow> 'a wqueue" where
  "notify_one choice q =
     (if wq_sleeping q = [] then q
      else let i = choice mod length (wq_sleeping q)
           in q\<lparr>wq_sleeping := remove_nth i (wq_sleeping q), wq_woken := wq_woken q @ [wq_sleeping q ! i]\<rparr>)"

datatype 'a wq_call = WPush 'a nat | WTryPop | WWaitPop nat | WResume nat | WSpurious nat

text \<open>The predicate of \<open>data_cond.wait\<close>, then the body of \<open>wait_and_pop\<close> or sleep.\<close>

definition wait_section :: "nat \<Rightarrow> 'a wqueue \<Rightarrow> 'a wqueue" where
  "wait_section t q =
     (case wq_data q of
        [] \<Rightarrow> q\<lparr>wq_sleeping := wq_sleeping q @ [t]\<rparr>
      | x # xs \<Rightarrow> q\<lparr>wq_data := xs\<rparr>)"

fun wq_step :: "'a wq_call \<Rightarrow> 'a wqueue \<Rightarrow> 'a wqueue" where
  "wq_step (WPush x choice) q = notify_one choice (q\<lparr>wq_data := wq_data q @ [x]\<rparr>)"
| "wq_step WTryPop q = (case wq_data q of [] \<Rightarrow> q | x # xs \<Rightarrow> q\<lparr>wq_data := xs\<rparr>)"
| "wq_step (WWaitPop t) q =
     (if t \<in> set (wq_sleeping q) \<union> set (wq_woken q) then q else wait_section t q)"
| "wq_step (WResume t) q =
     (if t \<in> set (wq_woken q) then wait_section t (q\<lparr>wq_woken := remove1 t (wq_woken q)\<rparr>) else q)"
| "wq_step (WSpurious t) q =
     (if t \<in> set (wq_sleeping q)
      then q\<lparr>wq_sleeping := remove1 t (wq_sleeping q), wq_woken := wq_woken q @ [t]\<rparr> else q)"

definition head_act :: "'a wqueue \<Rightarrow> 'a queue_act option" where
  "head_act q = (case wq_data q of [] \<Rightarrow> None | x # _ \<Rightarrow> Some (Deq (Some x)))"

fun wq_vis :: "'a wq_call \<Rightarrow> 'a wqueue \<Rightarrow> 'a queue_act option" where
  "wq_vis (WPush x choice) q = Some (Enq x True)"
| "wq_vis WTryPop q = (if wq_data q = [] then Some (Deq None) else head_act q)"
| "wq_vis (WWaitPop t) q = (if t \<in> set (wq_sleeping q) \<union> set (wq_woken q) then None else head_act q)"
| "wq_vis (WResume t) q = (if t \<in> set (wq_woken q) then head_act q else None)"
| "wq_vis (WSpurious t) q = None"

text \<open>No lost wake-up: while a thread sleeps, every element has a woken thread of its own.\<close>

definition wq_inv :: "'a wqueue \<Rightarrow> bool" where
  "wq_inv q \<longleftrightarrow> (wq_sleeping q \<noteq> [] \<longrightarrow> length (wq_data q) \<le> length (wq_woken q))"

lemma notify_data [simp]: "wq_data (notify_one choice q) = wq_data q"
  by (simp add: notify_one_def Let_def)

lemma wq_inv_step: "wq_inv q \<Longrightarrow> wq_inv (wq_step e q)"
proof (cases e)
  case (WPush x choice)
  then show "wq_inv q \<Longrightarrow> ?thesis"
    by (auto simp: wq_inv_def notify_one_def Let_def split: if_splits)
next
  case WTryPop
  then show "wq_inv q \<Longrightarrow> ?thesis" by (auto simp: wq_inv_def split: list.splits)
next
  case (WWaitPop t)
  then show "wq_inv q \<Longrightarrow> ?thesis" by (auto simp: wq_inv_def wait_section_def split: list.splits)
next
  case (WResume t)
  then show "wq_inv q \<Longrightarrow> ?thesis"
    by (auto simp: wq_inv_def wait_section_def length_remove1 split: list.splits)
next
  case (WSpurious t)
  then show "wq_inv q \<Longrightarrow> ?thesis" by (auto simp: wq_inv_def)
qed

interpretation wq: linearizable wq_step wq_inv wq_data wq_vis "fifo_spec None"
proof
  fix q :: "'a wqueue" and e l
  show "wq_inv q \<Longrightarrow> wq_inv (wq_step e q)" by (rule wq_inv_step)
  show "wq_data (wq_step e q) = wq_data q" if "wq_vis e q = None"
    using that by (cases e) (auto simp: head_act_def wait_section_def split: list.splits if_splits)
  show "fifo_spec None l (wq_data q) = Some (wq_data (wq_step e q))" if "wq_vis e q = Some l"
    using that by (cases e) (auto simp: head_act_def wait_section_def split: list.splits if_splits)
qed

section \<open>ThreadSafeQueue\<close>

text \<open>
  A thread is between calls, between the critical section of \<open>push\<close> and \<open>m_sem.release()\<close>, or
  between \<open>m_sem.acquire()\<close> and the critical section of \<open>wait_and_pop\<close>.  Threads are positions
  in a list.  \<open>front()\<close> on an empty \<open>std::queue\<close> is undefined behaviour: \<open>tq_ub\<close> records it.
\<close>

datatype tq_pc = TIdle | TRelease | TAcquired

datatype 'a tq_call = TPush 'a | TTryPop | TWaitPop

record 'a tqueue =
  tq_data :: "'a list"
  tq_sem :: nat
  tq_pcs :: "tq_pc list"
  tq_ub :: bool

definition tq_new :: "nat \<Rightarrow> 'a tqueue" where
  "tq_new threads = \<lparr>tq_data = [], tq_sem = 0, tq_pcs = replicate threads TIdle, tq_ub = False\<rparr>"

definition tq_try_pop :: "'a tqueue \<Rightarrow> 'a tqueue" where
  "tq_try_pop q = (case tq_data q of [] \<Rightarrow> q | x # xs \<Rightarrow> q\<lparr>tq_data := xs\<rparr>)"

definition tq_empty :: "'a tqueue \<Rightarrow> bool" where
  "tq_empty q \<longleftrightarrow> tq_data q = []"

lemma tq_empty_try_pop: "tq_empty q \<Longrightarrow> tq_try_pop q = q" "tq_empty (tq_new n)" "wq_empty wq_new"
  by (simp_all add: tq_empty_def tq_try_pop_def tq_new_def wq_empty_def wq_new_def)

definition tq_front_pop :: "'a tqueue \<Rightarrow> 'a tqueue" where
  "tq_front_pop q = (case tq_data q of [] \<Rightarrow> q\<lparr>tq_ub := True\<rparr> | x # xs \<Rightarrow> q\<lparr>tq_data := xs\<rparr>)"

fun tq_step :: "nat \<times> 'a tq_call \<Rightarrow> 'a tqueue \<Rightarrow> 'a tqueue" where
  "tq_step (t, call) q =
     (if t < length (tq_pcs q) then
        case tq_pcs q ! t of
          TIdle \<Rightarrow>
            (case call of
               TPush value \<Rightarrow> q\<lparr>tq_data := tq_data q @ [value], tq_pcs := (tq_pcs q)[t := TRelease]\<rparr>
             | TTryPop \<Rightarrow> tq_try_pop q
             | TWaitPop \<Rightarrow>
                 if tq_sem q = 0 then q
                 else q\<lparr>tq_sem := tq_sem q - 1, tq_pcs := (tq_pcs q)[t := TAcquired]\<rparr>)
        | TRelease \<Rightarrow> q\<lparr>tq_sem := tq_sem q + 1, tq_pcs := (tq_pcs q)[t := TIdle]\<rparr>
        | TAcquired \<Rightarrow> tq_front_pop (q\<lparr>tq_pcs := (tq_pcs q)[t := TIdle]\<rparr>)
      else q)"

declare tq_step.simps [simp del]

fun tq_vis :: "nat \<times> 'a tq_call \<Rightarrow> 'a tqueue \<Rightarrow> 'a queue_act option" where
  "tq_vis (t, call) q =
     (if t < length (tq_pcs q) then
        case tq_pcs q ! t of
          TIdle \<Rightarrow>
            (case call of
               TPush value \<Rightarrow> Some (Enq value True)
             | TTryPop \<Rightarrow> Some (Deq (case tq_data q of [] \<Rightarrow> None | x # _ \<Rightarrow> Some x))
             | TWaitPop \<Rightarrow> None)
        | TRelease \<Rightarrow> None
        | TAcquired \<Rightarrow> (case tq_data q of [] \<Rightarrow> None | x # _ \<Rightarrow> Some (Deq (Some x)))
      else None)"

interpretation tq: linearizable tq_step "\<lambda>_. True" tq_data tq_vis "fifo_spec None"
proof
  fix q :: "'a tqueue" and e :: "nat \<times> 'a tq_call" and l
  obtain t call where e: "e = (t, call)" by (cases e)
  show "tq_data (tq_step e q) = tq_data q" if "tq_vis e q = None"
    using that unfolding e
    by (auto simp: tq_step.simps tq_front_pop_def tq_try_pop_def
        split: tq_pc.splits tq_call.splits list.splits if_splits)
  show "fifo_spec None l (tq_data q) = Some (tq_data (tq_step e q))" if "tq_vis e q = Some l"
    using that unfolding e
    by (auto simp: tq_step.simps tq_front_pop_def tq_try_pop_def
        split: tq_pc.splits tq_call.splits list.splits if_splits)
qed simp

text \<open>Without \<open>try_pop\<close> the semaphore counts the elements.\<close>

definition tq_inv :: "'a tqueue \<Rightarrow> bool" where
  "tq_inv q \<longleftrightarrow> length (tq_data q) = tq_sem q + count_list (tq_pcs q) TRelease + count_list (tq_pcs q) TAcquired
     \<and> \<not> tq_ub q"

definition tq_blocking :: "nat \<times> 'a tq_call \<Rightarrow> bool" where
  "tq_blocking e = (case snd e of TTryPop \<Rightarrow> False | _ \<Rightarrow> True)"

lemma tq_inv_step:
  assumes "tq_inv q" and "tq_blocking e"
  shows "tq_inv (tq_step e q)"
proof -
  obtain t call where e: "e = (t, call)" by (cases e)
  show ?thesis
  proof (cases "t < length (tq_pcs q)")
    case True
    note upd = count_list_update [OF True, of _ TRelease] count_list_update [OF True, of _ TAcquired]
    show ?thesis
    proof (cases "tq_pcs q ! t")
      case TIdle
      with assms True upd [of TRelease] upd [of TAcquired] show ?thesis
        by (auto simp: e tq_step.simps tq_inv_def tq_blocking_def split: tq_call.splits)
    next
      case TRelease
      with assms True upd [of TIdle] show ?thesis by (auto simp: e tq_step.simps tq_inv_def)
    next
      case TAcquired
      then have "0 < count_list (tq_pcs q) TAcquired" using count_list_pos [OF True] by simp
      with TAcquired assms True upd [of TIdle] show ?thesis
        by (auto simp: e tq_step.simps tq_inv_def tq_front_pop_def split: list.splits)
    qed
  qed (use assms in \<open>simp add: e tq_step.simps\<close>)
qed

definition tq_guarded :: "nat \<times> 'a tq_call \<Rightarrow> 'a tqueue \<Rightarrow> 'a tqueue" where
  "tq_guarded e q = (if tq_blocking e then tq_step e q else q)"

interpretation tqb: interleaving tq_guarded tq_inv
  by unfold_locales (simp add: tq_guarded_def tq_inv_step)

section \<open>Properties\<close>

text \<open>\<open>threadsafe_stack\<close>: the calls of any number of threads, in the order of their critical
  sections, form a run of a LIFO stack whose \<open>pop\<close> throws \<open>empty_stack\<close> (leaving the stack alone)
  only when it is empty; nothing is lost or duplicated.\<close>
theorem locked_stack_linearizable:
  "\<exists>as. visible_trace st_step st_vis calls [] = as \<and> length as = length calls
     \<and> spec_run (lifo_spec None) as [] = Some (run_sched st_step calls [])
     \<and> mset (pushed as) = mset (popped as) + mset (run_sched st_step calls [])"
proof -
  have "length (visible_trace st_step st_vis calls d) = length calls" for d :: "'a list"
  proof (induction calls arbitrary: d)
    case (Cons c calls)
    then show ?case by (cases c) simp_all
  qed simp
  moreover have run: "spec_run (lifo_spec None) (visible_trace st_step st_vis calls []) []
      = Some (run_sched st_step calls [])"
    using st.trace_meets_spec [of calls "[]"] by simp
  ultimately show ?thesis using lifo_run_conserves [OF run] by simp
qed

text \<open>(C20) \<open>threadsafe_queue_single_mutex\<close>, for any number of threads, any choice of the threads that
  \<open>notify_one\<close> wakes and any spurious wake-ups: what is popped is what was pushed, in that order,
  and no wake-up is lost: whenever an element is stored and a consumer sleeps, a woken consumer
  exists, and any woken consumer that runs next takes the oldest element.\<close>
theorem wait_queue_correct:
  fixes es :: "'a wq_call list"
  defines "q \<equiv> run_sched wq_step es wq_new" and "as \<equiv> visible_trace wq_step wq_vis es wq_new"
  shows "enqueued as = dequeued as @ wq_data q
    \<and> (wq_data q \<noteq> [] \<longrightarrow> wq_sleeping q \<noteq> [] \<longrightarrow> wq_woken q \<noteq> [])
    \<and> (\<forall>t \<in> set (wq_woken q). wq_data q \<noteq> [] \<longrightarrow>
         wq_step (WResume t) q = q\<lparr>wq_data := tl (wq_data q), wq_woken := remove1 t (wq_woken q)\<rparr>)"
proof -
  have init: "wq_inv (wq_new :: 'a wqueue)" by (simp add: wq_inv_def wq_new_def)
  then have inv: "wq_inv q" unfolding q_def by (rule wq.sched_keeps)
  from wq.trace_meets_spec [OF init, of es] have "spec_run (fifo_spec None) as [] = Some (wq_data q)"
    by (simp add: q_def as_def wq_new_def)
  then have "enqueued as = dequeued as @ wq_data q" using fifo_run_order by fastforce
  moreover have "wq_data q \<noteq> [] \<longrightarrow> wq_sleeping q \<noteq> [] \<longrightarrow> wq_woken q \<noteq> []"
    using inv by (auto simp: wq_inv_def)
  moreover have "wq_data q \<noteq> [] \<longrightarrow>
         wq_step (WResume t) q = q\<lparr>wq_data := tl (wq_data q), wq_woken := remove1 t (wq_woken q)\<rparr>"
    if "t \<in> set (wq_woken q)" for t
    using that by (cases "wq_data q") (simp_all add: wait_section_def)
  ultimately show ?thesis by blast
qed

theorem wait_queue_correct_witness:
  "wq_woken (run_sched wq_step [WWaitPop 1, WWaitPop 2, WPush ''a'' 0] wq_new) \<noteq> []"
  using wait_queue_correct [of "[WWaitPop 1, WWaitPop 2, WPush ''a'' 0]"]
  by (simp add: wq_new_def wait_section_def notify_one_def remove_nth_def)

text \<open>\<open>ThreadSafeQueue\<close> used through \<open>push\<close> and \<open>wait_and_pop\<close> only, by any number of threads: no
  call of \<open>front()\<close> meets an empty queue, elements come out in the order of their insertion, and the
  semaphore never blocks a consumer while an element is stored that no other call is about to take
  or to announce.\<close>
theorem semaphore_queue_blocking_safe:
  fixes es :: "(nat \<times> 'a tq_call) list" and n :: nat
  assumes "\<forall>e \<in> set es. tq_blocking e"
  defines "q \<equiv> run_sched tq_step es (tq_new n)" and "as \<equiv> visible_trace tq_step tq_vis es (tq_new n)"
  shows "\<not> tq_ub q \<and> enqueued as = dequeued as @ tq_data q
    \<and> length (tq_data q) = tq_sem q + count_list (tq_pcs q) TRelease + count_list (tq_pcs q) TAcquired"
proof -
  have "count_list (replicate n TIdle) x = 0" if "x \<noteq> TIdle" for x
    using that by (induction n) auto
  then have "tq_inv (tq_new n :: 'a tqueue)" by (simp add: tq_inv_def tq_new_def)
  then have "tq_inv (run_sched tq_guarded es (tq_new n))" by (rule tqb.sched_keeps)
  moreover have "run_sched tq_guarded es (tq_new n) = q"
    unfolding q_def by (rule run_sched_cong) (simp add: tq_guarded_def assms(1))
  moreover have "spec_run (fifo_spec None) as [] = Some (tq_data q)"
    using tq.trace_meets_spec [of es "tq_new n"] by (simp add: q_def as_def tq_new_def)
  then have "enqueued as = dequeued as @ tq_data q" using fifo_run_order by fastforce
  ultimately show ?thesis by (simp add: tq_inv_def)
qed

theorem semaphore_queue_blocking_safe_witness:
  "\<not> tq_ub (run_sched tq_step [(0, TPush ''a''), (1, TWaitPop), (0, TPush ''b''), (1, TWaitPop), (1, TWaitPop)] (tq_new 2))"
  using semaphore_queue_blocking_safe
    [of "[(0, TPush ''a''), (1, TWaitPop), (0, TPush ''b''), (1, TWaitPop), (1, TWaitPop)]" 2]
  by (simp add: tq_blocking_def)

text \<open>\<open>ThreadSafeQueue::try_pop\<close> takes an element and leaves the semaphore as it is: one
  thread that pushes, pops with \<open>try_pop\<close> and then calls \<open>wait_and_pop\<close> reads \<open>front()\<close> of an empty
  queue instead of blocking.\<close>
theorem semaphore_queue_try_pop_breaks_wait:
  "let es = [(0, TPush x), (0, TPush x), (0, TTryPop), (0, TWaitPop), (0, TWaitPop)]
   in tq_ub (run_sched tq_step es (tq_new 1))"
  by (simp add: Let_def tq_step.simps tq_new_def tq_try_pop_def tq_front_pop_def)

end
