(* ===== verification/FineQueue.thy ===== *)
theory FineQueue
  imports Prelude
begin

text \<open>
  \<open>threadsafe_queue_fine_grained\<close> (C++_ConcurrencyInAction/designLockBase/dataStructures.hpp): a
  singly linked list with a dummy node at its end, one mutex for the head, one for the tail, and a
  condition variable.

  Nodes are addresses; the state holds the \<open>data\<close> and \<open>next\<close> fields of every node, the two
  pointers, the owners of the two mutexes and the threads asleep on \<open>data_cond\<close>.  A step is one
  access to a field or pointer that another thread may touch, or one lock operation; \<open>get_tail\<close>,
  whose critical section is one read, is one step that needs \<open>tail_mutex\<close> to be free.
  \<open>fq_fault\<close> records the use of a deleted node or of a null pointer.  The two auxiliary logs
  \<open>fq_taken\<close> and \<open>fq_ret\<close> list, per thread, the values of the nodes it unlinked and the values
  its calls returned.
\<close>

section \<open>State and steps\<close>

datatype 'a fq_call =
    FPush 'a nat      \<comment> \<open>the number chooses the sleeper that \<open>notify_one\<close> wakes\<close>
  | FPop bool bool    \<comment> \<open>waiting or trying; into a reference or by pointer\<close>
  | FSpurious

datatype 'a fq_pc =
    FIdle
  | FPushLock 'a nat nat
  | FPushData 'a nat nat
  | FPushNext nat nat
  | FPushTail nat nat
  | FNotify nat
  | FPopLock bool bool
  | FPopGet bool bool
  | FPopTest bool bool nat
  | FPopRead
  | FUnlink "'a option"
  | FReturn nat "'a option"
  | FAsleep bool

record 'a fqueue =
  fq_data :: "nat \<Rightarrow> 'a option"
  fq_next :: "nat \<Rightarrow> nat option"
  fq_head :: nat
  fq_tail :: nat
  fq_hlock :: "nat option"
  fq_tlock :: "nat option"
  fq_sleeping :: "nat list"
  fq_alloc :: nat
  fq_freed :: "nat set"
  fq_pcs :: "nat \<Rightarrow> 'a fq_pc"
  fq_fault :: bool
  fq_taken :: "nat \<Rightarrow> 'a list"
  fq_ret :: "nat \<Rightarrow> 'a list"

definition fq_new :: "'a fqueue" where
  "fq_new = \<lparr>fq_data = (\<lambda>_. None), fq_next = (\<lambda>_. None), fq_head = 0, fq_tail = 0,
     fq_hlock = None, fq_tlock = None, fq_sleeping = [], fq_alloc = 1, fq_freed = {},
     fq_pcs = (\<lambda>_. FIdle), fq_fault = False, fq_taken = (\<lambda>_. []), fq_ret = (\<lambda>_. [])\<rparr>"

abbreviation goto :: "nat \<Rightarrow> 'a fq_pc \<Rightarrow> 'a fqueue \<Rightarrow> 'a fqueue" where
  "goto t pc s \<equiv> s\<lparr>fq_pcs := (fq_pcs s)(t := pc)\<rparr>"

definition fq_touch :: "nat \<Rightarrow> 'a fqueue \<Rightarrow> 'a fqueue" where
  "fq_touch c s = (if c \<in> fq_freed s then s\<lparr>fq_fault := True\<rparr> else s)"

definition fq_call_step :: "nat \<Rightarrow> 'a fq_call \<Rightarrow> 'a fqueue \<Rightarrow> 'a fqueue" where
  "fq_call_step t call s =
     (case call of
        FPush value choice \<Rightarrow>
          (let p = fq_alloc s
           in goto t (FPushLock value p choice)
                (s\<lparr>fq_alloc := Suc p, fq_data := (fq_data s)(p := None), fq_next := (fq_next s)(p := None)\<rparr>))
      | FPop wait ref \<Rightarrow> goto t (FPopLock wait ref) s
      | FSpurious \<Rightarrow> s)"

definition fq_notify :: "nat \<Rightarrow> 'a fqueue \<Rightarrow> 'a fqueue" where
  "fq_notify choice s =
     (if fq_sleeping s = [] then s
      else let u = fq_sleeping s ! (choice mod length (fq_sleeping s))
           in (case fq_pcs s u of
                 FAsleep ref \<Rightarrow> goto u (FPopLock True ref) (s\<lparr>fq_sleeping := remove1 u (fq_sleeping s)\<rparr>)
               | _ \<Rightarrow> s))"

text \<open>The test \<open>head.get() == get_tail()\<close> after \<open>get_tail\<close> has answered \<open>tail\<close>.\<close>

definition fq_test :: "nat \<Rightarrow> bool \<Rightarrow> bool \<Rightarrow> nat \<Rightarrow> 'a fqueue \<Rightarrow> 'a fqueue" where
  "fq_test t wait ref tail s =
     (if fq_head s = tail
      then if wait
           then goto t (FAsleep ref) (s\<lparr>fq_hlock := None, fq_sleeping := fq_sleeping s @ [t]\<rparr>)
           else goto t FIdle (s\<lparr>fq_hlock := None\<rparr>)
      else goto t (if ref then FPopRead else FUnlink None) s)"

definition fq_unlink :: "nat \<Rightarrow> 'a option \<Rightarrow> 'a fqueue \<Rightarrow> 'a fqueue" where
  "fq_unlink t v s =
     (let old_head = fq_head s; s' = fq_touch old_head s
      in case fq_next s old_head of
           None \<Rightarrow> goto t FIdle (s'\<lparr>fq_hlock := None, fq_fault := True\<rparr>)
         | Some h \<Rightarrow>
             goto t (FReturn old_head v)
               (s'\<lparr>fq_head := h, fq_hlock := None,
                   fq_taken := (fq_taken s)(t := fq_taken s t @
                     [the (case v of None \<Rightarrow> fq_data s old_head | Some x \<Rightarrow> Some x)])\<rparr>))"

definition fq_return :: "nat \<Rightarrow> nat \<Rightarrow> 'a option \<Rightarrow> 'a fqueue \<Rightarrow> 'a fqueue" where
  "fq_return t old_head v s =
     goto t FIdle ((fq_touch old_head s)\<lparr>fq_freed := insert old_head (fq_freed s),
       fq_ret := (fq_ret s)(t := fq_ret s t @
         [the (case v of None \<Rightarrow> fq_data s old_head | Some x \<Rightarrow> Some x)])\<rparr>)"

fun fq_step :: "nat \<times> 'a fq_call \<Rightarrow> 'a fqueue \<Rightarrow> 'a fqueue" where
  "fq_step (t, call) s =
     (case fq_pcs s t of
        FIdle \<Rightarrow> fq_call_step t call s
      | FPushLock value p choice \<Rightarrow>
          if fq_tlock s = None then goto t (FPushData value p choice) (s\<lparr>fq_tlock := Some t\<rparr>) else s
      | FPushData value p choice \<Rightarrow>
          goto t (FPushNext p choice) ((fq_touch (fq_tail s) s)\<lparr>fq_data := (fq_data s)(fq_tail s := Some value)\<rparr>)
      | FPushNext p choice \<Rightarrow>
          goto t (FPushTail p choice) ((fq_touch (fq_tail s) s)\<lparr>fq_next := (fq_next s)(fq_tail s := Some p)\<rparr>)
      | FPushTail p choice \<Rightarrow> goto t (FNotify choice) (s\<lparr>fq_tail := p, fq_tlock := None\<rparr>)
      | FNotify choice \<Rightarrow> goto t FIdle (fq_notify choice s)
      | FPopLock wait ref \<Rightarrow>
          if fq_hlock s = None then goto t (FPopGet wait ref) (s\<lparr>fq_hlock := Some t\<rparr>) else s
      | FPopGet wait ref \<Rightarrow>
          if fq_tlock s = None then goto t (FPopTest wait ref (fq_tail s)) s else s
      | FPopTest wait ref tail \<Rightarrow> fq_test t wait ref tail s
      | FPopRead \<Rightarrow>
          (case fq_data s (fq_head s) of
             None \<Rightarrow> goto t FIdle (s\<lparr>fq_hlock := None, fq_fault := True\<rparr>)
           | Some x \<Rightarrow> goto t (FUnlink (Some x)) (fq_touch (fq_head s) s))
      | FUnlink v \<Rightarrow> fq_unlink t v s
      | FReturn old_head v \<Rightarrow> fq_return t old_head v s
      | FAsleep ref \<Rightarrow>
          (case call of
             FSpurious \<Rightarrow> goto t (FPopLock True ref) (s\<lparr>fq_sleeping := remove1 t (fq_sleeping s)\<rparr>)
           | _ \<Rightarrow> s))"

declare fq_step.simps [simp del]

section \<open>The queue the nodes hold\<close>

definition fq_nodes :: "'a fqueue \<Rightarrow> nat list" where
  "fq_nodes s = takeWhile (\<lambda>c. c \<noteq> fq_tail s) (cells (fq_next s) (fq_alloc s) (Some (fq_head s)))"

definition fq_list :: "'a fqueue \<Rightarrow> 'a list" where
  "fq_list s = map (\<lambda>c. the (fq_data s c)) (fq_nodes s)"

text \<open>\<open>empty\<close> answers while it holds both locks.\<close>

definition fq_empty :: "'a fqueue \<Rightarrow> bool option" where
  "fq_empty s = (if fq_hlock s = None \<and> fq_tlock s = None then Some (fq_head s = fq_tail s) else None)"

text \<open>A call takes effect when \<open>push\<close> moves the tail, when a pop unlinks the head node, and, for a
  \<open>try_pop\<close> that finds nothing, when it reads the tail.\<close>

fun fq_vis :: "nat \<times> 'a fq_call \<Rightarrow> 'a fqueue \<Rightarrow> 'a queue_act option" where
  "fq_vis (t, call) s =
     (case fq_pcs s t of
        FPushTail p choice \<Rightarrow> Some (Enq (the (fq_data s (fq_tail s))) True)
      | FPopGet wait ref \<Rightarrow>
          if \<not> wait \<and> fq_tlock s = None \<and> fq_head s = fq_tail s then Some (Deq None) else None
      | FUnlink v \<Rightarrow> Some (Deq (Some (the (case v of None \<Rightarrow> fq_data s (fq_head s) | Some x \<Rightarrow> Some x))))
      | _ \<Rightarrow> None)"

section \<open>Invariant\<close>

fun head_section :: "'a fq_pc \<Rightarrow> bool" where
  "head_section (FPopGet wait ref) = True"
| "head_section (FPopTest wait ref tail) = True"
| "head_section FPopRead = True"
| "head_section (FUnlink v) = True"
| "head_section _ = False"

fun tail_section :: "'a fq_pc \<Rightarrow> bool" where
  "tail_section (FPushData value p choice) = True"
| "tail_section (FPushNext p choice) = True"
| "tail_section (FPushTail p choice) = True"
| "tail_section _ = False"

text \<open>The node a call owns: a new one before it is linked, an old one after it is unlinked.\<close>

fun owned :: "'a fq_pc \<Rightarrow> nat option" where
  "owned (FPushLock value p choice) = Some p"
| "owned (FPushData value p choice) = Some p"
| "owned (FPushNext p choice) = Some p"
| "owned (FReturn old v) = Some old"
| "owned _ = None"

fun linked :: "'a fq_pc \<Rightarrow> nat list" where
  "linked (FPushTail p choice) = [p]"
| "linked _ = []"

definition beyond :: "'a fqueue \<Rightarrow> nat list" where
  "beyond s = (case fq_tlock s of None \<Rightarrow> [] | Some t \<Rightarrow> linked (fq_pcs s t))"

fun fpc_ok :: "'a fqueue \<Rightarrow> nat list \<Rightarrow> 'a fq_pc \<Rightarrow> bool" where
  "fpc_ok s xs (FPushLock value p choice) \<longleftrightarrow> fq_next s p = None"
| "fpc_ok s xs (FPushData value p choice) \<longleftrightarrow> fq_next s p = None"
| "fpc_ok s xs (FPushNext p choice) \<longleftrightarrow> fq_next s p = None \<and> fq_data s (fq_tail s) \<noteq> None"
| "fpc_ok s xs (FPushTail p choice) \<longleftrightarrow> fq_data s (fq_tail s) \<noteq> None"
| "fpc_ok s xs (FPopTest wait ref tail) \<longleftrightarrow> tail \<in> set (xs @ [fq_tail s])"
| "fpc_ok s xs FPopRead \<longleftrightarrow> xs \<noteq> []"
| "fpc_ok s xs (FUnlink v) \<longleftrightarrow> xs \<noteq> [] \<and> (v = None \<or> v = fq_data s (fq_head s))"
| "fpc_ok s xs (FReturn old v) \<longleftrightarrow> fq_data s old \<noteq> None \<and> (v = None \<or> v = fq_data s old)"
| "fpc_ok s xs _ \<longleftrightarrow> True"

definition fq_ok :: "'a fqueue \<Rightarrow> nat list \<Rightarrow> bool" where
  "fq_ok s xs \<longleftrightarrow>
     chain (fq_next s) (Some (fq_head s)) (xs @ fq_tail s # beyond s) None
   \<and> (\<forall>c \<in> set (xs @ fq_tail s # beyond s). c < fq_alloc s \<and> c \<notin> fq_freed s)
   \<and> (\<forall>c \<in> set xs. fq_data s c \<noteq> None)
   \<and> (\<forall>t. head_section (fq_pcs s t) \<longleftrightarrow> fq_hlock s = Some t)
   \<and> (\<forall>t. tail_section (fq_pcs s t) \<longleftrightarrow> fq_tlock s = Some t)
   \<and> (\<forall>t c. owned (fq_pcs s t) = Some c \<longrightarrow>
        c < fq_alloc s \<and> c \<notin> fq_freed s \<and> c \<notin> set (xs @ fq_tail s # beyond s))
   \<and> (\<forall>t u c. owned (fq_pcs s t) = Some c \<longrightarrow> owned (fq_pcs s u) = Some c \<longrightarrow> t = u)
   \<and> (\<forall>t. fpc_ok s xs (fq_pcs s t))
   \<and> \<not> fq_fault s \<and> (\<forall>c \<in> fq_freed s. c < fq_alloc s)
   \<and> (\<forall>t. fq_taken s t = fq_ret s t @
        (case fq_pcs s t of FReturn old v \<Rightarrow> [the (fq_data s old)] | _ \<Rightarrow> []))"

definition fq_inv :: "'a fqueue \<Rightarrow> bool" where
  "fq_inv s \<longleftrightarrow> (\<exists>xs. fq_ok s xs)"

section \<open>The invariant is kept\<close>

lemma fq_okD:
  assumes "fq_ok s xs"
  shows "chain (fq_next s) (Some (fq_head s)) (xs @ fq_tail s # beyond s) None"
    and "c \<in> set (xs @ fq_tail s # beyond s) \<Longrightarrow> c < fq_alloc s \<and> c \<notin> fq_freed s"
    and "c \<in> set xs \<Longrightarrow> fq_data s c \<noteq> None"
    and "head_section (fq_pcs s t) \<longleftrightarrow> fq_hlock s = Some t"
    and "tail_section (fq_pcs s t) \<longleftrightarrow> fq_tlock s = Some t"
    and "owned (fq_pcs s t) = Some c \<Longrightarrow>
        c < fq_alloc s \<and> c \<notin> fq_freed s \<and> c \<notin> set (xs @ fq_tail s # beyond s)"
    and "owned (fq_pcs s t) = Some c \<Longrightarrow> owned (fq_pcs s u) = Some c \<Longrightarrow> t = u"
    and "fpc_ok s xs (fq_pcs s t)"
    and "\<not> fq_fault s"
    and "fq_taken s t = fq_ret s t @ (case fq_pcs s t of FReturn old v \<Rightarrow> [the (fq_data s old)] | _ \<Rightarrow> [])"
    and "c \<in> fq_freed s \<Longrightarrow> c < fq_alloc s"
  using assms unfolding fq_ok_def by blast+

lemma fq_distinct: "fq_ok s xs \<Longrightarrow> distinct (xs @ fq_tail s # beyond s)"
  by (rule chain_distinct [OF fq_okD(1)])

lemma fq_nodes_eq:
  assumes "fq_ok s xs"
  shows "fq_nodes s = xs"
proof -
  note ok = fq_okD(1,2) [OF assms] and dist = fq_distinct [OF assms]
  have "set (xs @ fq_tail s # beyond s) \<subseteq> {..<fq_alloc s}" using ok(2) by auto
  then have "card (set (xs @ fq_tail s # beyond s)) \<le> fq_alloc s"
    by (metis card_lessThan card_mono finite_lessThan)
  then have "length (xs @ fq_tail s # beyond s) \<le> fq_alloc s"
    using dist by (metis distinct_card)
  then have "cells (fq_next s) (fq_alloc s) (Some (fq_head s)) = xs @ fq_tail s # beyond s"
    by (rule cells_of_chain [OF ok(1)])
  moreover have "takeWhile (\<lambda>c. c \<noteq> fq_tail s) (xs @ fq_tail s # beyond s) = xs"
    using dist by (subst takeWhile_append2) auto
  ultimately show ?thesis by (simp add: fq_nodes_def)
qed

lemma head_cases:
  assumes "fq_ok s xs"
  obtains (empty) "xs = []" "fq_head s = fq_tail s" | (more) ys where "xs = fq_head s # ys" "fq_head s \<noteq> fq_tail s"
  using fq_okD(1) [OF assms] fq_distinct [OF assms] by (cases xs) auto

lemma head_in: "fq_ok s xs \<Longrightarrow> fq_head s \<in> set (xs @ fq_tail s # beyond s)"
  by (erule head_cases) auto

text \<open>Transitions that touch no node: only the program counter of \<open>t\<close> and the locks change.\<close>

definition same_heap :: "'a fqueue \<Rightarrow> 'a fqueue \<Rightarrow> bool" where
  "same_heap s s' \<longleftrightarrow> fq_next s' = fq_next s \<and> fq_data s' = fq_data s \<and> fq_head s' = fq_head s
     \<and> fq_tail s' = fq_tail s \<and> fq_alloc s' = fq_alloc s \<and> fq_freed s' = fq_freed s
     \<and> fq_fault s' = fq_fault s \<and> fq_taken s' = fq_taken s \<and> fq_ret s' = fq_ret s"

fun returning :: "'a fq_pc \<Rightarrow> bool" where
  "returning (FReturn old v) = True"
| "returning _ = False"

lemma fpc_same_heap: "same_heap s s' \<Longrightarrow> fpc_ok s' xs pc = fpc_ok s xs pc"
  by (cases pc) (auto simp: same_heap_def)

lemma fq_move:
  assumes ok: "fq_ok s xs" and heap: "same_heap s s'" and pcs: "fq_pcs s' = (fq_pcs s)(t := pc)"
    and hl: "fq_hlock s' = (if head_section pc then Some t else if fq_hlock s = Some t then None else fq_hlock s)"
    and tl: "fq_tlock s' = (if tail_section pc then Some t else if fq_tlock s = Some t then None else fq_tlock s)"
    and hx: "head_section pc \<Longrightarrow> fq_hlock s = None \<or> fq_hlock s = Some t"
    and tx: "tail_section pc \<Longrightarrow> fq_tlock s = None \<or> fq_tlock s = Some t"
    and link: "linked pc = []" "linked (fq_pcs s t) = []"
    and own: "owned pc = None \<or> owned pc = owned (fq_pcs s t)"
    and pc: "fpc_ok s xs pc" and ret: "\<not> returning pc" "\<not> returning (fq_pcs s t)"
  shows "fq_ok s' xs"
proof -
  have beyond: "beyond s' = beyond s"
    using hl tl tx link fq_okD(5) [OF ok] by (auto simp: beyond_def pcs split: option.splits)
  have heap_eqs: "fq_next s' = fq_next s" "fq_data s' = fq_data s" "fq_head s' = fq_head s"
    "fq_tail s' = fq_tail s" "fq_alloc s' = fq_alloc s" "fq_freed s' = fq_freed s"
    "fq_fault s' = fq_fault s" "fq_taken s' = fq_taken s" "fq_ret s' = fq_ret s"
    using heap by (auto simp: same_heap_def)
  have owned: "owned (fq_pcs s' u) = Some c \<Longrightarrow> owned (fq_pcs s u) = Some c" for u c
    using own by (auto simp: pcs split: if_splits)
  show ?thesis
    unfolding fq_ok_def heap_eqs beyond fpc_same_heap [OF heap]
  proof (intro conjI allI impI)
    show "head_section (fq_pcs s' u) = (fq_hlock s' = Some u)" for u
      using fq_okD(4) [OF ok, of u] fq_okD(4) [OF ok, of t] hx by (auto simp: pcs hl)
    show "tail_section (fq_pcs s' u) = (fq_tlock s' = Some u)" for u
      using fq_okD(5) [OF ok, of u] fq_okD(5) [OF ok, of t] tx by (auto simp: pcs tl)
    show "fq_taken s u = fq_ret s u @ (case fq_pcs s' u of FReturn old v \<Rightarrow> [the (fq_data s old)] | _ \<Rightarrow> [])" for u
      using fq_okD(10) [OF ok, of u] ret by (cases "u = t") (auto simp: pcs split: fq_pc.splits)
    show "fpc_ok s xs (fq_pcs s' u)" for u
      using fq_okD(8) [OF ok] pc by (simp add: pcs)
  qed (use fq_okD [OF ok] owned in \<open>blast+\<close>)
qed

lemma same_heap_simps [simp]:
  "same_heap s (s\<lparr>fq_pcs := p\<rparr>)"
  "same_heap s (s\<lparr>fq_hlock := h, fq_pcs := p\<rparr>)"
  "same_heap s (s\<lparr>fq_tlock := h, fq_pcs := p\<rparr>)"
  "same_heap s (s\<lparr>fq_sleeping := q, fq_pcs := p\<rparr>)"
  "same_heap s (s\<lparr>fq_hlock := h, fq_sleeping := q, fq_pcs := p\<rparr>)"
  by (simp_all add: same_heap_def)

lemma fq_notify_ok:
  assumes "fq_ok s xs"
  shows "fq_ok (fq_notify choice s) xs"
proof -
  define u where "u = fq_sleeping s ! (choice mod length (fq_sleeping s))"
  show ?thesis
  proof (cases "fq_pcs s u")
    case (FAsleep ref)
    have "fq_ok (s\<lparr>fq_sleeping := remove1 u (fq_sleeping s), fq_pcs := (fq_pcs s)(u := FPopLock True ref)\<rparr>) xs"
      by (rule fq_move [OF assms, where t = u and pc = "FPopLock True ref"])
        (use FAsleep fq_okD(4,5) [OF assms, of u] in auto)
    with FAsleep assms show ?thesis by (simp add: fq_notify_def u_def Let_def)
  qed (use assms in \<open>auto simp: fq_notify_def u_def Let_def\<close>)
qed

lemma fq_touch_id: "c \<notin> fq_freed s \<Longrightarrow> fq_touch c s = s"
  by (simp add: fq_touch_def)

fun quiet :: "'a fq_pc \<Rightarrow> 'a fq_call \<Rightarrow> bool" where
  "quiet FIdle (FPush value choice) = False"
| "quiet (FPushData value p choice) call = False"
| "quiet (FPushNext p choice) call = False"
| "quiet (FPushTail p choice) call = False"
| "quiet (FUnlink v) call = False"
| "quiet (FReturn old v) call = False"
| "quiet pc call = True"

lemma fq_quiet_step:
  assumes ok: "fq_ok s xs" and q: "quiet (fq_pcs s t) call"
  shows "fq_ok (fq_step (t, call) s) xs \<and> fq_data (fq_step (t, call) s) = fq_data s"
proof -
  note locks = fq_okD(4,5) [OF ok, of t] and pcok = fq_okD(8) [OF ok, of t]
  note mv = fq_move [OF ok, where t = t]
  show ?thesis
  proof (cases "fq_pcs s t")
    case FIdle
    then show ?thesis using q ok locks
      by (cases call) (auto simp: fq_step.simps fq_call_step_def intro!: mv)
  next
    case (FPushLock x p choice)
    then show ?thesis using ok locks pcok
      by (auto simp: fq_step.simps intro!: mv [where pc = "FPushData x p choice"])
  next
    case (FNotify choice)
    note ok' = fq_notify_ok [OF ok, of choice]
    have same: "fq_data (fq_notify choice s) = fq_data s"
      by (auto simp: fq_notify_def Let_def split: fq_pc.splits)
    have pc': "fq_pcs (fq_notify choice s) t = FNotify choice"
      using FNotify by (auto simp: fq_notify_def Let_def split: fq_pc.splits)
    have "fq_ok (goto t FIdle (fq_notify choice s)) xs"
      by (rule fq_move [OF ok', where t = t and pc = FIdle])
        (use pc' fq_okD(4,5) [OF ok', of t] in auto)
    with FNotify same show ?thesis by (simp add: fq_step.simps)
  next
    case (FPopLock wait ref)
    then show ?thesis using ok locks
      by (auto simp: fq_step.simps intro!: mv [where pc = "FPopGet wait ref"])
  next
    case (FPopGet wait ref)
    then show ?thesis using ok locks
      by (auto simp: fq_step.simps intro!: mv [where pc = "FPopTest wait ref (fq_tail s)"])
  next
    case (FPopTest wait ref tail)
    have "xs \<noteq> []" if "fq_head s \<noteq> tail"
      using that pcok FPopTest by (cases rule: head_cases [OF ok]) auto
    then have "fq_ok (fq_test t wait ref tail s) xs"
      by (intro mv [where pc = "fq_pcs (fq_test t wait ref tail s) t"])
        (use FPopTest locks in \<open>auto simp: fq_test_def split: if_splits\<close>)
    with FPopTest show ?thesis by (simp add: fq_step.simps fq_test_def)
  next
    case FPopRead
    with pcok have "xs \<noteq> []" by simp
    then have "fq_head s \<in> set xs" by (cases rule: head_cases [OF ok]) auto
    with fq_okD(2,3) [OF ok, of "fq_head s"] obtain x where "fq_data s (fq_head s) = Some x"
      "fq_head s \<notin> fq_freed s" by auto
    then show ?thesis using FPopRead \<open>xs \<noteq> []\<close> ok locks
      by (auto simp: fq_step.simps fq_touch_id intro!: mv [where pc = "FUnlink (Some x)"])
  next
    case (FAsleep ref)
    then show ?thesis using ok locks
      by (cases call) (auto simp: fq_step.simps intro!: mv [where pc = "FPopLock True ref"])
  qed (use q in auto)
qed

lemma fq_push_call_step:
  assumes ok: "fq_ok s xs" and idle: "fq_pcs s t = FIdle"
  shows "fq_ok (fq_step (t, FPush value choice) s) xs
    \<and> (\<forall>c \<in> set xs. fq_data (fq_step (t, FPush value choice) s) c = fq_data s c)"
proof -
  define p where "p = fq_alloc s"
  let ?s = "s\<lparr>fq_alloc := Suc p, fq_data := (fq_data s)(p := None), fq_next := (fq_next s)(p := None),
    fq_pcs := (fq_pcs s)(t := FPushLock value p choice)\<rparr>"
  have step: "fq_step (t, FPush value choice) s = ?s"
    using idle by (simp add: fq_step.simps fq_call_step_def p_def Let_def)
  have fresh: "p \<notin> set (xs @ fq_tail s # beyond s)" "\<And>u. owned (fq_pcs s u) \<noteq> Some p"
    "c \<in> set (xs @ fq_tail s # beyond s) \<Longrightarrow> c < Suc p" for c
    using fq_okD(2,6) [OF ok] by (auto simp: p_def less_Suc_eq)
  have beyond: "beyond ?s = beyond s"
    using idle fq_okD(5) [OF ok, of t] by (auto simp: beyond_def split: option.splits)
  have other: "fq_head s \<noteq> p" "fq_tail s \<noteq> p" using fresh(1) head_in [OF ok] by auto
  have fpc: "fpc_ok ?s xs (fq_pcs ?s u)" for u
  proof (cases "u = t")
    case False
    with fq_okD(8) [OF ok, of u] fresh(2) [of u] other show ?thesis
      by (cases "fq_pcs s u") auto
  qed simp
  have "fq_ok ?s xs"
    unfolding fq_ok_def beyond
  proof (intro conjI allI impI ballI)
    show "chain (fq_next ?s) (Some (fq_head ?s)) (xs @ fq_tail ?s # beyond s) None"
      using fq_okD(1) [OF ok] chain_upd [OF fresh(1), of "fq_next s"] by simp
    show "fq_taken ?s u = fq_ret ?s u @ (case fq_pcs ?s u of FReturn old v \<Rightarrow> [the (fq_data ?s old)] | _ \<Rightarrow> [])" for u
      using fq_okD(10) [OF ok, of u] fresh(2) [of u] idle
      by (cases "u = t") (auto split: fq_pc.splits)
    show "c < fq_alloc ?s" "c \<notin> fq_freed ?s" if "c \<in> set (xs @ fq_tail ?s # beyond s)" for c
      using that fq_okD(2) [OF ok, of c] fresh(3) [of c] by auto
    show "fq_data ?s c \<noteq> None" if "c \<in> set xs" for c
      using that fq_okD(3) [OF ok that] fresh(1) by auto
    show "head_section (fq_pcs ?s u) = (fq_hlock ?s = Some u)"
      "tail_section (fq_pcs ?s u) = (fq_tlock ?s = Some u)" for u
      using fq_okD(4,5) [OF ok, of u] idle by auto
    show "fpc_ok ?s xs (fq_pcs ?s u)" for u by (rule fpc)
    show "c < fq_alloc ?s" if "c \<in> fq_freed ?s" for c
      using that fq_okD(11) [OF ok, of c] by (simp add: p_def)
    show "\<not> fq_fault ?s" using fq_okD(9) [OF ok] by simp
    fix u c assume own: "owned (fq_pcs ?s u) = Some c"
    show "c < fq_alloc ?s" using own fq_okD(6) [OF ok, of u c] by (auto simp: p_def split: if_splits)
    show "c \<notin> fq_freed ?s" using own fq_okD(6) [OF ok, of u c] fq_okD(11) [OF ok, of p]
      by (auto simp: p_def split: if_splits)
    show "c \<notin> set (xs @ fq_tail ?s # beyond s)" using own fq_okD(6) [OF ok, of u c] fresh(1) by (auto split: if_splits)
    fix v assume own': "owned (fq_pcs ?s v) = Some c"
    show "u = v" using own own' fq_okD(7) [OF ok, of u c v] fresh(2) by (auto split: if_splits)
  qed
  then show ?thesis unfolding step using fresh(1) by auto
qed

text \<open>The three writes of \<open>push\<close> under \<open>tail_mutex\<close>.\<close>

lemma fq_alone_at_tail: "fq_ok s xs \<Longrightarrow> tail_section (fq_pcs s t) \<Longrightarrow> tail_section (fq_pcs s u) \<Longrightarrow> t = u"
  using fq_okD(5) [of s xs t] fq_okD(5) [of s xs u] by simp

lemma fq_alone_at_head: "fq_ok s xs \<Longrightarrow> head_section (fq_pcs s t) \<Longrightarrow> head_section (fq_pcs s u) \<Longrightarrow> t = u"
  using fq_okD(4) [of s xs t] fq_okD(4) [of s xs u] by simp

lemma fq_push_data_step:
  assumes ok: "fq_ok s xs" and pc: "fq_pcs s t = FPushData x p choice"
  shows "fq_ok (fq_step (t, call) s) xs \<and> (\<forall>c \<in> set xs. fq_data (fq_step (t, call) s) c = fq_data s c)"
proof -
  let ?s = "s\<lparr>fq_data := (fq_data s)(fq_tail s := Some x), fq_pcs := (fq_pcs s)(t := FPushNext p choice)\<rparr>"
  have alive: "fq_tail s \<notin> fq_freed s" using fq_okD(2) [OF ok, of "fq_tail s"] by simp
  then have step: "fq_step (t, call) s = ?s" using pc by (simp add: fq_step.simps fq_touch_id)
  have lock: "fq_tlock s = Some t" using fq_okD(5) [OF ok, of t] pc by simp
  then have none: "beyond s = []" "beyond ?s = []" using pc by (auto simp: beyond_def)
  have out: "fq_tail s \<notin> set xs" using fq_distinct [OF ok] by simp
  have own: "owned (fq_pcs s u) \<noteq> Some (fq_tail s)" for u using fq_okD(6) [OF ok, of u] by auto
  have fpc: "fpc_ok ?s xs (fq_pcs ?s u)" for u
  proof (cases "u = t")
    case True
    then show ?thesis using fq_okD(8) [OF ok, of t] pc by simp
  next
    case False
    have "\<not> tail_section (fq_pcs s u)" using fq_alone_at_tail [OF ok, of u t] pc False by auto
    moreover have "xs \<noteq> [] \<Longrightarrow> fq_head s \<noteq> fq_tail s" by (cases rule: head_cases [OF ok]) auto
    ultimately show ?thesis using fq_okD(8) [OF ok, of u] own [of u] False
      by (cases "fq_pcs s u") auto
  qed
  have "fq_ok ?s xs"
    unfolding fq_ok_def none
  proof (intro conjI allI impI ballI)
    show "fq_data ?s c \<noteq> None" if "c \<in> set xs" for c
      using that fq_okD(3) [OF ok that] out by auto
    show "head_section (fq_pcs ?s u) = (fq_hlock ?s = Some u)"
      "tail_section (fq_pcs ?s u) = (fq_tlock ?s = Some u)" for u
      using fq_okD(4,5) [OF ok, of u] pc by auto
    show "fq_taken ?s u = fq_ret ?s u @ (case fq_pcs ?s u of FReturn old v \<Rightarrow> [the (fq_data ?s old)] | _ \<Rightarrow> [])" for u
      using fq_okD(10) [OF ok, of u] own [of u] pc by (cases "u = t") (auto split: fq_pc.splits)
    show "fpc_ok ?s xs (fq_pcs ?s u)" for u by (rule fpc)
    fix u c assume "owned (fq_pcs ?s u) = Some c"
    then have o: "owned (fq_pcs s u) = Some c" using pc by (auto split: if_splits)
    show "c < fq_alloc ?s" "c \<notin> fq_freed ?s" "c \<notin> set (xs @ fq_tail ?s # [])"
      using fq_okD(6) [OF ok o] none by auto
    fix v assume "owned (fq_pcs ?s v) = Some c"
    then have "owned (fq_pcs s v) = Some c" using pc by (auto split: if_splits)
    with o show "u = v" by (rule fq_okD(7) [OF ok])
  qed (use fq_okD(1,2,9,11) [OF ok] none in auto)
  then show ?thesis unfolding step using out by auto
qed

lemma fq_push_next_step:
  assumes ok: "fq_ok s xs" and pc: "fq_pcs s t = FPushNext p choice"
  shows "fq_ok (fq_step (t, call) s) xs \<and> fq_data (fq_step (t, call) s) = fq_data s"
proof -
  let ?s = "s\<lparr>fq_next := (fq_next s)(fq_tail s := Some p), fq_pcs := (fq_pcs s)(t := FPushTail p choice)\<rparr>"
  have alive: "fq_tail s \<notin> fq_freed s" using fq_okD(2) [OF ok, of "fq_tail s"] by simp
  then have step: "fq_step (t, call) s = ?s" using pc by (simp add: fq_step.simps fq_touch_id)
  have lock: "fq_tlock s = Some t" using fq_okD(5) [OF ok, of t] pc by simp
  then have none: "beyond s = []" "beyond ?s = [p]" using pc by (auto simp: beyond_def)
  have out: "fq_tail s \<notin> set xs" using fq_distinct [OF ok] by simp
  have ownt: "owned (fq_pcs s t) = Some p" using pc by simp
  note p = fq_okD(6) [OF ok ownt, unfolded none]
  have own: "owned (fq_pcs s u) \<noteq> Some (fq_tail s)" for u using fq_okD(6) [OF ok, of u] by auto
  have pnext: "fq_next s p = None" using fq_okD(8) [OF ok, of t] pc by simp
  have chain: "chain (fq_next ?s) (Some (fq_head ?s)) (xs @ fq_tail ?s # [p]) None"
    using fq_okD(1) [OF ok] none pnext p by (auto simp: chain_upd [OF out])
  have fpc: "fpc_ok ?s xs (fq_pcs ?s u)" for u
  proof (cases "u = t")
    case True
    then show ?thesis using fq_okD(8) [OF ok, of t] pc by simp
  next
    case False
    have "\<not> tail_section (fq_pcs s u)" using fq_alone_at_tail [OF ok, of u t] pc False by auto
    then show ?thesis using fq_okD(8) [OF ok, of u] own [of u] False
      by (cases "fq_pcs s u") auto
  qed
  have "fq_ok ?s xs"
    unfolding fq_ok_def none
  proof (intro conjI allI impI ballI)
    show "head_section (fq_pcs ?s u) = (fq_hlock ?s = Some u)"
      "tail_section (fq_pcs ?s u) = (fq_tlock ?s = Some u)" for u
      using fq_okD(4,5) [OF ok, of u] pc by auto
    show "fq_taken ?s u = fq_ret ?s u @ (case fq_pcs ?s u of FReturn old v \<Rightarrow> [the (fq_data ?s old)] | _ \<Rightarrow> [])" for u
      using fq_okD(10) [OF ok, of u] pc by (cases "u = t") (auto split: fq_pc.splits)
    show "fpc_ok ?s xs (fq_pcs ?s u)" for u by (rule fpc)
    show "chain (fq_next ?s) (Some (fq_head ?s)) (xs @ fq_tail ?s # [p]) None" by (rule chain)
    fix u c assume o': "owned (fq_pcs ?s u) = Some c"
    then have o: "owned (fq_pcs s u) = Some c" and "u \<noteq> t" using pc by (auto split: if_splits)
    then have "c \<noteq> p" using fq_okD(7) [OF ok o, of t] ownt by auto
    then show "c < fq_alloc ?s" "c \<notin> fq_freed ?s" "c \<notin> set (xs @ fq_tail ?s # [p])"
      using fq_okD(6) [OF ok o] none by auto
    fix v assume "owned (fq_pcs ?s v) = Some c"
    then have "owned (fq_pcs s v) = Some c" using pc by (auto split: if_splits)
    with o show "u = v" by (rule fq_okD(7) [OF ok])
  qed (use fq_okD(2,3,9,11) [OF ok] none p in auto)
  then show ?thesis unfolding step by simp
qed

lemma fq_push_tail_step:
  assumes ok: "fq_ok s xs" and pc: "fq_pcs s t = FPushTail p choice"
  shows "fq_ok (fq_step (t, call) s) (xs @ [fq_tail s]) \<and> fq_data (fq_step (t, call) s) = fq_data s"
proof -
  let ?s = "s\<lparr>fq_tail := p, fq_tlock := None, fq_pcs := (fq_pcs s)(t := FNotify choice)\<rparr>"
  have step: "fq_step (t, call) s = ?s" using pc by (simp add: fq_step.simps)
  have lock: "fq_tlock s = Some t" using fq_okD(5) [OF ok, of t] pc by simp
  then have none: "beyond s = [p]" "beyond ?s = []" using pc by (auto simp: beyond_def)
  have fpc: "fpc_ok ?s (xs @ [fq_tail s]) (fq_pcs ?s u)" for u
  proof (cases "u = t")
    case False
    have "\<not> tail_section (fq_pcs s u)" using fq_alone_at_tail [OF ok, of u t] pc False by auto
    then show ?thesis using fq_okD(8) [OF ok, of u] False
      by (cases "fq_pcs s u") auto
  qed simp
  have "fq_ok ?s (xs @ [fq_tail s])"
    unfolding fq_ok_def none
  proof (intro conjI allI impI ballI)
    show "head_section (fq_pcs ?s u) = (fq_hlock ?s = Some u)"
      "tail_section (fq_pcs ?s u) = (fq_tlock ?s = Some u)" for u
      using fq_okD(4,5) [OF ok, of u] pc lock by auto
    show "fq_taken ?s u = fq_ret ?s u @ (case fq_pcs ?s u of FReturn old v \<Rightarrow> [the (fq_data ?s old)] | _ \<Rightarrow> [])" for u
      using fq_okD(10) [OF ok, of u] pc by (cases "u = t") (auto split: fq_pc.splits)
    show "fpc_ok ?s (xs @ [fq_tail s]) (fq_pcs ?s u)" for u by (rule fpc)
    show "fq_data ?s c \<noteq> None" if "c \<in> set (xs @ [fq_tail s])" for c
      using that fq_okD(3) [OF ok, of c] fq_okD(8) [OF ok, of t] pc by auto
    fix u c assume o': "owned (fq_pcs ?s u) = Some c"
    then have o: "owned (fq_pcs s u) = Some c" using pc by (auto split: if_splits)
    then show "c < fq_alloc ?s" "c \<notin> fq_freed ?s" "c \<notin> set ((xs @ [fq_tail s]) @ fq_tail ?s # [])"
      using fq_okD(6) [OF ok o] none by auto
    fix v assume "owned (fq_pcs ?s v) = Some c"
    then have "owned (fq_pcs s v) = Some c" using pc by (auto split: if_splits)
    with o show "u = v" by (rule fq_okD(7) [OF ok])
  qed (use fq_okD(1,2,9,11) [OF ok] none in auto)
  then show ?thesis unfolding step by simp
qed

lemma fq_unlink_step:
  assumes ok: "fq_ok s xs" and pc: "fq_pcs s t = FUnlink v"
  obtains x ys where "xs = fq_head s # ys" "fq_data s (fq_head s) = Some x" "v = None \<or> v = Some x"
    "fq_ok (fq_step (t, call) s) ys" "fq_data (fq_step (t, call) s) = fq_data s"
proof -
  have "xs \<noteq> []" and v: "v = None \<or> v = fq_data s (fq_head s)" using fq_okD(8) [OF ok, of t] pc by auto
  then obtain ys where xs: "xs = fq_head s # ys" and ne: "fq_head s \<noteq> fq_tail s"
    by (cases rule: head_cases [OF ok]) auto
  obtain x where x: "fq_data s (fq_head s) = Some x" using fq_okD(3) [OF ok, of "fq_head s"] xs by auto
  obtain h where h: "fq_next s (fq_head s) = Some h"
    and chain: "chain (fq_next s) (Some h) (ys @ fq_tail s # beyond s) None"
    using fq_okD(1) [OF ok] xs by (cases ys) auto
  let ?s = "s\<lparr>fq_head := h, fq_hlock := None, fq_taken := (fq_taken s)(t := fq_taken s t @ [x]),
    fq_pcs := (fq_pcs s)(t := FReturn (fq_head s) v)\<rparr>"
  have alive: "fq_head s \<notin> fq_freed s" using fq_okD(2) [OF ok, of "fq_head s"] xs by simp
  have step: "fq_step (t, call) s = ?s"
    using pc v x h alive by (auto simp: fq_step.simps fq_unlink_def fq_touch_id Let_def)
  have lock: "fq_hlock s = Some t" using fq_okD(4) [OF ok, of t] pc by simp
  have notl: "fq_tlock s \<noteq> Some t" using fq_okD(5) [OF ok, of t] pc by simp
  then have beyond: "beyond ?s = beyond s" by (auto simp: beyond_def split: option.splits)
  have out: "fq_head s \<notin> set (ys @ fq_tail s # beyond s)" using fq_distinct [OF ok] xs by simp
  have own: "owned (fq_pcs s u) \<noteq> Some (fq_head s)" for u using fq_okD(6) [OF ok, of u] xs by auto
  have fpc: "fpc_ok ?s ys (fq_pcs ?s u)" for u
  proof (cases "u = t")
    case True
    then show ?thesis using v x by simp
  next
    case False
    have "\<not> head_section (fq_pcs s u)" using fq_alone_at_head [OF ok, of u t] pc False by auto
    then show ?thesis using fq_okD(8) [OF ok, of u] False
      by (cases "fq_pcs s u") auto
  qed
  have "fq_ok ?s ys"
    unfolding fq_ok_def beyond
  proof (intro conjI allI impI ballI)
    show "head_section (fq_pcs ?s u) = (fq_hlock ?s = Some u)"
      "tail_section (fq_pcs ?s u) = (fq_tlock ?s = Some u)" for u
      using fq_okD(4,5) [OF ok, of u] pc lock by auto
    show "fq_taken ?s u = fq_ret ?s u @ (case fq_pcs ?s u of FReturn old v \<Rightarrow> [the (fq_data ?s old)] | _ \<Rightarrow> [])" for u
      using fq_okD(10) [OF ok, of u] pc x by (cases "u = t") (auto split: fq_pc.splits)
    show "fpc_ok ?s ys (fq_pcs ?s u)" for u by (rule fpc)
    fix u c assume o: "owned (fq_pcs ?s u) = Some c"
    show "c < fq_alloc ?s" "c \<notin> fq_freed ?s" "c \<notin> set (ys @ fq_tail ?s # beyond s)"
      using o fq_okD(6) [OF ok, of u c] fq_okD(2) [OF ok, of c] xs out by (auto split: if_splits)
    fix w assume "owned (fq_pcs ?s w) = Some c"
    with o own show "u = w" using fq_okD(7) [OF ok, of u c w] by (auto split: if_splits)
  qed (use fq_okD(2,3,9,11) [OF ok] chain xs in auto)
  then show ?thesis using that [of ys x] xs x v unfolding step by auto
qed

lemma fq_return_step:
  assumes ok: "fq_ok s xs" and pc: "fq_pcs s t = FReturn old v"
  shows "fq_ok (fq_step (t, call) s) xs \<and> fq_data (fq_step (t, call) s) = fq_data s"
proof -
  have ownt: "owned (fq_pcs s t) = Some old" using pc by simp
  note o = fq_okD(6) [OF ok ownt]
  obtain x where x: "fq_data s old = Some x" "v = None \<or> v = Some x"
    using fq_okD(8) [OF ok, of t] pc by auto
  let ?s = "s\<lparr>fq_freed := insert old (fq_freed s), fq_ret := (fq_ret s)(t := fq_ret s t @ [x]),
    fq_pcs := (fq_pcs s)(t := FIdle)\<rparr>"
  have step: "fq_step (t, call) s = ?s"
    using pc x o by (auto simp: fq_step.simps fq_return_def fq_touch_id)
  have notl: "fq_tlock s \<noteq> Some t" using fq_okD(5) [OF ok, of t] pc by simp
  then have beyond: "beyond ?s = beyond s" by (auto simp: beyond_def split: option.splits)
  have "fq_ok ?s xs"
    unfolding fq_ok_def beyond
  proof (intro conjI allI impI ballI)
    show "head_section (fq_pcs ?s u) = (fq_hlock ?s = Some u)"
      "tail_section (fq_pcs ?s u) = (fq_tlock ?s = Some u)" for u
      using fq_okD(4,5) [OF ok, of u] pc by auto
    show "fq_taken ?s u = fq_ret ?s u @ (case fq_pcs ?s u of FReturn old v \<Rightarrow> [the (fq_data ?s old)] | _ \<Rightarrow> [])" for u
      using fq_okD(10) [OF ok, of u] pc x by (cases "u = t") (auto split: fq_pc.splits)
    show "fpc_ok ?s xs (fq_pcs ?s u)" for u
    proof (cases "u = t")
      case False
      then show ?thesis using fq_okD(8) [OF ok, of u] by (cases "fq_pcs s u") auto
    qed simp
    fix u c assume o': "owned (fq_pcs ?s u) = Some c"
    then have ou: "owned (fq_pcs s u) = Some c" and "u \<noteq> t" by (auto split: if_splits)
    then have "c \<noteq> old" using fq_okD(7) [OF ok ou, of t] ownt by auto
    then show "c < fq_alloc ?s" "c \<notin> fq_freed ?s" "c \<notin> set (xs @ fq_tail ?s # beyond s)"
      using fq_okD(6) [OF ok ou] by auto
    fix w assume "owned (fq_pcs ?s w) = Some c"
    then have "owned (fq_pcs s w) = Some c" by (auto split: if_splits)
    with ou show "u = w" by (rule fq_okD(7) [OF ok])
  next
    show "c \<notin> fq_freed ?s" if "c \<in> set (xs @ fq_tail ?s # beyond s)" for c
      using that o fq_okD(2) [OF ok, of c] by auto
  qed (use fq_okD(1,2,3,9,11) [OF ok] o in auto)
  then show ?thesis unfolding step by simp
qed

section \<open>Linearizability\<close>

lemma fq_empty_list: "fq_inv s \<Longrightarrow> fq_empty s = Some b \<Longrightarrow> b \<longleftrightarrow> fq_list s = []"
proof -
  assume "fq_inv s" and b: "fq_empty s = Some b"
  then obtain xs where ok: "fq_ok s xs" by (auto simp: fq_inv_def)
  note ch = fq_okD(1) [OF ok]
  have "fq_head s = fq_tail s \<longleftrightarrow> xs = []"
  proof (cases xs)
    case (Cons x ys)
    then have "x = fq_head s" using ch by simp
    moreover have "x \<noteq> fq_tail s" using chain_distinct [OF ch] Cons by auto
    ultimately show ?thesis using Cons by simp
  qed (use ch in simp)
  then show ?thesis using b by (auto simp: fq_empty_def fq_list_def fq_nodes_eq [OF ok] split: if_splits)
qed

lemma fq_list_same:
  assumes "fq_ok s xs" and "fq_ok s' xs" and "\<forall>c \<in> set xs. fq_data s' c = fq_data s c"
  shows "fq_list s' = fq_list s"
  using assms by (simp add: fq_list_def fq_nodes_eq)

lemma fq_step_sim:
  assumes "fq_inv s"
  shows "fq_inv (fq_step e s) \<and> (case fq_vis e s of None \<Rightarrow> fq_list (fq_step e s) = fq_list s
    | Some l \<Rightarrow> fifo_spec None l (fq_list s) = Some (fq_list (fq_step e s)))"
proof -
  obtain t call where e: "e = (t, call)" by (cases e)
  obtain xs where ok: "fq_ok s xs" using assms by (auto simp: fq_inv_def)
  show ?thesis
  proof (cases "quiet (fq_pcs s t) call")
    case True
    note q = fq_quiet_step [OF ok True]
    then have same: "fq_list (fq_step e s) = fq_list s" using fq_list_same [OF ok] by (simp add: e)
    moreover have "fifo_spec None l (fq_list s) = Some (fq_list s)" if "fq_vis e s = Some l" for l
    proof (cases "fq_pcs s t")
      case (FPopGet wait ref)
      then have l: "l = Deq None" and "fq_head s = fq_tail s"
        using that by (auto simp: e split: if_splits)
      then have "xs = []" by (cases rule: head_cases [OF ok]) auto
      then show ?thesis using l fq_nodes_eq [OF ok] by (simp add: fq_list_def)
    qed (use that True in \<open>auto simp: e split: if_splits\<close>)
    ultimately show ?thesis using q by (auto simp: e fq_inv_def split: option.splits)
  next
    case False
    then consider (call) x choice where "fq_pcs s t = FIdle" "call = FPush x choice"
      | (data) x p choice where "fq_pcs s t = FPushData x p choice"
      | (nxt) p choice where "fq_pcs s t = FPushNext p choice"
      | (tail) p choice where "fq_pcs s t = FPushTail p choice"
      | (unlink) v where "fq_pcs s t = FUnlink v"
      | (ret) old v where "fq_pcs s t = FReturn old v"
      by (cases "(fq_pcs s t, call)" rule: quiet.cases) auto
    then show ?thesis
    proof cases
      case call
      then show ?thesis using fq_push_call_step [OF ok call(1), of x choice]
          fq_list_same [OF ok, of "fq_step e s"] by (auto simp: e fq_inv_def)
    next
      case data
      then show ?thesis using fq_push_data_step [OF ok data, of call]
          fq_list_same [OF ok, of "fq_step e s"] by (auto simp: e fq_inv_def)
    next
      case nxt
      then show ?thesis using fq_push_next_step [OF ok nxt, of call]
          fq_list_same [OF ok, of "fq_step e s"] by (auto simp: e fq_inv_def)
    next
      case tail
      then show ?thesis using fq_push_tail_step [OF ok tail, of call] fq_nodes_eq [OF ok]
          fq_nodes_eq [of "fq_step e s"] by (auto simp: e fq_inv_def fq_list_def)
    next
      case unlink
      then show ?thesis
      proof (rule fq_unlink_step [OF ok, of t v call])
        fix x ys
        assume "xs = fq_head s # ys" "fq_data s (fq_head s) = Some x" "v = None \<or> v = Some x"
          "fq_ok (fq_step (t, call) s) ys" "fq_data (fq_step (t, call) s) = fq_data s"
        then show ?thesis using unlink fq_nodes_eq [OF ok] fq_nodes_eq [of "fq_step e s" ys]
          by (auto simp: e fq_inv_def fq_list_def)
      qed
    next
      case ret
      then show ?thesis using fq_return_step [OF ok ret, of call]
          fq_list_same [OF ok, of "fq_step e s"] by (auto simp: e fq_inv_def)
    qed
  qed
qed

interpretation fq: linearizable fq_step fq_inv fq_list fq_vis "fifo_spec None"
proof
  fix s :: "'a fqueue" and e l
  assume "fq_inv s"
  note sim = fq_step_sim [OF this, of e]
  then show "fq_inv (fq_step e s)" by simp
  show "fq_vis e s = None \<Longrightarrow> fq_list (fq_step e s) = fq_list s"
    and "fq_vis e s = Some l \<Longrightarrow> fifo_spec None l (fq_list s) = Some (fq_list (fq_step e s))"
    using sim by auto
qed

lemma fq_new_ok: "fq_ok fq_new []"
  by (simp add: fq_ok_def fq_new_def beyond_def)

section \<open>Properties\<close>

text \<open>(C10) For any number of threads and any interleaving of the single accesses of \<open>push\<close>,
  \<open>try_pop\<close> and \<open>wait_and_pop\<close> of \<open>threadsafe_queue_fine_grained\<close>: the values unlinked, in order, and
  then the values in the list are the values linked, in order (a \<open>try_pop\<close> finds nothing only
  when the queue is empty); no deleted node and no null pointer is used; and what a thread's calls have
  returned is what they unlinked, the call under way excepted.\<close>
theorem fine_queue_linearizable:
  fixes es :: "(nat \<times> 'a fq_call) list"
  defines "s \<equiv> run_sched fq_step es fq_new" and "as \<equiv> visible_trace fq_step fq_vis es fq_new"
  shows "spec_run (fifo_spec None) as [] = Some (fq_list s) \<and> enqueued as = dequeued as @ fq_list s
    \<and> \<not> fq_fault s
    \<and> (\<forall>t. \<exists>pending. fq_taken s t = fq_ret s t @ pending \<and> length pending \<le> 1
         \<and> (fq_pcs s t = FIdle \<longrightarrow> pending = []))"
proof -
  have init: "fq_inv (fq_new :: 'a fqueue)" using fq_new_ok by (auto simp: fq_inv_def)
  then have "fq_inv s" unfolding s_def by (rule fq.sched_keeps)
  then obtain xs where ok: "fq_ok s xs" by (auto simp: fq_inv_def)
  have run: "spec_run (fifo_spec None) as [] = Some (fq_list s)"
    using fq.trace_meets_spec [OF init, of es]
    by (simp add: s_def as_def fq_list_def fq_nodes_eq [OF fq_new_ok])
  have "\<exists>pending. fq_taken s t = fq_ret s t @ pending \<and> length pending \<le> 1
         \<and> (fq_pcs s t = FIdle \<longrightarrow> pending = [])" for t
    using fq_okD(10) [OF ok, of t]
    by (intro exI [of _ "case fq_pcs s t of FReturn old v \<Rightarrow> [the (fq_data s old)] | _ \<Rightarrow> []"])
      (auto split: fq_pc.splits)
  with run fifo_run_order [OF run] fq_okD(9) [OF ok] show ?thesis by simp
qed

theorem fine_queue_linearizable_witness:
  "\<not> fq_fault (run_sched fq_step (replicate 6 (0, FPush ''a'' 0) @ replicate 6 (1, FPop True False)) fq_new)"
  using fine_queue_linearizable [of "replicate 6 (0, FPush ''a'' 0) @ replicate 6 (1, FPop True False)"]
  by blast

text \<open>\<open>wait_and_pop\<close> of \<open>threadsafe_queue_fine_grained\<close> can miss its wake-up: \<open>push\<close> notifies
  without \<open>head_mutex\<close>, so a whole push may fall between the consumer's test and its going to sleep; the
  push has then returned, an element is stored, and the consumer sleeps with nobody left to
  wake it.\<close>
theorem fine_queue_lost_wakeup:
  "let s = run_sched fq_step ([(1, FPop True False), (1, FPop True False), (1, FPop True False)]
       @ replicate 6 (0, FPush x 0) @ [(1, FPop True False)]) fq_new
   in fq_list s = [x] \<and> fq_pcs s 0 = FIdle \<and> fq_pcs s 1 = FAsleep False \<and> fq_sleeping s = [1]
     \<and> fq_step (1, FPop True False) s = s"
  by (simp add: numeral_eq_Suc Let_def fq_step.simps fq_new_def fq_call_step_def fq_touch_def fq_test_def
      fq_notify_def fq_list_def fq_nodes_def)

end
