(* ===== verification/HandOverList.thy ===== *)
theory HandOverList
  imports Prelude
begin

text \<open>
  \<open>threadsafe_list\<close> (C++_ConcurrencyInAction/designLockBase/dataStructures.hpp): a singly linked list
  with one mutex per node, traversed hand over hand.

  Node 0 is the member \<open>head\<close>; the other nodes are allocated by \<open>push_front\<close>.  A step locks or
  unlocks one mutex, reads or writes a link, or calls the traversal's function on one
  element; the critical section of \<open>push_front\<close> is one step.  \<open>hl_fault\<close> records that a
  deleted node was used.  \<open>hl_out\<close> lists what each thread's calls of \<open>find_first_if\<close> returned.
\<close>

section \<open>State and steps\<close>

datatype 'a hl_op = Each "'a \<Rightarrow> 'a" | Find "'a \<Rightarrow> bool" | Remove "'a \<Rightarrow> bool"

datatype 'a hl_call = LPushFront 'a | LTraverse "'a hl_op"

datatype 'a hl_pc =
    LIdle
  | LPush nat 'a              \<comment> \<open>the new node, and the argument\<close>
  | LStart "'a hl_op"
  | LAt "'a hl_op" nat         \<comment> \<open>holds the mutex of \<open>current\<close>\<close>
  | LWant "'a hl_op" nat nat   \<comment> \<open>holds \<open>current\<close>, locks \<open>next\<close>\<close>
  | LBoth "'a hl_op" nat nat   \<comment> \<open>holds both\<close>
  | LOn "'a hl_op" nat         \<comment> \<open>holds \<open>next\<close> only, about to use its element\<close>
  | LDel "'a hl_op" nat nat    \<comment> \<open>has unlinked \<open>next\<close>, still holds both\<close>
  | LFree "'a hl_op" nat nat   \<comment> \<open>about to delete the unlinked node\<close>

record 'a hlist =
  hl_data :: "nat \<Rightarrow> 'a"
  hl_next :: "nat \<Rightarrow> nat option"
  hl_lock :: "nat \<Rightarrow> nat option"
  hl_alloc :: nat
  hl_freed :: "nat set"
  hl_fault :: bool
  hl_pcs :: "nat \<Rightarrow> 'a hl_pc"
  hl_out :: "nat \<Rightarrow> 'a option list"

definition hl_new :: "'a \<Rightarrow> 'a hlist" where
  "hl_new any = \<lparr>hl_data = (\<lambda>_. any), hl_next = (\<lambda>_. None), hl_lock = (\<lambda>_. None), hl_alloc = 1,
     hl_freed = {}, hl_fault = False, hl_pcs = (\<lambda>_. LIdle), hl_out = (\<lambda>_. [])\<rparr>"

abbreviation hgo :: "nat \<Rightarrow> 'a hl_pc \<Rightarrow> 'a hlist \<Rightarrow> 'a hlist" where
  "hgo t pc s \<equiv> s\<lparr>hl_pcs := (hl_pcs s)(t := pc)\<rparr>"

definition hl_touch :: "nat \<Rightarrow> 'a hlist \<Rightarrow> 'a hlist" where
  "hl_touch c s = s\<lparr>hl_fault := (hl_fault s \<or> c \<in> hl_freed s)\<rparr>"

definition hl_unlock :: "nat \<Rightarrow> 'a hlist \<Rightarrow> 'a hlist" where
  "hl_unlock c s = s\<lparr>hl_lock := (hl_lock s)(c := None)\<rparr>"

definition hl_acquire :: "nat \<Rightarrow> nat \<Rightarrow> 'a hlist \<Rightarrow> 'a hlist" where
  "hl_acquire t c s = s\<lparr>hl_lock := (hl_lock s)(c := Some t)\<rparr>"

text \<open>What the body of the loop does once it holds the next node's mutex.\<close>

definition hl_body :: "nat \<Rightarrow> 'a hl_op \<Rightarrow> nat \<Rightarrow> nat \<Rightarrow> 'a hlist \<Rightarrow> 'a hlist" where
  "hl_body t op cur n s =
     (case op of
        Remove p \<Rightarrow>
          if p (hl_data s n)
          then hgo t (LDel op cur n) (s\<lparr>hl_next := (hl_next s)(cur := hl_next s n, n := None)\<rparr>)
          else hgo t (LAt op n) (hl_unlock cur s)
      | _ \<Rightarrow> hgo t (LOn op n) (hl_unlock cur s))"

definition hl_use :: "nat \<Rightarrow> 'a hl_op \<Rightarrow> nat \<Rightarrow> 'a hlist \<Rightarrow> 'a hlist" where
  "hl_use t op n s =
     (case op of
        Each f \<Rightarrow> hgo t (LAt op n) (s\<lparr>hl_data := (hl_data s)(n := f (hl_data s n))\<rparr>)
      | Find p \<Rightarrow>
          if p (hl_data s n)
          then hgo t LIdle (hl_unlock n (s\<lparr>hl_out := (hl_out s)(t := hl_out s t @ [Some (hl_data s n)])\<rparr>))
          else hgo t (LAt op n) s
      | Remove p \<Rightarrow> s)"

definition hl_finish :: "nat \<Rightarrow> 'a hl_op \<Rightarrow> nat \<Rightarrow> 'a hlist \<Rightarrow> 'a hlist" where
  "hl_finish t op cur s =
     hgo t LIdle (hl_unlock cur
       (case op of Find p \<Rightarrow> s\<lparr>hl_out := (hl_out s)(t := hl_out s t @ [None])\<rparr> | _ \<Rightarrow> s))"

fun hl_step :: "nat \<times> 'a hl_call \<Rightarrow> 'a hlist \<Rightarrow> 'a hlist" where
  "hl_step (t, call) s =
     (case hl_pcs s t of
        LIdle \<Rightarrow>
          (case call of
             LPushFront value \<Rightarrow>
               (let n = hl_alloc s
                in hgo t (LPush n value) (s\<lparr>hl_alloc := Suc n, hl_data := (hl_data s)(n := value),
                     hl_next := (hl_next s)(n := None), hl_lock := (hl_lock s)(n := None)\<rparr>))
           | LTraverse op \<Rightarrow> hgo t (LStart op) s)
      | LPush n value \<Rightarrow>
          if hl_lock s 0 = None
          then hgo t LIdle (s\<lparr>hl_next := (hl_next s)(n := hl_next s 0, 0 := Some n)\<rparr>) else s
      | LStart op \<Rightarrow> if hl_lock s 0 = None then hgo t (LAt op 0) (hl_acquire t 0 s) else s
      | LAt op cur \<Rightarrow>
          (case hl_next s cur of
             None \<Rightarrow> hl_finish t op cur (hl_touch cur s)
           | Some n \<Rightarrow> hgo t (LWant op cur n) (hl_touch cur s))
      | LWant op cur n \<Rightarrow>
          if hl_lock s n = None then hgo t (LBoth op cur n) (hl_acquire t n (hl_touch n s)) else s
      | LBoth op cur n \<Rightarrow> hl_body t op cur n (hl_touch n (hl_touch cur s))
      | LOn op n \<Rightarrow> hl_use t op n (hl_touch n s)
      | LDel op cur n \<Rightarrow> hgo t (LFree op cur n) (hl_unlock n s)
      | LFree op cur n \<Rightarrow>
          hgo t (LAt op cur) ((hl_touch n s)\<lparr>hl_freed := insert n (hl_freed s)\<rparr>))"

declare hl_step.simps [simp del]

definition hl_nodes :: "'a hlist \<Rightarrow> nat list" where
  "hl_nodes s = tl (cells (hl_next s) (hl_alloc s) (Some 0))"

definition hl_list :: "'a hlist \<Rightarrow> 'a list" where
  "hl_list s = map (hl_data s) (hl_nodes s)"

section \<open>Invariant\<close>

fun holds :: "'a hl_pc \<Rightarrow> nat set" where
  "holds (LAt op cur) = {cur}"
| "holds (LWant op cur n) = {cur}"
| "holds (LBoth op cur n) = {cur, n}"
| "holds (LOn op n) = {n}"
| "holds (LDel op cur n) = {cur, n}"
| "holds (LFree op cur n) = {cur}"
| "holds _ = {}"

fun mine :: "'a hl_pc \<Rightarrow> nat option" where
  "mine (LPush n v) = Some n"
| "mine (LDel op cur n) = Some n"
| "mine (LFree op cur n) = Some n"
| "mine _ = None"

text \<open>The locked nodes that are still linked.\<close>

fun anchors :: "'a hl_pc \<Rightarrow> nat set" where
  "anchors (LDel op cur n) = {cur}"
| "anchors pc = holds pc"

fun hpc_ok :: "'a hlist \<Rightarrow> 'a hl_pc \<Rightarrow> bool" where
  "hpc_ok s (LWant op cur n) \<longleftrightarrow> hl_next s cur = Some n"
| "hpc_ok s (LBoth op cur n) \<longleftrightarrow> hl_next s cur = Some n"
| "hpc_ok s (LOn op n) \<longleftrightarrow> n \<noteq> 0 \<and> (\<forall>p. op \<noteq> Remove p)"
| "hpc_ok s (LPush n v) \<longleftrightarrow> n \<noteq> 0"
| "hpc_ok s (LDel op cur n) \<longleftrightarrow> (\<exists>p. op = Remove p)"
| "hpc_ok s (LFree op cur n) \<longleftrightarrow> (\<exists>p. op = Remove p)"
| "hpc_ok s _ \<longleftrightarrow> True"

definition hl_ok :: "'a hlist \<Rightarrow> nat list \<Rightarrow> bool" where
  "hl_ok s xs \<longleftrightarrow>
     chain (hl_next s) (Some 0) (0 # xs) None
   \<and> (\<forall>c \<in> set (0 # xs). c < hl_alloc s \<and> c \<notin> hl_freed s)
   \<and> (\<forall>c \<in> hl_freed s. c < hl_alloc s)
   \<and> (\<forall>t c. c \<in> holds (hl_pcs s t) \<longleftrightarrow> hl_lock s c = Some t)
   \<and> (\<forall>t. anchors (hl_pcs s t) \<subseteq> set (0 # xs))
   \<and> (\<forall>t c. mine (hl_pcs s t) = Some c \<longrightarrow> c < hl_alloc s \<and> c \<notin> hl_freed s \<and> c \<notin> set (0 # xs))
   \<and> (\<forall>t u c. mine (hl_pcs s t) = Some c \<longrightarrow> mine (hl_pcs s u) = Some c \<longrightarrow> t = u)
   \<and> (\<forall>t. hpc_ok s (hl_pcs s t))
   \<and> \<not> hl_fault s"

definition hl_inv :: "'a hlist \<Rightarrow> bool" where
  "hl_inv s \<longleftrightarrow> (\<exists>xs. hl_ok s xs)"

text \<open>A \<open>push_front\<close> that has not yet linked its node keeps there the value it was called with.\<close>

definition hl_values :: "'a hlist \<Rightarrow> bool" where
  "hl_values s \<longleftrightarrow> (\<forall>t n value. hl_pcs s t = LPush n value \<longrightarrow> hl_data s n = value)"

text \<open>What a step of a thread at \<open>pc\<close> does to the list \<open>l\<close>.\<close>

definition hl_effect :: "'a hlist \<Rightarrow> 'a hl_pc \<Rightarrow> 'a list \<Rightarrow> 'a list \<Rightarrow> bool" where
  "hl_effect s pc l l' \<longleftrightarrow>
     (case pc of
        LPush n value \<Rightarrow> l' = (if hl_lock s 0 = None then value # l else l)
      | LOn (Each f) n \<Rightarrow> (\<exists>i<length l. hl_nodes s ! i = n \<and> l' = l[i := f (l ! i)])
      | LBoth (Remove p) cur n \<Rightarrow>
          if p (hl_data s n) then \<exists>us vs. l = us @ hl_data s n # vs \<and> l' = us @ vs else l' = l
      | _ \<Rightarrow> l' = l)"

lemma hl_okD:
  assumes "hl_ok s xs"
  shows "chain (hl_next s) (Some 0) (0 # xs) None"
    and "c \<in> set (0 # xs) \<Longrightarrow> c < hl_alloc s \<and> c \<notin> hl_freed s"
    and "c \<in> hl_freed s \<Longrightarrow> c < hl_alloc s"
    and "c \<in> holds (hl_pcs s t) \<longleftrightarrow> hl_lock s c = Some t"
    and "anchors (hl_pcs s t) \<subseteq> set (0 # xs)"
    and "mine (hl_pcs s t) = Some c \<Longrightarrow> c < hl_alloc s \<and> c \<notin> hl_freed s \<and> c \<notin> set (0 # xs)"
    and "mine (hl_pcs s t) = Some c \<Longrightarrow> mine (hl_pcs s u) = Some c \<Longrightarrow> t = u"
    and "hpc_ok s (hl_pcs s t)"
    and "\<not> hl_fault s"
  using assms unfolding hl_ok_def by blast+

lemma hl_distinct: "hl_ok s xs \<Longrightarrow> distinct (0 # xs)"
  by (rule chain_distinct [OF hl_okD(1)])

lemma hl_nodes_eq:
  assumes "hl_ok s xs"
  shows "hl_nodes s = xs"
proof -
  have "set (0 # xs) \<subseteq> {..<hl_alloc s}" using hl_okD(2) [OF assms] by auto
  then have "card (set (0 # xs)) \<le> hl_alloc s" by (metis card_lessThan card_mono finite_lessThan)
  then have "length (0 # xs) \<le> hl_alloc s" using hl_distinct [OF assms] by (metis distinct_card)
  with hl_okD(1) [OF assms] have "cells (hl_next s) (hl_alloc s) (Some 0) = 0 # xs"
    by (rule cells_of_chain)
  then show ?thesis by (simp add: hl_nodes_def)
qed

lemma hl_touch_id: "hl_ok s xs \<Longrightarrow> c \<in> set (0 # xs) \<Longrightarrow> hl_touch c s = s"
  using hl_okD(2) [of s xs c] by (simp add: hl_touch_def)

text \<open>A link's successor is the next node of the chain.\<close>

lemma chain_succ:
  assumes "chain nxt p (us @ c # vs) None"
  shows "nxt c = (case vs of [] \<Rightarrow> None | d # _ \<Rightarrow> Some d)"
  using assms by (cases vs) auto

lemma chain_pred:
  assumes "chain nxt (Some a) (a # xs) None" and "nxt c = Some n" and "c \<in> set (a # xs)"
  obtains us vs where "a # xs = us @ c # n # vs"
proof -
  obtain us vs where sp: "a # xs = us @ c # vs" using split_list [OF assms(3)] by blast
  with chain_succ [of nxt "Some a" us c vs] assms show ?thesis
    by (cases vs) (auto intro: that)
qed

section \<open>The invariant is kept\<close>

lemma hpc_cong: "hl_next s' = hl_next s \<Longrightarrow> hpc_ok s' pc = hpc_ok s pc"
  by (cases pc) auto

text \<open>Transitions that change no link: only locks, elements and the program counter of \<open>t\<close>.\<close>

lemma hl_move:
  assumes ok: "hl_ok s xs" and pcs: "hl_pcs s' = (hl_pcs s)(t := pc)"
    and heap: "hl_next s' = hl_next s" "hl_alloc s' = hl_alloc s" "hl_freed s' = hl_freed s"
      "hl_fault s' = hl_fault s"
    and lock: "\<And>c. hl_lock s' c = (if c \<in> holds pc then Some t else if hl_lock s c = Some t then None else hl_lock s c)"
    and free: "\<And>c. c \<in> holds pc \<Longrightarrow> hl_lock s c = None \<or> hl_lock s c = Some t"
    and anch: "anchors pc \<subseteq> set (0 # xs)" and own: "mine pc = None \<or> mine pc = mine (hl_pcs s t)"
    and pc: "hpc_ok s pc"
  shows "hl_ok s' xs"
proof -
  have mine: "mine (hl_pcs s' u) = Some c \<Longrightarrow> mine (hl_pcs s u) = Some c" for u c
    using own by (auto simp: pcs split: if_splits)
  show ?thesis unfolding hl_ok_def heap hpc_cong [OF heap(1)]
  proof (intro conjI allI impI)
    show "(c \<in> holds (hl_pcs s' u)) = (hl_lock s' c = Some u)" for u c
      using hl_okD(4) [OF ok, of c u] free [of c] by (auto simp: pcs lock)
    show "anchors (hl_pcs s' u) \<subseteq> set (0 # xs)" for u
      using hl_okD(5) [OF ok, of u] anch by (simp add: pcs)
    show "hpc_ok s (hl_pcs s' u)" for u using hl_okD(8) [OF ok, of u] pc by (simp add: pcs)
  qed (use hl_okD [OF ok] mine in \<open>blast+\<close>)
qed

lemma hl_holder: "hl_ok s xs \<Longrightarrow> c \<in> holds (hl_pcs s t) \<Longrightarrow> c \<in> holds (hl_pcs s u) \<Longrightarrow> t = u"
  using hl_okD(4) [of s xs c t] hl_okD(4) [of s xs c u] by simp

lemma succ_in:
  assumes ok: "hl_ok s xs" and "hl_next s c = Some n" and "c \<in> set (0 # xs)"
  shows "n \<in> set xs" and "n \<noteq> 0" and "n \<noteq> c"
proof -
  obtain us vs where sp: "0 # xs = us @ c # n # vs"
    using chain_pred [OF hl_okD(1) [OF ok] assms(2,3)] .
  then show "n \<in> set xs" by (cases us) auto
  with hl_distinct [OF ok] show "n \<noteq> 0" by (cases "n = 0") auto
  from sp hl_distinct [OF ok] show "n \<noteq> c" by (metis distinct.simps(2) distinct_append list.set_intros(1))
qed

fun changes_links :: "'a hlist \<Rightarrow> 'a hl_pc \<Rightarrow> 'a hl_call \<Rightarrow> bool" where
  "changes_links s LIdle (LPushFront x) = True"
| "changes_links s (LPush n v) call = True"
| "changes_links s (LBoth (Remove p) cur n) call = p (hl_data s n)"
| "changes_links s (LFree op cur n) call = True"
| "changes_links s pc call = False"

lemma hl_quiet_step:
  assumes ok: "hl_ok s xs" and q: "\<not> changes_links s (hl_pcs s t) call"
  shows "hl_ok (hl_step (t, call) s) xs"
proof -
  note locks = hl_okD(4) [OF ok] and anch = hl_okD(5) [OF ok, of t] and pcok = hl_okD(8) [OF ok, of t]
  have mv: "hl_ok (hl_step (t, call) s) xs"
    if "hl_pcs (hl_step (t, call) s) = (hl_pcs s)(t := pc)" "hl_next (hl_step (t, call) s) = hl_next s"
      "hl_alloc (hl_step (t, call) s) = hl_alloc s" "hl_freed (hl_step (t, call) s) = hl_freed s"
      "hl_fault (hl_step (t, call) s) = hl_fault s"
      "\<And>c. hl_lock (hl_step (t, call) s) c = (if c \<in> holds pc then Some t else if c \<in> holds (hl_pcs s t) then None else hl_lock s c)"
      "\<And>c. c \<in> holds pc \<Longrightarrow> hl_lock s c = None \<or> c \<in> holds (hl_pcs s t)"
      "anchors pc \<subseteq> set (0 # xs)" "mine pc = None \<or> mine pc = mine (hl_pcs s t)" "hpc_ok s pc" for pc
    by (rule hl_move [OF ok that(1-5)]) (use that(6-10) locks in auto)
  show ?thesis
  proof (cases "hl_pcs s t")
    case LIdle
    then show ?thesis using q
      by (cases call; intro mv [of "hl_pcs (hl_step (t, call) s) t"]) (auto simp: hl_step.simps)
  next
    case (LStart op)
    then show ?thesis using ok
      by (cases "hl_lock s 0 = None"; intro mv [of "hl_pcs (hl_step (t, call) s) t"]) (auto simp: hl_step.simps hl_acquire_def)
  next
    case (LAt op cur)
    then have "hl_touch cur s = s" using anch hl_touch_id [OF ok, of cur] by simp
    then show ?thesis using LAt anch locks [of cur t]
      by (intro mv [of "hl_pcs (hl_step (t, call) s) t"])
        (auto simp: hl_step.simps hl_finish_def hl_unlock_def split: option.splits hl_op.splits)
  next
    case (LWant op cur n)
    then have n: "n \<in> set xs" using succ_in [OF ok, of cur n] pcok anch by auto
    then have "hl_touch n s = s" using hl_touch_id [OF ok, of n] by simp
    then show ?thesis using LWant n anch pcok ok locks [of cur t]
      by (cases "hl_lock s n = None"; intro mv [of "hl_pcs (hl_step (t, call) s) t"]) (auto simp: hl_step.simps hl_acquire_def)
  next
    case (LBoth op cur n)
    then have n: "n \<in> set xs" "n \<noteq> cur" "n \<noteq> 0" using succ_in [OF ok, of cur n] pcok anch by auto
    then have "hl_touch n s = s" "hl_touch cur s = s" using hl_touch_id [OF ok] LBoth anch by auto
    then show ?thesis using LBoth n anch q locks [of cur t] locks [of n t]
      by (intro mv [of "hl_pcs (hl_step (t, call) s) t"]; cases op)
        (auto simp: hl_step.simps hl_body_def hl_unlock_def)
  next
    case (LOn op n)
    then have "hl_touch n s = s" using anch hl_touch_id [OF ok, of n] by simp
    then show ?thesis using LOn anch pcok locks [of n t]
      by (intro mv [of "hl_pcs (hl_step (t, call) s) t"]; cases op)
        (auto simp: hl_step.simps hl_use_def hl_unlock_def split: if_splits)
  next
    case (LDel op cur n)
    have "n \<noteq> cur" using hl_okD(6) [OF ok, of t n] anch LDel by auto
    then show ?thesis using LDel anch pcok locks [of n t] locks [of cur t]
      by (intro mv [of "LFree op cur n"]) (auto simp: hl_step.simps hl_unlock_def)
  qed (use q in auto)
qed

lemma hl_insert_node:
  assumes "chain nxt (Some 0) (0 # xs) None" and "n \<notin> set (0 # xs)" and "0 \<notin> set xs"
  shows "chain (nxt(n := nxt 0, 0 := Some n)) (Some 0) (0 # n # xs) None"
proof -
  have "chain (nxt(n := nxt 0, 0 := Some n)) (nxt 0) xs None = chain nxt (nxt 0) xs None"
    by (rule chain_frame) (use assms in auto)
  with assms show ?thesis by auto
qed

lemma hl_remove_node:
  assumes chain: "chain nxt p (us @ cur # n # vs) None"
  shows "chain (nxt(cur := nxt n, n := None)) p (us @ cur # vs) None"
proof -
  have dist: "distinct (us @ cur # n # vs)" by (rule chain_distinct [OF chain])
  have "chain (nxt(cur := nxt n, n := None)) q us m = chain nxt q us m" for q m
    by (rule chain_frame) (use dist in auto)
  moreover have "chain (nxt(cur := nxt n, n := None)) q vs m = chain nxt q vs m" for q m
    by (rule chain_frame) (use dist in auto)
  ultimately show ?thesis using chain dist by auto
qed

lemma hl_alloc_step:
  assumes ok: "hl_ok s xs" and pc: "hl_pcs s t = LIdle"
  shows "hl_ok (hl_step (t, LPushFront x) s) xs
    \<and> (\<forall>c \<in> set xs. hl_data (hl_step (t, LPushFront x) s) c = hl_data s c)"
proof -
  define n where "n = hl_alloc s"
  let ?s = "hl_step (t, LPushFront x) s"
  have new: "n \<notin> set (0 # xs)" "n \<notin> hl_freed s" "n \<noteq> 0" "\<And>u. mine (hl_pcs s u) \<noteq> Some n"
    using hl_okD(2) [OF ok, of n] hl_okD(2) [OF ok, of 0] hl_okD(3,6) [OF ok] by (auto simp: n_def)
  have flds: "hl_alloc ?s = Suc n" "hl_data ?s = (hl_data s)(n := x)" "hl_next ?s = (hl_next s)(n := None)"
    "hl_lock ?s = (hl_lock s)(n := None)" "hl_pcs ?s = (hl_pcs s)(t := LPush n x)" "hl_freed ?s = hl_freed s"
    "hl_fault ?s = hl_fault s"
    using pc by (simp_all add: hl_step.simps n_def Let_def)
  have hold: "n \<notin> holds (hl_pcs s u)" for u
    using hl_okD(5) [OF ok, of u] new(1) new(4) [of u] by (cases "hl_pcs s u") auto
  have "hl_ok ?s xs"
    unfolding hl_ok_def flds
  proof (intro conjI allI impI ballI)
    show "chain ((hl_next s)(n := None)) (Some 0) (0 # xs) None"
      using hl_okD(1) [OF ok] new by (auto simp: chain_upd)
    show "(c \<in> holds (((hl_pcs s)(t := LPush n x)) u)) = (((hl_lock s)(n := None)) c = Some u)" for u c
      using hl_okD(4) [OF ok, of c u] hold [of u] pc by auto
    show "anchors (((hl_pcs s)(t := LPush n x)) u) \<subseteq> set (0 # xs)" for u
      using hl_okD(5) [OF ok, of u] by auto
    show "hpc_ok ?s (((hl_pcs s)(t := LPush n x)) u)" for u
    proof (cases "u = t")
      case False
      have "hpc_ok ?s (hl_pcs s u)" using hl_okD(8) [OF ok, of u] hold [of u]
        by (cases "hl_pcs s u") (auto simp: flds)
      with False show ?thesis by simp
    qed (use new in simp)
    show "c < Suc n" if "c \<in> set (0 # xs)" for c using hl_okD(2) [OF ok that] by (simp add: n_def)
    show "c \<notin> hl_freed s" if "c \<in> set (0 # xs)" for c using hl_okD(2) [OF ok that] by simp
    show "c < Suc n" if "c \<in> hl_freed s" for c using hl_okD(3) [OF ok that] by (simp add: n_def)
    show "\<not> hl_fault s" by (rule hl_okD(9) [OF ok])
    fix u c assume o: "mine (((hl_pcs s)(t := LPush n x)) u) = Some c"
    show "c < Suc n" "c \<notin> hl_freed s" "c \<notin> set (0 # xs)"
      using o new hl_okD(6) [OF ok, of u c] by (auto simp: n_def split: if_splits)
    fix v assume "mine (((hl_pcs s)(t := LPush n x)) v) = Some c"
    with o new(4) show "u = v" using hl_okD(7) [OF ok, of u c v] by (auto split: if_splits)
  qed
  with new show ?thesis by (auto simp: flds)
qed

lemma hl_push_step:
  assumes ok: "hl_ok s xs" and pc: "hl_pcs s t = LPush n v" and free: "hl_lock s 0 = None"
  shows "hl_ok (hl_step (t, call) s) (n # xs) \<and> hl_data (hl_step (t, call) s) = hl_data s"
proof -
  let ?s = "hl_step (t, call) s" and ?nxt = "(hl_next s)(n := hl_next s 0, 0 := Some n)"
  have flds: "hl_next ?s = ?nxt" "hl_pcs ?s = (hl_pcs s)(t := LIdle)" "hl_lock ?s = hl_lock s"
    "hl_alloc ?s = hl_alloc s" "hl_freed ?s = hl_freed s" "hl_fault ?s = hl_fault s" "hl_data ?s = hl_data s"
    using pc free by (simp_all add: hl_step.simps)
  have ownt: "mine (hl_pcs s t) = Some n" using pc by simp
  note n = hl_okD(6) [OF ok ownt]
  have hold0: "0 \<notin> holds (hl_pcs s u)" for u using hl_okD(4) [OF ok, of 0 u] free by simp
  have holdn: "n \<notin> holds (hl_pcs s u)" for u
  proof
    assume h: "n \<in> holds (hl_pcs s u)"
    have "n \<notin> anchors (hl_pcs s u)" using hl_okD(5) [OF ok, of u] n by auto
    then have "mine (hl_pcs s u) = Some n" using h by (cases "hl_pcs s u") auto
    then have "u = t" using hl_okD(7) [OF ok _ ownt] by simp
    with h pc show False by simp
  qed
  have "hl_ok ?s (n # xs)"
    unfolding hl_ok_def flds
  proof (intro conjI allI impI ballI)
    show "chain ?nxt (Some 0) (0 # n # xs) None"
      by (rule hl_insert_node [OF hl_okD(1) [OF ok]]) (use n hl_distinct [OF ok] in auto)
    show "(c \<in> holds (((hl_pcs s)(t := LIdle)) u)) = (hl_lock s c = Some u)" for u c
      using hl_okD(4) [OF ok, of c u] pc by auto
    show "anchors (((hl_pcs s)(t := LIdle)) u) \<subseteq> set (0 # n # xs)" for u
      using hl_okD(5) [OF ok, of u] by auto
    show "hpc_ok ?s (((hl_pcs s)(t := LIdle)) u)" for u
    proof (cases "u = t")
      case False
      have "hpc_ok ?s (hl_pcs s u)" using hl_okD(8) [OF ok, of u] hold0 [of u] holdn [of u]
        by (cases "hl_pcs s u") (auto simp: flds)
      with False show ?thesis by simp
    qed simp
    fix u c assume "mine (((hl_pcs s)(t := LIdle)) u) = Some c"
    then have o: "mine (hl_pcs s u) = Some c" and "u \<noteq> t" by (auto split: if_splits)
    then have "c \<noteq> n" using hl_okD(7) [OF ok o, of t] ownt by auto
    then show "c < hl_alloc s" "c \<notin> hl_freed s" "c \<notin> set (0 # n # xs)"
      using hl_okD(6) [OF ok o] by auto
    fix v assume "mine (((hl_pcs s)(t := LIdle)) v) = Some c"
    then have "mine (hl_pcs s v) = Some c" by (auto split: if_splits)
    with o show "u = v" by (rule hl_okD(7) [OF ok])
  qed (use hl_okD(2,3,9) [OF ok] n in auto)
  then show ?thesis by (simp add: flds)
qed

lemma hl_unlink_step:
  assumes ok: "hl_ok s xs" and pc: "hl_pcs s t = LBoth (Remove p) cur n" and hit: "p (hl_data s n)"
  obtains us vs where "xs = us @ n # vs" "hl_ok (hl_step (t, call) s) (us @ vs)"
    "hl_data (hl_step (t, call) s) = hl_data s"
proof -
  let ?s = "hl_step (t, call) s" and ?nxt = "(hl_next s)(cur := hl_next s n, n := None)"
  have nx: "hl_next s cur = Some n" using hl_okD(8) [OF ok, of t] pc by simp
  have cur: "cur \<in> set (0 # xs)" using hl_okD(5) [OF ok, of t] pc by simp
  note succ = succ_in [OF ok nx cur]
  obtain us vs where sp: "0 # xs = us @ cur # n # vs"
    using chain_pred [OF hl_okD(1) [OF ok] nx cur] .
  define ws where "ws = tl (us @ [cur])"
  have xs: "xs = ws @ n # vs" and ch: "0 # ws @ vs = us @ cur # vs"
    using sp by (cases us; auto simp: ws_def)+
  have touch: "hl_touch cur s = s" "hl_touch n s = s"
    using hl_touch_id [OF ok] cur succ by auto
  have flds: "hl_next ?s = ?nxt" "hl_pcs ?s = (hl_pcs s)(t := LDel (Remove p) cur n)" "hl_lock ?s = hl_lock s"
    "hl_alloc ?s = hl_alloc s" "hl_freed ?s = hl_freed s" "hl_fault ?s = hl_fault s" "hl_data ?s = hl_data s"
    using pc hit touch by (simp_all add: hl_step.simps hl_body_def)
  have other: "n \<notin> holds (hl_pcs s u) \<and> cur \<notin> holds (hl_pcs s u)" if "u \<noteq> t" for u
    using hl_holder [OF ok, of n u t] hl_holder [OF ok, of cur u t] pc that by auto
  have dist: "n \<notin> set (0 # ws @ vs)" using hl_distinct [OF ok] xs by auto
  have own: "mine (hl_pcs s u) \<noteq> Some n" for u using hl_okD(6) [OF ok, of u n] xs by auto
  have "hl_ok ?s (ws @ vs)"
    unfolding hl_ok_def flds
  proof (intro conjI allI impI ballI)
    show "chain ?nxt (Some 0) (0 # ws @ vs) None"
      unfolding ch by (rule hl_remove_node) (use hl_okD(1) [OF ok] sp in simp)
    show "(c \<in> holds (((hl_pcs s)(t := LDel (Remove p) cur n)) u)) = (hl_lock s c = Some u)" for u c
      using hl_okD(4) [OF ok, of c u] pc by auto
    show "anchors (((hl_pcs s)(t := LDel (Remove p) cur n)) u) \<subseteq> set (0 # ws @ vs)" for u
    proof (cases "u = t")
      case True
      then show ?thesis using ch by (metis (no_types, lifting) Un_iff anchors.simps(1) empty_subsetI
        fun_upd_same insert_subset list.set_intros(1) set_append)
    next
      case False
      have "anchors (hl_pcs s u) \<subseteq> set (0 # xs) - {n}"
        using hl_okD(5) [OF ok, of u] other [OF False] by (cases "hl_pcs s u") auto
      with False xs show ?thesis by auto
    qed
    show "hpc_ok ?s (((hl_pcs s)(t := LDel (Remove p) cur n)) u)" for u
    proof (cases "u = t")
      case False
      have "hpc_ok ?s (hl_pcs s u)" using hl_okD(8) [OF ok, of u] other [OF False]
        by (cases "hl_pcs s u") (auto simp: flds)
      with False show ?thesis by simp
    qed simp
    fix u c assume o: "mine (((hl_pcs s)(t := LDel (Remove p) cur n)) u) = Some c"
    show "c < hl_alloc s" "c \<notin> hl_freed s" "c \<notin> set (0 # ws @ vs)"
      using o hl_okD(6) [OF ok, of u c] hl_okD(2) [OF ok, of n] xs dist by (auto split: if_splits)
    fix v assume "mine (((hl_pcs s)(t := LDel (Remove p) cur n)) v) = Some c"
    with o own show "u = v" using hl_okD(7) [OF ok, of u c v] by (auto split: if_splits)
  qed (use hl_okD(2,3,9) [OF ok] xs in auto)
  then show ?thesis using that [of ws vs] xs by (simp add: flds)
qed

lemma hl_free_step:
  assumes ok: "hl_ok s xs" and pc: "hl_pcs s t = LFree op cur n"
  shows "hl_ok (hl_step (t, call) s) xs \<and> hl_data (hl_step (t, call) s) = hl_data s"
proof -
  let ?s = "hl_step (t, call) s"
  have ownt: "mine (hl_pcs s t) = Some n" using pc by simp
  note n = hl_okD(6) [OF ok ownt]
  then have "hl_touch n s = s" using hl_okD(9) [OF ok] by (simp add: hl_touch_def)
  then have flds: "hl_next ?s = hl_next s" "hl_pcs ?s = (hl_pcs s)(t := LAt op cur)" "hl_lock ?s = hl_lock s"
    "hl_alloc ?s = hl_alloc s" "hl_freed ?s = insert n (hl_freed s)" "hl_fault ?s = hl_fault s" "hl_data ?s = hl_data s"
    using pc by (simp_all add: hl_step.simps)
  have "hl_ok ?s xs"
    unfolding hl_ok_def flds hpc_cong [OF flds(1)]
  proof (intro conjI allI impI ballI)
    show "(c \<in> holds (((hl_pcs s)(t := LAt op cur)) u)) = (hl_lock s c = Some u)" for u c
      using hl_okD(4) [OF ok, of c u] pc by auto
    show "anchors (((hl_pcs s)(t := LAt op cur)) u) \<subseteq> set (0 # xs)" for u
      using hl_okD(5) [OF ok, of u] pc by auto
    show "hpc_ok s (((hl_pcs s)(t := LAt op cur)) u)" for u
      using hl_okD(8) [OF ok, of u] by simp
    show "c \<notin> insert n (hl_freed s)" if "c \<in> set (0 # xs)" for c
      using that n hl_okD(2) [OF ok that] by auto
    fix u c assume "mine (((hl_pcs s)(t := LAt op cur)) u) = Some c"
    then have o: "mine (hl_pcs s u) = Some c" and "u \<noteq> t" by (auto split: if_splits)
    then have "c \<noteq> n" using hl_okD(7) [OF ok o, of t] ownt by auto
    then show "c < hl_alloc s" "c \<notin> insert n (hl_freed s)" "c \<notin> set (0 # xs)"
      using hl_okD(6) [OF ok o] by auto
    fix v assume "mine (((hl_pcs s)(t := LAt op cur)) v) = Some c"
    then have "mine (hl_pcs s v) = Some c" by (auto split: if_splits)
    with o show "u = v" by (rule hl_okD(7) [OF ok])
  qed (use hl_okD(1,2,3,9) [OF ok] n in auto)
  then show ?thesis by (simp add: flds)
qed

lemma hl_quiet_data:
  assumes "hl_ok s xs" and "\<not> changes_links s (hl_pcs s t) call"
  shows "(\<exists>f n. hl_pcs s t = LOn (Each f) n \<and> n \<in> set xs \<and> hl_data (hl_step (t, call) s) = (hl_data s)(n := f (hl_data s n)))
    \<or> (\<forall>f n. hl_pcs s t \<noteq> LOn (Each f) n) \<and> hl_data (hl_step (t, call) s) = hl_data s"
  using assms hl_okD(5,8) [OF assms(1), of t]
  by (cases "hl_pcs s t")
    (auto simp: hl_step.simps hl_finish_def hl_body_def hl_use_def hl_unlock_def hl_acquire_def hl_touch_def
      split: hl_call.splits hl_op.splits option.splits)

lemma hl_list_eq: "hl_ok s xs \<Longrightarrow> hl_list s = map (hl_data s) xs"
  by (simp add: hl_list_def hl_nodes_eq)

lemma hl_step_effect:
  assumes inv: "hl_inv s" and vals: "hl_values s"
  shows "hl_inv (hl_step (t, call) s) \<and> hl_effect s (hl_pcs s t) (hl_list s) (hl_list (hl_step (t, call) s))"
proof -
  obtain xs where ok: "hl_ok s xs" using inv by (auto simp: hl_inv_def)
  note list = hl_list_eq and nodes = hl_nodes_eq [OF ok]
  show ?thesis
  proof (cases "changes_links s (hl_pcs s t) call")
    case False
    note ok' = hl_quiet_step [OF ok False]
    from hl_quiet_data [OF ok False] show ?thesis
    proof (elim disjE exE conjE)
      assume "\<forall>f n. hl_pcs s t \<noteq> LOn (Each f) n" "hl_data (hl_step (t, call) s) = hl_data s"
      then show ?thesis using ok' False
        by (auto simp: hl_inv_def hl_effect_def list [OF ok] list [OF ok'] split: hl_pc.splits hl_op.splits)
    next
      fix f n
      assume n: "hl_pcs s t = LOn (Each f) n" "n \<in> set xs"
        "hl_data (hl_step (t, call) s) = (hl_data s)(n := f (hl_data s n))"
      then obtain i where i: "i < length xs" "xs ! i = n" by (auto simp: in_set_conv_nth)
      have "distinct xs" using hl_distinct [OF ok] by simp
      then have "map ((hl_data s)(n := f (hl_data s n))) xs = (map (hl_data s) xs)[i := f (hl_data s n)]"
        using i by (auto simp: list_eq_iff_nth_eq nth_list_update nth_eq_iff_index_eq)
      then show ?thesis using ok' n i
        by (auto simp: hl_inv_def hl_effect_def list [OF ok] list [OF ok'] nodes intro!: exI [of _ i])
    qed
  next
    case True
    then consider (alloc) x where "hl_pcs s t = LIdle" "call = LPushFront x"
      | (push) n v where "hl_pcs s t = LPush n v"
      | (unlink) p cur n where "hl_pcs s t = LBoth (Remove p) cur n" "p (hl_data s n)"
      | (free) op cur n where "hl_pcs s t = LFree op cur n"
      by (cases "(s, hl_pcs s t, call)" rule: changes_links.cases) auto
    then show ?thesis
    proof cases
      case alloc
      note ok' = hl_alloc_step [OF ok alloc(1), of x, THEN conjunct1]
      show ?thesis using hl_alloc_step [OF ok alloc(1), of x] alloc
        by (auto simp: hl_inv_def hl_effect_def list [OF ok] list [OF ok'])
    next
      case push
      then have v: "hl_data s n = v" using vals by (auto simp: hl_values_def)
      show ?thesis
      proof (cases "hl_lock s 0 = None")
        case True
        note ok' = hl_push_step [OF ok push True, of call, THEN conjunct1]
        show ?thesis using hl_push_step [OF ok push True, of call] push True v
          by (auto simp: hl_inv_def hl_effect_def list [OF ok] list [OF ok'])
      next
        case False
        then have "hl_step (t, call) s = s" using push by (auto simp: hl_step.simps)
        then show ?thesis using inv push False by (simp add: hl_effect_def)
      qed
    next
      case unlink
      then obtain us vs where u: "xs = us @ n # vs" "hl_ok (hl_step (t, call) s) (us @ vs)"
          "hl_data (hl_step (t, call) s) = hl_data s"
        by (rule hl_unlink_step [OF ok])
      moreover have "hl_list s = map (hl_data s) us @ hl_data s n # map (hl_data s) vs"
        and "hl_list (hl_step (t, call) s) = map (hl_data s) us @ map (hl_data s) vs"
        using u by (simp_all add: list [OF ok] list [OF u(2)])
      ultimately show ?thesis using unlink unfolding hl_effect_def hl_inv_def by auto
    next
      case free
      note ok' = hl_free_step [OF ok free, of call, THEN conjunct1]
      show ?thesis using hl_free_step [OF ok free, of call] free
        by (auto simp: hl_inv_def hl_effect_def list [OF ok] list [OF ok'])
    qed
  qed
qed

text \<open>No other thread writes to the node of a pending \<open>push_front\<close>.\<close>

lemma hl_values_step:
  assumes inv: "hl_inv s" and vals: "hl_values s"
  shows "hl_values (hl_step (t, call) s)"
proof -
  let ?s = "hl_step (t, call) s"
  obtain xs where ok: "hl_ok s xs" using inv by (auto simp: hl_inv_def)
  have other: "hl_pcs ?s u = hl_pcs s u" if "u \<noteq> t" for u
    using that by (auto simp: hl_step.simps hl_finish_def hl_body_def hl_use_def hl_unlock_def hl_acquire_def
      hl_touch_def Let_def split: hl_pc.splits hl_call.splits hl_op.splits option.splits)
  have own: "\<exists>value. hl_pcs s t = LIdle \<and> call = LPushFront value \<and> n = hl_alloc s \<and> v = value \<or> hl_pcs s t = LPush n v \<and> hl_data ?s = hl_data s"
    if "hl_pcs ?s t = LPush n v" for n v
    using that by (auto simp: hl_step.simps hl_finish_def hl_body_def hl_use_def hl_unlock_def hl_acquire_def
      hl_touch_def Let_def split: hl_pc.splits hl_call.splits hl_op.splits option.splits if_splits)
  have data: "hl_data ?s n = hl_data s n" if "hl_pcs s u = LPush n v" for u n v
  proof -
    have n: "n < hl_alloc s" "n \<notin> set xs" using hl_okD(6) [OF ok, of u n] that by auto
    have "m \<in> set xs" if "hl_pcs s t = LOn op m" for op m
      using hl_okD(5,8) [OF ok, of t] that by auto
    with n show ?thesis
      by (auto simp: hl_step.simps hl_finish_def hl_body_def hl_use_def hl_unlock_def hl_acquire_def
        hl_touch_def Let_def split: hl_pc.splits hl_call.splits hl_op.splits option.splits)
  qed
  have "hl_data ?s n = v" if pc: "hl_pcs ?s u = LPush n v" for u n v
  proof (cases "u = t")
    case True
    then show ?thesis using own [of n v] pc vals by (auto simp: hl_values_def hl_step.simps Let_def)
  next
    case False
    then have "hl_pcs s u = LPush n v" using pc other by simp
    then show ?thesis using data vals by (auto simp: hl_values_def)
  qed
  then show ?thesis by (simp add: hl_values_def)
qed

definition hl_all :: "'a hlist \<Rightarrow> bool" where
  "hl_all s \<longleftrightarrow> hl_inv s \<and> hl_values s"

interpretation hl: interleaving hl_step hl_all
  by unfold_locales (auto simp: hl_all_def hl_step_effect hl_values_step)

lemma hl_new_all: "hl_all (hl_new any)"
proof -
  have "hl_inv (hl_new any)" unfolding hl_inv_def by (rule exI [of _ "[]"]) (auto simp: hl_ok_def hl_new_def)
  then show ?thesis by (simp add: hl_all_def hl_values_def hl_new_def)
qed

lemma hl_reachable_inv: "hl_inv (run_sched hl_step es (hl_new any))"
  by (rule hl.sched_keeps [OF hl_new_all, unfolded hl_all_def, THEN conjunct1])

section \<open>Progress\<close>

definition can_step :: "'a hlist \<Rightarrow> nat \<Rightarrow> bool" where
  "can_step s t \<longleftrightarrow> hl_pcs s t \<noteq> LIdle \<and> (\<forall>call. hl_pcs (hl_step (t, call) s) t \<noteq> hl_pcs s t)"

fun waiting :: "'a hl_pc \<Rightarrow> bool" where
  "waiting LIdle = True"
| "waiting (LPush n v) = True"
| "waiting (LStart op) = True"
| "waiting (LWant op cur n) = True"
| "waiting _ = False"

lemma not_waiting_steps:
  assumes ok: "hl_ok s xs" and w: "\<not> waiting (hl_pcs s t)"
  shows "can_step s t"
proof (cases "hl_pcs s t")
  case (LAt op cur)
  then show ?thesis
    by (cases "hl_next s cur")
      (simp_all add: can_step_def hl_step.simps hl_finish_def hl_unlock_def hl_touch_def)
next
  case (LBoth op cur n)
  then show ?thesis
    by (cases op) (simp_all add: can_step_def hl_step.simps hl_body_def hl_unlock_def hl_touch_def)
next
  case (LOn op n)
  then show ?thesis using hl_okD(8) [OF ok, of t]
    by (cases op) (simp_all add: can_step_def hl_step.simps hl_use_def hl_unlock_def hl_touch_def)
qed (use w in \<open>simp_all add: can_step_def hl_step.simps hl_unlock_def hl_touch_def\<close>)

lemma wanting_steps:
  assumes ok: "hl_ok s xs"
  shows "hl_pcs s t = LWant op cur n \<Longrightarrow> 0 # xs = us @ cur # vs \<Longrightarrow> \<exists>u. can_step s u"
proof (induction vs arbitrary: t op cur n us)
  case Nil
  have "chain (hl_next s) (Some 0) (us @ cur # []) None"
    unfolding Nil(2) [symmetric] by (rule hl_okD(1) [OF ok])
  from chain_succ [OF this] have "hl_next s cur = None" by simp
  moreover have "hl_next s cur = Some n" using hl_okD(8) [OF ok, of t] Nil(1) by simp
  ultimately show ?case by simp
next
  case (Cons d vs)
  have nx: "hl_next s cur = Some n" using hl_okD(8) [OF ok, of t] Cons.prems(1) by simp
  have "chain (hl_next s) (Some 0) (us @ cur # d # vs) None"
    unfolding Cons.prems(2) [symmetric] by (rule hl_okD(1) [OF ok])
  from chain_succ [OF this] nx have d: "d = n" by simp
  show ?case
  proof (cases "hl_lock s n")
    case None
    then have "can_step s t" using Cons.prems(1)
      by (simp add: can_step_def hl_step.simps hl_acquire_def hl_touch_def)
    then show ?thesis ..
  next
    case (Some u)
    then have h: "n \<in> holds (hl_pcs s u)" using hl_okD(4) [OF ok, of n u] by simp
    show ?thesis
    proof (cases "waiting (hl_pcs s u)")
      case True
      with h obtain op' m where "hl_pcs s u = LWant op' n m" by (cases "hl_pcs s u") auto
      then show ?thesis using Cons.IH [of u op' n m "us @ [cur]"] Cons.prems(2) unfolding d by simp
    next
      case False
      with not_waiting_steps [OF ok] show ?thesis by blast
    qed
  qed
qed

lemma hl_progress:
  assumes ok: "hl_ok s xs" and busy: "hl_pcs s t \<noteq> LIdle"
  shows "\<exists>u. can_step s u"
proof (cases "\<exists>u. \<not> waiting (hl_pcs s u)")
  case True
  with not_waiting_steps [OF ok] show ?thesis by blast
next
  case w: False
  show ?thesis
  proof (cases "\<exists>u op cur n. hl_pcs s u = LWant op cur n")
    case True
    then obtain u op cur n where pc: "hl_pcs s u = LWant op cur n" by blast
    then have "cur \<in> set (0 # xs)" using hl_okD(5) [OF ok, of u] by simp
    then obtain us vs where "0 # xs = us @ cur # vs" by (auto dest: split_list simp del: set_simps)
    with pc wanting_steps [OF ok] show ?thesis by blast
  next
    case False
    have "holds (hl_pcs s u) = {}" for u
    proof -
      have "waiting (hl_pcs s u)" using w by blast
      moreover have "hl_pcs s u \<noteq> LWant op cur n" for op cur n using False by blast
      ultimately show ?thesis by (cases "hl_pcs s u") auto
    qed
    then have "hl_lock s 0 = None" using hl_okD(4) [OF ok, of 0] by (cases "hl_lock s 0") auto
    moreover have "waiting (hl_pcs s t)" using w by blast
    ultimately have "can_step s t" using False busy
      by (cases "hl_pcs s t") (auto simp: can_step_def hl_step.simps hl_acquire_def)
    then show ?thesis ..
  qed
qed

section \<open>A traversal that runs alone\<close>

definition at_node :: "'a hlist \<Rightarrow> nat \<Rightarrow> 'a hl_op \<Rightarrow> nat list \<Rightarrow> nat \<Rightarrow> nat list \<Rightarrow> bool" where
  "at_node s t op us cur vs \<longleftrightarrow> (\<exists>xs. hl_ok s xs \<and> 0 # xs = us @ cur # vs)
     \<and> hl_pcs s t = LAt op cur \<and> (\<forall>c. c \<noteq> cur \<longrightarrow> hl_lock s c = None)"

abbreviation alone :: "nat \<Rightarrow> nat \<Rightarrow> 'a hlist \<Rightarrow> 'a hlist" where
  "alone t k s \<equiv> run_sched hl_step (replicate k (t, LTraverse (Remove (\<lambda>_. False)))) s"

text \<open>Once the next node is locked (two steps), the loop's body is decided by the predicate.\<close>

lemma at_node_lock:
  fixes c :: "'a hl_call"
  assumes ok: "hl_ok s xs" and sp: "0 # xs = us @ cur # n # vs" and pc: "hl_pcs s t = LAt op cur"
    and free: "\<And>c. c \<noteq> cur \<Longrightarrow> hl_lock s c = None"
  defines "s2 \<equiv> hl_step (t, c) (hl_step (t, c) s)"
  shows "s2 = s\<lparr>hl_pcs := (hl_pcs s)(t := LBoth op cur n), hl_lock := (hl_lock s)(n := Some t)\<rparr>"
    and "hl_ok s2 xs" and "n \<noteq> cur"
    and "\<not> hl_fault s" and "cur \<notin> hl_freed s" and "n \<notin> hl_freed s"
proof -
  have mem: "cur \<in> set (0 # xs)" "n \<in> set (0 # xs)" unfolding sp by simp_all
  then show nf: "cur \<notin> hl_freed s" "n \<notin> hl_freed s" and nf': "\<not> hl_fault s"
    using hl_okD(2,9) [OF ok] by blast+
  have "chain (hl_next s) (Some 0) (us @ cur # n # vs) None"
    unfolding sp [symmetric] by (rule hl_okD(1) [OF ok])
  from chain_succ [OF this] have nx: "hl_next s cur = Some n" by simp
  show ne: "n \<noteq> cur" by (rule succ_in(3) [OF ok nx mem(1)])
  have s1: "hl_step (t, c) s = hgo t (LWant op cur n) s"
    using pc nx nf nf' by (simp add: hl_step.simps hl_touch_def)
  show s2: "s2 = s\<lparr>hl_pcs := (hl_pcs s)(t := LBoth op cur n), hl_lock := (hl_lock s)(n := Some t)\<rparr>"
    using free [OF ne] nf nf' unfolding s2_def s1 by (simp add: hl_step.simps hl_acquire_def hl_touch_def)
  have "hl_ok (hl_step (t, c) s) xs" by (rule hl_quiet_step [OF ok]) (simp add: pc)
  then show "hl_ok s2 xs" unfolding s2_def by (rule hl_quiet_step) (simp add: s1)
qed

lemma remove_miss:
  assumes at: "at_node s t (Remove p) us cur (n # vs)" and p: "\<not> p (hl_data s n)"
  shows "at_node (alone t 3 s) t (Remove p) (us @ [cur]) n vs \<and> hl_data (alone t 3 s) = hl_data s"
proof -
  let ?c = "LTraverse (Remove (\<lambda>_. False))"
  obtain xs where ok0: "hl_ok s xs" and sp: "0 # xs = us @ cur # n # vs"
    and pc: "hl_pcs s t = LAt (Remove p) cur" and free: "\<And>c. c \<noteq> cur \<Longrightarrow> hl_lock s c = None"
    using at by (auto simp: at_node_def)
  define s2 where "s2 = hl_step (t, ?c) (hl_step (t, ?c) s)"
  note lk = at_node_lock [OF ok0 sp pc free]
  have s2: "s2 = s\<lparr>hl_pcs := (hl_pcs s)(t := LBoth (Remove p) cur n), hl_lock := (hl_lock s)(n := Some t)\<rparr>"
    unfolding s2_def by (rule lk(1))
  have "hl_ok s2 xs" unfolding s2_def by (rule lk(2))
  then have "hl_ok (hl_step (t, ?c) s2) xs" by (rule hl_quiet_step) (simp add: s2 p)
  moreover have "0 # xs = (us @ [cur]) @ n # vs" using sp by simp
  moreover have "hl_pcs (hl_step (t, ?c) s2) t = LAt (Remove p) n" "hl_data (hl_step (t, ?c) s2) = hl_data s"
    "\<forall>c. c \<noteq> n \<longrightarrow> hl_lock (hl_step (t, ?c) s2) c = None"
    using p lk(3-6) free by (auto simp: s2 hl_step.simps hl_body_def hl_touch_def hl_unlock_def)
  moreover have "alone t 3 s = hl_step (t, ?c) s2" by (simp add: numeral_eq_Suc s2_def)
  ultimately show ?thesis unfolding at_node_def by auto
qed

lemma remove_hit:
  assumes at: "at_node s t (Remove p) us cur (n # vs)" and p: "p (hl_data s n)"
  shows "at_node (alone t 5 s) t (Remove p) us cur vs \<and> hl_data (alone t 5 s) = hl_data s"
proof -
  let ?c = "LTraverse (Remove (\<lambda>_. False))"
  obtain xs where ok0: "hl_ok s xs" and sp: "0 # xs = us @ cur # n # vs"
    and pc: "hl_pcs s t = LAt (Remove p) cur" and free: "\<And>c. c \<noteq> cur \<Longrightarrow> hl_lock s c = None"
    using at by (auto simp: at_node_def)
  define s2 where "s2 = hl_step (t, ?c) (hl_step (t, ?c) s)"
  note lk = at_node_lock [OF ok0 sp pc free]
  have s2: "s2 = s\<lparr>hl_pcs := (hl_pcs s)(t := LBoth (Remove p) cur n), hl_lock := (hl_lock s)(n := Some t)\<rparr>"
    unfolding s2_def by (rule lk(1))
  have ok: "hl_ok s2 xs" unfolding s2_def by (rule lk(2))
  define s3 where "s3 = hl_step (t, ?c) s2"
  have pc2: "hl_pcs s2 t = LBoth (Remove p) cur n" and hit: "p (hl_data s2 n)" by (simp_all add: s2 p)
  obtain as bs where split: "xs = as @ n # bs" and ok3: "hl_ok s3 (as @ bs)"
    and data3: "hl_data s3 = hl_data s2"
    using hl_unlink_step [OF ok pc2 hit, of ?c] unfolding s3_def by blast
  have dist: "distinct (us @ cur # n # vs)" using hl_distinct [OF ok] sp by metis
  have same: "0 # as @ bs = us @ cur # vs"
  proof -
    have "(0 # as) @ n # bs = (us @ [cur]) @ n # vs" using sp split by simp
    moreover have "n \<notin> set (us @ [cur])" "n \<notin> set vs" using dist by auto
    ultimately have "0 # as = us @ [cur] \<and> bs = vs" by (metis append_Cons_eq_iff)
    then show ?thesis by simp
  qed
  have s3: "hl_pcs s3 = (hl_pcs s)(t := LDel (Remove p) cur n)" "hl_lock s3 = (hl_lock s)(n := Some t)"
    using p by (simp_all add: s3_def s2 hl_step.simps hl_body_def hl_touch_def)
  define s4 where "s4 = hl_step (t, ?c) s3"
  have ok4: "hl_ok s4 (as @ bs)" unfolding s4_def by (rule hl_quiet_step [OF ok3]) (simp add: s3)
  have s4: "hl_pcs s4 t = LFree (Remove p) cur n" "hl_lock s4 = (hl_lock s)(n := None)" "hl_data s4 = hl_data s3"
    using s3 by (simp_all add: s4_def hl_step.simps hl_unlock_def)
  note ok5 = hl_free_step [OF ok4 s4(1), of ?c]
  have run: "alone t 5 s = hl_step (t, ?c) s4" by (simp add: numeral_eq_Suc s2_def s3_def s4_def)
  have "hl_pcs (hl_step (t, ?c) s4) t = LAt (Remove p) cur" "hl_lock (hl_step (t, ?c) s4) = hl_lock s4"
    using s4 by (simp_all add: hl_step.simps hl_touch_def)
  then show ?thesis using ok5 s4 data3 free same unfolding run at_node_def
    by (auto simp: s2)
qed

lemma remove_run:
  "at_node s t (Remove p) us cur vs \<Longrightarrow> \<exists>k \<le> 5 * length vs + 1. \<exists>xs.
     hl_ok (alone t k s) xs \<and> 0 # xs = us @ cur # filter (\<lambda>c. \<not> p (hl_data s c)) vs
   \<and> hl_pcs (alone t k s) t = LIdle \<and> hl_data (alone t k s) = hl_data s"
proof (induction vs arbitrary: s us cur)
  case Nil
  then obtain xs where ok: "hl_ok s xs" and sp: "0 # xs = us @ [cur]" and pc: "hl_pcs s t = LAt (Remove p) cur"
    by (auto simp: at_node_def)
  have "chain (hl_next s) (Some 0) (us @ [cur]) None"
    unfolding sp [symmetric] by (rule hl_okD(1) [OF ok])
  from chain_succ [OF this] have nx: "hl_next s cur = None" by simp
  have "hl_ok (alone t 1 s) xs" using hl_quiet_step [OF ok, of t] pc by simp
  moreover have "hl_pcs (alone t 1 s) t = LIdle" "hl_data (alone t 1 s) = hl_data s"
    using pc nx by (simp_all add: hl_step.simps hl_finish_def hl_unlock_def hl_touch_def)
  ultimately show ?case using sp by (intro exI [of _ 1]) auto
next
  case (Cons n vs)
  show ?case
  proof (cases "p (hl_data s n)")
    case True
    note hit = remove_hit [OF Cons.prems True]
    from Cons.IH [OF hit [THEN conjunct1]] obtain k xs where "k \<le> 5 * length vs + 1"
      "hl_ok (alone t (5 + k) s) xs" "0 # xs = us @ cur # filter (\<lambda>c. \<not> p (hl_data s c)) vs"
      "hl_pcs (alone t (5 + k) s) t = LIdle" "hl_data (alone t (5 + k) s) = hl_data s"
      using hit by (auto simp: replicate_add)
    then show ?thesis using True by (intro exI [of _ "5 + k"]) auto
  next
    case False
    note miss = remove_miss [OF Cons.prems False]
    from Cons.IH [OF miss [THEN conjunct1]] obtain k xs where "k \<le> 5 * length vs + 1"
      "hl_ok (alone t (3 + k) s) xs" "0 # xs = us @ cur # n # filter (\<lambda>c. \<not> p (hl_data s c)) vs"
      "hl_pcs (alone t (3 + k) s) t = LIdle" "hl_data (alone t (3 + k) s) = hl_data s"
      using miss by (auto simp: replicate_add)
    then show ?thesis using False by (intro exI [of _ "3 + k"]) auto
  qed
qed

section \<open>Properties\<close>

text \<open>(C11) For any number of threads running \<open>push_front\<close>, \<open>for_each\<close>, \<open>find_first_if\<close> and
  \<open>remove_if\<close> of \<open>threadsafe_list\<close> in any interleaving: no deleted node is used, and each step does to the list what the call of
  the thread that takes it does there and nothing else: a \<open>push_front\<close> that gets the mutex of \<open>head\<close> puts its argument in front, a \<open>for_each\<close> that uses a
  node applies its function to the one element there, a \<open>remove_if\<close> takes out the one element it holds if it satisfies the predicate, and every other step leaves the list as it is.\<close>
theorem list_traversals_safe:
  fixes es :: "(nat \<times> 'a hl_call) list" and any :: 'a
  defines "s \<equiv> run_sched hl_step es (hl_new any)"
  shows "\<not> hl_fault s \<and> hl_effect s (hl_pcs s t) (hl_list s) (hl_list (hl_step (t, call) s))"
proof -
  have "hl_all s" unfolding s_def by (rule hl.sched_keeps [OF hl_new_all])
  then show ?thesis using hl_step_effect [of s t call] by (auto simp: hl_all_def hl_inv_def dest: hl_okD(9))
qed

text \<open>The hand-over-hand locking of \<open>threadsafe_list\<close> does not deadlock: while some call is under
  way, some thread can take its next step.\<close>
theorem list_no_deadlock:
  assumes "hl_pcs (run_sched hl_step es (hl_new any)) t \<noteq> LIdle"
  shows "\<exists>u. hl_pcs (run_sched hl_step es (hl_new any)) u \<noteq> LIdle
    \<and> (\<forall>call. hl_pcs (hl_step (u, call) (run_sched hl_step es (hl_new any))) u
         \<noteq> hl_pcs (run_sched hl_step es (hl_new any)) u)"
proof -
  have "hl_inv (run_sched hl_step es (hl_new any))" by (rule hl_reachable_inv)
  then show ?thesis using hl_progress [OF _ assms] by (auto simp: hl_inv_def can_step_def)
qed

theorem list_no_deadlock_witness:
  "\<exists>u. hl_pcs (run_sched hl_step [(0, LPushFront ''a''), (1, LTraverse (Find (\<lambda>x. x = [])))] (hl_new [])) u \<noteq> LIdle"
  using list_no_deadlock [of "[(0, LPushFront ''a''), (1, LTraverse (Find (\<lambda>x. x = [])))]" "[]" 1]
  by (simp add: hl_step.simps hl_new_def) blast

lemma list_remove_run:
  assumes "hl_inv s" and "\<And>u. hl_pcs s u = LIdle"
  shows "\<exists>k \<le> 5 * length (hl_list s) + 1. \<exists>s'.
     s' = alone t (Suc k) (hl_step (t, LTraverse (Remove p)) s)
   \<and> hl_pcs s' t = LIdle \<and> hl_list s' = filter (\<lambda>x. \<not> p x) (hl_list s)"
proof -
  obtain xs where ok: "hl_ok s xs" using assms(1) by (auto simp: hl_inv_def)
  define s1 where "s1 = alone t 1 (hl_step (t, LTraverse (Remove p)) s)"
  have free: "hl_lock s c = None" for c
    using hl_okD(4) [OF ok, of c] assms(2) by (cases "hl_lock s c") auto
  have "hl_ok (hl_step (t, LTraverse (Remove p)) s) xs"
    by (rule hl_quiet_step [OF ok]) (simp add: assms(2))
  then have ok1: "hl_ok s1 xs"
    unfolding s1_def by (simp, rule hl_quiet_step) (simp_all add: assms(2) hl_step.simps)
  have s1: "hl_pcs s1 t = LAt (Remove p) 0" "hl_lock s1 = (hl_lock s)(0 := Some t)" "hl_data s1 = hl_data s"
    using free by (simp_all add: s1_def assms(2) hl_step.simps hl_acquire_def)
  have "at_node s1 t (Remove p) [] 0 xs" using ok1 s1 free by (auto simp: at_node_def)
  from remove_run [OF this] obtain k where k: "k \<le> 5 * length xs + 1"
    "hl_ok (alone t k s1) (filter (\<lambda>c. \<not> p (hl_data s c)) xs)"
    "hl_pcs (alone t k s1) t = LIdle" "hl_data (alone t k s1) = hl_data s"
    by (auto simp: s1)
  have "alone t k s1 = alone t (Suc k) (hl_step (t, LTraverse (Remove p)) s)" by (simp add: s1_def)
  moreover have "hl_list (alone t k s1) = filter (\<lambda>x. \<not> p x) (hl_list s)"
    by (simp add: hl_list_eq [OF ok] hl_list_eq [OF k(2)] k(4) filter_map comp_def)
  moreover have "length (hl_list s) = length xs" by (simp add: hl_list_eq [OF ok])
  ultimately show ?thesis using k(1,3) by (intro exI [of _ k]) simp
qed

text \<open>(C36) \<open>remove_if\<close> of \<open>threadsafe_list\<close>, called in a state of the invariant with every thread outside a call and not disturbed, returns within \<open>5n + 2\<close> steps on a list
  of \<open>n\<close> elements and leaves exactly the elements that do not satisfy the predicate, in their order;
  the destructor, which removes everything, leaves none.\<close>
theorem list_remove_if_filters:
  assumes "hl_inv s" and "\<And>u. hl_pcs s u = LIdle"
  shows "\<exists>k \<le> 5 * length (hl_list s) + 1. \<exists>s'.
     s' = alone t (Suc k) (hl_step (t, LTraverse (Remove p)) s)
   \<and> hl_pcs s' t = LIdle \<and> hl_list s' = filter (\<lambda>x. \<not> p x) (hl_list s)"
  by (rule list_remove_run [OF assms])

theorem list_remove_if_filters_witness:
  "\<exists>k \<le> 11. hl_list (alone 0 (Suc k) (hl_step (0, LTraverse (Remove (\<lambda>x. x = 2)))
     (run_sched hl_step [(0, LPushFront 1), (0, LPushFront 1), (0, LPushFront 2), (0, LPushFront 2)] (hl_new (0::nat))))) = [1]"
proof -
  let ?s = "run_sched hl_step [(0, LPushFront 1), (0, LPushFront 1), (0, LPushFront 2), (0, LPushFront 2)] (hl_new (0::nat))"
  have inv: "hl_inv ?s" by (rule hl_reachable_inv)
  have idle: "hl_pcs ?s u = LIdle" for u by (simp add: hl_step.simps hl_new_def)
  have "hl_list ?s = [2, 1]" by (simp add: hl_step.simps hl_new_def hl_list_def hl_nodes_def)
  with list_remove_if_filters [OF inv idle, of 0 "\<lambda>x. x = 2"] show ?thesis by auto
qed

text \<open>The destructor runs when no other thread uses the list.\<close>

definition list_destructor :: "nat \<Rightarrow> 'a hlist \<Rightarrow> 'a hlist" where
  "list_destructor t s = hl_step (t, LTraverse (Remove (\<lambda>_. True))) s"

lemma list_destructor_empties:
  assumes "hl_inv s" and "\<And>u. hl_pcs s u = LIdle"
  shows "\<exists>k \<le> 5 * length (hl_list s) + 1. hl_pcs (alone t (Suc k) (list_destructor t s)) t = LIdle \<and>
    hl_list (alone t (Suc k) (list_destructor t s)) = []"
  using list_remove_run [OF assms, of t "\<lambda>_. True"] by (simp add: list_destructor_def)

end
