(* ===== verification/SplitCountStack.thy ===== *)
theory SplitCountStack
  imports Prelude
begin

text \<open>
  \<open>lock_free_stack\<close> (C++_ConcurrencyInAction/designLockFree/dataStructures.hpp): a linked stack whose
  nodes are reclaimed by a reference count split into an external part, beside the pointer in
  \<open>head\<close>, and an internal part, in the node.

  Nodes are addresses and are not handed out again.  A step is one access to \<open>head\<close> or to a node.
  The number in an event makes a weak compare-exchange fail spuriously.  \<open>sc_fault\<close> records the use
  or the second deletion of a deleted node; the logs \<open>sc_taken\<close> and \<open>sc_ret\<close> list, per thread, the
  values of the nodes it unlinked and the values its calls returned.

  The external count is an \<open>int\<close>, whose overflow is undefined: it sets \<open>sc_overflow\<close> and the thread goes no further.  The
  internal count is an \<open>atomic<int>\<close>, which wraps around.
\<close>

section \<open>State and steps\<close>

text \<open>The external count is an \<open>int\<close>, between 0 and \<open>int_max\<close>; only \<open>increase_head_count\<close> changes it.\<close>

type_synonym counted_node_ptr = "int \<times> nat option"

datatype 'a sc_call = SPush 'a | SPop | Spurious

datatype 'a sc_pc =
    SIdle
  | SPushLoad nat
  | SPushCas nat
  | SPopLoad
  | SInc counted_node_ptr
  | SGot counted_node_ptr
  | SSwing int nat counted_node_ptr
  | STake int nat
  | SSettle int nat 'a
  | SFree nat 'a
  | SDrop nat counted_node_ptr
  | SDropFree nat counted_node_ptr

record 'a scstack =
  sc_head :: counted_node_ptr
  sc_data :: "nat \<Rightarrow> 'a option"
  sc_internal :: "nat \<Rightarrow> int"
  sc_next :: "nat \<Rightarrow> counted_node_ptr"
  sc_alloc :: nat
  sc_freed :: "nat set"
  sc_pcs :: "nat \<Rightarrow> 'a sc_pc"
  sc_fault :: bool
  sc_overflow :: bool
  sc_taken :: "nat \<Rightarrow> 'a list"
  sc_ret :: "nat \<Rightarrow> 'a list"

definition sc_new :: "'a scstack" where
  "sc_new = \<lparr>sc_head = (0, None), sc_data = (\<lambda>_. None), sc_internal = (\<lambda>_. 0),
     sc_next = (\<lambda>_. (0, None)), sc_alloc = 0, sc_freed = {}, sc_pcs = (\<lambda>_. SIdle), sc_fault = False,
     sc_overflow = False, sc_taken = (\<lambda>_. []), sc_ret = (\<lambda>_. [])\<rparr>"

abbreviation sgo :: "nat \<Rightarrow> 'a sc_pc \<Rightarrow> 'a scstack \<Rightarrow> 'a scstack" where
  "sgo t pc s \<equiv> s\<lparr>sc_pcs := (sc_pcs s)(t := pc)\<rparr>"

definition sc_touch :: "nat \<Rightarrow> 'a scstack \<Rightarrow> 'a scstack" where
  "sc_touch p s = s\<lparr>sc_fault := (sc_fault s \<or> p \<in> sc_freed s)\<rparr>"

definition sc_delete :: "nat \<Rightarrow> 'a scstack \<Rightarrow> 'a scstack" where
  "sc_delete p s = (sc_touch p s)\<lparr>sc_freed := insert p (sc_freed s)\<rparr>"

definition sc_return :: "nat \<Rightarrow> 'a \<Rightarrow> 'a scstack \<Rightarrow> 'a scstack" where
  "sc_return t v s = sgo t SIdle (s\<lparr>sc_ret := (sc_ret s)(t := sc_ret s t @ [v])\<rparr>)"

definition sc_call_step :: "nat \<Rightarrow> 'a sc_call \<Rightarrow> 'a scstack \<Rightarrow> 'a scstack" where
  "sc_call_step t call s =
     (case call of
        SPush value \<Rightarrow>
          (let n = sc_alloc s
           in sgo t (SPushLoad n) (s\<lparr>sc_alloc := Suc n, sc_data := (sc_data s)(n := Some value),
                sc_internal := (sc_internal s)(n := 0), sc_next := (sc_next s)(n := (0, None))\<rparr>))
      | SPop \<Rightarrow> sgo t SPopLoad s
      | Spurious \<Rightarrow> s)"

definition sc_push_cas :: "nat \<Rightarrow> bool \<Rightarrow> nat \<Rightarrow> 'a scstack \<Rightarrow> 'a scstack" where
  "sc_push_cas t spurious n s =
     (if sc_head s = sc_next s n \<and> \<not> spurious
      then sgo t SIdle (s\<lparr>sc_head := (1, Some n)\<rparr>)
      else sgo t (SPushCas n) (s\<lparr>sc_next := (sc_next s)(n := sc_head s)\<rparr>))"

text \<open>One round of \<open>increase_head_count\<close>: \<open>++new_counter.external_count\<close> and the compare-exchange.\<close>

definition sc_increase :: "nat \<Rightarrow> counted_node_ptr \<Rightarrow> 'a scstack \<Rightarrow> 'a scstack" where
  "sc_increase t old_counter s =
     (if fst old_counter = int_max then s\<lparr>sc_overflow := True\<rparr>
      else let new_counter = (fst old_counter + 1, snd old_counter)
      in if sc_head s = old_counter
         then sgo t (SGot new_counter) (s\<lparr>sc_head := new_counter\<rparr>)
         else sgo t (SInc (sc_head s)) s)"

definition sc_swing :: "nat \<Rightarrow> int \<Rightarrow> nat \<Rightarrow> counted_node_ptr \<Rightarrow> 'a scstack \<Rightarrow> 'a scstack" where
  "sc_swing t e p nxt s =
     (if sc_head s = (e, Some p)
      then sgo t (STake e p) (s\<lparr>sc_head := nxt,
             sc_taken := (sc_taken s)(t := sc_taken s t @ [the (sc_data s p)])\<rparr>)
      else sgo t (SDrop p (sc_head s)) s)"

text \<open>\<open>fetch_add\<close> on the internal count, answering its old value.\<close>

definition sc_fetch_add :: "nat \<Rightarrow> int \<Rightarrow> 'a scstack \<Rightarrow> int \<times> 'a scstack" where
  "sc_fetch_add p n s =
     (sc_internal s p, (sc_touch p s)\<lparr>sc_internal := (sc_internal s)(p := int32 (sc_internal s p + n))\<rparr>)"

definition sc_settle :: "nat \<Rightarrow> int \<Rightarrow> nat \<Rightarrow> 'a \<Rightarrow> 'a scstack \<Rightarrow> 'a scstack" where
  "sc_settle t e p v s =
     (let count_increase = e - 2; (old, s') = sc_fetch_add p count_increase s
      in if old = - count_increase then sgo t (SFree p v) s' else sc_return t v s')"

definition sc_drop :: "nat \<Rightarrow> nat \<Rightarrow> counted_node_ptr \<Rightarrow> 'a scstack \<Rightarrow> 'a scstack" where
  "sc_drop t p old_head s =
     (let (old, s') = sc_fetch_add p (- 1) s
      in if old = 1 then sgo t (SDropFree p old_head) s' else sgo t (SInc old_head) s')"

fun sc_step :: "nat \<times> 'a sc_call \<Rightarrow> 'a scstack \<Rightarrow> 'a scstack" where
  "sc_step (t, call) s =
     (case sc_pcs s t of
        SIdle \<Rightarrow> sc_call_step t call s
      | SPushLoad n \<Rightarrow> sgo t (SPushCas n) (s\<lparr>sc_next := (sc_next s)(n := sc_head s)\<rparr>)
      | SPushCas n \<Rightarrow> sc_push_cas t (case call of Spurious \<Rightarrow> True | _ \<Rightarrow> False) n s
      | SPopLoad \<Rightarrow> sgo t (SInc (sc_head s)) s
      | SInc old_head \<Rightarrow> sc_increase t old_head s
      | SGot old_head \<Rightarrow>
          (case snd old_head of
             None \<Rightarrow> sgo t SIdle s
           | Some p \<Rightarrow> sgo t (SSwing (fst old_head) p (sc_next s p)) (sc_touch p s))
      | SSwing e p nxt \<Rightarrow> sc_swing t e p nxt s
      | STake e p \<Rightarrow>
          sgo t (SSettle e p (the (sc_data s p))) ((sc_touch p s)\<lparr>sc_data := (sc_data s)(p := None)\<rparr>)
      | SSettle e p v \<Rightarrow> sc_settle t e p v s
      | SFree p v \<Rightarrow> sc_return t v (sc_delete p s)
      | SDrop p old_head \<Rightarrow> sc_drop t p old_head s
      | SDropFree p old_head \<Rightarrow> sgo t (SInc old_head) (sc_delete p s))"

declare sc_step.simps [simp del]

section \<open>The stack the nodes hold\<close>

definition sc_nodes :: "'a scstack \<Rightarrow> nat list" where
  "sc_nodes s = cells (\<lambda>p. snd (sc_next s p)) (sc_alloc s) (snd (sc_head s))"

definition sc_list :: "'a scstack \<Rightarrow> 'a list" where
  "sc_list s = map (\<lambda>p. the (sc_data s p)) (sc_nodes s)"

text \<open>A push takes effect at its compare-exchange, a pop at the one that swings \<open>head\<close>, an empty
  pop when it increases the count of the null head.\<close>

fun sc_vis :: "nat \<times> 'a sc_call \<Rightarrow> 'a scstack \<Rightarrow> 'a stack_act option" where
  "sc_vis (t, call) s =
     (case sc_pcs s t of
        SPushCas n \<Rightarrow>
          if sc_head s = sc_next s n \<and> call \<noteq> Spurious then Some (Push (the (sc_data s n)) True) else None
      | SInc old_head \<Rightarrow>
          if sc_head s = old_head \<and> snd old_head = None \<and> fst old_head \<noteq> int_max then Some (Pop None) else None
      | SSwing e p nxt \<Rightarrow> if sc_head s = (e, Some p) then Some (Pop (Some (the (sc_data s p)))) else None
      | _ \<Rightarrow> None)"

section \<open>Invariant\<close>

text \<open>The threads that count on a node, and the one that owns it: as a new node, as the node it has
  unlinked and not yet settled, or as the node it must delete.\<close>

fun refers :: "nat \<Rightarrow> 'a sc_pc \<Rightarrow> bool" where
  "refers p (SGot old_head) \<longleftrightarrow> snd old_head = Some p"
| "refers p (SSwing e q nxt) \<longleftrightarrow> q = p"
| "refers p (SDrop q old_head) \<longleftrightarrow> q = p"
| "refers p _ \<longleftrightarrow> False"

fun owns :: "'a sc_pc \<Rightarrow> nat option" where
  "owns (SPushLoad n) = Some n"
| "owns (SPushCas n) = Some n"
| "owns (STake e p) = Some p"
| "owns (SSettle e p v) = Some p"
| "owns (SFree p v) = Some p"
| "owns (SDropFree p old_head) = Some p"
| "owns _ = None"

definition holders :: "'a scstack \<Rightarrow> nat \<Rightarrow> int" where
  "holders s p = int (card {u. refers p (sc_pcs s u)})"

text \<open>The nodes from a counted pointer on, each with the balance of its two counts.\<close>

primrec counted :: "'a scstack \<Rightarrow> counted_node_ptr \<Rightarrow> nat list \<Rightarrow> bool" where
  "counted s c [] \<longleftrightarrow> snd c = None"
| "counted s c (p # ps) \<longleftrightarrow> snd c = Some p \<and> fst c - 1 + sc_internal s p = holders s p
     \<and> sc_internal s p \<le> 0 \<and> sc_data s p \<noteq> None \<and> counted s (sc_next s p) ps"

fun spc_ok :: "'a scstack \<Rightarrow> 'a sc_pc \<Rightarrow> bool" where
  "spc_ok s (SPushLoad n) \<longleftrightarrow> sc_internal s n = 0 \<and> holders s n = 0 \<and> sc_data s n \<noteq> None"
| "spc_ok s (SPushCas n) \<longleftrightarrow> sc_internal s n = 0 \<and> holders s n = 0 \<and> sc_data s n \<noteq> None"
| "spc_ok s (SSwing e p nxt) \<longleftrightarrow> nxt = sc_next s p"
| "spc_ok s (STake e p) \<longleftrightarrow> sc_internal s p + e - 2 = holders s p \<and> sc_internal s p \<le> 0 \<and> sc_data s p \<noteq> None"
| "spc_ok s (SSettle e p v) \<longleftrightarrow> sc_internal s p + e - 2 = holders s p \<and> sc_internal s p \<le> 0"
| "spc_ok s (SFree p v) \<longleftrightarrow> holders s p = 0"
| "spc_ok s (SDropFree p old_head) \<longleftrightarrow> holders s p = 0"
| "spc_ok s _ \<longleftrightarrow> True"

fun pending :: "'a scstack \<Rightarrow> 'a sc_pc \<Rightarrow> 'a list" where
  "pending s (STake e p) = [the (sc_data s p)]"
| "pending s (SSettle e p v) = [v]"
| "pending s (SFree p v) = [v]"
| "pending s _ = []"

definition node_ok :: "'a scstack \<Rightarrow> nat list \<Rightarrow> nat \<Rightarrow> bool" where
  "node_ok s xs p \<longleftrightarrow>
     (p \<in> set xs \<longrightarrow> p < sc_alloc s \<and> p \<notin> sc_freed s)
   \<and> (p \<in> sc_freed s \<longrightarrow> p < sc_alloc s \<and> holders s p = 0)
   \<and> (\<forall>t. owns (sc_pcs s t) = Some p \<longrightarrow> p < sc_alloc s \<and> p \<notin> sc_freed s \<and> p \<notin> set xs)
   \<and> (\<forall>t u. owns (sc_pcs s t) = Some p \<longrightarrow> owns (sc_pcs s u) = Some p \<longrightarrow> t = u)
   \<and> (p < sc_alloc s \<longrightarrow> p \<notin> set xs \<longrightarrow> p \<notin> sc_freed s \<longrightarrow> (\<forall>t. owns (sc_pcs s t) \<noteq> Some p) \<longrightarrow>
        sc_internal s p = holders s p \<and> 0 < holders s p)
   \<and> (sc_alloc s \<le> p \<longrightarrow> holders s p = 0)"

definition sc_ok :: "'a scstack \<Rightarrow> nat list \<Rightarrow> bool" where
  "sc_ok s xs \<longleftrightarrow> counted s (sc_head s) xs
   \<and> (\<forall>p. node_ok s xs p)
   \<and> (\<forall>p. finite {u. refers p (sc_pcs s u)})
   \<and> (\<forall>t. spc_ok s (sc_pcs s t))
   \<and> \<not> sc_fault s
   \<and> (\<forall>t. sc_taken s t = sc_ret s t @ pending s (sc_pcs s t))"

definition sc_good :: "'a scstack \<Rightarrow> bool" where
  "sc_good s \<longleftrightarrow> (\<exists>xs. sc_ok s xs)"

text \<open>The counts in a state, all of them at most \<open>k\<close>.\<close>

fun counts :: "'a sc_pc \<Rightarrow> int set" where
  "counts (SInc c) = {fst c}"
| "counts (SGot c) = {fst c}"
| "counts (SSwing e p nxt) = {e, fst nxt}"
| "counts (STake e p) = {e}"
| "counts (SSettle e p v) = {e}"
| "counts (SDrop p c) = {fst c}"
| "counts (SDropFree p c) = {fst c}"
| "counts _ = {}"

definition sc_upto :: "int \<Rightarrow> 'a scstack \<Rightarrow> bool" where
  "sc_upto k s \<longleftrightarrow> fst (sc_head s) \<in> {0..k} \<and> (\<forall>n. fst (sc_next s n) \<in> {0..k}) \<and> (\<forall>t. counts (sc_pcs s t) \<subseteq> {0..k})
     \<and> (\<forall>p. sc_internal s p \<le> int_max)"

lemma upto_count:
  assumes "sc_upto k s" and "c \<in> counts (sc_pcs s t)"
  shows "0 \<le> c" and "c \<le> k"
  using assms unfolding sc_upto_def by (meson atLeastAtMost_iff subsetD)+

definition sc_inv :: "'a scstack \<Rightarrow> bool" where
  "sc_inv s \<longleftrightarrow> sc_good s \<and> sc_upto int_max s"

section \<open>The invariant is kept\<close>

lemma sc_okD:
  assumes "sc_ok s xs"
  shows "counted s (sc_head s) xs" and "node_ok s xs p" and "finite {u. refers p (sc_pcs s u)}"
    and "spc_ok s (sc_pcs s t)" and "\<not> sc_fault s" and "sc_taken s t = sc_ret s t @ pending s (sc_pcs s t)"
  using assms unfolding sc_ok_def by blast+

lemma node_okD:
  assumes "sc_ok s xs"
  shows "p \<in> set xs \<Longrightarrow> p < sc_alloc s \<and> p \<notin> sc_freed s"
    and "p \<in> sc_freed s \<Longrightarrow> p < sc_alloc s \<and> holders s p = 0"
    and "owns (sc_pcs s t) = Some p \<Longrightarrow> p < sc_alloc s \<and> p \<notin> sc_freed s \<and> p \<notin> set xs"
    and "owns (sc_pcs s t) = Some p \<Longrightarrow> owns (sc_pcs s u) = Some p \<Longrightarrow> t = u"
    and "p < sc_alloc s \<Longrightarrow> p \<notin> set xs \<Longrightarrow> p \<notin> sc_freed s \<Longrightarrow> (\<And>t. owns (sc_pcs s t) \<noteq> Some p) \<Longrightarrow>
        sc_internal s p = holders s p \<and> 0 < holders s p"
    and "sc_alloc s \<le> p \<Longrightarrow> holders s p = 0"
  using sc_okD(2) [OF assms, of p] unfolding node_ok_def by blast+

lemma holders_nonneg [simp]: "0 \<le> holders s p"
  by (simp add: holders_def)

lemma holder_pos:
  assumes "sc_ok s xs" and "refers p (sc_pcs s t)"
  shows "0 < holders s p" and "p < sc_alloc s" and "p \<notin> sc_freed s"
proof -
  have "{u. refers p (sc_pcs s u)} \<noteq> {}" using assms(2) by auto
  then show pos: "0 < holders s p" using sc_okD(3) [OF assms(1), of p]
    by (simp add: holders_def card_gt_0_iff)
  then show "p < sc_alloc s" "p \<notin> sc_freed s"
    using node_okD(2,6) [OF assms(1), of p] by (auto simp: not_less [symmetric])
qed

lemma holders_upd:
  assumes "sc_ok s xs" and "sc_pcs s' = (sc_pcs s)(t := pc)"
  shows "holders s' p = holders s p - (if refers p (sc_pcs s t) then 1 else 0) + (if refers p pc then 1 else 0)"
  using card_threads_upd(1) [where P = "refers p" and f = "sc_pcs s" and t = t and x = pc] sc_okD(3) [OF assms(1), of p]
  by (auto simp: holders_def assms(2) simp del: fun_upd_apply split: if_splits)

text \<open>The node a program counter's condition speaks of.\<close>

fun about :: "'a sc_pc \<Rightarrow> nat option" where
  "about (SSwing e p nxt) = Some p"
| "about pc = owns pc"

lemma counted_cong:
  "(\<And>p. p \<in> set xs \<Longrightarrow> sc_internal s' p = sc_internal s p \<and> sc_data s' p = sc_data s p
      \<and> sc_next s' p = sc_next s p \<and> holders s' p = holders s p) \<Longrightarrow>
   counted s' c xs = counted s c xs"
  by (induction xs arbitrary: c) auto

lemma spc_cong:
  assumes "\<And>q. about pc = Some q \<Longrightarrow> sc_internal s' q = sc_internal s q \<and> sc_data s' q = sc_data s q
      \<and> sc_next s' q = sc_next s q \<and> holders s' q = holders s q"
  shows "spc_ok s' pc = spc_ok s pc" and "pending s' pc = pending s pc"
  using assms by (cases pc; auto)+

lemma sc_update:
  assumes ok: "sc_ok s xs" and pcs: "sc_pcs s' = (sc_pcs s)(t := pc)"
    and other: "\<And>q. q \<noteq> p \<Longrightarrow> sc_internal s' q = sc_internal s q \<and> sc_data s' q = sc_data s q
      \<and> sc_next s' q = sc_next s q \<and> (q \<in> sc_freed s' \<longleftrightarrow> q \<in> sc_freed s) \<and> (q < sc_alloc s' \<longleftrightarrow> q < sc_alloc s)
      \<and> (q \<in> set ys \<longleftrightarrow> q \<in> set xs)"
    and pc_other: "\<And>q. q \<noteq> p \<Longrightarrow> (refers q pc \<longleftrightarrow> refers q (sc_pcs s t)) \<and> (owns pc = Some q \<longleftrightarrow> owns (sc_pcs s t) = Some q)"
    and chain: "counted s' (sc_head s') ys" and node: "node_ok s' ys p"
    and spc: "spc_ok s' pc"
    and spc_p: "\<And>u. u \<noteq> t \<Longrightarrow> about (sc_pcs s u) = Some p \<Longrightarrow> spc_ok s (sc_pcs s u) \<Longrightarrow>
        spc_ok s' (sc_pcs s u) \<and> pending s' (sc_pcs s u) = pending s (sc_pcs s u)"
    and fault: "\<not> sc_fault s'"
    and log: "sc_taken s' t = sc_ret s' t @ pending s' pc"
    and logs: "\<And>u. u \<noteq> t \<Longrightarrow> sc_taken s' u = sc_taken s u \<and> sc_ret s' u = sc_ret s u"
  shows "sc_ok s' ys"
proof -
  have hold: "holders s' q = holders s q" if "q \<noteq> p" for q
    using holders_upd [OF ok pcs, of q] pc_other [OF that] by simp
  have owns: "owns (sc_pcs s' u) = Some q \<longleftrightarrow> owns (sc_pcs s u) = Some q" if "q \<noteq> p" for u q
    using pc_other [OF that] by (simp add: pcs)
  have thr: "spc_ok s' (sc_pcs s u) \<and> pending s' (sc_pcs s u) = pending s (sc_pcs s u)" if "u \<noteq> t" for u
  proof (cases "about (sc_pcs s u) = Some p")
    case True
    then show ?thesis using spc_p [OF that True] sc_okD(4) [OF ok, of u] by blast
  next
    case False
    have *: "sc_internal s' q = sc_internal s q \<and> sc_data s' q = sc_data s q
      \<and> sc_next s' q = sc_next s q \<and> holders s' q = holders s q" if "about (sc_pcs s u) = Some q" for q
      using that False other [of q] hold [of q] by auto
    show ?thesis using spc_cong [of "sc_pcs s u" s' s, OF *] sc_okD(4) [OF ok, of u] by simp
  qed
  show ?thesis unfolding sc_ok_def
  proof (intro conjI allI)
    show "counted s' (sc_head s') ys" by (rule chain)
    show "node_ok s' ys q" for q
    proof (cases "q = p")
      case False
      note o = other [OF False]
      then have "sc_alloc s' \<le> q \<longleftrightarrow> sc_alloc s \<le> q" by (metis not_less)
      with o hold [OF False] owns [OF False] sc_okD(2) [OF ok, of q] show ?thesis
        by (simp add: node_ok_def)
    qed (simp add: node)
    show "finite {u. refers q (sc_pcs s' u)}" for q
      unfolding pcs by (rule card_threads_upd(2) [where P = "refers q"]) (rule sc_okD(3) [OF ok])
    show "spc_ok s' (sc_pcs s' u)" for u using thr [of u] spc by (simp add: pcs)
    show "sc_taken s' u = sc_ret s' u @ pending s' (sc_pcs s' u)" for u
      using thr [of u] log logs [of u] sc_okD(6) [OF ok, of u] by (cases "u = t") (simp_all add: pcs)
  qed (rule fault)
qed

text \<open>Transitions that only read.\<close>

lemma sc_move:
  assumes ok: "sc_ok s xs" and refers: "\<And>q. refers q pc = refers q (sc_pcs s t)"
    and owns: "owns pc = owns (sc_pcs s t)" and spc: "spc_ok s pc" and pend: "pending s pc = pending s (sc_pcs s t)"
  shows "sc_ok (sgo t pc s) xs"
proof -
  have hold: "holders (sgo t pc s) q = holders s q" for q
    using holders_upd [OF ok, of "sgo t pc s" t pc q] refers by simp
  have cong: "spc_ok (sgo t pc s) pc' = spc_ok s pc'" "pending (sgo t pc s) pc' = pending s pc'" for pc'
    by (rule spc_cong; simp add: hold)+
  have node: "node_ok (sgo t pc s) xs q" for q
  proof -
    have "owns (sc_pcs (sgo t pc s) u) = owns (sc_pcs s u)" for u using owns by simp
    then show ?thesis using sc_okD(2) [OF ok, of q] by (simp add: node_ok_def hold)
  qed
  show ?thesis unfolding sc_ok_def
  proof (intro conjI allI)
    show "counted (sgo t pc s) (sc_head (sgo t pc s)) xs"
      using sc_okD(1) [OF ok] counted_cong [of xs "sgo t pc s" s] by (simp add: hold)
    show "finite {u. refers q (sc_pcs (sgo t pc s) u)}" for q
      using card_threads_upd(2) [where P = "refers q" and f = "sc_pcs s"] sc_okD(3) [OF ok] by simp
    show "spc_ok (sgo t pc s) (sc_pcs (sgo t pc s) u)" for u
      using sc_okD(4) [OF ok, of u] spc by (simp add: cong)
    show "sc_taken (sgo t pc s) u = sc_ret (sgo t pc s) u @ pending (sgo t pc s) (sc_pcs (sgo t pc s) u)" for u
      using sc_okD(6) [OF ok, of u] pend by (simp add: cong)
  qed (use node sc_okD(5) [OF ok] in simp_all)
qed

lemma counted_member:
  "counted s c xs \<Longrightarrow> p \<in> set xs \<Longrightarrow> sc_internal s p \<le> 0 \<and> sc_data s p \<noteq> None"
proof (induction xs arbitrary: c)
  case (Cons a xs)
  then show ?case using Cons.IH [of "sc_next s a"] by auto
qed simp

lemma counted_chain: "counted s c xs \<Longrightarrow> chain (\<lambda>p. snd (sc_next s p)) (snd c) xs None"
  by (induction xs arbitrary: c) auto

lemma sc_distinct: "sc_ok s xs \<Longrightarrow> distinct xs"
  by (rule chain_distinct [OF counted_chain [OF sc_okD(1)]])

lemma sc_nodes_eq:
  assumes ok: "sc_ok s xs"
  shows "sc_nodes s = xs"
proof -
  have "set xs \<subseteq> {..<sc_alloc s}" using node_okD(1) [OF ok] by auto
  then have "card (set xs) \<le> sc_alloc s" by (metis card_lessThan card_mono finite_lessThan)
  then have "length xs \<le> sc_alloc s" using sc_distinct [OF ok] by (metis distinct_card)
  with counted_chain [OF sc_okD(1) [OF ok]] show ?thesis
    unfolding sc_nodes_def by (rule cells_of_chain)
qed

lemma sc_touch_id: "\<not> sc_fault s \<Longrightarrow> p \<notin> sc_freed s \<Longrightarrow> sc_touch p s = s"
  by (simp add: sc_touch_def)

lemma about_owner:
  assumes ok: "sc_ok s xs" and own: "owns (sc_pcs s t) = Some p" and none: "holders s p = 0"
    and "about (sc_pcs s u) = Some p"
  shows "u = t"
proof (cases "\<exists>e q nxt. sc_pcs s u = SSwing e q nxt")
  case True
  then have "refers p (sc_pcs s u)" using assms(4) by auto
  with holder_pos(1) [OF ok] none show ?thesis by fastforce
next
  case False
  then have "owns (sc_pcs s u) = Some p" using assms(4) by (cases "sc_pcs s u") auto
  with node_okD(4) [OF ok] own show ?thesis by blast
qed

text \<open>\<open>push\<close>\<close>

lemma sc_alloc_step:
  assumes ok: "sc_ok s xs" and pc: "sc_pcs s t = SIdle"
  shows "sc_ok (sc_step (t, SPush v) s) xs \<and> (\<forall>p \<in> set xs. sc_data (sc_step (t, SPush v) s) p = sc_data s p)"
proof -
  let ?n = "sc_alloc s" and ?s = "sc_step (t, SPush v) s"
  have s: "?s = s\<lparr>sc_alloc := Suc ?n, sc_data := (sc_data s)(?n := Some v), sc_internal := (sc_internal s)(?n := 0),
      sc_next := (sc_next s)(?n := (0, None)), sc_pcs := (sc_pcs s)(t := SPushLoad ?n)\<rparr>"
    using pc by (simp add: sc_step.simps sc_call_step_def Let_def)
  have new: "?n \<notin> set xs" "?n \<notin> sc_freed s" "holders s ?n = 0" "\<And>u. owns (sc_pcs s u) \<noteq> Some ?n"
    using node_okD(1,2,6) [OF ok, of ?n] node_okD(3) [OF ok, where p = ?n] by auto
  have hold: "holders ?s q = holders s q" for q
    using holders_upd [OF ok, of ?s t "SPushLoad ?n" q] pc by (simp add: s)
  have "sc_ok ?s xs"
  proof (rule sc_update [OF ok, where t = t and p = ?n and pc = "SPushLoad ?n"])
    have "counted ?s (sc_head s) xs = counted s (sc_head s) xs"
      by (rule counted_cong) (use new(1) hold in \<open>auto simp: s\<close>)
    then show "counted ?s (sc_head ?s) xs" using sc_okD(1) [OF ok] by (simp add: s)
    show "node_ok ?s xs ?n" using new pc hold by (auto simp: node_ok_def s)
    show "spc_ok ?s (SPushLoad ?n)" using hold new by (simp add: s)
    show "spc_ok ?s (sc_pcs s u) \<and> pending ?s (sc_pcs s u) = pending s (sc_pcs s u)"
      if "about (sc_pcs s u) = Some ?n" for u
    proof -
      have "refers ?n (sc_pcs s u)" using that new(4) [of u] by (cases "sc_pcs s u") auto
      with holder_pos(1) [OF ok] new(3) show ?thesis by fastforce
    qed
  qed (use pc sc_okD(5,6) [OF ok] in \<open>auto simp: s\<close>)
  with new show ?thesis by (auto simp: s)
qed

lemma sc_link_step:
  assumes ok: "sc_ok s xs" and own: "owns (sc_pcs s t) = Some n" and new: "spc_ok s (SPushCas n)"
    and pend: "pending s (sc_pcs s t) = []" and ref: "\<And>q. \<not> refers q (sc_pcs s t)"
  shows "sc_ok (sgo t (SPushCas n) (s\<lparr>sc_next := (sc_next s)(n := c)\<rparr>)) xs" (is "sc_ok ?s' xs")
proof -
  let ?s = "s\<lparr>sc_next := (sc_next s)(n := c), sc_pcs := (sc_pcs s)(t := SPushCas n)\<rparr>"
  have hold: "holders ?s q = holders s q" for q
    using holders_upd [OF ok, of ?s t "SPushCas n" q] ref by simp
  note n = node_okD(3) [OF ok own]
  have "sc_ok ?s xs"
  proof (rule sc_update [OF ok, where t = t and p = n and pc = "SPushCas n"])
    have "counted ?s (sc_head s) xs = counted s (sc_head s) xs"
      by (rule counted_cong) (use n hold in auto)
    then show "counted ?s (sc_head ?s) xs" using sc_okD(1) [OF ok] by simp
    show "node_ok ?s xs n" using n own node_okD(4) [OF ok] hold by (auto simp: node_ok_def)
    show "spc_ok ?s (SPushCas n)" using new hold by simp
    show "spc_ok ?s (sc_pcs s u) \<and> pending ?s (sc_pcs s u) = pending s (sc_pcs s u)"
      if "u \<noteq> t" "about (sc_pcs s u) = Some n" for u
      using about_owner [OF ok own, of u] new that by auto
  qed (use own sc_okD(5,6) [OF ok] pend ref in auto)
  then show ?thesis by simp
qed

lemma sc_push_step:
  assumes ok: "sc_ok s xs" and pc: "sc_pcs s t = SPushCas n" and head: "sc_head s = sc_next s n"
  shows "sc_ok (sgo t SIdle (s\<lparr>sc_head := (1, Some n)\<rparr>)) (n # xs)"
proof -
  let ?s = "s\<lparr>sc_head := (1, Some n), sc_pcs := (sc_pcs s)(t := SIdle)\<rparr>"
  have own: "owns (sc_pcs s t) = Some n" using pc by simp
  note n = node_okD(3) [OF ok own]
  have new: "sc_internal s n = 0" "holders s n = 0" "sc_data s n \<noteq> None"
    using sc_okD(4) [OF ok, of t] pc by auto
  have hold: "holders ?s q = holders s q" for q
    using holders_upd [OF ok, of ?s t SIdle q] pc by simp
  have "sc_ok ?s (n # xs)"
  proof (rule sc_update [OF ok, where t = t and p = n and pc = SIdle])
    have "counted ?s (sc_next s n) xs = counted s (sc_next s n) xs"
      by (rule counted_cong) (use hold in auto)
    then show "counted ?s (sc_head ?s) (n # xs)"
      using sc_okD(1) [OF ok] new by (simp add: hold head)
    have "owns (sc_pcs ?s u) \<noteq> Some n" for u using node_okD(4) [OF ok own, of u] by auto
    then show "node_ok ?s (n # xs) n" using n hold new by (simp add: node_ok_def)
    show "spc_ok ?s (sc_pcs s u) \<and> pending ?s (sc_pcs s u) = pending s (sc_pcs s u)"
      if "u \<noteq> t" "about (sc_pcs s u) = Some n" for u
      using about_owner [OF ok own, of u] new that by auto
  qed (use pc sc_okD(5,6) [OF ok] in auto)
  then show ?thesis by simp
qed

text \<open>\<open>pop\<close>\<close>

lemma sc_increase_step:
  assumes ok: "sc_ok s xs" and pc: "sc_pcs s t = SInc (e, r)" and head: "sc_head s = (e, r)"
  shows "sc_ok (sgo t (SGot (e + 1, r)) (s\<lparr>sc_head := (e + 1, r)\<rparr>)) xs"
proof -
  let ?s = "s\<lparr>sc_head := (e + 1, r), sc_pcs := (sc_pcs s)(t := SGot (e + 1, r))\<rparr>"
  have hold: "holders ?s q = holders s q + (if r = Some q then 1 else 0)" for q
    using holders_upd [OF ok, of ?s t "SGot (e + 1, r)" q] pc by simp
  have dist: "distinct xs" by (rule sc_distinct [OF ok])
  have chain: "counted ?s (sc_head ?s) xs"
  proof (cases xs)
    case Nil
    then show ?thesis using sc_okD(1) [OF ok] head by simp
  next
    case (Cons p ps)
    then have r: "r = Some p" using sc_okD(1) [OF ok] head by simp
    have "counted ?s (sc_next s p) ps = counted s (sc_next s p) ps"
      by (rule counted_cong) (use hold r dist Cons in auto)
    then show ?thesis using sc_okD(1) [OF ok] head Cons r hold by simp
  qed
  have mem: "q \<in> set xs" if "r = Some q" for q
    using sc_okD(1) [OF ok] head that by (cases xs) auto
  have "sc_ok ?s xs"
  proof (cases r)
    case None
    show ?thesis
    proof (rule sc_update [OF ok, where t = t and p = "sc_alloc s" and pc = "SGot (e + 1, r)"])
      have "owns (sc_pcs ?s u) = owns (sc_pcs s u)" for u using pc by simp
      then show "node_ok ?s xs (sc_alloc s)" using sc_okD(2) [OF ok, of "sc_alloc s"] hold None
        by (simp add: node_ok_def)
      show "spc_ok ?s (sc_pcs s u) \<and> pending ?s (sc_pcs s u) = pending s (sc_pcs s u)"
        if "spc_ok s (sc_pcs s u)" for u
        using that spc_cong [of "sc_pcs s u" ?s s] hold None by simp
    qed (use pc chain sc_okD(5,6) [OF ok] None in auto)
  next
    case (Some p)
    note p = mem [OF Some] and cnt = counted_member [OF sc_okD(1) [OF ok] mem [OF Some]]
    have owns: "owns (sc_pcs s u) \<noteq> Some p" for u using node_okD(3) [OF ok, of u p] p by auto
    show ?thesis
    proof (rule sc_update [OF ok, where t = t and p = p and pc = "SGot (e + 1, r)"])
      have "owns (sc_pcs ?s u) = owns (sc_pcs s u)" for u using pc by simp
      then show "node_ok ?s xs p" using node_okD(1) [OF ok p] p owns by (simp add: node_ok_def)
      show "spc_ok ?s (sc_pcs s u) \<and> pending ?s (sc_pcs s u) = pending s (sc_pcs s u)"
        if "about (sc_pcs s u) = Some p" "spc_ok s (sc_pcs s u)" for u
        using that owns [of u] by (cases "sc_pcs s u") auto
    qed (use pc chain sc_okD(5,6) [OF ok] Some in auto)
  qed
  then show ?thesis by simp
qed

lemma sc_swing_step:
  assumes ok: "sc_ok s xs" and pc: "sc_pcs s t = SSwing e p nxt" and head: "sc_head s = (e, Some p)"
  obtains ps where "xs = p # ps"
    "sc_ok (sgo t (STake e p) (s\<lparr>sc_head := nxt, sc_taken := (sc_taken s)(t := sc_taken s t @ [the (sc_data s p)])\<rparr>)) ps"
proof -
  let ?s = "s\<lparr>sc_head := nxt, sc_taken := (sc_taken s)(t := sc_taken s t @ [the (sc_data s p)]),
    sc_pcs := (sc_pcs s)(t := STake e p)\<rparr>"
  obtain ps where xs: "xs = p # ps" using sc_okD(1) [OF ok] head by (cases xs) auto
  have nxt: "nxt = sc_next s p" using sc_okD(4) [OF ok, of t] pc by simp
  have hold: "holders ?s q = holders s q - (if q = p then 1 else 0)" for q
    using holders_upd [OF ok, of ?s t "STake e p" q] pc by auto
  have dist: "p \<notin> set ps" using sc_distinct [OF ok] xs by simp
  have bal: "e - 1 + sc_internal s p = holders s p" "sc_internal s p \<le> 0" "sc_data s p \<noteq> None"
    using sc_okD(1) [OF ok] head xs by auto
  note p = node_okD(1) [OF ok, of p]
  have owns: "owns (sc_pcs s u) \<noteq> Some p" for u using node_okD(3) [OF ok, of u p] xs by auto
  have "sc_ok ?s ps"
  proof (rule sc_update [OF ok, where t = t and p = p and pc = "STake e p"])
    have "counted ?s (sc_next s p) ps = counted s (sc_next s p) ps"
      by (rule counted_cong) (use hold dist in auto)
    then show "counted ?s (sc_head ?s) ps" using sc_okD(1) [OF ok] xs nxt by simp
    have owner: "owns (sc_pcs ?s u) = Some p \<longleftrightarrow> u = t" for u using owns [of u] by simp
    show "node_ok ?s ps p" unfolding node_ok_def owner using p xs dist by auto
    show "spc_ok ?s (STake e p)" using bal hold by simp
    show "spc_ok ?s (sc_pcs s u) \<and> pending ?s (sc_pcs s u) = pending s (sc_pcs s u)"
      if "about (sc_pcs s u) = Some p" "spc_ok s (sc_pcs s u)" for u
      using that owns [of u] by (cases "sc_pcs s u") auto
    show "sc_taken ?s t = sc_ret ?s t @ pending ?s (STake e p)"
      using sc_okD(6) [OF ok, of t] pc by simp
  qed (use pc sc_okD(5) [OF ok] xs in auto)
  then show ?thesis using that [OF xs] by simp
qed

lemma sc_take_step:
  assumes ok: "sc_ok s xs" and pc: "sc_pcs s t = STake e p"
  shows "sc_ok (sc_step (t, call) s) xs \<and> (\<forall>q \<in> set xs. sc_data (sc_step (t, call) s) q = sc_data s q)"
proof -
  let ?s = "s\<lparr>sc_data := (sc_data s)(p := None), sc_pcs := (sc_pcs s)(t := SSettle e p (the (sc_data s p)))\<rparr>"
  have own: "owns (sc_pcs s t) = Some p" using pc by simp
  note p = node_okD(3) [OF ok own]
  have step: "sc_step (t, call) s = ?s"
    using pc p sc_okD(5) [OF ok] by (simp add: sc_step.simps sc_touch_id)
  have hold: "holders ?s q = holders s q" for q
    using holders_upd [OF ok, of ?s t "SSettle e p (the (sc_data s p))" q] pc by simp
  have "sc_ok ?s xs"
  proof (rule sc_update [OF ok, where t = t and p = p and pc = "SSettle e p (the (sc_data s p))"])
    have "counted ?s (sc_head s) xs = counted s (sc_head s) xs"
      by (rule counted_cong) (use hold p in auto)
    then show "counted ?s (sc_head ?s) xs" using sc_okD(1) [OF ok] by simp
    have owner: "owns (sc_pcs ?s u) = Some p \<longleftrightarrow> u = t" for u using node_okD(4) [OF ok own, of u] by auto
    show "node_ok ?s xs p" unfolding node_ok_def owner using p by auto
    show "spc_ok ?s (SSettle e p (the (sc_data s p)))" using sc_okD(4) [OF ok, of t] pc hold by simp
    show "spc_ok ?s (sc_pcs s u) \<and> pending ?s (sc_pcs s u) = pending s (sc_pcs s u)"
      if "u \<noteq> t" "about (sc_pcs s u) = Some p" "spc_ok s (sc_pcs s u)" for u
      using that node_okD(4) [OF ok own, of u] by (cases "sc_pcs s u") auto
  qed (use pc sc_okD(5,6) [OF ok] in auto)
  then show ?thesis unfolding step using p by auto
qed

lemma sc_settle_step:
  assumes ok: "sc_ok s xs" and le: "sc_upto int_max s" and pc: "sc_pcs s t = SSettle e p v"
  shows "sc_ok (sc_step (t, call) s) xs \<and> sc_data (sc_step (t, call) s) = sc_data s"
proof -
  let ?i = "sc_internal s p + (e - 2)"
  let ?pc = "if ?i = 0 then SFree p v else SIdle"
  let ?ret = "if ?i = 0 then sc_ret s else (sc_ret s)(t := sc_ret s t @ [v])"
  let ?s = "s\<lparr>sc_internal := (sc_internal s)(p := ?i), sc_ret := ?ret, sc_pcs := (sc_pcs s)(t := ?pc)\<rparr>"
  have own: "owns (sc_pcs s t) = Some p" using pc by simp
  note p = node_okD(3) [OF ok own]
  have bal: "?i = holders s p" "sc_internal s p \<le> 0" using sc_okD(4) [OF ok, of t] pc by simp_all
  have "e \<le> int_max" using upto_count(2) [OF le, of e t] pc by simp
  then have "int32 ?i = ?i" using bal order.trans [OF _ holders_nonneg [of s p], of "- (2 ^ 31)"] by (intro int32_id) simp_all
  moreover have "sc_internal s p = - (e - 2) \<longleftrightarrow> ?i = 0" by arith
  ultimately have step: "sc_step (t, call) s = ?s"
    using pc p sc_okD(5) [OF ok]
    by (auto simp: sc_step.simps sc_settle_def sc_fetch_add_def sc_touch_id sc_return_def Let_def)
  have hold: "holders ?s q = holders s q" for q
    using holders_upd [OF ok, of ?s t ?pc q] pc by simp
  have "sc_ok ?s xs"
  proof (rule sc_update [OF ok, where t = t and p = p and pc = ?pc])
    have "counted ?s (sc_head s) xs = counted s (sc_head s) xs"
      by (rule counted_cong) (use hold p in auto)
    then show "counted ?s (sc_head ?s) xs" using sc_okD(1) [OF ok] by simp
    have owner: "owns (sc_pcs ?s u) = Some p \<longleftrightarrow> u = t \<and> ?i = 0" for u
      using node_okD(4) [OF ok own, of u] by auto
    have "sc_internal ?s p = holders ?s p" using bal(1) hold [of p] by simp
    moreover have "?i \<noteq> 0 \<Longrightarrow> 0 < holders ?s p"
      using bal(1) hold [of p] holders_nonneg [of s p] by linarith
    ultimately show "node_ok ?s xs p" unfolding node_ok_def owner using p by auto
    show "spc_ok ?s ?pc" by (cases "?i = 0") (use bal hold [of p] in auto)
    show "spc_ok ?s (sc_pcs s u) \<and> pending ?s (sc_pcs s u) = pending s (sc_pcs s u)"
      if "u \<noteq> t" "about (sc_pcs s u) = Some p" "spc_ok s (sc_pcs s u)" for u
      using that node_okD(4) [OF ok own, of u] by (cases "sc_pcs s u") auto
    show "sc_taken ?s t = sc_ret ?s t @ pending ?s ?pc" using sc_okD(6) [OF ok, of t] pc by simp
  qed (use pc sc_okD(5) [OF ok] in auto)
  then show ?thesis unfolding step by simp
qed

lemma sc_free_step:
  assumes ok: "sc_ok s xs" and own: "owns (sc_pcs s t) = Some p" and none: "holders s p = 0"
    and pc': "owns pc = None" "\<And>q. \<not> refers q pc" "\<And>q. \<not> refers q (sc_pcs s t)" "\<And>s'. spc_ok s' pc"
      "about pc = None"
    and log: "ret = (sc_ret s)(t := sc_ret s t @ pending s (sc_pcs s t))"
  shows "sc_ok (s\<lparr>sc_freed := insert p (sc_freed s), sc_ret := ret, sc_pcs := (sc_pcs s)(t := pc)\<rparr>) xs"
    (is "sc_ok ?s xs")
proof -
  note p = node_okD(3) [OF ok own]
  have hold: "holders ?s q = holders s q" for q
    using holders_upd [OF ok, of ?s t pc q] pc' by simp
  have pend: "pending s'' pc = []" for s'' using pc'(1) by (cases pc) auto
  show ?thesis
  proof (rule sc_update [OF ok, where t = t and p = p and pc = pc])
    have "counted ?s (sc_head s) xs = counted s (sc_head s) xs"
      by (rule counted_cong) (use hold in auto)
    then show "counted ?s (sc_head ?s) xs" using sc_okD(1) [OF ok] by simp
    have "owns (sc_pcs ?s u) \<noteq> Some p" for u
      using node_okD(4) [OF ok own, of u] pc' by auto
    then show "node_ok ?s xs p" using p none hold [of p] by (auto simp: node_ok_def)
    show "spc_ok ?s (sc_pcs s u) \<and> pending ?s (sc_pcs s u) = pending s (sc_pcs s u)"
      if "u \<noteq> t" "about (sc_pcs s u) = Some p" for u
      using about_owner [OF ok own none] that by auto
    show "sc_taken ?s t = sc_ret ?s t @ pending ?s pc" using sc_okD(6) [OF ok, of t] by (simp add: log pend)
  qed (use own pc' sc_okD(5) [OF ok] in \<open>auto simp: log\<close>)
qed

text \<open>As long as somebody counts on a node its internal count is above the smallest \<open>int\<close>.\<close>

lemma counted_internal:
  "counted s c xs \<Longrightarrow> p \<in> set xs \<Longrightarrow> fst c \<le> k \<Longrightarrow> (\<And>n. fst (sc_next s n) \<le> k) \<Longrightarrow> holders s p + 1 - k \<le> sc_internal s p"
proof (induction xs arbitrary: c)
  case (Cons a xs)
  then show ?case using Cons.IH [of "sc_next s a"] by (cases "p = a") auto
qed simp

lemma internal_lower:
  assumes ok: "sc_ok s xs" and le: "sc_upto int_max s" and ref: "refers p (sc_pcs s t)"
  shows "1 - int_max \<le> sc_internal s p"
proof -
  note hp = holder_pos [OF ok ref]
  have small: "c \<le> int_max" if "c \<in> counts (sc_pcs s u)" for c u using upto_count(2) [OF le that] .
  consider "p \<in> set xs" | u where "owns (sc_pcs s u) = Some p" | "p \<notin> set xs" "\<And>u. owns (sc_pcs s u) \<noteq> Some p" by blast
  then show ?thesis
  proof cases
    case 1
    then have "holders s p + 1 - int_max \<le> sc_internal s p"
      by (rule counted_internal [OF sc_okD(1) [OF ok]]) (use le in \<open>auto simp: sc_upto_def\<close>)
    then show ?thesis using hp(1) by linarith
  next
    case 2
    then show ?thesis using sc_okD(4) [OF ok, of u] hp(1) small [of _ u] by (cases "sc_pcs s u") force+
  next
    case 3
    then show ?thesis using node_okD(5) [OF ok hp(2) 3(1) hp(3) 3(2)] hp(1) by (simp add: int_max_def)
  qed
qed

lemma sc_drop_step:
  assumes ok: "sc_ok s xs" and le: "sc_upto int_max s" and pc: "sc_pcs s t = SDrop p old_head"
  shows "sc_ok (sc_step (t, call) s) xs \<and> sc_data (sc_step (t, call) s) = sc_data s"
proof -
  let ?last = "sc_internal s p = 1"
  let ?pc = "if ?last then SDropFree p old_head else SInc old_head"
  let ?s = "s\<lparr>sc_internal := (sc_internal s)(p := sc_internal s p - 1), sc_pcs := (sc_pcs s)(t := ?pc)\<rparr>"
  have ref: "refers p (sc_pcs s t)" using pc by simp
  note hp = holder_pos [OF ok ref]
  have "sc_internal s p \<le> int_max" using le by (simp add: sc_upto_def)
  then have "int32 (sc_internal s p - 1) = sc_internal s p - 1"
    using internal_lower [OF ok le ref] by (intro int32_id) (simp_all add: int_max_def)
  then have step: "sc_step (t, call) s = ?s"
    using pc hp sc_okD(5) [OF ok]
    by (auto simp: sc_step.simps sc_drop_def sc_fetch_add_def sc_touch_id Let_def)
  have hold: "holders ?s q = holders s q - (if q = p then 1 else 0)" for q
    using holders_upd [OF ok, of ?s t ?pc q] pc by auto
  have chain: "counted ?s c ys" if "counted s c ys" for c ys
    using that by (induction ys arbitrary: c) (auto simp: hold)
  have owner: "spc_ok ?s (sc_pcs s u) \<and> pending ?s (sc_pcs s u) = pending s (sc_pcs s u) \<and> sc_internal s p \<le> 0"
    if "owns (sc_pcs s u) = Some p" for u
    using that sc_okD(4) [OF ok, of u] hp hold [of p] by (cases "sc_pcs s u") auto
  have free: "sc_internal s p = holders s p" if "p \<notin> set xs" "\<And>u. owns (sc_pcs s u) \<noteq> Some p"
    using node_okD(5) [OF ok hp(2) that(1) hp(3) that(2)] by simp
  have last: "p \<notin> set xs" "owns (sc_pcs s u) \<noteq> Some p" if ?last for u
    using that counted_member [OF sc_okD(1) [OF ok], of p] owner [of u] by auto
  have "sc_ok ?s xs"
  proof (rule sc_update [OF ok, where t = t and p = p and pc = ?pc])
    show "counted ?s (sc_head ?s) xs" using chain [OF sc_okD(1) [OF ok]] by simp
    have owns: "owns (sc_pcs ?s u) = Some p \<longleftrightarrow> (if ?last then u = t else owns (sc_pcs s u) = Some p)" for u
      using last(2) [of u] pc by auto
    show "node_ok ?s xs p"
    proof (cases "sc_internal s p = 1")
      case True
      then show ?thesis unfolding node_ok_def owns using hp last by simp
    next
      case False
      have h: "holders ?s p = holders s p - 1" using hold [of p] by simp
      have i: "sc_internal ?s p = sc_internal s p - 1" by simp
      have "sc_internal s p - 1 = holders s p - 1 \<and> 0 < holders s p - 1"
        if "p \<notin> set xs" "\<And>u. owns (sc_pcs s u) \<noteq> Some p"
        using free [OF that] False hp(1) by simp
      with hp sc_okD(2) [OF ok, of p] False show ?thesis
        unfolding node_ok_def owns h i by simp
    qed
    show "spc_ok ?s ?pc" using last free hold [of p] by auto
    show "spc_ok ?s (sc_pcs s u) \<and> pending ?s (sc_pcs s u) = pending s (sc_pcs s u)"
      if "about (sc_pcs s u) = Some p" "spc_ok s (sc_pcs s u)" for u
      using that owner [of u] by (cases "sc_pcs s u") auto
  qed (use pc sc_okD(5,6) [OF ok] in \<open>auto split: if_splits\<close>)
  then show ?thesis unfolding step by simp
qed

section \<open>Linearizability\<close>

lemma sc_list_eq: "sc_ok s xs \<Longrightarrow> sc_list s = map (\<lambda>p. the (sc_data s p)) xs"
  by (simp add: sc_list_def sc_nodes_eq)

definition sc_sim :: "'a scstack \<Rightarrow> nat \<times> 'a sc_call \<Rightarrow> bool" where
  "sc_sim s e \<longleftrightarrow> sc_good (sc_step e s) \<and> (case sc_vis e s of None \<Rightarrow> sc_list (sc_step e s) = sc_list s
    | Some l \<Rightarrow> lifo_spec None l (sc_list s) = Some (sc_list (sc_step e s)))"

lemma sc_hidden:
  assumes "sc_ok s xs" and "sc_ok (sc_step e s) xs" and "\<forall>p \<in> set xs. sc_data (sc_step e s) p = sc_data s p"
    and "sc_vis e s = None"
  shows "sc_sim s e"
  using assms by (auto simp: sc_sim_def sc_good_def sc_list_eq)

lemma sc_push_sim:
  assumes ok: "sc_ok s xs" and pc: "sc_pcs s t = SPushCas n"
  shows "sc_sim s (t, call)"
proof (cases "sc_head s = sc_next s n \<and> call \<noteq> Spurious")
  case True
  note ok' = sc_push_step [OF ok pc True [THEN conjunct1]]
  have step: "sc_step (t, call) s = sgo t SIdle (s\<lparr>sc_head := (1, Some n)\<rparr>)"
    using True pc by (cases call) (simp_all add: sc_step.simps sc_push_cas_def)
  then show ?thesis using True pc ok' sc_list_eq [OF ok] sc_list_eq [OF ok']
    by (auto simp: sc_sim_def sc_good_def)
next
  case False
  have step: "sc_step (t, call) s = sgo t (SPushCas n) (s\<lparr>sc_next := (sc_next s)(n := sc_head s)\<rparr>)"
    using False pc by (cases call) (auto simp: sc_step.simps sc_push_cas_def)
  have "sc_ok (sc_step (t, call) s) xs"
    unfolding step by (rule sc_link_step [OF ok]) (use pc sc_okD(4) [OF ok, of t] in auto)
  then show ?thesis by (rule sc_hidden [OF ok]) (use False pc in \<open>auto simp: step\<close>)
qed

lemma sc_increase_sim:
  assumes ok: "sc_ok s xs" and pc: "sc_pcs s t = SInc (e, r)"
  shows "sc_sim s (t, call)"
proof (cases "e = int_max")
  case True
  let ?s = "s\<lparr>sc_overflow := True\<rparr>"
  have step: "sc_step (t, call) s = ?s" using True pc by (simp add: sc_step.simps sc_increase_def)
  then have hid: "sc_vis (t, call) s = None" using True pc by simp
  have "counted ?s c ys = counted s c ys" for c ys by (rule counted_cong) (simp add: holders_def)
  moreover have "spc_ok ?s pc = spc_ok s pc" "pending ?s pc = pending s pc" for pc
    by (rule spc_cong; simp add: holders_def)+
  ultimately have "sc_ok ?s xs" using ok by (simp add: sc_ok_def node_ok_def holders_def)
  then show ?thesis by (intro sc_hidden [OF ok]) (simp_all add: step hid del: sc_vis.simps)
next
  case small: False
  show ?thesis
  proof (cases "sc_head s = (e, r)")
  case True
  note ok' = sc_increase_step [OF ok pc True]
  have step: "sc_step (t, call) s = sgo t (SGot (e + 1, r)) (s\<lparr>sc_head := (e + 1, r)\<rparr>)"
    using True pc small by (simp add: sc_step.simps sc_increase_def Let_def)
  have "xs = []" if "r = None" using that sc_okD(1) [OF ok] True by (cases xs) auto
  then show ?thesis using True pc small ok' sc_list_eq [OF ok] sc_list_eq [OF ok']
    by (auto simp: sc_sim_def sc_good_def step)
next
  case False
  have step: "sc_step (t, call) s = sgo t (SInc (sc_head s)) s"
    using False pc small by (simp add: sc_step.simps sc_increase_def Let_def)
  have "sc_ok (sc_step (t, call) s) xs" unfolding step by (rule sc_move [OF ok]) (simp_all add: pc)
  then show ?thesis by (rule sc_hidden [OF ok]) (use False pc in \<open>auto simp: step\<close>)
  qed
qed

lemma sc_swing_sim:
  assumes ok: "sc_ok s xs" and pc: "sc_pcs s t = SSwing e p nxt"
  shows "sc_sim s (t, call)"
proof (cases "sc_head s = (e, Some p)")
  case True
  obtain ps where xs: "xs = p # ps" and ok': "sc_ok (sgo t (STake e p)
      (s\<lparr>sc_head := nxt, sc_taken := (sc_taken s)(t := sc_taken s t @ [the (sc_data s p)])\<rparr>)) ps"
    by (rule sc_swing_step [OF ok pc True])
  have step: "sc_step (t, call) s = sgo t (STake e p)
      (s\<lparr>sc_head := nxt, sc_taken := (sc_taken s)(t := sc_taken s t @ [the (sc_data s p)])\<rparr>)"
    using True pc by (simp add: sc_step.simps sc_swing_def)
  then show ?thesis using True pc ok' xs sc_list_eq [OF ok] sc_list_eq [OF ok']
    by (auto simp: sc_sim_def sc_good_def)
next
  case False
  have step: "sc_step (t, call) s = sgo t (SDrop p (sc_head s)) s"
    using False pc by (simp add: sc_step.simps sc_swing_def)
  have "sc_ok (sc_step (t, call) s) xs" unfolding step by (rule sc_move [OF ok]) (simp_all add: pc)
  then show ?thesis by (rule sc_hidden [OF ok]) (use False pc in \<open>auto simp: step\<close>)
qed

lemma sc_step_sim:
  assumes inv: "sc_inv s"
  shows "sc_sim s e"
proof -
  obtain t call where e: "e = (t, call)" by (cases e)
  obtain xs where ok: "sc_ok s xs" and le: "sc_upto int_max s" using inv by (auto simp: sc_good_def sc_inv_def)
  note spc = sc_okD(4) [OF ok, of t] and hid = sc_hidden [OF ok, where e = "(t, call)"]
  show ?thesis unfolding e
  proof (cases "sc_pcs s t")
    case SIdle
    have "sc_ok (sgo t SPopLoad s) xs" by (rule sc_move [OF ok]) (simp_all add: SIdle)
    then have "sc_ok (sc_step (t, call) s) xs \<and> (\<forall>p \<in> set xs. sc_data (sc_step (t, call) s) p = sc_data s p)"
    proof (cases call)
      case (SPush v)
      then show ?thesis using sc_alloc_step [OF ok SIdle] by simp
    qed (use SIdle ok in \<open>simp_all add: sc_step.simps sc_call_step_def\<close>)
    then show "sc_sim s (t, call)" by (intro hid) (simp_all add: SIdle)
  next
    case (SPushLoad n)
    have "sc_ok (sgo t (SPushCas n) (s\<lparr>sc_next := (sc_next s)(n := sc_head s)\<rparr>)) xs"
      by (rule sc_link_step [OF ok]) (use SPushLoad spc in auto)
    then show "sc_sim s (t, call)" by (intro hid) (simp_all add: SPushLoad sc_step.simps)
  next
    case (SPushCas n)
    then show "sc_sim s (t, call)" by (rule sc_push_sim [OF ok])
  next
    case SPopLoad
    have "sc_ok (sgo t (SInc (sc_head s)) s) xs" by (rule sc_move [OF ok]) (simp_all add: SPopLoad)
    then show "sc_sim s (t, call)" by (intro hid) (simp_all add: SPopLoad sc_step.simps)
  next
    case (SInc old)
    then show "sc_sim s (t, call)" using sc_increase_sim [OF ok, of t "fst old" "snd old" call] by simp
  next
    case (SGot old)
    have "sc_ok (sc_step (t, call) s) xs \<and> sc_data (sc_step (t, call) s) = sc_data s"
    proof (cases "snd old")
      case None
      have "sc_ok (sgo t SIdle s) xs" by (rule sc_move [OF ok]) (simp_all add: SGot None)
      then show ?thesis by (simp add: SGot None sc_step.simps)
    next
      case (Some p)
      have "refers p (sc_pcs s t)" by (simp add: SGot Some)
      then have touch: "sc_touch p s = s" using holder_pos(3) [OF ok] sc_okD(5) [OF ok] by (simp add: sc_touch_id)
      have "sc_ok (sgo t (SSwing (fst old) p (sc_next s p)) s) xs"
        by (rule sc_move [OF ok]) (auto simp: SGot Some)
      then show ?thesis by (simp add: SGot Some sc_step.simps touch)
    qed
    then show "sc_sim s (t, call)" by (intro hid) (simp_all add: SGot)
  next
    case (SSwing ex p nxt)
    then show "sc_sim s (t, call)" by (rule sc_swing_sim [OF ok])
  next
    case (STake ex p)
    then show "sc_sim s (t, call)" using sc_take_step [OF ok STake, of call] by (intro hid) simp_all
  next
    case (SSettle ex p v)
    then show "sc_sim s (t, call)" using sc_settle_step [OF ok le SSettle, of call] by (intro hid) simp_all
  next
    case (SFree p v)
    have "sc_ok (s\<lparr>sc_freed := insert p (sc_freed s), sc_ret := (sc_ret s)(t := sc_ret s t @ [v]),
        sc_pcs := (sc_pcs s)(t := SIdle)\<rparr>) xs"
      by (rule sc_free_step [OF ok]) (use SFree spc in auto)
    moreover have "sc_touch p s = s"
      using node_okD(3) [OF ok, of t p] SFree sc_okD(5) [OF ok] by (simp add: sc_touch_id)
    ultimately show "sc_sim s (t, call)"
      by (intro hid) (simp_all add: SFree sc_step.simps sc_return_def sc_delete_def)
  next
    case (SDrop p old)
    then show "sc_sim s (t, call)" using sc_drop_step [OF ok le SDrop, of call] by (intro hid) simp_all
  next
    case (SDropFree p old)
    have "sc_ok (s\<lparr>sc_freed := insert p (sc_freed s), sc_ret := sc_ret s,
        sc_pcs := (sc_pcs s)(t := SInc old)\<rparr>) xs"
      by (rule sc_free_step [OF ok]) (use SDropFree spc in auto)
    moreover have "sc_touch p s = s"
      using node_okD(3) [OF ok, of t p] SDropFree sc_okD(5) [OF ok] by (simp add: sc_touch_id)
    ultimately show "sc_sim s (t, call)"
      by (intro hid) (simp_all add: SDropFree sc_step.simps sc_delete_def)
  qed
qed

lemmas sc_step_defs = sc_step.simps sc_call_step_def sc_push_cas_def sc_increase_def sc_swing_def sc_settle_def sc_drop_def sc_fetch_add_def
  sc_return_def sc_delete_def sc_touch_def Let_def

lemma sc_upto_step:
  assumes le: "sc_upto k s" and m: "1 \<le> m" "k \<le> m" "k < m \<or> m = int_max"
  shows "sc_upto m (sc_step (t, call) s)"
proof -
  let ?s = "sc_step (t, call) s"
  have h: "fst (sc_head s) \<in> {0..m}" and n: "\<And>n. fst (sc_next s n) \<in> {0..m}" and i: "\<And>p. sc_internal s p \<le> int_max"
    using le m(2) by (auto simp: sc_upto_def intro: order.trans)
  have c: "counts (sc_pcs s u) \<subseteq> {0..m}" for u using upto_count [OF le, of _ u] m(2) by force
  have i0: "0 \<le> int_max" by (simp add: int_max_def)
  have inc: "fst old + 1 \<in> {0..m}" if "sc_pcs s t = SInc old" "fst old \<noteq> int_max" for old
    using upto_count [OF le, of "fst old" t] m that by auto
  have "fst (sc_head ?s) \<in> {0..m} \<and> (\<forall>q. fst (sc_next ?s q) \<in> {0..m}) \<and> counts (sc_pcs ?s t) \<subseteq> {0..m} \<and> (\<forall>q. sc_internal ?s q \<le> int_max)
    \<and> (\<forall>u. u \<noteq> t \<longrightarrow> sc_pcs ?s u = sc_pcs s u)"
  proof (cases "sc_pcs s t")
    case (SInc old)
    then show ?thesis using h n i c [of t] inc [OF SInc] by (auto simp: sc_step_defs)
  next
    case (SGot old)
    then show ?thesis using h n i c [of t] by (auto simp: sc_step_defs split: option.splits)
  qed (use h n i i0 m(1) c [of t] in \<open>auto simp: sc_step_defs int32_le split: sc_call.splits\<close>)
  then show ?thesis using c by (auto simp: sc_upto_def) (metis (full_types) atLeastAtMost_iff subsetD)+
qed

interpretation sc: linearizable sc_step sc_inv sc_list sc_vis "lifo_spec None"
proof
  fix s :: "'a scstack" and e l
  assume inv: "sc_inv s"
  note sim = sc_step_sim [OF inv, of e]
  have "sc_upto int_max (sc_step e s)" using sc_upto_step [of int_max s int_max "fst e" "snd e"] inv by (simp add: sc_inv_def int_max_def)
  then show "sc_inv (sc_step e s)" using sim by (simp add: sc_sim_def sc_inv_def)
  show "sc_vis e s = None \<Longrightarrow> sc_list (sc_step e s) = sc_list s"
    and "sc_vis e s = Some l \<Longrightarrow> lifo_spec None l (sc_list s) = Some (sc_list (sc_step e s))"
    using sim by (auto simp: sc_sim_def)
qed

lemma sc_new_ok: "sc_ok sc_new []"
  by (auto simp: sc_ok_def sc_new_def node_ok_def holders_def)

lemma sc_new_inv: "sc_inv sc_new"
  using sc_new_ok by (auto simp: sc_inv_def sc_good_def sc_upto_def sc_new_def int_max_def)

text \<open>The external count cannot pass \<open>int_max\<close> before so many steps.\<close>

lemma no_early_overflow:
  fixes es :: "(nat \<times> 'a sc_call) list"
  assumes "int (length es) < int_max"
  shows "\<not> sc_overflow (run_sched sc_step es sc_new)"
proof -
  have "\<lbrakk>sc_upto k s; \<not> sc_overflow s; 1 \<le> k; k + int (length es) \<le> int_max\<rbrakk> \<Longrightarrow> \<not> sc_overflow (run_sched sc_step es s)"
    for k and s :: "'a scstack"
  proof (induction es arbitrary: k s)
    case (Cons e es)
    obtain t call where e: "e = (t, call)" by (cases e)
    have "fst old \<noteq> int_max" if "sc_pcs s t = SInc old" for old
      using upto_count(2) [OF Cons.prems(1), of "fst old" t] that Cons.prems(4) by simp
    then have "\<not> sc_overflow (sc_step e s)" using Cons.prems(2)
      by (cases "sc_pcs s t") (auto simp: e sc_step_defs split: sc_call.splits option.splits)
    moreover have "sc_upto (k + 1) (sc_step e s)" unfolding e by (rule sc_upto_step [OF Cons.prems(1)]) (use Cons.prems(3) in simp_all)
    ultimately show ?case using Cons.IH [of "k + 1" "sc_step e s"] Cons.prems(3,4) by simp
  qed simp
  from this [of 1 sc_new] assms show ?thesis by (auto simp: sc_upto_def sc_new_def int_max_def)
qed

section \<open>Properties\<close>

text \<open>(C8) For any number of threads and any interleaving of the single accesses of \<open>push\<close> and \<open>pop\<close>
  of \<open>lock_free_stack\<close>, spurious failures included, in which the \<open>int\<close> of the external count does not overflow, as in
  every run of fewer than \<open>2^31 - 1\<close> steps: the calls form, in the order of their decisive
  compare-exchanges, a run of a LIFO stack from empty to the current contents, and a thread's calls have returned
  the values of the nodes it unlinked, a call under way excepted.\<close>
theorem split_stack_linearizable:
  fixes es :: "(nat \<times> 'a sc_call) list"
  defines "s \<equiv> run_sched sc_step es sc_new"
  assumes "\<not> sc_overflow s \<or> int (length es) < int_max"
  shows "spec_run (lifo_spec None) (visible_trace sc_step sc_vis es sc_new) [] = Some (sc_list s)
    \<and> (\<forall>t. \<exists>rest. sc_taken s t = sc_ret s t @ rest \<and> length rest \<le> 1 \<and> (sc_pcs s t = SIdle \<longrightarrow> rest = []))
    \<and> \<not> sc_overflow s"
proof -
  have "sc_inv s" unfolding s_def by (rule sc.sched_keeps [OF sc_new_inv])
  then obtain xs where ok: "sc_ok s xs" by (auto simp: sc_inv_def sc_good_def)
  have "\<exists>rest. sc_taken s t = sc_ret s t @ rest \<and> length rest \<le> 1 \<and> (sc_pcs s t = SIdle \<longrightarrow> rest = [])" for t
    using sc_okD(6) [OF ok, of t]
    by (intro exI [of _ "pending s (sc_pcs s t)"]) (cases "sc_pcs s t"; simp)
  moreover have "sc_list (sc_new :: 'a scstack) = []" by (simp add: sc_list_eq [OF sc_new_ok])
  moreover have "\<not> sc_overflow s" using assms(2) no_early_overflow [of es] by (auto simp: s_def)
  ultimately show ?thesis using sc.trace_meets_spec [OF sc_new_inv, of es] by (simp add: s_def)
qed

theorem split_stack_linearizable_witness:
  "\<exists>rest. sc_taken (run_sched sc_step (replicate 3 (0, SPush ''a'') @ replicate 9 (1, SPop)) sc_new) 1
     = sc_ret (run_sched sc_step (replicate 3 (0, SPush ''a'') @ replicate 9 (1, SPop)) sc_new) 1 @ rest"
proof -
  let ?es = "replicate 3 (0, SPush ''a'') @ replicate 9 (1, SPop) :: (nat \<times> string sc_call) list"
  have "int (length ?es) < int_max" by (simp add: int_max_def)
  with split_stack_linearizable [of ?es] show ?thesis by blast
qed

text \<open>(C9) The split reference counts of \<open>lock_free_stack\<close> reclaim exactly what may be reclaimed, in
  every interleaving in which the external count does not overflow (as in every run of fewer than \<open>2^31 - 1\<close> steps), whatever
  the internal count does as an \<open>atomic<int>\<close>: no deleted node is used or deleted again, and every allocated node is in the stack, in
  the hands of a call, or deleted, so nothing is leaked: when no call is under way the nodes that are
  not deleted are the ones in the stack.\<close>
theorem split_stack_reclaims:
  fixes es :: "(nat \<times> 'a sc_call) list"
  defines "s \<equiv> run_sched sc_step es sc_new"
  assumes "\<not> sc_overflow s \<or> int (length es) < int_max"
  shows "\<not> sc_fault s \<and> set (sc_nodes s) \<inter> sc_freed s = {} \<and> \<not> sc_overflow s
    \<and> ((\<forall>t. sc_pcs s t = SIdle) \<longrightarrow> {..<sc_alloc s} - sc_freed s = set (sc_nodes s))"
proof -
  have "sc_inv s" unfolding s_def by (rule sc.sched_keeps [OF sc_new_inv])
  then obtain xs where ok: "sc_ok s xs" by (auto simp: sc_inv_def sc_good_def)
  have all: "p \<in> set xs" if idle: "\<forall>t. sc_pcs s t = SIdle" and p: "p < sc_alloc s" "p \<notin> sc_freed s" for p
  proof (rule ccontr)
    assume "p \<notin> set xs"
    then have "0 < holders s p" using node_okD(5) [OF ok p(1) _ p(2)] idle by simp
    with idle show False by (simp add: holders_def)
  qed
  have "\<not> sc_overflow s" using assms(2) no_early_overflow [of es] by (auto simp: s_def)
  then show ?thesis using sc_okD(5) [OF ok] node_okD(1) [OF ok] all by (auto simp: sc_nodes_eq [OF ok])
qed

theorem split_stack_reclaims_witness:
  "{..<1} - sc_freed (run_sched sc_step ([(0, SPush ''a''), (0, SPop), (0, SPop)]
     @ [(1, SPop), (1, SPop), (1, SPop), (1, SPop), (1, SPop), (1, SPop), (1, SPop), (1, SPop)]) sc_new) = {}"
proof -
  let ?es = "[(0, SPush ''a''), (0, SPop), (0, SPop)]
     @ [(1, SPop), (1, SPop), (1, SPop), (1, SPop), (1, SPop), (1, SPop), (1, SPop), (1, SPop)] :: (nat \<times> string sc_call) list"
  let ?s = "run_sched sc_step ?es sc_new"
  note run = sc_step_defs int_max_def int32_def
  have pcs: "sc_pcs ?s = (\<lambda>_. SIdle)" by (rule ext) (simp add: run sc_new_def)
  have "sc_alloc ?s = 1" by (simp add: run sc_new_def)
  moreover have "sc_nodes ?s = []" by (simp add: run sc_new_def sc_nodes_def)
  moreover have "\<forall>t. sc_pcs ?s t = SIdle" unfolding pcs by simp
  moreover have "int (length ?es) < int_max" by (simp add: int_max_def)
  ultimately show ?thesis using split_stack_reclaims [of ?es] by simp
qed

lemma empty_pops:
  "sc_pcs s t = SIdle \<Longrightarrow> sc_head s = (i, None) \<Longrightarrow> i + int k \<le> int_max \<Longrightarrow>
     sc_head (run_sched sc_step (concat (replicate k [(t, SPop), (t, SPop), (t, SPop), (t, SPop)])) s) = (i + int k, None)
     \<and> sc_pcs (run_sched sc_step (concat (replicate k [(t, SPop), (t, SPop), (t, SPop), (t, SPop)])) s) t = SIdle"
proof (induction k arbitrary: s i)
  case (Suc k)
  let ?s = "run_sched sc_step [(t, SPop), (t, SPop), (t, SPop), (t, SPop)] s"
  have "sc_pcs ?s t = SIdle" "sc_head ?s = (i + 1, None)" "i + 1 + int k \<le> int_max"
    using Suc.prems by (simp_all add: sc_step.simps sc_call_step_def sc_increase_def Let_def)
  from Suc.IH [OF this] show ?case by simp
qed simp

text \<open>A \<open>pop\<close> of \<open>lock_free_stack\<close> that finds the stack empty has increased the external count beside
  the null pointer and never takes it back: after \<open>2^31 - 1\<close> such calls, which one thread can make, the next overflows.\<close>
theorem split_stack_empty_pops_overflow:
  "sc_overflow (run_sched sc_step (concat (replicate (nat int_max) [(t, SPop), (t, SPop), (t, SPop), (t, SPop)]) @ replicate 3 (t, SPop)) (sc_new :: 'a scstack))"
proof -
  let ?s = "run_sched sc_step (concat (replicate (nat int_max) [(t, SPop), (t, SPop), (t, SPop), (t, SPop)])) (sc_new :: 'a scstack)"
  have start: "sc_pcs (sc_new :: 'a scstack) t = SIdle" "sc_head (sc_new :: 'a scstack) = (0, None)" "0 + int (nat int_max) \<le> int_max"
    by (simp_all add: sc_new_def int_max_def)
  have "0 + int (nat int_max) = int_max" by (simp add: int_max_def)
  then have "sc_head ?s = (int_max, None) \<and> sc_pcs ?s t = SIdle" using empty_pops [OF start] by simp
  then show ?thesis by (simp add: eval_nat_numeral sc_step.simps sc_call_step_def sc_increase_def)
qed

end
