(* ===== verification/TreiberStack.thy ===== *)
theory TreiberStack
  imports Prelude
begin

text \<open>
  \<open>LockFreeStack\<close> of C++_ConcurrencyInAction/memory_atomicOperation/treiberStack.cpp: the
  Treiber stack that deletes a node as soon as it is unlinked.

  Nodes are addresses, never handed out again; \<open>tr_fault\<close> records the use of a deleted node.
  A step is one access to \<open>head\<close> or to a node that other threads may use; the final read and the
  deletion of the unlinked node are one step.
\<close>

section \<open>State and steps\<close>

datatype 'a tr_call = TPush 'a | TPop | TSpurious

datatype tr_pc =
    TIdle
  | TPushLoad nat
  | TPushCas nat
  | TPopLoad
  | TPopTest "nat option"
  | TPopCas nat "nat option"
  | TFinish nat

record 'a treiber =
  tr_head :: "nat option"
  tr_data :: "nat \<Rightarrow> 'a option"
  tr_next :: "nat \<Rightarrow> nat option"
  tr_alloc :: nat
  tr_freed :: "nat set"
  tr_pcs :: "nat \<Rightarrow> tr_pc"
  tr_fault :: bool
  tr_out :: "(nat \<times> 'a option) list"

definition tr_new :: "'a treiber" where
  "tr_new = \<lparr>tr_head = None, tr_data = (\<lambda>_. None), tr_next = (\<lambda>_. None), tr_alloc = 0, tr_freed = {},
     tr_pcs = (\<lambda>_. TIdle), tr_fault = False, tr_out = []\<rparr>"

abbreviation tgo :: "nat \<Rightarrow> tr_pc \<Rightarrow> 'a treiber \<Rightarrow> 'a treiber" where
  "tgo t pc s \<equiv> s\<lparr>tr_pcs := (tr_pcs s)(t := pc)\<rparr>"

definition tr_touch :: "nat \<Rightarrow> 'a treiber \<Rightarrow> 'a treiber" where
  "tr_touch p s = s\<lparr>tr_fault := (tr_fault s \<or> p \<in> tr_freed s)\<rparr>"

definition tr_answer :: "nat \<Rightarrow> 'a option \<Rightarrow> 'a treiber \<Rightarrow> 'a treiber" where
  "tr_answer t r s = tgo t TIdle (s\<lparr>tr_out := tr_out s @ [(t, r)]\<rparr>)"

definition tr_call_step :: "nat \<Rightarrow> 'a tr_call \<Rightarrow> 'a treiber \<Rightarrow> 'a treiber" where
  "tr_call_step t call s =
     (case call of
        TPush value \<Rightarrow>
          (let n = tr_alloc s
           in tgo t (TPushLoad n) (s\<lparr>tr_alloc := Suc n, tr_data := (tr_data s)(n := Some value),
                tr_next := (tr_next s)(n := None)\<rparr>))
      | TPop \<Rightarrow> tgo t TPopLoad s
      | TSpurious \<Rightarrow> s)"

text \<open>A compare-exchange that fails stores the value it found in \<open>expected\<close>.\<close>

fun tr_step :: "nat \<times> 'a tr_call \<Rightarrow> 'a treiber \<Rightarrow> 'a treiber" where
  "tr_step (t, call) s =
     (let spurious = (case call of TSpurious \<Rightarrow> True | _ \<Rightarrow> False)
      in case tr_pcs s t of
        TIdle \<Rightarrow> tr_call_step t call s
      | TPushLoad n \<Rightarrow> tgo t (TPushCas n) (s\<lparr>tr_next := (tr_next s)(n := tr_head s)\<rparr>)
      | TPushCas n \<Rightarrow>
          if tr_head s = tr_next s n \<and> \<not> spurious
          then tgo t TIdle (s\<lparr>tr_head := Some n\<rparr>)
          else tgo t (TPushCas n) (s\<lparr>tr_next := (tr_next s)(n := tr_head s)\<rparr>)
      | TPopLoad \<Rightarrow> tgo t (TPopTest (tr_head s)) s
      | TPopTest old_head \<Rightarrow>
          (case old_head of
             None \<Rightarrow> tr_answer t None s
           | Some p \<Rightarrow> tgo t (TPopCas p (tr_next s p)) (tr_touch p s))
      | TPopCas p nxt \<Rightarrow>
          if tr_head s = Some p \<and> \<not> spurious
          then tgo t (TFinish p) (s\<lparr>tr_head := nxt\<rparr>)
          else tgo t (TPopTest (tr_head s)) s
      | TFinish p \<Rightarrow>
          tr_answer t (Some (the (tr_data s p))) ((tr_touch p s)\<lparr>tr_freed := insert p (tr_freed s)\<rparr>))"

declare tr_step.simps [simp del]

definition tr_nodes :: "'a treiber \<Rightarrow> nat list" where
  "tr_nodes s = cells (tr_next s) (tr_alloc s) (tr_head s)"

definition tr_list :: "'a treiber \<Rightarrow> 'a list" where
  "tr_list s = map (\<lambda>p. the (tr_data s p)) (tr_nodes s)"

section \<open>One consumer\<close>

text \<open>The restriction under which the code is safe: only the thread \<open>c\<close> calls \<open>pop\<close>.\<close>

fun one_popper :: "nat \<Rightarrow> nat \<times> 'a tr_call \<Rightarrow> bool" where
  "one_popper c (t, TPop) \<longleftrightarrow> t = c"
| "one_popper c (t, call) \<longleftrightarrow> True"

definition tr_guarded :: "nat \<Rightarrow> nat \<times> 'a tr_call \<Rightarrow> 'a treiber \<Rightarrow> 'a treiber" where
  "tr_guarded c e s = (if one_popper c e then tr_step e s else s)"

fun tr_vis0 :: "nat \<times> 'a tr_call \<Rightarrow> 'a treiber \<Rightarrow> 'a stack_act option" where
  "tr_vis0 (t, call) s =
     (let spurious = (case call of TSpurious \<Rightarrow> True | _ \<Rightarrow> False)
      in case tr_pcs s t of
        TPushCas n \<Rightarrow>
          if tr_head s = tr_next s n \<and> \<not> spurious then Some (Push (the (tr_data s n)) True) else None
      | TPopLoad \<Rightarrow> if tr_head s = None then Some (Pop None) else None
      | TPopCas p nxt \<Rightarrow>
          if tr_head s = Some p \<and> \<not> spurious then Some (Pop (Some (the (tr_data s p)))) else None
      | _ \<Rightarrow> None)"

definition tr_vis :: "nat \<Rightarrow> nat \<times> 'a tr_call \<Rightarrow> 'a treiber \<Rightarrow> 'a stack_act option" where
  "tr_vis c e s = (if one_popper c e then tr_vis0 e s else None)"

fun tr_own :: "tr_pc \<Rightarrow> nat option" where
  "tr_own (TPushLoad n) = Some n"
| "tr_own (TPushCas n) = Some n"
| "tr_own (TFinish n) = Some n"
| "tr_own _ = None"

fun tr_popping :: "tr_pc \<Rightarrow> bool" where
  "tr_popping TPopLoad = True"
| "tr_popping (TPopTest r) = True"
| "tr_popping (TPopCas p nxt) = True"
| "tr_popping (TFinish p) = True"
| "tr_popping _ = False"

fun tr_pc_ok :: "'a treiber \<Rightarrow> nat list \<Rightarrow> tr_pc \<Rightarrow> bool" where
  "tr_pc_ok s xs (TPopTest r) \<longleftrightarrow> (case r of None \<Rightarrow> True | Some p \<Rightarrow> p \<in> set xs)"
| "tr_pc_ok s xs (TPopCas p nxt) \<longleftrightarrow> p \<in> set xs \<and> nxt = tr_next s p"
| "tr_pc_ok s xs pc \<longleftrightarrow> True"

definition tr_ok :: "nat \<Rightarrow> 'a treiber \<Rightarrow> nat list \<Rightarrow> bool" where
  "tr_ok c s xs \<longleftrightarrow> chain (tr_next s) (tr_head s) xs None
   \<and> (\<forall>p \<in> set xs. p < tr_alloc s \<and> p \<notin> tr_freed s)
   \<and> (\<forall>p \<in> tr_freed s. p < tr_alloc s)
   \<and> (\<forall>t p. tr_own (tr_pcs s t) = Some p \<longrightarrow> p < tr_alloc s \<and> p \<notin> set xs \<and> p \<notin> tr_freed s)
   \<and> (\<forall>t u p. tr_own (tr_pcs s t) = Some p \<longrightarrow> tr_own (tr_pcs s u) = Some p \<longrightarrow> t = u)
   \<and> (\<forall>t. tr_popping (tr_pcs s t) \<longrightarrow> t = c) \<and> tr_pc_ok s xs (tr_pcs s c) \<and> \<not> tr_fault s"

definition tr_inv :: "nat \<Rightarrow> 'a treiber \<Rightarrow> bool" where
  "tr_inv c s \<longleftrightarrow> (\<exists>xs. tr_ok c s xs)"

lemma tr_okD:
  assumes "tr_ok c s xs"
  shows "chain (tr_next s) (tr_head s) xs None"
    and "p \<in> set xs \<Longrightarrow> p < tr_alloc s \<and> p \<notin> tr_freed s"
    and "p \<in> tr_freed s \<Longrightarrow> p < tr_alloc s"
    and "tr_own (tr_pcs s t) = Some p \<Longrightarrow> p < tr_alloc s \<and> p \<notin> set xs \<and> p \<notin> tr_freed s"
    and "tr_own (tr_pcs s t) = Some p \<Longrightarrow> tr_own (tr_pcs s u) = Some p \<Longrightarrow> t = u"
    and "tr_popping (tr_pcs s t) \<Longrightarrow> t = c" and "tr_pc_ok s xs (tr_pcs s c)" and "\<not> tr_fault s"
  using assms unfolding tr_ok_def by blast+

lemma tr_list_eq:
  assumes ok: "tr_ok c s xs"
  shows "tr_list s = map (\<lambda>p. the (tr_data s p)) xs"
proof -
  have "set xs \<subseteq> {..<tr_alloc s}" using tr_okD(2) [OF ok] by auto
  then have "card (set xs) \<le> tr_alloc s" by (metis card_lessThan card_mono finite_lessThan)
  then have "length xs \<le> tr_alloc s" using chain_distinct [OF tr_okD(1) [OF ok]] by (metis distinct_card)
  with tr_okD(1) [OF ok] show ?thesis unfolding tr_list_def tr_nodes_def by (simp add: cells_of_chain)
qed

lemma tr_pc_cong:
  "(\<And>p. p \<in> set xs \<Longrightarrow> tr_next s' p = tr_next s p) \<Longrightarrow> tr_pc_ok s xs pc \<Longrightarrow> set xs \<subseteq> set ys \<Longrightarrow> tr_pc_ok s' ys pc"
  by (cases pc) (auto split: option.splits)

text \<open>Transitions of the list of nodes: kept, one pushed, one popped.\<close>

lemma tr_keep:
  assumes ok: "tr_ok c s xs" and pcs: "tr_pcs s' = (tr_pcs s)(t := pc)"
    and heap: "tr_head s' = tr_head s" "tr_alloc s' = tr_alloc s" "tr_freed s' = tr_freed s" "\<not> tr_fault s'"
    and nxt: "\<And>p. p \<in> set xs \<Longrightarrow> tr_next s' p = tr_next s p"
    and own: "tr_own pc = None \<or> tr_own pc = tr_own (tr_pcs s t)"
    and pop: "tr_popping pc \<Longrightarrow> t = c" and pc: "t = c \<Longrightarrow> tr_pc_ok s' xs pc"
  shows "tr_ok c s' xs"
proof -
  have chain: "chain (tr_next s') (tr_head s') xs None"
    unfolding heap using tr_okD(1) [OF ok] nxt chain_frame [of xs "tr_next s'" "tr_next s"] by simp
  have own': "tr_own (tr_pcs s' u) = Some p \<Longrightarrow> tr_own (tr_pcs s u) = Some p" for u p
    using own by (auto simp: pcs split: if_splits)
  have "tr_pc_ok s' xs (tr_pcs s' c)"
    using pc tr_pc_cong [OF nxt tr_okD(7) [OF ok]] by (auto simp: pcs)
  moreover have "tr_popping (tr_pcs s' u) \<Longrightarrow> u = c" for u
    using pop tr_okD(6) [OF ok, of u] by (auto simp: pcs split: if_splits)
  ultimately show ?thesis unfolding tr_ok_def heap(2,3)
    using chain tr_okD(2-5) [OF ok] own' heap(4) by blast
qed

lemma tr_alloc_ok:
  assumes ok: "tr_ok c s xs" and pc: "tr_pcs s t = TIdle"
  shows "tr_ok c (tr_step (t, TPush v) s) xs \<and> (\<forall>p \<in> set xs. tr_data (tr_step (t, TPush v) s) p = tr_data s p)"
proof -
  let ?n = "tr_alloc s"
  let ?s = "s\<lparr>tr_alloc := Suc ?n, tr_data := (tr_data s)(?n := Some v), tr_next := (tr_next s)(?n := None),
    tr_pcs := (tr_pcs s)(t := TPushLoad ?n)\<rparr>"
  have step: "tr_step (t, TPush v) s = ?s" using pc by (simp add: tr_step.simps tr_call_step_def Let_def)
  have new: "?n \<notin> set xs" "?n \<notin> tr_freed s" "\<And>u. tr_own (tr_pcs s u) \<noteq> Some ?n"
    using tr_okD(2,3,4) [OF ok, where p = ?n] by auto
  have "tr_ok c ?s xs" unfolding tr_ok_def
  proof (intro conjI allI impI ballI)
    show "chain (tr_next ?s) (tr_head ?s) xs None" using tr_okD(1) [OF ok] new by simp
    have "tr_pc_ok ?s xs (tr_pcs s c)"
      by (rule tr_pc_cong [OF _ tr_okD(7) [OF ok]]) (use new in auto)
    then show "tr_pc_ok ?s xs (tr_pcs ?s c)" by simp
    show "tr_popping (tr_pcs ?s u) \<Longrightarrow> u = c" for u using tr_okD(6) [OF ok, of u] by (auto split: if_splits)
    fix u p assume o: "tr_own (tr_pcs ?s u) = Some p"
    show "p < tr_alloc ?s" "p \<notin> set xs" "p \<notin> tr_freed ?s"
      using o new tr_okD(4) [OF ok, of u p] by (auto split: if_splits)
    fix w assume "tr_own (tr_pcs ?s w) = Some p"
    with o new(3) show "u = w" using tr_okD(5) [OF ok, of u p w] by (auto split: if_splits)
  next
    show "p < tr_alloc ?s" if "p \<in> set xs" for p using tr_okD(2) [OF ok that] by simp
    show "p < tr_alloc ?s" if "p \<in> tr_freed ?s" for p using tr_okD(3) [OF ok, of p] that by simp
  qed (use tr_okD(2,8) [OF ok] in auto)
  then show ?thesis unfolding step using new by auto
qed

lemma tr_push_ok:
  assumes ok: "tr_ok c s xs" and pc: "tr_pcs s t = TPushCas n" and head: "tr_head s = tr_next s n"
  shows "tr_ok c (s\<lparr>tr_head := Some n, tr_pcs := (tr_pcs s)(t := TIdle)\<rparr>) (n # xs)" (is "tr_ok c ?s (n # xs)")
proof -
  have own: "tr_own (tr_pcs s t) = Some n" using pc by simp
  note n = tr_okD(4) [OF ok own]
  show ?thesis unfolding tr_ok_def
  proof (intro conjI allI impI ballI)
    show "chain (tr_next ?s) (tr_head ?s) (n # xs) None" using tr_okD(1) [OF ok] head by simp
    have "tr_pc_ok ?s (n # xs) (tr_pcs s c)"
      by (rule tr_pc_cong [OF _ tr_okD(7) [OF ok]]) auto
    then show "tr_pc_ok ?s (n # xs) (tr_pcs ?s c)" by simp
    show "tr_popping (tr_pcs ?s u) \<Longrightarrow> u = c" for u using tr_okD(6) [OF ok, of u] by (auto split: if_splits)
    fix u p assume "tr_own (tr_pcs ?s u) = Some p"
    then have o: "tr_own (tr_pcs s u) = Some p" and "u \<noteq> t" by (auto split: if_splits)
    then have "p \<noteq> n" using tr_okD(5) [OF ok o, of t] own by auto
    then show "p < tr_alloc ?s" "p \<notin> set (n # xs)" "p \<notin> tr_freed ?s" using tr_okD(4) [OF ok o] by auto
    fix w assume "tr_own (tr_pcs ?s w) = Some p"
    then have "tr_own (tr_pcs s w) = Some p" by (auto split: if_splits)
    with o show "u = w" by (rule tr_okD(5) [OF ok])
  qed (use tr_okD(2,3,8) [OF ok] n in auto)
qed

lemma tr_pop_ok:
  assumes ok: "tr_ok c s xs" and pc: "tr_pcs s t = TPopCas p nxt" and head: "tr_head s = Some p"
  obtains ps where "xs = p # ps" "tr_ok c (s\<lparr>tr_head := nxt, tr_pcs := (tr_pcs s)(t := TFinish p)\<rparr>) ps"
proof -
  let ?s = "s\<lparr>tr_head := nxt, tr_pcs := (tr_pcs s)(t := TFinish p)\<rparr>"
  have tc: "t = c" using tr_okD(6) [OF ok, of t] pc by simp
  then have p: "p \<in> set xs" "nxt = tr_next s p" using tr_okD(7) [OF ok] pc by auto
  obtain ps where xs: "xs = p # ps" and ch: "chain (tr_next s) nxt ps None"
    using tr_okD(1) [OF ok] head p by (cases xs) auto
  have dist: "p \<notin> set ps" using chain_distinct [OF tr_okD(1) [OF ok]] xs by simp
  have own: "tr_own (tr_pcs s u) \<noteq> Some p" for u using tr_okD(4) [OF ok, of u p] p by auto
  have "tr_ok c ?s ps" unfolding tr_ok_def
  proof (intro conjI allI impI ballI)
    show "tr_popping (tr_pcs ?s u) \<Longrightarrow> u = c" for u using tr_okD(6) [OF ok, of u] tc by (auto split: if_splits)
    fix u q assume o: "tr_own (tr_pcs ?s u) = Some q"
    show "q < tr_alloc ?s" "q \<notin> set ps" "q \<notin> tr_freed ?s"
      using o xs dist tr_okD(4) [OF ok, of u q] tr_okD(2) [OF ok p(1)] by (auto split: if_splits)
    fix w assume "tr_own (tr_pcs ?s w) = Some q"
    with o own show "u = w" using tr_okD(5) [OF ok, of u q w] by (auto split: if_splits)
  qed (use ch xs tc tr_okD(2,3,8) [OF ok] in auto)
  with xs that show ?thesis by blast
qed

lemma tr_finish_ok:
  assumes ok: "tr_ok c s xs" and pc: "tr_pcs s t = TFinish p"
  shows "tr_ok c (s\<lparr>tr_freed := insert p (tr_freed s), tr_out := r, tr_pcs := (tr_pcs s)(t := TIdle)\<rparr>) xs"
    (is "tr_ok c ?s xs")
proof -
  have own: "tr_own (tr_pcs s t) = Some p" using pc by simp
  note p = tr_okD(4) [OF ok own]
  show ?thesis unfolding tr_ok_def
  proof (intro conjI allI impI ballI)
    have "tr_pc_ok ?s xs (tr_pcs s c)" by (rule tr_pc_cong [OF _ tr_okD(7) [OF ok]]) auto
    then show "tr_pc_ok ?s xs (tr_pcs ?s c)" by simp
    show "tr_popping (tr_pcs ?s u) \<Longrightarrow> u = c" for u using tr_okD(6) [OF ok, of u] by (auto split: if_splits)
    fix u q assume "tr_own (tr_pcs ?s u) = Some q"
    then have o: "tr_own (tr_pcs s u) = Some q" and "u \<noteq> t" by (auto split: if_splits)
    then have "q \<noteq> p" using tr_okD(5) [OF ok o, of t] own by auto
    then show "q < tr_alloc ?s" "q \<notin> set xs" "q \<notin> tr_freed ?s" using tr_okD(4) [OF ok o] by auto
    fix w assume "tr_own (tr_pcs ?s w) = Some q"
    then have "tr_own (tr_pcs s w) = Some q" by (auto split: if_splits)
    with o show "u = w" by (rule tr_okD(5) [OF ok])
  next
    show "q \<notin> tr_freed ?s" if "q \<in> set xs" for q using that p tr_okD(2) [OF ok that] by auto
  qed (use tr_okD(1,2,3,8) [OF ok] p in auto)
qed

definition tr_sim :: "nat \<Rightarrow> 'a treiber \<Rightarrow> nat \<times> 'a tr_call \<Rightarrow> bool" where
  "tr_sim c s e \<longleftrightarrow> tr_inv c (tr_step e s) \<and> (case tr_vis0 e s of None \<Rightarrow> tr_list (tr_step e s) = tr_list s
    | Some l \<Rightarrow> lifo_spec None l (tr_list s) = Some (tr_list (tr_step e s)))"

lemma tr_hidden:
  assumes "tr_ok c s xs" and "tr_ok c (tr_step e s) xs" and "\<forall>p \<in> set xs. tr_data (tr_step e s) p = tr_data s p"
    and "tr_vis0 e s = None"
  shows "tr_sim c s e"
  using assms by (auto simp: tr_sim_def tr_inv_def tr_list_eq)

lemma tr_step_sim:
  assumes inv: "tr_inv c s" and call: "one_popper c (t, call)"
  shows "tr_sim c s (t, call)"
proof -
  obtain xs where ok: "tr_ok c s xs" using inv by (auto simp: tr_inv_def)
  define spurious where "spurious = (case call of TSpurious \<Rightarrow> True | _ \<Rightarrow> False)"
  note hid = tr_hidden [OF ok, where e = "(t, call)"] and keep = tr_keep [OF ok, where t = t]
  note step = tr_step.simps Let_def
  show ?thesis
  proof (cases "tr_pcs s t")
    case TIdle
    show ?thesis
    proof (cases call)
      case (TPush v)
      then show ?thesis using tr_alloc_ok [OF ok TIdle, of v] by (intro hid) (simp_all add: TIdle)
    next
      case TPop
      have "tr_ok c (tr_step (t, call) s) xs"
        by (rule keep [of _ TPopLoad]) (use TIdle TPop call tr_okD(8) [OF ok] in \<open>simp_all add: step tr_call_step_def\<close>)
      then show ?thesis by (intro hid) (simp_all add: TIdle TPop step tr_call_step_def)
    next
      case TSpurious
      then show ?thesis using ok by (intro hid) (simp_all add: TIdle step tr_call_step_def)
    qed
  next
    case (TPushLoad n)
    have n: "n \<notin> set xs" using tr_okD(4) [OF ok, of t n] TPushLoad by simp
    have "tr_ok c (tr_step (t, call) s) xs"
      by (rule keep [of _ "TPushCas n"]) (use TPushLoad n tr_okD(8) [OF ok] in \<open>auto simp: step\<close>)
    then show ?thesis by (intro hid) (simp_all add: TPushLoad step)
  next
    case (TPushCas n)
    have n: "n \<notin> set xs" using tr_okD(4) [OF ok, of t n] TPushCas by simp
    show ?thesis
    proof (cases "tr_head s = tr_next s n \<and> \<not> spurious")
      case True
      note ok' = tr_push_ok [OF ok TPushCas True [THEN conjunct1]]
      have "tr_step (t, call) s = s\<lparr>tr_head := Some n, tr_pcs := (tr_pcs s)(t := TIdle)\<rparr>"
        using True TPushCas by (simp add: step spurious_def)
      then show ?thesis using True ok' tr_list_eq [OF ok] tr_list_eq [OF ok'] TPushCas
        by (auto simp: tr_sim_def tr_inv_def spurious_def Let_def)
    next
      case False
      then have eq: "tr_step (t, call) s = tgo t (TPushCas n) (s\<lparr>tr_next := (tr_next s)(n := tr_head s)\<rparr>)"
        using TPushCas by (auto simp: step spurious_def)
      have "tr_ok c (tr_step (t, call) s) xs" unfolding eq
        by (rule keep [of _ "TPushCas n"]) (use TPushCas n tr_okD(8) [OF ok] in auto)
      then show ?thesis by (rule hid) (use False TPushCas in \<open>auto simp: eq spurious_def Let_def\<close>)
    qed
  next
    case TPopLoad
    then have tc: "t = c" using tr_okD(6) [OF ok, of t] by simp
    have "tr_head s = Some p \<Longrightarrow> p \<in> set xs" for p using tr_okD(1) [OF ok] by (cases xs) auto
    then have ok': "tr_ok c (tr_step (t, call) s) xs"
      by (intro keep [of _ "TPopTest (tr_head s)"])
        (use TPopLoad tc tr_okD(8) [OF ok] in \<open>auto simp: step split: option.splits\<close>)
    have "xs = []" if "tr_head s = None" using that tr_okD(1) [OF ok] by simp
    then show ?thesis using TPopLoad ok' tr_list_eq [OF ok] tr_list_eq [OF ok']
      by (auto simp: tr_sim_def tr_inv_def step)
  next
    case (TPopTest old)
    then have tc: "t = c" using tr_okD(6) [OF ok, of t] by simp
    have "tr_ok c (tr_step (t, call) s) xs"
    proof (cases old)
      case None
      then show ?thesis
        by (intro keep [of _ TIdle]) (use TPopTest tr_okD(8) [OF ok] in \<open>simp_all add: step tr_answer_def\<close>)
    next
      case (Some p)
      then have p: "p \<in> set xs" "p \<notin> tr_freed s"
        using tr_okD(7) [OF ok] TPopTest tc tr_okD(2) [OF ok, of p] by auto
      then show ?thesis
        by (intro keep [of _ "TPopCas p (tr_next s p)"])
          (use TPopTest Some tc tr_okD(8) [OF ok] in \<open>simp_all add: step tr_touch_def\<close>)
    qed
    then show ?thesis by (rule hid) (use TPopTest in \<open>auto simp: step tr_answer_def tr_touch_def split: option.splits\<close>)
  next
    case (TPopCas p nxt)
    then have tc: "t = c" using tr_okD(6) [OF ok, of t] by simp
    show ?thesis
    proof (cases "tr_head s = Some p \<and> \<not> spurious")
      case True
      obtain ps where xs: "xs = p # ps" and
        ok': "tr_ok c (s\<lparr>tr_head := nxt, tr_pcs := (tr_pcs s)(t := TFinish p)\<rparr>) ps"
        by (rule tr_pop_ok [OF ok TPopCas True [THEN conjunct1]])
      have "tr_step (t, call) s = s\<lparr>tr_head := nxt, tr_pcs := (tr_pcs s)(t := TFinish p)\<rparr>"
        using True TPopCas by (simp add: step spurious_def)
      then show ?thesis using True ok' xs tr_list_eq [OF ok] tr_list_eq [OF ok'] TPopCas
        by (auto simp: tr_sim_def tr_inv_def spurious_def Let_def)
    next
      case False
      then have eq: "tr_step (t, call) s = tgo t (TPopTest (tr_head s)) s"
        using TPopCas by (auto simp: step spurious_def)
      have "tr_head s = Some q \<Longrightarrow> q \<in> set xs" for q using tr_okD(1) [OF ok] by (cases xs) auto
      then have "tr_ok c (tr_step (t, call) s) xs" unfolding eq
        by (intro keep [of _ "TPopTest (tr_head s)"])
          (use TPopCas tc tr_okD(8) [OF ok] in \<open>auto split: option.splits\<close>)
      then show ?thesis by (rule hid) (use False TPopCas in \<open>auto simp: eq spurious_def Let_def\<close>)
    qed
  next
    case (TFinish p)
    have "p \<notin> tr_freed s" using tr_okD(4) [OF ok, of t p] TFinish by simp
    then have eq: "tr_step (t, call) s = s\<lparr>tr_freed := insert p (tr_freed s),
        tr_out := tr_out s @ [(t, Some (the (tr_data s p)))], tr_pcs := (tr_pcs s)(t := TIdle)\<rparr>"
      using TFinish tr_okD(8) [OF ok] by (simp add: step tr_answer_def tr_touch_def)
    have "tr_ok c (tr_step (t, call) s) xs" unfolding eq by (rule tr_finish_ok [OF ok TFinish])
    then show ?thesis by (rule hid) (simp_all add: TFinish eq)
  qed
qed

interpretation tr: linearizable "tr_guarded c" "tr_inv c" tr_list "tr_vis c" "lifo_spec None"
  for c
proof
  fix s :: "'a treiber" and e l
  assume inv: "tr_inv c s"
  have sim: "tr_sim c s e" if "one_popper c e" using tr_step_sim [OF inv] that by (cases e) simp
  then show "tr_inv c (tr_guarded c e s)" using inv by (auto simp: tr_guarded_def tr_sim_def)
  show "tr_vis c e s = None \<Longrightarrow> tr_list (tr_guarded c e s) = tr_list s"
    and "tr_vis c e s = Some l \<Longrightarrow> lifo_spec None l (tr_list s) = Some (tr_list (tr_guarded c e s))"
    using sim by (auto simp: tr_guarded_def tr_vis_def tr_sim_def split: if_splits)
qed

lemma tr_new_inv: "tr_inv c tr_new"
  unfolding tr_inv_def by (rule exI [of _ "[]"]) (simp add: tr_ok_def tr_new_def)

section \<open>Properties\<close>

text \<open>With any number of pushing threads and one popping thread the Treiber stack never uses a deleted
  node, and its calls form a run of a LIFO stack from empty to the current contents.\<close>
theorem treiber_one_popper_safe:
  fixes es :: "(nat \<times> 'a tr_call) list"
  assumes "\<forall>e \<in> set es. one_popper c e"
  shows "\<not> tr_fault (run_sched tr_step es tr_new)
    \<and> spec_run (lifo_spec None) (visible_trace tr_step tr_vis0 es tr_new) []
        = Some (tr_list (run_sched tr_step es tr_new))"
proof -
  have run: "run_sched (tr_guarded c) es s = run_sched tr_step es s" for s
    by (rule run_sched_cong) (use assms in \<open>simp add: tr_guarded_def\<close>)
  have "tr_inv c (run_sched tr_step es tr_new)"
    using tr.sched_keeps [OF tr_new_inv, of c es] by (simp add: run)
  then have "\<not> tr_fault (run_sched tr_step es tr_new)" by (auto simp: tr_inv_def dest: tr_okD(8))
  moreover have "visible_trace (tr_guarded c) (tr_vis c) es s = visible_trace tr_step tr_vis0 es s" for s
    using assms by (induction es arbitrary: s) (simp_all add: tr_guarded_def tr_vis_def)
  moreover have "tr_list (tr_new :: 'a treiber) = []" by (simp add: tr_list_def tr_nodes_def tr_new_def)
  ultimately show ?thesis using tr.trace_meets_spec [OF tr_new_inv, of c es] by (simp add: run)
qed

theorem treiber_one_popper_safe_witness:
  "\<not> tr_fault (run_sched tr_step [(0, TPush ''a''), (0, TSpurious), (0, TPush ''a''), (1, TPush ''b''), (1, TSpurious),
     (1, TPush ''b''), (0, TPop), (0, TPop), (0, TPop), (0, TPop), (0, TPop)] tr_new)"
  using treiber_one_popper_safe [of "[(0, TPush ''a''), (0, TSpurious), (0, TPush ''a''), (1, TPush ''b''), (1, TSpurious),
     (1, TPush ''b''), (0, TPop), (0, TPop), (0, TPop), (0, TPop), (0, TPop)]" 0] by simp

text \<open>With two popping threads the Treiber stack reads a deleted node: one has loaded the head, the other
  pops that node and deletes it, and the first one reads its \<open>next\<close>.\<close>
theorem treiber_two_poppers_use_after_free:
  "tr_fault (run_sched tr_step ([(0, TPush x), (0, TPush x), (0, TPush x), (0, TPop), (0, TPop)]
     @ [(1, TPop), (1, TPop), (1, TPop), (1, TPop), (1, TPop)] @ [(0, TPop)]) tr_new)"
  by (simp add: tr_step.simps tr_new_def tr_call_step_def tr_touch_def tr_answer_def Let_def)

end
