(* ===== verification/MemoryPools.thy ===== *)
theory MemoryPools
  imports Prelude "HOL-Library.Word"
begin

unbundle bit_operations_syntax

text \<open>
  The two memory pools: \<open>CoroutinePoolAllocator\<close> (modern_cpp_core/coroutines/coroutine_pool.hpp
  and .cpp) and \<open>MonotonicMemoryPool\<close> (modern_cpp_core/memory/monotonic_memory_pool.hpp).

  Addresses are natural numbers: offsets in the buffer of the coroutine pool, absolute addresses for the
  monotonic pool, whose buffer begins at \<open>base\<close>.  \<open>std::size_t\<close> has 64 bits, a \<open>Block\<close> 8 bytes, and
  the maximal alignment is 16.  Every operation of the coroutine pool holds the spinlock, so
  concurrent calls are sequences of whole operations.
\<close>

section \<open>The contract of a pool\<close>

text \<open>The clients' view: the extents (address and length) they hold.\<close>

definition apart :: "nat \<times> nat \<Rightarrow> nat \<times> nat \<Rightarrow> bool" where
  "apart x y \<longleftrightarrow> fst x + snd x \<le> fst y \<or> fst y + snd y \<le> fst x"

definition all_apart :: "(nat \<times> nat) list \<Rightarrow> bool" where
  "all_apart L \<longleftrightarrow> (\<forall>i j. i < j \<longrightarrow> j < length L \<longrightarrow> apart (L ! i) (L ! j))"

definition inside :: "nat \<Rightarrow> nat \<Rightarrow> (nat \<times> nat) list \<Rightarrow> bool" where
  "inside lo hi L \<longleftrightarrow> (\<forall>x \<in> set L. lo \<le> fst x \<and> fst x + snd x \<le> hi)"

datatype 'r pool_op = Req 'r | Rel nat

text \<open>A request that is refused leaves the clients' extents alone; a release gives back the extent at
  a position of the list, if there is one.\<close>

fun pool_step ::
  "('r \<Rightarrow> 's \<Rightarrow> nat option \<times> 's) \<Rightarrow> ('r \<Rightarrow> nat) \<Rightarrow> (nat \<Rightarrow> 's \<Rightarrow> 's) \<Rightarrow> 'r pool_op \<Rightarrow>
    's \<times> (nat \<times> nat) list \<Rightarrow> 's \<times> (nat \<times> nat) list" where
  "pool_step alloc len rel (Req r) (s, L) =
     (case alloc r s of (None, s') \<Rightarrow> (s', L) | (Some p, s') \<Rightarrow> (s', (p, len r) # L))"
| "pool_step alloc len rel (Rel i) (s, L) =
     (if i < length L then (rel (fst (L ! i)) s, take i L @ drop (Suc i) L) else (s, L))"

locale pool =
  fixes ok :: "'s \<Rightarrow> (nat \<times> nat) list \<Rightarrow> bool" and alloc :: "'r \<Rightarrow> 's \<Rightarrow> nat option \<times> 's"
    and len :: "'r \<Rightarrow> nat" and rel :: "nat \<Rightarrow> 's \<Rightarrow> 's" and lo hi :: nat
  assumes alloc_some: "ok s L \<Longrightarrow> alloc r s = (Some p, s') \<Longrightarrow> ok s' ((p, len r) # L)"
    and alloc_none: "ok s L \<Longrightarrow> alloc r s = (None, s') \<Longrightarrow> ok s' L"
    and rel_ok: "ok s (A @ (p, n) # B) \<Longrightarrow> ok (rel p s) (A @ B)"
    and ok_apart: "ok s L \<Longrightarrow> all_apart L"
    and ok_inside: "ok s L \<Longrightarrow> inside lo hi L"
begin

lemma pool_step_ok: "ok (fst x) (snd x) \<Longrightarrow> ok (fst (pool_step alloc len rel op x)) (snd (pool_step alloc len rel op x))"
proof (cases op)
  case (Req r)
  assume "ok (fst x) (snd x)"
  then show ?thesis using alloc_some alloc_none Req
    by (cases x; cases "alloc r (fst x)") (auto split: option.splits)
next
  case (Rel i)
  assume ok: "ok (fst x) (snd x)"
  obtain s L where x: "x = (s, L)" by (cases x)
  show ?thesis
  proof (cases "i < length L")
    case True
    then have "L = take i L @ (fst (L ! i), snd (L ! i)) # drop (Suc i) L" by (simp add: id_take_nth_drop)
    then have "ok s (take i L @ (fst (L ! i), snd (L ! i)) # drop (Suc i) L)" using ok x by simp
    from rel_ok [OF this] show ?thesis using True by (simp add: x Rel)
  qed (use ok in \<open>simp add: x Rel\<close>)
qed

end

sublocale pool \<subseteq> interleaving "pool_step alloc len rel" "\<lambda>x. ok (fst x) (snd x)"
  by unfold_locales (rule pool_step_ok)

context pool
begin

lemma held_extents:
  assumes "ok s []"
  shows "all_apart (snd (run_sched (pool_step alloc len rel) ops (s, [])))
    \<and> inside lo hi (snd (run_sched (pool_step alloc len rel) ops (s, [])))"
  using sched_keeps [of "(s, [])" ops] assms ok_apart ok_inside by simp

end

section \<open>CoroutinePoolAllocator\<close>

type_synonym size_t = "64 word"

datatype pool_error = Bad_alloc

record cpool =
  s_buffer :: nat              \<comment> \<open>the length of \<open>s_memory_buffer\<close>, 0 for none\<close>
  s_next :: "nat \<Rightarrow> nat option" \<comment> \<open>the \<open>next\<close> fields, by the block's offset\<close>
  s_free_list :: "nat option"
  s_block_size :: size_t
  s_initialized :: bool
  s_ub :: bool                 \<comment> \<open>a block was accessed outside the buffer\<close>

definition cp_static :: cpool where
  "cp_static = \<lparr>s_buffer = 0, s_next = (\<lambda>_. None), s_free_list = None, s_block_size = 0,
     s_initialized = False, s_ub = False\<rparr>"

definition sizeof_Block :: size_t where
  "sizeof_Block = 8"

definition max_align :: size_t where
  "max_align = 16"

definition round_block :: "size_t \<Rightarrow> size_t" where
  "round_block block_size =
     (let b = (if block_size < sizeof_Block then sizeof_Block else block_size)
      in (b + max_align - 1) AND NOT (max_align - 1))"

definition set_next :: "nat \<Rightarrow> nat option \<Rightarrow> cpool \<Rightarrow> cpool" where
  "set_next p v s = s\<lparr>s_next := (s_next s)(p := v), s_ub := (s_ub s \<or> s_buffer s < p + unat sizeof_Block)\<rparr>"

function link_blocks :: "nat \<Rightarrow> nat \<Rightarrow> nat \<Rightarrow> cpool \<Rightarrow> cpool" where
  "link_blocks i max_coroutines current s =
     (if i < max_coroutines
      then let b = unat (of_nat i * s_block_size s)
           in link_blocks (Suc i) max_coroutines b (set_next current (Some b) s)
      else set_next current None s)"
  by pat_completeness auto
termination by (relation "measure (\<lambda>(i, m, _). m - i)") auto

declare link_blocks.simps [simp del]

text \<open>\<open>new std::byte[n]\<close> throws \<open>bad_alloc\<close> when \<open>n\<close> exceeds what the heap has (\<open>heap\<close>).\<close>

definition cp_init :: "nat \<Rightarrow> nat \<Rightarrow> size_t \<Rightarrow> cpool \<Rightarrow> (pool_error + unit) \<times> cpool" where
  "cp_init heap max_coroutines block_size s =
     (if s_initialized s then (Inr (), s)
      else let s1 = s\<lparr>s_block_size := round_block block_size\<rparr>;
               n = unat (of_nat max_coroutines * s_block_size s1)
           in if heap < n then (Inl Bad_alloc, s1)
              else let s2 = link_blocks 1 max_coroutines 0 (s1\<lparr>s_buffer := n, s_free_list := Some 0\<rparr>)
                   in (Inr (), s2\<lparr>s_initialized := True\<rparr>))"

definition cp_destroy :: "cpool \<Rightarrow> cpool" where
  "cp_destroy s = (if \<not> s_initialized s then s
     else s\<lparr>s_buffer := 0, s_free_list := None, s_initialized := False\<rparr>)"

definition cp_allocate :: "size_t \<Rightarrow> cpool \<Rightarrow> (pool_error + nat) \<times> cpool" where
  "cp_allocate sz s =
     (if \<not> s_initialized s then (Inl Bad_alloc, s)
      else if s_block_size s < sz then (Inl Bad_alloc, s)
      else case s_free_list s of
             None \<Rightarrow> (Inl Bad_alloc, s)
           | Some block \<Rightarrow> (Inr block, s\<lparr>s_free_list := s_next s block\<rparr>))"

definition cp_deallocate :: "nat option \<Rightarrow> cpool \<Rightarrow> cpool" where
  "cp_deallocate ptr s =
     (case ptr of None \<Rightarrow> s
      | Some block \<Rightarrow> if \<not> s_initialized s then s
                      else (set_next block (s_free_list s) s)\<lparr>s_free_list := Some block\<rparr>)"

text \<open>The owner of a block writes into it, over the \<open>next\<close> field too.\<close>

definition cp_write :: "nat \<Rightarrow> nat option \<Rightarrow> cpool \<Rightarrow> cpool" where
  "cp_write block v s = s\<lparr>s_next := (s_next s)(block := v)\<rparr>"

section \<open>The free list\<close>

definition cp_ok :: "nat \<Rightarrow> nat \<Rightarrow> cpool \<Rightarrow> (nat \<times> nat) list \<Rightarrow> bool" where
  "cp_ok n bs s L \<longleftrightarrow> s_initialized s \<and> \<not> s_ub s \<and> unat (s_block_size s) = bs \<and> 16 \<le> bs \<and> 16 dvd bs
     \<and> s_buffer s = n * bs
     \<and> (\<exists>free. chain (s_next s) (s_free_list s) free None
          \<and> distinct (free @ map fst L) \<and> set (free @ map fst L) = (\<lambda>i. i * bs) ` {..<n})
     \<and> (\<forall>x \<in> set L. snd x = bs)"

lemma round_block_nat:
  assumes "unat b \<le> 2 ^ 64 - 16"
  shows "unat (round_block b) = (max 8 (unat b) + 15) div 16 * 16"
proof -
  define m :: size_t where "m = (if b < sizeof_Block then sizeof_Block else b)"
  have m: "unat m = max 8 (unat b)"
    by (auto simp: m_def sizeof_Block_def word_less_nat_alt)
  have "unat (m + 15) = unat m + 15"
    using assms m by (simp add: unat_word_ariths)
  moreover have "(m + 15) AND NOT 15 = (m + 15) div 16 * 16" (is "?l = ?r")
  proof -
    have "(15 :: size_t) = mask 4" by (simp add: mask_eq_exp_minus_1)
    then have fifteen: "bit (15 :: size_t) n \<longleftrightarrow> n < 4" for n
      by (simp only: bit_mask_iff) auto
    have "?l = push_bit 4 (drop_bit 4 (m + 15))"
      by (rule bit_word_eqI) (simp only: bit_and_iff bit_not_iff bit_push_bit_iff bit_drop_bit_eq fifteen, auto)
    also have "\<dots> = ?r" by (simp add: push_bit_eq_mult drop_bit_eq_div)
    finally show ?thesis .
  qed
  moreover have "unat ((m + 15) div 16 * 16) = unat (m + 15) div 16 * 16"
  proof -
    have "unat ((m + 15) div 16) = unat (m + 15) div 16" by (simp add: unat_div)
    moreover have "unat (m + 15) < 2 ^ LENGTH(64)" by (rule unsigned_less)
    then have "unat (m + 15) div 16 * 16 < 2 ^ 64" by simp
    ultimately show ?thesis by (simp add: unat_word_ariths)
  qed
  moreover have "m + 16 - 1 = m + 15" and "(16 :: size_t) - 1 = 15" by simp_all
  then have "round_block b = (m + 15) AND NOT 15"
    by (simp only: round_block_def m_def [symmetric] max_align_def Let_def)
  ultimately show ?thesis by (simp only: m)
qed

lemma set_next_fields [simp]:
  "s_buffer (set_next p v s) = s_buffer s" "s_free_list (set_next p v s) = s_free_list s"
  "s_block_size (set_next p v s) = s_block_size s" "s_initialized (set_next p v s) = s_initialized s"
  "s_next (set_next p v s) = (s_next s)(p := v)"
  "s_ub (set_next p v s) = (s_ub s \<or> s_buffer s < p + 8)"
  by (simp_all add: set_next_def sizeof_Block_def)

lemma unat_times: "unat (of_nat a * w) = (a * unat w) mod 2 ^ 64" for w :: size_t
proof -
  have "of_nat a * w = of_nat (a * unat w)" by simp
  then show ?thesis by (simp only: unat_of_nat) simp
qed

lemma link_blocks_chain:
  assumes bs: "unat (s_block_size s) = bs" "8 \<le> bs" and room: "s_buffer s = n * bs" "n * bs < 2 ^ 64"
    and k: "k < n"
  defines "s' \<equiv> link_blocks (Suc k) n (k * bs) s"
  shows "chain (s_next s') (Some (k * bs)) (map (\<lambda>j. j * bs) [k..<n]) None
    \<and> (\<forall>p. (\<forall>j. k \<le> j \<longrightarrow> p \<noteq> j * bs) \<longrightarrow> s_next s' p = s_next s p)
    \<and> s_buffer s' = s_buffer s \<and> s_free_list s' = s_free_list s \<and> s_block_size s' = s_block_size s
    \<and> s_initialized s' = s_initialized s \<and> s_ub s' = s_ub s"
  using bs room k unfolding s'_def
proof (induction "n - k" arbitrary: k s)
  case 0
  then show ?case by simp
next
  case (Suc d)
  have fits: "\<not> s_buffer s < k * bs + 8"
  proof -
    have "Suc k * bs \<le> n * bs" using Suc.prems by (intro mult_le_mono1) simp
    then show ?thesis using Suc.prems by simp
  qed
  show ?case
  proof (cases "Suc k < n")
    case False
    then have "n = Suc k" using Suc.prems by simp
    moreover have "link_blocks (Suc k) n (k * bs) s = set_next (k * bs) None s"
      using False by (simp add: link_blocks.simps)
    ultimately show ?thesis using fits by simp
  next
    case True
    let ?s = "set_next (k * bs) (Some (Suc k * bs)) s"
    have "Suc k * bs < n * bs" using True Suc.prems by (intro mult_less_mono1) auto
    then have "Suc k * bs < 2 ^ 64" using Suc.prems(4) by linarith
    then have "unat (of_nat (Suc k) * s_block_size s) = Suc k * bs"
      unfolding unat_times Suc.prems(1) by (rule mod_less)
    then have step: "link_blocks (Suc k) n (k * bs) s = link_blocks (Suc (Suc k)) n (Suc k * bs) ?s"
      using True by (subst link_blocks.simps) (simp add: Let_def)
    note IH = Suc.hyps(1) [of "Suc k" ?s]
    have d: "d = n - Suc k" using Suc.hyps(2) by simp
    have IH': "chain (s_next (link_blocks (Suc (Suc k)) n (Suc k * bs) ?s)) (Some (Suc k * bs)) (map (\<lambda>j. j * bs) [Suc k..<n]) None
      \<and> (\<forall>p. (\<forall>j. Suc k \<le> j \<longrightarrow> p \<noteq> j * bs) \<longrightarrow> s_next (link_blocks (Suc (Suc k)) n (Suc k * bs) ?s) p = s_next ?s p)"
      and flds: "s_buffer (link_blocks (Suc (Suc k)) n (Suc k * bs) ?s) = s_buffer s"
      "s_free_list (link_blocks (Suc (Suc k)) n (Suc k * bs) ?s) = s_free_list s"
      "s_block_size (link_blocks (Suc (Suc k)) n (Suc k * bs) ?s) = s_block_size s"
      "s_initialized (link_blocks (Suc (Suc k)) n (Suc k * bs) ?s) = s_initialized s"
      "s_ub (link_blocks (Suc (Suc k)) n (Suc k * bs) ?s) = s_ub s"
      using IH [OF d] Suc.prems True fits by simp_all
    have "s_next (link_blocks (Suc (Suc k)) n (Suc k * bs) ?s) (k * bs) = Some (Suc k * bs)"
    proof -
      have "k * bs \<noteq> j * bs" if "Suc k \<le> j" for j using that Suc.prems by auto
      then show ?thesis using IH' by simp
    qed
    moreover have "[k..<n] = k # [Suc k..<n]" using Suc.prems by (simp add: upt_conv_Cons)
    ultimately show ?thesis unfolding step using IH' flds
      by (auto simp del: mult_Suc)
  qed
qed

lemma init_ok:
  assumes "\<not> s_initialized s" and "\<not> s_ub s" and n: "0 < n" and b: "unat b \<le> 2 ^ 64 - 16"
    and room: "n * unat (round_block b) < 2 ^ 64" and heap: "n * unat (round_block b) \<le> heap"
  shows "fst (cp_init heap n b s) = Inr ()" and "cp_ok n (unat (round_block b)) (snd (cp_init heap n b s)) []"
proof -
  define bs where "bs = unat (round_block b)"
  have bs: "8 \<le> bs" "16 \<le> bs" "16 dvd bs" unfolding bs_def round_block_nat [OF b] by (auto simp: div_le_mono)
  let ?s1 = "s\<lparr>s_block_size := round_block b\<rparr>"
  let ?s2 = "?s1\<lparr>s_buffer := n * bs, s_free_list := Some 0\<rparr>"
  have size: "unat (of_nat n * s_block_size ?s1) = n * bs"
    unfolding unat_times using room by (simp add: bs_def)
  have "\<not> heap < n * bs" using heap by (simp add: bs_def)
  then have run: "cp_init heap n b s = (Inr (), (link_blocks 1 n 0 ?s2)\<lparr>s_initialized := True\<rparr>)"
    using assms(1) size unfolding cp_init_def Let_def by simp
  then show "fst (cp_init heap n b s) = Inr ()" by simp
  note link = link_blocks_chain [where s = ?s2 and bs = bs and n = n and k = 0]
  have blocks: "distinct (map (\<lambda>j. j * bs) [0..<n])" using bs by (simp add: distinct_map inj_on_def)
  show "cp_ok n (unat (round_block b)) (snd (cp_init heap n b s)) []"
    unfolding cp_ok_def run bs_def [symmetric]
    using link bs n room assms(2) blocks
    by (auto simp: bs_def [symmetric] atLeast0LessThan intro!: exI [of _ "map (\<lambda>j. j * bs) [0..<n]"])
qed

lemma cp_okD:
  assumes "cp_ok n bs s L"
  shows "s_initialized s" "\<not> s_ub s" "unat (s_block_size s) = bs" "16 \<le> bs" "16 dvd bs" "s_buffer s = n * bs"
    "\<And>x. x \<in> set L \<Longrightarrow> snd x = bs"
  using assms by (auto simp: cp_ok_def)

lemma cp_okI:
  assumes "chain (s_next s) (s_free_list s) free None" and "distinct (free @ map fst L)"
    and "set (free @ map fst L) = (\<lambda>i. i * bs) ` {..<n}"
    and "s_initialized s" "\<not> s_ub s" "unat (s_block_size s) = bs" "16 \<le> bs" "16 dvd bs" "s_buffer s = n * bs"
    and "\<And>x. x \<in> set L \<Longrightarrow> snd x = bs"
  shows "cp_ok n bs s L"
  using assms unfolding cp_ok_def by blast

lemma cp_block_in:
  assumes "cp_ok n bs s L" and "x \<in> set L"
  obtains i where "i < n" "x = (i * bs, bs)"
proof -
  have "fst x \<in> (\<lambda>i. i * bs) ` {..<n}" and "snd x = bs" using assms by (auto simp: cp_ok_def)
  then show ?thesis using that by (cases x) auto
qed

lemma cp_allocate_ok:
  assumes ok: "cp_ok n bs s L"
  shows "fst (cp_allocate sz s) = Inr p \<Longrightarrow> cp_ok n bs (snd (cp_allocate sz s)) ((p, bs) # L)"
    and "fst (cp_allocate sz s) = Inl Bad_alloc \<Longrightarrow> snd (cp_allocate sz s) = s"
    and "(\<exists>p. fst (cp_allocate sz s) = Inr p) \<longleftrightarrow> unat sz \<le> bs \<and> length L < n"
proof -
  obtain free where ch: "chain (s_next s) (s_free_list s) free None" and dist: "distinct (free @ map fst L)"
    and all: "set (free @ map fst L) = (\<lambda>i. i * bs) ` {..<n}"
    using ok by (auto simp: cp_ok_def)
  note D = cp_okD [OF ok]
  have "length (free @ map fst L) = card ((\<lambda>i. i * bs) ` {..<n})" using dist all by (metis distinct_card)
  also have "\<dots> = n" using D(4) by (subst card_image) (auto simp: inj_on_def)
  finally have len: "length free + length L = n" by simp
  have size: "\<not> s_block_size s < sz \<longleftrightarrow> unat sz \<le> bs" using D(3) by (auto simp: word_less_nat_alt)
  show "fst (cp_allocate sz s) = Inl Bad_alloc \<Longrightarrow> snd (cp_allocate sz s) = s"
    by (auto simp: cp_allocate_def split: if_splits option.splits)
  have "s_free_list s = None \<longleftrightarrow> free = []" using ch by (cases free) auto
  then show "(\<exists>p. fst (cp_allocate sz s) = Inr p) \<longleftrightarrow> unat sz \<le> bs \<and> length L < n"
    using D(1) size len by (auto simp: cp_allocate_def split: option.splits)
  assume "fst (cp_allocate sz s) = Inr p"
  then have p: "s_free_list s = Some p" and s': "snd (cp_allocate sz s) = s\<lparr>s_free_list := s_next s p\<rparr>"
    by (auto simp: cp_allocate_def split: if_splits option.splits)
  then obtain fs where free: "free = p # fs" "chain (s_next s) (s_next s p) fs None"
    using ch by (cases free) auto
  then show "cp_ok n bs (snd (cp_allocate sz s)) ((p, bs) # L)"
    unfolding s' cp_ok_def using D dist all by (auto intro!: exI [of _ fs])
qed

lemma cp_deallocate_ok:
  assumes ok: "cp_ok n bs s (A @ (p, m) # B)"
  shows "cp_ok n bs (cp_deallocate (Some p) s) (A @ B)"
proof -
  obtain free where ch: "chain (s_next s) (s_free_list s) free None"
    and dist: "distinct (free @ map fst (A @ (p, m) # B))"
    and all: "set (free @ map fst (A @ (p, m) # B)) = (\<lambda>i. i * bs) ` {..<n}"
    using ok unfolding cp_ok_def by blast
  note D = cp_okD [OF ok]
  obtain i where i: "i < n" "p = i * bs" using cp_block_in [OF ok, of "(p, m)"] by auto
  have "Suc i * bs \<le> n * bs" using i by (intro mult_le_mono1) simp
  then have fits: "\<not> s_buffer s < p + 8" using D i by simp
  have "chain (s_next (cp_deallocate (Some p) s)) (s_free_list (cp_deallocate (Some p) s)) (p # free) None"
    using ch D dist by (auto simp: cp_deallocate_def)
  moreover have "distinct ((p # free) @ map fst (A @ B))" "set ((p # free) @ map fst (A @ B)) = (\<lambda>i. i * bs) ` {..<n}"
    using dist all by auto
  ultimately show ?thesis using D fits
    by (intro cp_okI [where free = "p # free"]) (auto simp: cp_deallocate_def)
qed

lemma cp_write_ok:
  assumes ok: "cp_ok n bs s L" and "p \<in> fst ` set L"
  shows "cp_ok n bs (cp_write p v s) L"
proof -
  obtain free where "chain (s_next s) (s_free_list s) free None" "distinct (free @ map fst L)"
    "set (free @ map fst L) = (\<lambda>i. i * bs) ` {..<n}"
    using ok by (auto simp: cp_ok_def)
  moreover then have "p \<notin> set free" using assms(2) by auto
  ultimately show ?thesis using cp_okD [OF ok]
    by (auto simp: cp_ok_def cp_write_def intro!: exI [of _ free])
qed

lemma multiples_apart:
  assumes "i \<noteq> j"
  shows "apart (i * bs, bs) (j * bs, bs)"
proof -
  have "Suc i * bs \<le> j * bs" if "i < j" using that by (intro mult_le_mono1) simp
  moreover have "Suc j * bs \<le> i * bs" if "j < i" using that by (intro mult_le_mono1) simp
  ultimately show ?thesis using assms unfolding apart_def by (cases "i < j") auto
qed

definition cp_request :: "size_t \<Rightarrow> cpool \<Rightarrow> nat option \<times> cpool" where
  "cp_request sz s = (case cp_allocate sz s of (Inl _, s') \<Rightarrow> (None, s') | (Inr p, s') \<Rightarrow> (Some p, s'))"

interpretation cp: pool "cp_ok n bs" cp_request "\<lambda>_. bs" "\<lambda>p. cp_deallocate (Some p)" 0 "n * bs"
  for n bs
proof
  fix s s' L r p A B m
  show "cp_ok n bs s L \<Longrightarrow> cp_request r s = (Some p, s') \<Longrightarrow> cp_ok n bs s' ((p, bs) # L)"
    using cp_allocate_ok(1) [of n bs s L r p]
    by (auto simp: cp_request_def split: prod.splits sum.splits)
  show "cp_ok n bs s L \<Longrightarrow> cp_request r s = (None, s') \<Longrightarrow> cp_ok n bs s' L"
    using cp_allocate_ok(2) [of n bs s L r] pool_error.exhaust
    by (auto simp: cp_request_def split: prod.splits sum.splits)
  show "cp_ok n bs s (A @ (p, m) # B) \<Longrightarrow> cp_ok n bs (cp_deallocate (Some p) s) (A @ B)"
    by (rule cp_deallocate_ok)
  show "all_apart L" if ok: "cp_ok n bs s L"
    unfolding all_apart_def
  proof (intro allI impI)
    fix i j assume ij: "i < j" "j < length L"
    then have mem: "L ! i \<in> set L" "L ! j \<in> set L" by auto
    obtain a where a: "L ! i = (a * bs, bs)" using cp_block_in [OF ok mem(1)] by blast
    obtain b where b: "L ! j = (b * bs, bs)" using cp_block_in [OF ok mem(2)] by blast
    have "distinct (map fst L)" using ok by (auto simp: cp_ok_def)
    then have "fst (L ! i) \<noteq> fst (L ! j)" using ij by (simp add: distinct_conv_nth)
    then have "a \<noteq> b" using a b by auto
    then show "apart (L ! i) (L ! j)" unfolding a b by (rule multiples_apart)
  qed
  show "inside 0 (n * bs) L" if ok: "cp_ok n bs s L"
    unfolding inside_def
  proof
    fix x assume "x \<in> set L"
    then obtain i where i: "i < n" "x = (i * bs, bs)" using cp_block_in [OF ok] by blast
    have "Suc i * bs \<le> n * bs" using i by (intro mult_le_mono1) simp
    then show "0 \<le> fst x \<and> fst x + snd x \<le> n * bs" using i by simp
  qed
qed

section \<open>MonotonicMemoryPool\<close>

text \<open>
  \<open>std::pmr::monotonic_buffer_resource\<close> over the pool's own buffer, with
  \<open>null_memory_resource\<close> upstream: it keeps the first free address and the number of bytes left, an
  allocation of 0 bytes takes 1, \<open>std::align\<close> finds the first aligned address with room, and an
  allocation that does not fit throws \<open>bad_alloc\<close> and changes nothing.  Alignments are powers of two,
  given by their exponents.
\<close>

record mpool =
  mm_current :: nat
  mm_avail :: nat

definition mm_new :: "nat \<Rightarrow> nat \<Rightarrow> mpool" where
  "mm_new base BufferSize = \<lparr>mm_current = base, mm_avail = BufferSize\<rparr>"

definition align_up :: "nat \<Rightarrow> nat \<Rightarrow> nat" where
  "align_up a p = (p + (a - 1)) div a * a"

definition std_align :: "nat \<Rightarrow> nat \<Rightarrow> nat \<Rightarrow> nat \<Rightarrow> (nat \<times> nat) option" where
  "std_align alignment bytes ptr space =
     (let aligned = align_up alignment ptr; diff = aligned - ptr
      in if space < bytes + diff then None else Some (aligned, space - diff))"

definition mm_resource_allocate :: "nat \<Rightarrow> nat \<Rightarrow> mpool \<Rightarrow> (pool_error + nat) \<times> mpool" where
  "mm_resource_allocate bytes alignment s =
     (let bytes = (if bytes = 0 then 1 else bytes)
      in case std_align alignment bytes (mm_current s) (mm_avail s) of
           None \<Rightarrow> (Inl Bad_alloc, s)
         | Some (p, avail) \<Rightarrow> (Inr p, s\<lparr>mm_current := p + bytes, mm_avail := avail - bytes\<rparr>))"

definition mm_allocate :: "nat \<times> nat \<Rightarrow> mpool \<Rightarrow> nat option \<times> mpool" where
  "mm_allocate r s =
     (case mm_resource_allocate (fst r) (2 ^ snd r) s of
        (Inl Bad_alloc, s') \<Rightarrow> (None, s') | (Inr p, s') \<Rightarrow> (Some p, s'))"

definition mm_reset :: "nat \<Rightarrow> nat \<Rightarrow> mpool \<Rightarrow> mpool" where
  "mm_reset base BufferSize s = s\<lparr>mm_current := base, mm_avail := BufferSize\<rparr>"

text \<open>Deallocations through the resource do nothing.\<close>

definition mm_deallocate :: "nat \<Rightarrow> mpool \<Rightarrow> mpool" where
  "mm_deallocate p s = s"

definition mm_len :: "nat \<times> nat \<Rightarrow> nat" where
  "mm_len r = max 1 (fst r)"

definition mm_ok :: "nat \<Rightarrow> nat \<Rightarrow> mpool \<Rightarrow> (nat \<times> nat) list \<Rightarrow> bool" where
  "mm_ok base n s L \<longleftrightarrow> base \<le> mm_current s \<and> mm_current s + mm_avail s = base + n
     \<and> inside base (mm_current s) L \<and> all_apart L"

lemma align_up_props:
  assumes "0 < a"
  shows "p \<le> align_up a p" and "align_up a p < p + a" and "a dvd align_up a p"
    and "p \<le> q \<Longrightarrow> a dvd q \<Longrightarrow> align_up a p \<le> q"
proof -
  have split: "p + (a - 1) = align_up a p + (p + (a - 1)) mod a"
    by (simp add: align_up_def)
  moreover have "(p + (a - 1)) mod a < a" using assms by simp
  ultimately show "p \<le> align_up a p" "align_up a p < p + a" using assms by linarith+
  show "a dvd align_up a p" by (simp add: align_up_def)
  assume q: "p \<le> q" "a dvd q"
  then obtain k where k: "q = k * a" by (auto simp: dvd_def mult.commute)
  have "(p + (a - 1)) div a \<le> k"
  proof -
    have "p + (a - 1) < Suc k * a" using q(1) k assms by simp
    then show ?thesis by (metis less_Suc_eq_le less_mult_imp_div_less)
  qed
  then show "align_up a p \<le> q" unfolding align_up_def k by (rule mult_le_mono1)
qed

lemma mm_allocate_eq:
  "mm_allocate r s =
     (let p = align_up (2 ^ snd r) (mm_current s); e = p + mm_len r
      in if mm_current s + mm_avail s < e then (None, s)
         else (Some p, s\<lparr>mm_current := e, mm_avail := mm_current s + mm_avail s - e\<rparr>))"
proof -
  have le: "mm_current s \<le> align_up (2 ^ snd r) (mm_current s)" by (rule align_up_props) simp
  have len: "mm_len r = (if fst r = 0 then 1 else fst r)" by (auto simp: mm_len_def)
  show ?thesis unfolding mm_allocate_def mm_resource_allocate_def std_align_def Let_def len
    using le by auto
qed

lemma all_apart_Cons: "all_apart (x # L) \<longleftrightarrow> (\<forall>y \<in> set L. apart x y) \<and> all_apart L"
proof
  assume a: "all_apart (x # L)"
  have "apart x y" if mem: "y \<in> set L" for y
  proof -
    obtain j where "j < length L" "L ! j = y" using mem by (auto simp: in_set_conv_nth)
    with a [unfolded all_apart_def, rule_format, of 0 "Suc j"] show ?thesis by simp
  qed
  moreover have "all_apart L"
    unfolding all_apart_def using a [unfolded all_apart_def, rule_format, of "Suc _" "Suc _"] by simp
  ultimately show "(\<forall>y \<in> set L. apart x y) \<and> all_apart L" by blast
next
  assume a: "(\<forall>y \<in> set L. apart x y) \<and> all_apart L"
  show "all_apart (x # L)" unfolding all_apart_def
  proof (intro allI impI)
    fix i j assume "i < j" "j < length (x # L)"
    with a show "apart ((x # L) ! i) ((x # L) ! j)"
      by (cases i; cases j) (auto simp: all_apart_def)
  qed
qed

lemma apart_sym: "apart x y \<longleftrightarrow> apart y x"
  by (auto simp: apart_def)

lemma all_apart_append:
  "all_apart (A @ B) \<longleftrightarrow> all_apart A \<and> all_apart B \<and> (\<forall>x \<in> set A. \<forall>y \<in> set B. apart x y)"
  by (induction A) (auto simp: all_apart_Cons, simp add: all_apart_def)

interpretation mm: pool "mm_ok base n" mm_allocate mm_len mm_deallocate base "base + n"
  for base n
proof
  fix s s' :: mpool and L A B r p m
  show "mm_ok base n s' ((p, mm_len r) # L)" if ok: "mm_ok base n s L" and run: "mm_allocate r s = (Some p, s')"
  proof -
    have p: "p = align_up (2 ^ snd r) (mm_current s)" "p + mm_len r \<le> base + n"
      "s' = s\<lparr>mm_current := p + mm_len r, mm_avail := base + n - (p + mm_len r)\<rparr>"
      using run ok by (auto simp: mm_allocate_eq mm_ok_def Let_def not_less split: if_splits)
    have "mm_current s \<le> p" unfolding p by (rule align_up_props) simp
    moreover have "apart (p, mm_len r) y" if "y \<in> set L" for y
      using that ok \<open>mm_current s \<le> p\<close> by (auto simp: mm_ok_def inside_def apart_def)
    ultimately show ?thesis using ok p
      by (auto simp: mm_ok_def inside_def all_apart_Cons)
  qed
  show "mm_ok base n s' L" if "mm_ok base n s L" "mm_allocate r s = (None, s')"
    using that by (auto simp: mm_allocate_eq Let_def split: if_splits)
  show "mm_ok base n (mm_deallocate p s) (A @ B)" if "mm_ok base n s (A @ (p, m) # B)"
    using that by (auto simp: mm_ok_def mm_deallocate_def inside_def all_apart_append all_apart_Cons)
  show "inside base (base + n) L" if "mm_ok base n s L"
    using that by (fastforce simp: mm_ok_def inside_def)
qed (simp add: mm_ok_def)

section \<open>Properties\<close>

text \<open>(C24) \<open>CoroutinePoolAllocator\<close> after \<open>init\<close> for \<open>n > 0\<close> frames of \<open>b\<close> bytes (with a buffer that
  fits the address space and the heap), and any sequence of allocations and deallocations of held
  blocks: the held blocks have \<open>b\<close> rounded up to a multiple of 16 bytes each, lie in the buffer and do not
  overlap; \<open>allocate\<close> succeeds exactly when the request fits a block and fewer than \<open>n\<close> are held, and leaves the
  pool alone when it throws.\<close>
theorem coroutine_pool_correct:
  fixes ops :: "size_t pool_op list"
  assumes "\<not> s_initialized s0" and "\<not> s_ub s0" and "0 < n" and "unat b \<le> 2 ^ 64 - 16"
    and "n * unat (round_block b) < 2 ^ 64" and "n * unat (round_block b) \<le> heap"
  defines "bs \<equiv> (max 8 (unat b) + 15) div 16 * 16"
    and "x \<equiv> run_sched (pool_step cp_request (\<lambda>_. (max 8 (unat b) + 15) div 16 * 16) (\<lambda>p. cp_deallocate (Some p))) ops
      (snd (cp_init heap n b s0), [])"
  shows "all_apart (snd x) \<and> inside 0 (n * bs) (snd x) \<and> \<not> s_ub (fst x)
    \<and> ((\<exists>p. fst (cp_allocate sz (fst x)) = Inr p) \<longleftrightarrow> unat sz \<le> bs \<and> length (snd x) < n)
    \<and> (fst (cp_allocate sz (fst x)) = Inl Bad_alloc \<longrightarrow> snd (cp_allocate sz (fst x)) = fst x)"
proof -
  have bs: "unat (round_block b) = bs" unfolding bs_def by (rule round_block_nat [OF assms(4)])
  have ok0: "cp_ok n bs (snd (cp_init heap n b s0)) []"
    using init_ok(2) [OF assms(1-6)] by (simp add: bs)
  have x: "x = run_sched (pool_step cp_request (\<lambda>_. bs) (\<lambda>p. cp_deallocate (Some p))) ops
      (snd (cp_init heap n b s0), [])"
    by (simp add: x_def bs_def)
  have "cp_ok n bs (fst x) (snd x)"
    unfolding x using cp.sched_keeps [where n = n and bs = bs and s = "(snd (cp_init heap n b s0), [])"] ok0 by simp
  then show ?thesis
    using cp.held_extents [OF ok0, of ops] cp_allocate_ok(2,3) [of n bs "fst x" "snd x" sz] cp_okD(2)
    unfolding x by blast
qed

theorem coroutine_pool_correct_witness:
  "all_apart (snd (run_sched (pool_step cp_request (\<lambda>_. (max 8 (unat (20 :: size_t)) + 15) div 16 * 16) (\<lambda>p. cp_deallocate (Some p)))
     [Req 20, Req 32, Rel 1, Req 40] (snd (cp_init 1000 2 20 cp_static), [])))"
proof -
  have bs: "unat (round_block 20) = 32" by (subst round_block_nat) simp_all
  show ?thesis
    by (rule coroutine_pool_correct [of cp_static 2 20 1000 "[Req 20, Req 32, Rel 1, Req 40]", THEN conjunct1])
      (simp_all add: cp_static_def bs)
qed

text \<open>\<open>init\<close> for 0 coroutines writes the first block's \<open>next\<close> field outside its empty buffer and leaves that
  block on the free list: the first \<open>allocate\<close> hands it out.\<close>
theorem coroutine_pool_init_zero:
  "let s = snd (cp_init heap 0 b cp_static)
   in s_buffer s = 0 \<and> s_ub s \<and> fst (cp_allocate 0 s) = Inr 0"
  by (simp add: cp_init_def cp_static_def Let_def link_blocks.simps cp_allocate_def)

text \<open>\<open>MonotonicMemoryPool\<close>: for any sequence of allocations (and deallocations, which do nothing) the
  extents handed out lie in the buffer and do not overlap; each next allocation returns the first address with the
  alignment asked for, and null, without a change, exactly when the bytes do not fit behind it; \<open>reset\<close> makes the
  pool as good as new.\<close>
theorem monotonic_pool_correct:
  fixes ops :: "(nat \<times> nat) pool_op list" and base n :: nat
  defines "x \<equiv> run_sched (pool_step mm_allocate mm_len mm_deallocate) ops (mm_new base n, [])"
  shows "all_apart (snd x) \<and> inside base (base + n) (snd x)
    \<and> (\<exists>p. 2 ^ k dvd p \<and> mm_current (fst x) \<le> p \<and> p < mm_current (fst x) + 2 ^ k
         \<and> (if p + max 1 bytes \<le> base + n then fst (mm_allocate (bytes, k) (fst x)) = Some p
            else mm_allocate (bytes, k) (fst x) = (None, fst x)))
    \<and> mm_reset base n (fst x) = mm_new base n"
proof -
  have ok0: "mm_ok base n (mm_new base n) []"
    by (simp add: mm_ok_def mm_new_def inside_def all_apart_def)
  have "mm_ok base n (fst x) (snd x)"
    unfolding x_def using mm.sched_keeps [where base = base and n = n and s = "(mm_new base n, [])"] ok0 by simp
  then have fin: "mm_current (fst x) + mm_avail (fst x) = base + n" by (simp add: mm_ok_def)
  show ?thesis
  proof (intro conjI)
    show "all_apart (snd x)" "inside base (base + n) (snd x)"
      using mm.held_extents [OF ok0, of ops] by (simp_all add: x_def)
    show "\<exists>p. 2 ^ k dvd p \<and> mm_current (fst x) \<le> p \<and> p < mm_current (fst x) + 2 ^ k
         \<and> (if p + max 1 bytes \<le> base + n then fst (mm_allocate (bytes, k) (fst x)) = Some p
            else mm_allocate (bytes, k) (fst x) = (None, fst x))"
      by (rule exI [of _ "align_up (2 ^ k) (mm_current (fst x))"])
        (use align_up_props [of "2 ^ k" "mm_current (fst x)"] fin in \<open>auto simp: mm_allocate_eq mm_len_def Let_def\<close>)
    show "mm_reset base n (fst x) = mm_new base n" by (simp add: mm_reset_def mm_new_def)
  qed
qed

end
