(* ===== verification/Channel.thy ===== *)
theory Channel
  imports Prelude
begin

text \<open>
  \<open>Channel\<close> (modern_cpp_core/coroutines/channel.hpp): a bounded channel between coroutines.

  The state holds the three queues and, per coroutine, where it stands: the awaiter's
  \<open>await_ready\<close>, \<open>await_suspend\<close> and \<open>await_resume\<close> each have one critical section, which is one
  step.  Coroutines may run on any threads, so any interleaving of steps is possible; on a single
  thread a turn of a coroutine is \<open>await_ready\<close>, then \<open>await_suspend\<close> when that was false, then
  \<open>await_resume\<close> of the receiver it resumed.  \<open>ch_ub\<close> records \<open>front()\<close> on an empty \<open>std::queue\<close>.
  The logs \<open>ch_sent\<close> and \<open>ch_got\<close> list the values accepted and the values returned by \<open>receive\<close>.
\<close>

section \<open>State and steps\<close>

datatype 'a ch_call = Send 'a | Receive

datatype 'a ch_pc =
    CIdle
  | CSendSuspend 'a   \<comment> \<open>\<open>await_ready\<close> was false, \<open>await_suspend\<close> is next\<close>
  | CSendWait
  | CRecvSuspend
  | CRecvWait
  | CRecvResumed      \<comment> \<open>\<open>await_resume\<close> is next\<close>

record 'a channel =
  ch_queue :: "'a list"
  ch_send_waiters :: "(nat \<times> 'a) list"
  ch_recv_waiters :: "nat list"
  ch_pcs :: "nat \<Rightarrow> 'a ch_pc"
  ch_resumed :: "nat list"  \<comment> \<open>receivers resumed whose \<open>await_resume\<close> has not run\<close>
  ch_ub :: bool
  ch_sent :: "'a list"
  ch_got :: "'a list"

definition ch_new :: "'a channel" where
  "ch_new = \<lparr>ch_queue = [], ch_send_waiters = [], ch_recv_waiters = [], ch_pcs = (\<lambda>_. CIdle),
     ch_resumed = [], ch_ub = False, ch_sent = [], ch_got = []\<rparr>"

abbreviation cgo :: "nat \<Rightarrow> 'a ch_pc \<Rightarrow> 'a channel \<Rightarrow> 'a channel" where
  "cgo c pc s \<equiv> s\<lparr>ch_pcs := (ch_pcs s)(c := pc)\<rparr>"

definition wake_receiver :: "'a channel \<Rightarrow> 'a channel" where
  "wake_receiver s =
     (case ch_recv_waiters s of [] \<Rightarrow> s
      | r # rs \<Rightarrow> cgo r CRecvResumed (s\<lparr>ch_recv_waiters := rs, ch_resumed := ch_resumed s @ [r]\<rparr>))"

text \<open>A resumed sender continues behind its \<open>co_await\<close> (\<open>await_resume\<close> is empty).\<close>

definition admit_sender :: "'a channel \<Rightarrow> 'a channel" where
  "admit_sender s =
     (case ch_send_waiters s of [] \<Rightarrow> s
      | (w, v) # ws \<Rightarrow> cgo w CIdle (s\<lparr>ch_send_waiters := ws, ch_queue := ch_queue s @ [v]\<rparr>))"

definition send_ready :: "nat \<Rightarrow> nat \<Rightarrow> 'a \<Rightarrow> 'a channel \<Rightarrow> 'a channel" where
  "send_ready capacity c val s =
     (if length (ch_queue s) < capacity
      then wake_receiver (s\<lparr>ch_queue := ch_queue s @ [val], ch_sent := ch_sent s @ [val]\<rparr>)
      else cgo c (CSendSuspend val) s)"

definition send_suspend :: "nat \<Rightarrow> 'a \<Rightarrow> 'a channel \<Rightarrow> 'a channel" where
  "send_suspend c val s =
     cgo c CSendWait (s\<lparr>ch_send_waiters := ch_send_waiters s @ [(c, val)], ch_sent := ch_sent s @ [val]\<rparr>)"

definition take_front :: "'a channel \<Rightarrow> 'a channel" where
  "take_front s =
     (case ch_queue s of [] \<Rightarrow> s\<lparr>ch_ub := True\<rparr>
      | v # q \<Rightarrow> admit_sender (s\<lparr>ch_queue := q, ch_got := ch_got s @ [v]\<rparr>))"

definition recv_ready :: "nat \<Rightarrow> 'a channel \<Rightarrow> 'a channel" where
  "recv_ready c s = (if ch_queue s \<noteq> [] then take_front s else cgo c CRecvSuspend s)"

definition recv_suspend :: "nat \<Rightarrow> 'a channel \<Rightarrow> 'a channel" where
  "recv_suspend c s = cgo c CRecvWait (s\<lparr>ch_recv_waiters := ch_recv_waiters s @ [c]\<rparr>)"

definition recv_resume :: "nat \<Rightarrow> 'a channel \<Rightarrow> 'a channel" where
  "recv_resume c s = take_front (cgo c CIdle (s\<lparr>ch_resumed := remove1 c (ch_resumed s)\<rparr>))"

fun ch_step :: "nat \<Rightarrow> nat \<times> 'a ch_call \<Rightarrow> 'a channel \<Rightarrow> 'a channel" where
  "ch_step capacity (c, call) s =
     (case ch_pcs s c of
        CIdle \<Rightarrow> (case call of Send v \<Rightarrow> send_ready capacity c v s | Receive \<Rightarrow> recv_ready c s)
      | CSendSuspend v \<Rightarrow> send_suspend c v s
      | CRecvSuspend \<Rightarrow> recv_suspend c s
      | CRecvResumed \<Rightarrow> recv_resume c s
      | CSendWait \<Rightarrow> s
      | CRecvWait \<Rightarrow> s)"

declare ch_step.simps [simp del]

text \<open>One turn on a single thread: \<open>resume()\<close> runs the receiver before the sender goes on.\<close>

definition ch_turn :: "nat \<Rightarrow> nat \<times> 'a ch_call \<Rightarrow> 'a channel \<Rightarrow> 'a channel" where
  "ch_turn capacity e s =
     (let s1 = ch_step capacity e s;
          s2 = (case ch_pcs s1 (fst e) of
                  CSendSuspend v \<Rightarrow> ch_step capacity e s1
                | CRecvSuspend \<Rightarrow> ch_step capacity e s1
                | _ \<Rightarrow> s1)
      in case ch_resumed s2 of [] \<Rightarrow> s2 | r # _ \<Rightarrow> ch_step capacity (r, snd e) s2)"

section \<open>Single thread\<close>

definition ch_inv :: "nat \<Rightarrow> 'a channel \<Rightarrow> bool" where
  "ch_inv capacity s \<longleftrightarrow> \<not> ch_ub s \<and> ch_resumed s = []
     \<and> (\<forall>c. ch_pcs s c = CIdle \<or> ch_pcs s c = CSendWait \<or> ch_pcs s c = CRecvWait)
     \<and> (\<forall>c. ch_pcs s c = CSendWait \<longleftrightarrow> c \<in> fst ` set (ch_send_waiters s))
     \<and> (\<forall>c. ch_pcs s c = CRecvWait \<longleftrightarrow> c \<in> set (ch_recv_waiters s))
     \<and> distinct (map fst (ch_send_waiters s)) \<and> distinct (ch_recv_waiters s)
     \<and> length (ch_queue s) \<le> capacity
     \<and> (ch_recv_waiters s \<noteq> [] \<longrightarrow> ch_queue s = [])
     \<and> (ch_send_waiters s \<noteq> [] \<longrightarrow> length (ch_queue s) = capacity)
     \<and> ch_sent s = ch_got s @ ch_queue s @ map snd (ch_send_waiters s)"

lemma idle_not_waiting:
  assumes "ch_inv capacity s" and "ch_pcs s c = CIdle"
  shows "c \<notin> set (ch_recv_waiters s)" and "c \<notin> fst ` set (ch_send_waiters s)"
proof -
  have "ch_pcs s c = CRecvWait \<longleftrightarrow> c \<in> set (ch_recv_waiters s)"
    and "ch_pcs s c = CSendWait \<longleftrightarrow> c \<in> fst ` set (ch_send_waiters s)"
    using assms(1) unfolding ch_inv_def by blast+
  then show "c \<notin> set (ch_recv_waiters s)" and "c \<notin> fst ` set (ch_send_waiters s)"
    using assms(2) by simp_all
qed

lemma send_turn:
  assumes inv: "ch_inv capacity s" and cap: "0 < capacity" and idle: "ch_pcs s c = CIdle"
  shows "ch_inv capacity (ch_turn capacity (c, Send v) s)"
proof (cases "length (ch_queue s) < capacity")
  case True
  then have sw: "ch_send_waiters s = []" using inv by (auto simp: ch_inv_def)
  show ?thesis
  proof (cases "ch_recv_waiters s")
    case Nil
    then have "ch_turn capacity (c, Send v) s = s\<lparr>ch_queue := ch_queue s @ [v], ch_sent := ch_sent s @ [v]\<rparr>"
      using True idle inv
      by (simp add: ch_turn_def ch_step.simps send_ready_def wake_receiver_def ch_inv_def)
    then show ?thesis using inv True sw Nil by (auto simp: ch_inv_def)
  next
    case (Cons r rs)
    then have q: "ch_queue s = []" and rc: "r \<noteq> c" "r \<notin> set rs"
      using inv idle_not_waiting [OF inv idle] by (auto simp: ch_inv_def)
    then have "ch_turn capacity (c, Send v) s = s\<lparr>ch_recv_waiters := rs, ch_sent := ch_sent s @ [v],
        ch_got := ch_got s @ [v], ch_pcs := (ch_pcs s)(r := CIdle)\<rparr>"
      using True idle inv Cons sw
      by (simp add: ch_turn_def ch_step.simps send_ready_def wake_receiver_def recv_resume_def take_front_def
          admit_sender_def ch_inv_def)
    then show ?thesis using inv Cons sw q rc by (auto simp: ch_inv_def)
  qed
next
  case False
  then have full: "length (ch_queue s) = capacity" using inv by (auto simp: ch_inv_def)
  then have rw: "ch_recv_waiters s = []" using inv cap by (auto simp: ch_inv_def)
  have "ch_turn capacity (c, Send v) s = s\<lparr>ch_send_waiters := ch_send_waiters s @ [(c, v)],
      ch_sent := ch_sent s @ [v], ch_pcs := (ch_pcs s)(c := CSendWait)\<rparr>"
    using False idle inv
    by (simp add: ch_turn_def ch_step.simps send_ready_def send_suspend_def ch_inv_def)
  moreover note idle_not_waiting(2) [OF inv idle]
  moreover have "\<forall>d. ch_pcs s d \<noteq> CRecvWait" using inv rw by (auto simp: ch_inv_def)
  ultimately show ?thesis using inv full rw by (auto simp: ch_inv_def)
qed

lemma receive_turn:
  assumes inv: "ch_inv capacity s" and cap: "0 < capacity" and idle: "ch_pcs s c = CIdle"
  shows "ch_inv capacity (ch_turn capacity (c, Receive) s)"
proof (cases "ch_queue s")
  case Nil
  then have sw: "ch_send_waiters s = []" using inv cap by (auto simp: ch_inv_def)
  have "ch_turn capacity (c, Receive) s = s\<lparr>ch_recv_waiters := ch_recv_waiters s @ [c],
      ch_pcs := (ch_pcs s)(c := CRecvWait)\<rparr>"
    using Nil idle inv
    by (simp add: ch_turn_def ch_step.simps recv_ready_def recv_suspend_def ch_inv_def)
  moreover note idle_not_waiting(1) [OF inv idle]
  ultimately show ?thesis using inv Nil sw by (auto simp: ch_inv_def)
next
  case (Cons v q)
  then have rw: "ch_recv_waiters s = []" using inv by (auto simp: ch_inv_def)
  show ?thesis
  proof (cases "ch_send_waiters s")
    case Nil
    then have "ch_turn capacity (c, Receive) s = s\<lparr>ch_queue := q, ch_got := ch_got s @ [v]\<rparr>"
      using Cons idle inv
      by (simp add: ch_turn_def ch_step.simps recv_ready_def take_front_def admit_sender_def ch_inv_def)
    then show ?thesis using inv Cons Nil rw by (auto simp: ch_inv_def)
  next
    case (Cons w ws)
    obtain d x where w: "w = (d, x)" by (cases w)
    have dc: "d \<noteq> c" "d \<notin> fst ` set ws"
      using inv idle_not_waiting [OF inv idle] Cons w by (auto simp: ch_inv_def)
    then have "ch_turn capacity (c, Receive) s = s\<lparr>ch_queue := q @ [x], ch_got := ch_got s @ [v],
        ch_send_waiters := ws, ch_pcs := (ch_pcs s)(d := CIdle)\<rparr>"
      using \<open>ch_queue s = v # q\<close> Cons w idle inv
      by (simp add: ch_turn_def ch_step.simps recv_ready_def take_front_def admit_sender_def ch_inv_def)
    then show ?thesis using inv \<open>ch_queue s = v # q\<close> Cons w rw dc by (auto simp: ch_inv_def)
  qed
qed

lemma turn_keeps:
  assumes "ch_inv capacity s" and "0 < capacity"
  shows "ch_inv capacity (ch_turn capacity e s)"
proof (cases "ch_pcs s (fst e) = CIdle")
  case True
  then show ?thesis using send_turn [OF assms] receive_turn [OF assms]
    by (cases e; cases "snd e") auto
next
  case False
  then have "ch_step capacity e s = s" using assms(1) by (cases e) (auto simp: ch_step.simps ch_inv_def split: ch_pc.splits)
  then have "ch_turn capacity e s = s" using assms(1) False
    by (auto simp: ch_turn_def Let_def ch_inv_def split: ch_pc.splits)
  then show ?thesis using assms(1) by simp
qed

definition ch_turn_pos :: "nat \<Rightarrow> nat \<times> 'a ch_call \<Rightarrow> 'a channel \<Rightarrow> 'a channel" where
  "ch_turn_pos n = ch_turn (Suc n)"

interpretation ch: interleaving "ch_turn_pos n" "ch_inv (Suc n)"
  for n
  by unfold_locales (simp add: ch_turn_pos_def turn_keeps)

section \<open>Properties\<close>

text \<open>(C25) With all its coroutines on one thread a \<open>Channel\<close> of positive capacity is a bounded FIFO: the values
  sent, in order, are the values received, then the buffered ones, then those of the waiting senders; the
  buffer holds at most \<open>Capacity\<close> values, a receiver waits only when nothing is there, a sender only
  when the buffer is full, and no empty queue is read.\<close>
theorem channel_fifo_single_thread:
  fixes es :: "(nat \<times> 'a ch_call) list"
  assumes "0 < capacity"
  defines "s \<equiv> run_sched (ch_turn capacity) es ch_new"
  shows "ch_sent s = ch_got s @ ch_queue s @ map snd (ch_send_waiters s)
    \<and> length (ch_queue s) \<le> capacity \<and> \<not> ch_ub s
    \<and> (ch_recv_waiters s \<noteq> [] \<longrightarrow> ch_queue s = [] \<and> ch_send_waiters s = [])
    \<and> (ch_send_waiters s \<noteq> [] \<longrightarrow> length (ch_queue s) = capacity)"
proof -
  obtain n where n: "capacity = Suc n" using assms(1) by (cases capacity) auto
  have "ch_inv (Suc n) (ch_new :: 'a channel)" by (simp add: ch_inv_def ch_new_def)
  from ch.sched_keeps [OF this, of es] have "ch_inv capacity s"
    by (simp add: s_def n ch_turn_pos_def)
  then show ?thesis using assms(1) by (auto simp: ch_inv_def)
qed

theorem channel_fifo_single_thread_witness:
  "\<not> ch_ub (run_sched (ch_turn 1) [(0, Receive), (1, Send ''a''), (1, Send ''b''), (2, Send ''c''), (0, Receive)] ch_new)"
  using channel_fifo_single_thread
    [of 1 "[(0, Receive), (1, Send ''a''), (1, Send ''b''), (2, Send ''c''), (0, Receive)]"] by simp

text \<open>With coroutines on two threads a wake-up can be lost: a whole send that falls between a receiver's
  \<open>await_ready\<close> and its \<open>await_suspend\<close> finds no waiter to resume; the value stays in the buffer and the
  receiver waits beside it.\<close>
theorem channel_lost_wakeup:
  "let s = run_sched (ch_step 1) [(0, Receive), (1, Send x), (0, Receive)] ch_new
   in ch_queue s = [x] \<and> ch_recv_waiters s = [0] \<and> ch_resumed s = [] \<and> ch_pcs s 0 = CRecvWait \<and> ch_pcs s 1 = CIdle"
  by (simp add: ch_step.simps ch_new_def send_ready_def recv_ready_def recv_suspend_def wake_receiver_def Let_def)

text \<open>A resumed receiver does not look whether the value it was resumed for is still there: when another
  receiver takes it first, \<open>await_resume\<close> reads the front of an empty queue.\<close>
theorem channel_stolen_value:
  "ch_ub (run_sched (ch_step 1) [(0, Receive), (0, Receive), (1, Send x), (2, Receive), (0, Receive)] ch_new)"
  by (simp add: ch_step.simps ch_new_def send_ready_def recv_ready_def recv_suspend_def wake_receiver_def
      recv_resume_def take_front_def admit_sender_def)

text \<open>A \<open>Channel\<close> of capacity 0 never delivers anything, in any interleaving: it has no rendezvous.\<close>
theorem channel_capacity_zero_stuck:
  "ch_got (run_sched (ch_step 0) es ch_new) = []"
proof -
  have "ch_got (run_sched (ch_step 0) es s) = ch_got s"
    if "ch_queue s = []" "\<forall>c. ch_pcs s c \<noteq> CRecvResumed" for s
    using that
  proof (induction es arbitrary: s)
    case (Cons e es)
    obtain c call where e: "e = (c, call)" by (cases e)
    have "ch_queue (ch_step 0 e s) = [] \<and> (\<forall>c. ch_pcs (ch_step 0 e s) c \<noteq> CRecvResumed)
        \<and> ch_got (ch_step 0 e s) = ch_got s"
      using Cons.prems unfolding e
      by (auto simp: ch_step.simps send_ready_def recv_ready_def send_suspend_def recv_suspend_def
          split: ch_pc.splits ch_call.splits)
    then show ?case using Cons.IH [of "ch_step 0 e s"] by simp
  qed simp
  then show ?thesis by (simp add: ch_new_def)
qed

end
