(* ===== verification/ThreadPool.thy ===== *)
theory ThreadPool
  imports Prelude
begin

text \<open>
  \<open>JThreadPool\<close> (modern_cpp_core/concurrency/thread_pool.hpp and .cpp): a pool whose workers take
  tasks from their own queue, then from the shared one, then from the back of the other workers' queues,
  and otherwise wait on a condition variable.

  Each critical section is one step.  The one section that spans several steps is the scan of the
  local queues at the end of \<open>worker_loop\<close>, done with \<open>m_queue_mutex\<close> held: \<open>jp_held\<close>
  records that, and the steps that need the mutex then do nothing.  Going to sleep is part of the
  step that evaluates the predicate, because \<open>wait\<close> releases the mutex and blocks atomically;
  \<open>notify_one\<close> is a step of its own, behind the unlock.  The number in an event resolves what the code leaves
  open: whether \<open>try_to_lock\<close> fails, and which sleeper \<open>notify_one\<close> wakes.  A task runs between the step that takes it and the
  step that finishes it, and may call \<open>execute\<close> meanwhile.  \<open>jp_accepted\<close> and \<open>jp_done\<close> log the tasks.
\<close>

section \<open>State\<close>

datatype 'a worker_pc =
    WLoop          \<comment> \<open>\<open>while (!stoken.stop_requested())\<close>\<close>
  | WLocal
  | WGlobal
  | WSteal nat
  | WRun 'a
  | WNotify 'a     \<comment> \<open>inside the task: \<open>execute\<close> has unlocked and will notify\<close>
  | WPred          \<comment> \<open>evaluating the predicate of \<open>m_cv.wait\<close>\<close>
  | WSleep
  | WScan nat      \<comment> \<open>looking whether all local queues are empty, with the mutex held\<close>
  | WExit

datatype dtor_pc = DNone | DNotify | DStop nat | DJoin | DGone

record 'a jpool =
  jp_locals :: "'a list list"
  jp_global :: "'a list"
  jp_shutdown :: bool
  jp_stop :: "nat set"
  jp_held :: bool
  jp_w :: "nat \<Rightarrow> 'a worker_pc"
  jp_pending :: "nat set"  \<comment> \<open>outside threads between the unlock of \<open>execute\<close> and \<open>notify_one\<close>\<close>
  jp_dtor :: dtor_pc
  jp_accepted :: "'a list"
  jp_done :: "'a list"

abbreviation wgo :: "nat \<Rightarrow> 'a worker_pc \<Rightarrow> 'a jpool \<Rightarrow> 'a jpool" where
  "wgo i pc s \<equiv> s\<lparr>jp_w := (jp_w s)(i := pc)\<rparr>"

abbreviation workers :: "'a jpool \<Rightarrow> nat" where
  "workers s \<equiv> length (jp_locals s)"

text \<open>\<open>create\<close>, given how many threads the system can start; the error stands for the
  \<open>std::system_error\<close> of \<open>std::jthread\<close>.\<close>

datatype pool_failure = ThreadCreationFailed

definition jp_start :: "nat \<Rightarrow> 'a jpool" where
  "jp_start n = \<lparr>jp_locals = replicate n [], jp_global = [], jp_shutdown = False, jp_stop = {},
     jp_held = False, jp_w = (\<lambda>_. WLoop), jp_pending = {}, jp_dtor = DNone, jp_accepted = [], jp_done = []\<rparr>"

definition jp_create :: "nat \<Rightarrow> nat \<Rightarrow> pool_failure + 'a jpool" where
  "jp_create os_threads thread_count =
     (let n = (if thread_count = 0 then 1 else thread_count)
      in if os_threads < n then Inl ThreadCreationFailed else Inr (jp_start n))"

section \<open>Steps\<close>

text \<open>\<open>notify_one\<close>: worker \<open>k\<close> if it sleeps, otherwise the first sleeper, if any.\<close>

definition wake_one :: "nat \<Rightarrow> 'a jpool \<Rightarrow> 'a jpool" where
  "wake_one k s =
     (case find (\<lambda>i. jp_w s i = WSleep) (filter (\<lambda>i. i < workers s) [k] @ [0..<workers s]) of
        None \<Rightarrow> s
      | Some i \<Rightarrow> wgo i WPred s)"

definition notify_all :: "'a jpool \<Rightarrow> 'a jpool" where
  "notify_all s = s\<lparr>jp_w := (\<lambda>i. if jp_w s i = WSleep then WPred else jp_w s i)\<rparr>"

text \<open>The critical section of \<open>execute\<close> for a caller with worker index \<open>idx\<close>: \<open>None\<close> when it
  has to wait for the mutex, otherwise the new state and whether the task was accepted.\<close>

definition jp_enqueue :: "nat option \<Rightarrow> 'a \<Rightarrow> 'a jpool \<Rightarrow> ('a jpool \<times> bool) option" where
  "jp_enqueue idx f s =
     (case idx of
        Some j \<Rightarrow> if j < workers s then
            (if jp_shutdown s then Some (s, False)
             else Some (s\<lparr>jp_locals := (jp_locals s)[j := jp_locals s ! j @ [f]], jp_accepted := jp_accepted s @ [f]\<rparr>, True))
          else if jp_held s then None else if jp_shutdown s then Some (s, False)
          else Some (s\<lparr>jp_global := jp_global s @ [f], jp_accepted := jp_accepted s @ [f]\<rparr>, True)
      | None \<Rightarrow> if jp_held s then None else if jp_shutdown s then Some (s, False)
          else Some (s\<lparr>jp_global := jp_global s @ [f], jp_accepted := jp_accepted s @ [f]\<rparr>, True))"

definition wait_pred :: "nat \<Rightarrow> 'a jpool \<Rightarrow> bool" where
  "wait_pred i s \<longleftrightarrow> jp_shutdown s \<or> jp_global s \<noteq> [] \<or> jp_locals s ! i \<noteq> []"

fun worker_loop :: "nat \<Rightarrow> nat \<Rightarrow> 'a jpool \<Rightarrow> 'a jpool" where
  "worker_loop i choice s =
     (case jp_w s i of
        WLoop \<Rightarrow> wgo i (if i \<in> jp_stop s then WExit else WLocal) s
      | WLocal \<Rightarrow> (case jp_locals s ! i of
            [] \<Rightarrow> wgo i WGlobal s
          | f # fs \<Rightarrow> wgo i (WRun f) (s\<lparr>jp_locals := (jp_locals s)[i := fs]\<rparr>))
      | WGlobal \<Rightarrow> if jp_held s then s else (case jp_global s of
            [] \<Rightarrow> wgo i (WSteal 0) s
          | f # fs \<Rightarrow> wgo i (WRun f) (s\<lparr>jp_global := fs\<rparr>))
      | WSteal k \<Rightarrow> if k < workers s then
            (let j = (i + k + 1) mod workers s
             in if choice = 0 \<and> jp_locals s ! j \<noteq> []
                then wgo i (WRun (last (jp_locals s ! j))) (s\<lparr>jp_locals := (jp_locals s)[j := butlast (jp_locals s ! j)]\<rparr>)
                else wgo i (WSteal (Suc k)) s)
          else wgo i WPred s
      | WRun f \<Rightarrow> wgo i WLoop (s\<lparr>jp_done := jp_done s @ [f]\<rparr>)
      | WNotify f \<Rightarrow> wake_one choice (wgo i (WRun f) s)
      | WPred \<Rightarrow> if jp_held s then s
          else if \<not> wait_pred i s \<and> i \<notin> jp_stop s then wgo i WSleep s
          else if jp_shutdown s \<and> jp_global s = [] then wgo i (WScan 0) (s\<lparr>jp_held := True\<rparr>)
          else wgo i WLoop s
      | WScan k \<Rightarrow> if k < workers s then
            (if jp_locals s ! k = [] then wgo i (WScan (Suc k)) s else wgo i WLoop (s\<lparr>jp_held := False\<rparr>))
          else wgo i WExit (s\<lparr>jp_held := False\<rparr>)
      | WSleep \<Rightarrow> s
      | WExit \<Rightarrow> s)"

declare worker_loop.simps [simp del]

text \<open>The destructor: set the flag, \<open>notify_all\<close>, \<open>request_stop\<close> for each worker (which also ends its wait), join.\<close>

fun jp_destroy :: "'a jpool \<Rightarrow> 'a jpool" where
  "jp_destroy s =
     (case jp_dtor s of
        DNone \<Rightarrow> if jp_held s then s else s\<lparr>jp_shutdown := True, jp_dtor := DNotify\<rparr>
      | DNotify \<Rightarrow> (notify_all s)\<lparr>jp_dtor := DStop 0\<rparr>
      | DStop k \<Rightarrow> if k < workers s
          then wgo k (if jp_w s k = WSleep then WPred else jp_w s k)
                 (s\<lparr>jp_stop := insert k (jp_stop s), jp_dtor := DStop (Suc k)\<rparr>)
          else s\<lparr>jp_dtor := DJoin\<rparr>
      | DJoin \<Rightarrow> if list_all (\<lambda>i. jp_w s i = WExit) [0..<workers s] then s\<lparr>jp_dtor := DGone\<rparr> else s
      | DGone \<Rightarrow> s)"

declare jp_destroy.simps [simp del]

datatype 'a jp_event =
    Worker nat nat             \<comment> \<open>a step of a worker's loop, with its choice\<close>
  | Nested nat 'a              \<comment> \<open>the task a worker runs calls \<open>execute\<close>\<close>
  | Caller nat "nat option" 'a \<comment> \<open>a thread outside the pool, with its worker index, calls \<open>execute\<close>\<close>
  | CallerNotify nat nat
  | Spurious nat
  | Destroy

fun jp_step :: "'a jp_event \<Rightarrow> 'a jpool \<Rightarrow> 'a jpool" where
  "jp_step (Worker i choice) s = (if i < workers s then worker_loop i choice s else s)"
| "jp_step (Nested i f) s = (if i < workers s then
     (case jp_w s i of
        WRun g \<Rightarrow> (case jp_enqueue (Some i) f s of
            Some (s', True) \<Rightarrow> wgo i (WNotify g) s'
          | _ \<Rightarrow> s)
      | _ \<Rightarrow> s) else s)"
| "jp_step (Caller c idx f) s =
     (if c \<in> jp_pending s then s
      else case jp_enqueue idx f s of
        Some (s', True) \<Rightarrow> s'\<lparr>jp_pending := insert c (jp_pending s')\<rparr>
      | _ \<Rightarrow> s)"
| "jp_step (CallerNotify c choice) s =
     (if c \<in> jp_pending s then wake_one choice (s\<lparr>jp_pending := jp_pending s - {c}\<rparr>) else s)"
| "jp_step (Spurious i) s = (if jp_w s i = WSleep then wgo i WPred s else s)"
| "jp_step Destroy s = jp_destroy s"

section \<open>No task is lost or run twice\<close>

fun carried :: "'a worker_pc \<Rightarrow> 'a multiset" where
  "carried (WRun f) = {#f#}"
| "carried (WNotify f) = {#f#}"
| "carried _ = {#}"

definition in_flight :: "'a jpool \<Rightarrow> 'a multiset" where
  "in_flight s = (\<Sum>i<workers s. carried (jp_w s i))"

definition queued :: "'a jpool \<Rightarrow> 'a multiset" where
  "queued s = mset (jp_global s) + mset (concat (jp_locals s))"

fun leaving :: "'a worker_pc \<Rightarrow> bool" where
  "leaving WExit = True"
| "leaving (WScan k) = True"
| "leaving _ = False"

definition jp_inv :: "nat \<Rightarrow> 'a jpool \<Rightarrow> bool" where
  "jp_inv n s \<longleftrightarrow> workers s = n
     \<and> mset (jp_accepted s) = mset (jp_done s) + queued s + in_flight s
     \<and> (\<forall>i. leaving (jp_w s i) \<longrightarrow> jp_shutdown s)
     \<and> (jp_stop s \<noteq> {} \<longrightarrow> jp_shutdown s)
     \<and> (jp_dtor s \<noteq> DNone \<longrightarrow> jp_shutdown s)
     \<and> (\<forall>i. jp_w s i = WSleep \<longrightarrow> i \<notin> jp_stop s)
     \<and> (\<forall>k. jp_dtor s = DStop k \<longrightarrow> (\<forall>i<n. i < k \<longrightarrow> i \<in> jp_stop s))
     \<and> (jp_dtor s \<in> {DJoin, DGone} \<longrightarrow> (\<forall>i<n. i \<in> jp_stop s))
     \<and> (jp_dtor s = DGone \<longrightarrow> (\<forall>i<n. jp_w s i = WExit))"

lemma inv_move:
  assumes inv: "jp_inv n s" and i: "i < n"
    and pcs: "jp_w s' = (jp_w s)(i := pc)" and len: "workers s' = workers s"
    and same: "jp_stop s' = jp_stop s" "jp_shutdown s' = jp_shutdown s" "jp_dtor s' = jp_dtor s"
    and tasks: "mset (jp_accepted s) + mset (jp_done s') + queued s' + carried pc =
      mset (jp_accepted s') + mset (jp_done s) + queued s + carried (jp_w s i)"
    and pc: "leaving pc \<Longrightarrow> jp_shutdown s" "pc = WSleep \<Longrightarrow> i \<notin> jp_stop s" "jp_w s i \<noteq> WExit"
  shows "jp_inv n s'"
proof -
  have fl: "in_flight s' + carried (jp_w s i) = in_flight s + carried pc"
    using sum_threads_upd [of i n carried "jp_w s" pc] i inv by (simp add: in_flight_def len pcs jp_inv_def)
  have "mset (jp_accepted s) = mset (jp_done s) + queued s + in_flight s" using inv by (simp add: jp_inv_def)
  with tasks have "mset (jp_done s) + queued s + in_flight s + mset (jp_done s') + queued s' + carried pc =
      mset (jp_accepted s') + mset (jp_done s) + queued s + carried (jp_w s i)" by simp
  then have "carried pc + (in_flight s + (mset (jp_done s') + queued s')) = mset (jp_accepted s') + carried (jp_w s i)"
    by (simp add: ac_simps)
  from multiset_exchange [OF fl this] have "mset (jp_accepted s') = mset (jp_done s') + queued s' + in_flight s'" .
  moreover have "jp_dtor s \<noteq> DGone" using inv i pc(3) by (auto simp: jp_inv_def)
  ultimately show ?thesis using inv pc len by (auto simp: jp_inv_def pcs same)
qed

lemma notify_cases:
  obtains "wake_one k s = s" "\<And>i. i < workers s \<Longrightarrow> jp_w s i \<noteq> WSleep"
  | i where "wake_one k s = wgo i WPred s" "i < workers s" "jp_w s i = WSleep"
proof (cases "find (\<lambda>i. jp_w s i = WSleep) (filter (\<lambda>i. i < workers s) [k] @ [0..<workers s])")
  case None
  then have "\<forall>i<workers s. jp_w s i \<noteq> WSleep" unfolding find_None_iff by auto
  with None show thesis by (intro that(1)) (simp_all only: wake_one_def option.case, blast)
next
  case (Some i)
  then have "i < workers s \<and> jp_w s i = WSleep" by (auto simp: find_Some_iff nth_append split: if_splits)
  with Some that(2) show thesis by (simp add: wake_one_def)
qed

lemma notify_keeps:
  assumes "jp_inv n s"
  shows "jp_inv n (wake_one k s)"
proof (rule notify_cases [of k s])
  fix i assume i: "wake_one k s = wgo i WPred s" "i < workers s" "jp_w s i = WSleep"
  show ?thesis unfolding i(1)
    by (rule inv_move [OF assms, of i _ WPred]) (use assms i in \<open>simp_all add: jp_inv_def queued_def\<close>)
qed (use assms in simp)

lemma queued_update:
  "i < workers s \<Longrightarrow> mset (concat ((jp_locals s)[i := fs])) + mset (jp_locals s ! i) = mset (concat (jp_locals s)) + mset fs"
  by (rule mset_concat_update)

lemma queued_take:
  assumes "i < workers s" and "mset (jp_locals s ! i) = add_mset f (mset fs)"
  shows "mset (concat (jp_locals s)) = add_mset f (mset (concat ((jp_locals s)[i := fs])))"
  using queued_update [OF assms(1), of fs] assms(2) by (simp add: ac_simps)

lemma worker_keeps:
  assumes inv: "jp_inv n s" and i: "i < workers s"
  shows "jp_inv n (worker_loop i choice s)"
proof -
  have n: "i < n" "workers s = n" using inv i by (simp_all add: jp_inv_def)
  have stop: "jp_stop s \<noteq> {} \<longrightarrow> jp_shutdown s" using inv by (simp add: jp_inv_def)
  note mv = inv_move [OF inv n(1)]
  show ?thesis
  proof (cases "jp_w s i")
    case WLoop
    then show ?thesis using stop
      by (cases "i \<in> jp_stop s")
        (auto simp: worker_loop.simps queued_def intro: mv [where pc = WExit] mv [where pc = WLocal])
  next
    case WLocal
    show ?thesis
    proof (cases "jp_locals s ! i")
      case Nil
      with WLocal show ?thesis by (simp add: worker_loop.simps) (rule mv [where pc = WGlobal], simp_all add: queued_def)
    next
      case (Cons f fs)
      with queued_take [OF i, of f fs] have "mset (concat (jp_locals s)) = add_mset f (mset (concat ((jp_locals s)[i := fs])))"
        by simp
      with WLocal Cons show ?thesis
        by (simp add: worker_loop.simps) (rule mv [where pc = "WRun f"], simp_all add: queued_def)
    qed
  next
    case WGlobal
    then show ?thesis using inv
      by (cases "jp_global s")
        (auto simp: worker_loop.simps queued_def intro: mv [where pc = "WSteal 0"] mv [where pc = "WRun (hd (jp_global s))"])
  next
    case (WSteal k)
    define j where "j = (i + k + 1) mod workers s"
    have j: "j < workers s" unfolding j_def by (rule mod_less_divisor) (use i in linarith)
    let ?q = "jp_locals s ! j"
    consider (none) "\<not> k < workers s" | (fail) "k < workers s" "\<not> (choice = 0 \<and> ?q \<noteq> [])"
      | (take) "k < workers s" "choice = 0" "?q \<noteq> []" by blast
    then show ?thesis
    proof cases
      case none
      with WSteal show ?thesis by (simp add: worker_loop.simps) (rule mv [where pc = WPred], simp_all add: queued_def)
    next
      case fail
      then have "worker_loop i choice s = wgo i (WSteal (Suc k)) s"
        using WSteal unfolding worker_loop.simps j_def by (auto simp: Let_def)
      then show ?thesis using WSteal by (simp, intro mv [where pc = "WSteal (Suc k)"]) (simp_all add: queued_def)
    next
      case take
      then have eq: "worker_loop i choice s =
          wgo i (WRun (last ?q)) (s\<lparr>jp_locals := (jp_locals s)[j := butlast ?q]\<rparr>)"
        using WSteal unfolding worker_loop.simps j_def by (simp add: Let_def)
      have "mset ?q = add_mset (last ?q) (mset (butlast ?q))"
        using take(3) by (metis append_butlast_last_id mset_append mset.simps add_mset_add_single)
      from queued_take [OF j this] show ?thesis unfolding eq
        by (intro mv [where pc = "WRun (last ?q)"]) (use WSteal in \<open>simp_all add: queued_def\<close>)
    qed
  next
    case (WRun f)
    then show ?thesis
      by (simp add: worker_loop.simps) (rule mv [where pc = WLoop], simp_all add: queued_def)
  next
    case (WNotify f)
    then have "jp_inv n (wgo i (WRun f) s)"
      by (intro mv [where pc = "WRun f"]) (simp_all add: queued_def)
    then show ?thesis using WNotify by (simp add: worker_loop.simps notify_keeps)
  next
    case WPred
    have "jp_inv n (wgo i WSleep s)" if "i \<notin> jp_stop s"
      by (rule mv [where pc = WSleep]) (use that WPred in \<open>simp_all add: queued_def\<close>)
    moreover have "jp_inv n (wgo i WLoop s)"
      by (rule mv [where pc = WLoop]) (use WPred in \<open>simp_all add: queued_def\<close>)
    moreover have "jp_inv n (wgo i (WScan 0) (s\<lparr>jp_held := True\<rparr>))" if "jp_shutdown s"
      by (rule mv [where pc = "WScan 0"]) (use that WPred in \<open>simp_all add: queued_def\<close>)
    ultimately show ?thesis using WPred inv by (simp add: worker_loop.simps)
  next
    case (WScan k)
    then have "leaving (jp_w s i)" by simp
    then have sd: "jp_shutdown s" using inv unfolding jp_inv_def by blast
    have "jp_inv n (wgo i (WScan (Suc k)) s)"
      by (rule mv [where pc = "WScan (Suc k)"]) (use WScan sd in \<open>simp_all add: queued_def\<close>)
    moreover have "jp_inv n (wgo i WLoop (s\<lparr>jp_held := False\<rparr>))"
      by (rule mv [where pc = WLoop]) (use WScan in \<open>simp_all add: queued_def\<close>)
    moreover have "jp_inv n (wgo i WExit (s\<lparr>jp_held := False\<rparr>))"
      by (rule mv [where pc = WExit]) (use WScan sd in \<open>simp_all add: queued_def\<close>)
    ultimately show ?thesis using WScan by (simp add: worker_loop.simps)
  qed (use inv in \<open>simp_all add: worker_loop.simps\<close>)
qed

lemma inv_quiet:
  assumes "jp_inv n s" and "jp_locals s' = jp_locals s" "jp_global s' = jp_global s" "jp_w s' = jp_w s"
    and "jp_stop s' = jp_stop s" "jp_shutdown s' = jp_shutdown s" "jp_dtor s' = jp_dtor s"
    and "jp_accepted s' = jp_accepted s" "jp_done s' = jp_done s"
  shows "jp_inv n s'"
  using assms by (simp add: jp_inv_def queued_def in_flight_def)

lemma enqueue_keeps:
  assumes inv: "jp_inv n s" and enq: "jp_enqueue idx f s = Some (s', True)"
  shows "jp_inv n s'" and "jp_w s' = jp_w s" and "jp_pending s' = jp_pending s" and "\<not> jp_shutdown s"
    and "workers s' = workers s"
proof -
  show "jp_w s' = jp_w s" "jp_pending s' = jp_pending s" "\<not> jp_shutdown s" "workers s' = workers s"
    using enq by (auto simp: jp_enqueue_def split: option.splits if_splits)
  have "workers s' = workers s \<and> jp_w s' = jp_w s \<and> jp_stop s' = jp_stop s \<and> jp_shutdown s' = jp_shutdown s
      \<and> jp_dtor s' = jp_dtor s \<and> jp_done s' = jp_done s"
    using enq by (auto simp: jp_enqueue_def split: option.splits if_splits)
  moreover have "queued s' = add_mset f (queued s) \<and> jp_accepted s' = jp_accepted s @ [f]"
  proof (cases "\<exists>j. idx = Some j \<and> j < workers s")
    case True
    then obtain j where j: "idx = Some j" "j < workers s" by blast
    from j queued_update [OF j(2), of "jp_locals s ! j @ [f]"]
    have "mset (concat ((jp_locals s)[j := jp_locals s ! j @ [f]])) = add_mset f (mset (concat (jp_locals s)))"
      by simp
    with enq j show ?thesis by (auto simp: jp_enqueue_def queued_def split: if_splits)
  next
    case False
    with enq show ?thesis by (auto simp: jp_enqueue_def queued_def split: option.splits if_splits)
  qed
  ultimately show "jp_inv n s'" using inv by (simp add: jp_inv_def in_flight_def)
qed

lemma destroy_keeps:
  assumes inv: "jp_inv n s"
  shows "jp_inv n (jp_destroy s)"
proof (cases "jp_dtor s")
  case DNone
  with inv show ?thesis by (auto simp: jp_destroy.simps jp_inv_def in_flight_def queued_def)
next
  case DNotify
  have "carried (if jp_w s i = WSleep then WPred else jp_w s i) = carried (jp_w s i)" for i by simp
  with DNotify inv show ?thesis
    by (auto simp: jp_destroy.simps notify_all_def jp_inv_def in_flight_def queued_def split: if_splits)
next
  case (DStop k)
  have dt: "jp_shutdown s" "workers s = n" "\<And>i. i < n \<Longrightarrow> i < k \<Longrightarrow> i \<in> jp_stop s"
    using inv DStop by (auto simp: jp_inv_def)
  show ?thesis
  proof (cases "k < n")
    case True
    define t where "t = wgo k (if jp_w s k = WSleep then WPred else jp_w s k) s"
    have "in_flight t + carried (jp_w s k) = in_flight s + carried (jp_w s k)"
      using sum_threads_upd [of k n carried "jp_w s" "if jp_w s k = WSleep then WPred else jp_w s k"] True dt(2)
      by (simp add: t_def in_flight_def)
    then have fl: "in_flight t = in_flight s" by simp
    have "jp_destroy s = t\<lparr>jp_stop := insert k (jp_stop s), jp_dtor := DStop (Suc k)\<rparr>"
      using DStop True dt(2) by (simp add: jp_destroy.simps t_def)
    moreover have "in_flight (t\<lparr>jp_stop := insert k (jp_stop s), jp_dtor := DStop (Suc k)\<rparr>) = in_flight s"
      using fl by (simp add: in_flight_def)
    ultimately show ?thesis using inv DStop dt
      by (auto simp: jp_inv_def queued_def t_def less_Suc_eq split: if_splits)
  qed (use inv DStop dt in \<open>auto simp: jp_destroy.simps jp_inv_def in_flight_def queued_def\<close>)
next
  case DJoin
  with inv show ?thesis
    by (auto simp: jp_destroy.simps jp_inv_def in_flight_def queued_def list_all_iff)
qed (use inv in \<open>simp add: jp_destroy.simps\<close>)

lemma pool_step_keeps:
  assumes inv: "jp_inv n s"
  shows "jp_inv n (jp_step e s)"
proof (cases e)
  case (Nested i f)
  show ?thesis
  proof (cases "\<exists>g s'. i < workers s \<and> jp_w s i = WRun g \<and> jp_enqueue (Some i) f s = Some (s', True)")
    case True
    then obtain g s' where g: "i < workers s" "jp_w s i = WRun g" "jp_enqueue (Some i) f s = Some (s', True)" by blast
    note e = enqueue_keeps [OF inv g(3)]
    have "i < n" using g(1) inv by (simp add: jp_inv_def)
    then have "jp_inv n (wgo i (WNotify g) s')"
      by (intro inv_move [OF e(1), where i = i and pc = "WNotify g"]) (use g e in \<open>simp_all add: queued_def\<close>)
    with g Nested show ?thesis by simp
  next
    case False
    then have "jp_step e s = s" unfolding Nested by (auto split: worker_pc.splits option.splits prod.splits bool.splits)
    with inv show ?thesis by simp
  qed
next
  case (Caller c idx f)
  show ?thesis
  proof (cases "c \<notin> jp_pending s \<and> (\<exists>s'. jp_enqueue idx f s = Some (s', True))")
    case True
    then obtain s' where s': "c \<notin> jp_pending s" "jp_enqueue idx f s = Some (s', True)" by blast
    then have "jp_step e s = s'\<lparr>jp_pending := insert c (jp_pending s')\<rparr>" by (simp add: Caller)
    then show ?thesis using enqueue_keeps(1) [OF inv s'(2)] by (simp add: inv_quiet [of n s'])
  next
    case False
    then have "jp_step e s = s" unfolding Caller by (auto split: option.splits prod.splits bool.splits)
    with inv show ?thesis by simp
  qed
next
  case (CallerNotify c k)
  have "jp_inv n (s\<lparr>jp_pending := jp_pending s - {c}\<rparr>)" by (rule inv_quiet [OF inv]) simp_all
  with inv show ?thesis by (simp add: CallerNotify notify_keeps)
next
  case (Spurious i)
  show ?thesis
  proof (cases "jp_w s i = WSleep")
    case True
    show ?thesis
    proof (cases "i < n")
      case lt: True
      have "jp_inv n (wgo i WPred s)"
        by (rule inv_move [OF inv lt, where pc = WPred]) (use True in \<open>simp_all add: queued_def\<close>)
      with True Spurious show ?thesis by simp
    next
      case False
      then have "in_flight (wgo i WPred s) = in_flight s"
        using inv by (auto simp: in_flight_def jp_inv_def intro!: sum.cong)
      with False True Spurious inv show ?thesis by (auto simp: jp_inv_def queued_def)
    qed
  qed (use inv Spurious in simp)
qed (use inv in \<open>simp_all add: worker_keeps destroy_keeps\<close>)

interpretation jp: interleaving jp_step "jp_inv n"
  for n
  by unfold_locales (rule pool_step_keeps)

lemma start_inv: "jp_inv n (jp_start n)"
  by (simp add: jp_inv_def jp_start_def queued_def in_flight_def)

section \<open>No submission from outside the pool is forgotten\<close>

text \<open>Callers that are not workers of some pool have no worker index.\<close>

fun indexless :: "'a jp_event \<Rightarrow> bool" where
  "indexless (Caller c idx f) \<longleftrightarrow> idx = None"
| "indexless _ \<longleftrightarrow> True"

definition all_asleep :: "'a jpool \<Rightarrow> bool" where
  "all_asleep s \<longleftrightarrow> list_all (\<lambda>i. jp_w s i = WSleep) [0..<workers s]"

definition woken_inv :: "nat \<Rightarrow> 'a jpool \<Rightarrow> bool" where
  "woken_inv n s \<longleftrightarrow> 0 < n \<and> jp_inv n s
     \<and> (\<forall>i<n. jp_w s i = WSleep \<longrightarrow> jp_locals s ! i = [])
     \<and> (all_asleep s \<longrightarrow> jp_global s = [] \<or> jp_pending s \<noteq> {})"

lemma awake_move:
  assumes inv: "woken_inv n s" and keep: "jp_inv n s'" and i: "i < n"
    and w: "jp_w s' = (jp_w s)(i := pc)" "pc \<noteq> WSleep"
    and l: "\<And>j. j < n \<Longrightarrow> j \<noteq> i \<Longrightarrow> jp_w s j = WSleep \<Longrightarrow> jp_locals s' ! j = jp_locals s ! j"
  shows "woken_inv n s'"
proof -
  have "workers s' = n" using keep by (simp add: jp_inv_def)
  then have "\<not> all_asleep s'" using i w by (auto simp: all_asleep_def list_all_iff)
  then show ?thesis using inv keep w l by (auto simp: woken_inv_def)
qed

lemma still:
  assumes "woken_inv n s" and "jp_inv n s'" and "jp_w s' = jp_w s" and "jp_locals s' = jp_locals s"
    and "jp_global s' = jp_global s" and "jp_pending s' = jp_pending s"
  shows "woken_inv n s'"
  using assms by (simp add: woken_inv_def all_asleep_def)

lemma notify_woken:
  assumes inv: "jp_inv n s" and n: "0 < n" and l: "\<forall>i<n. jp_w s i = WSleep \<longrightarrow> jp_locals s ! i = []"
  shows "woken_inv n (wake_one k s)"
proof -
  have wn: "workers s = n" using inv by (simp add: jp_inv_def)
  show ?thesis
  proof (rule notify_cases [of k s])
    assume "wake_one k s = s" and "\<And>i. i < workers s \<Longrightarrow> jp_w s i \<noteq> WSleep"
    then show ?thesis using inv n l wn by (auto simp: woken_inv_def all_asleep_def list_all_iff)
  next
    fix i assume i: "wake_one k s = wgo i WPred s" "i < workers s" "jp_w s i = WSleep"
    then have "\<not> all_asleep (wake_one k s)" by (auto simp: all_asleep_def list_all_iff)
    moreover have "jp_inv n (wake_one k s)" by (rule notify_keeps [OF inv])
    ultimately show ?thesis using n l i by (simp add: woken_inv_def)
  qed
qed

lemma worker_woken:
  assumes inv: "woken_inv n s" and i: "i < workers s"
  shows "woken_inv n (worker_loop i choice s)"
proof -
  have jin: "jp_inv n s" using inv by (simp add: woken_inv_def)
  have n: "i < n" using jin i by (simp add: jp_inv_def)
  have keep: "jp_inv n (worker_loop i choice s)" by (rule worker_keeps [OF jin i])
  note mv = awake_move [OF inv keep n]
  show ?thesis
  proof (cases "jp_w s i")
    case WLoop
    then show ?thesis
      by (intro mv [where pc = "if i \<in> jp_stop s then WExit else WLocal"]) (simp_all add: worker_loop.simps)
  next
    case WLocal
    then show ?thesis
      by (cases "jp_locals s ! i")
        (intro mv [where pc = WGlobal] mv [where pc = "WRun (hd (jp_locals s ! i))"]; simp add: worker_loop.simps)+
  next
    case WGlobal
    show ?thesis
    proof (cases "jp_held s")
      case False
      with WGlobal show ?thesis
        by (cases "jp_global s")
          (intro mv [where pc = "WSteal 0"] mv [where pc = "WRun (hd (jp_global s))"]; simp add: worker_loop.simps)+
    qed (use inv WGlobal in \<open>simp add: worker_loop.simps\<close>)
  next
    case (WSteal k)
    define j where "j = (i + k + 1) mod workers s"
    have "woken_inv n (worker_loop i choice s)" if "k < workers s" "choice = 0" "jp_locals s ! j \<noteq> []"
    proof (rule mv [where pc = "WRun (last (jp_locals s ! j))"])
      have eq: "worker_loop i choice s = wgo i (WRun (last (jp_locals s ! j)))
          (s\<lparr>jp_locals := (jp_locals s)[j := butlast (jp_locals s ! j)]\<rparr>)"
        using that WSteal unfolding worker_loop.simps j_def by (simp add: Let_def)
      then show "jp_w (worker_loop i choice s) = (jp_w s)(i := WRun (last (jp_locals s ! j)))" by simp
      fix m assume m: "m < n" "jp_w s m = WSleep"
      with inv have "jp_locals s ! m = []" by (simp add: woken_inv_def)
      with that(3) have "m \<noteq> j" by auto
      then show "jp_locals (worker_loop i choice s) ! m = jp_locals s ! m" by (simp add: eq)
    qed simp
    moreover have "woken_inv n (worker_loop i choice s)" if "\<not> (k < workers s \<and> choice = 0 \<and> jp_locals s ! j \<noteq> [])"
    proof -
      have "worker_loop i choice s = wgo i (if k < workers s then WSteal (Suc k) else WPred) s"
        using that WSteal unfolding worker_loop.simps j_def by (auto simp: Let_def)
      then show ?thesis by (intro mv [where pc = "if k < workers s then WSteal (Suc k) else WPred"]) simp_all
    qed
    ultimately show ?thesis by blast
  next
    case (WRun f)
    then show ?thesis by (intro mv [where pc = WLoop]) (simp_all add: worker_loop.simps)
  next
    case (WNotify f)
    have "woken_inv n (wake_one choice (wgo i (WRun f) s))"
    proof (rule notify_woken)
      show "jp_inv n (wgo i (WRun f) s)"
        by (rule inv_move [OF jin n, where pc = "WRun f"]) (use WNotify in \<open>simp_all add: queued_def\<close>)
    qed (use inv in \<open>auto simp: woken_inv_def\<close>)
    with WNotify show ?thesis by (simp add: worker_loop.simps)
  next
    case WPred
    consider (held) "jp_held s" | (sleep) "\<not> jp_held s" "\<not> wait_pred i s" "i \<notin> jp_stop s"
      | (on) "\<not> jp_held s" "wait_pred i s \<or> i \<in> jp_stop s" by blast
    then show ?thesis
    proof cases
      case held
      with WPred inv show ?thesis by (simp add: worker_loop.simps)
    next
      case sleep
      then have "worker_loop i choice s = wgo i WSleep s" using WPred by (simp add: worker_loop.simps)
      then show ?thesis using keep inv sleep by (auto simp: woken_inv_def wait_pred_def)
    next
      case on
      then show ?thesis using WPred
        by (intro mv [where pc = "if jp_shutdown s \<and> jp_global s = [] then WScan 0 else WLoop"])
          (auto simp: worker_loop.simps)
    qed
  next
    case (WScan k)
    then show ?thesis
      by (intro mv [where pc = "if k < workers s then if jp_locals s ! k = [] then WScan (Suc k) else WLoop else WExit"])
        (simp_all add: worker_loop.simps)
  qed (use inv in \<open>simp_all add: worker_loop.simps\<close>)
qed

lemma outside_enqueue:
  assumes "jp_enqueue None f s = Some (s', True)"
  shows "s' = s\<lparr>jp_global := jp_global s @ [f], jp_accepted := jp_accepted s @ [f]\<rparr>"
  using assms by (auto simp: jp_enqueue_def split: if_splits)

lemma destroy_woken:
  assumes inv: "woken_inv n s"
  shows "woken_inv n (jp_destroy s)"
proof -
  have jin: "jp_inv n s" using inv by (simp add: woken_inv_def)
  have keep: "jp_inv n (jp_destroy s)" by (rule destroy_keeps [OF jin])
  have n: "workers s = n" "0 < n" using inv jin by (simp_all add: woken_inv_def jp_inv_def)
  show ?thesis
  proof (cases "jp_dtor s")
    case DNone
    then show ?thesis by (intro still [OF inv keep]) (simp_all add: jp_destroy.simps)
  next
    case DNotify
    then have "\<not> all_asleep (jp_destroy s)" using n
      by (auto simp: jp_destroy.simps notify_all_def all_asleep_def list_all_iff)
    then show ?thesis using keep n inv DNotify
      by (auto simp: woken_inv_def jp_destroy.simps notify_all_def split: if_splits)
  next
    case (DStop k)
    then show ?thesis
      by (cases "k < n")
        (intro awake_move [OF inv keep, where i = k and pc = "if jp_w s k = WSleep then WPred else jp_w s k"]
            still [OF inv keep]; simp add: jp_destroy.simps n)+
  next
    case DJoin
    then show ?thesis by (intro still [OF inv keep]) (simp_all add: jp_destroy.simps)
  qed (use inv in \<open>simp add: jp_destroy.simps\<close>)
qed

definition jp_indexless_step :: "'a jp_event \<Rightarrow> 'a jpool \<Rightarrow> 'a jpool" where
  "jp_indexless_step e s = (if indexless e then jp_step e s else s)"

lemma woken_step:
  assumes inv: "woken_inv n s" and e: "indexless e"
  shows "woken_inv n (jp_step e s)"
proof -
  have jin: "jp_inv n s" and pos: "0 < n" using inv by (simp_all add: woken_inv_def)
  have keep: "jp_inv n (jp_step e s)" by (rule pool_step_keeps [OF jin])
  have n: "workers s = n" using jin by (simp add: jp_inv_def)
  show ?thesis
  proof (cases e)
    case (Nested i f)
    show ?thesis
    proof (cases "\<exists>g s'. i < workers s \<and> jp_w s i = WRun g \<and> jp_enqueue (Some i) f s = Some (s', True)")
      case True
      then obtain g s' where g: "i < workers s" "jp_w s i = WRun g" "jp_enqueue (Some i) f s = Some (s', True)" by blast
      then have "jp_step e s = wgo i (WNotify g) s'" by (simp add: Nested)
      moreover have "s' = s\<lparr>jp_locals := (jp_locals s)[i := jp_locals s ! i @ [f]], jp_accepted := jp_accepted s @ [f]\<rparr>"
        using g by (auto simp: jp_enqueue_def split: if_splits)
      ultimately show ?thesis using g n
        by (intro awake_move [OF inv keep, where i = i and pc = "WNotify g"]) simp_all
    next
      case False
      then have "jp_step e s = s" unfolding Nested by (auto split: worker_pc.splits option.splits prod.splits bool.splits)
      with inv show ?thesis by simp
    qed
  next
    case (Caller c idx f)
    with e have idx: "idx = None" by simp
    show ?thesis
    proof (cases "c \<notin> jp_pending s \<and> (\<exists>s'. jp_enqueue None f s = Some (s', True))")
      case True
      then obtain s' where s': "c \<notin> jp_pending s" "jp_enqueue None f s = Some (s', True)" by blast
      then have "jp_step e s = s'\<lparr>jp_pending := insert c (jp_pending s')\<rparr>" by (simp add: Caller idx)
      then show ?thesis using keep inv outside_enqueue [OF s'(2)] by (simp add: woken_inv_def)
    next
      case False
      then have "jp_step e s = s" unfolding Caller idx by (auto split: option.splits prod.splits bool.splits)
      with inv show ?thesis by simp
    qed
  next
    case (CallerNotify c k)
    show ?thesis
    proof (cases "c \<in> jp_pending s")
      case True
      have "woken_inv n (wake_one k (s\<lparr>jp_pending := jp_pending s - {c}\<rparr>))"
        by (rule notify_woken) (use inv inv_quiet [OF jin] in \<open>auto simp: woken_inv_def\<close>)
      with True CallerNotify show ?thesis by simp
    qed (use inv CallerNotify in simp)
  next
    case (Spurious i)
    show ?thesis
    proof (cases "jp_w s i = WSleep")
      case True
      then show ?thesis
      proof (cases "i < n")
        case False
        then have "all_asleep (jp_step e s) = all_asleep s"
          using n by (auto simp: Spurious all_asleep_def list_all_iff)
        then show ?thesis using keep inv True Spurious by (auto simp: woken_inv_def)
      qed (intro awake_move [OF inv keep, where i = i and pc = WPred], simp_all add: Spurious)
    qed (use inv Spurious in simp)
  qed (use inv in \<open>simp_all add: worker_woken destroy_woken\<close>)
qed

interpretation jw: interleaving jp_indexless_step "woken_inv n"
  for n
  by unfold_locales (simp add: jp_indexless_step_def woken_step)

lemma create_inv:
  assumes "jp_create os_threads thread_count = Inr s"
  obtains n where "jp_inv n s" and "woken_inv n s" and "0 < n"
proof -
  define n where "n = (if thread_count = 0 then 1 else thread_count)"
  have s: "s = jp_start n" "0 < n" using assms by (auto simp: jp_create_def n_def Let_def split: if_splits)
  have "\<not> all_asleep s" and "\<And>i. jp_w s i \<noteq> WSleep"
    using s by (auto simp: all_asleep_def list_all_iff jp_start_def)
  then have "woken_inv n s" using s start_inv by (simp add: woken_inv_def)
  then show thesis by (intro that [of n]) (simp_all add: s start_inv)
qed

section \<open>Properties\<close>

text \<open>(C4) Whatever the interleaving of workers, callers, wake-ups and the destructor, every task \<open>execute\<close> accepted is exactly
  once among the finished, the running and the queued ones; a worker leaves its loop only after the
  shutdown began; no worker that has been asked to stop sleeps; and when the destructor is done all workers have
  exited, so the tasks accepted are those finished and those still queued, which are dropped.\<close>
theorem jthread_pool_conserves_tasks:
  fixes es :: "'a jp_event list"
  assumes "jp_create os_threads thread_count = Inr s0"
  defines "s \<equiv> run_sched jp_step es s0"
  shows "mset (jp_accepted s) = mset (jp_done s) + queued s + in_flight s
    \<and> (jp_w s i = WExit \<longrightarrow> jp_shutdown s) \<and> (jp_w s i = WSleep \<longrightarrow> i \<notin> jp_stop s)
    \<and> (jp_dtor s = DGone \<longrightarrow> mset (jp_accepted s) = mset (jp_done s) + queued s)"
proof -
  obtain n where "jp_inv n s0" using create_inv [OF assms(1)] .
  then have inv: "jp_inv n s" unfolding s_def by (rule jp.sched_keeps)
  have "leaving (jp_w s i)" if "jp_w s i = WExit" using that by simp
  then have exit: "jp_w s i = WExit \<longrightarrow> jp_shutdown s" using inv unfolding jp_inv_def by blast
  have gone: "in_flight s = {#}" if "jp_dtor s = DGone"
  proof -
    have "\<And>i. i < workers s \<Longrightarrow> carried (jp_w s i) = {#}" using inv that by (auto simp: jp_inv_def)
    then show ?thesis unfolding in_flight_def by (intro sum.neutral) auto
  qed
  show ?thesis using inv exit gone by (auto simp: jp_inv_def)
qed

theorem jthread_pool_conserves_tasks_witness:
  "let s = run_sched jp_step [Caller 0 None ''a'', Worker 0 0, Worker 0 0, Worker 0 0, Nested 0 ''b'', Worker 0 0, Worker 0 0] (jp_start 1)
   in mset (jp_accepted s) = mset (jp_done s) + queued s + in_flight s"
proof -
  have "jp_create 1 1 = Inr (jp_start 1 :: string jpool)" by (simp add: jp_create_def)
  from jthread_pool_conserves_tasks [OF this,
      of "[Caller 0 None ''a'', Worker 0 0, Worker 0 0, Worker 0 0, Nested 0 ''b'', Worker 0 0, Worker 0 0]" 0]
  show ?thesis unfolding Let_def by (rule conjunct1)
qed

text \<open>(C5) No submission is forgotten: as long as \<open>execute\<close> is called only by threads that are not workers of another pool and by this
  pool's own tasks, whenever all workers sleep and no caller still has to notify, every task accepted has been run.\<close>
theorem jthread_pool_idle_means_done:
  fixes es :: "'a jp_event list"
  assumes "jp_create os_threads thread_count = Inr s0" and "list_all indexless es"
  defines "s \<equiv> run_sched jp_step es s0"
  assumes "all_asleep s" and "jp_pending s = {}"
  shows "mset (jp_accepted s) = mset (jp_done s)"
proof -
  obtain n where "woken_inv n s0" using create_inv [OF assms(1)] .
  moreover have "s = run_sched jp_indexless_step es s0" unfolding s_def
    by (rule run_sched_cong) (use assms(2) in \<open>simp add: jp_indexless_step_def list_all_iff\<close>)
  ultimately have inv: "woken_inv n s" using jw.sched_keeps by simp
  have w: "\<And>i. i < workers s \<Longrightarrow> jp_w s i = WSleep" using assms(4) by (auto simp: all_asleep_def list_all_iff)
  have "\<forall>q \<in> set (jp_locals s). q = []"
    using inv w by (auto simp: woken_inv_def jp_inv_def in_set_conv_nth)
  then have "queued s = {#}" using inv assms(4,5) by (auto simp: queued_def woken_inv_def concat_eq_Nil_conv)
  moreover have "in_flight s = {#}" unfolding in_flight_def by (intro sum.neutral) (auto simp: w)
  ultimately show ?thesis using inv by (simp add: woken_inv_def jp_inv_def)
qed

definition one_task_run :: "'a \<Rightarrow> 'a jp_event list" where
  "one_task_run x = [Caller 0 None x, CallerNotify 0 0] @ replicate 10 (Worker 0 0)"

lemmas pool_eval = jp_start_def worker_loop.simps jp_enqueue_def wake_one_def notify_all_def jp_destroy.simps wait_pred_def

lemma one_task_end:
  "run_sched jp_step (one_task_run x) (jp_start 1) = (jp_start 1)\<lparr>jp_w := (\<lambda>_. WLoop)(0 := WSleep), jp_accepted := [x], jp_done := [x]\<rparr>"
  by (simp add: one_task_run_def pool_eval eval_nat_numeral)

theorem jthread_pool_idle_means_done_witness:
  "mset (jp_accepted (run_sched jp_step (one_task_run ''a'') (jp_start 1))) =
   mset (jp_done (run_sched jp_step (one_task_run ''a'') (jp_start 1)))"
proof -
  have "jp_create 1 1 = Inr (jp_start 1 :: string jpool)" by (simp add: jp_create_def)
  moreover have "list_all indexless (one_task_run ''a'')" by (simp add: one_task_run_def list_all_iff)
  moreover have "all_asleep (run_sched jp_step (one_task_run ''a'') (jp_start 1))"
    and "jp_pending (run_sched jp_step (one_task_run ''a'') (jp_start 1)) = {}"
    unfolding one_task_end by (simp_all add: all_asleep_def jp_start_def)
  ultimately show ?thesis by (rule jthread_pool_idle_means_done)
qed

text \<open>The worker-index test of \<open>execute\<close> does not ask whose worker the caller is.\<close>

definition to_sleep :: "nat \<Rightarrow> 'a jp_event list" where
  "to_sleep i = [Worker i 0, Worker i 0, Worker i 0, Worker i 0, Worker i 0, Worker i 0, Worker i 0]"

lemma idle_pair_sleeps:
  assumes idle: "\<And>j. j < workers s \<Longrightarrow> jp_locals s ! j = []" "jp_global s = []" "\<not> jp_held s" "\<not> jp_shutdown s"
      "i \<notin> jp_stop s"
    and i: "i < workers s" "jp_w s i = WLoop" and two: "workers s = 2"
  shows "run_sched jp_step (to_sleep i) s = wgo i WSleep s"
proof -
  have m: "(i + k + 1) mod workers s < workers s" for k by (rule mod_less_divisor) (use i in linarith)
  have steal: "jp_step (Worker i 0) (wgo i (WSteal k) s) = wgo i (WSteal (Suc k)) s" if "k < workers s" for k
    using that i idle(1) [OF m [of k]] by (simp add: worker_loop.simps Let_def)
  have "jp_step (Worker i 0) s = wgo i WLocal s"
    "jp_step (Worker i 0) (wgo i WLocal s) = wgo i WGlobal s"
    "jp_step (Worker i 0) (wgo i WGlobal s) = wgo i (WSteal 0) s"
    "jp_step (Worker i 0) (wgo i (WSteal (Suc (Suc 0))) s) = wgo i WPred s"
    "jp_step (Worker i 0) (wgo i WPred s) = wgo i WSleep s"
    using idle i two by (simp_all add: worker_loop.simps wait_pred_def)
  with steal [of 0] steal [of "Suc 0"] two show ?thesis by (simp add: to_sleep_def)
qed

lemma asleep_both:
  "run_sched jp_step (to_sleep 0 @ to_sleep 1) (jp_start 2 :: 'a jpool)
    = (jp_start 2)\<lparr>jp_w := (\<lambda>_. WLoop)(0 := WSleep, 1 := WSleep)\<rparr>"
proof -
  have "run_sched jp_step (to_sleep 0) (jp_start 2 :: 'a jpool) = (jp_start 2)\<lparr>jp_w := (\<lambda>_. WLoop)(0 := WSleep)\<rparr>"
    by (subst idle_pair_sleeps) (simp_all add: jp_start_def)
  moreover have "run_sched jp_step (to_sleep 1) ((jp_start 2 :: 'a jpool)\<lparr>jp_w := (\<lambda>_. WLoop)(0 := WSleep)\<rparr>)
    = (jp_start 2)\<lparr>jp_w := (\<lambda>_. WLoop)(0 := WSleep, 1 := WSleep)\<rparr>"
    by (subst idle_pair_sleeps) (simp_all add: jp_start_def)
  ultimately show ?thesis by (simp only: run_sched_append)
qed

text \<open>A task submitted from a worker of another pool can be stranded: it goes to the local queue of the worker with the
  same index, the single notification wakes another worker, which sees no reason to stay awake; all workers sleep
  and nobody is left to notify.\<close>
theorem jthread_pool_foreign_task_stranded:
  "let s = run_sched jp_step (to_sleep 0 @ to_sleep 1 @ [Caller 7 (Some 0) x, CallerNotify 7 1, Worker 1 0]) (jp_start 2)
   in all_asleep s \<and> jp_pending s = {} \<and> jp_locals s = [[x], []] \<and> jp_accepted s = [x] \<and> jp_done s = []"
proof -
  have "run_sched jp_step [Caller 7 (Some 0) x, CallerNotify 7 1, Worker 1 0]
      ((jp_start 2)\<lparr>jp_w := (\<lambda>_. WLoop)(0 := WSleep, 1 := WSleep)\<rparr>)
    = (jp_start 2)\<lparr>jp_locals := [[x], []], jp_w := (\<lambda>_. WLoop)(0 := WSleep, 1 := WSleep), jp_accepted := [x]\<rparr>"
    by (simp add: pool_eval eval_nat_numeral)
  then show ?thesis
    unfolding append_assoc [symmetric] run_sched_append [of _ "to_sleep 0 @ to_sleep 1"] asleep_both
    by (simp add: all_asleep_def jp_start_def eval_nat_numeral)
qed

text \<open>Waking a worker does not let it steal: the predicate looks at the shared queue and at the worker's own, so a worker that
  sleeps while another one fills its local queue keeps going back to sleep, whatever wakes it, and the other one's tasks wait.\<close>
theorem jthread_pool_sleeper_never_steals:
  fixes es :: "'a jp_event list"
  assumes "i < workers s" and "jp_w s i = WSleep" and "\<not> jp_shutdown s" and "i \<notin> jp_stop s"
    and "jp_global s = []" and "jp_locals s ! i = []" and "\<not> jp_held s"
    and "list_all (\<lambda>e. e = Spurious i \<or> (\<exists>choice. e = Worker i choice)) es"
  shows "jp_w (run_sched jp_step es s) i \<in> {WSleep, WPred} \<and> jp_locals (run_sched jp_step es s) = jp_locals s
    \<and> jp_done (run_sched jp_step es s) = jp_done s"
proof -
  have "jp_w (run_sched jp_step es t) i \<in> {WSleep, WPred} \<and> jp_locals (run_sched jp_step es t) = jp_locals t
    \<and> jp_done (run_sched jp_step es t) = jp_done t"
    if "i < workers t" "jp_w t i \<in> {WSleep, WPred}" "\<not> jp_shutdown t" "i \<notin> jp_stop t" "jp_global t = []"
      "jp_locals t ! i = []" "\<not> jp_held t" for t
    using that assms(8)
  proof (induction es arbitrary: t)
    case (Cons e es)
    have "let t' = jp_step e t in i < workers t' \<and> jp_w t' i \<in> {WSleep, WPred} \<and> \<not> jp_shutdown t' \<and> i \<notin> jp_stop t'
        \<and> jp_global t' = [] \<and> jp_locals t' ! i = [] \<and> \<not> jp_held t' \<and> jp_locals t' = jp_locals t \<and> jp_done t' = jp_done t"
      using Cons.prems by (auto simp: worker_loop.simps wait_pred_def Let_def)
    then show ?case using Cons.IH [of "jp_step e t"] Cons.prems(1,6,8) by (simp add: Let_def)
  qed simp
  then show ?thesis using assms by simp
qed

theorem jthread_pool_sleeper_never_steals_witness:
  "jp_done (run_sched jp_step [Spurious 1, Worker 1 0, Spurious 1]
     ((jp_start 2)\<lparr>jp_locals := [[''x''], []], jp_w := (\<lambda>_. WRun ''y'')(1 := WSleep)\<rparr>)) = []"
proof -
  let ?s = "(jp_start 2)\<lparr>jp_locals := [[''x''], []], jp_w := (\<lambda>_. WRun ''y'')(1 := WSleep)\<rparr>"
  have "1 < workers ?s" "jp_w ?s 1 = WSleep" "\<not> jp_shutdown ?s" "1 \<notin> jp_stop ?s" "jp_global ?s = []"
    "jp_locals ?s ! 1 = []" "\<not> jp_held ?s" and d: "jp_done ?s = []"
    by (simp_all add: jp_start_def)
  moreover have "list_all (\<lambda>e. e = Spurious 1 \<or> (\<exists>choice. e = Worker 1 choice)) [Spurious 1, Worker 1 0, Spurious 1]"
    by simp
  ultimately have "jp_done (run_sched jp_step [Spurious 1, Worker 1 0, Spurious 1] ?s) = jp_done ?s"
    using jthread_pool_sleeper_never_steals [of 1 ?s "[Spurious 1, Worker 1 0, Spurious 1]"] by blast
  then show ?thesis unfolding d .
qed

text \<open>Destroying the pool drops tasks: the scan for empty queues suggests that they are run first, but \<open>request_stop\<close> makes
  every worker leave its loop; here the one worker runs a task while a second one is submitted and the
  pool is destroyed.\<close>
theorem jthread_pool_shutdown_drops_tasks:
  "let s = run_sched jp_step ([Caller 0 None x, Worker 0 0, Worker 0 0, Worker 0 0, Caller 1 None y, Destroy, Destroy,
       Destroy, Destroy, Worker 0 0, Worker 0 0, Destroy]) (jp_start 1)
   in jp_dtor s = DGone \<and> jp_accepted s = [x, y] \<and> jp_done s = [x] \<and> jp_global s = [y]"
  by (simp add: pool_eval eval_nat_numeral Let_def)

end
