(* ===== verification/MoveOnly.thy ===== *)
theory MoveOnly
  imports Prelude
begin

text \<open>
  The move-only owners of the repository, and what they have in common.

  \<^item> \<open>FixedTask\<close> (modern_cpp_core/concurrency/fixed_task.hpp) keeps the callable in its own
    storage: moving constructs a new object in the destination and destroys the old one.
  \<^item> \<open>function_wrapper\<close> (advancedThreadsManagement/functionWrapper.hpp) owns the callable through a
    \<open>std::unique_ptr\<close>: moving hands over the pointer.
  \<^item> \<open>Generator\<close> and \<open>Task\<close> (modern_cpp_core/coroutines/generator.hpp, task.hpp) own a coroutine frame
    through a handle: moving is \<open>std::exchange\<close> with a null handle.

  The program's variables are numbers; a variable that has not been constructed is not in the map.
  Objects carry identities, so that construction and destruction can be counted; \<open>_ub\<close>
  records the destruction of an object that does not exist.  The locale \<open>move_only\<close> states the contract they share: seen from
  outside, each of them is a box that holds one value or nothing.
\<close>

section \<open>The contract\<close>

datatype 'f mv_op =
    MDefault nat       \<comment> \<open>construct empty\<close>
  | MMake nat 'f       \<comment> \<open>construct from a callable or a coroutine\<close>
  | MMove nat nat      \<comment> \<open>move-construct the first from the second\<close>
  | MAssign nat nat    \<comment> \<open>move-assign to the first from the second\<close>
  | MDestroy nat
  | MCall nat

type_synonym 'f boxes = "nat \<Rightarrow> 'f option option"

fun well_formed :: "'f mv_op \<Rightarrow> nat set \<Rightarrow> bool" where
  "well_formed (MDefault v) vs \<longleftrightarrow> v \<notin> vs"
| "well_formed (MMake v f) vs \<longleftrightarrow> v \<notin> vs"
| "well_formed (MMove v w) vs \<longleftrightarrow> v \<notin> vs \<and> w \<in> vs"
| "well_formed (MAssign v w) vs \<longleftrightarrow> v \<in> vs \<and> w \<in> vs"
| "well_formed (MDestroy v) vs \<longleftrightarrow> v \<in> vs"
| "well_formed (MCall v) vs \<longleftrightarrow> v \<in> vs"

fun box_step :: "'f mv_op \<Rightarrow> 'f boxes \<Rightarrow> 'f boxes" where
  "box_step (MDefault v) b = b(v \<mapsto> None)"
| "box_step (MMake v f) b = b(v \<mapsto> Some f)"
| "box_step (MMove v w) b = b(v := b w, w \<mapsto> None)"
| "box_step (MAssign v w) b = (if v = w then b else b(v := b w, w \<mapsto> None))"
| "box_step (MDestroy v) b = b(v := None)"
| "box_step (MCall v) b = b"

fun box_out :: "'f mv_op \<Rightarrow> 'f boxes \<Rightarrow> 'f option" where
  "box_out (MCall v) b = (case b v of Some (Some f) \<Rightarrow> Some f | _ \<Rightarrow> None)"
| "box_out _ b = None"

text \<open>An operation that the language does not allow at this point, or that the class does not
  have (\<open>provided\<close>), is skipped, so every sequence is a program.\<close>

fun box_spec :: "('f mv_op \<Rightarrow> bool) \<Rightarrow> 'f mv_op \<times> 'f option \<Rightarrow> 'f boxes \<Rightarrow> 'f boxes option" where
  "box_spec provided (e, r) b =
     (if r = (if provided e then box_out e b else None)
      then Some (if provided e \<and> well_formed e (dom b) then box_step e b else b) else None)"

definition guarded ::
  "('f mv_op \<Rightarrow> bool) \<Rightarrow> ('s \<Rightarrow> nat set) \<Rightarrow> ('f mv_op \<Rightarrow> 's \<Rightarrow> 's) \<Rightarrow> 'f mv_op \<Rightarrow> 's \<Rightarrow> 's" where
  "guarded provided vars_of step e s = (if provided e \<and> well_formed e (vars_of s) then step e s else s)"

definition answers ::
  "('f mv_op \<Rightarrow> bool) \<Rightarrow> ('f mv_op \<Rightarrow> 's \<Rightarrow> 'f option) \<Rightarrow> 'f mv_op \<Rightarrow> 's \<Rightarrow> ('f mv_op \<times> 'f option) option" where
  "answers provided out e s = Some (e, if provided e then out e s else None)"

locale move_only =
  fixes provided :: "'f mv_op \<Rightarrow> bool"
    and op_step :: "'f mv_op \<Rightarrow> 's \<Rightarrow> 's"
    and op_out :: "'f mv_op \<Rightarrow> 's \<Rightarrow> 'f option"
    and vars_of :: "'s \<Rightarrow> nat set"
    and mv_inv :: "'s \<Rightarrow> bool"
    and boxes_of :: "'s \<Rightarrow> 'f boxes"
  assumes op_keeps: "mv_inv s \<Longrightarrow> provided e \<Longrightarrow> well_formed e (vars_of s) \<Longrightarrow> mv_inv (op_step e s)"
    and op_refines: "mv_inv s \<Longrightarrow> provided e \<Longrightarrow> well_formed e (vars_of s) \<Longrightarrow>
      boxes_of (op_step e s) = box_step e (boxes_of s)"
    and op_answers: "mv_inv s \<Longrightarrow> provided e \<Longrightarrow> op_out e s = box_out e (boxes_of s)"
    and vars_dom: "mv_inv s \<Longrightarrow> vars_of s = dom (boxes_of s)"
begin

sublocale box: linearizable "guarded provided vars_of op_step" mv_inv boxes_of "answers provided op_out" "box_spec provided"
  by unfold_locales (auto simp: guarded_def answers_def op_keeps op_refines op_answers vars_dom)

end

section \<open>FixedTask\<close>

record 'f fixed_task =
  m_concept :: "(nat \<times> 'f) option"  \<comment> \<open>the object in \<open>m_storage\<close>, when \<open>m_concept\<close> points to it\<close>

record 'f ft_heap =
  ft_vars :: "nat \<Rightarrow> 'f fixed_task option"
  ft_next :: nat
  ft_destroyed :: "nat list"

definition ft_new :: "'f ft_heap" where
  "ft_new = \<lparr>ft_vars = Map.empty, ft_next = 0, ft_destroyed = []\<rparr>"

text \<open>\<open>new (dest) Model(...)\<close> and \<open>m_concept->~Concept()\<close>.\<close>

definition construct_in :: "nat \<Rightarrow> 'f \<Rightarrow> 'f ft_heap \<Rightarrow> 'f ft_heap" where
  "construct_in v f s = s\<lparr>ft_vars := (ft_vars s)(v \<mapsto> \<lparr>m_concept = Some (ft_next s, f)\<rparr>), ft_next := Suc (ft_next s)\<rparr>"

definition clear_task :: "nat \<Rightarrow> 'f ft_heap \<Rightarrow> 'f ft_heap" where
  "clear_task v s =
     (case map_option m_concept (ft_vars s v) of
        Some (Some (c, f)) \<Rightarrow> s\<lparr>ft_vars := (ft_vars s)(v \<mapsto> \<lparr>m_concept = None\<rparr>), ft_destroyed := ft_destroyed s @ [c]\<rparr>
      | _ \<Rightarrow> s)"

definition ft_default :: "nat \<Rightarrow> 'f ft_heap \<Rightarrow> 'f ft_heap" where
  "ft_default v s = s\<lparr>ft_vars := (ft_vars s)(v \<mapsto> \<lparr>m_concept = None\<rparr>)\<rparr>"

definition take_over :: "nat \<Rightarrow> nat \<Rightarrow> 'f ft_heap \<Rightarrow> 'f ft_heap" where
  "take_over v w s =
     (case map_option m_concept (ft_vars s w) of
        Some (Some (c, f)) \<Rightarrow> clear_task w (construct_in v f s)
      | _ \<Rightarrow> s)"

definition ft_move :: "nat \<Rightarrow> nat \<Rightarrow> 'f ft_heap \<Rightarrow> 'f ft_heap" where
  "ft_move v w s = take_over v w (ft_default v s)"

definition ft_assign :: "nat \<Rightarrow> nat \<Rightarrow> 'f ft_heap \<Rightarrow> 'f ft_heap" where
  "ft_assign v w s = (if v = w then s else take_over v w (clear_task v s))"

definition ft_destroy :: "nat \<Rightarrow> 'f ft_heap \<Rightarrow> 'f ft_heap" where
  "ft_destroy v s = (let s' = clear_task v s in s'\<lparr>ft_vars := (ft_vars s')(v := None)\<rparr>)"

definition ft_call :: "nat \<Rightarrow> 'f ft_heap \<Rightarrow> 'f option" where
  "ft_call v s = (case map_option m_concept (ft_vars s v) of Some (Some (c, f)) \<Rightarrow> Some f | _ \<Rightarrow> None)"

fun ft_step :: "'f mv_op \<Rightarrow> 'f ft_heap \<Rightarrow> 'f ft_heap" where
  "ft_step (MDefault v) s = ft_default v s"
| "ft_step (MMake v f) s = construct_in v f s"
| "ft_step (MMove v w) s = ft_move v w s"
| "ft_step (MAssign v w) s = ft_assign v w s"
| "ft_step (MDestroy v) s = ft_destroy v s"
| "ft_step (MCall v) s = s"

fun ft_out :: "'f mv_op \<Rightarrow> 'f ft_heap \<Rightarrow> 'f option" where
  "ft_out (MCall v) s = ft_call v s"
| "ft_out _ s = None"

definition ft_boxes :: "'f ft_heap \<Rightarrow> 'f boxes" where
  "ft_boxes s = (\<lambda>v. map_option (\<lambda>t. map_option snd (m_concept t)) (ft_vars s v))"

definition ft_live :: "'f ft_heap \<Rightarrow> nat \<Rightarrow> nat option" where
  "ft_live s v = (case map_option m_concept (ft_vars s v) of Some (Some (c, f)) \<Rightarrow> Some c | _ \<Rightarrow> None)"

text \<open>Each object that was constructed is either the live object of exactly one variable, or was
  destroyed exactly once: the identities are covered without overlap.\<close>

definition lifetimes :: "nat \<Rightarrow> (nat \<Rightarrow> nat option) \<Rightarrow> nat list \<Rightarrow> bool" where
  "lifetimes n live dead \<longleftrightarrow> distinct dead \<and> set dead \<subseteq> {..<n}
     \<and> (\<forall>v w c. live v = Some c \<longrightarrow> live w = Some c \<longrightarrow> v = w)
     \<and> (\<forall>v c. live v = Some c \<longrightarrow> c \<notin> set dead \<and> c < n)
     \<and> (\<forall>c<n. c \<in> set dead \<or> (\<exists>v. live v = Some c))"

lemma lifetimes_new:
  assumes "lifetimes n live dead" and "live v = None"
  shows "lifetimes (Suc n) (live(v \<mapsto> n)) dead"
proof -
  have "c \<in> set dead \<or> (\<exists>u. (live(v \<mapsto> n)) u = Some c)" if "c < Suc n" for c
  proof (cases "c = n")
    case False
    with that assms(1) consider "c \<in> set dead" | u where "live u = Some c"
      unfolding lifetimes_def by (meson less_SucE)
    then show ?thesis
    proof cases
      case (2 u)
      with assms(2) have "(live(v \<mapsto> n)) u = Some c" by auto
      then show ?thesis by blast
    qed simp
  qed auto
  moreover have "distinct dead \<and> set dead \<subseteq> {..<Suc n}" using assms(1) by (auto simp: lifetimes_def)
  moreover have "a = b" if "(live(v \<mapsto> n)) a = Some c" "(live(v \<mapsto> n)) b = Some c" for a b c
    using assms(1) that unfolding lifetimes_def by (metis fun_upd_apply less_irrefl option.inject)
  moreover have "c \<notin> set dead \<and> c < Suc n" if "(live(v \<mapsto> n)) a = Some c" for a c
    using assms(1) that unfolding lifetimes_def by (force split: if_splits)
  ultimately show ?thesis unfolding lifetimes_def by blast
qed

lemma lifetimes_end:
  assumes "lifetimes n live dead" and "live v = Some c"
  shows "lifetimes n (live(v := None)) (dead @ [c])"
proof -
  have "d \<in> set (dead @ [c]) \<or> (\<exists>u. (live(v := None)) u = Some d)" if "d < n" for d
    using assms that unfolding lifetimes_def by (metis fun_upd_apply in_set_conv_decomp option.inject set_append Un_iff)
  moreover have "distinct (dead @ [c]) \<and> set (dead @ [c]) \<subseteq> {..<n}" using assms by (auto simp: lifetimes_def)
  moreover have "d \<notin> set (dead @ [c]) \<and> d < n" if "(live(v := None)) u = Some d" for u d
    using assms that unfolding lifetimes_def by (auto split: if_splits)
  moreover have "a = b" if "(live(v := None)) a = Some d" "(live(v := None)) b = Some d" for a b d
    using assms that unfolding lifetimes_def by (metis fun_upd_apply option.distinct(1))
  ultimately show ?thesis unfolding lifetimes_def by blast
qed

lemma lifetimes_pass:
  assumes "lifetimes n live dead" and "live v = None" and "v \<noteq> w"
  shows "lifetimes n (live(v := live w, w := None)) dead"
proof -
  have "c \<in> set dead \<or> (\<exists>u. (live(v := live w, w := None)) u = Some c)" if "c < n" for c
  proof -
    have "c \<in> set dead \<or> (\<exists>u. live u = Some c)" using assms(1) that unfolding lifetimes_def by blast
    then show ?thesis
    proof (elim disjE exE)
      fix u assume "live u = Some c"
      with assms(2,3) have "(live(v := live w, w := None)) (if u = w then v else u) = Some c" by auto
      then show ?thesis by blast
    qed simp
  qed
  moreover have "a = b" if "(live(v := live w, w := None)) a = Some c" "(live(v := live w, w := None)) b = Some c" for a b c
    using assms that unfolding lifetimes_def by (metis fun_upd_apply option.distinct(1))
  moreover have "c \<notin> set dead \<and> c < n" if "(live(v := live w, w := None)) u = Some c" for u c
    using assms(1) that unfolding lifetimes_def by (auto split: if_splits)
  ultimately show ?thesis using assms(1) unfolding lifetimes_def by blast
qed

lemma lifetimes_none: "lifetimes n live dead \<Longrightarrow> live v = None \<Longrightarrow> lifetimes n (live(v := None)) dead"
  by (metis fun_upd_triv)

definition ft_inv :: "'f ft_heap \<Rightarrow> bool" where
  "ft_inv s \<longleftrightarrow> lifetimes (ft_next s) (ft_live s) (ft_destroyed s)"

text \<open>Each building block acts on the live objects and on the boxes as follows.\<close>

lemma construct_acts:
  "ft_live (construct_in v f s) = (ft_live s)(v \<mapsto> ft_next s)" "ft_boxes (construct_in v f s) = (ft_boxes s)(v \<mapsto> Some f)"
  "ft_next (construct_in v f s) = Suc (ft_next s)" "ft_destroyed (construct_in v f s) = ft_destroyed s"
  by (auto simp: construct_in_def ft_live_def ft_boxes_def)

lemma default_acts:
  "ft_live (ft_default v s) = (ft_live s)(v := None)" "ft_boxes (ft_default v s) = (ft_boxes s)(v \<mapsto> None)"
  "ft_next (ft_default v s) = ft_next s" "ft_destroyed (ft_default v s) = ft_destroyed s"
  by (auto simp: ft_default_def ft_live_def ft_boxes_def)

lemma clear_acts:
  "ft_live (clear_task v s) = (ft_live s)(v := None)"
  "v \<in> dom (ft_vars s) \<Longrightarrow> ft_boxes (clear_task v s) = (ft_boxes s)(v \<mapsto> None)"
  "ft_next (clear_task v s) = ft_next s"
  "ft_destroyed (clear_task v s) = ft_destroyed s @ (case ft_live s v of None \<Rightarrow> [] | Some c \<Rightarrow> [c])"
  "dom (ft_vars (clear_task v s)) = dom (ft_vars s)"
  by (auto simp: clear_task_def ft_live_def ft_boxes_def fun_eq_iff split: option.splits)

lemma live_box: "ft_live s v = None \<longleftrightarrow> ft_boxes s v \<in> {None, Some None}"
  by (auto simp: ft_live_def ft_boxes_def split: option.splits)

lemma clear_keeps: "ft_inv s \<Longrightarrow> ft_inv (clear_task v s)"
  unfolding ft_inv_def clear_acts
  by (cases "ft_live s v") (auto simp: lifetimes_none dest: lifetimes_end [of _ _ _ v])

lemma construct_keeps: "ft_inv s \<Longrightarrow> ft_live s v = None \<Longrightarrow> ft_inv (construct_in v f s)"
  unfolding ft_inv_def construct_acts by (rule lifetimes_new)

lemma take_over_keeps:
  assumes "ft_inv s" and "ft_live s v = None"
  shows "ft_inv (take_over v w s)"
  using assms by (auto simp: take_over_def clear_keeps construct_keeps split: option.splits)

lemma take_over_boxes:
  assumes "v \<noteq> w" and "ft_boxes s v = Some None" and "w \<in> dom (ft_vars s)"
  shows "ft_boxes (take_over v w s) = (ft_boxes s)(v := ft_boxes s w, w \<mapsto> None)"
proof -
  obtain t where t: "ft_vars s w = Some t" using assms(3) by blast
  show ?thesis
  proof (cases "m_concept t")
    case None
    with t have "ft_boxes s w = Some None" "take_over v w s = s" by (simp_all add: ft_boxes_def take_over_def)
    with assms(2) show ?thesis by auto
  next
    case (Some cf)
    obtain c f where cf: "cf = (c, f)" by (cases cf)
    have "w \<in> dom (ft_vars (construct_in v f s))" using t by (auto simp: construct_in_def)
    then have "ft_boxes (take_over v w s) = (ft_boxes s)(v \<mapsto> Some f, w \<mapsto> None)"
      using t Some cf by (simp add: take_over_def clear_acts construct_acts)
    moreover have "ft_boxes s w = Some (Some f)" using t Some cf by (simp add: ft_boxes_def)
    ultimately show ?thesis by simp
  qed
qed

interpretation ft: move_only "\<lambda>_. True" ft_step ft_out "\<lambda>s. dom (ft_vars s)" ft_inv ft_boxes
proof
  fix s :: "'f ft_heap" and e :: "'f mv_op"
  assume inv: "ft_inv s"
  show dom: "dom (ft_vars s) = dom (ft_boxes s)" by (auto simp: ft_boxes_def)
  show "ft_out e s = box_out e (ft_boxes s)"
    by (cases e) (auto simp: ft_call_def ft_boxes_def split: option.splits)
  assume wf: "well_formed e (dom (ft_vars s))"
  have free: "ft_live s v = None" if "v \<notin> dom (ft_vars s)" for v
    using that by (auto simp: ft_live_def split: option.splits)
  have ftd: "ft_inv (ft_default v s)" if "v \<notin> dom (ft_vars s)" for v
    using inv free [OF that] unfolding ft_inv_def default_acts by (rule lifetimes_none)
  have "ft_inv (ft_step e s) \<and> ft_boxes (ft_step e s) = box_step e (ft_boxes s)"
  proof (cases e)
    case (MDefault v)
    with wf ftd show ?thesis by (simp add: default_acts)
  next
    case (MMake v f)
    with wf inv free show ?thesis by (simp add: construct_acts construct_keeps)
  next
    case (MMove v w)
    with wf have vw: "v \<noteq> w" "v \<notin> dom (ft_vars s)" "w \<in> dom (ft_vars s)" by auto
    have dw: "w \<in> dom (ft_vars (ft_default v s))" using vw by (simp add: ft_default_def)
    have "ft_boxes (ft_move v w s) = (ft_boxes (ft_default v s))(v := ft_boxes (ft_default v s) w, w \<mapsto> None)"
      unfolding ft_move_def
      by (rule take_over_boxes) (use vw dw in \<open>simp_all add: default_acts\<close>)
    moreover have "ft_inv (ft_move v w s)" unfolding ft_move_def
      by (rule take_over_keeps) (use vw ftd in \<open>simp_all add: default_acts\<close>)
    ultimately show ?thesis using MMove vw by (simp add: default_acts)
  next
    case (MAssign v w)
    with wf have vw: "v \<in> dom (ft_vars s)" "w \<in> dom (ft_vars s)" by auto
    show ?thesis
    proof (cases "v = w")
      case False
      have cb: "ft_boxes (clear_task v s) = (ft_boxes s)(v \<mapsto> None)" by (rule clear_acts(2)) (rule vw)
      have cd: "w \<in> dom (ft_vars (clear_task v s))" unfolding clear_acts by (rule vw)
      have "ft_boxes (take_over v w (clear_task v s))
          = (ft_boxes (clear_task v s))(v := ft_boxes (clear_task v s) w, w \<mapsto> None)"
        by (rule take_over_boxes) (use False cb cd in simp_all)
      moreover have "ft_inv (take_over v w (clear_task v s))"
        by (rule take_over_keeps) (simp_all add: clear_acts clear_keeps inv)
      ultimately show ?thesis using MAssign False cb by (simp add: ft_assign_def)
    qed (use MAssign inv in \<open>simp add: ft_assign_def\<close>)
  next
    case (MDestroy v)
    have "ft_live (ft_destroy v s) = ft_live (clear_task v s)"
      unfolding clear_acts by (auto simp: ft_destroy_def Let_def ft_live_def clear_task_def split: option.splits)
    moreover have "ft_boxes (ft_destroy v s) = (ft_boxes s)(v := None)"
      by (auto simp: ft_destroy_def Let_def ft_boxes_def clear_task_def fun_eq_iff split: option.splits)
    ultimately show ?thesis using clear_keeps [OF inv, of v] MDestroy
      by (simp add: ft_inv_def) (simp add: ft_destroy_def Let_def)
  qed (use inv in simp_all)
  then show "ft_inv (ft_step e s)" and "ft_boxes (ft_step e s) = box_step e (ft_boxes s)" by blast+
qed

section \<open>Owners through a pointer or a handle\<close>

record 'f owners =
  ow_vars :: "nat \<Rightarrow> nat option option"  \<comment> \<open>the pointer in each variable; null is \<open>Some None\<close>\<close>
  ow_objs :: "nat \<Rightarrow> 'f option"
  ow_next :: nat
  ow_destroyed :: "nat list"
  ow_ub :: bool

definition ow_new :: "'f owners" where
  "ow_new = \<lparr>ow_vars = Map.empty, ow_objs = Map.empty, ow_next = 0, ow_destroyed = [], ow_ub = False\<rparr>"

definition allocate_in :: "nat \<Rightarrow> 'f \<Rightarrow> 'f owners \<Rightarrow> 'f owners" where
  "allocate_in v f s = s\<lparr>ow_vars := (ow_vars s)(v \<mapsto> Some (ow_next s)), ow_objs := (ow_objs s)(ow_next s \<mapsto> f),
     ow_next := Suc (ow_next s)\<rparr>"

definition delete_owned :: "nat option \<Rightarrow> 'f owners \<Rightarrow> 'f owners" where
  "delete_owned p s =
     (case p of None \<Rightarrow> s
      | Some c \<Rightarrow> if ow_objs s c = None then s\<lparr>ow_ub := True\<rparr>
          else s\<lparr>ow_objs := (ow_objs s)(c := None), ow_destroyed := ow_destroyed s @ [c]\<rparr>)"

definition ptr :: "nat \<Rightarrow> 'f owners \<Rightarrow> nat option" where
  "ptr v s = (case ow_vars s v of Some p \<Rightarrow> p | None \<Rightarrow> None)"

definition set_ptr :: "nat \<Rightarrow> nat option \<Rightarrow> 'f owners \<Rightarrow> 'f owners" where
  "set_ptr v p s = s\<lparr>ow_vars := (ow_vars s)(v \<mapsto> p)\<rparr>"

text \<open>\<open>function_wrapper\<close>: \<open>impl = std::move(other.impl)\<close> releases the other pointer, stores it, then deletes the old one;
  there is no test for self-assignment.\<close>

definition fw_assign :: "nat \<Rightarrow> nat \<Rightarrow> 'f owners \<Rightarrow> 'f owners" where
  "fw_assign v w s =
     (let p = ptr w s; s1 = set_ptr w None s; old = ptr v s1 in delete_owned old (set_ptr v p s1))"

definition fw_destroy :: "nat \<Rightarrow> 'f owners \<Rightarrow> 'f owners" where
  "fw_destroy v s = (let s1 = delete_owned (ptr v s) s in s1\<lparr>ow_vars := (ow_vars s1)(v := None)\<rparr>)"

definition fw_move :: "nat \<Rightarrow> nat \<Rightarrow> 'f owners \<Rightarrow> 'f owners" where
  "fw_move v w s = (let p = ptr w s in set_ptr v p (set_ptr w None s))"

definition fw_call :: "nat \<Rightarrow> 'f owners \<Rightarrow> 'f option" where
  "fw_call v s = (case ptr v s of None \<Rightarrow> None | Some c \<Rightarrow> ow_objs s c)"

fun fw_step :: "'f mv_op \<Rightarrow> 'f owners \<Rightarrow> 'f owners" where
  "fw_step (MDefault v) s = set_ptr v None s"
| "fw_step (MMake v f) s = allocate_in v f s"
| "fw_step (MMove v w) s = fw_move v w s"
| "fw_step (MAssign v w) s = fw_assign v w s"
| "fw_step (MDestroy v) s = fw_destroy v s"
| "fw_step (MCall v) s = s"

fun fw_out :: "'f mv_op \<Rightarrow> 'f owners \<Rightarrow> 'f option" where
  "fw_out (MCall v) s = fw_call v s"
| "fw_out _ s = None"

text \<open>\<open>Generator\<close>, \<open>Task<T>\<close> and \<open>Task<void>\<close> have the same five members.  They have no default constructor and no call.\<close>

definition co_move :: "nat \<Rightarrow> nat \<Rightarrow> 'f owners \<Rightarrow> 'f owners" where
  "co_move v w s = (let p = ptr w s in set_ptr v p (set_ptr w None s))"

definition co_assign :: "nat \<Rightarrow> nat \<Rightarrow> 'f owners \<Rightarrow> 'f owners" where
  "co_assign v w s =
     (if v \<noteq> w then
        (let s1 = delete_owned (ptr v s) s; p = ptr w s1 in set_ptr v p (set_ptr w None s1))
      else s)"

definition co_destroy :: "nat \<Rightarrow> 'f owners \<Rightarrow> 'f owners" where
  "co_destroy v s = (let s1 = delete_owned (ptr v s) s in s1\<lparr>ow_vars := (ow_vars s1)(v := None)\<rparr>)"

fun co_step :: "'f mv_op \<Rightarrow> 'f owners \<Rightarrow> 'f owners" where
  "co_step (MMake v f) s = allocate_in v f s"
| "co_step (MMove v w) s = co_move v w s"
| "co_step (MAssign v w) s = co_assign v w s"
| "co_step (MDestroy v) s = co_destroy v s"
| "co_step (MDefault v) s = s"
| "co_step (MCall v) s = s"

fun co_provided :: "'f mv_op \<Rightarrow> bool" where
  "co_provided (MDefault v) \<longleftrightarrow> False"
| "co_provided (MCall v) \<longleftrightarrow> False"
| "co_provided _ \<longleftrightarrow> True"

definition ow_boxes :: "'f owners \<Rightarrow> 'f boxes" where
  "ow_boxes s = (\<lambda>v. map_option (\<lambda>p. case p of None \<Rightarrow> None | Some c \<Rightarrow> ow_objs s c) (ow_vars s v))"

definition ow_inv :: "'f owners \<Rightarrow> bool" where
  "ow_inv s \<longleftrightarrow> \<not> ow_ub s \<and> lifetimes (ow_next s) (\<lambda>v. ptr v s) (ow_destroyed s)
     \<and> (\<forall>c. ow_objs s c \<noteq> None \<longleftrightarrow> (\<exists>v. ptr v s = Some c))"

lemma ptr_simps [simp]:
  "ptr v (set_ptr w p s) = (if v = w then p else ptr v s)"
  "ptr v (allocate_in w f s) = (if v = w then Some (ow_next s) else ptr v s)"
  "ptr v (delete_owned q s) = ptr v s"
  "ptr v (s\<lparr>ow_vars := (ow_vars s)(w := None)\<rparr>) = (if v = w then None else ptr v s)"
  by (auto simp: ptr_def set_ptr_def allocate_in_def delete_owned_def split: option.splits)

lemma own_facts:
  assumes "ow_inv s" and "ptr v s = Some c"
  shows "ow_objs s c \<noteq> None" and "c < ow_next s" and "\<And>w. ptr w s = Some c \<Longrightarrow> w = v"
  using assms unfolding ow_inv_def lifetimes_def by blast+

lemma allocate_keeps:
  assumes inv: "ow_inv s" and v: "ptr v s = None"
  shows "ow_inv (allocate_in v f s)"
proof -
  have "lifetimes (Suc (ow_next s)) ((\<lambda>u. ptr u s)(v \<mapsto> ow_next s)) (ow_destroyed s)"
    by (rule lifetimes_new) (use inv v in \<open>simp_all add: ow_inv_def\<close>)
  moreover have "(\<lambda>u. ptr u (allocate_in v f s)) = (\<lambda>u. ptr u s)(v \<mapsto> ow_next s)" by auto
  moreover have "ow_objs (allocate_in v f s) c \<noteq> None \<longleftrightarrow> (\<exists>u. ptr u (allocate_in v f s) = Some c)" for c
  proof -
    have "ow_objs s c \<noteq> None \<longleftrightarrow> (\<exists>u. ptr u s = Some c)" using inv unfolding ow_inv_def by blast
    moreover have "(\<exists>u. ptr u (allocate_in v f s) = Some c) \<longleftrightarrow> c = ow_next s \<or> (\<exists>u. ptr u s = Some c)"
      using v by (metis option.distinct(1) option.inject ptr_simps(2))
    moreover have "ow_objs (allocate_in v f s) c \<noteq> None \<longleftrightarrow> c = ow_next s \<or> ow_objs s c \<noteq> None"
      by (simp add: allocate_in_def)
    ultimately show ?thesis by blast
  qed
  moreover have "ow_next (allocate_in v f s) = Suc (ow_next s)" "ow_destroyed (allocate_in v f s) = ow_destroyed s"
    "ow_ub (allocate_in v f s) = ow_ub s" by (simp_all add: allocate_in_def)
  ultimately show ?thesis using inv unfolding ow_inv_def by presburger
qed

text \<open>Deleting the object of \<open>v\<close> is right once \<open>v\<close> no longer points to it.\<close>

lemma drop_keeps:
  assumes inv: "ow_inv s" and p: "\<And>u. ptr u s' = (if u = v then None else ptr u s)"
    and objs: "ow_objs s' = (case ptr v s of None \<Rightarrow> ow_objs s | Some c \<Rightarrow> (ow_objs s)(c := None))"
    and dead: "ow_destroyed s' = ow_destroyed s @ (case ptr v s of None \<Rightarrow> [] | Some c \<Rightarrow> [c])"
    and same: "ow_ub s' = ow_ub s" "ow_next s' = ow_next s"
  shows "ow_inv s'"
proof -
  have pp: "(\<lambda>u. ptr u s') = (\<lambda>u. ptr u s)(v := None)" using p by auto
  have "lifetimes (ow_next s') (\<lambda>u. ptr u s') (ow_destroyed s')"
    unfolding pp same dead using inv
    by (cases "ptr v s") (auto simp: ow_inv_def lifetimes_none dest: lifetimes_end [of _ _ _ v])
  moreover have "ow_objs s' c \<noteq> None \<longleftrightarrow> (\<exists>u. ptr u s' = Some c)" for c
  proof -
    have c: "ow_objs s c \<noteq> None \<longleftrightarrow> (\<exists>u. ptr u s = Some c)" using inv unfolding ow_inv_def by blast
    show ?thesis
    proof (cases "ptr v s = Some c")
      case True
      then have "\<And>u. u \<noteq> v \<Longrightarrow> ptr u s \<noteq> Some c" using own_facts(3) [OF inv True] by blast
      with True show ?thesis by (auto simp: objs p)
    next
      case False
      then have "ow_objs s' c = ow_objs s c" by (auto simp: objs split: option.splits)
      with False c p show ?thesis by (metis option.distinct(1))
    qed
  qed
  ultimately show ?thesis using inv same by (simp add: ow_inv_def)
qed

lemma pass_keeps:
  assumes inv: "ow_inv s" and v: "ptr v s = None" "v \<noteq> w"
  shows "ow_inv (set_ptr v (ptr w s) (set_ptr w None s))"
proof -
  let ?t = "set_ptr v (ptr w s) (set_ptr w None s)"
  have "lifetimes (ow_next s) ((\<lambda>u. ptr u s)(v := ptr w s, w := None)) (ow_destroyed s)"
    by (rule lifetimes_pass) (use inv v in \<open>simp_all add: ow_inv_def\<close>)
  moreover have "(\<lambda>u. ptr u ?t) = (\<lambda>u. ptr u s)(v := ptr w s, w := None)" using v by auto
  moreover have "(\<exists>u. ptr u ?t = Some c) \<longleftrightarrow> (\<exists>u. ptr u s = Some c)" for c
    using v by (metis (full_types) option.distinct(1) ptr_simps(1))
  moreover have "ow_next ?t = ow_next s" "ow_destroyed ?t = ow_destroyed s" "ow_objs ?t = ow_objs s" "ow_ub ?t = ow_ub s"
    by (simp_all add: set_ptr_def)
  ultimately show ?thesis using inv unfolding ow_inv_def by presburger
qed

lemma delete_effect:
  assumes "ow_inv s" and "\<And>c. q = Some c \<Longrightarrow> \<exists>v. ptr v s = Some c"
  shows "ow_objs (delete_owned q s) = (case q of None \<Rightarrow> ow_objs s | Some c \<Rightarrow> (ow_objs s)(c := None))"
    and "ow_destroyed (delete_owned q s) = ow_destroyed s @ (case q of None \<Rightarrow> [] | Some c \<Rightarrow> [c])"
    and "ow_ub (delete_owned q s) = ow_ub s" and "ow_next (delete_owned q s) = ow_next s"
    and "ow_vars (delete_owned q s) = ow_vars s"
proof -
  have "ow_objs s c \<noteq> None" if "q = Some c" for c using assms(2) [OF that] own_facts(1) [OF assms(1)] by blast
  then show "ow_objs (delete_owned q s) = (case q of None \<Rightarrow> ow_objs s | Some c \<Rightarrow> (ow_objs s)(c := None))"
    and "ow_destroyed (delete_owned q s) = ow_destroyed s @ (case q of None \<Rightarrow> [] | Some c \<Rightarrow> [c])"
    and "ow_ub (delete_owned q s) = ow_ub s" and "ow_next (delete_owned q s) = ow_next s"
    and "ow_vars (delete_owned q s) = ow_vars s"
    by (cases q; force simp: delete_owned_def)+
qed

lemma delete_set_ptr: "delete_owned q (set_ptr v p s) = set_ptr v p (delete_owned q s)"
  by (simp add: delete_owned_def set_ptr_def split: option.splits)

lemma destroy_owner:
  fixes s :: "'f owners" and v :: nat
  assumes inv: "ow_inv s"
  defines "t \<equiv> delete_owned (ptr v s) s"
  shows "ow_inv (t\<lparr>ow_vars := (ow_vars t)(v := None)\<rparr>)"
    and "ow_boxes (t\<lparr>ow_vars := (ow_vars t)(v := None)\<rparr>) = (ow_boxes s)(v := None)"
    and "ow_inv (set_ptr v None t)"
proof -
  have owned: "\<And>c. ptr v s = Some c \<Longrightarrow> \<exists>u. ptr u s = Some c" by blast
  note eff = delete_effect [OF inv owned]
  show "ow_inv (t\<lparr>ow_vars := (ow_vars t)(v := None)\<rparr>)"
    by (rule drop_keeps [OF inv, of _ v]) (simp_all add: t_def eff, simp add: ptr_def)
  show "ow_inv (set_ptr v None t)"
    by (rule drop_keeps [OF inv, of _ v]) (simp_all add: t_def eff set_ptr_def, simp add: ptr_def)
  show "ow_boxes (t\<lparr>ow_vars := (ow_vars t)(v := None)\<rparr>) = (ow_boxes s)(v := None)"
  proof
    fix u
    have "ow_objs t c = ow_objs s c" if "u \<noteq> v" "ptr u s = Some c" for c
      using own_facts(3) [OF inv that(2)] that(1) by (auto simp: t_def eff split: option.splits)
    then show "ow_boxes (t\<lparr>ow_vars := (ow_vars t)(v := None)\<rparr>) u = ((ow_boxes s)(v := None)) u"
      by (cases "ow_vars s u") (auto simp: ow_boxes_def t_def eff ptr_def split: option.splits)
  qed
qed

lemma pass_boxes:
  assumes "v \<noteq> w" and "w \<in> dom (ow_vars s)"
  shows "ow_boxes (set_ptr v (ptr w s) (set_ptr w None s)) = (ow_boxes s)(v := ow_boxes s w, w \<mapsto> None)"
  using assms by (auto simp: ow_boxes_def set_ptr_def ptr_def fun_eq_iff split: option.splits)

lemma assign_owner:
  fixes s :: "'f owners" and v w :: nat
  assumes inv: "ow_inv s" and vw: "v \<noteq> w" "w \<in> dom (ow_vars s)"
  defines "t \<equiv> set_ptr v (ptr w s) (set_ptr w None (delete_owned (ptr v s) s))"
  shows "ow_inv t" and "ow_boxes t = (ow_boxes s)(v := ow_boxes s w, w \<mapsto> None)"
proof -
  let ?d = "set_ptr v None (delete_owned (ptr v s) s)"
  have t: "t = set_ptr v (ptr w ?d) (set_ptr w None ?d)"
    using vw by (simp add: t_def) (simp add: set_ptr_def fun_upd_twist)
  show "ow_inv t" unfolding t
    by (rule pass_keeps [OF destroy_owner(3) [OF inv]]) (use vw in simp_all)
  have owned: "\<And>c. ptr v s = Some c \<Longrightarrow> \<exists>u. ptr u s = Some c" by blast
  have wd: "w \<in> dom (ow_vars ?d)" using vw by (simp add: set_ptr_def delete_effect(5) [OF inv owned])
  have "ow_boxes ?d u = ow_boxes s u" if "u \<noteq> v" for u
    using fun_cong [OF destroy_owner(2) [OF inv, of v], of u] that
    by (simp add: ow_boxes_def set_ptr_def split: option.splits)
  then show "ow_boxes t = (ow_boxes s)(v := ow_boxes s w, w \<mapsto> None)"
    unfolding t pass_boxes [OF vw(1) wd] using vw by (auto simp: fun_eq_iff)
qed

lemma allocate_boxes:
  assumes "ow_inv s"
  shows "ow_boxes (allocate_in v f s) = (ow_boxes s)(v \<mapsto> Some f)"
proof
  fix u
  have "c \<noteq> ow_next s" if "ptr u s = Some c" for c using own_facts(2) [OF assms that] by simp
  then show "ow_boxes (allocate_in v f s) u = ((ow_boxes s)(v \<mapsto> Some f)) u"
    by (cases "ow_vars s u") (auto simp: ow_boxes_def allocate_in_def ptr_def split: option.splits)
qed

lemma ow_dom: "dom (ow_vars s) = dom (ow_boxes s)"
  by (auto simp: ow_boxes_def)

lemma no_var_no_ptr: "v \<notin> dom (ow_vars s) \<Longrightarrow> ptr v s = None"
  by (auto simp: ptr_def split: option.splits)

interpretation fw: move_only "\<lambda>_. True" fw_step fw_out "\<lambda>s. dom (ow_vars s)" ow_inv ow_boxes
proof
  fix s :: "'f owners" and e :: "'f mv_op"
  assume inv: "ow_inv s"
  show "dom (ow_vars s) = dom (ow_boxes s)" by (rule ow_dom)
  show "fw_out e s = box_out e (ow_boxes s)"
  proof (cases e)
    case (MCall v)
    have "ow_objs s c \<noteq> None" if "ow_vars s v = Some (Some c)" for c
      by (rule own_facts(1) [OF inv, of v]) (simp add: ptr_def that)
    with MCall show ?thesis by (auto simp: fw_call_def ow_boxes_def ptr_def split: option.splits)
  qed simp_all
  assume wf: "well_formed e (dom (ow_vars s))"
  have "ow_inv (fw_step e s) \<and> ow_boxes (fw_step e s) = box_step e (ow_boxes s)"
  proof (cases e)
    case (MDefault v)
    with wf have v: "ptr v s = None" by (simp add: no_var_no_ptr)
    have "ow_inv (set_ptr v None s)" by (rule drop_keeps [OF inv, of _ v]) (simp_all add: v set_ptr_def, simp add: ptr_def)
    with MDefault show ?thesis by (auto simp: ow_boxes_def set_ptr_def)
  next
    case (MMake v f)
    with wf show ?thesis by (simp add: allocate_keeps inv no_var_no_ptr allocate_boxes)
  next
    case (MMove v w)
    with wf have "v \<noteq> w" "ptr v s = None" "w \<in> dom (ow_vars s)" by (auto simp: no_var_no_ptr)
    then show ?thesis unfolding MMove fw_step.simps fw_move_def Let_def box_step.simps
      by (simp only: pass_keeps [OF inv] pass_boxes simp_thms)
  next
    case (MAssign v w)
    with wf have d: "v \<in> dom (ow_vars s)" "w \<in> dom (ow_vars s)" by simp_all
    show ?thesis
    proof (cases "v = w")
      case True
      obtain p where p: "ow_vars s v = Some p" using d(1) by blast
      then have "(ow_vars s)(v \<mapsto> p) = ow_vars s" by auto
      then have "fw_assign v v s = s" using p
        by (simp add: fw_assign_def set_ptr_def ptr_def delete_owned_def Let_def)
      with True MAssign inv show ?thesis by simp
    next
      case False
      have "fw_assign v w s = set_ptr v (ptr w s) (set_ptr w None (delete_owned (ptr v s) s))"
        using False by (simp add: fw_assign_def Let_def delete_set_ptr)
      with False MAssign d assign_owner [OF inv False d(2)] show ?thesis by simp
    qed
  next
    case (MDestroy v)
    then show ?thesis using destroy_owner [OF inv, of v] by (simp add: fw_destroy_def Let_def)
  qed (use inv in simp_all)
  then show "ow_inv (fw_step e s)" and "ow_boxes (fw_step e s) = box_step e (ow_boxes s)" by blast+
qed

interpretation co: move_only co_provided co_step "\<lambda>_ _. None" "\<lambda>s. dom (ow_vars s)" ow_inv ow_boxes
proof
  fix s :: "'f owners" and e :: "'f mv_op"
  assume inv: "ow_inv s"
  show "dom (ow_vars s) = dom (ow_boxes s)" by (rule ow_dom)
  assume prov: "co_provided e"
  then show "None = box_out e (ow_boxes s)" by (cases e) simp_all
  assume wf: "well_formed e (dom (ow_vars s))"
  have "ow_inv (co_step e s) \<and> ow_boxes (co_step e s) = box_step e (ow_boxes s)"
  proof (cases e)
    case (MMake v f)
    with wf show ?thesis by (simp add: allocate_keeps inv no_var_no_ptr allocate_boxes)
  next
    case (MMove v w)
    with wf have "v \<noteq> w" "ptr v s = None" "w \<in> dom (ow_vars s)" by (auto simp: no_var_no_ptr)
    then show ?thesis unfolding MMove co_step.simps co_move_def Let_def box_step.simps
      by (simp only: pass_keeps [OF inv] pass_boxes simp_thms)
  next
    case (MAssign v w)
    with wf have d: "w \<in> dom (ow_vars s)" by simp
    show ?thesis
    proof (cases "v = w")
      case False
      then show ?thesis using MAssign assign_owner [OF inv False d] by (simp add: co_assign_def Let_def)
    qed (use MAssign inv in \<open>simp add: co_assign_def\<close>)
  next
    case (MDestroy v)
    then show ?thesis using destroy_owner [OF inv, of v] by (simp add: co_destroy_def Let_def)
  qed (use prov in simp_all)
  then show "ow_inv (co_step e s)" and "ow_boxes (co_step e s) = box_step e (ow_boxes s)" by blast+
qed

section \<open>Properties\<close>

definition ft_run :: "'f mv_op list \<Rightarrow> 'f ft_heap" where
  "ft_run es = run_sched (guarded (\<lambda>_. True) (\<lambda>s. dom (ft_vars s)) ft_step) es ft_new"

definition fw_run :: "'f mv_op list \<Rightarrow> 'f owners" where
  "fw_run es = run_sched (guarded (\<lambda>_. True) (\<lambda>s. dom (ow_vars s)) fw_step) es ow_new"

definition co_run :: "'f mv_op list \<Rightarrow> 'f owners" where
  "co_run es = run_sched (guarded co_provided (\<lambda>s. dom (ow_vars s)) co_step) es ow_new"

lemma new_inv: "ft_inv ft_new" "ow_inv ow_new" "ft_boxes ft_new = Map.empty" "ow_boxes ow_new = Map.empty"
  by (simp_all add: ft_inv_def ft_new_def lifetimes_def ft_live_def ow_inv_def ow_new_def ptr_def ft_boxes_def ow_boxes_def)

text \<open>(C23) \<open>FixedTask\<close> and \<open>function_wrapper\<close> are interchangeable: for every sequence of constructions, moves, assignments (to themselves too), calls and
  destructions, each call runs the same callable in both, namely the one a box holds according to the specification, and a call of an empty one does nothing.\<close>
theorem fixed_task_equals_function_wrapper:
  fixes es :: "'f mv_op list"
  defines "ft_trace \<equiv> visible_trace (guarded (\<lambda>_. True) (\<lambda>s. dom (ft_vars s)) ft_step) (answers (\<lambda>_. True) ft_out) es ft_new"
    and "fw_trace \<equiv> visible_trace (guarded (\<lambda>_. True) (\<lambda>s. dom (ow_vars s)) fw_step) (answers (\<lambda>_. True) fw_out) es ow_new"
  shows "spec_run (box_spec (\<lambda>_. True)) ft_trace Map.empty = Some (ft_boxes (ft_run es))
    \<and> spec_run (box_spec (\<lambda>_. True)) fw_trace Map.empty = Some (ow_boxes (fw_run es))
    \<and> ft_trace = fw_trace"
proof -
  have ft: "spec_run (box_spec (\<lambda>_. True)) ft_trace Map.empty = Some (ft_boxes (ft_run es))"
    using ft.box.trace_meets_spec [OF new_inv(1), of es] by (simp add: ft_trace_def ft_run_def new_inv)
  have fw: "spec_run (box_spec (\<lambda>_. True)) fw_trace Map.empty = Some (ow_boxes (fw_run es))"
    using fw.box.trace_meets_spec [OF new_inv(2), of es] by (simp add: fw_trace_def fw_run_def new_inv)
  have same: "as = bs"
    if "spec_run (box_spec (\<lambda>_. True)) as b = Some x" "spec_run (box_spec (\<lambda>_. True)) bs b = Some y" "map fst as = map fst bs"
    for as bs :: "('f mv_op \<times> 'f option) list" and b x y
    using that
  proof (induction as arbitrary: bs b)
    case (Cons p as)
    then obtain q bs' where bs: "bs = q # bs'" by (cases bs) auto
    with Cons.prems have "p = q" by (cases p; cases q) (auto split: if_splits)
    with Cons bs show ?case by (cases q) (auto split: if_splits option.splits)
  qed simp
  have ops: "map fst (visible_trace st (answers (\<lambda>_. True) out) es s) = es"
    for st :: "'f mv_op \<Rightarrow> 's \<Rightarrow> 's" and out s
    by (induction es arbitrary: s) (simp_all add: answers_def)
  have "ft_trace = fw_trace" by (rule same [OF ft fw]) (simp add: ft_trace_def fw_trace_def ops)
  with ft fw show ?thesis by blast
qed

text \<open>Lifetimes in \<open>FixedTask\<close>: of all the callable objects ever constructed, moved-to copies included, those destroyed were destroyed once, no two tasks share an object, and an object not yet destroyed is the one in some task; so once all tasks are
  gone every object has been destroyed exactly once.\<close>
theorem fixed_task_lifetimes:
  fixes es :: "'f mv_op list"
  defines "s \<equiv> ft_run es"
  shows "lifetimes (ft_next s) (ft_live s) (ft_destroyed s)
    \<and> (dom (ft_vars s) = {} \<longrightarrow> distinct (ft_destroyed s) \<and> set (ft_destroyed s) = {..<ft_next s})"
proof -
  have inv: "lifetimes (ft_next s) (ft_live s) (ft_destroyed s)"
    using ft.box.sched_keeps [OF new_inv(1), of es] by (simp add: s_def ft_run_def ft_inv_def)
  moreover have "ft_live s v = None" if "dom (ft_vars s) = {}" for v using that by (simp add: ft_live_def)
  ultimately show ?thesis unfolding lifetimes_def by fastforce
qed

theorem fixed_task_lifetimes_witness:
  "distinct (ft_destroyed (ft_run [MMake 0 ''f'', MDefault 1, MAssign 1 0, MDestroy 0, MDestroy 1]))"
  using fixed_task_lifetimes [of "[MMake 0 ''f'', MDefault 1, MAssign 1 0, MDestroy 0, MDestroy 1]"]
  by (simp only: lifetimes_def)

text \<open>Coroutine frames: whatever moves, assignments and destructions of \<open>Generator\<close>s or \<open>Task\<close>s are made, no frame is destroyed
  twice or after its end, the frames alive are those owned, each by exactly one object, and when no object is left all frames have been destroyed.\<close>
theorem coroutine_frames_owned:
  fixes es :: "'f mv_op list"
  defines "s \<equiv> co_run es"
  shows "\<not> ow_ub s \<and> lifetimes (ow_next s) (\<lambda>v. ptr v s) (ow_destroyed s)
    \<and> (\<forall>c. ow_objs s c \<noteq> None \<longleftrightarrow> (\<exists>v. ptr v s = Some c))
    \<and> (dom (ow_vars s) = {} \<longrightarrow> ow_objs s = Map.empty \<and> set (ow_destroyed s) = {..<ow_next s})"
proof -
  have inv: "ow_inv s" using co.box.sched_keeps [OF new_inv(2), of es] by (simp add: s_def co_run_def)
  have none: "ptr v s = None" if "dom (ow_vars s) = {}" for v using that by (simp add: ptr_def)
  then have "ow_objs s = Map.empty" if "dom (ow_vars s) = {}" using inv that unfolding ow_inv_def by fastforce
  moreover have "set (ow_destroyed s) = {..<ow_next s}" if "dom (ow_vars s) = {}"
    using inv none [OF that] unfolding ow_inv_def lifetimes_def by fastforce
  ultimately show ?thesis using inv unfolding ow_inv_def by blast
qed

theorem coroutine_frames_owned_witness:
  "\<not> ow_ub (co_run [MMake 0 ''g'', MMake 1 ''h'', MAssign 1 0, MAssign 1 1, MDestroy 0, MDestroy 1])"
  using coroutine_frames_owned [of "[MMake 0 ''g'', MMake 1 ''h'', MAssign 1 0, MAssign 1 1, MDestroy 0, MDestroy 1]"] by blast

end
