(* ===== verification/Coroutines.thy ===== *)
theory Coroutines
  imports Prelude
begin

text \<open>
  \<open>Generator\<close> and \<open>Task\<close> (modern_cpp_core/coroutines/generator.hpp, task.hpp): what their promises and
  awaiters do.  The body of a coroutine is the client's code.  For a generator it is a
  function from the suspended state to what the next resumption does; for a task it is a tree whose branches are what
  the body does with the outcome of the task it awaits (so \<open>try\<close>/\<open>catch\<close> around a \<open>co_await\<close> is a branch).
  Frames live in a map from handles; \<open>alloc n\<close> says whether \<open>operator new\<close> finds memory for the frame of the \<open>n\<close>-th call of a \<open>Task\<close> coroutine, and \<open>bad\<close> is
  the \<open>bad_alloc\<close> that it throws otherwise (the pool behind it is in the theory \<open>TaskMemory\<close>); the owners' moves and destructors are in the theory \<open>MoveOnly\<close>.
  \<open>Task<void>\<close> is the instance with values of type \<open>unit\<close>.
\<close>

section \<open>Generators\<close>

datatype ('st, 'v, 'e) resumption = Yields 'v 'st | Finishes | Raises 'e

record ('st, 'v, 'e) gen_frame =
  g_state :: 'st
  g_value :: "'v option"      \<comment> \<open>\<open>m_current_value\<close>\<close>
  g_exception :: "'e option"  \<comment> \<open>\<open>m_exception\<close>\<close>
  g_done :: bool

type_synonym ('st, 'v, 'e) gen_heap = "nat \<Rightarrow> ('st, 'v, 'e) gen_frame option"

datatype ('a, 'e) result = Normal 'a | Thrown 'e | Undefined

definition gen_call :: "'st \<Rightarrow> ('st, 'v, 'e) gen_frame" where
  "gen_call st = \<lparr>g_state = st, g_value = None, g_exception = None, g_done = False\<rparr>"

text \<open>Resuming a coroutine that is destroyed or done is undefined.\<close>

definition gen_resume ::
  "('st \<Rightarrow> ('st, 'v, 'e) resumption) \<Rightarrow> nat \<Rightarrow> ('st, 'v, 'e) gen_heap \<Rightarrow> ('st, 'v, 'e) gen_heap option" where
  "gen_resume body c F =
     (case F c of
        None \<Rightarrow> None
      | Some fr \<Rightarrow>
          if g_done fr then None
          else Some (F(c \<mapsto>
            (case body (g_state fr) of
               Yields v st \<Rightarrow> fr\<lparr>g_state := st, g_value := Some v\<rparr>
             | Finishes \<Rightarrow> fr\<lparr>g_done := True\<rparr>
             | Raises e \<Rightarrow> fr\<lparr>g_exception := Some e, g_done := True\<rparr>))))"

text \<open>What \<open>begin()\<close> and \<open>++\<close> do behind \<open>resume()\<close>: the iterator, or the rethrown exception.\<close>

definition after_resume :: "nat \<Rightarrow> ('st, 'v, 'e) gen_heap \<Rightarrow> (nat option, 'e) result" where
  "after_resume c F =
     (case F c of
        None \<Rightarrow> Undefined
      | Some fr \<Rightarrow>
          if g_done fr
          then (case g_exception fr of Some e \<Rightarrow> Thrown e | None \<Rightarrow> Normal None)
          else Normal (Some c))"

definition gen_begin ::
  "('st \<Rightarrow> ('st, 'v, 'e) resumption) \<Rightarrow> nat option \<Rightarrow> ('st, 'v, 'e) gen_heap
     \<Rightarrow> (nat option, 'e) result \<times> ('st, 'v, 'e) gen_heap" where
  "gen_begin body m_coroutine F =
     (case m_coroutine of
        None \<Rightarrow> (Normal None, F)
      | Some c \<Rightarrow> (case gen_resume body c F of
            None \<Rightarrow> (Undefined, F)
          | Some F' \<Rightarrow> (after_resume c F', F')))"

definition it_next ::
  "('st \<Rightarrow> ('st, 'v, 'e) resumption) \<Rightarrow> nat option \<Rightarrow> ('st, 'v, 'e) gen_heap
     \<Rightarrow> (nat option, 'e) result \<times> ('st, 'v, 'e) gen_heap" where
  "it_next body it F =
     (case it of
        None \<Rightarrow> (Normal None, F)
      | Some c \<Rightarrow> (case gen_resume body c F of
            None \<Rightarrow> (Undefined, F)
          | Some F' \<Rightarrow> (after_resume c F', F')))"

definition it_deref :: "nat option \<Rightarrow> ('st, 'v, 'e) gen_heap \<Rightarrow> 'v option" where
  "it_deref it F = (case it of None \<Rightarrow> None | Some c \<Rightarrow> Option.bind (F c) g_value)"

definition it_end :: "nat option" where
  "it_end = None"

text \<open>The loop \<open>for (auto& x : gen)\<close>, with fuel for the generators that never finish.\<close>

datatype 'e ending = Completed | Threw 'e | UndefinedBehaviour | OutOfFuel

fun range_loop ::
  "('st \<Rightarrow> ('st, 'v, 'e) resumption) \<Rightarrow> nat \<Rightarrow> (nat option, 'e) result \<times> ('st, 'v, 'e) gen_heap
     \<Rightarrow> 'v list \<times> 'e ending \<times> ('st, 'v, 'e) gen_heap" where
  "range_loop body fuel (Thrown e, F) = ([], Threw e, F)"
| "range_loop body fuel (Undefined, F) = ([], UndefinedBehaviour, F)"
| "range_loop body fuel (Normal it, F) =
     (if it = it_end then ([], Completed, F)
      else case it_deref it F of
        None \<Rightarrow> ([], UndefinedBehaviour, F)
      | Some v \<Rightarrow> (case fuel of
            0 \<Rightarrow> ([v], OutOfFuel, F)
          | Suc n \<Rightarrow> (let (vs, r) = range_loop body n (it_next body it F) in (v # vs, r))))"

definition range_for ::
  "('st \<Rightarrow> ('st, 'v, 'e) resumption) \<Rightarrow> nat \<Rightarrow> nat option \<Rightarrow> ('st, 'v, 'e) gen_heap
     \<Rightarrow> 'v list \<times> 'e ending \<times> ('st, 'v, 'e) gen_heap" where
  "range_for body fuel gen F = range_loop body fuel (gen_begin body gen F)"

text \<open>The reference: the values the body yields, and how it ends, when it is resumed \<open>Suc fuel\<close> times.\<close>

fun body_yields :: "('st \<Rightarrow> ('st, 'v, 'e) resumption) \<Rightarrow> nat \<Rightarrow> 'st \<Rightarrow> 'v list \<times> 'e ending" where
  "body_yields body fuel st =
     (case body st of
        Finishes \<Rightarrow> ([], Completed)
      | Raises e \<Rightarrow> ([], Threw e)
      | Yields v st' \<Rightarrow> (case fuel of
            0 \<Rightarrow> ([v], OutOfFuel)
          | Suc n \<Rightarrow> (let (vs, r) = body_yields body n st' in (v # vs, r))))"

declare body_yields.simps [simp del]

lemma begin_is_next: "gen_begin body (Some c) F = it_next body (Some c) F"
  by (simp add: gen_begin_def it_next_def)

lemma loop_meets_body:
  assumes "F c = Some fr" and "\<not> g_done fr" and "g_exception fr = None"
  shows "fst (range_loop body fuel (it_next body (Some c) F)) = fst (body_yields body fuel (g_state fr))
    \<and> fst (snd (range_loop body fuel (it_next body (Some c) F))) = snd (body_yields body fuel (g_state fr))"
  using assms
proof (induction fuel arbitrary: F fr)
  case 0
  then show ?case
    by (simp add: it_next_def gen_resume_def after_resume_def it_end_def it_deref_def body_yields.simps [of body 0]
        split: resumption.splits)
next
  case (Suc n)
  show ?case
  proof (cases "body (g_state fr)")
    case (Yields v st)
    let ?fr = "fr\<lparr>g_state := st, g_value := Some v\<rparr>"
    let ?F = "F(c \<mapsto> ?fr)"
    have step: "it_next body (Some c) F = (Normal (Some c), ?F)"
      using Suc.prems Yields by (simp add: it_next_def gen_resume_def after_resume_def)
    have "?F c = Some ?fr" "\<not> g_done ?fr" "g_exception ?fr = None" using Suc.prems by simp_all
    from Suc.IH [of ?F ?fr, OF this] show ?thesis using Yields unfolding step
      by (simp add: it_end_def it_deref_def body_yields.simps [of body "Suc n"] split_beta fun_upd_def)
  qed (use Suc.prems in \<open>simp_all add: it_next_def gen_resume_def after_resume_def it_end_def body_yields.simps [of body "Suc n"]\<close>)
qed

section \<open>Tasks\<close>

datatype ('v, 'e) outcome = Value 'v | Exc 'e

datatype ('v, 'e) prog =
    Co_return 'v
  | Throws 'e
  | Co_await "('v, 'e) prog" "('v, 'e) outcome \<Rightarrow> ('v, 'e) prog"

text \<open>The direct reading of a body: awaiting a task is calling it.\<close>

definition continue_with :: "('a \<Rightarrow> 'b) \<Rightarrow> 'a \<Rightarrow> 'b" where
  [simp]: "continue_with f r = f r"

primrec direct :: "('v, 'e) prog \<Rightarrow> ('v, 'e) outcome" where
  "direct (Co_return v) = Value v"
| "direct (Throws e) = Exc e"
| "direct (Co_await p k) = continue_with (\<lambda>r. direct (k r)) (direct p)"

datatype ('v, 'e) frame_code =
    At "('v, 'e) prog"
  | Awaiting nat "('v, 'e) outcome \<Rightarrow> ('v, 'e) prog"
  | Final

datatype 'v slot = Unset | Full 'v | MovedFrom

record ('v, 'e) task_frame =
  t_code :: "('v, 'e) frame_code"
  m_value :: "'v slot"
  m_exception :: "'e option"
  m_continuation :: "nat option"

record ('v, 'e) machine =
  m_frames :: "nat \<Rightarrow> ('v, 'e) task_frame option"
  m_current :: "nat option"  \<comment> \<open>the coroutine that runs; \<open>None\<close> when control is back at the resumer\<close>
  m_next :: nat
  m_ub :: bool

definition task_call :: "('v, 'e) prog \<Rightarrow> ('v, 'e) task_frame" where
  "task_call p = \<lparr>t_code = At p, m_value = Unset, m_exception = None, m_continuation = None\<rparr>"

text \<open>The awaiter interface; \<open>None\<close> is undefined behaviour.\<close>

definition await_ready :: "nat option \<Rightarrow> (nat \<Rightarrow> ('v, 'e) task_frame option) \<Rightarrow> bool option" where
  "await_ready m_coroutine F =
     (case m_coroutine of None \<Rightarrow> None | Some c \<Rightarrow> map_option (\<lambda>fr. t_code fr = Final) (F c))"

definition is_ready :: "nat option \<Rightarrow> (nat \<Rightarrow> ('v, 'e) task_frame option) \<Rightarrow> bool option" where
  "is_ready m_coroutine F =
     (case m_coroutine of None \<Rightarrow> Some True | Some c \<Rightarrow> map_option (\<lambda>fr. t_code fr = Final) (F c))"

definition await_suspend :: "nat \<Rightarrow> nat option \<Rightarrow> ('v, 'e) machine \<Rightarrow> ('v, 'e) machine" where
  "await_suspend c continuation s =
     (case m_frames s c of
        None \<Rightarrow> s\<lparr>m_ub := True\<rparr>
      | Some fr \<Rightarrow> s\<lparr>m_frames := (m_frames s)(c \<mapsto> fr\<lparr>m_continuation := continuation\<rparr>), m_current := Some c\<rparr>)"

definition await_resume :: "nat \<Rightarrow> ('v, 'e) machine \<Rightarrow> ('v slot, 'e) result \<times> ('v, 'e) machine" where
  "await_resume c s =
     (case m_frames s c of
        None \<Rightarrow> (Undefined, s)
      | Some fr \<Rightarrow> (case m_exception fr of
            Some e \<Rightarrow> (Thrown e, s)
          | None \<Rightarrow> (Normal (m_value fr),
              s\<lparr>m_frames := (m_frames s)(c \<mapsto> fr\<lparr>m_value := MovedFrom\<rparr>)\<rparr>)))"

text \<open>\<open>final_suspend\<close>: control goes to the continuation, if there is one.\<close>

definition final_suspend :: "nat \<Rightarrow> ('v, 'e) task_frame \<Rightarrow> ('v, 'e) machine \<Rightarrow> ('v, 'e) machine" where
  "final_suspend h fr s =
     s\<lparr>m_frames := (m_frames s)(h \<mapsto> fr\<lparr>t_code := Final\<rparr>), m_current := m_continuation fr\<rparr>"

definition goes_on :: "nat \<Rightarrow> ('v, 'e) prog \<Rightarrow> ('v, 'e) machine \<Rightarrow> ('v, 'e) machine" where
  "goes_on h p s =
     (case m_frames s h of None \<Rightarrow> s\<lparr>m_ub := True\<rparr>
      | Some fr \<Rightarrow> s\<lparr>m_frames := (m_frames s)(h \<mapsto> fr\<lparr>t_code := At p\<rparr>)\<rparr>)"

text \<open>One step of the running coroutine.  \<open>co_await f()\<close> calls the coroutine \<open>f\<close> (its frame is created, and suspended at
  once, or \<open>operator new\<close> throws out of the call), asks \<open>await_ready\<close>, and suspends; when it is resumed, \<open>await_resume\<close> gives the outcome and the temporary \<open>Task\<close> destroys its frame.\<close>

definition task_step :: "(nat \<Rightarrow> bool) \<Rightarrow> 'e \<Rightarrow> ('v, 'e) machine \<Rightarrow> ('v, 'e) machine" where
  "task_step alloc bad s =
     (case m_current s of
        None \<Rightarrow> s
      | Some h \<Rightarrow> (case m_frames s h of
          None \<Rightarrow> s\<lparr>m_ub := True\<rparr>
        | Some fr \<Rightarrow> (case t_code fr of
            At (Co_return v) \<Rightarrow> final_suspend h (fr\<lparr>m_value := Full v\<rparr>) s
          | At (Throws e) \<Rightarrow> final_suspend h (fr\<lparr>m_exception := Some e\<rparr>) s
          | At (Co_await p k) \<Rightarrow>
              if \<not> alloc (m_next s) then goes_on h (k (Exc bad)) (s\<lparr>m_next := Suc (m_next s)\<rparr>)
              else
              (let c = m_next s;
                   s1 = s\<lparr>m_frames := (m_frames s)(c \<mapsto> task_call p, h \<mapsto> fr\<lparr>t_code := Awaiting c k\<rparr>), m_next := Suc c\<rparr>
               in if await_ready (Some c) (m_frames s1) = Some True then s1 else await_suspend c (Some h) s1)
          | Awaiting c k \<Rightarrow>
              (let (r, s1) = await_resume c s; s2 = s1\<lparr>m_frames := (m_frames s1)(c := None)\<rparr>
               in case r of
                 Normal (Full v) \<Rightarrow> goes_on h (k (Value v)) s2
               | Thrown e \<Rightarrow> goes_on h (k (Exc e)) s2
               | _ \<Rightarrow> s\<lparr>m_ub := True\<rparr>)
          | Final \<Rightarrow> s\<lparr>m_ub := True\<rparr>)))"

primrec run_steps :: "(nat \<Rightarrow> bool) \<Rightarrow> 'e \<Rightarrow> nat \<Rightarrow> ('v, 'e) machine \<Rightarrow> ('v, 'e) machine" where
  "run_steps alloc bad 0 s = s"
| "run_steps alloc bad (Suc n) s = run_steps alloc bad n (task_step alloc bad s)"

lemma run_steps_add: "run_steps alloc bad (m + n) s = run_steps alloc bad n (run_steps alloc bad m s)"
  by (induction m arbitrary: s) simp_all

text \<open>The direct reading, when the calls of coroutines are counted from \<open>n\<close> and some of them find no memory: the outcome, the number of the next call, and
  the resumptions that the machine needs.\<close>

primrec calls_direct :: "(nat \<Rightarrow> bool) \<Rightarrow> 'e \<Rightarrow> ('v, 'e) prog \<Rightarrow> nat \<Rightarrow> ('v, 'e) outcome \<times> nat \<times> nat" where
  "calls_direct alloc bad (Co_return v) = (\<lambda>n. (Value v, n, 1))"
| "calls_direct alloc bad (Throws e) = (\<lambda>n. (Exc e, n, 1))"
| "calls_direct alloc bad (Co_await p k) =
     (\<lambda>n. if alloc n
       then (let (r, n1, i) = calls_direct alloc bad p (Suc n); (r', n2, j) = continue_with (\<lambda>r. calls_direct alloc bad (k r)) r n1
             in (r', n2, Suc (i + Suc j)))
       else (let (r', n2, j) = continue_with (\<lambda>r. calls_direct alloc bad (k r)) (Exc bad) (Suc n) in (r', n2, Suc j)))"

abbreviation outcome_of :: "('v, 'e) outcome \<times> nat \<times> nat \<Rightarrow> ('v, 'e) outcome" where
  "outcome_of \<equiv> fst"

abbreviation next_call :: "('v, 'e) outcome \<times> nat \<times> nat \<Rightarrow> nat" where
  "next_call d \<equiv> fst (snd d)"

abbreviation steps_of :: "('v, 'e) outcome \<times> nat \<times> nat \<Rightarrow> nat" where
  "steps_of d \<equiv> snd (snd d)"

lemma calls_direct_later: "n \<le> next_call (calls_direct alloc bad p n)"
proof (induction p arbitrary: n)
  case (Co_await p k)
  have "Suc n \<le> next_call (calls_direct alloc bad p (Suc n))" by (rule Co_await.IH(1))
  moreover have "m \<le> next_call (calls_direct alloc bad (k r) m)" for r m by (rule Co_await.IH(2)) simp
  ultimately show ?case by (auto simp: split_beta Let_def intro: order.trans Suc_leD)
qed simp_all

lemma calls_direct_enough: "(\<And>n. alloc n) \<Longrightarrow> outcome_of (calls_direct alloc bad p n) = direct p"
  by (induction p arbitrary: n) (simp_all add: split_beta Let_def)

definition finished :: "('v, 'e) outcome \<Rightarrow> nat option \<Rightarrow> ('v, 'e) task_frame" where
  "finished r cont =
     (case r of
        Value v \<Rightarrow> \<lparr>t_code = Final, m_value = Full v, m_exception = None, m_continuation = cont\<rparr>
      | Exc e \<Rightarrow> \<lparr>t_code = Final, m_value = Unset, m_exception = Some e, m_continuation = cont\<rparr>)"

definition fresh_from :: "nat \<Rightarrow> (nat \<Rightarrow> 'f option) \<Rightarrow> bool" where
  "fresh_from n F \<longleftrightarrow> (\<forall>c\<ge>n. F c = None)"

text \<open>A coroutine at \<open>p\<close> runs to its end whatever the other frames are, and leaves them unchanged.\<close>

lemma task_runs:
  assumes "F h = None" and "h < n" and "fresh_from n F"
  shows "run_steps alloc bad (steps_of (calls_direct alloc bad p n))
      \<lparr>m_frames = F(h \<mapsto> \<lparr>t_code = At p, m_value = Unset, m_exception = None, m_continuation = cont\<rparr>),
       m_current = Some h, m_next = n, m_ub = False\<rparr>
    = \<lparr>m_frames = F(h \<mapsto> finished (outcome_of (calls_direct alloc bad p n)) cont), m_current = cont,
       m_next = next_call (calls_direct alloc bad p n), m_ub = False\<rparr>"
  using assms
proof (induction p arbitrary: F h n cont)
  case (Co_return v)
  then show ?case by (simp add: task_step_def final_suspend_def finished_def fun_eq_iff)
next
  case (Throws e)
  then show ?case by (simp add: task_step_def final_suspend_def finished_def fun_eq_iff)
next
  case (Co_await p k)
  let ?run = "run_steps alloc bad" and ?d = "calls_direct alloc bad"
  let ?me = "\<lambda>code. \<lparr>t_code = code, m_value = Unset, m_exception = None, m_continuation = cont\<rparr>"
  let ?at = "\<lambda>q n. \<lparr>m_frames = F(h \<mapsto> ?me (At q)), m_current = Some h, m_next = n, m_ub = False\<rparr>"
  let ?result = "\<lambda>d. \<lparr>m_frames = F(h \<mapsto> finished (outcome_of d) cont), m_current = cont, m_next = next_call d, m_ub = False\<rparr>"
  have hn: "h \<noteq> n" "F n = None" using Co_await.prems by (auto simp: fresh_from_def)
  have rest: "?run (steps_of (?d (k r) m)) (?at (k r) m) = ?result (?d (k r) m)" if "n \<le> m" for r m
    by (rule Co_await.IH(2)) (use Co_await.prems that in \<open>auto simp: fresh_from_def\<close>)
  show ?case
  proof (cases "alloc n")
    case False
    let ?q = "?d (k (Exc bad)) (Suc n)"
    have thrown: "task_step alloc bad (?at (Co_await p k) n) = ?at (k (Exc bad)) (Suc n)"
      using False by (simp add: task_step_def goes_on_def)
    have d: "?d (Co_await p k) n = (outcome_of ?q, next_call ?q, Suc (steps_of ?q))"
      using False by (simp add: split_beta Let_def)
    show ?thesis unfolding d by (simp only: fst_conv snd_conv run_steps.simps thrown rest [OF le_SucI [OF order_refl]])
  next
    case True
    let ?r = "outcome_of (?d p (Suc n))" and ?m = "next_call (?d p (Suc n))"
    let ?G = "F(h \<mapsto> ?me (Awaiting n k))"
    let ?s1 = "\<lparr>m_frames = ?G(n \<mapsto> \<lparr>t_code = At p, m_value = Unset, m_exception = None, m_continuation = Some h\<rparr>),
        m_current = Some n, m_next = Suc n, m_ub = False\<rparr>"
    let ?s2 = "\<lparr>m_frames = ?G(n \<mapsto> finished ?r (Some h)), m_current = Some h, m_next = ?m, m_ub = False\<rparr>"
    have call: "task_step alloc bad (?at (Co_await p k) n) = ?s1"
      using hn True by (auto simp: task_step_def task_call_def await_ready_def await_suspend_def Let_def fun_upd_twist)
    have child: "?run (steps_of (?d p (Suc n))) ?s1 = ?s2"
      by (rule Co_await.IH(1)) (use Co_await.prems hn in \<open>auto simp: fresh_from_def\<close>)
    have resumed: "task_step alloc bad ?s2 = ?at (k ?r) ?m"
    proof -
      have "(?G(n \<mapsto> x, n := None)) = ?G" for x using hn by auto
      moreover have "(?G(n := None)) = ?G" using hn by auto
      ultimately show ?thesis using hn
        by (cases ?r) (simp_all add: task_step_def await_resume_def finished_def goes_on_def Let_def)
    qed
    have m: "n \<le> ?m" using calls_direct_later [of "Suc n" alloc bad p] by simp
    have d: "?d (Co_await p k) n = (outcome_of (?d (k ?r) ?m), next_call (?d (k ?r) ?m), Suc (steps_of (?d p (Suc n)) + Suc (steps_of (?d (k ?r) ?m))))"
      using True by (simp add: split_beta Let_def)
    have "?run (steps_of (?d (Co_await p k) n)) (?at (Co_await p k) n) =
        ?run (steps_of (?d (k ?r) ?m)) (task_step alloc bad (?run (steps_of (?d p (Suc n))) (task_step alloc bad (?at (Co_await p k) n))))"
      unfolding d by (simp only: snd_conv run_steps_add run_steps.simps)
    also have "\<dots> = ?result (?d (k ?r) ?m)" unfolding call child resumed by (rule rest [OF m])
    finally show ?thesis unfolding d by (simp only: fst_conv snd_conv)
  qed
qed

section \<open>Properties\<close>

lemma range_for_yields:
  fixes F :: "('st, 'v, 'e) gen_heap"
  assumes "F c = Some (gen_call st)"
  shows "fst (range_for body fuel (Some c) F) = fst (body_yields body fuel st)
    \<and> fst (snd (range_for body fuel (Some c) F)) = snd (body_yields body fuel st)"
proof -
  have "\<not> g_done (gen_call st :: ('st, 'v, 'e) gen_frame)" "g_exception (gen_call st :: ('st, 'v, 'e) gen_frame) = None"
    by (simp_all add: gen_call_def)
  from loop_meets_body [where F = F, OF assms this] show ?thesis by (simp add: range_for_def begin_is_next gen_call_def)
qed

text \<open>(C14) Iterating over a \<open>Generator\<close> gives exactly the values its body yields, in their order, and ends as the body ends: normally, or
  with the exception the body threw, rethrown out of the loop.  The body is resumed once per iteration, so this holds for every prefix of an endless generator
  too, and no undefined behaviour occurs.\<close>
theorem generator_loop_is_body:
  fixes F :: "('st, 'v, 'e) gen_heap"
  assumes "F c = Some (gen_call st)"
  shows "fst (range_for body fuel (Some c) F) = fst (body_yields body fuel st)
    \<and> fst (snd (range_for body fuel (Some c) F)) = snd (body_yields body fuel st)
    \<and> fst (snd (range_for body fuel (Some c) F)) \<noteq> UndefinedBehaviour"
proof -
  note range_for_yields [where F = F, OF assms, of body fuel]
  moreover have "snd (body_yields body fuel st) \<noteq> UndefinedBehaviour"
    by (induction fuel arbitrary: st)
      (simp_all add: body_yields.simps [of body] split_beta split: resumption.splits nat.splits)
  ultimately show ?thesis by simp
qed

definition count_to :: "nat \<Rightarrow> nat \<Rightarrow> (nat, nat, string) resumption" where
  "count_to n i = (if i < n then Yields i (Suc i) else Finishes)"

theorem generator_loop_is_body_witness:
  "fst (range_for (count_to 3) 9 (Some 0) [0 \<mapsto> gen_call 0]) = [0, 1, 2]"
proof -
  have "fst (body_yields (count_to 3) 9 0) = [0, 1, 2]"
    by (simp add: body_yields.simps count_to_def eval_nat_numeral)
  then show ?thesis using generator_loop_is_body [of "[0 \<mapsto> gen_call 0]" 0 0 "count_to 3" 9] by simp
qed

text \<open>Single pass: \<open>begin()\<close> on a generator that has run to its end, or whose body threw, resumes a coroutine that is done, which is undefined, and so is
  incrementing the iterator from which an exception came; \<open>begin()\<close> on a generator that is still
  suspended goes on behind the current element, which the new loop never sees.\<close>
theorem generator_begin_again:
  fixes F :: "('st, 'v, 'e) gen_heap"
  assumes "F c = Some fr"
  shows "(g_done fr \<longrightarrow> fst (gen_begin body (Some c) F) = Undefined \<and> fst (it_next body (Some c) F) = Undefined)
    \<and> (\<not> g_done fr \<and> g_exception fr = None \<longrightarrow>
         fst (range_for body fuel (Some c) F) = fst (body_yields body fuel (g_state fr)))"
  using assms loop_meets_body [where F = F and c = c and fr = fr and body = body and fuel = fuel]
  by (simp add: gen_begin_def it_next_def gen_resume_def range_for_def)

theorem generator_begin_again_witness:
  "fst (gen_begin (count_to 3) (Some 0) [0 \<mapsto> (gen_call 3)\<lparr>g_done := True\<rparr>]) = Undefined"
  using generator_begin_again [of "[0 \<mapsto> (gen_call 3)\<lparr>g_done := True\<rparr>]" 0 "(gen_call 3)\<lparr>g_done := True\<rparr>" "count_to 3"]
  by simp

text \<open>(C13) Awaiting is calling: the symmetric transfers of a \<open>Task\<close> run its body, and the bodies of all tasks it awaits, to the end in a bounded number of
  resumptions and with no undefined behaviour, whoever awaits it (\<open>cont\<close>, or nobody) and whichever calls of \<open>operator new\<close> fail: the outcome in the promise, value or exception, is that of the direct
  evaluation in which exactly the calls without memory throw \<open>bad_alloc\<close>, the plain direct evaluation if none fails; control returns to the continuation, every frame made on the way has been destroyed, and
  the other frames are untouched.\<close>
theorem task_runs_as_direct_call:
  fixes p :: "('v, 'e) prog" and alloc :: "nat \<Rightarrow> bool" and bad :: 'e and F :: "nat \<Rightarrow> ('v, 'e) task_frame option"
    and h n :: nat and cont :: "nat option"
  assumes "F h = None" and "h < n" and "fresh_from n F"
  defines "s0 \<equiv> \<lparr>m_frames = F(h \<mapsto> task_call p), m_current = cont, m_next = n, m_ub = False\<rparr>"
  defines "d \<equiv> calls_direct alloc bad p n"
  defines "s \<equiv> run_steps alloc bad (steps_of d) (await_suspend h cont s0)"
  shows "m_frames s = F(h \<mapsto> finished (outcome_of d) cont) \<and> m_current s = cont \<and> \<not> m_ub s
    \<and> fst (await_resume h s) = (case outcome_of d of Value v \<Rightarrow> Normal (Full v) | Exc e \<Rightarrow> Thrown e)
    \<and> ((\<forall>i. alloc i) \<longrightarrow> outcome_of d = direct p)"
proof -
  have start: "await_suspend h cont s0 = \<lparr>m_frames = F(h \<mapsto> \<lparr>t_code = At p, m_value = Unset, m_exception = None,
      m_continuation = cont\<rparr>), m_current = Some h, m_next = n, m_ub = False\<rparr>"
    by (simp add: await_suspend_def s0_def task_call_def fun_eq_iff)
  have "s = \<lparr>m_frames = F(h \<mapsto> finished (outcome_of d) cont), m_current = cont, m_next = next_call d, m_ub = False\<rparr>"
    unfolding s_def start d_def by (rule task_runs [OF assms(1-3)])
  then show ?thesis using calls_direct_enough [of alloc bad p n]
    by (auto simp: await_resume_def finished_def d_def split: outcome.splits)
qed

text \<open>A body that awaits two tasks, of which the second finds no memory, and catches the exception.\<close>

definition two_awaits :: "(nat, string) prog" where
  "two_awaits = Co_await (Co_return 3) (\<lambda>r. Co_await (Co_return 4) (\<lambda>q. case q of Value v \<Rightarrow> Co_return v | Exc e \<Rightarrow> (case r of Value v \<Rightarrow> Co_return v | _ \<Rightarrow> Throws e)))"

lemma task_runs_as_direct_call_witness:
  "fst (await_resume 0 (run_steps (\<lambda>i. i < 2) ''bad_alloc'' 5 (await_suspend 0 None
     \<lparr>m_frames = Map.empty(0 \<mapsto> task_call two_awaits), m_current = None, m_next = 1, m_ub = False\<rparr>))) = Normal (Full 3)"
proof -
  have d: "calls_direct (\<lambda>i. i < 2) ''bad_alloc'' two_awaits 1 = (Value 3, 3, 5)" by (simp add: two_awaits_def)
  have "fresh_from 1 (Map.empty :: nat \<Rightarrow> (nat, string) task_frame option)" by (simp add: fresh_from_def)
  from task_runs_as_direct_call [where F = Map.empty and h = 0 and n = 1 and cont = None and p = two_awaits and alloc = "\<lambda>i. i < 2"
      and bad = "''bad_alloc''", OF _ _ this] show ?thesis unfolding d by simp
qed

text \<open>A \<open>Task\<close> is lazy and can be awaited once: calling it runs nothing; a second \<open>await_resume\<close> finds the value
  moved away; and a moved-from \<open>Task\<close> reports \<open>is_ready()\<close>, although \<open>await_ready()\<close> on it is undefined.\<close>
theorem task_await_once:
  fixes p :: "('v, 'e) prog" and v :: 'v
  defines "done_m \<equiv> \<lparr>m_frames = [0 \<mapsto> finished (Value v) None], m_current = None, m_next = 1, m_ub = False\<rparr>"
  shows "t_code (task_call p) = At p \<and> await_ready (Some 0) [0 \<mapsto> task_call p] = Some False
    \<and> fst (await_resume 0 done_m) = Normal (Full v)
    \<and> fst (await_resume 0 (snd (await_resume 0 done_m))) = Normal MovedFrom
    \<and> is_ready None F = Some True \<and> await_ready None F = None"
  by (simp add: done_m_def await_resume_def finished_def await_ready_def is_ready_def task_call_def)

end
