(* ===== verification/CInput.thy ===== *)
theory CInput
  imports Prelude
begin

text \<open>
  Line input of the C programs (session-09/Exercise_2/writer.c and Exercise_3/controller.c, which share
  \<open>clear_stdin\<close> and \<open>get_user_input\<close>).  The standard input is a list of characters, among which a
  read may be interrupted by a signal; its end is the end of file.  \<open>errno\<close> matters only as far as it equals
  \<open>EINTR\<close>: a successful call, and the end of file, leave it as it is.
\<close>

section \<open>The C library\<close>

datatype in_event = Ch char | Interrupt

definition newline :: char where
  "newline = CHR 0x0A"

definition nul :: char where
  "nul = CHR 0x00"

datatype fgets_result = GotLine string "in_event list" | NullEof | NullEintr "in_event list"

text \<open>\<open>fgets\<close> with room for so many characters, after some have been read.\<close>

fun fgets_from :: "nat \<Rightarrow> string \<Rightarrow> in_event list \<Rightarrow> fgets_result" where
  "fgets_from 0 acc inp = GotLine (rev acc) inp"
| "fgets_from (Suc n) acc [] = (if acc = [] then NullEof else GotLine (rev acc) [])"
| "fgets_from (Suc n) acc (Interrupt # inp) = NullEintr inp"
| "fgets_from (Suc n) acc (Ch c # inp) =
     (if c = newline then GotLine (rev (c # acc)) inp else fgets_from n (c # acc) inp)"

definition fgets :: "nat \<Rightarrow> in_event list \<Rightarrow> fgets_result" where
  "fgets room inp = fgets_from (room - 1) [] inp"

text \<open>The string that C code sees in a buffer.\<close>

definition c_string :: "string \<Rightarrow> string" where
  "c_string buf = takeWhile (\<lambda>c. c \<noteq> nul) buf"

definition is_space :: "char \<Rightarrow> bool" where
  "is_space c \<longleftrightarrow> c \<in> {CHR '' '', CHR 0x09, CHR 0x0A, CHR 0x0B, CHR 0x0C, CHR 0x0D}"

definition is_digit :: "char \<Rightarrow> bool" where
  "is_digit c \<longleftrightarrow> 48 \<le> (of_char c :: int) \<and> (of_char c :: int) \<le> 57"

definition digits_value :: "string \<Rightarrow> int" where
  "digits_value ds = foldl (\<lambda>n c. 10 * n + (of_char c - 48)) 0 ds"

text \<open>\<open>atoi\<close>, undefined when the value is not an \<open>int\<close>.\<close>

definition atoi :: "string \<Rightarrow> int option" where
  "atoi str =
     (let t = dropWhile is_space str;
          (sign, u) = (case t of [] \<Rightarrow> (1, [])
             | c # cs \<Rightarrow> if c = CHR ''-'' then (-1, cs) else if c = CHR ''+'' then (1, cs) else (1, t));
          v = sign * digits_value (takeWhile is_digit u)
      in if - (2 ^ 31) \<le> v \<and> v < 2 ^ 31 then Some v else None)"

section \<open>The shared functions\<close>

fun clear_stdin :: "in_event list \<Rightarrow> in_event list" where
  "clear_stdin [] = []"
| "clear_stdin (Interrupt # inp) = inp"
| "clear_stdin (Ch c # inp) = (if c = newline then inp else clear_stdin inp)"

datatype 'a gets = Gets 'a "in_event list" bool | AtEof "in_event list"

text \<open>\<open>get_user_input\<close>: the line, with the remaining input and whether \<open>errno\<close> is \<open>EINTR\<close>
  behind it, or \<open>AtEof\<close> for the result -1.  \<open>None\<close> means that the loop has not ended within the fuel.\<close>

fun get_user_input :: "nat \<Rightarrow> nat \<Rightarrow> in_event list \<Rightarrow> bool \<Rightarrow> string gets option" where
  "get_user_input 0 room inp eintr = None"
| "get_user_input (Suc fuel) room inp eintr =
     (case fgets room inp of
        NullEof \<Rightarrow> if eintr then get_user_input fuel room inp eintr else Some (AtEof inp)
      | NullEintr inp' \<Rightarrow> get_user_input fuel room inp' True
      | GotLine buf inp' \<Rightarrow>
          (let s = c_string buf
           in if s \<noteq> [] \<and> last s = newline then Some (Gets (butlast s) inp' eintr)
              else Some (Gets s (clear_stdin inp') eintr)))"

definition chars :: "string \<Rightarrow> in_event list" where
  "chars s = map Ch s"

section \<open>Lines\<close>

lemma fgets_from_line:
  assumes "newline \<notin> set l" and "length l < n"
  shows "fgets_from n acc (chars (l @ [newline]) @ inp) = GotLine (rev acc @ l @ [newline]) inp"
  using assms
proof (induction l arbitrary: n acc)
  case Nil
  then show ?case by (cases n) (auto simp: chars_def)
next
  case (Cons c l)
  then obtain m where "n = Suc m" by (cases n) auto
  with Cons.IH [of m "c # acc"] Cons.prems show ?case by (auto simp: chars_def)
qed

lemma fgets_from_long:
  assumes "newline \<notin> set l" and "n \<le> length l"
  shows "fgets_from n acc (chars l @ inp) = GotLine (rev acc @ take n l) (chars (drop n l) @ inp)"
  using assms
proof (induction l arbitrary: n acc)
  case Nil
  then show ?case by (simp add: chars_def)
next
  case (Cons c l)
  then show ?case
  proof (cases n)
    case (Suc m)
    with Cons.IH [of m "c # acc"] Cons.prems show ?thesis by (auto simp: chars_def)
  qed simp
qed

lemma clear_stdin_line: "newline \<notin> set l \<Longrightarrow> clear_stdin (chars (l @ [newline]) @ inp) = inp"
  by (induction l) (auto simp: chars_def)

text \<open>Text of the user: no line break and no NUL inside a line.\<close>

definition plain :: "string \<Rightarrow> bool" where
  "plain l \<longleftrightarrow> newline \<notin> set l \<and> nul \<notin> set l"

lemma newline_not_nul: "newline \<noteq> nul"
  by (simp add: newline_def nul_def)

lemma plain_c_string: "nul \<notin> set l \<Longrightarrow> c_string l = l"
  unfolding c_string_def by (rule takeWhile_eq_all_conv [THEN iffD2]) auto

lemma get_line:
  assumes "plain l" and "length l + 2 \<le> room"
  shows "get_user_input (Suc fuel) room (chars (l @ [newline]) @ inp) eintr = Some (Gets l inp eintr)"
proof -
  have "fgets room (chars (l @ [newline]) @ inp) = GotLine (l @ [newline]) inp"
    unfolding fgets_def using assms by (subst fgets_from_line) (auto simp: plain_def)
  moreover have "c_string (l @ [newline]) = l @ [newline]"
    by (rule plain_c_string) (use assms newline_not_nul in \<open>auto simp: plain_def\<close>)
  ultimately show ?thesis by simp
qed

lemma get_long_line:
  assumes "plain l" and "room \<le> length l + 1" and "2 \<le> room"
  shows "get_user_input (Suc fuel) room (chars (l @ [newline]) @ inp) eintr = Some (Gets (take (room - 1) l) inp eintr)"
proof -
  let ?n = "room - 1"
  have split: "chars (l @ [newline]) @ inp = chars l @ chars [newline] @ inp" by (simp add: chars_def)
  have f: "fgets room (chars (l @ [newline]) @ inp) = GotLine (take ?n l) (chars (drop ?n l @ [newline]) @ inp)"
    unfolding fgets_def split using assms by (subst fgets_from_long) (auto simp: plain_def chars_def)
  have c: "c_string (take ?n l) = take ?n l"
    by (rule plain_c_string) (use assms in \<open>auto simp: plain_def dest: in_set_takeD\<close>)
  have nl: "take ?n l \<noteq> [] \<longrightarrow> last (take ?n l) \<noteq> newline"
  proof
    assume "take ?n l \<noteq> []"
    then have "last (take ?n l) \<in> set l" using in_set_takeD [OF last_in_set] by blast
    then show "last (take ?n l) \<noteq> newline" using assms(1) by (auto simp: plain_def)
  qed
  have "clear_stdin (chars (drop ?n l @ [newline]) @ inp) = inp"
    by (rule clear_stdin_line) (use assms in \<open>auto simp: plain_def dest: in_set_dropD\<close>)
  with f c nl show ?thesis by (auto simp: Let_def)
qed

text \<open>Every call consumes input or reports its end, as long as no read has been interrupted.\<close>

lemma clear_stdin_shorter: "length (clear_stdin inp) \<le> length inp"
  by (induction inp rule: clear_stdin.induct) auto

lemma fgets_from_shorter:
  "fgets_from n acc inp = GotLine buf inp' \<Longrightarrow> length inp' + length buf \<le> length inp + length acc"
  by (induction n acc inp rule: fgets_from.induct) (auto split: if_splits)

lemma fgets_from_nonempty:
  "fgets_from n acc inp = GotLine buf inp' \<Longrightarrow> 0 < n \<or> acc \<noteq> [] \<Longrightarrow> buf \<noteq> []"
  by (induction n acc inp rule: fgets_from.induct) (auto split: if_splits)

lemma fgets_from_no_eintr: "Interrupt \<notin> set inp \<Longrightarrow> fgets_from n acc inp \<noteq> NullEintr inp'"
  by (induction n acc inp rule: fgets_from.induct) auto

lemma fgets_from_suffix: "fgets_from n acc inp = GotLine buf inp' \<Longrightarrow> set inp' \<subseteq> set inp"
  by (induction n acc inp rule: fgets_from.induct) (auto split: if_splits)

lemma clear_stdin_suffix: "set (clear_stdin inp) \<subseteq> set inp"
  by (induction inp rule: clear_stdin.induct) auto

lemma get_input_progress:
  assumes "Interrupt \<notin> set inp" and "2 \<le> room"
  obtains "get_user_input (Suc fuel) room inp False = Some (AtEof inp)"
  | l inp' where "get_user_input (Suc fuel) room inp False = Some (Gets l inp' False)"
      "length inp' < length inp" "Interrupt \<notin> set inp'"
proof (cases "fgets room inp")
  case (GotLine buf inp1)
  then have f: "fgets_from (room - 1) [] inp = GotLine buf inp1" by (simp add: fgets_def)
  then have "buf \<noteq> []" by (rule fgets_from_nonempty) (use assms(2) in simp)
  with fgets_from_shorter [OF f] have len: "length inp1 < length inp" by (cases buf) auto
  have sub: "Interrupt \<notin> set inp1" using fgets_from_suffix [OF f] assms(1) by blast
  have "get_user_input (Suc fuel) room inp False = Some (Gets (butlast (c_string buf)) inp1 False)
    \<or> get_user_input (Suc fuel) room inp False = Some (Gets (c_string buf) (clear_stdin inp1) False)"
    using GotLine by (simp add: Let_def)
  moreover have "length (clear_stdin inp1) < length inp" using clear_stdin_shorter [of inp1] len by linarith
  moreover have "Interrupt \<notin> set (clear_stdin inp1)" using clear_stdin_suffix [of inp1] sub by blast
  ultimately show thesis using that(2) len sub by blast
next
  case NullEof
  then show thesis by (intro that(1)) simp
next
  case (NullEintr inp1)
  with assms(1) fgets_from_no_eintr show thesis by (auto simp: fgets_def)
qed

declare get_user_input.simps [simp del]

end
