(* ===== verification/DeviceConfig.thy ===== *)
theory DeviceConfig
  imports CInput "HOL-Library.Word"
begin

unbundle bit_operations_syntax

text \<open>
  config-writer and config-reader (session-09/Exercise_2/writer.c, reader.c, device_cfg.h): two processes that
  share the struct \<open>device_cfg_t\<close> in the file /tmp/device.cfg through \<open>mmap\<close>.

  The file is its list of bytes; the struct is three little-endian 32-bit integers.  A store through the
  mapping is a store to the file; \<open>w_trace\<close> lists the contents after each store, which is what a reader, or the next
  writer after a crash, can find.  The results of the system calls are the record \<open>env\<close>.
\<close>

section \<open>The file\<close>

record device_cfg =
  baud_rate :: "32 word"
  sampling_rate_hz :: "32 word"
  log_level :: "32 word"

definition le_bytes :: "32 word \<Rightarrow> 8 word list" where
  "le_bytes w = [ucast w, ucast (drop_bit 8 w), ucast (drop_bit 16 w), ucast (drop_bit 24 w)]"

definition of_le_bytes :: "8 word list \<Rightarrow> 32 word" where
  "of_le_bytes bs = ucast (bs ! 0) OR push_bit 8 (ucast (bs ! 1)) OR push_bit 16 (ucast (bs ! 2))
     OR push_bit 24 (ucast (bs ! 3))"

definition sizeof_cfg :: nat where
  "sizeof_cfg = 12"

definition encode_cfg :: "device_cfg \<Rightarrow> 8 word list" where
  "encode_cfg c = le_bytes (baud_rate c) @ le_bytes (sampling_rate_hz c) @ le_bytes (log_level c)"

definition decode_cfg :: "8 word list \<Rightarrow> device_cfg" where
  "decode_cfg bs = \<lparr>baud_rate = of_le_bytes (take 4 bs), sampling_rate_hz = of_le_bytes (take 4 (drop 4 bs)),
     log_level = of_le_bytes (take 4 (drop 8 bs))\<rparr>"

lemma le_bytes_roundtrip: "of_le_bytes (le_bytes w) = w"
proof (rule bit_word_eqI)
  fix n assume "n < LENGTH(32)"
  then have n: "n < 32" by simp
  have byte: "bit (ucast (ucast (drop_bit k w) :: 8 word) :: 32 word) m \<longleftrightarrow> m < 8 \<and> bit w (k + m)" for k m
    by (auto simp: bit_ucast_iff bit_drop_bit_eq dest: bit_imp_le_length)
  have "bit (of_le_bytes (le_bytes w)) n \<longleftrightarrow>
      (n < 8 \<and> bit w n) \<or> (8 \<le> n \<and> n - 8 < 8 \<and> bit w (8 + (n - 8)))
      \<or> (16 \<le> n \<and> n - 16 < 8 \<and> bit w (16 + (n - 16))) \<or> (24 \<le> n \<and> n - 24 < 8 \<and> bit w (24 + (n - 24)))"
    unfolding of_le_bytes_def le_bytes_def bit_or_iff bit_push_bit_iff
    using byte [of 0 n] byte [of 8 "n - 8"] byte [of 16 "n - 16"] byte [of 24 "n - 24"] n
    by (auto simp: bit_push_bit_iff numeral_eq_Suc)
  also have "\<dots> \<longleftrightarrow> bit w n"
  proof -
    consider "n < 8" | "8 \<le> n" "n < 16" | "16 \<le> n" "n < 24" | "24 \<le> n" "n < 32" using n by linarith
    then show ?thesis by cases auto
  qed
  finally show "bit (of_le_bytes (le_bytes w)) n \<longleftrightarrow> bit w n" .
qed

lemma decode_encode: "decode_cfg (encode_cfg c) = c"
  using le_bytes_roundtrip by (simp add: decode_cfg_def encode_cfg_def le_bytes_def)

definition ftruncate :: "nat \<Rightarrow> 8 word list \<Rightarrow> 8 word list" where
  "ftruncate n bs = take n bs @ replicate (n - length bs) 0"

section \<open>config-writer\<close>

record env =
  e_open :: bool
  e_truncate :: bool
  e_map :: bool
  e_unmap :: bool
  e_sync :: "nat \<Rightarrow> bool"  \<comment> \<open>whether the n-th \<open>msync\<close> succeeds\<close>

datatype w_msg = Current int int int | Updated string int | InvalidValue string | InvalidField | SyncFailed

record writer =
  w_file :: "8 word list"
  w_in :: "in_event list"
  w_eintr :: bool
  w_syncs :: nat
  w_out :: "w_msg list"
  w_trace :: "device_cfg list"

definition say :: "w_msg \<Rightarrow> writer \<Rightarrow> writer" where
  "say m s = s\<lparr>w_out := w_out s @ [m]\<rparr>"

definition cfg_of :: "writer \<Rightarrow> device_cfg" where
  "cfg_of s = decode_cfg (w_file s)"

definition store :: "(device_cfg \<Rightarrow> device_cfg) \<Rightarrow> writer \<Rightarrow> writer" where
  "store f s = (let c = f (cfg_of s) in s\<lparr>w_file := encode_cfg c, w_trace := w_trace s @ [c]\<rparr>)"

text \<open>\<open>msync\<close>, and what is printed when it succeeds.\<close>

definition msync :: "env \<Rightarrow> w_msg list \<Rightarrow> writer \<Rightarrow> writer" where
  "msync e report s =
     (let s1 = s\<lparr>w_syncs := Suc (w_syncs s)\<rparr>
      in s1\<lparr>w_out := w_out s1 @ (if e_sync e (w_syncs s) then report else [SyncFailed])\<rparr>)"

definition init_defaults :: "env \<Rightarrow> writer \<Rightarrow> writer" where
  "init_defaults e s =
     (if baud_rate (cfg_of s) = 0 then
        msync e [] (store (\<lambda>c. c\<lparr>log_level := 2\<rparr>)
          (store (\<lambda>c. c\<lparr>sampling_rate_hz := 100\<rparr>) (store (\<lambda>c. c\<lparr>baud_rate := 9600\<rparr>) s)))
      else s)"

datatype menu_result = Continue | Break | AtoiUndefined | Stuck

text \<open>Reading the new value of a field, testing it and storing it: the three branches of the menu differ in the
  test and in the field.\<close>

definition enter_value ::
  "env \<Rightarrow> nat \<Rightarrow> string \<Rightarrow> (int \<Rightarrow> bool) \<Rightarrow> (32 word \<Rightarrow> device_cfg \<Rightarrow> device_cfg) \<Rightarrow> writer \<Rightarrow> menu_result \<times> writer" where
  "enter_value e fuel name valid put s =
     (case get_user_input fuel 256 (w_in s) (w_eintr s) of
        None \<Rightarrow> (Stuck, s)
      | Some (AtEof inp) \<Rightarrow> (Break, s\<lparr>w_in := inp\<rparr>)
      | Some (Gets val_str inp eintr) \<Rightarrow>
          (let s1 = s\<lparr>w_in := inp, w_eintr := eintr\<rparr>
           in case atoi val_str of
                None \<Rightarrow> (AtoiUndefined, s1)
              | Some val \<Rightarrow>
                  if valid val
                  then (Continue, msync e [Updated name val] (store (put (word_of_int val)) s1))
                  else (Continue, say (InvalidValue name) s1)))"

definition baud_ok :: "int \<Rightarrow> bool" where
  "baud_ok val \<longleftrightarrow> val = 9600 \<or> val = 115200 \<or> val = 460800"

definition rate_ok :: "int \<Rightarrow> bool" where
  "rate_ok val \<longleftrightarrow> 1 \<le> val \<and> val \<le> 1000"

definition log_ok :: "int \<Rightarrow> bool" where
  "log_ok val \<longleftrightarrow> 0 \<le> val \<and> val \<le> 3"

text \<open>One round of the menu.\<close>

definition writer_round :: "env \<Rightarrow> nat \<Rightarrow> writer \<Rightarrow> menu_result \<times> writer" where
  "writer_round e fuel s0 =
     (let c = cfg_of s0;
          s = say (Current (sint (baud_rate c)) (sint (sampling_rate_hz c)) (sint (log_level c))) s0
      in case get_user_input fuel 256 (w_in s) (w_eintr s) of
        None \<Rightarrow> (Stuck, s)
      | Some (AtEof inp) \<Rightarrow> (Break, s\<lparr>w_in := inp\<rparr>)
      | Some (Gets field inp eintr) \<Rightarrow>
          (let s1 = s\<lparr>w_in := inp, w_eintr := eintr\<rparr>
           in if field = ''quit'' then (Break, s1)
              else if field = ''baud'' then enter_value e fuel ''baud_rate'' baud_ok (\<lambda>v c. c\<lparr>baud_rate := v\<rparr>) s1
              else if field = ''rate'' then
                enter_value e fuel ''sampling_rate_hz'' rate_ok (\<lambda>v c. c\<lparr>sampling_rate_hz := v\<rparr>) s1
              else if field = ''log'' then enter_value e fuel ''log_level'' log_ok (\<lambda>v c. c\<lparr>log_level := v\<rparr>) s1
              else (Continue, say InvalidField s1)))"

fun writer_loop :: "env \<Rightarrow> nat \<Rightarrow> writer \<Rightarrow> menu_result \<times> writer" where
  "writer_loop e 0 s = (Stuck, s)"
| "writer_loop e (Suc fuel) s =
     (case writer_round e (Suc fuel) s of
        (Continue, s') \<Rightarrow> writer_loop e fuel s'
      | (c, s') \<Rightarrow> (c, s'))"

datatype exit_code = Exit_success | Exit_failure | Undefined_behaviour | No_exit

definition writer_start :: "8 word list \<Rightarrow> in_event list \<Rightarrow> writer" where
  "writer_start bs inp = \<lparr>w_file = ftruncate sizeof_cfg bs, w_in = inp, w_eintr = False, w_syncs = 0, w_out = [],
     w_trace = []\<rparr>"

definition writer_main :: "env \<Rightarrow> nat \<Rightarrow> 8 word list option \<Rightarrow> in_event list \<Rightarrow> exit_code \<times> 8 word list option" where
  "writer_main e fuel file inp =
     (if \<not> e_open e then (Exit_failure, file)
      else let bs = (case file of None \<Rightarrow> [] | Some bs \<Rightarrow> bs)
      in if \<not> e_truncate e then (Exit_failure, Some bs)
      else if \<not> e_map e then (Exit_failure, Some (ftruncate sizeof_cfg bs))
      else case writer_loop e fuel (init_defaults e (writer_start bs inp)) of
        (Break, s) \<Rightarrow> (if e_unmap e then Exit_success else Exit_failure, Some (w_file s))
      | (AtoiUndefined, s) \<Rightarrow> (Undefined_behaviour, Some (w_file s))
      | (_, s) \<Rightarrow> (No_exit, Some (w_file s)))"

section \<open>config-reader\<close>

text \<open>What one round of the reader prints from the current file; \<open>None\<close> is the signal \<open>SIGBUS\<close>, raised when the mapped
  page lies wholly behind the end of the file.  The rest of the file's last page reads as zeros.\<close>

definition log_name :: "32 word \<Rightarrow> string" where
  "log_name l = (if 0 \<le> sint l \<and> sint l \<le> 3 then [''OFF'', ''ERROR'', ''INFO'', ''DEBUG''] ! nat (sint l) else ''UNKNOWN'')"

definition reader_round :: "8 word list \<Rightarrow> (int \<times> int \<times> string) option" where
  "reader_round bs =
     (if bs = [] then None
      else let c = decode_cfg (bs @ replicate (sizeof_cfg - length bs) 0)
           in Some (sint (baud_rate c), sint (sampling_rate_hz c), log_name (log_level c)))"

text \<open>The program: the file it opens, then the file's contents at each round until SIGINT.\<close>

definition reader_main ::
  "bool \<Rightarrow> bool \<Rightarrow> bool \<Rightarrow> bool \<Rightarrow> 8 word list option \<Rightarrow> 8 word list list \<Rightarrow> exit_code \<times> (int \<times> int \<times> string) option list" where
  "reader_main sigaction_ok map_ok close_ok unmap_ok file rounds =
     (if \<not> sigaction_ok \<or> file = None \<or> \<not> map_ok \<or> \<not> close_ok then (Exit_failure, [])
      else let lines = map reader_round rounds
      in if None \<in> set lines then (Undefined_behaviour, takeWhile (\<lambda>l. l \<noteq> None) lines)
      else (if unmap_ok then Exit_success else Exit_failure, lines))"

section \<open>The configuration stays valid\<close>

definition valid_cfg :: "device_cfg \<Rightarrow> bool" where
  "valid_cfg c \<longleftrightarrow> baud_ok (sint (baud_rate c)) \<and> rate_ok (sint (sampling_rate_hz c)) \<and> log_ok (sint (log_level c))"

definition usable :: "writer \<Rightarrow> bool" where
  "usable s \<longleftrightarrow> valid_cfg (cfg_of s)"

lemma sint_word_of_int: "- (2 ^ 31) \<le> v \<Longrightarrow> v < 2 ^ 31 \<Longrightarrow> sint (word_of_int v :: 32 word) = v"
  by (simp add: signed_take_bit_int_eq_self_iff sint_uint unsigned_of_int signed_take_bit_take_bit)

lemma cfg_simps [simp]:
  "cfg_of (say m s) = cfg_of s" "cfg_of (s\<lparr>w_in := inp\<rparr>) = cfg_of s" "cfg_of (s\<lparr>w_eintr := b\<rparr>) = cfg_of s"
  "cfg_of (msync e r s) = cfg_of s" "cfg_of (store f s) = f (cfg_of s)"
  "w_file (msync e r s) = w_file s" "w_file (say m s) = w_file s"
  by (simp_all add: cfg_of_def say_def msync_def store_def Let_def decode_encode)

text \<open>How a round ends: at the end, without a store; or with one field set to an admissible value.\<close>

lemma enter_value_cases:
  assumes "enter_value e fuel name valid put s = (c, s')"
  obtains "cfg_of s' = cfg_of s" | v where "valid v" "- (2 ^ 31) \<le> v" "v < 2 ^ 31" "cfg_of s' = put (word_of_int v) (cfg_of s)"
  using assms
  by (auto simp: enter_value_def Let_def atoi_def split: option.splits gets.splits if_splits prod.splits)

lemma round_valid:
  assumes "usable s" and "writer_round e fuel s = (c, s')"
  shows "usable s'"
proof -
  have ent: "usable t'" if "enter_value e fuel n valid put t = (c, t')" "usable t"
    and put: "\<And>v d. valid v \<Longrightarrow> - (2 ^ 31) \<le> v \<Longrightarrow> v < 2 ^ 31 \<Longrightarrow> valid_cfg d \<Longrightarrow> valid_cfg (put (word_of_int v) d)"
    for n valid put t t'
    using that(1) by (rule enter_value_cases) (use that(2) put in \<open>auto simp: usable_def\<close>)
  show ?thesis
    using assms(2) ent assms(1)
    by (fastforce simp: writer_round_def Let_def usable_def valid_cfg_def sint_word_of_int
        split: option.splits gets.splits if_splits)
qed

lemma loop_valid: "usable s \<Longrightarrow> writer_loop e fuel s = (c, s') \<Longrightarrow> usable s'"
proof (induction fuel arbitrary: s)
  case (Suc fuel)
  obtain c1 s1 where r: "writer_round e (Suc fuel) s = (c1, s1)" by (cases "writer_round e (Suc fuel) s")
  with round_valid Suc.prems have "usable s1" by blast
  with Suc r show ?case by (cases c1) auto
qed simp

lemma init_usable: "baud_rate (cfg_of s) = 0 \<or> usable s \<Longrightarrow> usable (init_defaults e s)"
  by (auto simp: init_defaults_def usable_def valid_cfg_def baud_ok_def rate_ok_def log_ok_def)

text \<open>Without interrupts each round consumes input or ends the loop.\<close>

definition uninterrupted :: "writer \<Rightarrow> bool" where
  "uninterrupted s \<longleftrightarrow> Interrupt \<notin> set (w_in s) \<and> \<not> w_eintr s"

lemma w_in_simps [simp]:
  "w_in (msync e r s) = w_in s" "w_in (store f s) = w_in s" "w_in (say m s) = w_in s"
  "w_eintr (msync e r s) = w_eintr s" "w_eintr (store f s) = w_eintr s" "w_eintr (say m s) = w_eintr s"
  by (simp_all add: msync_def store_def say_def Let_def)

lemma enter_progress:
  assumes u: "uninterrupted u" and r: "enter_value e (Suc m) name valid put u = (c, u')"
  shows "c \<in> {Break, AtoiUndefined} \<or> c = Continue \<and> uninterrupted u' \<and> length (w_in u') \<le> length (w_in u)"
proof -
  have i: "Interrupt \<notin> set (w_in u)" "w_eintr u = False" using u by (simp_all add: uninterrupted_def)
  show ?thesis
  proof (rule get_input_progress [OF i(1), of 256 m])
    assume "get_user_input (Suc m) 256 (w_in u) False = Some (AtEof (w_in u))"
    then show ?thesis using r i(2) by (simp add: enter_value_def)
  next
    fix l inp' assume "get_user_input (Suc m) 256 (w_in u) False = Some (Gets l inp' False)"
      "length inp' < length (w_in u)" "Interrupt \<notin> set inp'"
    then show ?thesis using r i(2)
      by (auto simp: enter_value_def Let_def uninterrupted_def split: option.splits if_splits)
  qed simp
qed

lemma round_progress:
  assumes t: "uninterrupted t" and r: "writer_round e (Suc m) t = (c, t')"
  shows "c \<in> {Break, AtoiUndefined} \<or> c = Continue \<and> uninterrupted t' \<and> length (w_in t') < length (w_in t)"
proof -
  have i: "Interrupt \<notin> set (w_in t)" "w_eintr t = False" using t by (simp_all add: uninterrupted_def)
  show ?thesis
  proof (rule get_input_progress [OF i(1), of 256 m])
    assume "get_user_input (Suc m) 256 (w_in t) False = Some (AtEof (w_in t))"
    then show ?thesis using r i(2) by (simp add: writer_round_def Let_def)
  next
    fix l inp' assume g: "get_user_input (Suc m) 256 (w_in t) False = Some (Gets l inp' False)"
      "length inp' < length (w_in t)" "Interrupt \<notin> set inp'"
    define u where "u = (say (Current (sint (baud_rate (cfg_of t))) (sint (sampling_rate_hz (cfg_of t)))
      (sint (log_level (cfg_of t)))) t)\<lparr>w_in := inp', w_eintr := False\<rparr>"
    have u: "uninterrupted u" "length (w_in u) < length (w_in t)" using g by (simp_all add: u_def uninterrupted_def)
    have "(c, t') = (Break, u) \<or> (\<exists>n ok put. enter_value e (Suc m) n ok put u = (c, t')) \<or> (c, t') = (Continue, say InvalidField u)"
      using r g(1) i(2) unfolding writer_round_def Let_def u_def
      by (simp split: if_splits; blast)
    then show ?thesis using enter_progress [OF u(1)] u by (fastforce simp: uninterrupted_def)
  qed simp
qed

section \<open>Properties\<close>

definition old_bytes :: "8 word list option \<Rightarrow> 8 word list" where
  "old_bytes file = (case file of None \<Rightarrow> [] | Some bs \<Rightarrow> bs)"

text \<open>(C22) A config-writer that has opened, sized and mapped its file leaves a valid configuration in it, one of the three
  baud rates, a sampling rate from 1 to 1000 and a log level from 0 to 3, provided the file did not exist, had a
  zero baud rate, or was valid before: whatever is typed, whichever calls of \<open>msync\<close>, \<open>munmap\<close> and of the reading functions fail, and also
  if the run is cut off at the end of the fuel, that is, between two rounds of the menu or two attempts to read, after the defaults are written.  A process
  killed between the stores of the defaults is not covered: \<open>config_crash_leaves_invalid\<close>.\<close>
theorem config_writer_keeps_valid:
  assumes "e_open e" and "e_truncate e" and "e_map e"
    and "let c = decode_cfg (ftruncate sizeof_cfg (old_bytes file)) in baud_rate c = 0 \<or> valid_cfg c"
  shows "\<exists>bs. snd (writer_main e fuel file inp) = Some bs \<and> valid_cfg (decode_cfg bs)"
proof -
  let ?s = "init_defaults e (writer_start (old_bytes file) inp)"
  obtain c s' where r: "writer_loop e fuel ?s = (c, s')" by (cases "writer_loop e fuel ?s")
  have "usable ?s" by (rule init_usable) (use assms(4) in \<open>auto simp: Let_def cfg_of_def writer_start_def usable_def\<close>)
  then have "usable s'" using loop_valid r by blast
  moreover have "snd (writer_main e fuel file inp) = Some (w_file s')"
    using assms(1-3) r by (cases c) (auto simp: writer_main_def old_bytes_def Let_def)
  ultimately show ?thesis by (simp add: usable_def cfg_of_def)
qed

definition fine :: env where
  "fine = \<lparr>e_open = True, e_truncate = True, e_map = True, e_unmap = True, e_sync = (\<lambda>_. True)\<rparr>"

theorem config_writer_keeps_valid_witness:
  "\<exists>bs. snd (writer_main fine 9 None (chars ''quit'')) = Some bs \<and> valid_cfg (decode_cfg bs)"
proof (rule config_writer_keeps_valid)
  show "let c = decode_cfg (ftruncate sizeof_cfg (old_bytes None)) in baud_rate c = 0 \<or> valid_cfg c"
    by (simp add: old_bytes_def ftruncate_def sizeof_cfg_def decode_cfg_def of_le_bytes_def eval_nat_numeral)
qed (simp_all add: fine_def)

text \<open>(C21) An update is what the reader shows: after the user chose a field and typed a line that \<open>atoi\<close> reads as an admissible value,
  the next round of config-reader prints that value and the other two fields as they were; an inadmissible value changes nothing.\<close>
theorem config_update_shown_by_reader:
  fixes e :: env and fuel :: nat and s :: writer
  assumes "atoi line = Some v" and "plain line" and "length line \<le> 254"
    and "w_in s = chars (''rate'' @ [newline]) @ chars (line @ [newline]) @ rest"
  defines "s' \<equiv> snd (writer_round e (Suc fuel) s)"
  shows "fst (writer_round e (Suc fuel) s) = Continue \<and> w_in s' = rest
    \<and> (if rate_ok v
        then reader_round (w_file s') = Some (sint (baud_rate (cfg_of s)), v, log_name (log_level (cfg_of s)))
          \<and> last (w_out s') = (if e_sync e (w_syncs s) then Updated ''sampling_rate_hz'' v else SyncFailed)
        else w_file s' = w_file s \<and> last (w_out s') = InvalidValue ''sampling_rate_hz'')"
proof -
  have p: "plain ''rate''" by (simp add: plain_def newline_def nul_def)
  define s1 where "s1 = (say (Current (sint (baud_rate (cfg_of s))) (sint (sampling_rate_hz (cfg_of s)))
    (sint (log_level (cfg_of s)))) s)\<lparr>w_in := chars (line @ [newline]) @ rest\<rparr>"
  have w: "writer_round e (Suc fuel) s = enter_value e (Suc fuel) ''sampling_rate_hz'' rate_ok (\<lambda>v c. c\<lparr>sampling_rate_hz := v\<rparr>) s1"
    using get_line [OF p, of 256 fuel "chars (line @ [newline]) @ rest" "w_eintr s"] assms(4)
    by (simp add: writer_round_def Let_def say_def s1_def)
  have v: "- (2 ^ 31) \<le> v" "v < 2 ^ 31" using assms(1) by (auto simp: atoi_def Let_def split: if_splits list.splits)
  have sv: "sint (word_of_int v :: 32 word) = v" by (rule sint_word_of_int [OF v])
  let ?set = "store (\<lambda>c. c\<lparr>sampling_rate_hz := word_of_int v\<rparr>) (s1\<lparr>w_in := rest, w_eintr := w_eintr s1\<rparr>)"
  have "length line + 2 \<le> 256" using assms(3) by simp
  from get_line [OF assms(2) this, of fuel rest "w_eintr s1"]
  have ev: "enter_value e (Suc fuel) ''sampling_rate_hz'' rate_ok (\<lambda>v c. c\<lparr>sampling_rate_hz := v\<rparr>) s1 =
      (if rate_ok v then (Continue, msync e [Updated ''sampling_rate_hz'' v] ?set)
       else (Continue, say (InvalidValue ''sampling_rate_hz'') (s1\<lparr>w_in := rest, w_eintr := w_eintr s1\<rparr>)))"
    using assms(1) by (simp add: enter_value_def s1_def Let_def)
  have out: "w_syncs s1 = w_syncs s" "w_file s1 = w_file s" "cfg_of s1 = cfg_of s"
    by (simp_all add: s1_def say_def cfg_of_def)
  have bytes: "w_file ?set = encode_cfg ((cfg_of s)\<lparr>sampling_rate_hz := word_of_int v\<rparr>)"
    by (simp add: store_def Let_def out)
  have "encode_cfg d \<noteq> []" "sizeof_cfg - length (encode_cfg d) = 0" for d
    by (simp_all add: encode_cfg_def le_bytes_def sizeof_cfg_def)
  then have rd: "reader_round (encode_cfg d) = Some (sint (baud_rate d), sint (sampling_rate_hz d), log_name (log_level d))" for d
    by (simp add: reader_round_def decode_encode)
  show ?thesis unfolding s'_def w ev
    by (cases "rate_ok v")
      (simp_all add: bytes rd sv out say_def msync_def Let_def, simp add: store_def Let_def out rd sv)
qed

theorem config_update_shown_by_reader_witness:
  "reader_round (w_file (snd (writer_round fine 1
     \<lparr>w_file = encode_cfg \<lparr>baud_rate = 9600, sampling_rate_hz = 100, log_level = 2\<rparr>,
      w_in = chars (''rate'' @ [newline]) @ chars (''250'' @ [newline]) @ [], w_eintr = False, w_syncs = 0, w_out = [], w_trace = []\<rparr>)))
   = Some (9600, 250, ''INFO'')"
proof -
  let ?s = "\<lparr>w_file = encode_cfg \<lparr>baud_rate = 9600, sampling_rate_hz = 100, log_level = 2\<rparr>,
      w_in = chars (''rate'' @ [newline]) @ chars (''250'' @ [newline]) @ [], w_eintr = False, w_syncs = 0, w_out = [], w_trace = []\<rparr>"
  have "atoi ''250'' = Some 250"
    by (simp add: atoi_def is_space_def is_digit_def digits_value_def Let_def)
  moreover have "plain ''250''" by (simp add: plain_def newline_def nul_def)
  moreover have "rate_ok 250" by (simp add: rate_ok_def)
  moreover have "cfg_of ?s = \<lparr>baud_rate = 9600, sampling_rate_hz = 100, log_level = 2\<rparr>"
    by (simp add: cfg_of_def decode_encode)
  moreover have "log_name 2 = ''INFO''" by (simp add: log_name_def)
  ultimately show ?thesis
    using config_update_shown_by_reader [of "''250''" 250 ?s "[]" fine 0] by simp
qed

text \<open>The initialisation is not atomic: a writer that is stopped between its first and its second store leaves an invalid configuration, which a reader prints,
  and which no later start of config-writer repairs, because the baud rate is no longer 0.\<close>
theorem config_crash_leaves_invalid:
  "let crashed = \<lparr>baud_rate = 9600, sampling_rate_hz = 0, log_level = 0\<rparr>
   in hd (w_trace (init_defaults fine (writer_start [] []))) = crashed
    \<and> \<not> valid_cfg crashed
    \<and> reader_round (encode_cfg crashed) = Some (9600, 0, ''OFF'')
    \<and> init_defaults e (writer_start (encode_cfg crashed) inp) = writer_start (encode_cfg crashed) inp
    \<and> cfg_of (writer_start (encode_cfg crashed) inp) = crashed"
proof -
  let ?c = "\<lparr>baud_rate = 9600, sampling_rate_hz = 0, log_level = 0\<rparr> :: device_cfg"
  have len: "length (encode_cfg c) = 12" for c by (simp add: encode_cfg_def le_bytes_def)
  have zero: "cfg_of (writer_start [] []) = \<lparr>baud_rate = 0, sampling_rate_hz = 0, log_level = 0\<rparr>"
    by (simp add: cfg_of_def writer_start_def ftruncate_def sizeof_cfg_def decode_cfg_def of_le_bytes_def eval_nat_numeral)
  have first: "hd (w_trace (init_defaults fine (writer_start [] []))) = ?c"
  proof -
    have "w_trace (msync fine [] t) = w_trace t" for t by (simp add: msync_def Let_def)
    moreover have "w_trace (store f t) = w_trace t @ [f (cfg_of t)]" for f t by (simp add: store_def Let_def)
    moreover have "w_trace (writer_start [] []) = []" by (simp add: writer_start_def)
    ultimately show ?thesis by (simp add: init_defaults_def zero)
  qed
  have again: "cfg_of (writer_start (encode_cfg ?c) inp) = ?c"
    by (simp add: cfg_of_def writer_start_def ftruncate_def sizeof_cfg_def len decode_encode)
  have rd: "reader_round (encode_cfg ?c) = Some (9600, 0, ''OFF'')"
  proof -
    have "encode_cfg ?c \<noteq> []" by (simp add: encode_cfg_def le_bytes_def)
    then show ?thesis by (simp add: reader_round_def len sizeof_cfg_def decode_encode log_name_def)
  qed
  show ?thesis using first again rd
    by (simp add: init_defaults_def valid_cfg_def baud_ok_def rate_ok_def)
qed

text \<open>config-writer returns: on every input that no signal interrupts, the menu ends after at most one round per character, at \<open>quit\<close>, at
  the end of the input or at a number that \<open>atoi\<close> cannot represent.  But after one interrupted read the end of the input is
  never noticed: \<open>errno\<close> is still \<open>EINTR\<close> and \<open>get_user_input\<close> calls \<open>fgets\<close> for ever.\<close>
theorem config_writer_returns:
  "(Interrupt \<notin> set (w_in s) \<and> \<not> w_eintr s \<longrightarrow> fst (writer_loop e (Suc (length (w_in s))) s) \<in> {Break, AtoiUndefined})
    \<and> get_user_input fuel 256 [Interrupt] False = None"
proof -
  have "fst (writer_loop e (Suc n) t) \<in> {Break, AtoiUndefined}"
    if "uninterrupted t" "length (w_in t) \<le> n" for n t
    using that
  proof (induction n arbitrary: t)
    case 0
    obtain c t' where "writer_round e (Suc 0) t = (c, t')" by (cases "writer_round e (Suc 0) t")
    with round_progress [OF 0(1) this] 0(2) show ?case by auto
  next
    case (Suc n)
    obtain c t' where "writer_round e (Suc (Suc n)) t = (c, t')" by (cases "writer_round e (Suc (Suc n)) t")
    with round_progress [OF Suc.prems(1) this] Suc.prems(2) Suc.IH [of t'] show ?case by auto
  qed
  moreover have "get_user_input f 256 [] True = None" for f
    by (induction f) (simp_all add: get_user_input.simps fgets_def numeral_eq_Suc)
  then have "get_user_input fuel 256 [Interrupt] False = None"
    by (cases fuel) (simp_all add: get_user_input.simps fgets_def numeral_eq_Suc)
  ultimately show ?thesis by (auto simp: uninterrupted_def)
qed

theorem config_writer_returns_witness:
  "fst (writer_loop fine (Suc (length (chars ''quit''))) ((writer_start [] [])\<lparr>w_in := chars ''quit''\<rparr>))
    \<in> {Break, AtoiUndefined}"
proof -
  let ?s = "(writer_start [] [])\<lparr>w_in := chars ''quit''\<rparr>"
  have "Interrupt \<notin> set (w_in ?s) \<and> \<not> w_eintr ?s" and l: "w_in ?s = chars ''quit''"
    by (simp_all add: chars_def writer_start_def)
  with conjunct1 [OF config_writer_returns [of ?s fine 0]]
  show ?thesis unfolding l by blast
qed

end
