(* ===== verification/WorkStealing.thy ===== *)
theory WorkStealing
  imports Prelude "HOL-Library.Sublist"
begin

text \<open>
  \<open>work_stealing_queue\<close> and \<open>thread_pool\<close> (advancedThreadsManagement/workStealingPool.hpp).

  A critical section of a queue, and an access to the vector \<open>queues\<close>, is one step; \<open>push_back\<close> has a beginning and an end.  A worker calls \<open>run_pending_task\<close> in a loop, and the task it runs may
  call it again while it waits for something, so each worker has a stack of tasks that it has begun (innermost first) and
  a phase.  The pool's constructor starts a worker as soon as its queue exists, while later queues are still being
  added; nothing protects the vector, so a worker that reads it while the constructor is inside \<open>push_back\<close> makes a data race, which is undefined
  behaviour (\<open>ws_race\<close>).  \<open>ws_submitted\<close> and \<open>ws_finished\<close> log the tasks.  The class \<open>thread_safe_queue\<close> of the global queue is not in the repository: its
  operations are the parameter \<open>gq\<close>, and \<open>queue_laws\<close> is what the pool relies on.
\<close>

section \<open>The queue\<close>

definition wsq_push :: "'a \<Rightarrow> 'a list \<Rightarrow> 'a list" where
  "wsq_push data q = data # q"

definition wsq_empty :: "'a list \<Rightarrow> bool" where
  "wsq_empty q \<longleftrightarrow> q = []"

definition wsq_try_pop :: "'a list \<Rightarrow> ('a \<times> 'a list) option" where
  "wsq_try_pop q = (if wsq_empty q then None else Some (hd q, tl q))"

definition wsq_try_steal :: "'a list \<Rightarrow> ('a \<times> 'a list) option" where
  "wsq_try_steal q = (if wsq_empty q then None else Some (last q, butlast q))"

datatype 'a wsq_call = WPush 'a | WPop | WStealBack

record 'a wsq_log =
  q_now :: "'a list"
  q_pushed :: "'a list"
  q_popped :: "'a list"
  q_stolen :: "'a list"

fun wsq_step :: "'a wsq_call \<Rightarrow> 'a wsq_log \<Rightarrow> 'a wsq_log" where
  "wsq_step (WPush x) s = s\<lparr>q_now := wsq_push x (q_now s), q_pushed := q_pushed s @ [x]\<rparr>"
| "wsq_step WPop s = (case wsq_try_pop (q_now s) of None \<Rightarrow> s
     | Some (x, q) \<Rightarrow> s\<lparr>q_now := q, q_popped := q_popped s @ [x]\<rparr>)"
| "wsq_step WStealBack s = (case wsq_try_steal (q_now s) of None \<Rightarrow> s
     | Some (x, q) \<Rightarrow> s\<lparr>q_now := q, q_stolen := q_stolen s @ [x]\<rparr>)"

definition wsq_new :: "'a wsq_log" where
  "wsq_new = \<lparr>q_now = [], q_pushed = [], q_popped = [], q_stolen = []\<rparr>"

section \<open>The global queue\<close>

text \<open>\<open>push\<close> and \<open>try_pop\<close> are atomic; \<open>gq_tasks\<close>, the tasks a queue holds, serves only to say what they promise.\<close>

record ('a, 'g) shared_queue =
  gq_new :: 'g
  gq_push :: "'a \<Rightarrow> 'g \<Rightarrow> 'g"
  gq_try_pop :: "'g \<Rightarrow> ('a \<times> 'g) option"
  gq_tasks :: "'g \<Rightarrow> 'a multiset"

definition queue_laws :: "('a, 'g) shared_queue \<Rightarrow> bool" where
  "queue_laws gq \<longleftrightarrow> gq_tasks gq (gq_new gq) = {#} \<and> (\<forall>f q. gq_tasks gq (gq_push gq f q) = add_mset f (gq_tasks gq q)) \<and>
     (\<forall>q. case gq_try_pop gq q of None \<Rightarrow> gq_tasks gq q = {#} | Some (f, r) \<Rightarrow> gq_tasks gq q = add_mset f (gq_tasks gq r))"

lemma queue_lawsD:
  assumes "queue_laws gq"
  shows "gq_tasks gq (gq_new gq) = {#}" and "gq_tasks gq (gq_push gq f q) = add_mset f (gq_tasks gq q)"
    and "gq_try_pop gq q = None \<Longrightarrow> gq_tasks gq q = {#}" and "gq_try_pop gq q = Some (f, r) \<Longrightarrow> gq_tasks gq q = add_mset f (gq_tasks gq r)"
proof -
  have pop: "case gq_try_pop gq q of None \<Rightarrow> gq_tasks gq q = {#} | Some (f, r) \<Rightarrow> gq_tasks gq q = add_mset f (gq_tasks gq r)"
    using assms by (simp add: queue_laws_def)
  show "gq_tasks gq (gq_new gq) = {#}" and "gq_tasks gq (gq_push gq f q) = add_mset f (gq_tasks gq q)"
    using assms by (simp_all add: queue_laws_def)
  show "gq_tasks gq q = {#}" if "gq_try_pop gq q = None" using pop that by simp
  show "gq_tasks gq q = add_mset f (gq_tasks gq r)" if "gq_try_pop gq q = Some (f, r)" using pop that by simp
qed

text \<open>A queue that keeps the laws.\<close>

definition fifo_queue :: "('a, 'a list) shared_queue" where
  "fifo_queue = \<lparr>gq_new = [], gq_push = (\<lambda>f q. q @ [f]), gq_try_pop = (\<lambda>q. case q of [] \<Rightarrow> None | f # r \<Rightarrow> Some (f, r)), gq_tasks = mset\<rparr>"

lemma fifo_queue_laws: "queue_laws fifo_queue"
  by (simp add: queue_laws_def fifo_queue_def split: list.split)

section \<open>The pool\<close>

datatype phase =
    PNotStarted
  | PStart       \<comment> \<open>reads \<open>queues[my_index]\<close>\<close>
  | PLoop        \<comment> \<open>\<open>while(!done)\<close>\<close>
  | PLocal       \<comment> \<open>\<open>pop_task_from_local_queue\<close>\<close>
  | PGlobal      \<comment> \<open>\<open>pop_task_from_pool_queue\<close>\<close>
  | PSteal nat   \<comment> \<open>\<open>pop_task_from_other_thread_queue\<close>, at the test of this iteration\<close>
  | PVictim nat  \<comment> \<open>behind the test: \<open>queues[index]->try_steal\<close>\<close>
  | PTask        \<comment> \<open>inside the innermost task\<close>
  | PExit

datatype ctor_pc = CQueue nat | CPushing nat | CThread nat | CDone | CFailed

record ('a, 'g) ws_pool =
  ws_done :: bool
  ws_global :: 'g
  ws_queues :: "'a list list"
  ws_phase :: "nat \<Rightarrow> phase"
  ws_stack :: "nat \<Rightarrow> 'a list"
  ws_ctor :: ctor_pc
  ws_submitted :: "'a list"
  ws_finished :: "'a list"
  ws_race :: bool

definition ws_new :: "('a, 'g) shared_queue \<Rightarrow> ('a, 'g) ws_pool" where
  "ws_new gq = \<lparr>ws_done = False, ws_global = gq_new gq, ws_queues = [], ws_phase = (\<lambda>_. PNotStarted), ws_stack = (\<lambda>_. []),
     ws_ctor = CQueue 0, ws_submitted = [], ws_finished = [], ws_race = False\<rparr>"

abbreviation pgo :: "nat \<Rightarrow> phase \<Rightarrow> ('a, 'g) ws_pool \<Rightarrow> ('a, 'g) ws_pool" where
  "pgo i p s \<equiv> s\<lparr>ws_phase := (ws_phase s)(i := p)\<rparr>"

text \<open>The constructor, for \<open>thread_count\<close> workers; \<open>ok\<close> says whether the next allocation or thread creation succeeds.\<close>

definition ws_construct :: "nat \<Rightarrow> bool \<Rightarrow> ('a, 'g) ws_pool \<Rightarrow> ('a, 'g) ws_pool" where
  "ws_construct thread_count ok s =
     (case ws_ctor s of
        CQueue i \<Rightarrow>
          if i < thread_count
          then (if ok then s\<lparr>ws_ctor := CPushing i\<rparr> else s\<lparr>ws_done := True, ws_ctor := CFailed\<rparr>)
          else s\<lparr>ws_ctor := CDone\<rparr>
      | CPushing i \<Rightarrow>
          if ok then s\<lparr>ws_queues := ws_queues s @ [[]], ws_ctor := CThread i\<rparr>
          else s\<lparr>ws_done := True, ws_ctor := CFailed\<rparr>
      | CThread i \<Rightarrow>
          if ok then pgo i PStart (s\<lparr>ws_ctor := CQueue (Suc i)\<rparr>)
          else s\<lparr>ws_done := True, ws_ctor := CFailed\<rparr>
      | CDone \<Rightarrow> s
      | CFailed \<Rightarrow> s)"

definition ws_destroy :: "('a, 'g) ws_pool \<Rightarrow> ('a, 'g) ws_pool" where
  "ws_destroy s = (if ws_ctor s = CDone then s\<lparr>ws_done := True\<rparr> else s)"

text \<open>A worker's read of the vector.\<close>

definition reads_queues :: "('a, 'g) ws_pool \<Rightarrow> ('a, 'g) ws_pool" where
  "reads_queues s = s\<lparr>ws_race := ws_race s \<or> (case ws_ctor s of CPushing i \<Rightarrow> True | _ \<Rightarrow> False)\<rparr>"

text \<open>\<open>submit\<close>, on a worker of the pool and elsewhere.\<close>

definition submit_local :: "nat \<Rightarrow> 'a \<Rightarrow> ('a, 'g) ws_pool \<Rightarrow> ('a, 'g) ws_pool" where
  "submit_local i f s = s\<lparr>ws_queues := (ws_queues s)[i := wsq_push f (ws_queues s ! i)], ws_submitted := ws_submitted s @ [f]\<rparr>"

definition submit_global :: "('a, 'g) shared_queue \<Rightarrow> 'a \<Rightarrow> ('a, 'g) ws_pool \<Rightarrow> ('a, 'g) ws_pool" where
  "submit_global gq f s = s\<lparr>ws_global := gq_push gq f (ws_global s), ws_submitted := ws_submitted s @ [f]\<rparr>"

definition begin_task :: "nat \<Rightarrow> 'a \<Rightarrow> ('a, 'g) ws_pool \<Rightarrow> ('a, 'g) ws_pool" where
  "begin_task i f s = pgo i PTask (s\<lparr>ws_stack := (ws_stack s)(i := f # ws_stack s i)\<rparr>)"

text \<open>\<open>run_pending_task\<close> returns to the task that called it, or to the loop.\<close>

definition back_phase :: "'a list \<Rightarrow> phase" where
  "back_phase stack = (if stack = [] then PLoop else PTask)"

definition ws_worker :: "('a, 'g) shared_queue \<Rightarrow> nat \<Rightarrow> ('a, 'g) ws_pool \<Rightarrow> ('a, 'g) ws_pool" where
  "ws_worker gq i s =
     (case ws_phase s i of
        PNotStarted \<Rightarrow> s
      | PStart \<Rightarrow> pgo i PLoop (reads_queues s)
      | PLoop \<Rightarrow> pgo i (if ws_done s then PExit else PLocal) s
      | PLocal \<Rightarrow> (case wsq_try_pop (ws_queues s ! i) of
            None \<Rightarrow> pgo i PGlobal s
          | Some (f, q) \<Rightarrow> begin_task i f (s\<lparr>ws_queues := (ws_queues s)[i := q]\<rparr>))
      | PGlobal \<Rightarrow> (case gq_try_pop gq (ws_global s) of
            None \<Rightarrow> pgo i (PSteal 0) s
          | Some (f, g) \<Rightarrow> begin_task i f (s\<lparr>ws_global := g\<rparr>))
      | PSteal k \<Rightarrow> pgo i (if k < length (ws_queues s) then PVictim k else back_phase (ws_stack s i)) (reads_queues s)
      | PVictim k \<Rightarrow>
            (let index = (i + k + 1) mod length (ws_queues s); s1 = reads_queues s
             in case wsq_try_steal (ws_queues s ! index) of
                  None \<Rightarrow> pgo i (PSteal (Suc k)) s1
                | Some (f, q) \<Rightarrow> begin_task i f (s1\<lparr>ws_queues := (ws_queues s)[index := q]\<rparr>))
      | PTask \<Rightarrow> (case ws_stack s i of
            [] \<Rightarrow> s
          | f # fs \<Rightarrow> pgo i (back_phase fs) (s\<lparr>ws_stack := (ws_stack s)(i := fs), ws_finished := ws_finished s @ [f]\<rparr>))
      | PExit \<Rightarrow> s)"

datatype 'a ws_event =
    Construct bool
  | Destruct
  | Worker nat            \<comment> \<open>a step of worker \<open>i\<close>; inside a task: the task returns\<close>
  | TaskSubmits nat 'a
  | TaskPolls nat         \<comment> \<open>the task worker \<open>i\<close> runs calls \<open>run_pending_task\<close>\<close>
  | Outside 'a            \<comment> \<open>\<open>submit\<close> on a thread that is no worker\<close>

text \<open>Nothing is said of a program behind its data race.\<close>

definition ws_step :: "('a, 'g) shared_queue \<Rightarrow> nat \<Rightarrow> 'a ws_event \<Rightarrow> ('a, 'g) ws_pool \<Rightarrow> ('a, 'g) ws_pool" where
  "ws_step gq n e s =
     (if ws_race s then s else
      case e of
        Construct ok \<Rightarrow> ws_construct n ok s
      | Destruct \<Rightarrow> ws_destroy s
      | Worker i \<Rightarrow> ws_worker gq i s
      | TaskSubmits i f \<Rightarrow> if ws_phase s i = PTask then submit_local i f s else s
      | TaskPolls i \<Rightarrow> if ws_phase s i = PTask then pgo i PLocal s else s
      | Outside f \<Rightarrow> submit_global gq f s)"

lemma reads_queues_simps [simp]:
  "ws_done (reads_queues s) = ws_done s" "ws_global (reads_queues s) = ws_global s" "ws_queues (reads_queues s) = ws_queues s"
  "ws_phase (reads_queues s) = ws_phase s" "ws_stack (reads_queues s) = ws_stack s" "ws_ctor (reads_queues s) = ws_ctor s"
  "ws_submitted (reads_queues s) = ws_submitted s" "ws_finished (reads_queues s) = ws_finished s"
  by (simp_all add: reads_queues_def)

section \<open>Conservation\<close>

definition ws_held :: "('a, 'g) shared_queue \<Rightarrow> nat \<Rightarrow> ('a, 'g) ws_pool \<Rightarrow> 'a multiset" where
  "ws_held gq n s = gq_tasks gq (ws_global s) + mset (concat (ws_queues s)) + (\<Sum>i<n. mset (ws_stack s i))"

definition ws_inv :: "('a, 'g) shared_queue \<Rightarrow> nat \<Rightarrow> ('a, 'g) ws_pool \<Rightarrow> bool" where
  "ws_inv gq n s \<longleftrightarrow> queue_laws gq \<and> length (ws_queues s) \<le> n
     \<and> (case ws_ctor s of CQueue i \<Rightarrow> length (ws_queues s) = i | CPushing i \<Rightarrow> length (ws_queues s) = i \<and> i < n | CThread i \<Rightarrow> length (ws_queues s) = Suc i \<and> ws_phase s i = PNotStarted
         | _ \<Rightarrow> True)
     \<and> (\<forall>i. ws_phase s i \<noteq> PNotStarted \<longrightarrow> i < length (ws_queues s))
     \<and> (\<forall>i k. ws_phase s i = PVictim k \<longrightarrow> k < length (ws_queues s))
     \<and> (\<forall>i. ws_phase s i \<in> {PNotStarted, PStart, PLoop, PExit} \<longrightarrow> ws_stack s i = [])
     \<and> (\<forall>i. ws_phase s i = PTask \<longrightarrow> ws_stack s i \<noteq> [])
     \<and> mset (ws_submitted s) = mset (ws_finished s) + ws_held gq n s"

lemma ws_move:
  assumes inv: "ws_inv gq n s" and i: "ws_phase s i \<noteq> PNotStarted"
    and ph: "ws_phase s' = (ws_phase s)(i := p)" and st: "ws_stack s' = (ws_stack s)(i := fs)"
    and len: "length (ws_queues s') = length (ws_queues s)" and ctor: "ws_ctor s' = ws_ctor s"
    and p: "p \<noteq> PNotStarted" "p \<in> {PStart, PLoop, PExit} \<Longrightarrow> fs = []" "\<And>k. p = PVictim k \<Longrightarrow> k < length (ws_queues s)" "p = PTask \<Longrightarrow> fs \<noteq> []"
    and tasks: "mset (ws_submitted s) + mset (ws_finished s') + gq_tasks gq (ws_global s') + mset (concat (ws_queues s')) + mset fs =
      mset (ws_submitted s') + mset (ws_finished s) + gq_tasks gq (ws_global s) + mset (concat (ws_queues s)) + mset (ws_stack s i)"
  shows "ws_inv gq n s'"
proof -
  have "i < length (ws_queues s)" "length (ws_queues s) \<le> n" using inv i unfolding ws_inv_def by blast+
  then have "i < n" by simp
  from sum_threads_upd [OF this, of mset "ws_stack s" fs]
  have sums: "(\<Sum>j<n. mset (ws_stack s' j)) + mset (ws_stack s i) = (\<Sum>j<n. mset (ws_stack s j)) + mset fs"
    by (simp add: st)
  have "mset (ws_submitted s) = mset (ws_finished s) + ws_held gq n s" using inv by (simp add: ws_inv_def)
  with tasks have "mset fs + ((\<Sum>j<n. mset (ws_stack s j)) + (mset (ws_finished s') + gq_tasks gq (ws_global s') + mset (concat (ws_queues s'))))
      = mset (ws_submitted s') + mset (ws_stack s i)"
    by (simp add: ws_held_def ac_simps)
  from multiset_exchange [OF sums this]
  have "mset (ws_submitted s') = mset (ws_finished s') + ws_held gq n s'" by (simp add: ws_held_def ac_simps)
  then show ?thesis using inv i p ctor len by (auto simp: ws_inv_def ph st split: ctor_pc.splits)
qed

lemma take_from_queue:
  assumes "i < length qs" and "mset (qs ! i) = add_mset f (mset q)"
  shows "mset (concat qs) = add_mset f (mset (concat (qs[i := q])))"
  using mset_concat_update [OF assms(1), of q] assms(2) by (simp add: ac_simps)

lemma pop_front_mset: "wsq_try_pop q = Some (f, r) \<Longrightarrow> mset q = add_mset f (mset r)"
  by (cases q) (auto simp: wsq_try_pop_def wsq_empty_def)

lemma steal_back_mset: "wsq_try_steal q = Some (f, r) \<Longrightarrow> mset q = add_mset f (mset r)"
proof -
  assume "wsq_try_steal q = Some (f, r)"
  then have "q = r @ [f]" by (auto simp: wsq_try_steal_def wsq_empty_def split: if_splits)
  then show ?thesis by simp
qed

lemma ws_worker_keeps:
  assumes inv: "ws_inv gq n s"
  shows "ws_inv gq n (ws_worker gq i s)"
proof (cases "ws_phase s i")
  case PNotStarted
  with inv show ?thesis by (simp add: ws_worker_def)
next
  case PExit
  with inv show ?thesis by (simp add: ws_worker_def)
next
  case PLoop
  then have "ws_stack s i = []" using inv by (simp add: ws_inv_def)
  then show ?thesis using PLoop
    by (intro ws_move [OF inv, of i _ "if ws_done s then PExit else PLocal" "[]"])
      (auto simp: ws_worker_def fun_eq_iff split: if_splits)
next
  case PLocal
  then have i: "i < length (ws_queues s)" using inv by (simp add: ws_inv_def)
  show ?thesis
  proof (cases "wsq_try_pop (ws_queues s ! i)")
    case None
    with PLocal show ?thesis
      by (intro ws_move [OF inv, of i _ PGlobal "ws_stack s i"]) (simp_all add: ws_worker_def)
  next
    case (Some fq)
    obtain f q where fq: "fq = (f, q)" by (cases fq)
    from take_from_queue [OF i pop_front_mset] Some fq
    have "mset (concat (ws_queues s)) = add_mset f (mset (concat ((ws_queues s)[i := q])))" by blast
    with PLocal Some fq show ?thesis
      by (intro ws_move [OF inv, of i _ PTask "f # ws_stack s i"]) (simp_all add: ws_worker_def begin_task_def)
  qed
next
  case PGlobal
  have laws: "queue_laws gq" using inv by (simp add: ws_inv_def)
  show ?thesis
  proof (cases "gq_try_pop gq (ws_global s)")
    case None
    with PGlobal show ?thesis
      by (intro ws_move [OF inv, of i _ "PSteal 0" "ws_stack s i"]) (simp_all add: ws_worker_def)
  next
    case (Some fg)
    obtain f g where fg: "fg = (f, g)" by (cases fg)
    have "gq_tasks gq (ws_global s) = add_mset f (gq_tasks gq g)" using queue_lawsD(4) [OF laws] Some fg by blast
    with PGlobal Some fg show ?thesis
      by (intro ws_move [OF inv, of i _ PTask "f # ws_stack s i"]) (simp_all add: ws_worker_def begin_task_def)
  qed
next
  case PStart
  then have "ws_stack s i = []" using inv by (simp add: ws_inv_def)
  then show ?thesis using PStart
    by (intro ws_move [OF inv, of i _ PLoop "[]"]) (auto simp: ws_worker_def fun_eq_iff)
next
  case (PSteal k)
  then show ?thesis
    by (intro ws_move [OF inv, of i _ "if k < length (ws_queues s) then PVictim k else back_phase (ws_stack s i)" "ws_stack s i"])
      (simp_all add: ws_worker_def back_phase_def split: if_splits)
next
  case (PVictim k)
  define j where "j = (i + k + 1) mod length (ws_queues s)"
  have "k < length (ws_queues s)" using inv PVictim by (simp add: ws_inv_def)
  then have j: "j < length (ws_queues s)" unfolding j_def by (intro mod_less_divisor) linarith
  have eq: "ws_worker gq i s = (case wsq_try_steal (ws_queues s ! j) of
      None \<Rightarrow> pgo i (PSteal (Suc k)) (reads_queues s) | Some (f, q) \<Rightarrow> begin_task i f ((reads_queues s)\<lparr>ws_queues := (ws_queues s)[j := q]\<rparr>))"
    by (simp only: ws_worker_def PVictim phase.case Let_def j_def)
  show ?thesis
  proof (cases "wsq_try_steal (ws_queues s ! j)")
    case None
    with eq PVictim show ?thesis
      by (intro ws_move [OF inv, of i _ "PSteal (Suc k)" "ws_stack s i"]) simp_all
  next
    case (Some fq)
    obtain f q where fq: "fq = (f, q)" by (cases fq)
    from take_from_queue [OF j steal_back_mset] Some fq
    have "mset (concat (ws_queues s)) = add_mset f (mset (concat ((ws_queues s)[j := q])))" by blast
    with eq PVictim Some fq show ?thesis
      by (intro ws_move [OF inv, of i _ PTask "f # ws_stack s i"]) (simp_all add: begin_task_def)
  qed
next
  case PTask
  then obtain f fs where st: "ws_stack s i = f # fs" using inv by (cases "ws_stack s i") (auto simp: ws_inv_def)
  with PTask show ?thesis
    by (intro ws_move [OF inv, of i _ "back_phase fs" fs]) (simp_all add: ws_worker_def back_phase_def split: if_splits)
qed

lemma ws_construct_keeps:
  assumes "ws_inv gq n s"
  shows "ws_inv gq n (ws_construct n ok s)"
proof (cases "ws_ctor s")
  case (CThread i)
  then have "length (ws_queues s) = Suc i" "ws_phase s i = PNotStarted" using assms by (simp_all add: ws_inv_def)
  moreover from this have "ws_stack s i = []" using assms by (simp add: ws_inv_def)
  ultimately show ?thesis using assms CThread
    by (auto simp: ws_construct_def ws_inv_def ws_held_def)
qed (use assms in \<open>auto simp: ws_construct_def ws_inv_def ws_held_def less_Suc_eq\<close>)

lemma ws_destroy_keeps: "ws_inv gq n s \<Longrightarrow> ws_inv gq n (ws_destroy s)"
  by (simp add: ws_destroy_def ws_inv_def ws_held_def)

lemma submit_global_keeps: "ws_inv gq n s \<Longrightarrow> ws_inv gq n (submit_global gq f s)"
  by (auto simp: submit_global_def ws_inv_def ws_held_def queue_lawsD(2) split: ctor_pc.splits)

lemma ws_step_keeps:
  assumes inv: "ws_inv gq n s"
  shows "ws_inv gq n (ws_step gq n e s)"
proof (cases e)
  case (TaskSubmits i f)
  show ?thesis
  proof (cases "ws_phase s i = PTask \<and> \<not> ws_race s")
    case True
    then have i: "i < length (ws_queues s)" and st: "ws_stack s i \<noteq> []" using inv by (simp_all add: ws_inv_def)
    have "mset (concat ((ws_queues s)[i := wsq_push f (ws_queues s ! i)])) = add_mset f (mset (concat (ws_queues s)))"
      using mset_concat_update [OF i, of "wsq_push f (ws_queues s ! i)"] by (simp add: wsq_push_def)
    with True st TaskSubmits show ?thesis
      by (intro ws_move [OF inv, of i _ PTask "ws_stack s i"]) (auto simp: ws_step_def submit_local_def fun_eq_iff)
  qed (use inv TaskSubmits in \<open>auto simp: ws_step_def\<close>)
next
  case (TaskPolls i)
  show ?thesis
  proof (cases "ws_phase s i = PTask \<and> \<not> ws_race s")
    case True
    with TaskPolls show ?thesis
      by (intro ws_move [OF inv, of i _ PLocal "ws_stack s i"]) (simp_all add: ws_step_def)
  qed (use inv TaskPolls in \<open>auto simp: ws_step_def\<close>)
qed (use inv in \<open>simp_all add: ws_step_def ws_construct_keeps ws_worker_keeps ws_destroy_keeps submit_global_keeps\<close>)

interpretation ws: interleaving "ws_step gq n" "ws_inv gq n"
  for gq n
  by unfold_locales (rule ws_step_keeps)

lemma ws_new_inv: "queue_laws gq \<Longrightarrow> ws_inv gq n (ws_new gq)"
  by (simp add: ws_inv_def ws_new_def ws_held_def queue_lawsD)

section \<open>A worker that looks for work finds it\<close>

primrec ws_solo :: "('a, 'g) shared_queue \<Rightarrow> nat \<Rightarrow> nat \<Rightarrow> ('a, 'g) ws_pool \<Rightarrow> ('a, 'g) ws_pool" where
  "ws_solo gq i 0 s = s"
| "ws_solo gq i (Suc m) s = ws_solo gq i m (ws_worker gq i s)"

lemma steal_scan:
  assumes "ws_phase s i = PSteal k" and "i < length (ws_queues s)"
    and "\<exists>d. d < m \<and> k + d < length (ws_queues s) \<and> ws_queues s ! ((i + (k + d) + 1) mod length (ws_queues s)) \<noteq> []"
  shows "\<exists>j\<le>2 * m. ws_phase (ws_solo gq i j s) i = PTask"
  using assms
proof (induction m arbitrary: k s)
  case (Suc m)
  then obtain d where d: "d < Suc m" "k + d < length (ws_queues s)"
    "ws_queues s ! ((i + (k + d) + 1) mod length (ws_queues s)) \<noteq> []" by blast
  define s1 where "s1 = pgo i (PVictim k) (reads_queues s)"
  have one: "ws_worker gq i s = s1" using Suc.prems(1) d(2) by (simp add: ws_worker_def s1_def)
  have s1: "ws_phase s1 i = PVictim k" "ws_queues s1 = ws_queues s" by (simp_all add: s1_def)
  define q where "q = ws_queues s ! ((i + k + 1) mod length (ws_queues s))"
  show ?case
  proof (cases "q = []")
    case True
    define s2 where "s2 = pgo i (PSteal (Suc k)) (reads_queues s1)"
    have two: "ws_worker gq i s1 = s2"
      using True unfolding ws_worker_def q_def s1 s2_def by (simp add: Let_def wsq_try_steal_def wsq_empty_def s1)
    have s2: "ws_phase s2 i = PSteal (Suc k)" "ws_queues s2 = ws_queues s" by (simp_all add: s2_def s1)
    have "d \<noteq> 0"
    proof
      assume "d = 0"
      with d(3) True show False by (simp add: q_def)
    qed
    then obtain c where "d = Suc c" by (cases d) auto
    with d have "\<exists>d. d < m \<and> Suc k + d < length (ws_queues s2)
        \<and> ws_queues s2 ! ((i + (Suc k + d) + 1) mod length (ws_queues s2)) \<noteq> []"
      by (intro exI [of _ c]) (simp add: s2)
    then obtain j where "j \<le> 2 * m" "ws_phase (ws_solo gq i j s2) i = PTask"
      using Suc.IH [of s2 "Suc k"] Suc.prems(2) s2 by auto
    then show ?thesis by (intro exI [of _ "Suc (Suc j)"]) (simp add: one two)
  next
    case False
    then have "ws_phase (ws_worker gq i s1) i = PTask"
      unfolding ws_worker_def q_def s1 by (simp add: Let_def wsq_try_steal_def wsq_empty_def begin_task_def s1)
    then show ?thesis by (intro exI [of _ "Suc (Suc 0)"]) (simp add: one)
  qed
qed auto

lemma some_offset:
  assumes "i < n" and "j < n"
  shows "\<exists>d<n. (i + d + 1) mod n = (j :: nat)"
proof (cases "i < j")
  case True
  with assms show ?thesis by (intro exI [of _ "j - i - 1"]) simp
next
  case False
  with assms have "i + (n + j - i - 1) + 1 = n + j" "n + j - i - 1 < n" by simp_all
  with assms show ?thesis by (intro exI [of _ "n + j - i - 1"]) simp
qed

section \<open>Properties\<close>

text \<open>(C17) No task is lost or run twice, whatever the interleaving of the constructor, which may fail, the workers, the tasks (which may submit tasks and run
  pending ones), the destructor and other threads, as long as no worker reads \<open>queues\<close> while the constructor extends it, and whatever global queue keeps its tasks: each submitted task is exactly
  once finished, begun by one worker, or queued.\<close>
theorem work_stealing_conserves_tasks:
  fixes gq :: "('a, 'g) shared_queue" and es :: "'a ws_event list" and n :: nat
  assumes "queue_laws gq"
  defines "s \<equiv> run_sched (ws_step gq n) es (ws_new gq)"
  assumes "\<not> ws_race s"
  shows "mset (ws_submitted s) = mset (ws_finished s) + gq_tasks gq (ws_global s) + mset (concat (ws_queues s))
    + (\<Sum>i<n. mset (ws_stack s i))"
  using ws.sched_keeps [OF ws_new_inv [OF assms(1)], of n es] by (simp add: s_def ws_inv_def ws_held_def ac_simps)

text \<open>A worker steals a task from another, a task polls and runs a further one, and a fourth is left in the global queue.\<close>

definition ws_example :: "string ws_event list" where
  "ws_example = replicate 7 (Construct True) @ [Outside ''a''] @ replicate 4 (Worker 0) @ [TaskSubmits 0 ''b'', TaskSubmits 0 ''c''] @
     replicate 6 (Worker 1) @ [TaskPolls 0, Worker 0, Worker 0, Outside ''d'']"

lemma work_stealing_conserves_tasks_witness:
  "let s = run_sched (ws_step fifo_queue 2) ws_example (ws_new fifo_queue)
   in \<not> ws_race s \<and> ws_finished s = [''c''] \<and> ws_stack s 0 = [''a''] \<and> ws_stack s 1 = [''b''] \<and> ws_global s = [''d''] \<and>
     mset (ws_submitted s) = mset (ws_finished s) + mset (ws_global s) + mset (concat (ws_queues s)) + (\<Sum>i<2. mset (ws_stack s i))"
proof -
  define s where "s = run_sched (ws_step fifo_queue 2) ws_example (ws_new fifo_queue)"
  have race: "\<not> ws_race s" and "ws_finished s = [''c'']" "ws_stack s 0 = [''a'']" "ws_stack s 1 = [''b'']" "ws_global s = [''d'']"
    unfolding s_def by code_simp+
  moreover have "gq_tasks fifo_queue = (mset :: string list \<Rightarrow> _)" by (simp add: fifo_queue_def)
  ultimately show ?thesis using work_stealing_conserves_tasks [OF fifo_queue_laws race [unfolded s_def]] by (simp add: s_def [symmetric])
qed

text \<open>A worker that polls finds work wherever it is: if a task is in any queue of the pool, a worker that enters
  \<open>run_pending_task\<close> and is not overtaken begins a task within two steps per queue and two more.\<close>
theorem work_stealing_poll_finds_work:
  assumes laws: "queue_laws gq" and "ws_phase s i = PLocal" and "i < length (ws_queues s)"
    and "gq_tasks gq (ws_global s) \<noteq> {#} \<or> (\<exists>q \<in> set (ws_queues s). q \<noteq> [])"
  shows "\<exists>m \<le> 2 * length (ws_queues s) + 2. ws_phase (ws_solo gq i m s) i = PTask"
proof (cases "ws_queues s ! i = []")
  case False
  then have "ws_phase (ws_solo gq i 1 s) i = PTask" using assms(2)
    by (simp add: ws_worker_def wsq_try_pop_def wsq_empty_def begin_task_def)
  then show ?thesis by (intro exI [of _ 1]) simp
next
  case own: True
  then have one: "ws_worker gq i s = pgo i PGlobal s" using assms(2)
    by (simp add: ws_worker_def wsq_try_pop_def wsq_empty_def)
  show ?thesis
  proof (cases "gq_try_pop gq (ws_global s)")
    case (Some fg)
    then have "ws_phase (ws_solo gq i 2 s) i = PTask" using one
      by (simp add: numeral_2_eq_2 ws_worker_def [of gq i "pgo i PGlobal s"] begin_task_def split: prod.split)
    then show ?thesis by (intro exI [of _ 2]) simp
  next
    case None
    then have two: "ws_worker gq i (pgo i PGlobal s) = pgo i (PSteal 0) s" by (simp add: ws_worker_def)
    obtain j where j: "j < length (ws_queues s)" "ws_queues s ! j \<noteq> []"
      using assms(4) queue_lawsD(3) [OF laws None] by (metis in_set_conv_nth)
    obtain d where d: "d < length (ws_queues s)" "(i + d + 1) mod length (ws_queues s) = j"
      using some_offset [OF assms(3) j(1)] by blast
    have "\<exists>m\<le>2 * length (ws_queues s). ws_phase (ws_solo gq i m (pgo i (PSteal 0) s)) i = PTask"
      by (rule steal_scan [where k = 0]) (use assms(3) d j in auto)
    then obtain m where "m \<le> 2 * length (ws_queues s)" "ws_phase (ws_solo gq i m (pgo i (PSteal 0) s)) i = PTask" by blast
    then show ?thesis using one two by (intro exI [of _ "Suc (Suc m)"]) simp
  qed
qed

theorem work_stealing_poll_finds_work_witness:
  "\<exists>m \<le> 6. ws_phase (ws_solo fifo_queue 0 m ((ws_new fifo_queue :: (string, string list) ws_pool)\<lparr>ws_queues := [[], [''x'']], ws_phase := (\<lambda>_. PLocal)\<rparr>)) 0 = PTask"
proof -
  let ?s = "(ws_new fifo_queue :: (string, string list) ws_pool)\<lparr>ws_queues := [[], [''x'']], ws_phase := (\<lambda>_. PLocal)\<rparr>"
  have "\<exists>m \<le> 2 * length (ws_queues ?s) + 2. ws_phase (ws_solo fifo_queue 0 m ?s) 0 = PTask"
    by (rule work_stealing_poll_finds_work [OF fifo_queue_laws]) (simp_all add: ws_new_def)
  moreover have "2 * length (ws_queues ?s) + 2 = 6" by simp
  ultimately show ?thesis by (simp only:)
qed

text \<open>The deque keeps both orders: what thieves take comes out in the order in which it was pushed, ahead of everything still stored,
  the owner takes what was pushed last of what is stored, and nothing is lost.\<close>
theorem work_stealing_queue_order:
  fixes es :: "'a wsq_call list"
  defines "s \<equiv> run_sched wsq_step es wsq_new"
  shows "subseq (q_stolen s @ rev (q_now s)) (q_pushed s)
    \<and> mset (q_pushed s) = mset (q_popped s) + mset (q_stolen s) + mset (q_now s)
    \<and> (q_now s \<noteq> [] \<longrightarrow> q_popped (wsq_step WPop s) = q_popped s @ [hd (q_now s)])"
proof -
  have keep: "subseq (q_stolen (wsq_step e t) @ rev (q_now (wsq_step e t))) (q_pushed (wsq_step e t))
      \<and> mset (q_pushed (wsq_step e t)) = mset (q_popped (wsq_step e t)) + mset (q_stolen (wsq_step e t)) + mset (q_now (wsq_step e t))"
    if "subseq (q_stolen t @ rev (q_now t)) (q_pushed t)
      \<and> mset (q_pushed t) = mset (q_popped t) + mset (q_stolen t) + mset (q_now t)" for e and t :: "'a wsq_log"
  proof (cases e)
    case (WPush x)
    have "subseq ((q_stolen t @ rev (q_now t)) @ [x]) (q_pushed t @ [x])"
      by (rule list_emb_append_mono) (use that in simp_all)
    then show ?thesis using that WPush by (simp add: wsq_push_def)
  next
    case WPop
    show ?thesis
    proof (cases "q_now t")
      case (Cons x q)
      then have "subseq (q_stolen t @ rev q) (q_stolen t @ rev (q_now t))"
        using list_emb_append_mono [of "(=)" "q_stolen t @ rev q" "q_stolen t @ rev q" "[]" "[x]"] by simp
      then have "subseq (q_stolen t @ rev q) (q_pushed t)" using that subseq_order.order_trans by blast
      with that WPop Cons show ?thesis by (simp add: wsq_try_pop_def wsq_empty_def)
    qed (use that WPop in \<open>simp add: wsq_try_pop_def wsq_empty_def\<close>)
  next
    case WStealBack
    show ?thesis
    proof (cases "q_now t" rule: rev_cases)
      case (snoc q x)
      with that WStealBack show ?thesis by (simp add: wsq_try_steal_def wsq_empty_def)
    qed (use that WStealBack in \<open>simp add: wsq_try_steal_def wsq_empty_def\<close>)
  qed
  have "subseq (q_stolen (run_sched wsq_step es t) @ rev (q_now (run_sched wsq_step es t))) (q_pushed (run_sched wsq_step es t))
      \<and> mset (q_pushed (run_sched wsq_step es t)) =
        mset (q_popped (run_sched wsq_step es t)) + mset (q_stolen (run_sched wsq_step es t)) + mset (q_now (run_sched wsq_step es t))"
    if "subseq (q_stolen t @ rev (q_now t)) (q_pushed t)
      \<and> mset (q_pushed t) = mset (q_popped t) + mset (q_stolen t) + mset (q_now t)" for t
    using that
  proof (induction es arbitrary: t)
    case (Cons e es)
    then show ?case using Cons.IH [OF keep [OF Cons.prems, of e]] by simp
  qed simp
  from this [of wsq_new] show ?thesis
    by (simp add: s_def wsq_new_def wsq_try_pop_def wsq_empty_def)
qed

text \<open>The constructor and the first worker meet in the vector \<open>queues\<close>: the constructor is inside the \<open>push_back\<close> of the second
  queue, while the worker reads \<open>queues.size()\<close> to look for a victim.\<close>

lemma work_stealing_ctor_race:
  "ws_race (run_sched (ws_step fifo_queue 2)
     (replicate 3 (Construct True) @ replicate 4 (Worker 0) @ [Construct True, Worker 0]) (ws_new fifo_queue :: (string, string list) ws_pool))"
  by code_simp

end
