(* ===== verification/QuickSort.thy ===== *)
theory QuickSort
  imports Prelude "HOL-Library.Word"
begin

text \<open>
  \<open>parallel_quick_sort\<close> (designConcurrentCode/quickSort.hpp): each call of \<open>do_sort\<close> pushes the lower part on a shared stack
  of chunks, sorts the higher part itself, and sorts other chunks while it waits for the lower part.

  A thread is a stack of activations and what it does next.  The three kinds of activation are a \<open>do_sort\<close> that waits for its
  recursive call, one that waits for the future of its lower part, and a \<open>sort_chunk\<close>.  Each access to the
  chunks, to a promise, to \<open>end_of_data\<close> or to the vector \<open>threads\<close> is a step; \<open>push_back\<close> has a beginning and an end.  Nothing protects the vector: a thread
  that reads its size, or begins a \<open>push_back\<close>, while another is inside \<open>push_back\<close> makes a data race, which is undefined behaviour (\<open>qs_race\<close>).
  The constructor of \<open>std::thread\<close> may throw: the exception unwinds the activations of the thread, and the promises of the
  chunks among them are broken; in a worker it ends in \<open>std::terminate\<close>, in the caller it leaves \<open>parallel_quick_sort\<close> behind the destructor.
  Thread 0 is the caller.  \<open>std::partition\<close> is a parameter, since its order is unspecified.  Ghosts: \<open>qs_want\<close> is the sorted
  list each promise stands for, \<open>qs_started\<close> counts the workers, and the number beside a chunk's activation is how many chunks existed when it began.
\<close>

section \<open>The program\<close>

datatype 'a activation =
    Higher nat 'a            \<comment> \<open>waits for \<open>do_sort(chunk_data)\<close>; the future of the lower part, and the pivot\<close>
  | Lower nat "'a list"      \<comment> \<open>\<open>while(new_lower.wait_for(0) != ready)\<close>, with the result so far\<close>
  | SortChunk nat nat        \<comment> \<open>\<open>sort_chunk\<close>: the promise; ghost: the chunks made before\<close>

datatype 'a control =
    Call "'a list"           \<comment> \<open>\<open>do_sort\<close> is entered\<close>
  | Spawn "'a list"          \<comment> \<open>step 4, with the higher part: \<open>threads.size() < max_thread_count\<close>\<close>
  | Create "'a list"         \<comment> \<open>the constructor of \<open>std::thread\<close>\<close>
  | Append "'a list" nat     \<comment> \<open>before \<open>push_back\<close> of the thread\<close>
  | Appending "'a list" nat  \<comment> \<open>inside it\<close>
  | Return "'a list"
  | Wait
  | TrySort                  \<comment> \<open>\<open>try_sort_chunk\<close>\<close>
  | WorkerLoop
  | Finished "'a list"       \<comment> \<open>the caller has its result; the destructor follows\<close>
  | Joining "'a list"
  | Returned "'a list"
  | Failed                   \<comment> \<open>an exception has left the caller's \<open>do_sort\<close>; the destructor follows\<close>
  | JoiningFailed
  | Threw
  | Gone

datatype 'a promise_state = Ready "'a list" | Broken

record 'a sorter =
  qs_chunks :: "(nat \<times> 'a list) list"
  qs_promises :: "nat \<Rightarrow> 'a promise_state option"
  qs_next :: nat
  qs_threads :: "nat list"
  qs_started :: nat
  qs_end_of_data :: bool
  qs_control :: "nat \<Rightarrow> 'a control"
  qs_stack :: "nat \<Rightarrow> 'a activation list"
  qs_want :: "nat \<Rightarrow> 'a list"
  qs_race :: bool
  qs_terminated :: bool

text \<open>\<open>thread_safe_stack\<close>: each operation holds its mutex.  \<open>pop\<close> on the empty stack gives the null pointer.\<close>

definition chunk_push :: "'c \<Rightarrow> 'c list \<Rightarrow> 'c list" where
  [simp]: "chunk_push new_value data = new_value # data"

definition chunk_pop :: "'c list \<Rightarrow> ('c \<times> 'c list) option" where
  [simp]: "chunk_pop data = (case data of [] \<Rightarrow> None | x # xs \<Rightarrow> Some (x, xs))"

definition chunk_empty :: "'c list \<Rightarrow> bool" where
  "chunk_empty data \<longleftrightarrow> data = []"

definition chunk_copy :: "'c list \<Rightarrow> 'c list" where
  "chunk_copy other = other"

lemma chunk_stack_laws:
  "chunk_pop (chunk_push x data) = Some (x, data)" "chunk_empty data \<longleftrightarrow> chunk_pop data = None"
  "chunk_pop (chunk_copy data) = chunk_pop data"
  by (simp_all add: chunk_empty_def chunk_copy_def split: list.splits)

type_synonym 'a partitioner = "('a \<Rightarrow> bool) \<Rightarrow> 'a list \<Rightarrow> 'a list \<times> 'a list"

definition partitions :: "'a partitioner \<Rightarrow> bool" where
  "partitions part \<longleftrightarrow> (\<forall>P xs. mset (fst (part P xs)) + mset (snd (part P xs)) = mset xs
     \<and> (\<forall>x \<in> set (fst (part P xs)). P x) \<and> (\<forall>x \<in> set (snd (part P xs)). \<not> P x))"

definition max_thread_count :: "32 word \<Rightarrow> nat" where
  "max_thread_count hardware_concurrency = unat (hardware_concurrency - 1)"

definition qs_start :: "'a list \<Rightarrow> 'a sorter" where
  "qs_start input = \<lparr>qs_chunks = [], qs_promises = Map.empty, qs_next = 0, qs_threads = [], qs_started = 0, qs_end_of_data = False,
     qs_control = (\<lambda>_. Gone)(0 := Call input), qs_stack = (\<lambda>_. []), qs_want = (\<lambda>_. []), qs_race = False, qs_terminated = False\<rparr>"

abbreviation qgo :: "nat \<Rightarrow> 'a control \<Rightarrow> 'a activation list \<Rightarrow> 'a sorter \<Rightarrow> 'a sorter" where
  "qgo t c st s \<equiv> s\<lparr>qs_control := (qs_control s)(t := c), qs_stack := (qs_stack s)(t := st)\<rparr>"

text \<open>Where a thread goes on behind \<open>try_sort_chunk\<close>: in the waiting loop, or in \<open>sort_thread\<close>.\<close>

definition behind_try :: "'a activation list \<Rightarrow> 'a control" where
  "behind_try st = (if st = [] then WorkerLoop else Wait)"

definition do_sort_enter ::
  "'a::linorder partitioner \<Rightarrow> nat \<Rightarrow> 'a list \<Rightarrow> 'a sorter \<Rightarrow> 'a sorter" where
  "do_sort_enter part t chunk_data s =
     (case chunk_data of
        [] \<Rightarrow> qgo t (Return []) (qs_stack s t) s
      | pivot # rest \<Rightarrow>
          (let (lower, higher) = part (\<lambda>val. val < pivot) rest; future = qs_next s
           in qgo t (Spawn higher) (Higher future pivot # qs_stack s t)
                (s\<lparr>qs_chunks := chunk_push (future, lower) (qs_chunks s), qs_next := Suc future,
                   qs_want := (qs_want s)(future := sort lower)\<rparr>)))"

text \<open>The accesses to the vector \<open>threads\<close>.\<close>

definition appending :: "'a sorter \<Rightarrow> nat \<Rightarrow> bool" where
  "appending s u \<longleftrightarrow> (case qs_control s u of Appending xs w \<Rightarrow> True | _ \<Rightarrow> False)"

definition threads_access :: "nat \<Rightarrow> 'a sorter \<Rightarrow> 'a sorter" where
  "threads_access t s =
     s\<lparr>qs_race := qs_race s \<or> list_ex (\<lambda>u. u \<noteq> t \<and> appending s u) [0..<Suc (qs_started s)]\<rparr>"

text \<open>An exception that leaves a \<open>do_sort\<close>, through all activations of its thread.\<close>

definition holds_chunk :: "'a activation list \<Rightarrow> nat \<Rightarrow> bool" where
  "holds_chunk st d \<longleftrightarrow> list_ex (\<lambda>a. case a of SortChunk c k \<Rightarrow> c = d | _ \<Rightarrow> False) st"

definition raise_in :: "nat \<Rightarrow> 'a sorter \<Rightarrow> 'a sorter" where
  "raise_in t s =
     (if t = 0 then qgo 0 Failed [] (s\<lparr>qs_promises := (\<lambda>d. if holds_chunk (qs_stack s 0) d then Some Broken else qs_promises s d)\<rparr>)
      else s\<lparr>qs_terminated := True\<rparr>)"

definition do_sort_spawn :: "32 word \<Rightarrow> nat \<Rightarrow> 'a list \<Rightarrow> 'a sorter \<Rightarrow> 'a sorter" where
  "do_sort_spawn hw t higher s =
     qgo t (if length (qs_threads s) < max_thread_count hw then Create higher else Call higher) (qs_stack s t) (threads_access t s)"

definition create_thread :: "bool \<Rightarrow> nat \<Rightarrow> 'a list \<Rightarrow> 'a sorter \<Rightarrow> 'a sorter" where
  "create_thread ok t higher s =
     (if ok then let u = Suc (qs_started s)
        in qgo t (Append higher u) (qs_stack s t) (qgo u WorkerLoop [] (s\<lparr>qs_started := u\<rparr>))
      else raise_in t s)"

definition threads_push_back :: "nat \<Rightarrow> 'a list \<Rightarrow> nat \<Rightarrow> 'a sorter \<Rightarrow> 'a sorter" where
  "threads_push_back t higher u s = qgo t (Call higher) (qs_stack s t) (s\<lparr>qs_threads := qs_threads s @ [u]\<rparr>)"

definition do_return :: "nat \<Rightarrow> 'a list \<Rightarrow> 'a sorter \<Rightarrow> 'a sorter" where
  "do_return t result s =
     (case qs_stack s t of
        [] \<Rightarrow> qgo t (Finished result) [] s
      | Higher future pivot # st \<Rightarrow> qgo t Wait (Lower future (pivot # result) # st) s
      | SortChunk promise k # st \<Rightarrow> qgo t (behind_try st) st (s\<lparr>qs_promises := (qs_promises s)(promise \<mapsto> Ready result)\<rparr>)
      | Lower future r # st \<Rightarrow> s)"

definition do_wait :: "nat \<Rightarrow> 'a sorter \<Rightarrow> 'a sorter" where
  "do_wait t s =
     (case qs_stack s t of
        Lower future result # st \<Rightarrow> (case qs_promises s future of
            Some (Ready lower) \<Rightarrow> qgo t (Return (lower @ result)) st s
          | Some Broken \<Rightarrow> raise_in t s   \<comment> \<open>\<open>get\<close> throws\<close>
          | None \<Rightarrow> qgo t TrySort (qs_stack s t) s)
      | _ \<Rightarrow> s)"

definition try_sort_chunk :: "nat \<Rightarrow> 'a sorter \<Rightarrow> 'a sorter" where
  "try_sort_chunk t s =
     (case chunk_pop (qs_chunks s) of
        None \<Rightarrow> qgo t (behind_try (qs_stack s t)) (qs_stack s t) s
      | Some ((promise, xs), cs) \<Rightarrow>
          qgo t (Call xs) (SortChunk promise (qs_next s) # qs_stack s t) (s\<lparr>qs_chunks := cs\<rparr>))"

text \<open>The destructor: \<open>end_of_data\<close>, then a join of each thread in the vector.\<close>

definition all_joined :: "'a sorter \<Rightarrow> bool" where
  "all_joined s \<longleftrightarrow> list_all (\<lambda>u. qs_control s u = Gone) (qs_threads s)"

text \<open>An event is a thread and whether the constructor of \<open>std::thread\<close>, if that is what it does next, does not throw.\<close>

fun qs_step :: "'a::linorder partitioner \<Rightarrow> 32 word \<Rightarrow> nat \<times> bool \<Rightarrow> 'a sorter \<Rightarrow> 'a sorter" where
  "qs_step part hw (t, ok) s =
     (if qs_race s \<or> qs_terminated s then s else
      case qs_control s t of
        Call xs \<Rightarrow> do_sort_enter part t xs s
      | Spawn xs \<Rightarrow> do_sort_spawn hw t xs s
      | Create xs \<Rightarrow> create_thread ok t xs s
      | Append xs u \<Rightarrow> qgo t (Appending xs u) (qs_stack s t) (threads_access t s)
      | Appending xs u \<Rightarrow> threads_push_back t xs u s
      | Return ys \<Rightarrow> do_return t ys s
      | Wait \<Rightarrow> do_wait t s
      | TrySort \<Rightarrow> try_sort_chunk t s
      | WorkerLoop \<Rightarrow> qgo t (if qs_end_of_data s then Gone else TrySort) [] s
      | Finished ys \<Rightarrow> qgo t (Joining ys) [] (s\<lparr>qs_end_of_data := True\<rparr>)
      | Joining ys \<Rightarrow> if all_joined s then qgo t (Returned ys) [] (threads_access t s) else threads_access t s
      | Failed \<Rightarrow> qgo t JoiningFailed [] (s\<lparr>qs_end_of_data := True\<rparr>)
      | JoiningFailed \<Rightarrow> if all_joined s then qgo t Threw [] (threads_access t s) else threads_access t s
      | _ \<Rightarrow> s)"

declare qs_step.simps [simp del]

text \<open>\<open>parallel_quick_sort\<close>: what has become of the call at the end of a schedule.\<close>

datatype 'a sort_outcome = Sorted "'a list" | Exception | Terminates | DataRace | Running

definition parallel_quick_sort :: "'a::linorder partitioner \<Rightarrow> 32 word \<Rightarrow> (nat \<times> bool) list \<Rightarrow> 'a list \<Rightarrow> 'a sort_outcome" where
  "parallel_quick_sort part hw es input =
     (if input = [] then Sorted input
      else let s = run_sched (qs_step part hw) es (qs_start input)
        in if qs_race s then DataRace
           else if qs_terminated s then Terminates
           else (case qs_control s 0 of Returned v \<Rightarrow> Sorted v | Threw \<Rightarrow> Exception | _ \<Rightarrow> Running))"

section \<open>Results\<close>

text \<open>What will be returned into a stack of activations: \<open>b\<close> is \<open>Some\<close> the caller's result for thread 0, and
  \<open>None\<close> for a worker, whose stack ends in a chunk.\<close>

fun returns :: "'a list option \<Rightarrow> (nat \<Rightarrow> 'a list) \<Rightarrow> 'a list \<Rightarrow> 'a activation list \<Rightarrow> bool" where
  "returns b w v [] \<longleftrightarrow> b = Some v"
| "returns b w v (Higher f p # st) \<longleftrightarrow> returns b w (w f @ p # v) st"
| "returns b w v (SortChunk c k # st) \<longleftrightarrow> v = w c \<and>
     (case st of [] \<Rightarrow> b = None | Lower f r # st' \<Rightarrow> returns b w (w f @ r) st' | _ \<Rightarrow> False)"
| "returns b w v (Lower f r # st) \<longleftrightarrow> False"

definition resumes :: "'a list option \<Rightarrow> (nat \<Rightarrow> 'a list) \<Rightarrow> 'a activation list \<Rightarrow> bool" where
  "resumes b w st \<longleftrightarrow> (case st of [] \<Rightarrow> b = None | Lower f r # st' \<Rightarrow> returns b w (w f @ r) st' | _ \<Rightarrow> False)"

lemma returns_chunk [simp]: "returns b w v (SortChunk c k # st) \<longleftrightarrow> v = w c \<and> resumes b w st"
  by (simp add: resumes_def)

declare returns.simps(3) [simp del]

fun thread_ok :: "'a::linorder list option \<Rightarrow> (nat \<Rightarrow> 'a list) \<Rightarrow> 'a control \<Rightarrow> 'a activation list \<Rightarrow> bool" where
  "thread_ok b w (Call xs) st \<longleftrightarrow> returns b w (sort xs) st"
| "thread_ok b w (Spawn xs) st \<longleftrightarrow> returns b w (sort xs) st"
| "thread_ok b w (Create xs) st \<longleftrightarrow> returns b w (sort xs) st"
| "thread_ok b w (Append xs u) st \<longleftrightarrow> 0 < u \<and> returns b w (sort xs) st"
| "thread_ok b w (Appending xs u) st \<longleftrightarrow> 0 < u \<and> returns b w (sort xs) st"
| "thread_ok b w (Return v) st \<longleftrightarrow> returns b w v st"
| "thread_ok b w Wait st \<longleftrightarrow> st \<noteq> [] \<and> resumes b w st"
| "thread_ok b w TrySort st \<longleftrightarrow> resumes b w st"
| "thread_ok b w WorkerLoop st \<longleftrightarrow> st = [] \<and> b = None"
| "thread_ok b w (Finished v) st \<longleftrightarrow> st = [] \<and> b = Some v"
| "thread_ok b w (Joining v) st \<longleftrightarrow> st = [] \<and> b = Some v"
| "thread_ok b w (Returned v) st \<longleftrightarrow> st = [] \<and> b = Some v"
| "thread_ok b w Failed st \<longleftrightarrow> st = [] \<and> b \<noteq> None"
| "thread_ok b w JoiningFailed st \<longleftrightarrow> st = [] \<and> b \<noteq> None"
| "thread_ok b w Threw st \<longleftrightarrow> st = [] \<and> b \<noteq> None"
| "thread_ok b w Gone st \<longleftrightarrow> st = [] \<and> b = None"

text \<open>The futures and chunks in a stack, and the order in which they were made: a future is made by the innermost
  chunk's activation below it, after that began; a chunk exists before its activation begins.\<close>

primrec age :: "'a activation list \<Rightarrow> nat" where
  "age [] = 0"
| "age (a # st) = (case a of SortChunk c k \<Rightarrow> k | _ \<Rightarrow> age st)"

primrec aged :: "nat \<Rightarrow> 'a activation list \<Rightarrow> bool" where
  "aged n [] \<longleftrightarrow> True"
| "aged n (a # st) \<longleftrightarrow> aged n st \<and> (case a of
     Higher f p \<Rightarrow> age st \<le> f \<and> f < n | Lower f r \<Rightarrow> age st \<le> f \<and> f < n | SortChunk c k \<Rightarrow> c < k \<and> age st \<le> k \<and> k \<le> n)"

definition result_of :: "'a::linorder list \<Rightarrow> nat \<Rightarrow> 'a list option" where
  "result_of input t = (if t = 0 then Some (sort input) else None)"

fun ending :: "'a control \<Rightarrow> bool" where
  "ending (Joining v) = True"
| "ending (Returned v) = True"
| "ending JoiningFailed = True"
| "ending Threw = True"
| "ending Gone = True"
| "ending _ = False"

definition qs_inv :: "'a::linorder list \<Rightarrow> 'a sorter \<Rightarrow> bool" where
  "qs_inv input s \<longleftrightarrow>
     (\<forall>t. thread_ok (result_of input t) (qs_want s) (qs_control s t) (qs_stack s t))
     \<and> (\<forall>t. qs_started s < t \<longrightarrow> qs_control s t = Gone \<and> qs_stack s t = [])
     \<and> 0 \<notin> set (qs_threads s)
     \<and> (\<forall>t. aged (qs_next s) (qs_stack s t))
     \<and> (\<forall>(c, xs) \<in> set (qs_chunks s). c < qs_next s \<and> qs_want s c = sort xs)
     \<and> (\<forall>c r. qs_promises s c = Some r \<longrightarrow> c < qs_next s \<and> (r = Ready (qs_want s c) \<or> r = Broken))
     \<and> (\<forall>c < qs_next s. qs_promises s c \<noteq> None \<or> c \<in> fst ` set (qs_chunks s)
           \<or> (\<exists>t k. SortChunk c k \<in> set (qs_stack s t)))
     \<and> (qs_end_of_data s \<longleftrightarrow> ending (qs_control s 0))"

lemma result_of_simps [simp]: "result_of input 0 = Some (sort input)" "result_of input (Suc t) = None"
  by (simp_all add: result_of_def)

lemma aged_mono: "aged n st \<Longrightarrow> n \<le> m \<Longrightarrow> aged m st"
  by (induction st) (auto split: activation.splits)

lemma aged_age: "aged n st \<Longrightarrow> age st \<le> n"
  by (induction st) (auto split: activation.splits)

text \<open>A new future changes nothing for the stacks that are there.\<close>

lemma returns_new:
  assumes "aged n st"
  shows "returns b (w(n := x)) v st = returns b w v st" and "resumes b (w(n := x)) st = resumes b w st"
proof -
  have "returns b (w(n := x)) v st = returns b w v st \<and> resumes b (w(n := x)) st = resumes b w st"
    using assms
  proof (induction st arbitrary: v)
    case (Cons a st)
    then show ?case
      by (cases a) (auto simp: resumes_def)
  qed (simp add: resumes_def)
  then show "returns b (w(n := x)) v st = returns b w v st" and "resumes b (w(n := x)) st = resumes b w st" by blast+
qed

lemma thread_ok_new: "aged n st \<Longrightarrow> thread_ok b (w(n := x)) c st = thread_ok b w c st"
  by (cases c) (simp_all add: returns_new)

text \<open>The step of quicksort.\<close>

lemma sort_split:
  fixes pivot :: "'a::linorder"
  assumes "partitions part"
  shows "sort (fst (part (\<lambda>val. val < pivot) rest)) @ pivot # sort (snd (part (\<lambda>val. val < pivot) rest)) = sort (pivot # rest)"
proof (rule properties_for_sort [symmetric])
  let ?P = "\<lambda>val. val < pivot"
  have m: "mset (fst (part ?P rest)) + mset (snd (part ?P rest)) = mset rest"
    and lo: "\<forall>x \<in> set (fst (part ?P rest)). x < pivot" and hi: "\<forall>x \<in> set (snd (part ?P rest)). \<not> x < pivot"
    using assms [unfolded partitions_def, THEN spec, THEN spec, of ?P rest] by blast+
  show "mset (sort (fst (part ?P rest)) @ pivot # sort (snd (part ?P rest))) = mset (pivot # rest)"
    by (simp add: m)
  show "sorted (sort (fst (part ?P rest)) @ pivot # sort (snd (part ?P rest)))"
    unfolding sorted_append
  proof (intro conjI ballI)
    show "sorted (sort (fst (part ?P rest)))" by simp
    show "sorted (pivot # sort (snd (part ?P rest)))" using hi by (simp add: not_less)
    fix x y assume "x \<in> set (sort (fst (part ?P rest)))" "y \<in> set (pivot # sort (snd (part ?P rest)))"
    with lo hi have "x < pivot" "pivot \<le> y" by (auto simp: not_less)
    then show "x \<le> y" by simp
  qed
qed

section \<open>The invariant\<close>

lemma qs_facts:
  assumes "qs_inv input s"
  shows "thread_ok (result_of input t) (qs_want s) (qs_control s t) (qs_stack s t)"
    and "aged (qs_next s) (qs_stack s t)"
    and "qs_control s t \<noteq> Gone \<Longrightarrow> t \<le> qs_started s"
    and "qs_stack s t \<noteq> [] \<Longrightarrow> t \<le> qs_started s"
    and "t = 0 \<Longrightarrow> \<not> ending (qs_control s t) \<Longrightarrow> \<not> qs_end_of_data s"
    and "0 \<notin> set (qs_threads s)"
proof -
  show "thread_ok (result_of input t) (qs_want s) (qs_control s t) (qs_stack s t)"
    using assms by (simp add: qs_inv_def)
  show "aged (qs_next s) (qs_stack s t)" using assms by (simp add: qs_inv_def)
  have far: "qs_started s < t \<longrightarrow> qs_control s t = Gone \<and> qs_stack s t = []" using assms by (simp add: qs_inv_def)
  then show "qs_control s t \<noteq> Gone \<Longrightarrow> t \<le> qs_started s" and "qs_stack s t \<noteq> [] \<Longrightarrow> t \<le> qs_started s" by auto
  show "t = 0 \<Longrightarrow> \<not> ending (qs_control s t) \<Longrightarrow> \<not> qs_end_of_data s"
    using assms unfolding qs_inv_def by blast
  show "0 \<notin> set (qs_threads s)" using assms by (simp add: qs_inv_def)
qed

lemma ending_Gone: "\<not> ending c \<Longrightarrow> c \<noteq> Gone"
  by auto

lemma qs_move:
  assumes inv: "qs_inv input s" and live: "\<not> ending (qs_control s t)"
    and cs: "qs_control s' = (qs_control s)(t := c)" "qs_stack s' = (qs_stack s)(t := st)"
    and same: "qs_started s' = qs_started s" "qs_next s' = qs_next s" "qs_want s' = qs_want s"
      "qs_end_of_data s' = qs_end_of_data s" "0 \<notin> set (qs_threads s')"
    and ok: "thread_ok (result_of input t) (qs_want s) c st" "aged (qs_next s) st" "t = 0 \<Longrightarrow> \<not> ending c"
    and chunks: "set (qs_chunks s') \<subseteq> set (qs_chunks s)"
    and proms: "\<And>d r. qs_promises s' d = Some r \<Longrightarrow> qs_promises s d = Some r \<or> d < qs_next s \<and> (r = Ready (qs_want s d) \<or> r = Broken)"
    and kept: "\<And>d. qs_promises s d \<noteq> None \<Longrightarrow> qs_promises s' d \<noteq> None"
      "\<And>d. d \<in> fst ` set (qs_chunks s) \<Longrightarrow> d \<in> fst ` set (qs_chunks s') \<or> (\<exists>k. SortChunk d k \<in> set st)"
      "\<And>d k. SortChunk d k \<in> set (qs_stack s t) \<Longrightarrow> SortChunk d k \<in> set st \<or> qs_promises s' d \<noteq> None"
  shows "qs_inv input s'"
proof -
  have t: "t \<le> qs_started s" using qs_facts(3) [OF inv ending_Gone [OF live]] .
  have nend: "t = 0 \<Longrightarrow> \<not> qs_end_of_data s" using qs_facts(5) [OF inv _ live] .
  have hold: "qs_promises s' d \<noteq> None \<or> d \<in> fst ` set (qs_chunks s') \<or> (\<exists>u k. SortChunk d k \<in> set (qs_stack s' u))"
    if "d < qs_next s" for d
  proof -
    have "qs_promises s d \<noteq> None \<or> d \<in> fst ` set (qs_chunks s) \<or> (\<exists>u k. SortChunk d k \<in> set (qs_stack s u))"
      using inv that unfolding qs_inv_def by blast
    then show ?thesis
    proof (elim disjE exE)
      assume "qs_promises s d \<noteq> None" then show ?thesis using kept(1) by blast
    next
      assume "d \<in> fst ` set (qs_chunks s)"
      then show ?thesis using kept(2) [of d] cs(2) by (metis fun_upd_same)
    next
      fix u k assume u: "SortChunk d k \<in> set (qs_stack s u)"
      show ?thesis
      proof (cases "u = t")
        case True
        with u kept(3) [of d k] cs(2) show ?thesis by (metis fun_upd_same)
      next
        case False
        with u cs(2) have "SortChunk d k \<in> set (qs_stack s' u)" by simp
        then show ?thesis by blast
      qed
    qed
  qed
  have th: "thread_ok (result_of input u) (qs_want s') (qs_control s' u) (qs_stack s' u)" for u
    using qs_facts(1) [OF inv, of u] ok(1) by (simp add: cs same)
  have ag: "aged (qs_next s') (qs_stack s' u)" for u using qs_facts(2) [OF inv, of u] ok(2) by (simp add: cs same)
  have far: "qs_control s' u = Gone \<and> qs_stack s' u = []" if "qs_started s' < u" for u
    using inv that t by (simp add: cs same qs_inv_def)
  have ch: "d < qs_next s' \<and> qs_want s' d = sort xs" if "(d, xs) \<in> set (qs_chunks s')" for d xs
    using inv that chunks unfolding qs_inv_def same by blast
  have pr: "d < qs_next s' \<and> (r = Ready (qs_want s' d) \<or> r = Broken)" if "qs_promises s' d = Some r" for d r
    using inv proms [OF that] unfolding qs_inv_def same by blast
  have fin: "qs_end_of_data s' \<longleftrightarrow> ending (qs_control s' 0)"
  proof (cases "t = 0")
    case True
    with nend ok(3) show ?thesis by (simp add: cs same)
  next
    case False
    then show ?thesis using inv by (simp add: cs same qs_inv_def)
  qed
  show ?thesis unfolding qs_inv_def using th ag far ch pr fin hold same(2,5)
    by auto
qed

text \<open>What the race flag and a termination leave alone.\<close>

lemma flag_keeps: "qs_inv input (s\<lparr>qs_race := b\<rparr>) \<longleftrightarrow> qs_inv input s" "qs_inv input (s\<lparr>qs_terminated := b\<rparr>) \<longleftrightarrow> qs_inv input s"
  by (simp_all add: qs_inv_def)

lemma access_keeps: "qs_inv input (threads_access t s) \<longleftrightarrow> qs_inv input s"
  by (simp add: threads_access_def flag_keeps)

lemma threads_access_simps [simp]:
  "qs_control (threads_access t s) = qs_control s" "qs_stack (threads_access t s) = qs_stack s" "qs_chunks (threads_access t s) = qs_chunks s"
  "qs_promises (threads_access t s) = qs_promises s" "qs_next (threads_access t s) = qs_next s" "qs_threads (threads_access t s) = qs_threads s"
  "qs_started (threads_access t s) = qs_started s" "qs_end_of_data (threads_access t s) = qs_end_of_data s"
  "qs_want (threads_access t s) = qs_want s" "qs_terminated (threads_access t s) = qs_terminated s"
  by (simp_all add: threads_access_def)

lemma enter_keeps:
  assumes inv: "qs_inv input s" and part: "partitions part" and c: "qs_control s t = Call xs"
  shows "qs_inv input (do_sort_enter part t xs s)"
proof (cases xs)
  case Nil
  have "thread_ok (result_of input t) (qs_want s) (Call xs) (qs_stack s t)" using qs_facts(1) [OF inv, of t] c by simp
  then show ?thesis using Nil c qs_facts(2) [OF inv, of t] qs_facts(6) [OF inv]
    by (intro qs_move [OF inv, of t _ "Return []" "qs_stack s t"]) (simp_all add: do_sort_enter_def)
next
  case (Cons pivot rest)
  define lo where "lo = fst (part (\<lambda>val. val < pivot) rest)"
  define hi where "hi = snd (part (\<lambda>val. val < pivot) rest)"
  define n where "n = qs_next s"
  let ?s = "qgo t (Spawn hi) (Higher n pivot # qs_stack s t)
      (s\<lparr>qs_chunks := (n, lo) # qs_chunks s, qs_next := Suc n, qs_want := (qs_want s)(n := sort lo)\<rparr>)"
  have eq: "do_sort_enter part t xs s = ?s"
    by (simp add: do_sort_enter_def Cons lo_def hi_def n_def split_beta Let_def)
  have t: "t \<le> qs_started s" using qs_facts(3) [OF inv, of t] c by simp
  have end0: "t = 0 \<Longrightarrow> \<not> qs_end_of_data s" using qs_facts(5) [OF inv, of t] c by simp
  have srt: "sort lo @ pivot # sort hi = sort xs" using sort_split [OF part] by (simp add: lo_def hi_def Cons)
  have ok: "thread_ok (result_of input u) (qs_want ?s) (qs_control ?s u) (qs_stack ?s u)" for u
  proof (cases "u = t")
    case True
    have "returns (result_of input t) (qs_want s) (sort xs) (qs_stack s t)"
      using qs_facts(1) [OF inv, of t] c by simp
    then show ?thesis using True srt qs_facts(2) [OF inv, of t] by (simp add: returns_new n_def)
  next
    case False
    then show ?thesis using qs_facts(1,2) [OF inv, of u] by (simp add: thread_ok_new n_def)
  qed
  have ag: "aged (Suc n) (qs_stack ?s u)" for u
    using aged_mono [OF qs_facts(2) [OF inv], of "Suc n"] aged_age [OF qs_facts(2) [OF inv, of t]]
    by (cases "u = t") (simp_all add: n_def)
  have hold: "qs_promises ?s d \<noteq> None \<or> d \<in> fst ` set (qs_chunks ?s) \<or> (\<exists>u k. SortChunk d k \<in> set (qs_stack ?s u))"
    if "d < Suc n" for d
  proof (cases "d = n")
    case False
    with that have "d < qs_next s" by (simp add: n_def)
    then have "qs_promises s d \<noteq> None \<or> d \<in> fst ` set (qs_chunks s) \<or> (\<exists>u k. SortChunk d k \<in> set (qs_stack s u))"
      using inv unfolding qs_inv_def by blast
    then show ?thesis by (auto simp: fun_upd_def)
  qed simp
  have ch: "d < Suc n \<and> (qs_want ?s) d = sort ys" if "(d, ys) \<in> set (qs_chunks ?s)" for d ys
  proof -
    have "(d, ys) = (n, lo) \<or> d < n \<and> qs_want s d = sort ys" using inv that by (auto simp: qs_inv_def n_def)
    then show ?thesis by auto
  qed
  have pr: "d < Suc n \<and> (r = Ready ((qs_want ?s) d) \<or> r = Broken)" if "qs_promises ?s d = Some r" for d r
  proof -
    have "qs_promises s d = Some r" using that by simp
    then have "d < n \<and> (r = Ready (qs_want s d) \<or> r = Broken)" using inv unfolding qs_inv_def n_def by blast
    then show ?thesis by auto
  qed
  have far: "qs_control ?s u = Gone \<and> qs_stack ?s u = []" if "qs_started s < u" for u
    using inv that t by (simp add: qs_inv_def)
  have fin: "qs_end_of_data ?s \<longleftrightarrow> ending (qs_control ?s 0)"
    using inv end0 by (auto simp: qs_inv_def)
  have next': "qs_next ?s = Suc n" "qs_threads ?s = qs_threads s" "qs_started ?s = qs_started s" by simp_all
  show ?thesis unfolding eq qs_inv_def next'
    using ok ag hold ch pr far fin qs_facts(6) [OF inv] by blast
qed

lemma spawn_keeps:
  assumes inv: "qs_inv input s" and c: "qs_control s t = Spawn xs"
  shows "qs_inv input (do_sort_spawn hw t xs s)"
  using qs_facts(1,2) [OF inv, of t] qs_facts(6) [OF inv] c
  by (intro qs_move [OF inv, of t _ "if length (qs_threads s) < max_thread_count hw then Create xs else Call xs" "qs_stack s t"])
    (simp_all add: do_sort_spawn_def)

lemma raise_keeps:
  assumes inv: "qs_inv input s" and live: "\<not> ending (qs_control s t)"
  shows "qs_inv input (raise_in t s)"
proof (cases "t = 0")
  case True
  have held: "holds_chunk st d \<longleftrightarrow> (\<exists>k. SortChunk d k \<in> set st)" for st :: "'a activation list" and d
    by (induction st) (auto simp: holds_chunk_def split: activation.splits)
  have old: "d < qs_next s" if "SortChunk d k \<in> set (qs_stack s 0)" for d k
  proof -
    have "aged n st \<Longrightarrow> SortChunk d k \<in> set st \<Longrightarrow> d < n" for n and st :: "'a activation list"
      by (induction st) (auto split: activation.splits)
    then show ?thesis using that qs_facts(2) [OF inv] by blast
  qed
  have "qs_inv input (raise_in 0 s)"
    by (rule qs_move [OF inv, of 0 _ Failed "[]"])
      (use True live old qs_facts(6) [OF inv] in \<open>auto simp: raise_in_def held split: if_splits\<close>)
  then show ?thesis by (simp add: True)
next
  case False
  then show ?thesis using inv by (simp add: raise_in_def flag_keeps)
qed

lemma create_keeps:
  assumes inv: "qs_inv input s" and c: "qs_control s t = Create xs"
  shows "qs_inv input (create_thread ok t xs s)"
proof (cases ok)
  case False
  then show ?thesis using raise_keeps [OF inv, of t] c by (simp add: create_thread_def)
next
  case True
  define u where "u = Suc (qs_started s)"
  define s1 where "s1 = qgo u WorkerLoop [] (s\<lparr>qs_started := u\<rparr>)"
  have t: "t \<le> qs_started s" using qs_facts(3) [OF inv, of t] c by simp
  have new: "qs_control s u = Gone" "qs_stack s u = []" using inv by (simp_all add: qs_inv_def u_def)
  then have st: "qs_stack s1 = qs_stack s" by (simp add: s1_def fun_upd_idem)
  have inv1: "qs_inv input s1"
    using inv unfolding qs_inv_def st by (simp add: s1_def u_def)
  have c1: "qs_control s1 t = Create xs" using c t by (simp add: s1_def u_def)
  have "create_thread ok t xs s = qgo t (Append xs u) (qs_stack s1 t) s1"
    using True t by (simp add: create_thread_def s1_def u_def Let_def)
  then show ?thesis using c1 qs_facts(1,2) [OF inv1, of t] qs_facts(6) [OF inv1]
    by (intro qs_move [OF inv1, of t _ "Append xs u" "qs_stack s1 t"]) (simp_all add: u_def)
qed

lemma append_keeps:
  assumes inv: "qs_inv input s" and c: "qs_control s t = Append xs u"
  shows "qs_inv input (qgo t (Appending xs u) (qs_stack s t) (threads_access t s))"
  using qs_facts(1,2) [OF inv, of t] qs_facts(6) [OF inv] c
  by (intro qs_move [OF inv, of t _ "Appending xs u" "qs_stack s t"]) simp_all

lemma push_back_keeps:
  assumes inv: "qs_inv input s" and c: "qs_control s t = Appending xs u"
  shows "qs_inv input (threads_push_back t xs u s)"
  using qs_facts(1,2) [OF inv, of t] qs_facts(6) [OF inv] c
  by (intro qs_move [OF inv, of t _ "Call xs" "qs_stack s t"]) (simp_all add: threads_push_back_def)

lemma return_keeps:
  assumes inv: "qs_inv input s" and c: "qs_control s t = Return ys"
  shows "qs_inv input (do_return t ys s)"
proof -
  have ok: "returns (result_of input t) (qs_want s) ys (qs_stack s t)" and ag: "aged (qs_next s) (qs_stack s t)"
    and nz: "0 \<notin> set (qs_threads s)"
    using qs_facts(1,2) [OF inv, of t] qs_facts(6) [OF inv] c by simp_all
  show ?thesis
  proof (cases "qs_stack s t")
    case Nil
    with ok c nz show ?thesis
      by (intro qs_move [OF inv, of t _ "Finished ys" "[]"]) (simp_all add: do_return_def)
  next
    case (Cons a st)
    show ?thesis
    proof (cases a)
      case (Higher f p)
      have "do_return t ys s = qgo t Wait (Lower f (p # ys) # st) s" using Cons Higher by (simp add: do_return_def)
      then show ?thesis using Cons Higher ok ag c nz
        by (intro qs_move [OF inv, of t _ Wait "Lower f (p # ys) # st"]) (auto simp: resumes_def)
    next
      case (SortChunk d k)
      have ok': "ys = qs_want s d" "resumes (result_of input t) (qs_want s) st" using ok Cons SortChunk by simp_all
      have d: "d < qs_next s" "aged (qs_next s) st" using ag Cons SortChunk by simp_all
      have after_try: "thread_ok (result_of input t) (qs_want s) (behind_try st) st"
        using ok'(2) by (cases st) (simp_all add: behind_try_def resumes_def)
      show ?thesis
        by (rule qs_move [OF inv, of t _ "behind_try st" st])
          (use Cons SortChunk c after_try d ok' nz in \<open>auto simp: do_return_def behind_try_def split: if_splits\<close>)
    next
      case (Lower f r)
      with ok Cons show ?thesis by simp
    qed
  qed
qed

lemma wait_keeps:
  assumes inv: "qs_inv input s" and c: "qs_control s t = Wait"
  shows "qs_inv input (do_wait t s)"
proof -
  have ok: "resumes (result_of input t) (qs_want s) (qs_stack s t)" "qs_stack s t \<noteq> []"
    and ag: "aged (qs_next s) (qs_stack s t)" and nz: "0 \<notin> set (qs_threads s)"
    using qs_facts(1,2) [OF inv, of t] qs_facts(6) [OF inv] c by simp_all
  then obtain f r st where st: "qs_stack s t = Lower f r # st" "returns (result_of input t) (qs_want s) (qs_want s f @ r) st"
    by (auto simp: resumes_def split: list.splits activation.splits)
  show ?thesis
  proof (cases "qs_promises s f")
    case None
    with st c ok ag nz show ?thesis
      by (intro qs_move [OF inv, of t _ TrySort "qs_stack s t"]) (simp_all add: do_wait_def)
  next
    case (Some state)
    show ?thesis
    proof (cases state)
      case Broken
      then show ?thesis using Some st c raise_keeps [OF inv, of t] by (simp add: do_wait_def)
    next
      case (Ready lower)
      have "state = Ready (qs_want s f) \<or> state = Broken" using inv Some unfolding qs_inv_def by blast
      with Ready have "lower = qs_want s f" by simp
      with Ready Some st c ag nz show ?thesis
        by (intro qs_move [OF inv, of t _ "Return (lower @ r)" st]) (auto simp: do_wait_def)
    qed
  qed
qed

lemma try_keeps:
  assumes inv: "qs_inv input s" and c: "qs_control s t = TrySort"
  shows "qs_inv input (try_sort_chunk t s)"
proof -
  have ok: "resumes (result_of input t) (qs_want s) (qs_stack s t)" and ag: "aged (qs_next s) (qs_stack s t)"
    and nz: "0 \<notin> set (qs_threads s)"
    using qs_facts(1,2) [OF inv, of t] qs_facts(6) [OF inv] c by simp_all
  show ?thesis
  proof (cases "qs_chunks s")
    case Nil
    have "thread_ok (result_of input t) (qs_want s) (behind_try (qs_stack s t)) (qs_stack s t)"
      using ok by (cases "qs_stack s t") (simp_all add: behind_try_def resumes_def)
    with Nil c ag nz show ?thesis
      by (intro qs_move [OF inv, of t _ "behind_try (qs_stack s t)" "qs_stack s t"])
        (auto simp: try_sort_chunk_def behind_try_def)
  next
    case (Cons dx cs)
    obtain d xs where dx: "dx = (d, xs)" by (cases dx)
    then have d: "d < qs_next s" "qs_want s d = sort xs" using inv Cons by (auto simp: qs_inv_def)
    show ?thesis
      by (rule qs_move [OF inv, of t _ "Call xs" "SortChunk d (qs_next s) # qs_stack s t"])
        (use Cons dx c ok ag d nz aged_age [OF ag] in \<open>auto simp: try_sort_chunk_def\<close>)
  qed
qed

lemma end_keeps:
  assumes inv: "qs_inv input s" and c: "ending (qs_control s 0)" "ending c'" "qs_stack s 0 = []" "thread_ok (Some (sort input)) (qs_want s) c' []"
  shows "qs_inv input (qgo 0 c' [] s)"
proof -
  have st: "(qs_stack s)(0 := []) = qs_stack s" using c(3) by (simp add: fun_upd_idem)
  show ?thesis using inv c unfolding qs_inv_def by (auto simp: st)
qed

lemma main_ends:
  assumes inv: "qs_inv input s" and "qs_control s t \<in> {Finished v, Joining v, Failed, JoiningFailed}"
  shows "t = 0 \<and> qs_stack s t = [] \<and> (qs_control s t \<in> {Finished v, Joining v} \<longrightarrow> v = sort input)"
  using qs_facts(1) [OF inv, of t] assms(2) by (auto simp: result_of_def split: if_splits)

lemma end_of_data_keeps:
  assumes inv: "qs_inv input s" and c: "\<not> ending (qs_control s 0)" "ending c'" "qs_stack s 0 = []" "thread_ok (Some (sort input)) (qs_want s) c' []"
  shows "qs_inv input (qgo 0 c' [] (s\<lparr>qs_end_of_data := True\<rparr>))"
proof -
  have st: "(qs_stack s)(0 := []) = qs_stack s" using c(3) by (simp add: fun_upd_idem)
  show ?thesis using inv c unfolding qs_inv_def by (auto simp: st)
qed

lemma qs_step_keeps:
  assumes inv: "qs_inv input s" and part: "partitions part"
  shows "qs_inv input (qs_step part hw (t, ok) s)"
proof (cases "qs_race s \<or> qs_terminated s")
  case True
  then show ?thesis using inv by (simp add: qs_step.simps)
next
  case False
  show ?thesis
  proof (cases "qs_control s t")
    case WorkerLoop
    then have w: "qs_stack s t = []" "t \<noteq> 0"
      using qs_facts(1) [OF inv, of t] by (auto simp: result_of_def split: if_splits)
    then show ?thesis using WorkerLoop False qs_facts(6) [OF inv]
      by (intro qs_move [OF inv, of t _ "if qs_end_of_data s then Gone else TrySort" "[]"])
        (auto simp: qs_step.simps result_of_def resumes_def)
  next
    case (Finished ys)
    then have f: "t = 0" "qs_stack s 0 = []" "ys = sort input" using main_ends [OF inv, of t ys] by auto
    then show ?thesis using end_of_data_keeps [OF inv, of "Joining ys"] Finished False by (simp add: qs_step.simps)
  next
    case Failed
    then have f: "t = 0" "qs_stack s 0 = []" using main_ends [OF inv, of t] by auto
    then show ?thesis using end_of_data_keeps [OF inv, of JoiningFailed] Failed False by (simp add: qs_step.simps)
  next
    case (Joining ys)
    then have f: "t = 0" "qs_stack s 0 = []" "ys = sort input" using main_ends [OF inv, of t ys] by auto
    have acc: "qs_inv input (threads_access t s)" using inv by (simp add: access_keeps)
    show ?thesis using acc end_keeps [OF acc, of "Returned ys"] Joining False f by (simp add: qs_step.simps)
  next
    case JoiningFailed
    then have f: "t = 0" "qs_stack s 0 = []" using main_ends [OF inv, of t] by auto
    have acc: "qs_inv input (threads_access t s)" using inv by (simp add: access_keeps)
    show ?thesis using acc end_keeps [OF acc, of Threw] JoiningFailed False f by (simp add: qs_step.simps)
  next
    case (Append xs u)
    then show ?thesis using append_keeps [OF inv Append] False by (simp add: qs_step.simps)
  qed (use inv part False in \<open>simp_all add: qs_step.simps enter_keeps spawn_keeps create_keeps push_back_keeps return_keeps wait_keeps try_keeps\<close>)
qed

text \<open>Schedules, for a given partition function.\<close>

definition qs_guarded :: "'a::linorder partitioner \<Rightarrow> 32 word \<Rightarrow> nat \<times> bool \<Rightarrow> 'a sorter \<Rightarrow> 'a sorter" where
  "qs_guarded part hw e s = (if partitions part then qs_step part hw e s else s)"

interpretation qs: interleaving "qs_guarded part hw" "qs_inv input"
  for part hw input
proof unfold_locales
  fix e :: "nat \<times> bool" and s
  assume "qs_inv input s"
  then show "qs_inv input (qs_guarded part hw e s)" by (cases e) (simp add: qs_guarded_def qs_step_keeps)
qed

lemma run_keeps:
  assumes "partitions part" and "qs_inv input s"
  shows "qs_inv input (run_sched (qs_step part hw) es s)"
proof -
  have "run_sched (qs_step part hw) es s = run_sched (qs_guarded part hw) es s"
    by (rule run_sched_cong) (simp add: qs_guarded_def assms(1))
  then show ?thesis using qs.sched_keeps [OF assms(2)] by simp
qed

lemma start_keeps: "qs_inv input (qs_start input)"
  by (auto simp: qs_inv_def qs_start_def result_of_def)

section \<open>Waiting is never circular\<close>





section \<open>Nothing is thrown unless a thread cannot be made\<close>

definition unbroken :: "'a sorter \<Rightarrow> bool" where
  "unbroken s \<longleftrightarrow> \<not> qs_terminated s \<and> (\<forall>d. qs_promises s d \<noteq> Some Broken) \<and> (\<forall>t. qs_control s t \<notin> {Failed, JoiningFailed, Threw})"

lemma unbroken_step:
  assumes "unbroken s"
  shows "unbroken (qs_step part hw (t, True) s)"
proof -
  have ok: "\<not> qs_terminated s" "qs_promises s d \<noteq> Some Broken" "qs_control s u \<notin> {Failed, JoiningFailed, Threw}" for d u
    using assms by (simp_all add: unbroken_def)
  then have fine: "qs_control s u \<noteq> Failed" "qs_control s u \<noteq> JoiningFailed" "qs_control s u \<noteq> Threw" for u by auto
  show ?thesis
  proof (cases "qs_control s t")
    case (Call xs)
    then show ?thesis using ok fine
      by (auto simp: unbroken_def qs_step.simps do_sort_enter_def Let_def split: list.split prod.split)
  next
    case Wait
    then show ?thesis using ok(1,2) fine
      by (auto simp: unbroken_def qs_step.simps do_wait_def split: list.split activation.split option.split promise_state.splits)
  qed (use ok(1,2) fine in \<open>auto simp: unbroken_def qs_step.simps do_sort_spawn_def create_thread_def threads_push_back_def
      do_return_def try_sort_chunk_def behind_try_def Let_def split: list.split activation.split\<close>)
qed

lemma unbroken_run: "\<forall>e \<in> set es. snd e \<Longrightarrow> unbroken s \<Longrightarrow> unbroken (run_sched (qs_step part hw) es s)"
proof (induction es arbitrary: s)
  case (Cons e es)
  obtain t where "e = (t, True)" using Cons.prems(1) by (cases e) auto
  then show ?case using Cons.IH [of "qs_step part hw e s"] Cons.prems unbroken_step [of s part hw t] by simp
qed simp

section \<open>The caller alone\<close>

abbreviation solo :: "'a::linorder partitioner \<Rightarrow> 32 word \<Rightarrow> nat \<Rightarrow> 'a sorter \<Rightarrow> 'a sorter" where
  "solo part hw m s \<equiv> run_sched (qs_step part hw) (replicate m (0, True)) s"

definition alone :: "'a sorter \<Rightarrow> bool" where
  "alone s \<longleftrightarrow> \<not> qs_race s \<and> \<not> qs_terminated s \<and> (\<forall>u. u \<noteq> 0 \<longrightarrow> \<not> appending s u) \<and> (\<forall>d \<ge> qs_next s. qs_promises s d = None)"

lemma aloneD:
  assumes "alone s"
  shows "\<not> qs_race s" and "\<not> qs_terminated s" and "u \<noteq> 0 \<Longrightarrow> \<not> appending s u" and "qs_next s \<le> d \<Longrightarrow> qs_promises s d = None"
    and "threads_access 0 s = s"
proof -
  show D: "\<not> qs_race s" "\<not> qs_terminated s" "u \<noteq> 0 \<Longrightarrow> \<not> appending s u" "qs_next s \<le> d \<Longrightarrow> qs_promises s d = None" for u d
    using assms by (simp_all add: alone_def)
  have "\<not> list_ex (\<lambda>u. u \<noteq> 0 \<and> appending s u) [0..<Suc (qs_started s)]" using D(3) unfolding list_ex_iff by blast
  then show "threads_access 0 s = s" using D(1) unfolding threads_access_def by simp
qed

lemma caller_alone_step: "alone s \<Longrightarrow> qs_step part hw (0, True) s =
    (case qs_control s 0 of
        Call xs \<Rightarrow> do_sort_enter part 0 xs s
      | Spawn xs \<Rightarrow> qgo 0 (if length (qs_threads s) < max_thread_count hw then Create xs else Call xs) (qs_stack s 0) s
      | Create xs \<Rightarrow> create_thread True 0 xs s
      | Append xs u \<Rightarrow> qgo 0 (Appending xs u) (qs_stack s 0) s
      | Appending xs u \<Rightarrow> threads_push_back 0 xs u s
      | Return ys \<Rightarrow> do_return 0 ys s
      | Wait \<Rightarrow> do_wait 0 s
      | TrySort \<Rightarrow> try_sort_chunk 0 s
      | WorkerLoop \<Rightarrow> qgo 0 (if qs_end_of_data s then Gone else TrySort) [] s
      | Finished ys \<Rightarrow> qgo 0 (Joining ys) [] (s\<lparr>qs_end_of_data := True\<rparr>)
      | Joining ys \<Rightarrow> if all_joined s then qgo 0 (Returned ys) [] s else s
      | Failed \<Rightarrow> qgo 0 JoiningFailed [] (s\<lparr>qs_end_of_data := True\<rparr>)
      | JoiningFailed \<Rightarrow> if all_joined s then qgo 0 Threw [] s else s
      | _ \<Rightarrow> s)"
  by (simp add: qs_step.simps aloneD do_sort_spawn_def split: control.split)

lemma alone_moves:
  assumes "alone s" and "qs_control s' = (qs_control s)(0 := c) \<or> qs_control s' = (qs_control s)(u := WorkerLoop, 0 := c)"
    and "qs_race s' = qs_race s" "qs_terminated s' = qs_terminated s" "\<And>d. qs_next s' \<le> d \<Longrightarrow> qs_promises s' d = None"
  shows "alone s'"
proof -
  have "qs_control s u \<noteq> Appending xs w" if "u \<noteq> 0" for u xs w
    using aloneD(3) [OF assms(1) that] by (auto simp: appending_def)
  then show ?thesis
    using assms(2) by (auto simp: alone_def appending_def assms(3-5) aloneD(1,2) [OF assms(1)] split: control.splits if_splits)
qed

definition sorted_by :: "'a::linorder list \<Rightarrow> 'a sorter \<Rightarrow> 'a sorter \<Rightarrow> bool" where
  "sorted_by xs s s' \<longleftrightarrow> qs_control s' 0 = Return (sort xs) \<and> qs_stack s' 0 = qs_stack s 0 \<and> qs_chunks s' = qs_chunks s
     \<and> qs_next s \<le> qs_next s' \<and> (\<forall>d < qs_next s. qs_promises s' d = qs_promises s d) \<and> alone s'"

lemma solo_add: "solo part hw (m + n) s = solo part hw n (solo part hw m s)"
  by (simp add: replicate_add)

lemma solo_Suc: "solo part hw (Suc m) s = solo part hw m (qs_step part hw (0, True) s)"
  by simp

text \<open>Step 4 of \<open>do_sort\<close>, whether or not it makes a thread.\<close>

lemma solo_spawns:
  assumes al: "alone s" and c: "qs_control s 0 = Spawn xs"
  obtains m s' where "s' = solo part hw m s" and "qs_control s' 0 = Call xs" and "qs_stack s' 0 = qs_stack s 0" and "qs_chunks s' = qs_chunks s"
    and "qs_next s' = qs_next s" and "qs_promises s' = qs_promises s" and "alone s'"
proof (cases "length (qs_threads s) < max_thread_count hw")
  case False
  define s' where "s' = qgo 0 (Call xs) (qs_stack s 0) s"
  have run: "s' = solo part hw 1 s" using False c by (simp add: caller_alone_step [OF al] s'_def)
  have al': "alone s'" by (rule alone_moves [OF al, of _ "Call xs"]) (use aloneD(4) [OF al] in \<open>simp_all add: s'_def\<close>)
  show thesis by (rule that [OF run _ _ _ _ _ al']) (simp_all add: s'_def)
next
  case True
  define u where "u = Suc (qs_started s)"
  define s1 where "s1 = qgo 0 (Create xs) (qs_stack s 0) s"
  define s2 where "s2 = qgo 0 (Append xs u) (qs_stack s 0) (qgo u WorkerLoop [] (s1\<lparr>qs_started := u\<rparr>))"
  define s3 where "s3 = qgo 0 (Appending xs u) (qs_stack s 0) s2"
  define s4 where "s4 = threads_push_back 0 xs u s3"
  have a1: "alone s1" by (rule alone_moves [OF al, of _ "Create xs"]) (use aloneD(4) [OF al] in \<open>simp_all add: s1_def\<close>)
  have a2: "alone s2" by (rule alone_moves [OF a1, of _ "Append xs u" u]) (use aloneD(4) [OF a1] in \<open>simp_all add: s2_def\<close>)
  have a3: "alone s3" by (rule alone_moves [OF a2, of _ "Appending xs u"]) (use aloneD(4) [OF a2] in \<open>simp_all add: s3_def\<close>)
  have a4: "alone s4"
    by (rule alone_moves [OF a3, of _ "Call xs"]) (use aloneD(4) [OF a3] in \<open>simp_all add: s4_def threads_push_back_def\<close>)
  have "qs_step part hw (0, True) s = s1" using True c by (simp add: caller_alone_step [OF al] s1_def)
  moreover have "qs_step part hw (0, True) s1 = s2"
    by (simp add: caller_alone_step [OF a1]) (simp add: s1_def s2_def create_thread_def u_def Let_def)
  moreover have "qs_step part hw (0, True) s2 = s3" by (simp add: caller_alone_step [OF a2]) (simp add: s2_def s3_def)
  moreover have "qs_step part hw (0, True) s3 = s4" by (simp add: caller_alone_step [OF a3]) (simp add: s3_def s4_def)
  ultimately have "s4 = solo part hw 4 s" by (simp add: eval_nat_numeral)
  from this show thesis
    by (rule that [OF _ _ _ _ _ _ a4]) (simp_all add: s4_def s3_def s2_def s1_def threads_push_back_def)
qed

lemma solo_sorts:
  assumes part: "partitions part"
  shows "qs_control s 0 = Call xs \<Longrightarrow> alone s \<Longrightarrow> \<exists>m. sorted_by xs s (solo part hw m s)"
proof (induction "length xs" arbitrary: xs s rule: less_induct)
  case less
  note al = less.prems(2)
  show ?case
  proof (cases xs)
    case Nil
    have "alone (qgo 0 (Return []) (qs_stack s 0) s)"
      by (rule alone_moves [OF al, of _ "Return []"]) (use aloneD(4) [OF al] in simp_all)
    then show ?thesis using less.prems Nil
      by (intro exI [of _ 1]) (simp add: sorted_by_def caller_alone_step [OF al] do_sort_enter_def)
  next
    case (Cons pivot rest)
    define lo where "lo = fst (part (\<lambda>val. val < pivot) rest)"
    define hi where "hi = snd (part (\<lambda>val. val < pivot) rest)"
    define n where "n = qs_next s"
    have "mset lo + mset hi = mset rest" using part [unfolded partitions_def, THEN spec, THEN spec] by (simp add: lo_def hi_def)
    then have "size (mset lo) + size (mset hi) = size (mset rest)" by (metis size_union)
    then have len: "length lo < length xs" "length hi < length xs" using Cons by simp_all
    have srt: "sort lo @ pivot # sort hi = sort xs" using sort_split [OF part] by (simp add: lo_def hi_def Cons)
    define s0 where "s0 = solo part hw 1 s"
    have s0: "qs_control s0 0 = Spawn hi" "qs_stack s0 0 = Higher n pivot # qs_stack s 0" "qs_chunks s0 = (n, lo) # qs_chunks s"
      "qs_next s0 = Suc n" "qs_promises s0 = qs_promises s" and al0: "alone s0"
    proof -
      have eq: "s0 = do_sort_enter part 0 xs s" using less.prems(1) by (simp add: s0_def caller_alone_step [OF al])
      show "qs_control s0 0 = Spawn hi" "qs_stack s0 0 = Higher n pivot # qs_stack s 0" "qs_chunks s0 = (n, lo) # qs_chunks s"
        "qs_next s0 = Suc n" "qs_promises s0 = qs_promises s"
        by (simp_all add: eq do_sort_enter_def Cons lo_def hi_def n_def split_beta Let_def)
      show "alone s0" unfolding eq
        by (rule alone_moves [OF al, of _ "Spawn hi"])
          (use aloneD(4) [OF al] in \<open>simp_all add: do_sort_enter_def Cons hi_def split_beta Let_def\<close>)
    qed
    obtain j s1 where j: "s1 = solo part hw j s0"
      and s1: "qs_control s1 0 = Call hi" "qs_stack s1 0 = Higher n pivot # qs_stack s 0" "qs_chunks s1 = (n, lo) # qs_chunks s"
        "qs_next s1 = Suc n" "qs_promises s1 = qs_promises s" "alone s1"
      using solo_spawns [OF al0 s0(1), of part hw] s0 by metis
    obtain a where a: "sorted_by hi s1 (solo part hw a s1)"
      using less.hyps [OF len(2) s1(1,6)] by blast
    define s2 where "s2 = solo part hw a s1"
    have s2: "qs_control s2 0 = Return (sort hi)" "qs_stack s2 0 = Higher n pivot # qs_stack s 0"
      "qs_chunks s2 = (n, lo) # qs_chunks s" "Suc n \<le> qs_next s2" "\<forall>d < Suc n. qs_promises s2 d = qs_promises s d" "alone s2"
      using a s1 by (simp_all add: s2_def sorted_by_def)
    let ?low = "Lower n (pivot # sort hi) # qs_stack s 0"
    define s3a where "s3a = qgo 0 Wait ?low s2"
    define s3b where "s3b = qgo 0 TrySort ?low s3a"
    define s3 where "s3 = qgo 0 (Call lo) (SortChunk n (qs_next s2) # ?low) (s3b\<lparr>qs_chunks := qs_chunks s\<rparr>)"
    have n2: "qs_promises s2 n = None" using s2(5) aloneD(4) [OF al, of n] by (simp add: n_def)
    have al3a: "alone s3a" by (rule alone_moves [OF s2(6), of _ Wait]) (use aloneD(4) [OF s2(6)] in \<open>simp_all add: s3a_def\<close>)
    have al3b: "alone s3b" by (rule alone_moves [OF al3a, of _ TrySort]) (use aloneD(4) [OF al3a] in \<open>simp_all add: s3b_def\<close>)
    have al3: "alone s3" by (rule alone_moves [OF al3b, of _ "Call lo"]) (use aloneD(4) [OF al3b] in \<open>simp_all add: s3_def\<close>)
    have eq3: "s3 = solo part hw 3 s2"
    proof -
      have "qs_step part hw (0, True) s2 = s3a" using s2 by (simp add: caller_alone_step s3a_def do_return_def)
      moreover have "qs_step part hw (0, True) s3a = s3b"
        using n2 by (simp add: caller_alone_step [OF al3a]) (simp add: s3a_def s3b_def do_wait_def)
      moreover have "qs_step part hw (0, True) s3b = s3"
        using s2(3) by (simp add: caller_alone_step [OF al3b]) (simp add: s3a_def s3b_def s3_def try_sort_chunk_def)
      ultimately show ?thesis by (simp add: numeral_3_eq_3)
    qed
    have s3: "qs_control s3 0 = Call lo" "qs_stack s3 0 = SortChunk n (qs_next s2) # ?low" "qs_chunks s3 = qs_chunks s"
      "qs_next s3 = qs_next s2" "qs_promises s3 = qs_promises s2"
      by (simp_all add: s3_def s3b_def s3a_def)
    obtain b where b: "sorted_by lo s3 (solo part hw b s3)"
      using less.hyps [OF len(1) s3(1) al3] by blast
    define s4 where "s4 = solo part hw b s3"
    have s4: "qs_control s4 0 = Return (sort lo)" "qs_stack s4 0 = SortChunk n (qs_next s2) # ?low" "qs_chunks s4 = qs_chunks s"
      "qs_next s2 \<le> qs_next s4" "\<forall>d < qs_next s2. qs_promises s4 d = qs_promises s2 d" "alone s4"
      using b s3 by (simp_all add: s4_def sorted_by_def)
    define s5a where "s5a = qgo 0 Wait ?low (s4\<lparr>qs_promises := (qs_promises s4)(n \<mapsto> Ready (sort lo))\<rparr>)"
    define s5 where "s5 = qgo 0 (Return (sort xs)) (qs_stack s 0) s5a"
    have al5a: "alone s5a"
      by (rule alone_moves [OF s4(6), of _ Wait]) (use aloneD(4) [OF s4(6)] s2(4) s4(4) in \<open>simp_all add: s5a_def\<close>)
    have al5: "alone s5" by (rule alone_moves [OF al5a, of _ "Return (sort xs)"]) (use aloneD(4) [OF al5a] in \<open>simp_all add: s5_def\<close>)
    have eq5: "s5 = solo part hw 2 s4"
    proof -
      have "qs_step part hw (0, True) s4 = s5a" using s4 by (simp add: caller_alone_step s5a_def do_return_def behind_try_def)
      moreover have "qs_step part hw (0, True) s5a = s5"
        using srt by (simp add: caller_alone_step [OF al5a]) (simp add: s5a_def s5_def do_wait_def)
      ultimately show ?thesis by (simp add: numeral_2_eq_2)
    qed
    have "s5 = solo part hw (1 + (j + (a + (3 + (b + 2))))) s"
      by (simp only: solo_add eq3 [symmetric] eq5 [symmetric] s0_def [symmetric] j [symmetric] s2_def [symmetric] s4_def [symmetric])
    moreover have "sorted_by xs s s5" using s4 s2 al5 by (auto simp: sorted_by_def n_def s5_def s5a_def)
    ultimately show ?thesis by metis
  qed
qed

section \<open>Properties\<close>

lemma partition_partitions: "partitions partition"
proof -
  have "mset (filter P xs) + mset (filter (Not \<circ> P) xs) = mset xs" for P and xs :: "'a list"
    by (induction xs) auto
  then show ?thesis by (simp add: partitions_def)
qed

text \<open>(C15) \<open>parallel_quick_sort\<close> sorts: for every valid \<open>std::partition\<close>, every number of cores and every interleaving of the caller and the workers that runs
  without the data race on \<open>threads\<close>, and wherever the creation of a thread fails, a list that
  it returns, behind the join of its workers, is the sorted permutation of its input; and it throws or terminates the program only if a thread could not be created.\<close>
theorem parallel_quick_sort_sorts:
  fixes input :: "'a::linorder list"
  assumes "partitions part" and "r = parallel_quick_sort part hw es input"
  shows "(\<forall>v. r = Sorted v \<longrightarrow> v = sort input \<and> sorted v \<and> mset v = mset input) \<and>
    ((\<forall>e \<in> set es. snd e) \<longrightarrow> r \<noteq> Exception \<and> r \<noteq> Terminates)"
proof -
  let ?s = "run_sched (qs_step part hw) es (qs_start input)"
  have "qs_inv input ?s" by (rule run_keeps [OF assms(1) start_keeps])
  note ok = qs_facts(1) [OF this, of 0]
  have "v = sort input" if "r = Sorted v" for v
  proof (cases "input = []")
    case False
    then have "qs_control ?s 0 = Returned v"
      using that assms(2) by (simp add: parallel_quick_sort_def Let_def split: if_splits control.splits)
    with ok show ?thesis by simp
  qed (use that assms(2) in \<open>simp add: parallel_quick_sort_def\<close>)
  moreover have "r \<noteq> Exception \<and> r \<noteq> Terminates" if "\<forall>e \<in> set es. snd e"
  proof -
    have "unbroken (qs_start input)" by (simp add: unbroken_def qs_start_def)
    then have "unbroken ?s" by (rule unbroken_run [OF that])
    then show ?thesis using assms(2) by (auto simp: unbroken_def parallel_quick_sort_def Let_def split: control.split)
  qed
  ultimately show ?thesis by (metis mset_sort sorted_sort)
qed

text \<open>The caller with one worker, which sorts one of the chunks.\<close>

definition qs_example :: "(nat \<times> bool) list" where
  "qs_example = map (\<lambda>t. (t, True)) (replicate 8 0 @ replicate 12 1 @ replicate 8 0 @ replicate 6 1 @ replicate 4 0 @ [1, 0])"

lemma parallel_quick_sort_sorts_witness:
  "\<exists>v. parallel_quick_sort partition 2 qs_example [2, 3, 1 :: nat] = Sorted v \<and> v = sort [2, 3, 1] \<and> sorted v"
proof -
  have "parallel_quick_sort partition 2 qs_example [2, 3, 1 :: nat] = Sorted [1, 2, 3]" by code_simp
  with parallel_quick_sort_sorts [OF partition_partitions refl, of 2 qs_example "[2, 3, 1 :: nat]"] show ?thesis by blast
qed



text \<open>The caller does not depend on the workers: if it alone runs, it finishes with the sorted list.\<close>
theorem parallel_quick_sort_solo_returns:
  fixes input :: "'a::linorder list"
  assumes "partitions part"
  shows "\<exists>m. qs_control (solo part hw m (qs_start input)) 0 = Finished (sort input)"
proof -
  have "alone (qs_start input)" by (simp add: alone_def qs_start_def appending_def)
  from solo_sorts [OF assms _ this, of input hw]
  obtain m where m: "sorted_by input (qs_start input) (solo part hw m (qs_start input))" by (auto simp: qs_start_def)
  then have al: "alone (solo part hw m (qs_start input))" by (simp add: sorted_by_def)
  have start: "qs_stack (qs_start input) 0 = []" by (simp add: qs_start_def)
  have "qs_control (solo part hw (m + 1) (qs_start input)) 0 = Finished (sort input)"
    unfolding solo_add using m by (simp add: caller_alone_step [OF al] sorted_by_def start do_return_def)
  then show ?thesis by blast
qed

theorem parallel_quick_sort_solo_returns_witness:
  "\<exists>m. qs_control (solo partition 4 m (qs_start [3, 1, 2 :: nat])) 0 = Finished [1, 2, 3]"
  using parallel_quick_sort_solo_returns [OF partition_partitions, of 4 "[3, 1, 2 :: nat]"] by simp

text \<open>The data race: two threads read the size of \<open>threads\<close> and extend it at the same time.  And a thread that cannot be created by a worker: the
  exception leaves \<open>sort_thread\<close> and terminates the program.\<close>

lemma parallel_quick_sort_races:
  "parallel_quick_sort partition 4 (map (\<lambda>t. (t, True)) (replicate 7 0 @ replicate 10 1 @ [0, 0])) [2, 3, 1 :: nat] = DataRace"
  by code_simp

lemma parallel_quick_sort_terminates:
  "parallel_quick_sort partition 4 (map (\<lambda>t. (t, True)) (replicate 7 0 @ replicate 8 1) @ [(1, False)]) [2, 3, 1 :: nat] = Terminates"
  by code_simp

text \<open>The number of workers: with an unknown number of cores, reported as 0, the bound wraps around.\<close>

lemma max_thread_count_wraps: "max_thread_count 0 = 2 ^ 32 - 1"
  by (simp add: max_thread_count_def unsigned_minus_1_eq_mask mask_eq_exp_minus_1)

end
