(* ===== verification/ParallelRanges.thy ===== *)
theory ParallelRanges
  imports Prelude "HOL-Library.Word"
begin

text \<open>
  The algorithms that divide a range among threads.

  \<^item> \<open>parallel_for_each\<close> and \<open>parallel_transform\<close> of modern_cpp_core/patterns/parallel_algorithms.hpp: chunks given to a
    \<open>JThreadPool\<close>, with the 64-bit arithmetic of \<open>std::size_t\<close>.
  \<^item> \<open>parallel_for_each\<close>, \<open>parallel_find\<close> (designConcurrentCode/practice) and \<open>parallel_accumulate\<close>
    (exceptionSafety.cpp): recursive halving with \<open>std::async\<close>.
  \<^item> the two loops of falseSharing.cpp.

  A range is a list; iterators are positions in it.  What runs in parallel is a list of index lists, one per
  task; since a task touches only its own indices, an interleaving is a list of all the indices in which the tasks' orders may be
  mixed, and the statements are about all lists with the same multiset.
\<close>

section \<open>Touching each element once\<close>

text \<open>\<open>f\<close> applied to the elements at these positions, one after the other.\<close>

definition visit :: "('a \<Rightarrow> 'a) \<Rightarrow> nat list \<Rightarrow> 'a list \<Rightarrow> 'a list" where
  "visit f is xs = fold (\<lambda>i ys. ys[i := f (ys ! i)]) is xs"

lemma visit_nth:
  assumes "distinct is" and "j < length xs"
  shows "visit f is xs ! j = (if j \<in> set is then f (xs ! j) else xs ! j)" and "length (visit f is xs) = length xs"
proof -
  have "visit f is ys ! j = (if j \<in> set is then f (ys ! j) else ys ! j) \<and> length (visit f is ys) = length ys"
    if "j < length ys" for ys
    using assms(1) that
  proof (induction "is" arbitrary: ys)
    case (Cons i "is")
    then show ?case using Cons.IH [of "ys[i := f (ys ! i)]"]
      by (cases "j = i") (auto simp: visit_def)
  qed (simp add: visit_def)
  with assms(2) show "visit f is xs ! j = (if j \<in> set is then f (xs ! j) else xs ! j)"
    and "length (visit f is xs) = length xs" by blast+
qed

lemma visit_all:
  assumes "mset is = mset [0..<length xs]"
  shows "visit f is xs = map f xs"
proof (cases "xs = []")
  case False
  have d: "distinct is" using mset_eq_imp_distinct_iff [OF assms] by simp
  have s: "set is = {0..<length xs}" using mset_eq_setD [OF assms] by simp
  show ?thesis
  proof (rule nth_equalityI)
    show "length (visit f is xs) = length (map f xs)" using visit_nth(2) [OF d, of 0 xs] False by simp
    fix j assume "j < length (visit f is xs)"
    then have "j < length xs" using visit_nth(2) [OF d, of 0 xs] False by simp
    then show "visit f is xs ! j = map f xs ! j" using visit_nth(1) [OF d, of j xs f] s by simp
  qed
qed (use assms in \<open>simp add: visit_def\<close>)

text \<open>\<open>parallel_transform\<close> writes to \<open>out_start = d_first + i * chunk_size\<close> on: the same offsets as it reads from.\<close>

definition transform_task ::
  "('a \<Rightarrow> 'b) \<Rightarrow> 'a list \<Rightarrow> nat list \<Rightarrow> 'b list \<Rightarrow> 'b list" where
  "transform_task op xs is out = fold (\<lambda>i ys. ys[i := op (xs ! i)]) is out"

lemma transform_all:
  assumes "mset is = mset [0..<length xs]" and "length out = length xs"
  shows "transform_task op xs is out = map op xs"
proof (rule nth_equalityI)
  have d: "distinct is" using mset_eq_imp_distinct_iff [OF assms(1)] by simp
  have s: "set is = {0..<length xs}" using mset_eq_setD [OF assms(1)] by simp
  have r: "length (transform_task op xs is ys) = length ys \<and>
      (\<forall>j<length ys. transform_task op xs is ys ! j = (if j \<in> set is then op (xs ! j) else ys ! j))" for ys
    using d
  proof (induction "is" arbitrary: ys)
    case (Cons i "is")
    then show ?case using Cons.IH [of "ys[i := op (xs ! i)]"] by (auto simp: transform_task_def nth_list_update)
  qed (simp add: transform_task_def)
  from r [of out] show "length (transform_task op xs is out) = length (map op xs)" using assms(2) by simp
  fix j assume "j < length (transform_task op xs is out)"
  with r [of out] s assms(2) show "transform_task op xs is out ! j = map op xs ! j" by simp
qed

section \<open>Chunks for the pool\<close>

text \<open>\<open>num_chunks\<close>; a zero \<open>chunk_size\<close> divides by zero.\<close>

definition num_chunks :: "64 word \<Rightarrow> 64 word \<Rightarrow> 64 word option" where
  "num_chunks distance chunk_size = (if chunk_size = 0 then None else Some ((distance + chunk_size - 1) div chunk_size))"

definition chunk_range :: "64 word \<Rightarrow> 64 word \<Rightarrow> 64 word \<Rightarrow> 64 word \<Rightarrow> nat list" where
  "chunk_range distance chunk_size n i =
     (let chunk_start = i * chunk_size; chunk_end = (if i = n - 1 then distance else chunk_start + chunk_size)
      in [unat chunk_start..<unat chunk_end])"

text \<open>The tasks given to \<open>pool.execute\<close>, and the initial count of the latch; \<open>None\<close> is undefined behaviour.\<close>

definition for_each_tasks :: "64 word \<Rightarrow> 64 word \<Rightarrow> (nat \<times> nat list list) option" where
  "for_each_tasks distance chunk_size =
     (if distance = 0 then Some (0, [])
      else map_option (\<lambda>n. (unat n, map (\<lambda>i. chunk_range distance chunk_size n (of_nat i)) [0..<unat n]))
        (num_chunks distance chunk_size))"

lemma upt_pieces: "concat (map (\<lambda>i. [i * c..<(i + 1) * c]) [0..<m]) = [0..<m * c]"
proof (induction m)
  case (Suc m)
  have "[0..<m * c + c] = [0..<m * c] @ [m * c..<m * c + c]" by (rule upt_add_eq_append) simp
  moreover have "(m + 1) * c = m * c + c" "Suc m * c = m * c + c" by simp_all
  ultimately show ?case using Suc by (simp only: upt_Suc map_append concat_append if_True zero_le) (simp add: add.commute)
qed simp

lemma small_unat: "m < 2 ^ 64 \<Longrightarrow> unat (of_nat m :: 64 word) = m"
  by (simp add: unat_of_nat take_bit_nat_eq_self)

lemma chunks_cover:
  assumes c: "0 < unat c" and d: "0 < unat d" and small: "unat d + unat c \<le> 2 ^ 64"
  shows "\<exists>n ts. for_each_tasks d c = Some (n, ts) \<and> length ts = n \<and> concat ts = [0..<unat d]"
proof -
  define C D where "C = unat c" and "D = unat d"
  have C: "0 < C" and D: "0 < D" and cd: "D + C \<le> 2 ^ 64" using assms by (simp_all add: C_def D_def)
  have c0: "c \<noteq> 0" "d \<noteq> 0" using c d by auto
  define N where "N = (D + C - 1) div C"
  have sum: "unat (d + c - 1) = D + C - 1"
  proof -
    have "d + c - 1 = of_nat (D + C - 1)" using C by (simp add: C_def D_def of_nat_diff)
    moreover have "D + C - 1 < 2 ^ 64" using cd C by simp
    ultimately show ?thesis by (simp add: unat_of_nat take_bit_nat_eq_self_iff)
  qed
  define n where "n = (d + c - 1) div c"
  have n: "unat n = N" by (simp add: n_def unat_div sum N_def C_def)
  have N: "0 < N" "(N - 1) * C < D" "D \<le> N * C"
  proof -
    show pos: "0 < N" using C D unfolding N_def by (simp add: div_greater_zero_iff)
    have "N * C \<le> D + C - 1" unfolding N_def by simp
    then have "N * C < D + C" using D by simp
    moreover have "C \<le> N * C" using pos by simp
    ultimately have "N * C - C < D" by linarith
    then show "(N - 1) * C < D" by (simp add: diff_mult_distrib)
    have "D + C - 1 < C + N * C" unfolding N_def by (rule dividend_less_div_times) (rule C)
    then show "D \<le> N * C" using C by linarith
  qed
  have r: "chunk_range d c n (of_nat i) = [i * C..<(if i = N - 1 then D else (i + 1) * C)]" if "i < N" for i
  proof -
    have iC: "i * C \<le> (N - 1) * C" using that by (intro mult_le_mono1) simp
    have D64: "D \<le> 2 ^ 64" using cd by linarith
    have lt: "i * C < 2 ^ 64" by (rule less_le_trans [OF le_less_trans [OF iC N(2)] D64])
    have prod: "(of_nat i :: 64 word) * c = of_nat (i * C)" by (simp add: C_def)
    have start: "unat (of_nat i * c) = i * C" unfolding prod by (rule small_unat [OF lt])
    have "unat n < 2 ^ LENGTH(64)" by (rule unsigned_less)
    then have N64: "N < 2 ^ 64" using n by simp
    have last: "of_nat i = n - 1 \<longleftrightarrow> i = N - 1"
    proof -
      have "n - 1 = of_nat (N - 1)" using N(1) by (simp add: n [symmetric] of_nat_diff)
      moreover have "unat (of_nat i :: 64 word) = i" "unat (of_nat (N - 1) :: 64 word) = N - 1"
        using that N64 by (intro small_unat; linarith)+
      then have "(of_nat i :: 64 word) = of_nat (N - 1) \<longleftrightarrow> i = N - 1" by metis
      ultimately show ?thesis by simp
    qed
    show ?thesis
    proof (cases "i = N - 1")
      case True
      with last start show ?thesis by (simp add: chunk_range_def Let_def D_def)
    next
      case False
      then have "(i + 1) * C \<le> (N - 1) * C" using that by (intro mult_le_mono1) simp
      then have "(i + 1) * C < 2 ^ 64" by (rule less_le_trans [OF le_less_trans [OF _ N(2)] D64])
      moreover have step: "of_nat i * c + c = (of_nat ((i + 1) * C) :: 64 word)" by (simp add: C_def algebra_simps)
      ultimately have "unat (of_nat i * c + c) = (i + 1) * C" unfolding step by (intro small_unat)
      with False last start show ?thesis by (simp add: chunk_range_def Let_def)
    qed
  qed
  let ?ts = "map (\<lambda>i. chunk_range d c n (of_nat i)) [0..<N]"
  have "concat ?ts = [0..<D]"
  proof -
    have split: "[0..<N] = [0..<N - 1] @ [N - 1]" using N(1) by (metis Suc_pred' upt_Suc_append zero_le)
    have init: "map (\<lambda>i. chunk_range d c n (of_nat i)) [0..<N - 1] = map (\<lambda>i. [i * C..<(i + 1) * C]) [0..<N - 1]"
      by (rule map_cong [OF refl]) (use r in simp)
    have final: "chunk_range d c n (of_nat (N - 1)) = [(N - 1) * C..<D]" using r [of "N - 1"] N(1) by simp
    have "concat ?ts = concat (map (\<lambda>i. [i * C..<(i + 1) * C]) [0..<N - 1]) @ [(N - 1) * C..<D]"
      unfolding split by (simp only: map_append concat_append init list.map final concat.simps append_Nil2)
    also have "\<dots> = [0..<D]" unfolding upt_pieces using upt_add_eq_append [of 0 "(N - 1) * C" "D - (N - 1) * C"] N(2) by simp
    finally show ?thesis .
  qed
  moreover have "for_each_tasks d c = Some (N, ?ts)"
    using c0 n by (simp add: for_each_tasks_def num_chunks_def n_def [symmetric])
  ultimately show ?thesis by (auto simp: D_def)
qed

text \<open>
  With a chunk size above zero and no overflow of \<open>distance + chunk_size\<close>, \<open>parallel_for_each\<close> applies the function to every
  element exactly once, in whatever order the pool runs the tasks and however they interleave; \<open>parallel_transform\<close> then
  writes the image of every element; and the latch counts exactly the tasks.
\<close>

theorem parallel_for_each_visits_all:
  assumes "for_each_tasks (of_nat (length xs)) c = Some (n, ts)" and "mset order = mset (concat ts)"
    and "0 < unat c" and "length xs + unat c \<le> 2 ^ 64"
  shows "visit f order xs = map f xs \<and> length ts = n \<and>
    (length out = length xs \<longrightarrow> transform_task op xs order out = map op xs)"
proof -
  have "mset order = mset [0..<length xs] \<and> length ts = n"
  proof (cases "xs = []")
    case True
    with assms show ?thesis by (simp add: for_each_tasks_def)
  next
    case False
    then have d: "unat (of_nat (length xs) :: 64 word) = length xs" using assms(3,4) by (intro small_unat) linarith
    from chunks_cover [of c "of_nat (length xs)"] assms False show ?thesis unfolding d by auto
  qed
  then show ?thesis by (simp add: visit_all transform_all)
qed

lemma parallel_for_each_visits_all_witness:
  "visit (\<lambda>x. x * x) [3, 0, 4, 1, 2] [1, 2, 3, 4, 5 :: nat] = [1, 4, 9, 16, 25]"
  using parallel_for_each_visits_all [of "[1, 2, 3, 4, 5 :: nat]" 2 3 "[[0, 1], [2, 3], [4]]" "[3, 0, 4, 1, 2]" "\<lambda>x. x * x"
    "[]" Suc]
  by (simp add: for_each_tasks_def num_chunks_def chunk_range_def upt_rec)

text \<open>A chunk size that overflows the sum leaves the range unprocessed: the latch starts at zero.\<close>

lemma parallel_for_each_overflow: "for_each_tasks 10 (- 1) = Some (0, [])"
  by (simp add: for_each_tasks_def num_chunks_def)

section \<open>Recursive halving\<close>

text \<open>The ranges of the leaves of the recursion: at most \<open>k\<close> elements each, split at \<open>first + length / 2\<close>.\<close>

function halves :: "nat \<Rightarrow> nat \<Rightarrow> nat \<Rightarrow> (nat \<times> nat) list" where
  "halves k first stop =
     (if stop - first \<le> max k 1 then [(first, stop)]
      else let mid_point = first + (stop - first) div 2 in halves k first mid_point @ halves k mid_point stop)"
  by auto
termination by (relation "measure (\<lambda>(k, first, stop). stop - first)") (auto simp: Let_def)

declare halves.simps [simp del]

lemma halves_leaf: "stop - first \<le> max k 1 \<Longrightarrow> halves k first stop = [(first, stop)]"
  by (simp add: halves.simps)

lemma halves_node:
  "\<not> stop - first \<le> max k 1 \<Longrightarrow> halves k first stop =
     halves k first (first + (stop - first) div 2) @ halves k (first + (stop - first) div 2) stop"
  by (subst halves.simps) (simp add: Let_def)

lemma halves_induct [consumes 1, case_names leaf node]:
  assumes "first \<le> stop"
    and "\<And>first stop. first \<le> stop \<Longrightarrow> stop - first \<le> max k 1 \<Longrightarrow> P first stop"
    and "\<And>first stop. \<not> stop - first \<le> max k 1 \<Longrightarrow> first < first + (stop - first) div 2 \<Longrightarrow>
       first + (stop - first) div 2 < stop \<Longrightarrow> P first (first + (stop - first) div 2) \<Longrightarrow>
       P (first + (stop - first) div 2) stop \<Longrightarrow> P first stop"
  shows "P first (stop :: nat)"
  using assms(1)
proof (induction "stop - first" arbitrary: first stop rule: less_induct)
  case less
  show ?case
  proof (cases "stop - first \<le> max k 1")
    case True
    with less.prems show ?thesis by (rule assms(2))
  next
    case False
    have b: "first < first + (stop - first) div 2" "first + (stop - first) div 2 < stop"
      using False less.prems by linarith+
    show ?thesis by (rule assms(3) [OF False b]; rule less.hyps) (use b in linarith)+
  qed
qed

text \<open>The leaves are small and cover the range in order.\<close>

lemma halves_cover:
  assumes "first \<le> stop"
  shows "concat (map (\<lambda>(a, b). [a..<b]) (halves k first stop)) = [first..<stop]"
    and "\<forall>(a, b) \<in> set (halves k first stop). first \<le> a \<and> a \<le> b \<and> b \<le> stop \<and> b - a \<le> max k 1"
proof -
  have "concat (map (\<lambda>(a, b). [a..<b]) (halves k first stop)) = [first..<stop] \<and>
      (\<forall>(a, b) \<in> set (halves k first stop). first \<le> a \<and> a \<le> b \<and> b \<le> stop \<and> b - a \<le> max k 1)"
    using assms
  proof (induction first stop rule: halves_induct [where k = k])
    case (leaf first stop)
    then show ?case by (simp add: halves_leaf)
  next
    case (node first stop)
    then have "[first..<first + (stop - first) div 2] @ [first + (stop - first) div 2..<stop] = [first..<stop]"
      using upt_add_eq_append [of first "first + (stop - first) div 2" "stop - (first + (stop - first) div 2)"] by simp
    moreover from node have "\<forall>(a, b) \<in> set (halves k first stop). first \<le> a \<and> a \<le> b \<and> b \<le> stop \<and> b - a \<le> max k 1"
      by (auto simp: halves_node)
    ultimately show ?case using node by (simp add: halves_node)
  qed
  then show "concat (map (\<lambda>(a, b). [a..<b]) (halves k first stop)) = [first..<stop]"
    and "\<forall>(a, b) \<in> set (halves k first stop). first \<le> a \<and> a \<le> b \<and> b \<le> stop \<and> b - a \<le> max k 1" by blast+
qed

section \<open>parallel_for_each with std::async\<close>

text \<open>
  \<open>f\<close> throws at some positions.  A leaf visits its range up to and including the first element that throws; at a node the
  half run in the calling thread may throw, but the future's destructor still waits for the other half.  The value is the
  positions visited (second half first, in one of the possible orders) and whether an exception propagates.
\<close>

fun leaf_run :: "(nat \<Rightarrow> bool) \<Rightarrow> nat list \<Rightarrow> nat list \<times> bool" where
  "leaf_run throws [] = ([], False)"
| "leaf_run throws (i # is) = (if throws i then ([i], True) else (let (v, e) = leaf_run throws is in (i # v, e)))"

function async_for_each :: "(nat \<Rightarrow> bool) \<Rightarrow> nat \<Rightarrow> nat \<Rightarrow> nat list \<times> bool" where
  "async_for_each throws first stop =
     (if stop - first = 0 then ([], False)
      else if stop - first < 2 * 25 then leaf_run throws [first..<stop]
      else
        let mid_point = first + (stop - first) div 2;
            (second, second_threw) = async_for_each throws mid_point stop;
            (first_half, first_threw) = async_for_each throws first mid_point
        in (second @ first_half, second_threw \<or> first_threw))"
  by auto
termination by (relation "measure (\<lambda>(throws, first, stop). stop - first)") (auto simp: Let_def)

declare async_for_each.simps [simp del]

lemma leaf_run_threw: "snd (leaf_run throws is) \<longleftrightarrow> (\<exists>i \<in> set is. throws i)"
  by (induction "is") (auto simp: Let_def split: prod.splits)

lemma leaf_run_all: "\<forall>i \<in> set is. \<not> throws i \<Longrightarrow> leaf_run throws is = (is, False)"
  by (induction "is") auto

lemma async_for_each_leaf: "stop - first \<le> 49 \<Longrightarrow> async_for_each throws first stop = leaf_run throws [first..<stop]"
  by (subst async_for_each.simps) auto

lemma async_for_each_node:
  "\<not> stop - first \<le> 49 \<Longrightarrow> async_for_each throws first stop =
     (let mid_point = first + (stop - first) div 2;
          (second, second_threw) = async_for_each throws mid_point stop;
          (first_half, first_threw) = async_for_each throws first mid_point
      in (second @ first_half, second_threw \<or> first_threw))"
  by (subst async_for_each.simps) (auto simp: Let_def)

lemma async_for_each_range:
  assumes "first \<le> stop"
  shows "snd (async_for_each throws first stop) \<longleftrightarrow> (\<exists>i \<in> {first..<stop}. throws i)"
    and "\<forall>i \<in> {first..<stop}. \<not> throws i \<Longrightarrow> mset (fst (async_for_each throws first stop)) = mset [first..<stop]"
proof -
  have "(snd (async_for_each throws first stop) \<longleftrightarrow> (\<exists>i \<in> {first..<stop}. throws i)) \<and>
    ((\<forall>i \<in> {first..<stop}. \<not> throws i) \<longrightarrow> mset (fst (async_for_each throws first stop)) = mset [first..<stop])"
    using assms
  proof (induction first stop rule: halves_induct [where k = 49])
    case (leaf first stop)
    then show ?case by (simp add: async_for_each_leaf leaf_run_threw leaf_run_all)
  next
    case (node first stop)
    define m where "m = first + (stop - first) div 2"
    have sets: "{first..<stop} = {first..<m} \<union> {m..<stop}" using node(2,3) by (auto simp: m_def)
    have msets: "mset [first..<stop] = mset [m..<stop] + mset [first..<m]"
      using upt_add_eq_append [of first m "stop - m"] node(2,3) by (simp add: m_def)
    have "\<not> stop - first \<le> 49" using node(1) by simp
    note rec = async_for_each_node [OF this, of throws, unfolded m_def [symmetric] Let_def]
    note ih = node(4,5) [folded m_def]
    show ?case unfolding rec sets msets
      using ih by (auto split: prod.splits)
  qed
  then show "snd (async_for_each throws first stop) \<longleftrightarrow> (\<exists>i \<in> {first..<stop}. throws i)"
    and "\<forall>i \<in> {first..<stop}. \<not> throws i \<Longrightarrow> mset (fst (async_for_each throws first stop)) = mset [first..<stop]"
    by blast+
qed

section \<open>parallel_accumulate\<close>

text \<open>\<open>T\<close> is any ring, machine words included; \<open>None\<close> is the exception.\<close>

function parallel_accumulate :: "('a :: ring_1) list \<Rightarrow> nat \<Rightarrow> nat \<Rightarrow> 'a \<Rightarrow> 'a option" where
  "parallel_accumulate xs first stop init =
     (if stop - first \<le> 25
      then if 0 < stop - first \<and> xs ! first = - 1 then None else Some (foldl (+) init (map (nth xs) [first..<stop]))
      else
        let mid_point = first + (stop - first) div 2 in
        case parallel_accumulate xs mid_point stop 0 of
          None \<Rightarrow> None
        | Some second_half_result \<Rightarrow> map_option (\<lambda>v. v + second_half_result) (parallel_accumulate xs first mid_point init))"
  by auto
termination by (relation "measure (\<lambda>(xs, first, stop, init). stop - first)") (auto simp: Let_def)

declare parallel_accumulate.simps [simp del]

lemma foldl_add_init: "foldl (+) (init :: 'a :: ring_1) xs = init + sum_list xs"
  by (induction xs arbitrary: init) (simp_all add: add.assoc)

lemma parallel_accumulate_range:
  assumes "first \<le> stop"
  shows "parallel_accumulate xs first stop init =
    (if \<exists>(a, b) \<in> set (halves 25 first stop). a < b \<and> xs ! a = - 1 then None
     else Some (init + sum_list (map (nth xs) [first..<stop])))"
  using assms
proof (induction first stop arbitrary: init rule: halves_induct [where k = 25])
  case (leaf first stop)
  then show ?case by (subst parallel_accumulate.simps) (simp add: halves_leaf foldl_add_init)
next
  case (node first stop)
  define m where "m = first + (stop - first) div 2"
  have split: "map (nth xs) [first..<stop] = map (nth xs) [first..<m] @ map (nth xs) [m..<stop]"
    using upt_add_eq_append [of first m "stop - m"] node(2,3) by (simp add: m_def)
  note h = halves_node [OF node(1), folded m_def]
  note ih = node(4,5) [folded m_def]
  have "\<not> stop - first \<le> 25" using node(1) by simp
  then have "parallel_accumulate xs first stop init =
      (case parallel_accumulate xs m stop 0 of None \<Rightarrow> None
       | Some second \<Rightarrow> map_option (\<lambda>v. v + second) (parallel_accumulate xs first m init))"
    by (subst parallel_accumulate.simps) (simp only: Let_def m_def if_False)
  then show ?case unfolding ih split h by (auto simp: add.assoc)
qed

text \<open>
  \<open>parallel_accumulate\<close> returns \<open>init\<close> plus the sum of the range unless the first element of one of the leaves is -1,
  and then the exception reaches the caller; a -1 anywhere else is summed like any other element.
\<close>

theorem parallel_accumulate_sums:
  "parallel_accumulate xs 0 (length xs) init =
    (if \<exists>(a, b) \<in> set (halves 25 0 (length xs)). a < b \<and> xs ! a = - 1 then None else Some (init + sum_list xs))"
  using parallel_accumulate_range [of 0 "length xs" xs init] by (simp add: map_nth)

text \<open>
  The data of \<open>main\<close>: the -1 is at position 15, and the leaves start at 0, 25, 50 and 75.
\<close>

lemma main_catches_nothing:
  "parallel_accumulate ((replicate 100 (1 :: int)) [15 := - 1]) 0 100 0 = Some 98"
proof -
  have leaves: "halves 25 0 100 = [(0, 25), (25, 50), (50, 75), (75, 100)]"
    by (simp add: halves_node halves_leaf)
  have "sum_list ((replicate 100 (1 :: int)) [15 := - 1]) = 98"
    by code_simp
  then show ?thesis
    using parallel_accumulate_sums [of "(replicate 100 (1 :: int)) [15 := - 1]" 0] by (simp add: leaves)
qed

text \<open>
  The recursive \<open>parallel_for_each\<close> throws exactly when the function throws at some element, and otherwise visits every
  element exactly once.
\<close>

theorem async_for_each_visits:
  shows "snd (async_for_each throws 0 (length xs)) = (\<exists>i < length xs. throws i)"
    and "snd (async_for_each throws 0 (length xs)) \<or> visit f (fst (async_for_each throws 0 (length xs))) xs = map f xs"
proof -
  note r = async_for_each_range [of 0 "length xs" throws]
  from r show threw: "snd (async_for_each throws 0 (length xs)) = (\<exists>i < length xs. throws i)" by auto
  show "snd (async_for_each throws 0 (length xs)) \<or> visit f (fst (async_for_each throws 0 (length xs))) xs = map f xs"
  proof (cases "snd (async_for_each throws 0 (length xs))")
    case False
    with r show ?thesis by (simp add: visit_all)
  qed simp
qed

section \<open>parallel_find\<close>

text \<open>
  A leaf searching \<open>[p, b)\<close>: before the test of \<open>done\<close>, before its store, or finished with the iterator it returns.
\<close>

datatype find_pc = Searching nat | Storing nat | Returned nat

record find_state =
  fs_done :: bool
  fs_leaf :: "find_pc list"

definition find_start :: "(nat \<times> nat) list \<Rightarrow> find_state" where
  "find_start leaves = \<lparr>fs_done = False, fs_leaf = map (\<lambda>(a, b). Searching a) leaves\<rparr>"

text \<open>One step of leaf \<open>i\<close>: the loop condition with the comparison of the element, or the store of the flag.\<close>

definition find_step :: "'a list \<Rightarrow> 'a \<Rightarrow> (nat \<times> nat) list \<Rightarrow> nat \<Rightarrow> find_state \<Rightarrow> find_state" where
  "find_step xs match leaves i s =
     (if i < length (fs_leaf s) then
        case fs_leaf s ! i of
          Searching p \<Rightarrow>
            if p = snd (leaves ! i) \<or> fs_done s then s\<lparr>fs_leaf := (fs_leaf s)[i := Returned (snd (leaves ! i))]\<rparr>
            else if xs ! p = match then s\<lparr>fs_leaf := (fs_leaf s)[i := Storing p]\<rparr>
            else s\<lparr>fs_leaf := (fs_leaf s)[i := Searching (p + 1)]\<rparr>
        | Storing p \<Rightarrow> s\<lparr>fs_done := True, fs_leaf := (fs_leaf s)[i := Returned p]\<rparr>
        | Returned r \<Rightarrow> s
      else s)"

text \<open>The results combined at the nodes of the recursion; \<open>res a\<close> is what the leaf that starts at \<open>a\<close> returned.\<close>

function find_combine :: "(nat \<Rightarrow> nat) \<Rightarrow> nat \<Rightarrow> nat \<Rightarrow> nat" where
  "find_combine res first stop =
     (if stop - first < 2 * 25 then res first
      else
        let mid_point = first + (stop - first) div 2;
            direct_result = find_combine res first mid_point
        in if direct_result = mid_point then find_combine res mid_point stop else direct_result)"
  by auto
termination by (relation "measure (\<lambda>(res, first, stop). stop - first)") (auto simp: Let_def)

declare find_combine.simps [simp del]

definition leaf_result :: "(nat \<times> nat) list \<Rightarrow> find_state \<Rightarrow> nat \<Rightarrow> nat" where
  "leaf_result leaves s a =
     (case filter (\<lambda>z. fst (fst z) = a) (zip leaves (fs_leaf s)) of (_, Returned r) # _ \<Rightarrow> r | _ \<Rightarrow> 0)"

definition find_finished :: "find_state \<Rightarrow> bool" where
  "find_finished s = list_all (\<lambda>pc. case pc of Returned _ \<Rightarrow> True | _ \<Rightarrow> False) (fs_leaf s)"

definition parallel_find :: "'a list \<Rightarrow> 'a \<Rightarrow> nat list \<Rightarrow> nat option" where
  "parallel_find xs match evs =
     (let leaves = halves 49 0 (length xs); s = run_sched (find_step xs match leaves) evs (find_start leaves)
      in if find_finished s then Some (find_combine (leaf_result leaves s) 0 (length xs)) else None)"

text \<open>What each leaf knows about its range.\<close>

definition leaf_ok :: "'a list \<Rightarrow> 'a \<Rightarrow> bool \<Rightarrow> nat \<times> nat \<Rightarrow> find_pc \<Rightarrow> bool" where
  "leaf_ok xs match found ab pc =
     (let (a, b) = ab in
      case pc of
        Searching p \<Rightarrow> a \<le> p \<and> p \<le> b \<and> (\<forall>j\<in>{a..<p}. xs ! j \<noteq> match)
      | Storing p \<Rightarrow> a \<le> p \<and> p < b \<and> xs ! p = match
      | Returned r \<Rightarrow> (a \<le> r \<and> r < b \<and> xs ! r = match) \<or> (r = b \<and> (found \<or> (\<forall>j\<in>{a..<b}. xs ! j \<noteq> match))))"

definition find_inv :: "'a list \<Rightarrow> 'a \<Rightarrow> (nat \<times> nat) list \<Rightarrow> find_state \<Rightarrow> bool" where
  "find_inv xs match leaves s =
     (length (fs_leaf s) = length leaves \<and>
      (\<forall>i<length leaves. leaf_ok xs match (fs_done s) (leaves ! i) (fs_leaf s ! i)) \<and>
      (fs_done s \<longrightarrow> (\<exists>i<length leaves. \<exists>r. fs_leaf s ! i = Returned r \<and> r < snd (leaves ! i))))"

lemma find_inv_start: "\<forall>(a, b)\<in>set leaves. a \<le> b \<Longrightarrow> find_inv xs match leaves (find_start leaves)"
  by (auto simp: find_inv_def find_start_def leaf_ok_def split: prod.splits dest!: nth_mem)

lemma leaf_ok_found: "leaf_ok xs match found ab pc \<Longrightarrow> leaf_ok xs match True ab pc"
  by (auto simp: leaf_ok_def split: find_pc.splits)

text \<open>A leaf's move keeps the invariant when the leaf is right about its range.\<close>

lemma find_inv_move:
  assumes inv: "find_inv xs match leaves s" and i: "i < length leaves" and "leaf_ok xs match found (leaves ! i) pc"
    and found: "found \<longleftrightarrow> fs_done s \<or> (\<exists>r. pc = Returned r \<and> r < snd (leaves ! i))"
    and moves: "\<forall>r. fs_leaf s ! i \<noteq> Returned r"
  shows "find_inv xs match leaves (s\<lparr>fs_done := found, fs_leaf := (fs_leaf s)[i := pc]\<rparr>)"
proof -
  have len: "length (fs_leaf s) = length leaves" using inv by (simp add: find_inv_def)
  have ok: "leaf_ok xs match found (leaves ! j) ((fs_leaf s)[i := pc] ! j)" if "j < length leaves" for j
  proof (cases "j = i")
    case False
    have "leaf_ok xs match (fs_done s) (leaves ! j) (fs_leaf s ! j)" using inv that by (simp add: find_inv_def)
    moreover have "\<not> found \<Longrightarrow> \<not> fs_done s" using found by blast
    ultimately show ?thesis using False by (cases found) (auto intro: leaf_ok_found)
  qed (use assms len in simp)
  moreover have "\<exists>j<length leaves. \<exists>r. (fs_leaf s)[i := pc] ! j = Returned r \<and> r < snd (leaves ! j)" if "found"
  proof (cases "fs_done s")
    case True
    then obtain j r where "j < length leaves" "fs_leaf s ! j = Returned r" "r < snd (leaves ! j)"
      using inv by (auto simp: find_inv_def)
    then show ?thesis using moves by (intro exI [of _ j]) (metis nth_list_update_neq)
  next
    case False
    then show ?thesis using found that i len by (intro exI [of _ i]) auto
  qed
  ultimately show ?thesis by (simp add: find_inv_def len)
qed

lemma find_inv_quiet:
  assumes inv: "find_inv xs match leaves s" and i: "i < length leaves"
    and ok: "leaf_ok xs match (fs_done s) (leaves ! i) pc"
    and quiet: "\<forall>r. pc = Returned r \<longrightarrow> \<not> r < snd (leaves ! i)" and moves: "\<forall>r. fs_leaf s ! i \<noteq> Returned r"
  shows "find_inv xs match leaves (s\<lparr>fs_leaf := (fs_leaf s)[i := pc]\<rparr>)"
proof -
  have "fs_done s \<longleftrightarrow> fs_done s \<or> (\<exists>r. pc = Returned r \<and> r < snd (leaves ! i))" using quiet by blast
  from find_inv_move [OF inv i ok this moves] show ?thesis by simp
qed

lemma find_inv_step:
  assumes inv: "find_inv xs match leaves s"
  shows "find_inv xs match leaves (find_step xs match leaves i s)"
proof (cases "i < length leaves")
  case i: True
  have len: "length (fs_leaf s) = length leaves" and ok: "leaf_ok xs match (fs_done s) (leaves ! i) (fs_leaf s ! i)"
    using inv i by (simp_all add: find_inv_def)
  note move = find_inv_move [OF inv i]
  show ?thesis
  proof (cases "fs_leaf s ! i")
    case (Searching p)
    note quiet = find_inv_quiet [OF inv i]
    consider "p = snd (leaves ! i) \<or> fs_done s" | "p \<noteq> snd (leaves ! i)" "\<not> fs_done s" "xs ! p = match"
      | "p \<noteq> snd (leaves ! i)" "\<not> fs_done s" "xs ! p \<noteq> match" by blast
    then show ?thesis
    proof cases
      case 1
      with ok Searching have "leaf_ok xs match (fs_done s) (leaves ! i) (Returned (snd (leaves ! i)))"
        by (auto simp: leaf_ok_def split: prod.splits)
      from quiet [OF this] 1 Searching show ?thesis using i by (simp add: find_step_def len)
    next
      case 2
      with ok Searching have "leaf_ok xs match (fs_done s) (leaves ! i) (Storing p)"
        by (auto simp: leaf_ok_def split: prod.splits)
      from quiet [OF this] 2 Searching show ?thesis using i by (simp add: find_step_def len)
    next
      case 3
      with ok Searching have "leaf_ok xs match (fs_done s) (leaves ! i) (Searching (p + 1))"
        by (auto simp: leaf_ok_def less_Suc_eq split: prod.splits)
      from quiet [OF this] 3 Searching show ?thesis using i by (simp add: find_step_def len)
    qed
  next
    case (Storing p)
    with ok have "leaf_ok xs match True (leaves ! i) (Returned p)" by (auto simp: leaf_ok_def split: prod.splits)
    from move [OF this] Storing ok show ?thesis
      using i by (auto simp: find_step_def len leaf_ok_def split: prod.splits)
  next
    case (Returned r)
    then show ?thesis using inv by (simp add: find_step_def)
  qed
next
  case False
  then show ?thesis using inv by (simp add: find_step_def find_inv_def)
qed

lemma find_combine_range:
  assumes "first \<le> stop"
    and "\<forall>(a, b)\<in>set (halves 49 first stop). (a \<le> res a \<and> res a < b \<and> P (res a)) \<or> res a = b"
  shows "if \<exists>(a, b)\<in>set (halves 49 first stop). res a < b
    then first \<le> find_combine res first stop \<and> find_combine res first stop < stop \<and> P (find_combine res first stop)
    else find_combine res first stop = stop"
  using assms
proof (induction first stop rule: halves_induct [where k = 49])
  case (leaf first stop)
  then have "find_combine res first stop = res first" by (subst find_combine.simps) simp
  with leaf show ?case by (auto simp: halves_leaf)
next
  case (node first stop)
  define m where "m = first + (stop - first) div 2"
  note h = halves_node [OF node(1), folded m_def]
  note ih = node(4,5) [folded m_def]
  have "\<not> stop - first < 2 * 25" using node(1) by simp
  then have "find_combine res first stop =
      (let direct = find_combine res first m in if direct = m then find_combine res m stop else direct)"
    by (subst find_combine.simps) (simp only: Let_def m_def if_False)
  then show ?case using ih node(6) node(2,3) [folded m_def] unfolding h
    by (auto simp: Let_def split: if_splits)
qed

lemma find_inv_sched: "find_inv xs match leaves s \<Longrightarrow> find_inv xs match leaves (run_sched (find_step xs match leaves) evs s)"
  by (induction evs arbitrary: s) (simp_all add: find_inv_step)

text \<open>The leaves of a non-empty recursion start at different positions.\<close>

lemma halves_starts:
  "first \<le> stop \<Longrightarrow> sorted_wrt (\<lambda>(a, b) (c, d). b \<le> c) (halves k first stop) \<and>
     (first < stop \<longrightarrow> (\<forall>(a, b)\<in>set (halves k first stop). a < b))"
proof (induction first stop rule: halves_induct [where k = k])
  case (node first stop)
  define m where "m = first + (stop - first) div 2"
  have "\<forall>(a, b)\<in>set (halves k first m). b \<le> m" "\<forall>(a, b)\<in>set (halves k m stop). m \<le> a"
    using halves_cover(2) [of first m k] halves_cover(2) [of m stop k] node(2,3) by (auto simp: m_def)
  then show ?case using node
    by (simp add: halves_node sorted_wrt_append m_def [symmetric]) fastforce
qed (simp add: halves_leaf)

lemma starts_distinct:
  "sorted_wrt (\<lambda>(a, b) (c, d). b \<le> c) L \<Longrightarrow> \<forall>(a, b)\<in>set L. a < (b :: nat) \<Longrightarrow> distinct (map fst L)"
  by (induction L) (fastforce simp: case_prod_beta)+

lemma halves_distinct: "distinct (map fst (halves k 0 n))"
  using halves_starts [of 0 n k] starts_distinct [of "halves k 0 n"] by (cases "n = 0") (simp_all add: halves_leaf)

lemma filter_eq_single: "distinct zs \<Longrightarrow> z \<in> set zs \<Longrightarrow> filter ((=) z) zs = [z]"
  by (induction zs) (auto simp: filter_empty_conv)

lemma leaf_result_nth:
  assumes "distinct (map fst leaves)" and "length (fs_leaf s) = length leaves"
    and "i < length leaves" and "fs_leaf s ! i = Returned r"
  shows "leaf_result leaves s (fst (leaves ! i)) = r"
proof -
  let ?z = "zip leaves (fs_leaf s)"
  have d: "distinct (map (fst \<circ> fst) ?z)" using assms(1,2) by (simp add: map_map [symmetric] del: map_map)
  have m: "(leaves ! i, Returned r) \<in> set ?z" using assms by (force simp: set_zip)
  have "filter (\<lambda>z. (fst \<circ> fst) z = fst (leaves ! i)) ?z = [(leaves ! i, Returned r)]"
  proof -
    have "(fst \<circ> fst) z = fst (leaves ! i) \<longleftrightarrow> (leaves ! i, Returned r) = z" if "z \<in> set ?z" for z
      using d m that unfolding distinct_map inj_on_def by (metis comp_def fst_conv)
    then have "filter (\<lambda>z. (fst \<circ> fst) z = fst (leaves ! i)) ?z = filter ((=) (leaves ! i, Returned r)) ?z"
      by (intro filter_cong refl)
    also have "\<dots> = [(leaves ! i, Returned r)]" using filter_eq_single [OF conjunct1 [OF d [unfolded distinct_map]] m] .
    finally show ?thesis .
  qed
  then show ?thesis by (simp add: leaf_result_def)
qed

text \<open>What the leaves have answered when all of them are done.\<close>

lemma finished_leaves:
  fixes xs :: "'a list" and match :: 'a
  defines "leaves \<equiv> halves 49 0 (length xs)"
  assumes inv: "find_inv xs match leaves s" and fin: "find_finished s"
  shows "i < length leaves \<Longrightarrow> fs_leaf s ! i = Returned (leaf_result leaves s (fst (leaves ! i)))"
    and "\<forall>(a, b)\<in>set leaves. (a \<le> leaf_result leaves s a \<and> leaf_result leaves s a < b \<and> xs ! leaf_result leaves s a = match) \<or>
      (leaf_result leaves s a = b \<and> (fs_done s \<or> (\<forall>j\<in>{a..<b}. xs ! j \<noteq> match)))"
proof -
  have len: "length (fs_leaf s) = length leaves" using inv by (simp add: find_inv_def)
  show ret: "fs_leaf s ! i = Returned (leaf_result leaves s (fst (leaves ! i)))" if "i < length leaves" for i
  proof -
    from fin that obtain q where "fs_leaf s ! i = Returned q"
      by (cases "fs_leaf s ! i") (auto simp: find_finished_def list_all_length len split: find_pc.splits)
    then show ?thesis using leaf_result_nth [of leaves s i q] halves_distinct that len by (simp add: leaves_def)
  qed
  show "\<forall>(a, b)\<in>set leaves. (a \<le> leaf_result leaves s a \<and> leaf_result leaves s a < b \<and> xs ! leaf_result leaves s a = match) \<or>
      (leaf_result leaves s a = b \<and> (fs_done s \<or> (\<forall>j\<in>{a..<b}. xs ! j \<noteq> match)))"
    using inv ret by (fastforce simp: find_inv_def leaf_ok_def in_set_conv_nth)
qed

lemma no_leaf_found:
  fixes xs :: "'a list" and match :: 'a
  defines "leaves \<equiv> halves 49 0 (length xs)"
  assumes inv: "find_inv xs match leaves s" and fin: "find_finished s"
    and none: "\<not> (\<exists>(a, b)\<in>set leaves. leaf_result leaves s a < b)"
  shows "match \<notin> set xs"
proof -
  note answers = finished_leaves [OF inv [unfolded leaves_def] fin, folded leaves_def]
  have none_nth: "\<not> leaf_result leaves s (fst (leaves ! i)) < snd (leaves ! i)" if "i < length leaves" for i
    using none nth_mem [OF that] by (auto simp: case_prod_beta)
  have "\<not> fs_done s"
  proof
    assume "fs_done s"
    with inv obtain i q where "i < length leaves" "fs_leaf s ! i = Returned q" "q < snd (leaves ! i)"
      unfolding find_inv_def by blast
    with answers(1) [of i] none_nth [of i] show False by simp
  qed
  then have "xs ! j \<noteq> match" if "(a, b) \<in> set leaves" "j \<in> {a..<b}" for a b j
    using bspec [OF answers(2) that(1)] that none by auto
  then have "\<forall>(a, b)\<in>set leaves. \<forall>j\<in>{a..<b}. xs ! j \<noteq> match" by blast
  moreover have "\<exists>(a, b)\<in>set leaves. j \<in> {a..<b}" if "j < length xs" for j
  proof -
    have "j \<in> set (concat (map (\<lambda>(a, b). [a..<b]) leaves))" using that by (simp add: leaves_def halves_cover(1))
    then show ?thesis by auto
  qed
  ultimately have "\<forall>j<length xs. xs ! j \<noteq> match" by blast
  then show ?thesis by (auto simp: in_set_conv_nth)
qed

text \<open>
  (C26) However the leaves interleave, when \<open>parallel_find\<close> returns, it returns the end of the range exactly if no element matches,
  and otherwise the position of a matching element (not always the first one).
\<close>

theorem parallel_find_finds:
  assumes "parallel_find xs match evs = Some r"
  shows "if match \<in> set xs then r < length xs \<and> xs ! r = match else r = length xs"
proof -
  define leaves where "leaves = halves 49 0 (length xs)"
  define s where "s = run_sched (find_step xs match leaves) evs (find_start leaves)"
  define res where "res = leaf_result leaves s"
  have fin: "find_finished s" and r: "r = find_combine res 0 (length xs)"
    using assms by (auto simp: parallel_find_def Let_def res_def s_def leaves_def split: if_splits)
  have ranges: "\<forall>(a, b)\<in>set leaves. a \<le> b \<and> b \<le> length xs"
    using halves_cover(2) [of 0 "length xs" 49] by (auto simp: leaves_def)
  then have inv: "find_inv xs match leaves s"
    unfolding s_def by (intro find_inv_sched find_inv_start) auto
  have "\<forall>(a, b)\<in>set (halves 49 0 (length xs)). (a \<le> res a \<and> res a < b \<and> xs ! res a = match) \<or> res a = b"
    using finished_leaves(2) [OF inv [unfolded leaves_def] fin, folded leaves_def, folded res_def] by (auto simp: leaves_def)
  from find_combine_range [OF _ this]
  have "if \<exists>(a, b)\<in>set leaves. res a < b then r < length xs \<and> xs ! r = match else r = length xs"
    by (simp add: leaves_def r split: if_splits)
  moreover have "match \<notin> set xs" if "\<not> (\<exists>(a, b)\<in>set leaves. res a < b)"
    using no_leaf_found [OF inv [unfolded leaves_def] fin] that by (simp add: leaves_def res_def)
  ultimately show ?thesis by (auto simp: in_set_conv_nth split: if_splits)
qed

lemma parallel_find_finds_witness:
  "\<exists>r. parallel_find [4, 7, 9, 7 :: nat] 7 [0, 0, 0] = Some r \<and> r < 4 \<and> [4, 7, 9, 7 :: nat] ! r = 7"
proof -
  have "parallel_find [4, 7, 9, 7 :: nat] 7 [0, 0, 0] = Some 1"
    by (simp add: parallel_find_def halves_leaf find_start_def find_step_def find_finished_def leaf_result_def
        find_combine.simps Let_def)
  with parallel_find_finds [OF this] show ?thesis by simp
qed

text \<open>The most steps a leaf still needs.\<close>

definition steps_left :: "nat \<times> nat \<Rightarrow> find_pc \<Rightarrow> nat" where
  "steps_left ab pc = (case pc of Searching p \<Rightarrow> snd ab - p + 2 | Storing p \<Rightarrow> 1 | Returned r \<Rightarrow> 0)"

lemma steps_left_step:
  assumes "find_inv xs match leaves s" and "i < length leaves"
  shows "steps_left (leaves ! i) (fs_leaf (find_step xs match leaves e s) ! i)
    \<le> steps_left (leaves ! i) (fs_leaf s ! i) - (if e = i then 1 else 0)"
proof -
  have len: "length (fs_leaf s) = length leaves" and ok: "leaf_ok xs match (fs_done s) (leaves ! i) (fs_leaf s ! i)"
    using assms by (simp_all add: find_inv_def)
  show ?thesis
  proof (cases "e = i")
    case True
    with ok assms(2) len show ?thesis
      by (auto simp: find_step_def steps_left_def leaf_ok_def split: find_pc.splits)
  next
    case False
    then show ?thesis by (simp add: find_step_def split: find_pc.splits)
  qed
qed

lemma steps_left_sched:
  assumes "find_inv xs match leaves s" and "i < length leaves"
  shows "steps_left (leaves ! i) (fs_leaf (run_sched (find_step xs match leaves) evs s) ! i)
    \<le> steps_left (leaves ! i) (fs_leaf s ! i) - count_list evs i"
  using assms(1)
proof (induction evs arbitrary: s)
  case (Cons e evs)
  show ?case using Cons.IH [OF find_inv_step [OF Cons.prems, of e]] steps_left_step [OF Cons.prems assms(2), of e]
    by (cases "e = i") simp_all
qed simp

text \<open>
  \<open>parallel_find\<close> returns: 51 steps of each leaf are enough, in any interleaving.
\<close>

theorem parallel_find_returns:
  assumes "\<forall>i < length (halves 49 0 (length xs)). 51 \<le> count_list evs i"
  shows "\<exists>r. parallel_find xs match evs = Some r"
proof -
  define leaves where "leaves = halves 49 0 (length xs)"
  define s where "s = run_sched (find_step xs match leaves) evs (find_start leaves)"
  have ranges: "\<forall>(a, b)\<in>set leaves. a \<le> b \<and> b - a \<le> 49"
    using halves_cover(2) [of 0 "length xs" 49] by (auto simp: leaves_def)
  then have start: "find_inv xs match leaves (find_start leaves)" by (intro find_inv_start) auto
  have len: "length (fs_leaf s) = length leaves"
    using find_inv_sched [OF start, of evs] by (simp add: find_inv_def s_def)
  have "\<exists>r. fs_leaf s ! i = Returned r" if "i < length leaves" for i
  proof -
    have "steps_left (leaves ! i) (fs_leaf (find_start leaves) ! i) \<le> 51"
      using bspec [OF ranges nth_mem [OF that]] that by (simp add: find_start_def steps_left_def case_prod_beta)
    moreover have "51 \<le> count_list evs i" using assms that by (simp add: leaves_def)
    ultimately have "steps_left (leaves ! i) (fs_leaf s ! i) = 0"
      using steps_left_sched [OF start that, of evs] by (simp add: s_def)
    then show ?thesis by (auto simp: steps_left_def split: find_pc.splits)
  qed
  then have "find_finished s" by (fastforce simp: find_finished_def list_all_length len split: find_pc.splits)
  then show ?thesis by (simp add: parallel_find_def Let_def s_def leaves_def)
qed

lemma parallel_find_returns_witness:
  "\<exists>r. parallel_find [4, 7, 9 :: nat] 7 (replicate 51 0) = Some r"
proof -
  have "count_list (replicate n x) x = n" for n and x :: nat by (induction n) simp_all
  then show ?thesis
    using parallel_find_returns [of "[4, 7, 9 :: nat]" "replicate 51 0" 7] by (simp add: halves_leaf)
qed

section \<open>The loops of falseSharing.cpp\<close>

text \<open>With \<open>NUM_THREADS = 4\<close>: the positions of a thread with stride 4, and with contiguous chunks.\<close>

function bad_worker :: "nat \<Rightarrow> nat \<Rightarrow> nat list" where
  "bad_worker len i = (if i < len then i # bad_worker len (i + 4) else [])"
  by auto
termination by (relation "measure (\<lambda>(len, i). len - i)") auto

declare bad_worker.simps [simp del]

definition good_worker :: "nat \<Rightarrow> nat \<Rightarrow> nat list" where
  "good_worker len thread_id =
     (let chunk_size = len div 4; start = thread_id * chunk_size;
          stop = (if thread_id = 4 - 1 then len else start + chunk_size)
      in [start..<stop])"

lemma bad_worker_positions:
  "set (bad_worker n i) = {j. i \<le> j \<and> j < n \<and> j mod 4 = i mod 4} \<and> distinct (bad_worker n i)"
proof (induction n i rule: bad_worker.induct)
  case (1 n i)
  show ?case
  proof (cases "i < n")
    case True
    have "{j. i \<le> j \<and> j < n \<and> j mod 4 = i mod 4} = insert i {j. i + 4 \<le> j \<and> j < n \<and> j mod 4 = (i + 4) mod 4}"
    proof -
      have "j = i \<or> i + 4 \<le> j" if "i \<le> j" "j mod 4 = i mod 4" for j
      proof -
        from that obtain k where "j = i + 4 * k" by (metis mod_eq_nat1E)
        then show ?thesis by (cases k) simp_all
      qed
      then show ?thesis using True by auto
    qed
    with 1 True show ?thesis by (subst (1 2) bad_worker.simps) simp
  qed (auto simp: bad_worker.simps)
qed

lemma bad_worker_set:
  assumes "t < 4"
  shows "set (bad_worker n t) = {j. j < n \<and> j mod 4 = t}"
proof -
  have s: "set (bad_worker n t) = {j. t \<le> j \<and> j < n \<and> j mod 4 = t mod 4}"
    using bad_worker_positions by blast
  have "t mod 4 = t" using assms by simp
  moreover have "t \<le> j" if "j mod 4 = t" for j using mod_less_eq_dividend [of j 4] that by simp
  ultimately show ?thesis unfolding s by (intro Collect_cong) metis
qed

lemma four_threads: "[0..<4] = [0, 1, 2, 3 :: nat]"
  by (simp add: upt_rec)

text \<open>
  The interleaved and the contiguous version do the same work: every element is incremented exactly once, in every
  interleaving of the four threads.
\<close>

theorem false_sharing_versions_agree:
  assumes "mset bad = (\<Sum>t\<leftarrow>[0..<4]. mset (bad_worker (length data) t))"
    and "mset good = (\<Sum>t\<leftarrow>[0..<4]. mset (good_worker (length data) t))"
  shows "visit f bad data = map f data" and "visit f good data = map f data"
proof -
  let ?n = "length data"
  have "distinct (concat (map (bad_worker ?n) [0, 1, 2, 3])) \<and> set (concat (map (bad_worker ?n) [0, 1, 2, 3])) = {0..<?n}"
  proof
    have "distinct (bad_worker ?n t)" for t using bad_worker_positions [of ?n t] by blast
    then show "distinct (concat (map (bad_worker ?n) [0, 1, 2, 3]))" by (simp add: bad_worker_set disjoint_iff)
    have "j mod 4 = 0 \<or> j mod 4 = 1 \<or> j mod 4 = 2 \<or> j mod 4 = 3" for j :: nat using mod_less_divisor [of 4 j] by linarith
    then have "{j. j < ?n \<and> j mod 4 = 0} \<union> {j. j < ?n \<and> j mod 4 = 1} \<union> {j. j < ?n \<and> j mod 4 = 2} \<union>
        {j. j < ?n \<and> j mod 4 = 3} = {0..<?n}" unfolding atLeastLessThan_def by blast
    then show "set (concat (map (bad_worker ?n) [0, 1, 2, 3])) = {0..<?n}"
      by (simp only: set_concat set_map list.set image_insert image_empty Union_insert Union_empty
          bad_worker_set zero_less_numeral one_less_numeral_iff numeral_less_iff semiring_norm Un_assoc Un_empty_right)
  qed
  then have "mset (concat (map (bad_worker ?n) [0, 1, 2, 3])) = mset [0..<?n]"
    by (intro set_eq_iff_mset_eq_distinct [THEN iffD1]) simp_all
  then have "mset bad = mset [0..<?n]" using assms(1) unfolding four_threads by (simp add: ac_simps)
  then show "visit f bad data = map f data" by (rule visit_all)
  define c where "c = ?n div 4"
  have le: "3 * c \<le> ?n" unfolding c_def by linarith
  have "concat (map (good_worker ?n) [0, 1, 2, 3]) = [0..<c] @ [c..<c + c] @ [2 * c..<2 * c + c] @ [3 * c..<?n]"
    by (simp add: good_worker_def Let_def c_def)
  also have "\<dots> = [0..<?n]"
    using upt_add_eq_append [of 0 c c] upt_add_eq_append [of 0 "2 * c" c] upt_add_eq_append [of 0 "3 * c" "?n - 3 * c"] le
    by (simp add: mult_2 numeral_3_eq_3 add.assoc)
  finally have cover: "concat (map (good_worker ?n) [0, 1, 2, 3]) = [0..<?n]" .
  have "mset good = mset (concat (map (good_worker ?n) [0, 1, 2, 3]))"
    using assms(2) unfolding four_threads by (simp add: ac_simps del: mset_upt)
  then have "mset good = mset [0..<?n]" unfolding cover .
  then show "visit f good data = map f data" by (rule visit_all)
qed

lemma false_sharing_versions_agree_witness:
  "visit Suc [3, 0, 4, 1, 2] [0, 0, 0, 0, 0] = [1, 1, 1, 1, 1]"
proof -
  have bad: "mset [3, 0, 4, 1, 2] = (\<Sum>t\<leftarrow>[0..<4]. mset (bad_worker (length [0, 0, 0, 0, 0 :: nat]) t))"
    and good: "mset [4, 3, 2, 1, 0] = (\<Sum>t\<leftarrow>[0..<4]. mset (good_worker (length [0, 0, 0, 0, 0 :: nat]) t))"
    unfolding four_threads by (simp_all add: bad_worker.simps good_worker_def Let_def upt_rec)
  from false_sharing_versions_agree(1) [OF bad good, of Suc] show ?thesis by simp
qed

text \<open>The \<open>main\<close> of exceptionSafety.cpp: the -1 at position 15 is not the first element of a leaf, so the sum is printed.\<close>

definition exception_main :: "int option" where
  "exception_main = parallel_accumulate ((replicate 100 1)[15 := - 1]) 0 100 0"

lemma exception_main_prints: "exception_main = Some 98"
  by code_simp

end
