(* ===== verification/HazardPointers.thy ===== *)
theory HazardPointers
  imports Prelude
begin

text \<open>
  \<open>modern_cpp_core/data_structures/hazard_pointer.hpp\<close>: the table of 100 hazard pointers, the \<open>HazardPointerOwner\<close> of each
  thread, and the list of nodes to reclaim.

  An object is its address, fresh for every allocation; its \<open>DataToReclaim\<close> node has the same name, as an object is given to
  \<open>reclaim_later\<close> once (the client's contract; a second call is ignored here).  A step is one atomic access.
  A weak compare-exchange may fail spuriously: the flag of \<open>Run\<close> is false then.  Ghost components: \<open>hz_retired\<close>
  (the objects given to \<open>reclaim_later\<close>), \<open>hz_stack\<close> and \<open>hz_work\<close> (the nodes on the shared list, and the rest of a list
  that a thread has taken), \<open>hz_safe\<close> (the slot's object was not retired when its address was stored) and
  \<open>hz_fault\<close> (a deleted node was used or deleted again).
\<close>

section \<open>State\<close>

definition kMaxHazardPointers :: nat where
  "kMaxHazardPointers = 100"

datatype hz_call =
    Acquire              \<comment> \<open>\<open>get_hazard_pointer_for_current_thread\<close>\<close>
  | SetHazard "nat option" \<comment> \<open>store to the thread's hazard pointer\<close>
  | ReclaimLater nat
  | DeleteNodes          \<comment> \<open>\<open>delete_nodes_with_no_hazards\<close>\<close>
  | ThreadExit           \<comment> \<open>the destructor of the thread's \<open>HazardPointerOwner\<close>\<close>

text \<open>Where \<open>add_to_reclaim_list\<close> returns to: its caller's end, or the loop of \<open>delete_nodes_with_no_hazards\<close>.\<close>

datatype hz_back = Return | Continue "nat option"

datatype hz_pc =
    HIdle
  | TryAcquire nat
  | Exiting nat
  | AddLoad nat hz_back
  | AddCas nat hz_back
  | NextOf nat
  | Scan nat "nat option" nat

datatype hz_event = Call nat hz_call | Run nat bool

record hz_sys =
  hz_id :: "nat \<Rightarrow> nat option"
  hz_pointer :: "nat \<Rightarrow> nat option"
  hz_owner :: "nat \<Rightarrow> nat option"
  hz_head :: "nat option"
  hz_next :: "nat \<Rightarrow> nat option"
  hz_pcs :: "nat \<Rightarrow> hz_pc"
  hz_errors :: "nat list"
  hz_retired :: "nat set"
  hz_freed :: "nat set"
  hz_stack :: "nat list"
  hz_work :: "nat \<Rightarrow> nat list"
  hz_safe :: "nat \<Rightarrow> bool"
  hz_fault :: bool

definition hz_new :: hz_sys where
  "hz_new = \<lparr>hz_id = (\<lambda>_. None), hz_pointer = (\<lambda>_. None), hz_owner = (\<lambda>_. None), hz_head = None, hz_next = (\<lambda>_. None),
     hz_pcs = (\<lambda>_. HIdle), hz_errors = [], hz_retired = {}, hz_freed = {}, hz_stack = [], hz_work = (\<lambda>_. []),
     hz_safe = (\<lambda>_. False), hz_fault = False\<rparr>"

definition hz_go :: "nat \<Rightarrow> hz_pc \<Rightarrow> hz_sys \<Rightarrow> hz_sys" where
  "hz_go t pc s = s\<lparr>hz_pcs := (hz_pcs s)(t := pc)\<rparr>"

section \<open>Operations\<close>

text \<open>\<open>try_acquire\<close>: one compare-exchange per slot; past the last slot there is no hazard pointer available.\<close>

definition try_acquire :: "nat \<Rightarrow> nat \<Rightarrow> hz_sys \<Rightarrow> hz_sys" where
  "try_acquire t i s =
     (if kMaxHazardPointers \<le> i then hz_go t HIdle (s\<lparr>hz_errors := t # hz_errors s\<rparr>)
      else if hz_id s i = None then
        hz_go t HIdle (s\<lparr>hz_id := (hz_id s)(i := Some t), hz_owner := (hz_owner s)(t := Some i)\<rparr>)
      else hz_go t (TryAcquire (i + 1)) s)"

text \<open>\<open>while (current)\<close>: to the read of \<open>current->next\<close>, or out of the loop.\<close>

definition collect_loop :: "nat \<Rightarrow> nat option \<Rightarrow> hz_sys \<Rightarrow> hz_sys" where
  "collect_loop t current s =
     (case current of
        None \<Rightarrow> hz_go t HIdle s
      | Some c \<Rightarrow> hz_go t (NextOf c) (s\<lparr>hz_work := (hz_work s)(t := tl (hz_work s t))\<rparr>))"

definition hz_return :: "nat \<Rightarrow> hz_back \<Rightarrow> hz_sys \<Rightarrow> hz_sys" where
  "hz_return t back s = (case back of Return \<Rightarrow> hz_go t HIdle s | Continue current \<Rightarrow> collect_loop t current s)"

text \<open>\<open>add_to_reclaim_list\<close>: the load of the head, and the loop of compare-exchanges.\<close>

definition add_load :: "nat \<Rightarrow> nat \<Rightarrow> hz_back \<Rightarrow> hz_sys \<Rightarrow> hz_sys" where
  "add_load t node back s =
     hz_go t (AddCas node back)
       (s\<lparr>hz_next := (hz_next s)(node := hz_head s), hz_fault := (hz_fault s \<or> node \<in> hz_freed s)\<rparr>)"

definition add_cas :: "nat \<Rightarrow> bool \<Rightarrow> nat \<Rightarrow> hz_back \<Rightarrow> hz_sys \<Rightarrow> hz_sys" where
  "add_cas t strong node back s =
     (if strong \<and> hz_head s = hz_next s node then
        hz_return t back (s\<lparr>hz_head := Some node, hz_stack := node # hz_stack s\<rparr>)
      else s\<lparr>hz_next := (hz_next s)(node := hz_head s), hz_fault := (hz_fault s \<or> node \<in> hz_freed s)\<rparr>)"

text \<open>\<open>outstanding_hazard_pointers_for(current->data)\<close>, one slot per step, and what follows it.\<close>

definition scan_slot :: "nat \<Rightarrow> nat \<Rightarrow> nat option \<Rightarrow> nat \<Rightarrow> hz_sys \<Rightarrow> hz_sys" where
  "scan_slot t current nxt i s =
     (if i < kMaxHazardPointers then
        if hz_pointer s i = Some current then hz_go t (AddLoad current (Continue nxt)) s
        else hz_go t (Scan current nxt (i + 1)) s
      else
        collect_loop t nxt
          (s\<lparr>hz_freed := insert current (hz_freed s), hz_fault := (hz_fault s \<or> current \<in> hz_freed s)\<rparr>))"

definition hz_begin :: "nat \<Rightarrow> hz_call \<Rightarrow> hz_sys \<Rightarrow> hz_sys" where
  "hz_begin t c s =
     (case c of
        Acquire \<Rightarrow> if hz_owner s t = None then hz_go t (TryAcquire 0) s else s
      | SetHazard p \<Rightarrow>
          (case hz_owner s t of
             None \<Rightarrow> s
           | Some i \<Rightarrow> s\<lparr>hz_pointer := (hz_pointer s)(i := p),
               hz_safe := (hz_safe s)(i := (case p of None \<Rightarrow> False | Some x \<Rightarrow> x \<notin> hz_retired s))\<rparr>)
      | ReclaimLater p \<Rightarrow>
          if p \<in> hz_retired s then s
          else hz_go t (AddLoad p Return) (s\<lparr>hz_next := (hz_next s)(p := None), hz_retired := insert p (hz_retired s)\<rparr>)
      | DeleteNodes \<Rightarrow>
          collect_loop t (hz_head s) (s\<lparr>hz_head := None, hz_stack := [], hz_work := (hz_work s)(t := hz_stack s)\<rparr>)
      | ThreadExit \<Rightarrow>
          (case hz_owner s t of
             None \<Rightarrow> s
           | Some i \<Rightarrow> hz_go t (Exiting i)
               (s\<lparr>hz_pointer := (hz_pointer s)(i := None), hz_safe := (hz_safe s)(i := False)\<rparr>)))"

fun hz_step :: "hz_event \<Rightarrow> hz_sys \<Rightarrow> hz_sys" where
  "hz_step (Call t c) s = (if hz_pcs s t = HIdle then hz_begin t c s else s)"
| "hz_step (Run t strong) s =
     (case hz_pcs s t of
        HIdle \<Rightarrow> s
      | TryAcquire i \<Rightarrow> try_acquire t i s
      | Exiting i \<Rightarrow> hz_go t HIdle (s\<lparr>hz_id := (hz_id s)(i := None), hz_owner := (hz_owner s)(t := None)\<rparr>)
      | AddLoad node back \<Rightarrow> add_load t node back s
      | AddCas node back \<Rightarrow> add_cas t strong node back s
      | NextOf c \<Rightarrow> hz_go t (Scan c (hz_next s c) 0) (s\<lparr>hz_fault := (hz_fault s \<or> c \<in> hz_freed s)\<rparr>)
      | Scan c nxt i \<Rightarrow> scan_slot t c nxt i s)"

section \<open>Ownership\<close>

text \<open>
  \<open>owned L H A\<close>: the nodes \<open>A\<close> are distributed, without overlap, over the shared list \<open>L\<close> and the lists \<open>H t\<close> in the hands of the
  threads.
\<close>

definition owned :: "'a list \<Rightarrow> ('t \<Rightarrow> 'a list) \<Rightarrow> 'a set \<Rightarrow> bool" where
  "owned L H A \<longleftrightarrow>
     (\<forall>t. distinct (L @ H t)) \<and> (\<forall>t u. t \<noteq> u \<longrightarrow> set (H t) \<inter> set (H u) = {}) \<and> A = set L \<union> (\<Union>t. set (H t))"

text \<open>A thread moves nodes between its hands and the list, brings new ones (\<open>N\<close>) and deletes others (\<open>D\<close>).\<close>

lemma owned_move:
  assumes "owned L H A" and "distinct (L' @ X)" and "set (L' @ X) = set (L @ H t) \<union> N - D"
    and "N \<inter> A = {}" and "D \<subseteq> set (L @ H t)"
  shows "owned L' (H(t := X)) (A \<union> N - D)"
proof -
  from assms(1) have dist: "\<And>u. distinct (L @ H u)" and apart: "\<And>u v. u \<noteq> v \<Longrightarrow> set (H u) \<inter> set (H v) = {}"
    and A: "A = set L \<union> (\<Union>u. set (H u))" by (auto simp: owned_def)
  have other: "set (H u) \<inter> set (L' @ X) = {}" if "u \<noteq> t" for u
    using dist [of u] apart [OF that] assms(3,4) A by auto
  have "distinct (L' @ (H(t := X)) u)" for u
    using assms(2) dist [of u] other [of u] by (cases "u = t") auto
  moreover have "set ((H(t := X)) u) \<inter> set ((H(t := X)) v) = {}" if "u \<noteq> v" for u v
    using apart [OF that] other [of u] other [of v] that by (cases "u = t"; cases "v = t") auto
  moreover have "A \<union> N - D = set L' \<union> (\<Union>u. set ((H(t := X)) u))"
  proof -
    have "(\<Union>u. set ((H(t := X)) u)) = set X \<union> (\<Union>u\<in>- {t}. set (H u))" by (auto split: if_splits)
    moreover have "A = set (L @ H t) \<union> (\<Union>u\<in>- {t}. set (H u))" using A by auto
    moreover have "D \<inter> (\<Union>u\<in>- {t}. set (H u)) = {}"
      using assms(5) dist apart by fastforce
    ultimately show ?thesis using assms(3) by auto
  qed
  ultimately show ?thesis by (simp add: owned_def)
qed

definition held_by :: "hz_pc \<Rightarrow> nat list \<Rightarrow> nat list" where
  "held_by pc work =
     (case pc of AddLoad c b \<Rightarrow> c # work | AddCas c b \<Rightarrow> c # work | NextOf c \<Rightarrow> c # work | Scan c nxt i \<Rightarrow> c # work
      | _ \<Rightarrow> work)"

definition hz_held :: "hz_sys \<Rightarrow> nat \<Rightarrow> nat list" where
  "hz_held s t = held_by (hz_pcs s t) (hz_work s t)"

text \<open>The link that continues the list a thread has taken.\<close>

definition back_link :: "hz_back \<Rightarrow> nat option" where
  "back_link back = (case back of Return \<Rightarrow> None | Continue nxt \<Rightarrow> nxt)"

definition link_of :: "hz_sys \<Rightarrow> hz_pc \<Rightarrow> nat option" where
  "link_of s pc =
     (case pc of AddLoad c b \<Rightarrow> back_link b | AddCas c b \<Rightarrow> back_link b | NextOf c \<Rightarrow> hz_next s c | Scan c nxt i \<Rightarrow> nxt | _ \<Rightarrow> None)"

definition slots_ok :: "hz_sys \<Rightarrow> bool" where
  "slots_ok s \<longleftrightarrow>
     (\<forall>t i. hz_owner s t = Some i \<longrightarrow> i < kMaxHazardPointers \<and> hz_id s i = Some t) \<and>
     (\<forall>t i. hz_pcs s t = Exiting i \<longrightarrow> hz_owner s t = Some i) \<and>
     (\<forall>t i. hz_pcs s t = TryAcquire i \<longrightarrow> hz_owner s t = None)"

text \<open>A slot that protects its object: the object is not deleted, and no scan for it is past the slot.\<close>

definition safe_ok :: "hz_sys \<Rightarrow> bool" where
  "safe_ok s \<longleftrightarrow>
     (\<forall>i. hz_safe s i \<longrightarrow> i < kMaxHazardPointers \<and>
       (\<exists>p. hz_pointer s i = Some p \<and> p \<notin> hz_freed s \<and> (\<forall>t nxt j. hz_pcs s t = Scan p nxt j \<longrightarrow> j \<le> i)))"

definition hz_inv :: "hz_sys \<Rightarrow> bool" where
  "hz_inv s \<longleftrightarrow>
     owned (hz_stack s) (hz_held s) (hz_retired s - hz_freed s) \<and> hz_freed s \<subseteq> hz_retired s \<and>
     chain (hz_next s) (hz_head s) (hz_stack s) None \<and>
     (\<forall>t. chain (hz_next s) (link_of s (hz_pcs s t)) (hz_work s t) None) \<and>
     slots_ok s \<and> safe_ok s \<and> \<not> hz_fault s"

lemma hz_inv_new: "hz_inv hz_new"
  by (simp add: hz_inv_def hz_new_def owned_def hz_held_def held_by_def link_of_def slots_ok_def safe_ok_def)

section \<open>Every step keeps the invariant\<close>

lemma slots_ok_quiet:
  assumes "slots_ok s" and "hz_owner s' = hz_owner s" and "hz_id s' = hz_id s"
    and "\<And>u i. hz_pcs s' u = Exiting i \<Longrightarrow> hz_pcs s u = Exiting i"
    and "\<And>u i. hz_pcs s' u = TryAcquire i \<Longrightarrow> \<exists>j. hz_pcs s u = TryAcquire j"
  shows "slots_ok s'"
  unfolding slots_ok_def assms(2,3)
proof (intro conjI allI impI)
  fix t i
  show "i < kMaxHazardPointers" "hz_id s i = Some t" if "hz_owner s t = Some i" using assms(1) that by (auto simp: slots_ok_def)
  show "hz_owner s t = Some i" if "hz_pcs s' t = Exiting i" using assms(1) assms(4) [OF that] by (simp add: slots_ok_def)
  show "hz_owner s t = None" if "hz_pcs s' t = TryAcquire i"
    using assms(1) assms(5) [OF that] by (auto simp: slots_ok_def)
qed

lemma safe_ok_quiet:
  assumes "safe_ok s" and "hz_safe s' = hz_safe s" and "hz_pointer s' = hz_pointer s"
    and "\<And>p. p \<in> hz_freed s' \<Longrightarrow> p \<notin> hz_freed s \<Longrightarrow> \<exists>t nxt. hz_pcs s t = Scan p nxt kMaxHazardPointers"
    and "\<And>u p nxt j. hz_pcs s' u = Scan p nxt j \<Longrightarrow>
       j = 0 \<or> hz_pcs s u = Scan p nxt j \<or> (hz_pcs s u = Scan p nxt (j - 1) \<and> hz_pointer s (j - 1) \<noteq> Some p)"
  shows "safe_ok s'"
  unfolding safe_ok_def assms(2,3)
proof (intro allI impI)
  fix i assume "hz_safe s i"
  with assms(1) obtain p where p: "i < kMaxHazardPointers" "hz_pointer s i = Some p" "p \<notin> hz_freed s"
    and scans: "\<And>t nxt j. hz_pcs s t = Scan p nxt j \<Longrightarrow> j \<le> i" by (force simp: safe_ok_def)
  have "p \<notin> hz_freed s'" using assms(4) [of p] scans p(1,3) by fastforce
  moreover have "j \<le> i" if new: "hz_pcs s' t = Scan p nxt j" for t nxt j
    using assms(5) [OF new]
  proof (elim disjE conjE)
    assume old: "hz_pcs s t = Scan p nxt (j - 1)" "hz_pointer s (j - 1) \<noteq> Some p"
    have "j - 1 \<noteq> i" using old(2) p(2) by auto
    with scans [OF old(1)] show "j \<le> i" by linarith
  qed (use scans in auto)
  ultimately show "i < kMaxHazardPointers \<and> (\<exists>p. hz_pointer s i = Some p \<and> p \<notin> hz_freed s' \<and>
      (\<forall>t nxt j. hz_pcs s' t = Scan p nxt j \<longrightarrow> j \<le> i))" using p by blast
qed

lemma hz_held_move:
  assumes "\<forall>u. u \<noteq> t \<longrightarrow> hz_pcs s' u = hz_pcs s u \<and> hz_work s' u = hz_work s u"
  shows "hz_held s' = (hz_held s)(t := hz_held s' t)"
  using assms by (auto simp: hz_held_def fun_eq_iff)

text \<open>The moves of nodes: the thread's program counter and hands before and after, the shared list before and after.\<close>

lemma hz_inv_move:
  assumes inv: "hz_inv s"
    and others: "\<forall>u. u \<noteq> t \<longrightarrow> hz_pcs s' u = hz_pcs s u \<and> hz_work s' u = hz_work s u"
    and nodes: "distinct (hz_stack s' @ hz_held s' t)"
      "set (hz_stack s' @ hz_held s' t) = set (hz_stack s @ hz_held s t) \<union> N - D"
    and new: "N \<inter> hz_retired s = {}" "hz_retired s' = hz_retired s \<union> N"
    and del: "D \<subseteq> set (hz_stack s @ hz_held s t)" "hz_freed s' = hz_freed s \<union> D" "D \<inter> N = {}"
    and links: "\<And>n. n \<notin> N \<Longrightarrow> n \<notin> set (take 1 (hz_held s t)) \<Longrightarrow> hz_next s' n = hz_next s n"
    and mine: "chain (hz_next s') (hz_head s') (hz_stack s') None"
      "chain (hz_next s') (link_of s' (hz_pcs s' t)) (hz_work s' t) None"
    and rest: "slots_ok s'" "safe_ok s'" "\<not> hz_fault s'"
  shows "hz_inv s'"
proof -
  let ?A = "hz_retired s - hz_freed s"
  have own: "owned (hz_stack s) (hz_held s) ?A" and sub: "hz_freed s \<subseteq> hz_retired s"
    and chains: "\<And>u. chain (hz_next s) (link_of s (hz_pcs s u)) (hz_work s u) None" using inv by (auto simp: hz_inv_def)
  have A: "?A = set (hz_stack s) \<union> (\<Union>u. set (hz_held s u))" using own by (simp add: owned_def)
  have "owned (hz_stack s') ((hz_held s)(t := hz_held s' t)) (?A \<union> N - D)"
    using owned_move [OF own nodes] new(1) del(1) by blast
  moreover have "?A \<union> N - D = hz_retired s' - hz_freed s'"
    using new sub del(2) by auto
  ultimately have own': "owned (hz_stack s') (hz_held s') (hz_retired s' - hz_freed s')"
    using hz_held_move [OF others] by simp
  have "D \<subseteq> ?A" using A del(1) by auto
  then have freed: "hz_freed s' \<subseteq> hz_retired s'" using sub new(2) del(2) by blast
  have "chain (hz_next s') (link_of s' (hz_pcs s' u)) (hz_work s' u) None" if "u \<noteq> t" for u
  proof -
    have pc: "hz_pcs s' u = hz_pcs s u" and work: "hz_work s' u = hz_work s u" using others that by auto
    have "set (hz_held s u) \<inter> set (take 1 (hz_held s t)) = {}"
      using own that set_take_subset [of 1 "hz_held s t"] by (fastforce simp: owned_def)
    moreover have "set (hz_held s u) \<inter> N = {}" using A new(1) by auto
    ultimately have same: "\<And>n. n \<in> set (hz_held s u) \<Longrightarrow> hz_next s' n = hz_next s n" using links by blast
    have "set (hz_work s u) \<subseteq> set (hz_held s u)" by (auto simp: hz_held_def held_by_def split: hz_pc.splits)
    then have "chain (hz_next s') (link_of s (hz_pcs s u)) (hz_work s u) None"
      using chains [of u] chain_frame [of "hz_work s u" "hz_next s'" "hz_next s"] same by blast
    moreover have "link_of s' (hz_pcs s u) = link_of s (hz_pcs s u)"
      using same by (auto simp: link_of_def hz_held_def held_by_def split: hz_pc.splits)
    ultimately show ?thesis by (simp add: pc work)
  qed
  then have "chain (hz_next s') (link_of s' (hz_pcs s' u)) (hz_work s' u) None" for u using mine(2) by (cases "u = t") simp_all
  then show ?thesis using own' freed mine(1) rest by (simp add: hz_inv_def)
qed

lemma hz_go_simps [simp]:
  "hz_pcs (hz_go t pc s) = (hz_pcs s)(t := pc)" "hz_work (hz_go t pc s) = hz_work s" "hz_next (hz_go t pc s) = hz_next s"
  "hz_head (hz_go t pc s) = hz_head s" "hz_stack (hz_go t pc s) = hz_stack s" "hz_freed (hz_go t pc s) = hz_freed s"
  "hz_retired (hz_go t pc s) = hz_retired s" "hz_fault (hz_go t pc s) = hz_fault s" "hz_id (hz_go t pc s) = hz_id s"
  "hz_owner (hz_go t pc s) = hz_owner s" "hz_pointer (hz_go t pc s) = hz_pointer s" "hz_safe (hz_go t pc s) = hz_safe s"
  "hz_errors (hz_go t pc s) = hz_errors s"
  by (simp_all add: hz_go_def)

lemma hz_held_go [simp]: "hz_held (hz_go t pc s) t = held_by pc (hz_work s t)"
  by (simp add: hz_held_def)

lemma collect_loop_simps [simp]:
  "hz_next (collect_loop t cur s) = hz_next s" "hz_head (collect_loop t cur s) = hz_head s"
  "hz_stack (collect_loop t cur s) = hz_stack s" "hz_freed (collect_loop t cur s) = hz_freed s"
  "hz_retired (collect_loop t cur s) = hz_retired s" "hz_fault (collect_loop t cur s) = hz_fault s"
  "hz_id (collect_loop t cur s) = hz_id s" "hz_owner (collect_loop t cur s) = hz_owner s"
  "hz_pointer (collect_loop t cur s) = hz_pointer s" "hz_safe (collect_loop t cur s) = hz_safe s"
  "hz_errors (collect_loop t cur s) = hz_errors s"
  "u \<noteq> t \<Longrightarrow> hz_pcs (collect_loop t cur s) u = hz_pcs s u"
  "u \<noteq> t \<Longrightarrow> hz_work (collect_loop t cur s) u = hz_work s u"
  by (simp_all add: collect_loop_def split: option.splits)

lemma collect_loop_pc:
  "hz_pcs (collect_loop t cur s) t = (case cur of None \<Rightarrow> HIdle | Some c \<Rightarrow> NextOf c)"
  by (simp add: collect_loop_def split: option.splits)

lemma collect_loop_held:
  assumes "chain (hz_next s) cur (hz_work s t) None"
  shows "hz_held (collect_loop t cur s) t = hz_work s t"
    and "chain (hz_next s) (link_of (collect_loop t cur s) (hz_pcs (collect_loop t cur s) t))
       (hz_work (collect_loop t cur s) t) None"
  using assms by (auto simp: collect_loop_def hz_held_def held_by_def link_of_def chain_Some_None split: option.splits)

lemma hz_return_eq: "hz_return t back s = (if back_link back = None then hz_go t HIdle s else collect_loop t (back_link back) s)"
  by (simp add: hz_return_def back_link_def collect_loop_def split: hz_back.splits option.splits)

lemma hz_return_collect: "hz_return t back s = collect_loop t (back_link back) s"
  by (simp add: hz_return_eq collect_loop_def)

lemma collect_slots:
  assumes "slots_ok s" and "hz_owner s' = hz_owner s" and "hz_id s' = hz_id s" and "hz_pcs s' = hz_pcs s"
  shows "slots_ok (collect_loop t cur s')"
  by (rule slots_ok_quiet [OF assms(1)])
    (use assms in \<open>auto simp: collect_loop_def split: option.splits if_splits\<close>)

lemma thread_facts:
  assumes inv: "hz_inv s"
  shows "distinct (hz_stack s @ hz_held s t)" and "chain (hz_next s) (link_of s (hz_pcs s t)) (hz_work s t) None"
    and "set (hz_held s t) \<inter> hz_freed s = {}" and "set (hz_held s t) \<subseteq> hz_retired s"
proof -
  have A: "hz_retired s - hz_freed s = set (hz_stack s) \<union> (\<Union>u. set (hz_held s u))"
    using inv by (simp add: hz_inv_def owned_def)
  then show "set (hz_held s t) \<inter> hz_freed s = {}" "set (hz_held s t) \<subseteq> hz_retired s" by blast+
  show "distinct (hz_stack s @ hz_held s t)" using inv by (simp only: hz_inv_def owned_def)
qed (use inv in \<open>simp add: hz_inv_def\<close>)

lemma inv_facts:
  assumes inv: "hz_inv s"
  shows "chain (hz_next s) (hz_head s) (hz_stack s) None" and "slots_ok s" and "safe_ok s" and "\<not> hz_fault s"
    and "set (hz_stack s) \<subseteq> hz_retired s"
  using inv by (auto simp: hz_inv_def owned_def)

lemma hz_inv_add_load:
  assumes inv: "hz_inv s" and pc: "hz_pcs s t = AddLoad c b"
  shows "hz_inv (add_load t c b s)"
proof -
  have held: "hz_held s t = c # hz_work s t" using pc by (simp add: hz_held_def held_by_def)
  note f = thread_facts [OF inv, of t] inv_facts [OF inv]
  show ?thesis
  proof (rule hz_inv_move [OF inv, where t = t and N = "{}" and D = "{}"])
    show "slots_ok (add_load t c b s)"
      by (rule slots_ok_quiet [OF f(6)]) (auto simp: add_load_def split: if_splits)
    show "safe_ok (add_load t c b s)"
      by (rule safe_ok_quiet [OF f(7)]) (auto simp: add_load_def split: if_splits)
  qed (use f pc in \<open>auto simp: held held_by_def add_load_def link_of_def\<close>)
qed

lemma hz_inv_add_cas:
  assumes inv: "hz_inv s" and pc: "hz_pcs s t = AddCas c b"
  shows "hz_inv (add_cas t strong c b s)"
proof -
  have held: "hz_held s t = c # hz_work s t" using pc by (simp add: hz_held_def held_by_def)
  note f = thread_facts [OF inv, of t] inv_facts [OF inv]
  show ?thesis
  proof (cases "strong \<and> hz_head s = hz_next s c")
    case True
    define s1 where "s1 = s\<lparr>hz_head := Some c, hz_stack := c # hz_stack s\<rparr>"
    have eq: "add_cas t strong c b s = collect_loop t (back_link b) s1"
      using True by (simp add: add_cas_def s1_def hz_return_collect)
    have chain1: "chain (hz_next s1) (back_link b) (hz_work s1 t) None" using f(2) pc by (simp add: s1_def link_of_def)
    note c = collect_loop_held [OF chain1]
    show ?thesis unfolding eq
    proof (rule hz_inv_move [OF inv, where t = t and N = "{}" and D = "{}"])
      show "slots_ok (collect_loop t (back_link b) s1)" by (rule collect_slots [OF f(6)]) (simp_all add: s1_def)
      show "safe_ok (collect_loop t (back_link b) s1)"
        by (rule safe_ok_quiet [OF f(7)]) (auto simp: s1_def collect_loop_def split: option.splits if_splits)
      show "chain (hz_next (collect_loop t (back_link b) s1)) (hz_head (collect_loop t (back_link b) s1))
          (hz_stack (collect_loop t (back_link b) s1)) None"
        using f(5) True by (simp add: s1_def)
      show "chain (hz_next (collect_loop t (back_link b) s1))
          (link_of (collect_loop t (back_link b) s1) (hz_pcs (collect_loop t (back_link b) s1) t))
          (hz_work (collect_loop t (back_link b) s1) t) None" using c(2) by simp
    qed (use f(1,8) in \<open>auto simp: s1_def held c(1) [unfolded s1_def]\<close>)
  next
    case False
    then have eq: "add_cas t strong c b s = s\<lparr>hz_next := (hz_next s)(c := hz_head s), hz_fault := (hz_fault s \<or> c \<in> hz_freed s)\<rparr>"
      by (auto simp: add_cas_def)
    show ?thesis unfolding eq
    proof (rule hz_inv_move [OF inv, where t = t and N = "{}" and D = "{}"])
      show "slots_ok (s\<lparr>hz_next := (hz_next s)(c := hz_head s), hz_fault := (hz_fault s \<or> c \<in> hz_freed s)\<rparr>)"
        using f(6) by (simp add: slots_ok_def)
      show "safe_ok (s\<lparr>hz_next := (hz_next s)(c := hz_head s), hz_fault := (hz_fault s \<or> c \<in> hz_freed s)\<rparr>)"
        using f(7) by (simp add: safe_ok_def)
    qed (use f held pc in \<open>auto simp: hz_held_def held_by_def link_of_def\<close>)
  qed
qed

text \<open>Moves of the program counter and of the slots that touch no node.\<close>

lemma hz_inv_still:
  assumes inv: "hz_inv s"
    and others: "\<forall>u. u \<noteq> t \<longrightarrow> hz_pcs s' u = hz_pcs s u"
    and same: "hz_work s' = hz_work s" "hz_stack s' = hz_stack s" "hz_head s' = hz_head s" "hz_next s' = hz_next s"
      "hz_freed s' = hz_freed s" "hz_retired s' = hz_retired s" "hz_fault s' = hz_fault s"
    and hands: "held_by (hz_pcs s' t) (hz_work s t) = hz_held s t" "link_of s' (hz_pcs s' t) = link_of s (hz_pcs s t)"
    and rest: "slots_ok s'" "safe_ok s'"
  shows "hz_inv s'"
proof -
  note f = thread_facts [OF inv, of t] inv_facts [OF inv]
  have held: "hz_held s' t = hz_held s t" using hands(1) by (simp add: hz_held_def same)
  show ?thesis
    by (rule hz_inv_move [OF inv, where t = t and N = "{}" and D = "{}"])
      (use f others hands rest in \<open>auto simp: held same\<close>)
qed

lemma hz_inv_try_acquire:
  assumes inv: "hz_inv s" and pc: "hz_pcs s t = TryAcquire i"
  shows "hz_inv (try_acquire t i s)"
proof -
  note f = inv_facts [OF inv]
  have own: "hz_owner s t = None" using f(2) pc by (simp add: slots_ok_def)
  have slots: "slots_ok (try_acquire t i s)"
    using f(2) own by (auto simp: slots_ok_def try_acquire_def)
  have safe: "safe_ok (try_acquire t i s)"
    by (rule safe_ok_quiet [OF f(3)]) (auto simp: try_acquire_def split: if_splits)
  show ?thesis
    by (rule hz_inv_still [OF inv _ _ _ _ _ _ _ _ _ _ slots safe, where t = t])
      (use pc in \<open>auto simp: try_acquire_def hz_held_def held_by_def link_of_def\<close>)
qed

lemma hz_inv_exiting:
  assumes inv: "hz_inv s" and pc: "hz_pcs s t = Exiting i"
  shows "hz_inv (hz_go t HIdle (s\<lparr>hz_id := (hz_id s)(i := None), hz_owner := (hz_owner s)(t := None)\<rparr>))" (is "hz_inv ?s")
proof -
  note f = inv_facts [OF inv]
  have own: "hz_owner s t = Some i" using f(2) pc by (simp add: slots_ok_def)
  have "hz_owner s u \<noteq> Some i" if "u \<noteq> t" for u
    using f(2) own that unfolding slots_ok_def by (metis option.inject)
  then have slots: "slots_ok ?s" using f(2) by (auto simp: slots_ok_def)
  have safe: "safe_ok ?s" by (rule safe_ok_quiet [OF f(3)]) (auto split: if_splits)
  show ?thesis
    by (rule hz_inv_still [OF inv _ _ _ _ _ _ _ _ _ _ slots safe, where t = t])
      (use pc in \<open>auto simp: hz_held_def held_by_def link_of_def\<close>)
qed

lemma hz_inv_next_of:
  assumes inv: "hz_inv s" and pc: "hz_pcs s t = NextOf c"
  shows "hz_inv (hz_go t (Scan c (hz_next s c) 0) (s\<lparr>hz_fault := (hz_fault s \<or> c \<in> hz_freed s)\<rparr>))" (is "hz_inv ?s")
proof -
  note f = thread_facts [OF inv, of t] inv_facts [OF inv]
  have held: "hz_held s t = c # hz_work s t" using pc by (simp add: hz_held_def held_by_def)
  have slots: "slots_ok ?s" by (rule slots_ok_quiet [OF f(6)]) (auto split: if_splits)
  have safe: "safe_ok ?s" by (rule safe_ok_quiet [OF f(7)]) (auto split: if_splits)
  show ?thesis
    by (rule hz_inv_still [OF inv _ _ _ _ _ _ _ _ _ _ slots safe, where t = t])
      (use pc f held in \<open>auto simp: hz_held_def held_by_def link_of_def\<close>)
qed

lemma hz_inv_scan_slot:
  assumes inv: "hz_inv s" and pc: "hz_pcs s t = Scan c nxt i" and i: "i \<le> kMaxHazardPointers"
  shows "hz_inv (scan_slot t c nxt i s)"
proof -
  note f = thread_facts [OF inv, of t] inv_facts [OF inv]
  have held: "hz_held s t = c # hz_work s t" using pc by (simp add: hz_held_def held_by_def)
  show ?thesis
  proof (cases "i < kMaxHazardPointers")
    case True
    have slots: "slots_ok (scan_slot t c nxt i s)"
      by (rule slots_ok_quiet [OF f(6)]) (use True in \<open>auto simp: scan_slot_def split: if_splits\<close>)
    have safe: "safe_ok (scan_slot t c nxt i s)"
      by (rule safe_ok_quiet [OF f(7)]) (use True pc in \<open>auto simp: scan_slot_def split: if_splits\<close>)
    show ?thesis
      by (rule hz_inv_still [OF inv _ _ _ _ _ _ _ _ _ _ slots safe, where t = t])
        (use pc True in \<open>auto simp: scan_slot_def hz_held_def held_by_def link_of_def back_link_def\<close>)
  next
    case False
    define s1 where "s1 = s\<lparr>hz_freed := insert c (hz_freed s), hz_fault := (hz_fault s \<or> c \<in> hz_freed s)\<rparr>"
    have eq: "scan_slot t c nxt i s = collect_loop t nxt s1" using False by (simp add: scan_slot_def s1_def)
    have "chain (hz_next s1) nxt (hz_work s1 t) None" using f(2) pc by (simp add: s1_def link_of_def)
    note c = collect_loop_held [OF this]
    have c': "chain (hz_next (collect_loop t nxt s1)) (link_of (collect_loop t nxt s1) (hz_pcs (collect_loop t nxt s1) t))
        (hz_work (collect_loop t nxt s1) t) None" using c(2) by simp
    have last: "i = kMaxHazardPointers" using False i by simp
    have slots: "slots_ok (collect_loop t nxt s1)" by (rule collect_slots [OF f(6)]) (simp_all add: s1_def)
    have safe: "safe_ok (collect_loop t nxt s1)"
      by (rule safe_ok_quiet [OF f(7)])
        (use pc last in \<open>auto simp: s1_def collect_loop_def split: option.splits if_splits\<close>)
    have s1: "hz_work s1 = hz_work s" "hz_stack s1 = hz_stack s" "hz_head s1 = hz_head s" "hz_next s1 = hz_next s"
      "hz_retired s1 = hz_retired s" "hz_freed s1 = hz_freed s \<union> {c}" "hz_pcs s1 = hz_pcs s" "\<not> hz_fault s1"
      using f(3,8) held by (simp_all add: s1_def)
    have work: "hz_held (collect_loop t nxt s1) t = hz_work s t" using c(1) by (simp add: s1)
    show ?thesis unfolding eq
      by (rule hz_inv_move [OF inv _ _ _ _ _ _ _ _ _ _ c' slots safe, where N = "{}" and D = "{c}"])
        (use f held in \<open>auto simp: work s1\<close>)
  qed
qed

lemma hz_inv_begin:
  assumes inv: "hz_inv s" and pc: "hz_pcs s t = HIdle"
  shows "hz_inv (hz_begin t c s)"
proof -
  note f = thread_facts [OF inv, of t] inv_facts [OF inv]
  have work: "hz_work s t = []" using f(2) pc by (simp add: link_of_def)
  show ?thesis
  proof (cases c)
    case Acquire
    have slots: "slots_ok (hz_begin t c s)" using f(6) pc by (auto simp: slots_ok_def Acquire hz_begin_def)
    have safe: "safe_ok (hz_begin t c s)"
      by (rule safe_ok_quiet [OF f(7)]) (auto simp: Acquire hz_begin_def split: if_splits)
    show ?thesis
      by (rule hz_inv_still [OF inv _ _ _ _ _ _ _ _ _ _ slots safe, where t = t])
        (use pc in \<open>auto simp: Acquire hz_begin_def hz_held_def held_by_def link_of_def\<close>)
  next
    case (SetHazard p)
    show ?thesis
    proof (cases "hz_owner s t")
      case (Some i)
      have i: "i < kMaxHazardPointers" using f(6) Some by (simp add: slots_ok_def)
      have slots: "slots_ok (hz_begin t c s)" using f(6) by (simp add: slots_ok_def SetHazard hz_begin_def Some)
      have "x \<notin> hz_freed s \<and> hz_pcs s u \<noteq> Scan x nxt j" if x: "x \<notin> hz_retired s" for x u nxt j
      proof -
        have "set (hz_held s u) \<subseteq> hz_retired s" by (rule thread_facts(4) [OF inv])
        with x inv show ?thesis by (auto simp: hz_held_def held_by_def hz_inv_def)
      qed
      then have safe: "safe_ok (hz_begin t c s)"
        using f(7) i by (auto simp: safe_ok_def SetHazard hz_begin_def Some split: option.splits)
      show ?thesis
        by (rule hz_inv_still [OF inv _ _ _ _ _ _ _ _ _ _ slots safe, where t = t])
          (use pc in \<open>auto simp: SetHazard Some hz_begin_def hz_held_def held_by_def link_of_def\<close>)
    qed (use inv in \<open>simp add: SetHazard hz_begin_def\<close>)
  next
    case (ReclaimLater p)
    show ?thesis
    proof (cases "p \<in> hz_retired s")
      case False
      have p: "p \<notin> set (hz_stack s)" using False f(9) by auto
      have slots: "slots_ok (hz_begin t c s)"
        by (rule slots_ok_quiet [OF f(6)]) (auto simp: ReclaimLater hz_begin_def split: if_splits)
      have safe: "safe_ok (hz_begin t c s)"
        by (rule safe_ok_quiet [OF f(7)]) (auto simp: ReclaimLater hz_begin_def split: if_splits)
      show ?thesis
        by (rule hz_inv_move [OF inv _ _ _ _ _ _ _ _ _ _ _ slots safe, where N = "{p}" and D = "{}" and t = t])
          (use False p f pc work in \<open>auto simp: ReclaimLater hz_begin_def held_by_def hz_held_def link_of_def back_link_def\<close>)
    qed (use inv in \<open>simp add: ReclaimLater hz_begin_def\<close>)
  next
    case DeleteNodes
    define s1 where "s1 = s\<lparr>hz_head := None, hz_stack := [], hz_work := (hz_work s)(t := hz_stack s)\<rparr>"
    have eq: "hz_begin t c s = collect_loop t (hz_head s) s1" by (simp add: DeleteNodes hz_begin_def s1_def)
    have "chain (hz_next s1) (hz_head s) (hz_work s1 t) None" using f(5) by (simp add: s1_def)
    note c = collect_loop_held [OF this]
    have c': "chain (hz_next (collect_loop t (hz_head s) s1))
        (link_of (collect_loop t (hz_head s) s1) (hz_pcs (collect_loop t (hz_head s) s1) t))
        (hz_work (collect_loop t (hz_head s) s1) t) None" using c(2) by simp
    have slots: "slots_ok (collect_loop t (hz_head s) s1)" by (rule collect_slots [OF f(6)]) (simp_all add: s1_def)
    have safe: "safe_ok (collect_loop t (hz_head s) s1)"
      by (rule safe_ok_quiet [OF f(7)]) (auto simp: s1_def collect_loop_def split: option.splits if_splits)
    have held: "hz_held (collect_loop t (hz_head s) s1) t = hz_stack s" using c(1) by (simp add: s1_def)
    have none: "hz_held s t = []" using pc work by (simp add: hz_held_def held_by_def)
    show ?thesis unfolding eq
      by (rule hz_inv_move [OF inv _ _ _ _ _ _ _ _ _ _ c' slots safe, where N = "{}" and D = "{}"])
        (use f in \<open>auto simp: held [unfolded s1_def] none s1_def\<close>)
  next
    case ThreadExit
    show ?thesis
    proof (cases "hz_owner s t")
      case (Some i)
      have slots: "slots_ok (hz_begin t c s)" using f(6) Some by (auto simp: slots_ok_def ThreadExit hz_begin_def)
      have safe: "safe_ok (hz_begin t c s)"
        using f(7) by (auto simp: safe_ok_def ThreadExit hz_begin_def Some)
      show ?thesis
        by (rule hz_inv_still [OF inv _ _ _ _ _ _ _ _ _ _ slots safe, where t = t])
          (use pc in \<open>auto simp: ThreadExit Some hz_begin_def hz_held_def held_by_def link_of_def\<close>)
    qed (use inv in \<open>simp add: ThreadExit hz_begin_def\<close>)
  qed
qed

lemma hz_inv_step_bounded:
  assumes inv: "hz_inv s" and bounds: "\<forall>t c nxt i. hz_pcs s t = Scan c nxt i \<longrightarrow> i \<le> kMaxHazardPointers"
  shows "hz_inv (hz_step e s) \<and> (\<forall>t c nxt i. hz_pcs (hz_step e s) t = Scan c nxt i \<longrightarrow> i \<le> kMaxHazardPointers)"
proof (cases e)
  case (Call t c)
  have "hz_pcs (hz_begin t c s) u = Scan d nxt i \<Longrightarrow> i \<le> kMaxHazardPointers" for u d nxt i
    using bounds by (auto simp: hz_begin_def collect_loop_def split: hz_call.splits option.splits if_splits)
  then show ?thesis using inv bounds hz_inv_begin [OF inv, of t c] by (auto simp: Call)
next
  case (Run t strong)
  have "hz_inv (hz_step (Run t strong) s)"
  proof (cases "hz_pcs s t")
    case (Scan c nxt i)
    then show ?thesis using hz_inv_scan_slot [OF inv Scan] bounds by simp
  qed (use inv in \<open>simp_all add: hz_inv_try_acquire hz_inv_exiting hz_inv_add_load hz_inv_add_cas hz_inv_next_of\<close>)
  moreover have "i \<le> kMaxHazardPointers" if new: "hz_pcs (hz_step (Run t strong) s) u = Scan c nxt i" for u c nxt i
    using new bounds
    by (auto simp: try_acquire_def add_load_def add_cas_def scan_slot_def hz_return_collect collect_loop_def
        split: hz_pc.splits option.splits if_splits)
  ultimately show ?thesis using Run by blast
qed

definition hz_good :: "hz_sys \<Rightarrow> bool" where
  "hz_good s \<longleftrightarrow> hz_inv s \<and> (\<forall>t c nxt i. hz_pcs s t = Scan c nxt i \<longrightarrow> i \<le> kMaxHazardPointers)"

interpretation hz: interleaving hz_step hz_good
  by unfold_locales (use hz_inv_step_bounded in \<open>unfold hz_good_def, blast\<close>)

lemma hz_good_new: "hz_good hz_new"
  using hz_inv_new by (simp add: hz_good_def hz_new_def)

section \<open>Properties\<close>

text \<open>
  (C7) In every interleaving, an object whose address a thread stored in its hazard pointer before the object was given to
  \<open>reclaim_later\<close>, and has not replaced since, is not deleted; no node is used or deleted after its deletion.
\<close>

theorem hazard_pointer_protects:
  assumes "s = run_sched hz_step es hz_new"
  shows "(hz_safe s i \<longrightarrow> (\<exists>p. hz_pointer s i = Some p \<and> p \<notin> hz_freed s)) \<and> \<not> hz_fault s"
  using hz.sched_keeps [OF hz_good_new, of es] by (auto simp: assms hz_good_def hz_inv_def safe_ok_def)

lemma hazard_pointer_protects_witness:
  "\<exists>p. hz_pointer (run_sched hz_step ([Call 0 Acquire, Run 0 True, Call 0 (SetHazard (Some 7)), Call 1 (ReclaimLater 7),
      Run 1 True, Run 1 True, Call 1 DeleteNodes] @ replicate 5 (Run 1 True)) hz_new) 0 = Some p \<and>
    p \<notin> hz_freed (run_sched hz_step ([Call 0 Acquire, Run 0 True, Call 0 (SetHazard (Some 7)), Call 1 (ReclaimLater 7),
      Run 1 True, Run 1 True, Call 1 DeleteNodes] @ replicate 5 (Run 1 True)) hz_new)"
  by (rule hazard_pointer_protects [OF refl, THEN conjunct1, rule_format]) code_simp

text \<open>
  No retired object is lost: it is deleted, on the shared list, or in the hands of exactly one thread that is adding or examining
  it.
\<close>

theorem retired_objects_conserved:
  assumes "s = run_sched hz_step es hz_new"
  shows "hz_retired s = hz_freed s \<union> set (hz_stack s) \<union> (\<Union>t. set (hz_held s t))"
    and "chain (hz_next s) (hz_head s) (hz_stack s) None"
    and "\<forall>t. (set (hz_stack s) \<union> set (hz_held s t)) \<inter> hz_freed s = {} \<and> distinct (hz_stack s @ hz_held s t)"
    and "\<forall>t u. t \<noteq> u \<longrightarrow> set (hz_held s t) \<inter> set (hz_held s u) = {}"
proof -
  have inv: "hz_inv s" using hz.sched_keeps [OF hz_good_new, of es] by (simp add: assms hz_good_def)
  then have own: "owned (hz_stack s) (hz_held s) (hz_retired s - hz_freed s)" and sub: "hz_freed s \<subseteq> hz_retired s"
    and "chain (hz_next s) (hz_head s) (hz_stack s) None" by (simp_all add: hz_inv_def)
  then have A: "hz_retired s - hz_freed s = set (hz_stack s) \<union> (\<Union>t. set (hz_held s t))" by (simp add: owned_def)
  show "hz_retired s = hz_freed s \<union> set (hz_stack s) \<union> (\<Union>t. set (hz_held s t))" using A sub by blast
  show "chain (hz_next s) (hz_head s) (hz_stack s) None" by fact
  show "\<forall>t. (set (hz_stack s) \<union> set (hz_held s t)) \<inter> hz_freed s = {} \<and> distinct (hz_stack s @ hz_held s t)"
    using A own unfolding owned_def by blast
  show "\<forall>t u. t \<noteq> u \<longrightarrow> set (hz_held s t) \<inter> set (hz_held s u) = {}" using own by (simp add: owned_def)
qed

lemma retired_objects_conserved_witness:
  "\<exists>s. s = run_sched hz_step [Call 1 (ReclaimLater 7), Run 1 True, Call 2 (ReclaimLater 8)] hz_new \<and>
     {7, 8} = hz_freed s \<union> set (hz_stack s) \<union> (\<Union>t. set (hz_held s t))"
  using retired_objects_conserved(1) [OF refl, of "[Call 1 (ReclaimLater 7), Run 1 True, Call 2 (ReclaimLater 8)]"]
  by (simp add: hz_begin_def add_load_def hz_new_def insert_commute)

text \<open>
  A slot belongs to one thread at a time, so that at most 100 threads have a hazard pointer.
\<close>

theorem hazard_slots_exclusive:
  assumes "s = run_sched hz_step es hz_new"
  shows "hz_owner s t = Some i \<Longrightarrow> hz_owner s u = Some i \<Longrightarrow> t = u"
    and "finite {t. hz_owner s t \<noteq> None} \<and> card {t. hz_owner s t \<noteq> None} \<le> kMaxHazardPointers"
proof -
  have "slots_ok s" using hz.sched_keeps [OF hz_good_new, of es] by (simp add: assms hz_good_def hz_inv_def)
  then have own: "\<And>t i. hz_owner s t = Some i \<Longrightarrow> i < kMaxHazardPointers \<and> hz_id s i = Some t" by (simp add: slots_ok_def)
  show "hz_owner s t = Some i \<Longrightarrow> hz_owner s u = Some i \<Longrightarrow> t = u" using own [of t i] own [of u i] by simp
  have "inj_on (\<lambda>t. the (hz_owner s t)) {t. hz_owner s t \<noteq> None}"
  proof (rule inj_onI)
    fix t u assume "t \<in> {t. hz_owner s t \<noteq> None}" "u \<in> {t. hz_owner s t \<noteq> None}" "the (hz_owner s t) = the (hz_owner s u)"
    then obtain i where "hz_owner s t = Some i" "hz_owner s u = Some i" by auto
    then show "t = u" using own [of t i] own [of u i] by simp
  qed
  moreover have "(\<lambda>t. the (hz_owner s t)) ` {t. hz_owner s t \<noteq> None} \<subseteq> {..<kMaxHazardPointers}" using own by auto
  ultimately show "finite {t. hz_owner s t \<noteq> None} \<and> card {t. hz_owner s t \<noteq> None} \<le> kMaxHazardPointers"
    by (metis card_inj_on_le card_lessThan finite_lessThan inj_on_finite)
qed

lemma hazard_slots_exclusive_witness:
  "card {t. hz_owner (run_sched hz_step [Call 0 Acquire, Run 0 True, Call 1 Acquire, Run 1 True] hz_new) t \<noteq> None}
     \<le> kMaxHazardPointers"
  using hazard_slots_exclusive(2) [OF refl, of "[Call 0 Acquire, Run 0 True, Call 1 Acquire, Run 1 True]"] by blast

section \<open>A thread running alone\<close>

definition alone :: "nat \<Rightarrow> hz_sys \<Rightarrow> hz_sys \<Rightarrow> bool" where
  "alone t s s' \<longleftrightarrow> (\<exists>n. run_sched hz_step (replicate n (Run t True)) s = s')"

lemma alone_refl: "alone t s s"
  unfolding alone_def by (rule exI [of _ 0]) simp

lemma alone_step: "alone t (hz_step (Run t True) s) s' \<Longrightarrow> alone t s s'"
  unfolding alone_def by (metis replicate_Suc run_sched.simps(2))

lemma alone_trans: "alone t s s' \<Longrightarrow> alone t s' s'' \<Longrightarrow> alone t s s''"
  unfolding alone_def by (metis replicate_add run_sched_append)

lemma alone_good: "alone t s s' \<Longrightarrow> hz_good s \<Longrightarrow> hz_good s'"
  unfolding alone_def using hz.sched_keeps by blast

text \<open>A hazard pointer names the object.\<close>

definition hazardous :: "hz_sys \<Rightarrow> nat \<Rightarrow> bool" where
  "hazardous s p \<longleftrightarrow> (\<exists>i<kMaxHazardPointers. hz_pointer s i = Some p)"

lemma hz_go_go [simp]: "hz_go t a (hz_go t b s) = hz_go t a s"
  by (simp add: hz_go_def)

lemma hz_go_same: "hz_pcs s t = pc \<Longrightarrow> hz_go t pc s = s"
  by (auto simp: hz_go_def)

lemma ex_from_next: "\<not> P i \<Longrightarrow> (\<exists>j. i \<le> j \<and> j < n \<and> P j) \<longleftrightarrow> (\<exists>j. i + 1 \<le> j \<and> j < n \<and> P j)" for i n :: nat
  using le_eq_less_or_eq Suc_leD Suc_leI by (metis Suc_eq_plus1)

lemma scan_alone:
  assumes "hz_pcs s t = Scan c nxt i" and "i \<le> kMaxHazardPointers"
  shows "alone t s
    (if \<exists>j. i \<le> j \<and> j < kMaxHazardPointers \<and> hz_pointer s j = Some c then hz_go t (AddLoad c (Continue nxt)) s
     else scan_slot t c nxt kMaxHazardPointers s)"
  using assms
proof (induction "kMaxHazardPointers - i" arbitrary: i s)
  case 0
  then have i: "i = kMaxHazardPointers" by simp
  have none: "\<not> (\<exists>j. i \<le> j \<and> j < kMaxHazardPointers \<and> hz_pointer s j = Some c)" unfolding i by auto
  show ?case unfolding if_not_P [OF none] using 0(2) unfolding i by (intro alone_step [of t s]) (simp add: alone_refl)
next
  case (Suc k)
  then have i: "i < kMaxHazardPointers" by linarith
  show ?case
  proof (cases "hz_pointer s i = Some c")
    case True
    then have "\<exists>j. i \<le> j \<and> j < kMaxHazardPointers \<and> hz_pointer s j = Some c" using i by blast
    then show ?thesis using True i Suc.prems by (intro alone_step [of t s]) (simp add: scan_slot_def alone_refl)
  next
    case False
    let ?s = "hz_go t (Scan c nxt (i + 1)) s"
    have step: "hz_step (Run t True) s = ?s" using False i Suc.prems by (simp add: scan_slot_def)
    have slots: "(\<exists>j. i \<le> j \<and> j < kMaxHazardPointers \<and> hz_pointer s j = Some c) \<longleftrightarrow>
        (\<exists>j. i + 1 \<le> j \<and> j < kMaxHazardPointers \<and> hz_pointer s j = Some c)"
      using False by (rule ex_from_next)
    have delete: "scan_slot t c nxt kMaxHazardPointers ?s = scan_slot t c nxt kMaxHazardPointers s"
      by (simp add: scan_slot_def collect_loop_def hz_go_def split: option.splits)
    have "alone t ?s (if \<exists>j. i + 1 \<le> j \<and> j < kMaxHazardPointers \<and> hz_pointer ?s j = Some c
        then hz_go t (AddLoad c (Continue nxt)) ?s else scan_slot t c nxt kMaxHazardPointers ?s)"
      by (rule Suc.hyps(1)) (use Suc.hyps(2) i in simp_all)
    then show ?thesis unfolding slots hz_go_simps hz_go_go delete by (intro alone_step [of t s, unfolded step])
  qed
qed

lemma add_alone:
  assumes "hz_pcs s t = AddLoad c b"
  shows "alone t s (collect_loop t (back_link b)
    (s\<lparr>hz_next := (hz_next s)(c := hz_head s), hz_fault := (hz_fault s \<or> c \<in> hz_freed s),
       hz_head := Some c, hz_stack := c # hz_stack s\<rparr>))"
proof -
  have "hz_step (Run t True) (hz_step (Run t True) s) = collect_loop t (back_link b)
    (s\<lparr>hz_next := (hz_next s)(c := hz_head s), hz_fault := (hz_fault s \<or> c \<in> hz_freed s),
       hz_head := Some c, hz_stack := c # hz_stack s\<rparr>)"
    using assms by (simp add: add_load_def add_cas_def hz_return_collect collect_loop_def hz_go_def split: option.splits)
  then show ?thesis by (intro alone_step [of t s] alone_step [of t "hz_step (Run t True) s"]) (simp add: alone_refl)
qed

text \<open>One round of the loop of \<open>delete_nodes_with_no_hazards\<close>, and all of them.\<close>

lemma round_alone:
  assumes "hz_good s" and "hz_pcs s t = NextOf c"
  shows "\<exists>s'. alone t s s' \<and>
     hz_stack s' = (if hazardous s c then c # hz_stack s else hz_stack s) \<and>
     hz_freed s' = (if hazardous s c then hz_freed s else insert c (hz_freed s)) \<and>
     hz_pointer s' = hz_pointer s \<and>
     (case hz_work s t of [] \<Rightarrow> hz_pcs s' t = HIdle | d # ds \<Rightarrow> hz_pcs s' t = NextOf d \<and> hz_work s' t = ds)"
proof -
  have ch: "chain (hz_next s) (hz_next s c) (hz_work s t) None"
    using thread_facts(2) [of s t] assms by (simp add: hz_good_def link_of_def)
  let ?s = "hz_go t (Scan c (hz_next s c) 0) (s\<lparr>hz_fault := (hz_fault s \<or> c \<in> hz_freed s)\<rparr>)"
  have first: "hz_step (Run t True) s = ?s" using assms(2) by simp
  have haz: "(\<exists>j\<ge>0. j < kMaxHazardPointers \<and> hz_pointer ?s j = Some c) \<longleftrightarrow> hazardous s c" by (auto simp: hazardous_def)
  have scan: "alone t ?s (if hazardous s c then hz_go t (AddLoad c (Continue (hz_next s c))) ?s
      else scan_slot t c (hz_next s c) kMaxHazardPointers ?s)"
    using scan_alone [of ?s t c "hz_next s c" 0] haz by simp
  show ?thesis
  proof (cases "hazardous s c")
    case True
    let ?a = "hz_go t (AddLoad c (Continue (hz_next s c))) ?s"
    define s' where "s' = collect_loop t (hz_next s c)
      (?a\<lparr>hz_next := (hz_next ?a)(c := hz_head ?a), hz_fault := (hz_fault ?a \<or> c \<in> hz_freed ?a),
         hz_head := Some c, hz_stack := c # hz_stack ?a\<rparr>)"
    have "alone t ?a s'" using add_alone [of ?a t c "Continue (hz_next s c)"] by (simp add: s'_def back_link_def)
    then have "alone t s s'" using scan True first by (intro alone_step [of t s]) (auto intro: alone_trans)
    moreover have "case hz_work s t of [] \<Rightarrow> hz_pcs s' t = HIdle | d # ds \<Rightarrow> hz_pcs s' t = NextOf d \<and> hz_work s' t = ds"
      using ch by (auto simp: s'_def collect_loop_def split: list.splits)
    ultimately show ?thesis using True by (intro exI [of _ s']) (simp add: s'_def)
  next
    case False
    define s' where "s' = scan_slot t c (hz_next s c) kMaxHazardPointers ?s"
    have "alone t s s'" using scan False first by (intro alone_step [of t s]) (simp add: s'_def)
    moreover have "case hz_work s t of [] \<Rightarrow> hz_pcs s' t = HIdle | d # ds \<Rightarrow> hz_pcs s' t = NextOf d \<and> hz_work s' t = ds"
      using ch by (auto simp: s'_def scan_slot_def collect_loop_def split: list.splits)
    ultimately show ?thesis using False by (intro exI [of _ s']) (simp add: s'_def scan_slot_def)
  qed
qed

lemma rounds_alone:
  assumes "hz_good s" and "hz_pcs s t = NextOf c" and "hz_work s t = cs"
  shows "\<exists>s'. alone t s s' \<and> hz_pcs s' t = HIdle \<and>
     hz_stack s' = rev (filter (hazardous s) (c # cs)) @ hz_stack s \<and>
     hz_freed s' = hz_freed s \<union> set (filter (\<lambda>p. \<not> hazardous s p) (c # cs))"
  using assms
proof (induction cs arbitrary: c s)
  case Nil
  obtain s' where "alone t s s' \<and> hz_pcs s' t = HIdle \<and> hz_stack s' = (if hazardous s c then c # hz_stack s else hz_stack s) \<and>
      hz_freed s' = (if hazardous s c then hz_freed s else insert c (hz_freed s))"
    using round_alone [OF Nil(1,2)] Nil(3) by auto
  then show ?case by (intro exI [of _ s']) simp
next
  case (Cons d cs)
  obtain s1 where s1: "alone t s s1" "hz_pcs s1 t = NextOf d" "hz_work s1 t = cs" "hz_pointer s1 = hz_pointer s"
    "hz_stack s1 = (if hazardous s c then c # hz_stack s else hz_stack s)"
    "hz_freed s1 = (if hazardous s c then hz_freed s else insert c (hz_freed s))"
    using round_alone [OF Cons.prems(1,2)] Cons.prems(3) by auto
  have same: "hazardous s1 = hazardous s" using s1(4) by (simp add: hazardous_def fun_eq_iff)
  obtain s2 where "alone t s1 s2" "hz_pcs s2 t = HIdle"
    "hz_stack s2 = rev (filter (hazardous s) (d # cs)) @ hz_stack s1"
    "hz_freed s2 = hz_freed s1 \<union> set (filter (\<lambda>p. \<not> hazardous s p) (d # cs))"
    using Cons.IH [OF alone_good [OF s1(1) Cons.prems(1)] s1(2,3)] unfolding same by blast
  then show ?case using s1 by (intro exI [of _ s2]) (auto intro: alone_trans)
qed

text \<open>
  While no other thread moves, \<open>delete_nodes_with_no_hazards\<close> finishes, deletes exactly the nodes on the list that no hazard
  pointer names, and puts the others back.
\<close>

theorem delete_nodes_exact:
  assumes "s = run_sched hz_step es hz_new" and "hz_pcs s t = HIdle"
  shows "\<exists>s'. alone t (hz_step (Call t DeleteNodes) s) s' \<and> hz_pcs s' t = HIdle \<and>
     hz_stack s' = rev (filter (hazardous s) (hz_stack s)) \<and>
     hz_freed s' = hz_freed s \<union> set (filter (\<lambda>p. \<not> hazardous s p) (hz_stack s))"
proof -
  have good: "hz_good s" using hz.sched_keeps [OF hz_good_new, of es] by (simp add: assms(1))
  let ?s = "hz_step (Call t DeleteNodes) s"
  have good': "hz_good ?s" using good by (rule hz.step_keeps)
  have ch: "chain (hz_next s) (hz_head s) (hz_stack s) None" using good inv_facts(1) by (simp add: hz_good_def)
  show ?thesis
  proof (cases "hz_stack s")
    case Nil
    with ch assms(2) show ?thesis by (intro exI [of _ ?s]) (simp add: alone_refl hz_begin_def collect_loop_def)
  next
    case (Cons c cs)
    with ch assms(2) have at: "hz_pcs ?s t = NextOf c" "hz_work ?s t = cs" "hz_stack ?s = []" "hz_freed ?s = hz_freed s"
      "hz_pointer ?s = hz_pointer s"
      by (simp_all add: hz_begin_def collect_loop_def)
    then have "hazardous ?s = hazardous s" by (simp add: hazardous_def fun_eq_iff)
    with rounds_alone [OF good' at(1,2)] obtain s' where "alone t ?s s'" "hz_pcs s' t = HIdle"
      "hz_stack s' = rev (filter (hazardous s) (c # cs))"
      "hz_freed s' = hz_freed s \<union> set (filter (\<lambda>p. \<not> hazardous s p) (c # cs))"
      using at(3,4) by auto
    then show ?thesis unfolding Cons by blast
  qed
qed

lemma delete_nodes_exact_witness:
  "\<exists>s s'. alone 1 (hz_step (Call 1 DeleteNodes) s) s' \<and> hz_stack s = [8, 7] \<and> hz_stack s' = [7] \<and> hz_freed s' = {8}"
proof -
  define es where "es = [Call 0 Acquire, Run 0 True, Call 0 (SetHazard (Some 7)), Call 1 (ReclaimLater 7),
    Run 1 True, Run 1 True, Call 1 (ReclaimLater 8), Run 1 True, Run 1 True]"
  define s where "s = run_sched hz_step es hz_new"
  have s: "hz_pcs s 1 = HIdle" "hz_stack s = [8, 7]" "hz_freed s = {}" "hz_pointer s = (\<lambda>_. None)(0 := Some 7)"
    unfolding s_def es_def
    by (simp_all add: hz_begin_def try_acquire_def add_load_def add_cas_def hz_return_def hz_new_def kMaxHazardPointers_def fun_eq_iff)
  have "hazardous s 7" "\<not> hazardous s 8" by (auto simp: hazardous_def s kMaxHazardPointers_def)
  then have lists: "rev (filter (hazardous s) [8, 7]) = [7]" "{} \<union> set (filter (\<lambda>p. \<not> hazardous s p) [8, 7]) = {8}" by simp_all
  from delete_nodes_exact [OF s_def s(1), unfolded s(2,3) lists] show ?thesis using s(2) by blast
qed

lemma try_acquire_alone:
  assumes "hz_pcs s t = TryAcquire i" and "i \<le> kMaxHazardPointers" and "\<forall>j<i. hz_id s j \<noteq> None" and "hz_owner s t = None"
  shows "\<exists>s'. alone t s s' \<and> hz_pcs s' t = HIdle \<and>
    (if \<exists>j<kMaxHazardPointers. hz_id s j = None then hz_owner s' t = Some (LEAST j. hz_id s j = None)
     else hz_owner s' t = None \<and> hz_errors s' = t # hz_errors s)"
  using assms
proof (induction "kMaxHazardPointers - i" arbitrary: i s)
  case 0
  then have i: "i = kMaxHazardPointers" by simp
  let ?s = "hz_go t HIdle (s\<lparr>hz_errors := t # hz_errors s\<rparr>)"
  have "alone t s ?s" using 0(2) i by (intro alone_step [of t s]) (simp add: try_acquire_def alone_refl)
  then show ?case using 0(4,5) i by (intro exI [of _ ?s]) auto
next
  case (Suc k)
  then have i: "i < kMaxHazardPointers" by linarith
  show ?case
  proof (cases "hz_id s i")
    case None
    let ?s = "hz_go t HIdle (s\<lparr>hz_id := (hz_id s)(i := Some t), hz_owner := (hz_owner s)(t := Some i)\<rparr>)"
    have "alone t s ?s" using None i Suc.prems(1) by (intro alone_step [of t s]) (simp add: try_acquire_def alone_refl)
    moreover have "(LEAST j. hz_id s j = None) = i"
      using None Suc.prems(3) by (intro Least_equality) (auto simp: not_less [symmetric])
    ultimately show ?thesis using None i by (intro exI [of _ ?s]) auto
  next
    case (Some u)
    let ?s = "hz_go t (TryAcquire (i + 1)) s"
    have step: "hz_step (Run t True) s = ?s" using Some i Suc.prems(1) by (simp add: try_acquire_def)
    have "\<forall>j<i + 1. hz_id ?s j \<noteq> None" using Suc.prems(3) Some by (auto simp: less_Suc_eq)
    moreover have "k = kMaxHazardPointers - (i + 1)" using Suc.hyps(2) by simp
    ultimately obtain s' where "alone t ?s s'" "hz_pcs s' t = HIdle"
      "if \<exists>j<kMaxHazardPointers. hz_id s j = None then hz_owner s' t = Some (LEAST j. hz_id s j = None)
       else hz_owner s' t = None \<and> hz_errors s' = t # hz_errors s"
      using Suc.hyps(1) [of "i + 1" ?s, unfolded hz_go_simps] Suc.prems(4) i by auto
    with step show ?thesis by (metis alone_step)
  qed
qed

text \<open>
  A thread that looks for a hazard pointer while no other thread moves gets the first free slot, and the error exactly if all
  slots are taken.
\<close>

theorem acquire_first_free:
  assumes "hz_pcs s t = HIdle" and "hz_owner s t = None"
  shows "\<exists>s'. alone t (hz_step (Call t Acquire) s) s' \<and> hz_pcs s' t = HIdle \<and>
    (if \<exists>j<kMaxHazardPointers. hz_id s j = None then hz_owner s' t = Some (LEAST j. hz_id s j = None)
     else hz_owner s' t = None \<and> hz_errors s' = t # hz_errors s)"
  using try_acquire_alone [of "hz_go t (TryAcquire 0) s" t 0, unfolded hz_go_simps] assms by (simp add: hz_begin_def)

lemma acquire_first_free_witness:
  "\<exists>s'. alone 5 (hz_step (Call 5 Acquire) hz_new) s' \<and> hz_owner s' 5 = Some 0"
proof -
  have "(LEAST j. hz_id hz_new j = None) = 0" "\<exists>j<kMaxHazardPointers. hz_id hz_new j = None"
    by (simp_all add: hz_new_def kMaxHazardPointers_def Least_equality exI [of _ 0])
  then show ?thesis using acquire_first_free [of hz_new 5] by (auto simp: hz_new_def)
qed

text \<open>
  Storing the address is not enough when the object is already retired: the thread has to check, after the store, that
  the object is still reachable.
\<close>

lemma hazard_too_late:
  "hz_freed (run_sched hz_step
     ([Call 0 Acquire, Run 0 True, Call 1 (ReclaimLater 7), Run 1 True, Run 1 True, Call 1 DeleteNodes, Run 1 True, Run 1 True,
       Call 0 (SetHazard (Some 7))] @ replicate 100 (Run 1 True)) hz_new) = {7}"
  by code_simp

end
