(* ===== verification/DeviceControl.thy ===== *)
theory DeviceControl
  imports CInput
begin

text \<open>
  controller and device (session-09/Exercise_3): processes that share a \<open>device_state_t\<close> with a process-shared mutex in the
  POSIX shared-memory object /device_shm.

  Objects of shared memory are numbered; \<open>sh_name\<close> is the one the name refers to.  Any number of controllers and devices run; a
  step is one system call or one access to the shared struct of one process.  \<open>Run p ok\<close> lets process \<open>p\<close> take a step,
  in which a system call that can fail does so when \<open>ok\<close> is false.  What POSIX leaves undefined (locking a mutex that is not
  initialised or destroyed, initialising one that is already, destroying a locked one, unlocking one that is not held) sets \<open>sh_undefined\<close>,
  and nothing is said of what follows.  A device prints behind its unlock, outside the lock.  A signal is an event; without a handler it kills the process.
\<close>

section \<open>State\<close>

datatype mutex = Raw | Unlocked | Locked nat | Destroyed

record device_state =
  dv_sized :: bool  \<comment> \<open>after \<open>ftruncate\<close>\<close>
  dv_mutex :: mutex
  dv_status :: int

datatype exit_status = Success | Failure | Killed

datatype process =
    NotStarted
  | COpen
  | CTruncate nat
  | CMap nat
  | CAttr nat
  | CInit nat
  | CAttrDestroy nat
  | CLock nat int
  | CStore nat int bool \<comment> \<open>whether the lock was taken\<close>
  | CUnlock nat bool
  | CPrompt nat
  | CDestroy nat
  | CUnlink
  | DOpen
  | DMap nat
  | DLoop nat
  | DRead nat
  | DUnlock nat int
  | DPrint nat int       \<comment> \<open>behind the unlock, with \<open>current_status\<close>\<close>
  | Gone exit_status

datatype sh_event =
    StartController nat "in_event list"
  | StartDevice nat
  | Run nat bool
  | Sigint nat
  | Sigkill nat

record shm =
  sh_name :: "nat option"
  sh_objs :: "nat \<Rightarrow> device_state"
  sh_next :: nat
  sh_procs :: "nat \<Rightarrow> process"
  sh_in :: "nat \<Rightarrow> in_event list"
  sh_eintr :: "nat \<Rightarrow> bool"
  sh_running :: "nat \<Rightarrow> bool"   \<comment> \<open>\<open>keep_running\<close> of a device\<close>
  sh_read :: "nat \<Rightarrow> int list"  \<comment> \<open>ghost: the statuses a device has read under the lock, the latest first\<close>
  sh_shown :: "nat \<Rightarrow> bool list" \<comment> \<open>what a device has printed, ON or OFF, the latest first\<close>
  sh_undefined :: bool
  sh_lock_failed :: bool         \<comment> \<open>ghost: a controller has gone on after \<open>pthread_mutex_lock\<close> failed\<close>

definition new_obj :: device_state where
  "new_obj = \<lparr>dv_sized = False, dv_mutex = Raw, dv_status = 0\<rparr>"

definition sh_init :: shm where
  "sh_init = \<lparr>sh_name = None, sh_objs = (\<lambda>_. new_obj), sh_next = 0, sh_procs = (\<lambda>_. NotStarted), sh_in = (\<lambda>_. []),
     sh_eintr = (\<lambda>_. False), sh_running = (\<lambda>_. True), sh_read = (\<lambda>_. []), sh_shown = (\<lambda>_. []), sh_undefined = False,
     sh_lock_failed = False\<rparr>"

definition goto :: "nat \<Rightarrow> process \<Rightarrow> shm \<Rightarrow> shm" where
  "goto p pc s = s\<lparr>sh_procs := (sh_procs s)(p := pc)\<rparr>"

definition set_obj :: "nat \<Rightarrow> (device_state \<Rightarrow> device_state) \<Rightarrow> shm \<Rightarrow> shm" where
  "set_obj k f s = s\<lparr>sh_objs := (sh_objs s)(k := f (sh_objs s k))\<rparr>"

definition undefined_behaviour :: "shm \<Rightarrow> shm" where
  "undefined_behaviour s = s\<lparr>sh_undefined := True\<rparr>"

section \<open>The mutex\<close>

text \<open>\<open>pthread_mutex_lock\<close>: a process that has to wait keeps its program counter.\<close>

definition mutex_lock :: "nat \<Rightarrow> nat \<Rightarrow> process \<Rightarrow> shm \<Rightarrow> shm" where
  "mutex_lock p k next s =
     (case dv_mutex (sh_objs s k) of
        Unlocked \<Rightarrow> goto p next (set_obj k (\<lambda>d. d\<lparr>dv_mutex := Locked p\<rparr>) s)
      | Locked q \<Rightarrow> s
      | _ \<Rightarrow> undefined_behaviour s)"

definition mutex_unlock :: "nat \<Rightarrow> nat \<Rightarrow> process \<Rightarrow> shm \<Rightarrow> shm" where
  "mutex_unlock p k next s =
     (if dv_mutex (sh_objs s k) = Locked p then goto p next (set_obj k (\<lambda>d. d\<lparr>dv_mutex := Unlocked\<rparr>) s)
      else undefined_behaviour s)"

definition mutex_init :: "nat \<Rightarrow> nat \<Rightarrow> process \<Rightarrow> shm \<Rightarrow> shm" where
  "mutex_init p k next s =
     (if dv_mutex (sh_objs s k) = Raw \<or> dv_mutex (sh_objs s k) = Destroyed
      then goto p next (set_obj k (\<lambda>d. d\<lparr>dv_mutex := Unlocked\<rparr>) s)
      else undefined_behaviour s)"

definition mutex_destroy :: "nat \<Rightarrow> nat \<Rightarrow> process \<Rightarrow> shm \<Rightarrow> shm" where
  "mutex_destroy p k next s =
     (if dv_mutex (sh_objs s k) = Unlocked then goto p next (set_obj k (\<lambda>d. d\<lparr>dv_mutex := Destroyed\<rparr>) s)
      else undefined_behaviour s)"

section \<open>controller.c\<close>

text \<open>\<open>shm_open\<close> with \<open>O_CREAT\<close>: the object of that name, or a new one of size zero.\<close>

definition open_or_create :: "nat \<Rightarrow> shm \<Rightarrow> shm" where
  "open_or_create p s =
     (case sh_name s of
        Some k \<Rightarrow> goto p (CTruncate k) s
      | None \<Rightarrow>
          goto p (CTruncate (sh_next s))
            (s\<lparr>sh_name := Some (sh_next s), sh_objs := (sh_objs s)(sh_next s := new_obj), sh_next := Suc (sh_next s)\<rparr>))"

text \<open>The error paths of \<open>init_controller\<close>: the first two leave the object's name, the others remove it.\<close>

definition fail_keep_name :: "nat \<Rightarrow> shm \<Rightarrow> shm" where
  "fail_keep_name p s = goto p (Gone Failure) s"

definition fail_unlink :: "nat \<Rightarrow> shm \<Rightarrow> shm" where
  "fail_unlink p s = goto p (Gone Failure) (s\<lparr>sh_name := None\<rparr>)"

definition init_controller :: "nat \<Rightarrow> bool \<Rightarrow> shm \<Rightarrow> shm" where
  "init_controller p ok s =
     (case sh_procs s p of
        COpen \<Rightarrow> if ok then open_or_create p s else fail_keep_name p s
      | CTruncate k \<Rightarrow> if ok then goto p (CMap k) (set_obj k (\<lambda>d. d\<lparr>dv_sized := True\<rparr>) s) else fail_keep_name p s
      | CMap k \<Rightarrow> if ok then goto p (CAttr k) s else fail_keep_name p s
      | CAttr k \<Rightarrow> if ok then goto p (CInit k) s else fail_unlink p s
      | CInit k \<Rightarrow> if ok then mutex_init p k (CAttrDestroy k) s else fail_unlink p s
      | CAttrDestroy k \<Rightarrow> if ok then goto p (CLock k 0) s else fail_unlink p s
      | _ \<Rightarrow> s)"

text \<open>One line of input, with a buffer of 256 characters.\<close>

definition dispatch :: "nat \<Rightarrow> string \<Rightarrow> process" where
  "dispatch k cmd =
     (if cmd = ''quit'' then CDestroy k
      else if cmd = ''on'' then CLock k 1
      else if cmd = ''off'' then CLock k 0
      else CPrompt k)"

definition command :: "nat \<Rightarrow> nat \<Rightarrow> shm \<Rightarrow> shm" where
  "command p k s =
     (case get_user_input (Suc (length (sh_in s p))) 256 (sh_in s p) (sh_eintr s p) of
        None \<Rightarrow> s
      | Some (AtEof inp) \<Rightarrow> goto p (CDestroy k) (s\<lparr>sh_in := (sh_in s)(p := inp)\<rparr>)
      | Some (Gets cmd inp eintr) \<Rightarrow>
          goto p (dispatch k cmd) (s\<lparr>sh_in := (sh_in s)(p := inp), sh_eintr := (sh_eintr s)(p := eintr)\<rparr>))"

definition controller_step :: "nat \<Rightarrow> bool \<Rightarrow> shm \<Rightarrow> shm" where
  "controller_step p ok s =
     (case sh_procs s p of
        CLock k v \<Rightarrow> if ok then mutex_lock p k (CStore k v True) s
          else goto p (CStore k v False) (s\<lparr>sh_lock_failed := True\<rparr>)
      | CStore k v held \<Rightarrow> goto p (CUnlock k held) (set_obj k (\<lambda>d. d\<lparr>dv_status := v\<rparr>) s)
      | CUnlock k held \<Rightarrow> mutex_unlock p k (CPrompt k) s
      | CPrompt k \<Rightarrow> command p k s
      | CDestroy k \<Rightarrow> mutex_destroy p k CUnlink s
      | CUnlink \<Rightarrow> goto p (Gone Success) (if ok then s\<lparr>sh_name := None\<rparr> else s)
      | _ \<Rightarrow> init_controller p ok s)"

section \<open>device.c\<close>

definition device_step :: "nat \<Rightarrow> bool \<Rightarrow> shm \<Rightarrow> shm" where
  "device_step p ok s =
     (case sh_procs s p of
        DOpen \<Rightarrow> (case sh_name s of Some k \<Rightarrow> goto p (if ok then DMap k else Gone Failure) s | None \<Rightarrow> goto p (Gone Failure) s)
      | DMap k \<Rightarrow> goto p (if ok then DLoop k else Gone Failure) s
      | DLoop k \<Rightarrow>
          if \<not> sh_running s p then goto p (Gone Success) s
          else if \<not> dv_sized (sh_objs s k) then goto p (Gone Killed) s
          else if \<not> ok then goto p (Gone Success) s
          else mutex_lock p k (DRead k) s
      | DRead k \<Rightarrow> goto p (DUnlock k (dv_status (sh_objs s k))) s
      | DUnlock k v \<Rightarrow> mutex_unlock p k (DPrint k v) (s\<lparr>sh_read := (sh_read s)(p := v # sh_read s p)\<rparr>)
      | DPrint k v \<Rightarrow> goto p (DLoop k) (s\<lparr>sh_shown := (sh_shown s)(p := (v = 1) # sh_shown s p)\<rparr>)
      | _ \<Rightarrow> s)"

definition is_device :: "process \<Rightarrow> bool" where
  "is_device pc = (case pc of DOpen \<Rightarrow> True | DMap k \<Rightarrow> True | DLoop k \<Rightarrow> True | DRead k \<Rightarrow> True | DUnlock k v \<Rightarrow> True | DPrint k v \<Rightarrow> True | _ \<Rightarrow> False)"

definition ended :: "process \<Rightarrow> bool" where
  "ended pc = (case pc of NotStarted \<Rightarrow> True | Gone e \<Rightarrow> True | _ \<Rightarrow> False)"

text \<open>\<open>SIGINT\<close> ends the loop of a device and kills a controller.\<close>

fun sh_step :: "sh_event \<Rightarrow> shm \<Rightarrow> shm" where
  "sh_step (StartController p inp) s =
     (if \<not> sh_undefined s \<and> sh_procs s p = NotStarted then goto p COpen (s\<lparr>sh_in := (sh_in s)(p := inp)\<rparr>) else s)"
| "sh_step (StartDevice p) s = (if \<not> sh_undefined s \<and> sh_procs s p = NotStarted then goto p DOpen s else s)"
| "sh_step (Run p ok) s =
     (if sh_undefined s then s else if is_device (sh_procs s p) then device_step p ok s else controller_step p ok s)"
| "sh_step (Sigint p) s =
     (if sh_undefined s then s
      else if is_device (sh_procs s p) then s\<lparr>sh_running := (sh_running s)(p := False)\<rparr>
      else if ended (sh_procs s p) then s else goto p (Gone Killed) s)"
| "sh_step (Sigkill p) s =
     (if sh_undefined s \<or> ended (sh_procs s p) then s else goto p (Gone Killed) s)"

section \<open>The invariant\<close>

definition proc_obj :: "process \<Rightarrow> nat option" where
  "proc_obj pc =
     (case pc of CTruncate k \<Rightarrow> Some k | CMap k \<Rightarrow> Some k | CAttr k \<Rightarrow> Some k | CInit k \<Rightarrow> Some k | CAttrDestroy k \<Rightarrow> Some k
      | CLock k v \<Rightarrow> Some k | CStore k v h \<Rightarrow> Some k | CUnlock k h \<Rightarrow> Some k | CPrompt k \<Rightarrow> Some k | CDestroy k \<Rightarrow> Some k
      | DMap k \<Rightarrow> Some k | DLoop k \<Rightarrow> Some k | DRead k \<Rightarrow> Some k | DUnlock k v \<Rightarrow> Some k | DPrint k v \<Rightarrow> Some k | _ \<Rightarrow> None)"

text \<open>The object whose mutex a process holds.\<close>

definition in_cs :: "process \<Rightarrow> nat option" where
  "in_cs pc =
     (case pc of CStore k v h \<Rightarrow> if h then Some k else None | CUnlock k h \<Rightarrow> if h then Some k else None
      | DRead k \<Rightarrow> Some k | DUnlock k v \<Rightarrow> Some k | _ \<Rightarrow> None)"

definition sh_inv :: "shm \<Rightarrow> bool" where
  "sh_inv s \<longleftrightarrow>
     (\<forall>k\<ge>sh_next s. sh_objs s k = new_obj) \<and> (\<forall>k. sh_name s = Some k \<longrightarrow> k < sh_next s) \<and>
     (\<forall>p k. proc_obj (sh_procs s p) = Some k \<longrightarrow> k < sh_next s) \<and>
     (\<forall>p k. in_cs (sh_procs s p) = Some k \<longrightarrow> dv_mutex (sh_objs s k) = Locked p)"

lemma cs_obj: "in_cs pc = Some k \<Longrightarrow> proc_obj pc = Some k"
  by (auto simp: in_cs_def proc_obj_def split: process.splits if_splits)

lemma proc_obj_bound: "sh_inv s \<Longrightarrow> proc_obj (sh_procs s p) = Some k \<Longrightarrow> k < sh_next s"
  unfolding sh_inv_def by blast

lemma cs_locked: "sh_inv s \<Longrightarrow> in_cs (sh_procs s p) = Some k \<Longrightarrow> dv_mutex (sh_objs s k) = Locked p"
  unfolding sh_inv_def by blast

lemma sh_inv_init: "sh_inv sh_init"
  by (simp add: sh_inv_def sh_init_def proc_obj_def in_cs_def)

lemma goto_simps [simp]:
  "sh_procs (goto p pc s) = (sh_procs s)(p := pc)" "sh_objs (goto p pc s) = sh_objs s" "sh_next (goto p pc s) = sh_next s"
  "sh_name (goto p pc s) = sh_name s" "sh_undefined (goto p pc s) = sh_undefined s" "sh_in (goto p pc s) = sh_in s"
  "sh_eintr (goto p pc s) = sh_eintr s" "sh_read (goto p pc s) = sh_read s" "sh_shown (goto p pc s) = sh_shown s" "sh_running (goto p pc s) = sh_running s"
  "sh_lock_failed (goto p pc s) = sh_lock_failed s"
  by (simp_all add: goto_def)

lemma set_obj_simps [simp]:
  "sh_procs (set_obj k f s) = sh_procs s" "sh_objs (set_obj k f s) = (sh_objs s)(k := f (sh_objs s k))"
  "sh_next (set_obj k f s) = sh_next s" "sh_name (set_obj k f s) = sh_name s" "sh_undefined (set_obj k f s) = sh_undefined s"
  "sh_in (set_obj k f s) = sh_in s" "sh_eintr (set_obj k f s) = sh_eintr s" "sh_read (set_obj k f s) = sh_read s" "sh_shown (set_obj k f s) = sh_shown s"
  "sh_running (set_obj k f s) = sh_running s" "sh_lock_failed (set_obj k f s) = sh_lock_failed s"
  by (simp_all add: set_obj_def)

lemma undefined_behaviour_simps [simp]:
  "sh_procs (undefined_behaviour s) = sh_procs s" "sh_objs (undefined_behaviour s) = sh_objs s"
  "sh_next (undefined_behaviour s) = sh_next s" "sh_name (undefined_behaviour s) = sh_name s"
  "sh_undefined (undefined_behaviour s)" "sh_read (undefined_behaviour s) = sh_read s" "sh_shown (undefined_behaviour s) = sh_shown s"
  "sh_lock_failed (undefined_behaviour s) = sh_lock_failed s"
  by (simp_all add: undefined_behaviour_def)

text \<open>What a step may do: move its process, and change its object's mutex when it is free or its own.\<close>

lemma sh_inv_move:
  assumes inv: "sh_inv s" and procs: "sh_procs s' = (sh_procs s)(p := pc)" and objs: "sh_objs s' = (sh_objs s)(k := d)"
    and same: "sh_next s' = sh_next s" "sh_name s' = sh_name s \<or> sh_name s' = None"
    and at: "k < sh_next s" "\<And>j. proc_obj pc = Some j \<Longrightarrow> j < sh_next s"
    and mutex: "dv_mutex d = dv_mutex (sh_objs s k) \<or> (\<forall>q. q \<noteq> p \<longrightarrow> dv_mutex (sh_objs s k) \<noteq> Locked q)"
    and cs: "\<And>j. in_cs pc = Some j \<Longrightarrow> dv_mutex (((sh_objs s)(k := d)) j) = Locked p"
  shows "sh_inv s'"
proof -
  have free: "dv_mutex (sh_objs s' j) = Locked q" if "in_cs (sh_procs s q) = Some j" "q \<noteq> p" for q j
  proof -
    have "dv_mutex (sh_objs s j) = Locked q" using inv that(1) by (simp add: sh_inv_def)
    then show ?thesis using mutex that(2) objs by auto
  qed
  show ?thesis
    unfolding sh_inv_def procs same(1)
  proof (intro conjI allI impI)
    fix j assume "sh_next s \<le> j"
    then show "sh_objs s' j = new_obj" using inv at(1) by (auto simp: sh_inv_def objs)
  next
    fix j assume "sh_name s' = Some j"
    then show "j < sh_next s" using inv same(2) by (auto simp: sh_inv_def)
  next
    fix q j assume "proc_obj (((sh_procs s)(p := pc)) q) = Some j"
    then show "j < sh_next s" using inv at(2) by (auto simp: sh_inv_def split: if_splits)
  next
    fix q j assume "in_cs (((sh_procs s)(p := pc)) q) = Some j"
    then show "dv_mutex (sh_objs s' j) = Locked q" using free cs objs by (cases "q = p") simp_all
  qed
qed

lemma sh_inv_goto:
  assumes inv: "sh_inv s" and procs: "sh_procs s' = (sh_procs s)(p := pc)" and objs: "sh_objs s' = sh_objs s"
    and same: "sh_next s' = sh_next s" "sh_name s' = sh_name s \<or> sh_name s' = None"
    and at: "\<And>j. proc_obj pc = Some j \<Longrightarrow> j < sh_next s"
    and cs: "\<And>j. in_cs pc = Some j \<Longrightarrow> in_cs (sh_procs s p) = Some j"
  shows "sh_inv s'"
  unfolding sh_inv_def procs same(1) objs
proof (intro conjI allI impI)
  fix q j assume "in_cs (((sh_procs s)(p := pc)) q) = Some j"
  then show "dv_mutex (sh_objs s j) = Locked q" using inv cs by (cases "q = p") (auto simp: sh_inv_def)
qed (use inv same(2) at in \<open>auto simp: sh_inv_def split: if_splits\<close>)

lemma sh_inv_undefined: "sh_inv s \<Longrightarrow> sh_inv (undefined_behaviour s)"
  by (simp add: sh_inv_def)

lemma sh_inv_mutex:
  assumes inv: "sh_inv s" and k: "proc_obj (sh_procs s p) = Some k" and pc: "proc_obj pc = Some k \<or> proc_obj pc = None"
  shows "sh_inv (mutex_lock p k pc s)"
    and "in_cs pc = None \<Longrightarrow> sh_inv (mutex_unlock p k pc s)"
    and "in_cs pc = None \<Longrightarrow> sh_inv (mutex_init p k pc s)"
    and "in_cs pc = None \<Longrightarrow> sh_inv (mutex_destroy p k pc s)"
proof -
  have k': "k < sh_next s" using inv k by (simp add: sh_inv_def)
  have cs: "in_cs pc = Some j \<Longrightarrow> j = k" for j
    using pc by (auto simp: in_cs_def proc_obj_def split: process.splits if_splits)
  show "sh_inv (mutex_lock p k pc s)"
  proof (cases "dv_mutex (sh_objs s k)")
    case Unlocked
    show ?thesis unfolding mutex_lock_def Unlocked mutex.case
      by (rule sh_inv_move [OF inv, where p = p and k = k and pc = pc]) (use k' pc cs Unlocked in auto)
  qed (use inv sh_inv_undefined in \<open>simp_all add: mutex_lock_def\<close>)
  show "sh_inv (mutex_unlock p k pc s)" if none: "in_cs pc = None"
  proof (cases "dv_mutex (sh_objs s k) = Locked p")
    case True
    show ?thesis unfolding mutex_unlock_def if_P [OF True]
      by (rule sh_inv_move [OF inv, where p = p and k = k and pc = pc]) (use k' pc none True in auto)
  qed (use inv sh_inv_undefined in \<open>simp add: mutex_unlock_def\<close>)
  show "sh_inv (mutex_init p k pc s)" if none: "in_cs pc = None"
  proof (cases "dv_mutex (sh_objs s k) = Raw \<or> dv_mutex (sh_objs s k) = Destroyed")
    case True
    show ?thesis unfolding mutex_init_def if_P [OF True]
      by (rule sh_inv_move [OF inv, where p = p and k = k and pc = pc]) (use k' pc none True in auto)
  qed (use inv sh_inv_undefined in \<open>simp add: mutex_init_def\<close>)
  show "sh_inv (mutex_destroy p k pc s)" if none: "in_cs pc = None"
  proof (cases "dv_mutex (sh_objs s k) = Unlocked")
    case True
    show ?thesis unfolding mutex_destroy_def if_P [OF True]
      by (rule sh_inv_move [OF inv, where p = p and k = k and pc = pc]) (use k' pc none True in auto)
  qed (use inv sh_inv_undefined in \<open>simp add: mutex_destroy_def\<close>)
qed

lemma sh_inv_init_controller:
  assumes inv: "sh_inv s"
  shows "sh_inv (init_controller p ok s)"
proof -
  have objs: "proc_obj (sh_procs s p) = Some k \<Longrightarrow> k < sh_next s" for k using inv by (simp add: sh_inv_def)
  note still = sh_inv_goto [OF inv, where p = p]
  have fail: "sh_inv (fail_keep_name p s)" "sh_inv (fail_unlink p s)"
    unfolding fail_keep_name_def fail_unlink_def
    by (rule still [where pc = "Gone Failure"]; simp add: proc_obj_def in_cs_def)+
  show ?thesis
  proof (cases "sh_procs s p")
    case COpen
    have "sh_inv (open_or_create p s)"
    proof (cases "sh_name s")
      case None
      define s1 where "s1 = s\<lparr>sh_name := Some (sh_next s), sh_objs := (sh_objs s)(sh_next s := new_obj), sh_next := Suc (sh_next s)\<rparr>"
      have "sh_inv s1"
        unfolding sh_inv_def
      proof (intro conjI allI impI)
        show "sh_objs s1 k = new_obj" if "sh_next s1 \<le> k" for k using inv that by (simp add: s1_def sh_inv_def)
        show "k < sh_next s1" if "sh_name s1 = Some k" for k using that by (simp add: s1_def)
        show "k < sh_next s1" if "proc_obj (sh_procs s1 q) = Some k" for q k
          using proc_obj_bound [OF inv, of q k] that by (simp add: s1_def)
        show "dv_mutex (sh_objs s1 k) = Locked q" if "in_cs (sh_procs s1 q) = Some k" for q k
          using proc_obj_bound [OF inv, of q k] cs_obj [of "sh_procs s q" k] cs_locked [OF inv, of q k] that by (auto simp: s1_def)
      qed
      then have "sh_inv (goto p (CTruncate (sh_next s)) s1)"
        by (rule sh_inv_goto [where p = p and pc = "CTruncate (sh_next s)"]) (auto simp: proc_obj_def in_cs_def s1_def)
      then show ?thesis by (simp add: open_or_create_def None s1_def)
    next
      case (Some k)
      then have "k < sh_next s" using inv by (simp add: sh_inv_def)
      then show ?thesis unfolding open_or_create_def Some option.case
        by (intro still [where pc = "CTruncate k"]) (auto simp: proc_obj_def in_cs_def)
    qed
    with fail COpen show ?thesis by (simp add: init_controller_def)
  next
    case (CTruncate k)
    then have k: "k < sh_next s" using objs by (simp add: proc_obj_def)
    have "sh_inv (goto p (CMap k) (set_obj k (\<lambda>d. d\<lparr>dv_sized := True\<rparr>) s))"
      by (rule sh_inv_move [OF inv, where p = p and pc = "CMap k" and k = k]) (use k in \<open>auto simp: proc_obj_def in_cs_def\<close>)
    with fail CTruncate show ?thesis by (simp add: init_controller_def)
  next
    case (CMap k)
    then have "sh_inv (goto p (CAttr k) s)" by (intro still [where pc = "CAttr k"]) (auto simp: proc_obj_def in_cs_def objs)
    with fail CMap show ?thesis by (simp add: init_controller_def)
  next
    case (CAttr k)
    then have "sh_inv (goto p (CInit k) s)" by (intro still [where pc = "CInit k"]) (auto simp: proc_obj_def in_cs_def objs)
    with fail CAttr show ?thesis by (simp add: init_controller_def)
  next
    case (CInit k)
    then have "sh_inv (mutex_init p k (CAttrDestroy k) s)" by (intro sh_inv_mutex(3) [OF inv]) (auto simp: proc_obj_def in_cs_def)
    with fail CInit show ?thesis by (simp add: init_controller_def)
  next
    case (CAttrDestroy k)
    then have "sh_inv (goto p (CLock k 0) s)" by (intro still [where pc = "CLock k 0"]) (auto simp: proc_obj_def in_cs_def objs)
    with fail CAttrDestroy show ?thesis by (simp add: init_controller_def)
  qed (use inv in \<open>simp_all add: init_controller_def\<close>)
qed

lemma sh_inv_command:
  assumes inv: "sh_inv s" and pc: "sh_procs s p = CPrompt k"
  shows "sh_inv (command p k s)"
proof -
  have k: "k < sh_next s" using proc_obj_bound [OF inv, of p k] pc by (simp add: proc_obj_def)
  have pcs: "proc_obj (dispatch k cmd) = Some k" "in_cs (dispatch k cmd) = None" for cmd
    by (simp_all add: dispatch_def proc_obj_def in_cs_def)
  show ?thesis
  proof (cases "get_user_input (Suc (length (sh_in s p))) 256 (sh_in s p) (sh_eintr s p)")
    case None
    with inv show ?thesis by (simp add: command_def)
  next
    case (Some g)
    show ?thesis
    proof (cases g)
      case (Gets cmd inp eintr)
      show ?thesis unfolding command_def Some Gets option.case gets.case
        by (rule sh_inv_goto [OF inv, where p = p and pc = "dispatch k cmd"]) (use k pcs in auto)
    next
      case (AtEof inp)
      show ?thesis unfolding command_def Some AtEof option.case gets.case
        by (rule sh_inv_goto [OF inv, where p = p and pc = "CDestroy k"]) (use k in \<open>auto simp: proc_obj_def in_cs_def\<close>)
    qed
  qed
qed

lemma sh_inv_controller:
  assumes inv: "sh_inv s"
  shows "sh_inv (controller_step p ok s)"
proof -
  have objs: "proc_obj (sh_procs s p) = Some k \<Longrightarrow> k < sh_next s" for k using inv by (simp add: sh_inv_def)
  note still = sh_inv_goto [OF inv, where p = p]
  show ?thesis
  proof (cases "sh_procs s p")
    case (CLock k v)
    have "sh_inv (mutex_lock p k (CStore k v True) s)" by (rule sh_inv_mutex(1) [OF inv]) (simp_all add: CLock proc_obj_def)
    moreover have "sh_inv (goto p (CStore k v False) (s\<lparr>sh_lock_failed := True\<rparr>))"
      by (rule still [where pc = "CStore k v False"]) (use CLock objs in \<open>auto simp: proc_obj_def in_cs_def\<close>)
    ultimately show ?thesis by (simp add: controller_step_def CLock)
  next
    case (CStore k v held)
    have "in_cs (sh_procs s p) = Some k \<Longrightarrow> dv_mutex (sh_objs s k) = Locked p" using inv by (simp add: sh_inv_def)
    then have "sh_inv (goto p (CUnlock k held) (set_obj k (\<lambda>d. d\<lparr>dv_status := v\<rparr>) s))"
      by (intro sh_inv_move [OF inv, where p = p and pc = "CUnlock k held" and k = k])
        (use CStore objs in \<open>auto simp: proc_obj_def in_cs_def split: if_splits\<close>)
    then show ?thesis by (simp add: controller_step_def CStore)
  next
    case (CUnlock k held)
    have "sh_inv (mutex_unlock p k (CPrompt k) s)" by (rule sh_inv_mutex(2) [OF inv]) (simp_all add: CUnlock proc_obj_def in_cs_def)
    then show ?thesis by (simp add: controller_step_def CUnlock)
  next
    case (CPrompt k)
    then show ?thesis by (simp add: controller_step_def sh_inv_command [OF inv CPrompt])
  next
    case (CDestroy k)
    have "sh_inv (mutex_destroy p k CUnlink s)" by (rule sh_inv_mutex(4) [OF inv]) (simp_all add: CDestroy proc_obj_def in_cs_def)
    then show ?thesis by (simp add: controller_step_def CDestroy)
  next
    case CUnlink
    have "sh_inv (goto p (Gone Success) (if ok then s\<lparr>sh_name := None\<rparr> else s))"
      by (rule still [where pc = "Gone Success"]) (auto simp: proc_obj_def in_cs_def)
    then show ?thesis by (simp add: controller_step_def CUnlink)
  qed (use sh_inv_init_controller [OF inv] in \<open>simp_all add: controller_step_def\<close>)
qed

lemma sh_inv_device:
  assumes inv: "sh_inv s"
  shows "sh_inv (device_step p ok s)"
proof -
  have objs: "proc_obj (sh_procs s p) = Some k \<Longrightarrow> k < sh_next s" for k using inv by (simp add: sh_inv_def)
  have name: "sh_name s = Some k \<Longrightarrow> k < sh_next s" for k using inv by (simp add: sh_inv_def)
  have gone: "sh_inv (goto p (Gone e) s)" for e
    by (rule sh_inv_goto [OF inv, where p = p and pc = "Gone e"]) (simp_all add: proc_obj_def in_cs_def)
  note still = sh_inv_goto [OF inv, where p = p]
  show ?thesis
  proof (cases "sh_procs s p")
    case DOpen
    have "sh_inv (goto p (DMap k) s)" if "sh_name s = Some k" for k
      by (rule still [where pc = "DMap k"]) (use name that in \<open>auto simp: proc_obj_def in_cs_def\<close>)
    with gone show ?thesis by (simp add: device_step_def DOpen split: option.split)
  next
    case (DMap k)
    have "sh_inv (goto p (DLoop k) s)"
      by (rule still [where pc = "DLoop k"]) (use DMap objs in \<open>auto simp: proc_obj_def in_cs_def\<close>)
    with gone show ?thesis by (simp add: device_step_def DMap)
  next
    case (DLoop k)
    have "sh_inv (mutex_lock p k (DRead k) s)" by (rule sh_inv_mutex(1) [OF inv]) (simp_all add: DLoop proc_obj_def)
    with gone show ?thesis by (simp add: device_step_def DLoop)
  next
    case (DRead k)
    have "sh_inv (goto p (DUnlock k v) s)" for v
      by (rule still [where pc = "DUnlock k v"]) (use DRead objs in \<open>auto simp: proc_obj_def in_cs_def\<close>)
    then show ?thesis by (simp add: device_step_def DRead)
  next
    case (DUnlock k v)
    let ?s = "s\<lparr>sh_read := (sh_read s)(p := v # sh_read s p)\<rparr>"
    have "sh_inv ?s" using inv by (simp add: sh_inv_def)
    then have "sh_inv (mutex_unlock p k (DPrint k v) ?s)"
      by (rule sh_inv_mutex(2)) (simp_all add: DUnlock proc_obj_def in_cs_def)
    then show ?thesis by (simp add: device_step_def DUnlock)
  next
    case (DPrint k v)
    have "sh_inv (goto p (DLoop k) (s\<lparr>sh_shown := x\<rparr>))" for x
      by (rule still [where pc = "DLoop k"]) (use DPrint objs in \<open>auto simp: proc_obj_def in_cs_def\<close>)
    then show ?thesis by (simp add: device_step_def DPrint)
  qed (use inv in \<open>simp_all add: device_step_def\<close>)
qed

lemma sh_inv_step: "sh_inv s \<Longrightarrow> sh_inv (sh_step e s)"
proof (cases e)
  case (StartController p inp)
  assume inv: "sh_inv s"
  have "sh_inv (goto p COpen (s\<lparr>sh_in := (sh_in s)(p := inp)\<rparr>))"
    by (rule sh_inv_goto [OF inv, where p = p and pc = COpen]) (simp_all add: proc_obj_def in_cs_def)
  with inv show ?thesis by (simp add: StartController)
next
  case (StartDevice p)
  assume inv: "sh_inv s"
  have "sh_inv (goto p DOpen s)"
    by (rule sh_inv_goto [OF inv, where p = p and pc = DOpen]) (simp_all add: proc_obj_def in_cs_def)
  with inv show ?thesis by (simp add: StartDevice)
next
  case (Run p ok)
  assume "sh_inv s"
  then show ?thesis by (simp add: Run sh_inv_controller sh_inv_device)
next
  case (Sigint p)
  assume inv: "sh_inv s"
  have "sh_inv (goto p (Gone Killed) s)"
    by (rule sh_inv_goto [OF inv, where p = p and pc = "Gone Killed"]) (simp_all add: proc_obj_def in_cs_def)
  moreover have "sh_inv (s\<lparr>sh_running := (sh_running s)(p := False)\<rparr>)" using inv by (simp add: sh_inv_def)
  ultimately show ?thesis using inv by (simp add: Sigint)
next
  case (Sigkill p)
  assume inv: "sh_inv s"
  have "sh_inv (goto p (Gone Killed) s)"
    by (rule sh_inv_goto [OF inv, where p = p and pc = "Gone Killed"]) (simp_all add: proc_obj_def in_cs_def)
  with inv show ?thesis by (simp add: Sigkill)
qed

interpretation sh: interleaving sh_step sh_inv
  by unfold_locales (rule sh_inv_step)

text \<open>
  Mutual exclusion, for any number of controllers and devices, whatever fails or is killed: a process between its successful
  lock and its unlock owns the object's mutex, and no other process is there for the same object.
\<close>

theorem device_state_mutual_exclusion:
  assumes "s = run_sched sh_step es sh_init" and "in_cs (sh_procs s p) = Some k"
  shows "dv_mutex (sh_objs s k) = Locked p" and "q \<noteq> p \<Longrightarrow> in_cs (sh_procs s q) \<noteq> Some k"
proof -
  have inv: "sh_inv s" using sh.sched_keeps [OF sh_inv_init] assms(1) by simp
  show p: "dv_mutex (sh_objs s k) = Locked p" by (rule cs_locked [OF inv assms(2)])
  show "in_cs (sh_procs s q) \<noteq> Some k" if "q \<noteq> p" using cs_locked [OF inv, of q k] p that by auto
qed

lemma device_state_mutual_exclusion_witness:
  "in_cs (sh_procs (run_sched sh_step (StartController 0 [] # StartController 5 [] # replicate 7 (Run 0 True)) sh_init) 5) \<noteq> Some 0"
  by (rule device_state_mutual_exclusion(2) [OF refl, where p = 0])
    (simp_all add: eval_nat_numeral is_device_def controller_step_def init_controller_def in_cs_def
      open_or_create_def sh_init_def new_obj_def mutex_init_def mutex_lock_def)

section \<open>The status as a register\<close>

text \<open>A reading also names its device.\<close>

datatype reg_act = SetStatus nat int | ReadStatus nat nat int | LockFailed

text \<open>
  One register per object; \<open>None\<close> promises nothing, once a controller has stored after a failed
  \<open>pthread_mutex_lock\<close>.
\<close>

fun reg_spec :: "reg_act \<Rightarrow> (nat \<Rightarrow> int) option \<Rightarrow> (nat \<Rightarrow> int) option option" where
  "reg_spec LockFailed r = Some None"
| "reg_spec (SetStatus k v) r = Some (map_option (\<lambda>f. f(k := v)) r)"
| "reg_spec (ReadStatus p k v) None = Some None"
| "reg_spec (ReadStatus p k v) (Some f) = (if f k = v then Some (Some f) else None)"

definition status_of :: "shm \<Rightarrow> nat \<Rightarrow> int" where
  "status_of s k = dv_status (sh_objs s k)"

definition sh_abs :: "shm \<Rightarrow> (nat \<Rightarrow> int) option" where
  "sh_abs s = (if sh_lock_failed s then None else Some (status_of s))"

text \<open>A store is visible when it happens, a reading when the device leaves its critical section.\<close>

definition sh_vis :: "sh_event \<Rightarrow> shm \<Rightarrow> reg_act option" where
  "sh_vis e s =
     (case e of
        Run p ok \<Rightarrow>
          if sh_undefined s then None
          else (case sh_procs s p of
                  CStore k v held \<Rightarrow> Some (SetStatus k v)
                | CLock k v \<Rightarrow> if ok then None else Some LockFailed
                | DUnlock k v \<Rightarrow> Some (ReadStatus p k v)
                | _ \<Rightarrow> None)
      | _ \<Rightarrow> None)"

definition pc_ok :: "shm \<Rightarrow> process \<Rightarrow> bool" where
  "pc_ok s pc = (case pc of CStore k v held \<Rightarrow> held | CUnlock k held \<Rightarrow> held | DUnlock k v \<Rightarrow> status_of s k = v | _ \<Rightarrow> True)"

definition sh_good :: "shm \<Rightarrow> bool" where
  "sh_good s \<longleftrightarrow> sh_inv s \<and> (sh_lock_failed s \<or> (\<forall>q. pc_ok s (sh_procs s q)))"

definition stored :: "sh_event \<Rightarrow> shm \<Rightarrow> (nat \<times> int) option" where
  "stored e s = (case sh_vis e s of Some (SetStatus k v) \<Rightarrow> Some (k, v) | _ \<Rightarrow> None)"

lemma mutex_status [simp]:
  "status_of (mutex_lock p k pc s) = status_of s" "status_of (mutex_unlock p k pc s) = status_of s"
  "status_of (mutex_init p k pc s) = status_of s" "status_of (mutex_destroy p k pc s) = status_of s"
  "status_of (goto p pc s) = status_of s" "status_of (undefined_behaviour s) = status_of s"
  "status_of (set_obj k (\<lambda>d. d\<lparr>dv_sized := b\<rparr>) s) = status_of s"
  "status_of (set_obj k (\<lambda>d. d\<lparr>dv_status := v\<rparr>) s) = (status_of s)(k := v)"
  by (auto simp: status_of_def fun_eq_iff mutex_lock_def mutex_unlock_def mutex_init_def mutex_destroy_def split: mutex.splits)

lemma status_of_upd [simp]:
  "status_of (s\<lparr>sh_in := a\<rparr>) = status_of s" "status_of (s\<lparr>sh_eintr := b\<rparr>) = status_of s"
  "status_of (s\<lparr>sh_running := c\<rparr>) = status_of s" "status_of (s\<lparr>sh_shown := d\<rparr>) = status_of s" "status_of (s\<lparr>sh_read := r\<rparr>) = status_of s"
  "status_of (s\<lparr>sh_name := n\<rparr>) = status_of s" "status_of (s\<lparr>sh_lock_failed := l\<rparr>) = status_of s"
  by (simp_all add: status_of_def fun_eq_iff)

lemma status_open: "sh_inv s \<Longrightarrow> status_of (open_or_create p s) = status_of s"
  by (auto simp: open_or_create_def status_of_def fun_eq_iff sh_inv_def new_obj_def split: option.splits)

lemma status_step:
  assumes "sh_inv s"
  shows "status_of (sh_step e s) = (case stored e s of None \<Rightarrow> status_of s | Some (k, v) \<Rightarrow> (status_of s)(k := v))"
proof (cases e)
  case (Run p ok)
  then show ?thesis
    using status_open [OF assms, of p]
    by (cases "sh_procs s p")
      (simp_all add: stored_def sh_vis_def is_device_def device_step_def controller_step_def init_controller_def command_def
        fail_keep_name_def fail_unlink_def split: option.split gets.split)
qed (simp_all add: stored_def sh_vis_def)

text \<open>The program counter that a step gives its process.\<close>

definition acts :: "sh_event \<Rightarrow> nat" where
  "acts e = (case e of StartController p inp \<Rightarrow> p | StartDevice p \<Rightarrow> p | Run p ok \<Rightarrow> p | Sigint p \<Rightarrow> p | Sigkill p \<Rightarrow> p)"

lemma mutex_procs [simp]:
  "q \<noteq> p \<Longrightarrow> sh_procs (mutex_lock p k pc s) q = sh_procs s q" "q \<noteq> p \<Longrightarrow> sh_procs (mutex_unlock p k pc s) q = sh_procs s q"
  "q \<noteq> p \<Longrightarrow> sh_procs (mutex_init p k pc s) q = sh_procs s q" "q \<noteq> p \<Longrightarrow> sh_procs (mutex_destroy p k pc s) q = sh_procs s q"
  by (simp_all add: mutex_lock_def mutex_unlock_def mutex_init_def mutex_destroy_def split: mutex.split)

lemma mutex_pc:
  "sh_procs (mutex_lock p k pc s) p = (if dv_mutex (sh_objs s k) = Unlocked then pc else sh_procs s p)"
  "sh_procs (mutex_unlock p k pc s) p = (if dv_mutex (sh_objs s k) = Locked p then pc else sh_procs s p)"
  "sh_procs (mutex_init p k pc s) p =
     (if dv_mutex (sh_objs s k) = Raw \<or> dv_mutex (sh_objs s k) = Destroyed then pc else sh_procs s p)"
  "sh_procs (mutex_destroy p k pc s) p = (if dv_mutex (sh_objs s k) = Unlocked then pc else sh_procs s p)"
  by (simp_all add: mutex_lock_def mutex_unlock_def mutex_init_def mutex_destroy_def split: mutex.split)

lemma mutex_failed [simp]:
  "sh_lock_failed (mutex_lock p k pc s) = sh_lock_failed s" "sh_lock_failed (mutex_unlock p k pc s) = sh_lock_failed s"
  "sh_lock_failed (mutex_init p k pc s) = sh_lock_failed s" "sh_lock_failed (mutex_destroy p k pc s) = sh_lock_failed s"
  by (simp_all add: mutex_lock_def mutex_unlock_def mutex_init_def mutex_destroy_def split: mutex.split)

lemma step_other: "q \<noteq> acts e \<Longrightarrow> sh_procs (sh_step e s) q = sh_procs s q"
proof (cases e)
  case (Run p ok)
  assume "q \<noteq> acts e"
  with Run show ?thesis
    by (cases "sh_procs s p")
      (simp_all add: acts_def is_device_def device_step_def controller_step_def init_controller_def command_def
        fail_keep_name_def fail_unlink_def open_or_create_def split: option.split gets.split)
qed (simp_all add: acts_def)

lemma step_failed:
  "sh_lock_failed (sh_step e s) \<longleftrightarrow> sh_lock_failed s \<or> sh_vis e s = Some LockFailed"
proof (cases e)
  case (Run p ok)
  then show ?thesis
    by (cases "sh_procs s p")
      (simp_all add: sh_vis_def is_device_def device_step_def controller_step_def init_controller_def command_def
        fail_keep_name_def fail_unlink_def open_or_create_def split: option.split gets.split)
qed (simp_all add: sh_vis_def)

lemma step_pc:
  assumes "\<not> sh_lock_failed (sh_step e s)" and "pc_ok s (sh_procs s (acts e))"
    and "sh_procs (sh_step e s) (acts e) \<noteq> sh_procs s (acts e)"
  shows "pc_ok (sh_step e s) (sh_procs (sh_step e s) (acts e))"
proof (cases e)
  case (Run p ok)
  with assms show ?thesis
    by (cases "sh_procs s p")
      (auto simp: mutex_pc status_of_def acts_def pc_ok_def is_device_def device_step_def controller_step_def init_controller_def command_def
        dispatch_def fail_keep_name_def fail_unlink_def open_or_create_def split: option.splits gets.splits if_splits)
qed (use assms in \<open>auto simp: acts_def pc_ok_def split: if_splits\<close>)

lemma stored_cs:
  assumes "stored e s = Some (k, v)"
  obtains ok held where "e = Run (acts e) ok" "sh_procs s (acts e) = CStore k v held"
  using assms by (auto simp: stored_def sh_vis_def acts_def split: sh_event.splits process.splits if_splits option.splits reg_act.splits)

lemma sh_good_step:
  assumes good: "sh_good s"
  shows "sh_good (sh_step e s)"
proof (cases "sh_lock_failed (sh_step e s)")
  case False
  have inv: "sh_inv s" and ok: "\<And>q. pc_ok s (sh_procs s q)"
    using good False by (auto simp: sh_good_def step_failed)
  have "pc_ok (sh_step e s) (sh_procs (sh_step e s) q)" for q
  proof (cases "sh_procs (sh_step e s) q = sh_procs s q")
    case True
    show ?thesis
    proof (cases "\<exists>k v. sh_procs s q = DUnlock k v")
      case reading: True
      then obtain k v where q: "sh_procs s q = DUnlock k v" by blast
      then have v: "status_of s k = v" using ok [of q] by (simp add: pc_ok_def)
      have "status_of (sh_step e s) k = v"
      proof (cases "stored e s")
        case (Some kw)
        then obtain j w where j: "stored e s = Some (j, w)" by (cases kw) auto
        then obtain held where p: "sh_procs s (acts e) = CStore j w held" by (rule stored_cs)
        then have "in_cs (sh_procs s (acts e)) = Some j" using ok [of "acts e"] by (simp add: pc_ok_def in_cs_def)
        from cs_locked [OF inv this] have "dv_mutex (sh_objs s j) = Locked (acts e)" .
        moreover have "dv_mutex (sh_objs s k) = Locked q" by (rule cs_locked [OF inv]) (simp add: q in_cs_def)
        ultimately have "j \<noteq> k" using p q by auto
        then show ?thesis using status_step [OF inv, of e] j v by simp
      qed (use status_step [OF inv, of e] v in simp)
      then show ?thesis using True q by (simp add: pc_ok_def)
    next
      case False
      then show ?thesis using True ok [of q] by (simp add: pc_ok_def split: process.splits)
    qed
  next
    case moved: False
    then have "q = acts e" using step_other by blast
    then show ?thesis using step_pc [OF False ok] moved by simp
  qed
  then show ?thesis using sh_inv_step [OF inv] by (simp add: sh_good_def)
qed (use good in \<open>simp add: sh_good_def sh_inv_step\<close>)

lemma sh_good_init: "sh_good sh_init"
  using sh_inv_init by (simp add: sh_good_def sh_init_def pc_ok_def)

interpretation shr: linearizable sh_step sh_good sh_abs sh_vis reg_spec
proof unfold_locales
  fix s e assume "sh_good s"
  then show "sh_good (sh_step e s)" by (rule sh_good_step)
next
  fix s e assume good: "sh_good s" and vis: "sh_vis e s = None"
  then have "stored e s = None" by (simp add: stored_def)
  then have "status_of (sh_step e s) = status_of s" using status_step good by (simp add: sh_good_def)
  then show "sh_abs (sh_step e s) = sh_abs s" by (simp add: sh_abs_def step_failed vis)
next
  fix s e l assume good: "sh_good s" and vis: "sh_vis e s = Some l"
  have inv: "sh_inv s" using good by (simp add: sh_good_def)
  show "reg_spec l (sh_abs s) = Some (sh_abs (sh_step e s))"
  proof (cases l)
    case (SetStatus k v)
    then show ?thesis using status_step [OF inv, of e] vis by (simp add: stored_def sh_abs_def step_failed)
  next
    case (ReadStatus p k v)
    have "status_of (sh_step e s) = status_of s" using status_step [OF inv, of e] vis ReadStatus by (simp add: stored_def)
    moreover have "status_of s k = v" if "\<not> sh_lock_failed s"
    proof -
      have "sh_procs s (acts e) = DUnlock k v"
        using vis ReadStatus by (auto simp: sh_vis_def acts_def split: sh_event.splits process.splits if_splits)
      then show ?thesis using good that by (auto simp: sh_good_def pc_ok_def dest: spec [of _ "acts e"])
    qed
    ultimately show ?thesis using ReadStatus vis by (simp add: sh_abs_def step_failed)
  next
    case LockFailed
    then show ?thesis using vis by (simp add: sh_abs_def step_failed)
  qed
qed

text \<open>What a device has printed, against what it has read: the last reading may not be printed yet, or never if the device was killed.\<close>

definition print_ok :: "shm \<Rightarrow> nat \<Rightarrow> bool" where
  "print_ok s p \<longleftrightarrow>
     (let r = map (\<lambda>v. v = 1) (sh_read s p)
      in case sh_procs s p of
           DPrint k v \<Rightarrow> r = (v = 1) # sh_shown s p
         | Gone e \<Rightarrow> r = sh_shown s p \<or> tl r = sh_shown s p
         | _ \<Rightarrow> r = sh_shown s p \<or> sh_undefined s \<and> tl r = sh_shown s p)"

lemma mutex_logs [simp]:
  "sh_read (mutex_lock p k pc s) = sh_read s" "sh_read (mutex_unlock p k pc s) = sh_read s"
  "sh_read (mutex_init p k pc s) = sh_read s" "sh_read (mutex_destroy p k pc s) = sh_read s"
  "sh_shown (mutex_lock p k pc s) = sh_shown s" "sh_shown (mutex_unlock p k pc s) = sh_shown s"
  "sh_shown (mutex_init p k pc s) = sh_shown s" "sh_shown (mutex_destroy p k pc s) = sh_shown s"
  by (simp_all add: mutex_lock_def mutex_unlock_def mutex_init_def mutex_destroy_def split: mutex.split)

lemma init_logs:
  "sh_read (init_controller p ok s) = sh_read s" "sh_shown (init_controller p ok s) = sh_shown s"
  by (simp_all add: init_controller_def open_or_create_def fail_keep_name_def fail_unlink_def split: process.split option.split)

lemma controller_logs:
  "sh_read (controller_step p ok s) = sh_read s" "sh_shown (controller_step p ok s) = sh_shown s"
  by (simp_all add: controller_step_def init_logs command_def split: process.split option.split gets.split)

lemma controller_no_print:
  "\<not> is_device (sh_procs s p) \<Longrightarrow> \<not> is_device (sh_procs (controller_step p ok s) p)"
  by (cases "sh_procs s p")
    (auto simp: controller_step_def init_controller_def command_def dispatch_def is_device_def mutex_pc open_or_create_def fail_keep_name_def
      fail_unlink_def split: option.splits gets.splits)

lemma step_logs_other: "q \<noteq> acts e \<Longrightarrow> sh_read (sh_step e s) q = sh_read s q \<and> sh_shown (sh_step e s) q = sh_shown s q"
  by (cases e) (auto simp: acts_def controller_logs device_step_def split: process.split option.split)

lemma undefined_stays: "sh_undefined s \<Longrightarrow> sh_step e s = s"
  by (cases e) simp_all

lemma print_ok_step:
  assumes "\<And>p. print_ok s p"
  shows "print_ok (sh_step e s) q"
proof (cases "sh_undefined s \<or> q \<noteq> acts e")
  case True
  show ?thesis
  proof (cases "sh_undefined s")
    case True
    then show ?thesis using assms by (simp add: undefined_stays)
  next
    case False
    then have "q \<noteq> acts e" using True by simp
    then show ?thesis using assms [of q] step_other [of q e s] step_logs_other [of q e s] False
      by (auto simp: print_ok_def Let_def split: process.splits)
  qed
next
  case False
  then have q: "q = acts e" and ud: "\<not> sh_undefined s" by simp_all
  note old = assms [of q]
  show ?thesis
  proof (cases e)
    case (Run p ok)
    then have p: "q = p" using q by (simp add: acts_def)
    show ?thesis
    proof (cases "is_device (sh_procs s p)")
      case True
      then show ?thesis using old ud p unfolding Run
        by (cases "sh_procs s p")
          (auto simp: is_device_def device_step_def print_ok_def Let_def mutex_pc mutex_lock_def mutex_unlock_def split: option.split mutex.split)
    next
      case False
      then have "\<not> is_device (sh_procs (sh_step e s) p)" using ud by (simp add: Run controller_no_print)
      moreover have "map (\<lambda>v. v = 1) (sh_read s p) = sh_shown s p \<or> (\<exists>x. sh_procs s p = Gone x)"
        using old False ud p by (cases "sh_procs s p") (auto simp: print_ok_def is_device_def)
      moreover have "sh_step e s = s" if "sh_procs s p = Gone x" for x
        using that by (simp add: Run is_device_def controller_step_def init_controller_def)
      ultimately show ?thesis using old False ud p
        by (cases "sh_procs (sh_step e s) p")
          (auto simp: Run print_ok_def is_device_def controller_logs)
    qed
  next
    case (Sigint p)
    then have "q = p" using q by (simp add: acts_def)
    then show ?thesis using old ud unfolding Sigint
      by (cases "sh_procs s p") (auto simp: print_ok_def is_device_def ended_def Let_def)
  next
    case (Sigkill p)
    then have "q = p" using q by (simp add: acts_def)
    then show ?thesis using old ud unfolding Sigkill
      by (cases "sh_procs s p") (auto simp: print_ok_def ended_def Let_def)
  qed (use old ud q in \<open>auto simp: print_ok_def acts_def Let_def\<close>)
qed

definition reads_of :: "nat \<Rightarrow> reg_act list \<Rightarrow> int list" where
  "reads_of p tr = concat (map (\<lambda>a. case a of ReadStatus q k v \<Rightarrow> if q = p then [v] else [] | _ \<Rightarrow> []) tr)"

lemma step_reads:
  "rev (sh_read (sh_step e s) p) = rev (sh_read s p) @ reads_of p (case sh_vis e s of None \<Rightarrow> [] | Some l \<Rightarrow> [l])"
proof (cases e)
  case (Run q ok)
  then show ?thesis
    by (cases "sh_procs s q") (auto simp: reads_of_def sh_vis_def is_device_def device_step_def controller_logs split: option.split)
qed (simp_all add: sh_vis_def reads_of_def)

lemma run_reads: "rev (sh_read (run_sched sh_step es s) p) = rev (sh_read s p) @ reads_of p (visible_trace sh_step sh_vis es s)"
proof (induction es arbitrary: s)
  case (Cons e es)
  have "reads_of p (xs @ ys) = reads_of p xs @ reads_of p ys" for xs ys by (simp add: reads_of_def)
  then show ?case using Cons step_reads [of e s p] by simp
qed (simp add: reads_of_def)

text \<open>
  (C37) What the devices print is what the controllers commanded: the stores of a run and the statuses that the devices have read when they leave their critical sections, in order, are a run
  of one register per shared-memory object, for any number of processes, signals and failing system calls, until something
  undefined happens or a controller goes on without its lock; and each device prints, behind its unlock and so perhaps later than a further store, ON or OFF for just the statuses it has read, in their order,
  up to one that it is still to print or was killed before printing.
\<close>

theorem device_status_is_register:
  fixes es :: "sh_event list"
  defines "tr \<equiv> visible_trace sh_step sh_vis es sh_init" and "s \<equiv> run_sched sh_step es sh_init"
  shows "spec_run reg_spec tr (Some (\<lambda>_. 0)) = Some (sh_abs s) \<and>
    (\<forall>p. rev (sh_shown s p) = map (\<lambda>v. v = 1) (reads_of p tr) \<or> rev (sh_shown s p) = map (\<lambda>v. v = 1) (butlast (reads_of p tr)))"
proof -
  have "sh_abs sh_init = Some (\<lambda>_. 0)" by (simp add: sh_abs_def sh_init_def status_of_def new_obj_def fun_eq_iff)
  with shr.trace_meets_spec [OF sh_good_init, of es] have "spec_run reg_spec tr (Some (\<lambda>_. 0)) = Some (sh_abs s)"
    by (simp add: tr_def s_def)
  moreover have "rev (sh_shown s p) = map (\<lambda>v. v = 1) (reads_of p tr) \<or> rev (sh_shown s p) = map (\<lambda>v. v = 1) (butlast (reads_of p tr))" for p
  proof -
    have "\<forall>q. print_ok (run_sched sh_step es sh_init) q"
    proof (induction es rule: rev_induct)
      case Nil
      show ?case by (simp add: print_ok_def sh_init_def)
    next
      case (snoc e es)
      then show ?case using print_ok_step by simp
    qed
    then have "print_ok s p" by (simp add: s_def)
    then have "sh_shown s p = map (\<lambda>v. v = 1) (sh_read s p) \<or> sh_shown s p = tl (map (\<lambda>v. v = 1) (sh_read s p))"
      by (auto simp: print_ok_def Let_def split: process.splits)
    moreover have "sh_read s p = rev (reads_of p tr)"
      using run_reads [of es sh_init p] unfolding s_def tr_def by (simp add: sh_init_def rev_swap)
    moreover have "rev (tl (map g (rev xs))) = map g (butlast xs)" for g :: "int \<Rightarrow> bool" and xs
      by (cases xs rule: rev_cases) (simp_all add: rev_map)
    ultimately show ?thesis by (metis rev_map rev_rev_ident)
  qed
  ultimately show ?thesis by blast
qed

section \<open>A session of the controller\<close>

text \<open>What the commands do to the status; other lines are refused.\<close>

fun commanded :: "string list \<Rightarrow> int \<Rightarrow> int" where
  "commanded [] v = v"
| "commanded (c # cs) v = commanded cs (if c = ''on'' then 1 else if c = ''off'' then 0 else v)"

text \<open>The steps of one command.\<close>

definition steps_of_command :: "string \<Rightarrow> nat" where
  "steps_of_command c = (if c = ''on'' \<or> c = ''off'' then 4 else 1)"

definition ready :: "nat \<Rightarrow> nat \<Rightarrow> shm \<Rightarrow> bool" where
  "ready p k s \<longleftrightarrow> sh_procs s p = CPrompt k \<and> dv_mutex (sh_objs s k) = Unlocked \<and> \<not> sh_undefined s \<and> \<not> sh_eintr s p"

definition line :: "string \<Rightarrow> in_event list" where
  "line l = chars (l @ [newline])"

lemma command_line:
  assumes "ready p k s" and "sh_in s p = line c @ inp" and "plain c" and "length c \<le> 254"
  shows "sh_step (Run p True) s =
    goto p (dispatch k c) (s\<lparr>sh_in := (sh_in s)(p := inp), sh_eintr := (sh_eintr s)(p := False)\<rparr>)"
  using assms get_line [of c 256 "length (sh_in s p)" inp False]
  by (simp add: ready_def is_device_def controller_step_def command_def line_def)

lemma one_command:
  assumes "ready p k s" and "sh_in s p = line c @ inp" and "plain c" and "length c \<le> 254" and "c \<noteq> ''quit''"
  defines "s' \<equiv> run_sched sh_step (replicate (steps_of_command c) (Run p True)) s"
  shows "ready p k s' \<and> sh_in s' p = inp \<and> status_of s' k = commanded [c] (status_of s k) \<and> sh_name s' = sh_name s"
proof -
  note first = command_line [OF assms(1-4)]
  consider "c = ''on''" | "c = ''off''" | "c \<noteq> ''on''" "c \<noteq> ''off''" by blast
  then show ?thesis
  proof cases
    case 3
    then have "s' = goto p (CPrompt k) (s\<lparr>sh_in := (sh_in s)(p := inp), sh_eintr := (sh_eintr s)(p := False)\<rparr>)"
      using first assms(5) by (simp add: s'_def steps_of_command_def dispatch_def)
    then show ?thesis using assms(1) 3 by (simp add: ready_def)
  qed (use first assms(1) in \<open>simp_all add: s'_def steps_of_command_def dispatch_def eval_nat_numeral ready_def is_device_def
      controller_step_def mutex_lock_def mutex_unlock_def status_of_def\<close>)
qed

lemma many_commands:
  assumes "ready p k s" and "sh_in s p = concat (map line cs) @ inp"
    and "\<forall>c \<in> set cs. plain c \<and> length c \<le> 254 \<and> c \<noteq> ''quit''"
  shows "\<exists>n. let s' = run_sched sh_step (replicate n (Run p True)) s
     in ready p k s' \<and> sh_in s' p = inp \<and> status_of s' k = commanded cs (status_of s k)"
  using assms
proof (induction cs arbitrary: s)
  case Nil
  then show ?case by (intro exI [of _ 0]) simp
next
  case (Cons c cs)
  let ?n = "steps_of_command c" and ?s = "run_sched sh_step (replicate (steps_of_command c) (Run p True)) s"
  have one: "ready p k ?s" "sh_in ?s p = concat (map line cs) @ inp" "status_of ?s k = commanded [c] (status_of s k)"
    using one_command [of p k s c "concat (map line cs) @ inp"] Cons.prems by auto
  obtain m where m: "let s' = run_sched sh_step (replicate m (Run p True)) ?s
     in ready p k s' \<and> sh_in s' p = inp \<and> status_of s' k = commanded cs (status_of ?s k)"
    using Cons.IH [OF one(1,2)] Cons.prems(3) by auto
  have "run_sched sh_step (replicate (?n + m) (Run p True)) s = run_sched sh_step (replicate m (Run p True)) ?s"
    by (simp add: replicate_add)
  with m one(3) show ?case by (intro exI [of _ "?n + m"]) (simp add: Let_def)
qed

text \<open>
  A controller that is ready at its prompt, with the mutex free, works off its input up to \<open>quit\<close>, undisturbed: the last
  on or off is the status, other lines change nothing, and at the end the mutex is destroyed, the name removed and the
  exit status is success.
\<close>

theorem controller_session:
  assumes "ready p k s" and "sh_in s p = concat (map line cs) @ line ''quit'' @ rest"
    and "\<forall>c \<in> set cs. plain c \<and> length c \<le> 254 \<and> c \<noteq> ''quit''"
  shows "\<exists>n. let s' = run_sched sh_step (replicate n (Run p True)) s
     in sh_procs s' p = Gone Success \<and> sh_name s' = None \<and> dv_mutex (sh_objs s' k) = Destroyed \<and>
        status_of s' k = commanded cs (status_of s k) \<and> \<not> sh_undefined s'"
proof -
  obtain n where n: "let s' = run_sched sh_step (replicate n (Run p True)) s
     in ready p k s' \<and> sh_in s' p = line ''quit'' @ rest \<and> status_of s' k = commanded cs (status_of s k)"
    using many_commands [OF assms] by blast
  define s1 where "s1 = run_sched sh_step (replicate n (Run p True)) s"
  have s1: "ready p k s1" "sh_in s1 p = line ''quit'' @ rest" "status_of s1 k = commanded cs (status_of s k)"
    using n by (simp_all add: s1_def Let_def)
  have plain: "plain ''quit''" by (simp add: plain_def newline_def nul_def)
  have "sh_step (Run p True) s1 = goto p (CDestroy k) (s1\<lparr>sh_in := (sh_in s1)(p := rest), sh_eintr := (sh_eintr s1)(p := False)\<rparr>)"
    using command_line [OF s1(1,2) plain] by (simp add: dispatch_def)
  then have "let s' = run_sched sh_step (replicate 3 (Run p True)) s1
     in sh_procs s' p = Gone Success \<and> sh_name s' = None \<and> dv_mutex (sh_objs s' k) = Destroyed \<and>
        status_of s' k = status_of s1 k \<and> \<not> sh_undefined s'"
    using s1(1) by (simp add: eval_nat_numeral ready_def is_device_def controller_step_def mutex_destroy_def Let_def status_of_def)
  then show ?thesis using s1(3) by (intro exI [of _ "n + 3"]) (simp add: replicate_add s1_def Let_def)
qed

definition ready_state :: shm where
  "ready_state = run_sched sh_step
     (StartController 0 (concat (map line [''on'', ''x'']) @ line ''quit'') # replicate 9 (Run 0 True)) sh_init"

lemma controller_session_witness:
  "\<exists>n. let s' = run_sched sh_step (replicate n (Run 0 True)) ready_state
     in sh_procs s' 0 = Gone Success \<and> sh_name s' = None \<and> dv_mutex (sh_objs s' 0) = Destroyed \<and>
        status_of s' 0 = 1 \<and> \<not> sh_undefined s'"
proof -
  have r: "ready 0 0 ready_state" "sh_in ready_state 0 = concat (map line [''on'', ''x'']) @ line ''quit'' @ []"
    "status_of ready_state 0 = 0"
    by (simp_all add: ready_state_def eval_nat_numeral ready_def is_device_def controller_step_def init_controller_def
        open_or_create_def sh_init_def new_obj_def mutex_init_def mutex_lock_def mutex_unlock_def status_of_def)
  show ?thesis using controller_session [OF r(1,2)] r(3) by (simp add: plain_def newline_def nul_def)
qed

section \<open>What goes wrong\<close>

text \<open>The owner of the mutex is gone: the mutex is not robust, and stays locked.\<close>

definition dead_owner :: "nat \<Rightarrow> nat \<Rightarrow> (nat \<Rightarrow> bool) \<Rightarrow> (nat \<Rightarrow> bool list) \<Rightarrow> shm \<Rightarrow> bool" where
  "dead_owner k q waiting shown s \<longleftrightarrow>
     dv_mutex (sh_objs s k) = Locked q \<and> (\<exists>e. sh_procs s q = Gone e) \<and>
     (\<forall>p. waiting p \<longrightarrow> (sh_procs s p = DLoop k \<or> (\<exists>e. sh_procs s p = Gone e)) \<and> sh_shown s p = shown p)"

lemma dead_owner_step:
  assumes inv: "sh_inv s" and dead: "dead_owner k q W shown s"
  shows "dead_owner k q W shown (sh_step e s)"
proof -
  have k: "k < sh_next s"
  proof (rule ccontr)
    assume "\<not> k < sh_next s"
    then have "sh_objs s k = new_obj" using inv by (simp add: sh_inv_def)
    then show False using dead by (simp add: dead_owner_def new_obj_def)
  qed
  show ?thesis
  proof (cases e)
    case (Run p ok)
    then show ?thesis
      using dead k
      by (cases "sh_procs s p")
        (auto simp: dead_owner_def is_device_def device_step_def controller_step_def init_controller_def command_def
          open_or_create_def fail_keep_name_def fail_unlink_def mutex_lock_def mutex_unlock_def mutex_init_def mutex_destroy_def
          split: option.splits gets.splits mutex.splits)
  qed (use dead in \<open>auto simp: dead_owner_def ended_def is_device_def\<close>)
qed

text \<open>
  When a process dies while it holds the mutex (a controller on SIGINT between lock and unlock), the mutex stays locked in every
  continuation, no matter which processes are started, and a device waiting for it never prints again.
\<close>

theorem dead_owner_blocks_devices:
  assumes "s = run_sched sh_step es sh_init" and "dv_mutex (sh_objs s k) = Locked q" and "sh_procs s q = Gone x"
  shows "dv_mutex (sh_objs (run_sched sh_step fs s) k) = Locked q"
    and "sh_procs s p = DLoop k \<Longrightarrow> sh_shown (run_sched sh_step fs s) p = sh_shown s p"
proof -
  have inv: "sh_inv s" using sh.sched_keeps [OF sh_inv_init, of es] assms(1) by simp
  let ?W = "\<lambda>p. sh_procs s p = DLoop k"
  have "dead_owner k q ?W (sh_shown s) s" using assms(2,3) by (simp add: dead_owner_def)
  with inv have "sh_inv (run_sched sh_step fs s) \<and> dead_owner k q ?W (sh_shown s) (run_sched sh_step fs s)"
  proof (induction fs rule: rev_induct)
    case (snoc f fs)
    then show ?case using sh_inv_step dead_owner_step by simp
  qed simp
  then show "dv_mutex (sh_objs (run_sched sh_step fs s) k) = Locked q"
    and "sh_procs s p = DLoop k \<Longrightarrow> sh_shown (run_sched sh_step fs s) p = sh_shown s p"
    by (auto simp: dead_owner_def)
qed

lemma dead_owner_blocks_devices_witness:
  "\<exists>s. sh_procs s 0 = Gone Killed \<and> (\<forall>fs. dv_mutex (sh_objs (run_sched sh_step fs s) 0) = Locked 0)"
proof -
  let ?es = "StartController 0 [] # replicate 7 (Run 0 True) @ [Sigint 0]"
  have s: "dv_mutex (sh_objs (run_sched sh_step ?es sh_init) 0) = Locked 0" "sh_procs (run_sched sh_step ?es sh_init) 0 = Gone Killed"
    by (simp_all add: eval_nat_numeral is_device_def ended_def controller_step_def init_controller_def
        open_or_create_def sh_init_def new_obj_def mutex_init_def mutex_lock_def)
  show ?thesis using dead_owner_blocks_devices(1) [OF refl s] s(2) by blast
qed

text \<open>
  Three orders of events that the programs do not exclude reach undefined behaviour: a device that attaches before the
  mutex is initialised, a controller that quits while a device still runs, and a second controller.
\<close>

theorem device_lifetime_hazards:
  "sh_undefined (run_sched sh_step
     (StartController 0 [] # replicate 2 (Run 0 True) @ StartDevice 1 # replicate 3 (Run 1 True)) sh_init)"
  "sh_undefined (run_sched sh_step
     (StartController 0 (line ''quit'') # replicate 9 (Run 0 True) @ StartDevice 1 # replicate 2 (Run 1 True) @
      replicate 2 (Run 0 True) @ [Run 1 True]) sh_init)"
  "sh_undefined (run_sched sh_step
     (StartController 0 [] # replicate 9 (Run 0 True) @ StartController 1 [] # replicate 5 (Run 1 True)) sh_init)"
  by code_simp+

text \<open>A failure of \<open>ftruncate\<close> or \<open>mmap\<close> leaves an object of that name behind; the later failures remove it.\<close>

lemma init_failure_name:
  assumes "\<not> sh_undefined s" and "sh_procs s p \<in> {CTruncate k, CMap k, CAttr k, CInit k, CAttrDestroy k}"
  shows "sh_procs (sh_step (Run p False) s) p = Gone Failure"
    and "sh_name (sh_step (Run p False) s) = (if sh_procs s p \<in> {CTruncate k, CMap k} then sh_name s else None)"
  using assms
  by (auto simp: is_device_def controller_step_def init_controller_def fail_keep_name_def fail_unlink_def)

end
