(* ===== verification/SensorShm.thy ===== *)
theory SensorShm
  imports CInput Complex_Main
begin

text \<open>
  sensor-daemon and sensor-cli (session-09/Exercise_1): a daemon that writes three fields of a System V shared-memory segment in a
  cycle, and a program that prints them.

  Segments are numbered; \<open>sy_key\<close> is the one with the key 0x1234.  A double is a rational number, and every operation on doubles
  is rounded by a function \<open>rnd\<close>, a parameter.  A step is one system call or one access to a field; \<open>Run\<close> carries whether the system
  call succeeds, what the files under /proc contain, and the clock.  Ghost components: with each field, the number
  of the cycle that wrote it (0: never written), and in \<open>sy_log\<close> the measurements of each segment's cycles.
\<close>

section \<open>/proc/meminfo\<close>

text \<open>\<open>sscanf\<close> with %ld: white space, a sign, digits; without a digit nothing is stored.\<close>

definition sscanf_ld :: "string \<Rightarrow> int \<Rightarrow> int" where
  "sscanf_ld str old =
     (let t = dropWhile is_space str;
          (sign, u) = (case t of [] \<Rightarrow> (1, [])
             | c # cs \<Rightarrow> if c = CHR ''-'' then (-1, cs) else if c = CHR ''+'' then (1, cs) else (1, t));
          ds = takeWhile is_digit u
      in if ds = [] then old else sign * digits_value ds)"

definition meminfo_line :: "int \<times> int \<Rightarrow> string \<Rightarrow> int \<times> int" where
  "meminfo_line tf line =
     (let (mem_total, mem_free) = tf in
      if take 9 line = ''MemTotal:'' then (sscanf_ld (drop 9 line) mem_total, mem_free)
      else if take 8 line = ''MemFree:'' then (mem_total, sscanf_ld (drop 8 line) mem_free)
      else tf)"

definition meminfo :: "string list \<Rightarrow> int \<times> int" where
  "meminfo lines = foldl meminfo_line (0, 0) lines"

text \<open>\<open>None\<close> is the result -1: the file cannot be opened, or there is no \<open>MemTotal\<close>.\<close>

definition read_meminfo :: "(rat \<Rightarrow> rat) \<Rightarrow> string list option \<Rightarrow> rat option" where
  "read_meminfo rnd file =
     (case file of
        None \<Rightarrow> None
      | Some lines \<Rightarrow>
          (let (mem_total, mem_free) = meminfo lines
           in if mem_total = 0 then None
              else Some (rnd (rnd (rnd (of_int (mem_total - mem_free)) / rnd (of_int mem_total)) * 100))))"

section \<open>/proc/loadavg\<close>

text \<open>\<open>fscanf\<close> with %lf, for decimal notation: white space, a sign, digits with at most one point among or around them, and an exponent.  It
  fails without a digit, and for an exponent without one.  (Hexadecimal numbers, infinities and NaNs, which the kernel does not write, are left out.)\<close>

definition scan_sign :: "string \<Rightarrow> int \<times> string" where
  "scan_sign t =
     (case t of [] \<Rightarrow> (1, [])
      | c # cs \<Rightarrow> if c = CHR ''-'' then (-1, cs) else if c = CHR ''+'' then (1, cs) else (1, t))"

definition scan_exponent :: "string \<Rightarrow> int option" where
  "scan_exponent t =
     (case t of [] \<Rightarrow> Some 0
      | c # cs \<Rightarrow>
          if c = CHR ''e'' \<or> c = CHR ''E'' then
            (let (sign, u) = scan_sign cs; ds = takeWhile is_digit u
             in if ds = [] then None else Some (sign * digits_value ds))
          else Some 0)"

definition scan_lf :: "string \<Rightarrow> rat option" where
  "scan_lf str =
     (let (sign, t) = scan_sign (dropWhile is_space str);
          whole = takeWhile is_digit t;
          u = dropWhile is_digit t;
          (part, v) = (case u of [] \<Rightarrow> ([], [])
             | c # cs \<Rightarrow> if c = CHR ''.'' then (takeWhile is_digit cs, dropWhile is_digit cs) else ([], u))
      in if whole @ part = [] then None
         else (case scan_exponent v of
             None \<Rightarrow> None
           | Some e \<Rightarrow> Some (of_int (sign * digits_value (whole @ part)) * (if 0 \<le> e then 10 ^ nat e else inverse (10 ^ nat (- e))) / 10 ^ length part)))"

text \<open>\<open>None\<close> is the result -1: the file cannot be opened or does not start with a number.\<close>

definition read_loadavg :: "(rat \<Rightarrow> rat) \<Rightarrow> string option \<Rightarrow> rat option" where
  "read_loadavg rnd file = (case file of None \<Rightarrow> None | Some text \<Rightarrow> map_option rnd (scan_lf text))"

definition cpu_temp_of :: "(rat \<Rightarrow> rat) \<Rightarrow> rat \<Rightarrow> rat" where
  "cpu_temp_of rnd load1 = rnd (40 + rnd (load1 * 10))"

section \<open>State\<close>

record segment =
  sg_timestamp :: "int \<times> nat"
  sg_cpu_temp :: "rat \<times> nat"
  sg_ram_used_pct :: "rat \<times> nat"

definition zero_segment :: segment where
  "zero_segment = \<lparr>sg_timestamp = (0, 0), sg_cpu_temp = (0, 0), sg_ram_used_pct = (0, 0)\<rparr>"

record report =
  rp_timestamp :: "int \<times> nat"
  rp_cpu_temp :: "rat \<times> nat"
  rp_ram_used_pct :: "rat \<times> nat"
  rp_warned :: bool

datatype sy_exit = Success | Failure | Killed

datatype sy_pc =
    NotStarted
  | ShmGet
  | ShmAt nat
  | Loop nat
  | StoreTemp nat rat rat  \<comment> \<open>load and memory, as measured\<close>
  | StoreRam nat rat
  | StoreTime nat
  | ShmDt nat
  | ShmRm nat
  | CliGet
  | CliAt nat
  | CliTime nat
  | CliTemp nat "int \<times> nat"
  | CliRam nat "int \<times> nat" "rat \<times> nat"
  | CliWarn nat "int \<times> nat" "rat \<times> nat" "rat \<times> nat"
  | CliDt nat
  | Gone sy_exit

record sysv =
  sy_key :: "nat option"
  sy_segs :: "nat \<Rightarrow> segment"
  sy_next :: nat
  sy_procs :: "nat \<Rightarrow> sy_pc"
  sy_running :: "nat \<Rightarrow> bool"
  sy_reports :: "(nat \<times> report) list"
  sy_log :: "nat \<Rightarrow> (rat \<times> rat) list"

datatype sy_event =
    StartDaemon nat
  | StartCli nat
  | Run nat bool "string option" "string list option" int
  | Sigint nat
  | Sigkill nat

definition sy_init :: sysv where
  "sy_init = \<lparr>sy_key = None, sy_segs = (\<lambda>_. zero_segment), sy_next = 0, sy_procs = (\<lambda>_. NotStarted), sy_running = (\<lambda>_. True),
     sy_reports = [], sy_log = (\<lambda>_. [])\<rparr>"

definition sy_goto :: "nat \<Rightarrow> sy_pc \<Rightarrow> sysv \<Rightarrow> sysv" where
  "sy_goto p pc s = s\<lparr>sy_procs := (sy_procs s)(p := pc)\<rparr>"

definition set_seg :: "nat \<Rightarrow> (segment \<Rightarrow> segment) \<Rightarrow> sysv \<Rightarrow> sysv" where
  "set_seg k f s = s\<lparr>sy_segs := (sy_segs s)(k := f (sy_segs s k))\<rparr>"

section \<open>daemon.c\<close>

text \<open>\<open>init_daemon\<close>: \<open>shmget\<close> with \<open>IPC_CREAT | IPC_EXCL\<close>, then \<open>shmat\<close>.\<close>

definition init_daemon :: "nat \<Rightarrow> bool \<Rightarrow> sysv \<Rightarrow> sysv" where
  "init_daemon p ok s =
     (case sy_procs s p of
        ShmGet \<Rightarrow>
          if ok \<and> sy_key s = None then
            sy_goto p (ShmAt (sy_next s))
              (s\<lparr>sy_key := Some (sy_next s), sy_segs := (sy_segs s)(sy_next s := zero_segment), sy_next := Suc (sy_next s)\<rparr>)
          else sy_goto p (Gone Failure) s
      | ShmAt k \<Rightarrow> if ok then sy_goto p (Loop k) s else sy_goto p (Gone Failure) (if sy_key s = Some k then s\<lparr>sy_key := None\<rparr> else s)
      | _ \<Rightarrow> s)"

definition daemon_step :: "(rat \<Rightarrow> rat) \<Rightarrow> nat \<Rightarrow> bool \<Rightarrow> string option \<Rightarrow> string list option \<Rightarrow> int \<Rightarrow> sysv \<Rightarrow> sysv" where
  "daemon_step rnd p ok loadavg mem now s =
     (case sy_procs s p of
        Loop k \<Rightarrow>
          if \<not> sy_running s p then sy_goto p (ShmDt k) s
          else (case (read_loadavg rnd loadavg, read_meminfo rnd mem) of
                  (Some load1, Some ram) \<Rightarrow> sy_goto p (StoreTemp k load1 ram) s
                | _ \<Rightarrow> s)
      | StoreTemp k load1 ram \<Rightarrow>
          sy_goto p (StoreRam k ram)
            (set_seg k (\<lambda>g. g\<lparr>sg_cpu_temp := (cpu_temp_of rnd load1, Suc (length (sy_log s k)))\<rparr>)
              (s\<lparr>sy_log := (sy_log s)(k := sy_log s k @ [(cpu_temp_of rnd load1, ram)])\<rparr>))
      | StoreRam k ram \<Rightarrow>
          sy_goto p (StoreTime k) (set_seg k (\<lambda>g. g\<lparr>sg_ram_used_pct := (ram, length (sy_log s k))\<rparr>) s)
      | StoreTime k \<Rightarrow>
          sy_goto p (Loop k)
            (set_seg k (\<lambda>g. g\<lparr>sg_timestamp := (now, length (sy_log s k))\<rparr>) s)
      | ShmDt k \<Rightarrow> sy_goto p (ShmRm k) s
      | ShmRm k \<Rightarrow>
          if ok then sy_goto p (Gone Success) (if sy_key s = Some k then s\<lparr>sy_key := None\<rparr> else s)
          else sy_goto p (Gone Failure) s
      | _ \<Rightarrow> init_daemon p ok s)"

section \<open>cli.c\<close>

definition cli_step :: "nat \<Rightarrow> bool \<Rightarrow> int \<Rightarrow> sysv \<Rightarrow> sysv" where
  "cli_step p ok now s =
     (case sy_procs s p of
        CliGet \<Rightarrow> (case sy_key s of Some k \<Rightarrow> sy_goto p (if ok then CliAt k else Gone Failure) s | None \<Rightarrow> sy_goto p (Gone Failure) s)
      | CliAt k \<Rightarrow> sy_goto p (if ok then CliTime k else Gone Failure) s
      | CliTime k \<Rightarrow> sy_goto p (CliTemp k (sg_timestamp (sy_segs s k))) s
      | CliTemp k ts \<Rightarrow> sy_goto p (CliRam k ts (sg_cpu_temp (sy_segs s k))) s
      | CliRam k ts temp \<Rightarrow> sy_goto p (CliWarn k ts temp (sg_ram_used_pct (sy_segs s k))) s
      | CliWarn k ts temp ram \<Rightarrow>
          sy_goto p (CliDt k)
            (s\<lparr>sy_reports := (k, \<lparr>rp_timestamp = ts, rp_cpu_temp = temp, rp_ram_used_pct = ram,
                rp_warned = (now - fst (sg_timestamp (sy_segs s k)) > 5)\<rparr>) # sy_reports s\<rparr>)
      | CliDt k \<Rightarrow> sy_goto p (Gone (if ok then Success else Failure)) s
      | _ \<Rightarrow> s)"

definition is_cli :: "sy_pc \<Rightarrow> bool" where
  "is_cli pc =
     (case pc of CliGet \<Rightarrow> True | CliAt k \<Rightarrow> True | CliTime k \<Rightarrow> True | CliTemp k ts \<Rightarrow> True | CliRam k ts t \<Rightarrow> True
      | CliWarn k ts t r \<Rightarrow> True | CliDt k \<Rightarrow> True | _ \<Rightarrow> False)"

definition sy_ended :: "sy_pc \<Rightarrow> bool" where
  "sy_ended pc = (case pc of NotStarted \<Rightarrow> True | Gone e \<Rightarrow> True | _ \<Rightarrow> False)"

text \<open>The daemon's handler of \<open>SIGINT\<close> ends its loop; the cli has none.\<close>

fun sy_step :: "(rat \<Rightarrow> rat) \<Rightarrow> sy_event \<Rightarrow> sysv \<Rightarrow> sysv" where
  "sy_step rnd (StartDaemon p) s = (if sy_procs s p = NotStarted then sy_goto p ShmGet s else s)"
| "sy_step rnd (StartCli p) s = (if sy_procs s p = NotStarted then sy_goto p CliGet s else s)"
| "sy_step rnd (Run p ok loadavg mem now) s =
     (if is_cli (sy_procs s p) then cli_step p ok now s else daemon_step rnd p ok loadavg mem now s)"
| "sy_step rnd (Sigint p) s =
     (if sy_ended (sy_procs s p) then s
      else if is_cli (sy_procs s p) then sy_goto p (Gone Killed) s
      else s\<lparr>sy_running := (sy_running s)(p := False)\<rparr>)"
| "sy_step rnd (Sigkill p) s = (if sy_ended (sy_procs s p) then s else sy_goto p (Gone Killed) s)"

section \<open>What a report shows\<close>

text \<open>A value with its cycle is what that cycle measured.\<close>

definition from_cycle :: "'a list \<Rightarrow> ('a \<Rightarrow> rat) \<Rightarrow> rat \<times> nat \<Rightarrow> bool" where
  "from_cycle past f vi \<longleftrightarrow> snd vi \<le> length past \<and> (if snd vi = 0 then fst vi = 0 else fst vi = f (past ! (snd vi - 1)))"

lemma from_cycle_append: "from_cycle past f vi \<Longrightarrow> from_cycle (past @ new) f vi"
  by (auto simp: from_cycle_def nth_append)

definition seg_ok :: "(rat \<times> rat) list \<Rightarrow> segment \<Rightarrow> bool" where
  "seg_ok past g \<longleftrightarrow>
     snd (sg_timestamp g) \<le> snd (sg_ram_used_pct g) \<and> snd (sg_cpu_temp g) = length past \<and>
     from_cycle past fst (sg_cpu_temp g) \<and> from_cycle past snd (sg_ram_used_pct g)"

definition report_ok :: "(rat \<times> rat) list \<Rightarrow> int \<times> nat \<Rightarrow> rat \<times> nat \<Rightarrow> rat \<times> nat \<Rightarrow> bool" where
  "report_ok past ts temp ram \<longleftrightarrow>
     snd ts \<le> snd temp \<and> snd ts \<le> snd ram \<and> from_cycle past fst temp \<and> from_cycle past snd ram"

definition pc_at :: "sy_pc \<Rightarrow> nat option" where
  "pc_at pc =
     (case pc of ShmAt k \<Rightarrow> Some k | Loop k \<Rightarrow> Some k | StoreTemp k l r \<Rightarrow> Some k | StoreRam k r \<Rightarrow> Some k | StoreTime k \<Rightarrow> Some k
      | ShmDt k \<Rightarrow> Some k | ShmRm k \<Rightarrow> Some k | CliAt k \<Rightarrow> Some k | CliTime k \<Rightarrow> Some k | CliTemp k ts \<Rightarrow> Some k
      | CliRam k ts t \<Rightarrow> Some k | CliWarn k ts t r \<Rightarrow> Some k | CliDt k \<Rightarrow> Some k | _ \<Rightarrow> None)"

definition daemon_at :: "sy_pc \<Rightarrow> nat option" where
  "daemon_at pc = (if is_cli pc then None else pc_at pc)"

definition pc_ok :: "(rat \<times> rat) list \<Rightarrow> segment \<Rightarrow> sy_pc \<Rightarrow> bool" where
  "pc_ok past g pc =
     (case pc of
        StoreRam k ram \<Rightarrow> past \<noteq> [] \<and> snd (last past) = ram
      | StoreTime k \<Rightarrow> snd (sg_ram_used_pct g) = length past
      | CliTemp k ts \<Rightarrow> snd ts \<le> snd (sg_ram_used_pct g)
      | CliRam k ts temp \<Rightarrow> snd ts \<le> snd (sg_ram_used_pct g) \<and> snd ts \<le> snd temp \<and> from_cycle past fst temp
      | CliWarn k ts temp ram \<Rightarrow> report_ok past ts temp ram
      | _ \<Rightarrow> True)"

definition sy_inv :: "sysv \<Rightarrow> bool" where
  "sy_inv s \<longleftrightarrow>
     (\<forall>k\<ge>sy_next s. sy_log s k = [] \<and> sy_segs s k = zero_segment) \<and> (\<forall>k. sy_key s = Some k \<longrightarrow> k < sy_next s) \<and>
     (\<forall>p k. pc_at (sy_procs s p) = Some k \<longrightarrow> k < sy_next s \<and> pc_ok (sy_log s k) (sy_segs s k) (sy_procs s p)) \<and>
     (\<forall>p q k. daemon_at (sy_procs s p) = Some k \<longrightarrow> daemon_at (sy_procs s q) = Some k \<longrightarrow> p = q) \<and>
     (\<forall>k. seg_ok (sy_log s k) (sy_segs s k)) \<and>
     (\<forall>(k, r) \<in> set (sy_reports s). report_ok (sy_log s k) (rp_timestamp r) (rp_cpu_temp r) (rp_ram_used_pct r))"

lemma sy_inv_init: "sy_inv sy_init"
  by (simp add: sy_inv_def sy_init_def pc_at_def daemon_at_def seg_ok_def from_cycle_def zero_segment_def)

text \<open>One process moves; its segment's fields and measurements only grow.\<close>

lemma sy_inv_move:
  assumes inv: "sy_inv s"
    and procs: "sy_procs s' = (sy_procs s)(p := pc)" and next': "sy_next s' = sy_next s"
    and key: "sy_key s' = sy_key s \<or> sy_key s' = None"
    and segs: "sy_segs s' = (sy_segs s)(k := g)" and past: "sy_log s' = (sy_log s)(k := sy_log s k @ new)" and k: "k < sy_next s"
    and ok: "seg_ok (sy_log s k @ new) g" and grow: "snd (sg_ram_used_pct (sy_segs s k)) \<le> snd (sg_ram_used_pct g)"
    and same: "daemon_at (sy_procs s p) \<noteq> Some k \<Longrightarrow> new = [] \<and> g = sy_segs s k"
    and pc: "\<And>j. pc_at pc = Some j \<Longrightarrow> j < sy_next s \<and> pc_ok (sy_log s' j) (sy_segs s' j) pc"
      "\<And>j. daemon_at pc = Some j \<Longrightarrow> daemon_at (sy_procs s p) = Some j"
    and reports: "sy_reports s' = sy_reports s \<or> (\<exists>j r. sy_reports s' = (j, r) # sy_reports s \<and>
      report_ok (sy_log s' j) (rp_timestamp r) (rp_cpu_temp r) (rp_ram_used_pct r))"
  shows "sy_inv s'"
proof -
  have longer: "\<exists>m. sy_log s' j = sy_log s j @ m" for j using past by (cases "j = k") auto
  have ram: "snd (sg_ram_used_pct (sy_segs s j)) \<le> snd (sg_ram_used_pct (sy_segs s' j))" for j
    using segs grow by (cases "j = k") auto
  have old: "pc_ok (sy_log s' j) (sy_segs s' j) (sy_procs s q)" if "pc_at (sy_procs s q) = Some j" "q \<noteq> p" for q j
  proof (cases "daemon_at (sy_procs s q) = Some j")
    case True
    have "sy_log s' j = sy_log s j \<and> sy_segs s' j = sy_segs s j"
    proof (cases "j = k")
      case True': True
      have "daemon_at (sy_procs s p) \<noteq> Some k" using inv True that(2) True' unfolding sy_inv_def by blast
      with same True' past segs show ?thesis by simp
    qed (use past segs in simp)
    then show ?thesis using inv that by (simp add: sy_inv_def)
  next
    case False
    then have cli: "is_cli (sy_procs s q)" using that(1) by (simp add: daemon_at_def split: if_splits)
    have "pc_ok (sy_log s j) (sy_segs s j) (sy_procs s q)" using inv that by (simp add: sy_inv_def)
    with cli ram [of j] longer [of j] show ?thesis
      by (auto simp: pc_ok_def is_cli_def report_ok_def from_cycle_append split: sy_pc.splits)
  qed
  have reports_ok: "report_ok (sy_log s' j) (rp_timestamp r) (rp_cpu_temp r) (rp_ram_used_pct r)"
    if "(j, r) \<in> set (sy_reports s')" for j r
  proof (cases "(j, r) \<in> set (sy_reports s)")
    case True
    then have "report_ok (sy_log s j) (rp_timestamp r) (rp_cpu_temp r) (rp_ram_used_pct r)" using inv unfolding sy_inv_def by fast
    then show ?thesis using longer [of j] by (auto simp: report_ok_def from_cycle_append)
  next
    case False
    with reports that show ?thesis by auto
  qed
  show ?thesis
    unfolding sy_inv_def next'
  proof (intro conjI allI impI ballI)
    show "sy_log s' j = []" "sy_segs s' j = zero_segment" if "sy_next s \<le> j" for j
      using inv that k by (auto simp: sy_inv_def past segs)
    show "j < sy_next s" if "sy_key s' = Some j" for j using inv key that by (auto simp: sy_inv_def)
    show "j < sy_next s" "pc_ok (sy_log s' j) (sy_segs s' j) (sy_procs s' q)" if "pc_at (sy_procs s' q) = Some j" for q j
      using that pc(1) old inv procs by (cases "q = p"; auto simp: sy_inv_def)+
    show "q = r" if "daemon_at (sy_procs s' q) = Some j" "daemon_at (sy_procs s' r) = Some j" for q r j
    proof -
      have "daemon_at (sy_procs s q) = Some j" "daemon_at (sy_procs s r) = Some j"
        using that pc(2) procs by (auto split: if_splits)
      then show ?thesis using inv unfolding sy_inv_def by blast
    qed
    show "seg_ok (sy_log s' j) (sy_segs s' j)" for j using inv ok by (simp add: sy_inv_def past segs)
    show "case x of (k, r) \<Rightarrow> report_ok (sy_log s' k) (rp_timestamp r) (rp_cpu_temp r) (rp_ram_used_pct r)"
      if "x \<in> set (sy_reports s')" for x
      using reports_ok that by (cases x) simp
  qed
qed

lemma sy_inv_quiet:
  assumes inv: "sy_inv s"
    and procs: "sy_procs s' = (sy_procs s)(p := pc)"
    and same: "sy_next s' = sy_next s" "sy_segs s' = sy_segs s" "sy_log s' = sy_log s"
    and key: "sy_key s' = sy_key s \<or> sy_key s' = None"
    and pc: "\<And>j. pc_at pc = Some j \<Longrightarrow> j < sy_next s \<and> pc_ok (sy_log s j) (sy_segs s j) pc"
      "\<And>j. daemon_at pc = Some j \<Longrightarrow> daemon_at (sy_procs s p) = Some j"
    and reports: "sy_reports s' = sy_reports s \<or> (\<exists>j r. sy_reports s' = (j, r) # sy_reports s \<and>
      report_ok (sy_log s j) (rp_timestamp r) (rp_cpu_temp r) (rp_ram_used_pct r))"
  shows "sy_inv s'"
  unfolding sy_inv_def same
proof (intro conjI allI impI)
  show "\<forall>x\<in>set (sy_reports s'). case x of (k, r) \<Rightarrow> report_ok (sy_log s k) (rp_timestamp r) (rp_cpu_temp r) (rp_ram_used_pct r)"
  proof -
    have "\<forall>x\<in>set (sy_reports s). case x of (k, r) \<Rightarrow> report_ok (sy_log s k) (rp_timestamp r) (rp_cpu_temp r) (rp_ram_used_pct r)"
      using inv unfolding sy_inv_def by fast
    with reports show ?thesis by auto
  qed
  show "j < sy_next s" if "sy_key s' = Some j" for j using inv key that by (auto simp: sy_inv_def)
  show "j < sy_next s" "pc_ok (sy_log s j) (sy_segs s j) (sy_procs s' q)" if "pc_at (sy_procs s' q) = Some j" for q j
    using that pc(1) inv procs by (cases "q = p"; auto simp: sy_inv_def)+
  show "q = r" if "daemon_at (sy_procs s' q) = Some j" "daemon_at (sy_procs s' r) = Some j" for q r j
  proof -
    have "daemon_at (sy_procs s q) = Some j" "daemon_at (sy_procs s r) = Some j"
      using that pc(2) procs by (auto split: if_splits)
    then show ?thesis using inv unfolding sy_inv_def by blast
  qed
qed (use inv in \<open>auto simp: sy_inv_def\<close>)

lemma sy_goto_simps [simp]:
  "sy_procs (sy_goto p pc s) = (sy_procs s)(p := pc)" "sy_key (sy_goto p pc s) = sy_key s" "sy_segs (sy_goto p pc s) = sy_segs s"
  "sy_next (sy_goto p pc s) = sy_next s" "sy_log (sy_goto p pc s) = sy_log s" "sy_reports (sy_goto p pc s) = sy_reports s"
  "sy_running (sy_goto p pc s) = sy_running s"
  by (simp_all add: sy_goto_def)

lemma set_seg_simps [simp]:
  "sy_procs (set_seg k f s) = sy_procs s" "sy_key (set_seg k f s) = sy_key s" "sy_segs (set_seg k f s) = (sy_segs s)(k := f (sy_segs s k))"
  "sy_next (set_seg k f s) = sy_next s" "sy_log (set_seg k f s) = sy_log s" "sy_reports (set_seg k f s) = sy_reports s"
  "sy_running (set_seg k f s) = sy_running s"
  by (simp_all add: set_seg_def)

lemma sy_inv_gone:
  assumes inv: "sy_inv s"
  shows "sy_inv (sy_goto p (Gone e) s)" and "sy_inv (sy_goto p (Gone e) (s\<lparr>sy_key := None\<rparr>))"
proof -
  have "pc_at (Gone e) = None" "daemon_at (Gone e) = None" by (simp_all add: pc_at_def daemon_at_def is_cli_def)
  then show "sy_inv (sy_goto p (Gone e) s)" "sy_inv (sy_goto p (Gone e) (s\<lparr>sy_key := None\<rparr>))"
    using sy_inv_quiet [OF inv, of "sy_goto p (Gone e) s" p "Gone e"]
      sy_inv_quiet [OF inv, of "sy_goto p (Gone e) (s\<lparr>sy_key := None\<rparr>)" p "Gone e"] by simp_all
qed

lemma sy_inv_init_daemon:
  assumes inv: "sy_inv s"
  shows "sy_inv (init_daemon p ok s)"
proof (cases "sy_procs s p")
  case ShmGet
  define s1 where "s1 = s\<lparr>sy_key := Some (sy_next s), sy_segs := (sy_segs s)(sy_next s := zero_segment), sy_next := Suc (sy_next s)\<rparr>"
  have bound: "pc_at (sy_procs s q) = Some k \<Longrightarrow> k < sy_next s" for q k using inv by (simp add: sy_inv_def)
  have fresh: "daemon_at (sy_procs s q) \<noteq> Some (sy_next s)" for q using bound [of q "sy_next s"] by (auto simp: daemon_at_def)
  have zero: "sy_segs s (sy_next s) = zero_segment" using inv by (simp add: sy_inv_def)
  then have segs: "sy_segs s1 = sy_segs s" by (simp add: s1_def fun_eq_iff)
  have "sy_inv (sy_goto p (ShmAt (sy_next s)) s1)"
    unfolding sy_inv_def sy_goto_simps segs
  proof (intro conjI allI impI)
    let ?f = "(sy_procs s1)(p := ShmAt (sy_next s))"
    show "q = r" if "daemon_at (?f q) = Some j" "daemon_at (?f r) = Some j" for q r j
    proof -
      have new: "daemon_at (ShmAt (sy_next s)) = Some (sy_next s)" by (simp add: daemon_at_def pc_at_def is_cli_def)
      have uniq: "daemon_at (sy_procs s q) = Some j \<Longrightarrow> daemon_at (sy_procs s r) = Some j \<Longrightarrow> q = r"
        using inv unfolding sy_inv_def by blast
      show ?thesis
        using that fresh [of q] fresh [of r] uniq by (cases "q = p"; cases "r = p") (auto simp: new s1_def)
    qed
    show "j < sy_next s1" "pc_ok (sy_log s1 j) (sy_segs s j) (?f q)" if "pc_at (?f q) = Some j" for q j
    proof -
      have "j < sy_next s1 \<and> pc_ok (sy_log s1 j) (sy_segs s j) (?f q)"
      proof (cases "q = p")
        case True
        then show ?thesis using that by (simp add: s1_def pc_at_def pc_ok_def)
      next
        case False
        then have "pc_at (sy_procs s q) = Some j" using that by (simp add: s1_def)
        then have "j < sy_next s \<and> pc_ok (sy_log s j) (sy_segs s j) (sy_procs s q)" using inv unfolding sy_inv_def by blast
        then show ?thesis using False by (simp add: s1_def)
      qed
      then show "j < sy_next s1" "pc_ok (sy_log s1 j) (sy_segs s j) (?f q)" by simp_all
    qed
  qed (use inv in \<open>auto simp: sy_inv_def s1_def\<close>)
  with sy_inv_gone [OF inv] ShmGet show ?thesis by (simp add: init_daemon_def s1_def)
next
  case (ShmAt k)
  then have "pc_at (sy_procs s p) = Some k" by (simp add: pc_at_def)
  then have "k < sy_next s" using inv by (simp add: sy_inv_def)
  then have "sy_inv (sy_goto p (Loop k) s)"
    by (intro sy_inv_quiet [OF inv, where p = p and pc = "Loop k"]) (use ShmAt in \<open>auto simp: pc_at_def pc_ok_def daemon_at_def is_cli_def\<close>)
  with sy_inv_gone [OF inv] ShmAt show ?thesis by (simp add: init_daemon_def)
qed (use inv in \<open>simp_all add: init_daemon_def\<close>)

lemma sy_inv_daemon:
  assumes inv: "sy_inv s" and dm: "\<not> is_cli (sy_procs s p)"
  shows "sy_inv (daemon_step rnd p ok loadavg mem now s)"
proof -
  have at: "k < sy_next s \<and> pc_ok (sy_log s k) (sy_segs s k) (sy_procs s p) \<and> daemon_at (sy_procs s p) = Some k"
    if "pc_at (sy_procs s p) = Some k" for k using inv dm that by (simp add: sy_inv_def daemon_at_def)
  have seg: "seg_ok (sy_log s k) (sy_segs s k)" for k using inv by (simp add: sy_inv_def)
  note quiet = sy_inv_quiet [OF inv, where p = p]
  show ?thesis
  proof (cases "sy_procs s p")
    case (Loop k)
    then have k: "k < sy_next s" "daemon_at (sy_procs s p) = Some k" using at [of k] by (simp_all add: pc_at_def)
    have "sy_inv (sy_goto p (ShmDt k) s)"
      by (rule quiet [where pc = "ShmDt k"]) (use k in \<open>auto simp: pc_at_def pc_ok_def daemon_at_def is_cli_def\<close>)
    moreover have "sy_inv (sy_goto p (StoreTemp k l r) s)" for l r
      by (rule quiet [where pc = "StoreTemp k l r"]) (use k in \<open>auto simp: pc_at_def pc_ok_def daemon_at_def is_cli_def\<close>)
    ultimately show ?thesis using inv by (simp add: daemon_step_def Loop split: option.split)
  next
    case (StoreTemp k l r)
    then have k: "k < sy_next s" "daemon_at (sy_procs s p) = Some k" using at [of k] by (simp_all add: pc_at_def)
    show ?thesis unfolding daemon_step_def StoreTemp sy_pc.case
      by (rule sy_inv_move [OF inv, where p = p and k = k and pc = "StoreRam k r" and new = "[(cpu_temp_of rnd l, r)]"
            and g = "(sy_segs s k)\<lparr>sg_cpu_temp := (cpu_temp_of rnd l, Suc (length (sy_log s k)))\<rparr>"])
        (use k seg [of k] in \<open>auto simp: seg_ok_def from_cycle_def nth_append pc_at_def pc_ok_def daemon_at_def is_cli_def\<close>)
  next
    case (StoreRam k r)
    then have k: "k < sy_next s" "daemon_at (sy_procs s p) = Some k" "sy_log s k \<noteq> []" "snd (last (sy_log s k)) = r"
      using at [of k] by (simp_all add: pc_at_def pc_ok_def)
    have le: "snd (sg_ram_used_pct (sy_segs s k)) \<le> length (sy_log s k)" "snd (sg_timestamp (sy_segs s k)) \<le> length (sy_log s k)"
      using seg [of k] by (simp_all add: seg_ok_def from_cycle_def)
    show ?thesis unfolding daemon_step_def StoreRam sy_pc.case
      by (rule sy_inv_move [OF inv, where p = p and k = k and pc = "StoreTime k" and new = "[]"
            and g = "(sy_segs s k)\<lparr>sg_ram_used_pct := (r, length (sy_log s k))\<rparr>"])
        (use k seg [of k] le in \<open>auto simp: seg_ok_def from_cycle_def last_conv_nth pc_at_def pc_ok_def daemon_at_def is_cli_def\<close>)
  next
    case (StoreTime k)
    then have k: "k < sy_next s" "daemon_at (sy_procs s p) = Some k" "snd (sg_ram_used_pct (sy_segs s k)) = length (sy_log s k)"
      using at [of k] by (simp_all add: pc_at_def pc_ok_def)
    show ?thesis unfolding daemon_step_def StoreTime sy_pc.case
      by (rule sy_inv_move [OF inv, where p = p and k = k and pc = "Loop k" and new = "[]"
            and g = "(sy_segs s k)\<lparr>sg_timestamp := (now, length (sy_log s k))\<rparr>"])
        (use k seg [of k] in \<open>auto simp: seg_ok_def pc_at_def pc_ok_def daemon_at_def is_cli_def\<close>)
  next
    case (ShmDt k)
    then have k: "k < sy_next s" "daemon_at (sy_procs s p) = Some k" using at [of k] by (simp_all add: pc_at_def)
    have "sy_inv (sy_goto p (ShmRm k) s)"
      by (rule quiet [where pc = "ShmRm k"]) (use k in \<open>auto simp: pc_at_def pc_ok_def daemon_at_def is_cli_def\<close>)
    then show ?thesis by (simp add: daemon_step_def ShmDt)
  next
    case (ShmRm k)
    then show ?thesis using sy_inv_gone [OF inv] by (simp add: daemon_step_def)
  qed (use sy_inv_init_daemon [OF inv] in \<open>simp_all add: daemon_step_def\<close>)
qed

lemma sy_inv_cli:
  assumes inv: "sy_inv s"
  shows "sy_inv (cli_step p ok now s)"
proof -
  have at: "k < sy_next s \<and> pc_ok (sy_log s k) (sy_segs s k) (sy_procs s p)" if "pc_at (sy_procs s p) = Some k" for k
    using inv that by (simp add: sy_inv_def)
  have seg: "seg_ok (sy_log s k) (sy_segs s k)" for k using inv by (simp add: sy_inv_def)
  note quiet = sy_inv_quiet [OF inv, where p = p]
  show ?thesis
  proof (cases "sy_procs s p")
    case CliGet
    have "sy_inv (sy_goto p (CliAt k) s)" if "sy_key s = Some k" for k
      by (rule quiet [where pc = "CliAt k"]) (use that inv in \<open>auto simp: sy_inv_def pc_at_def pc_ok_def daemon_at_def is_cli_def\<close>)
    then show ?thesis using sy_inv_gone [OF inv] by (simp add: cli_step_def CliGet split: option.split)
  next
    case (CliAt k)
    then have "k < sy_next s" using at [of k] by (simp add: pc_at_def)
    then have "sy_inv (sy_goto p (CliTime k) s)"
      by (intro quiet [where pc = "CliTime k"]) (auto simp: pc_at_def pc_ok_def daemon_at_def is_cli_def)
    then show ?thesis using sy_inv_gone [OF inv] by (simp add: cli_step_def CliAt)
  next
    case (CliTime k)
    then have "k < sy_next s" using at [of k] by (simp add: pc_at_def)
    then show ?thesis unfolding cli_step_def CliTime sy_pc.case
      by (intro quiet [where pc = "CliTemp k (sg_timestamp (sy_segs s k))"])
        (use seg [of k] in \<open>auto simp: seg_ok_def pc_at_def pc_ok_def daemon_at_def is_cli_def\<close>)
  next
    case (CliTemp k ts)
    then have k: "k < sy_next s" "snd ts \<le> snd (sg_ram_used_pct (sy_segs s k))" using at [of k] by (simp_all add: pc_at_def pc_ok_def)
    show ?thesis unfolding cli_step_def CliTemp sy_pc.case
      by (rule quiet [where pc = "CliRam k ts (sg_cpu_temp (sy_segs s k))"])
        (use k seg [of k] in \<open>auto simp: seg_ok_def from_cycle_def pc_at_def pc_ok_def daemon_at_def is_cli_def\<close>)
  next
    case (CliRam k ts temp)
    then have k: "k < sy_next s" "pc_ok (sy_log s k) (sy_segs s k) (CliRam k ts temp)" using at [of k] by (simp_all add: pc_at_def)
    show ?thesis unfolding cli_step_def CliRam sy_pc.case
      by (rule quiet [where pc = "CliWarn k ts temp (sg_ram_used_pct (sy_segs s k))"])
        (use k seg [of k] in \<open>auto simp: seg_ok_def report_ok_def pc_at_def pc_ok_def daemon_at_def is_cli_def\<close>)
  next
    case (CliWarn k ts temp ram)
    then have k: "k < sy_next s" "report_ok (sy_log s k) ts temp ram" using at [of k] by (simp_all add: pc_at_def pc_ok_def)
    show ?thesis unfolding cli_step_def CliWarn sy_pc.case
      by (rule quiet [where pc = "CliDt k"]) (use k in \<open>auto simp: pc_at_def pc_ok_def daemon_at_def is_cli_def\<close>)
  next
    case (CliDt k)
    then show ?thesis using sy_inv_gone [OF inv] by (simp add: cli_step_def)
  qed (use inv in \<open>simp_all add: cli_step_def\<close>)
qed

lemma sy_inv_step: "sy_inv s \<Longrightarrow> sy_inv (sy_step rnd e s)"
proof (cases e)
  case (StartDaemon p)
  assume inv: "sy_inv s"
  have "sy_inv (sy_goto p ShmGet s)"
    by (rule sy_inv_quiet [OF inv, where p = p and pc = ShmGet]) (simp_all add: pc_at_def daemon_at_def is_cli_def)
  with inv show ?thesis by (simp add: StartDaemon)
next
  case (StartCli p)
  assume inv: "sy_inv s"
  have "sy_inv (sy_goto p CliGet s)"
    by (rule sy_inv_quiet [OF inv, where p = p and pc = CliGet]) (simp_all add: pc_at_def daemon_at_def is_cli_def)
  with inv show ?thesis by (simp add: StartCli)
next
  case (Run p ok loadavg mem now)
  assume "sy_inv s"
  then show ?thesis by (simp add: Run sy_inv_daemon sy_inv_cli)
next
  case (Sigint p)
  assume inv: "sy_inv s"
  then have "sy_inv (s\<lparr>sy_running := (sy_running s)(p := False)\<rparr>)" by (simp add: sy_inv_def)
  with sy_inv_gone [OF inv] inv show ?thesis by (simp add: Sigint)
next
  case (Sigkill p)
  assume inv: "sy_inv s"
  with sy_inv_gone [OF inv] show ?thesis by (simp add: Sigkill)
qed

interpretation sy: interleaving "sy_step rnd" sy_inv for rnd
  by unfold_locales (rule sy_inv_step)

text \<open>
  (C38) However the daemon's stores and the reads of the cli interleave, whatever is killed or fails: each of the two measured values of a report is the
  one of some cycle of that segment, or the initial zero (cycle 0) if no cycle had stored it yet, as when the cli runs before the daemon's first cycle; and neither the temperature nor the memory is from an earlier
  cycle than the time stamp. So a report may mix cycles, but is never older than it says, and a report with a time stamp of a cycle has only measured values.
\<close>

theorem report_never_older_than_stamp:
  assumes "s = run_sched (sy_step rnd) es sy_init" and "(k, r) \<in> set (sy_reports s)"
  shows "snd (rp_timestamp r) \<le> snd (rp_cpu_temp r) \<and> snd (rp_timestamp r) \<le> snd (rp_ram_used_pct r) \<and>
    from_cycle (sy_log s k) fst (rp_cpu_temp r) \<and> from_cycle (sy_log s k) snd (rp_ram_used_pct r)"
proof -
  have "sy_inv s" using sy.sched_keeps [OF sy_inv_init] assms(1) by simp
  then have "report_ok (sy_log s k) (rp_timestamp r) (rp_cpu_temp r) (rp_ram_used_pct r)"
    using assms(2) unfolding sy_inv_def by fast
  then show ?thesis by (simp add: report_ok_def)
qed

text \<open>A run in which the report's temperature is from the second cycle and the rest from the first.\<close>

definition mem_lines :: "string list" where
  "mem_lines = [''MemTotal:  1000 kB'', ''MemFree: 250 kB'']"

definition torn_run :: "sy_event list" where
  "torn_run =
     (let r = (\<lambda>p now. Run p True (Some ''1.00 0.75 0.50 2/300 4711'') (Some mem_lines) now) in
      StartDaemon 0 # StartCli 1 # map (r 0) [0, 0, 0, 0, 0, 7] @ map (r 1) [0, 0, 0] @ map (r 0) [0, 0] @ map (r 1) [0, 0, 8])"

lemma torn_report:
  "sy_reports (run_sched (sy_step id) torn_run sy_init) =
     [(0, \<lparr>rp_timestamp = (7, 1), rp_cpu_temp = (50, 2), rp_ram_used_pct = (75, 1), rp_warned = False\<rparr>)]"
  by code_simp

lemma report_never_older_than_stamp_witness:
  "let s = run_sched (sy_step id) torn_run sy_init
   in \<exists>r. sy_reports s = [(0, r)] \<and> rp_timestamp r = (7, 1) \<and> rp_cpu_temp r = (50, 2) \<and> rp_ram_used_pct r = (75, 1) \<and>
     from_cycle (sy_log s 0) fst (50, 2) \<and> from_cycle (sy_log s 0) snd (75, 1)"
proof -
  let ?s = "run_sched (sy_step id) torn_run sy_init"
  let ?r = "\<lparr>rp_timestamp = (7, 1), rp_cpu_temp = (50, 2), rp_ram_used_pct = (75, 1), rp_warned = False\<rparr>"
  have "(0, ?r) \<in> set (sy_reports ?s)" unfolding torn_report by simp
  from report_never_older_than_stamp [OF refl this] show ?thesis unfolding Let_def torn_report by (intro exI [of _ ?r]) simp
qed

section \<open>The life of the segment\<close>

text \<open>The key's segment has no daemon any more.\<close>

definition orphaned :: "nat \<Rightarrow> sysv \<Rightarrow> bool" where
  "orphaned k s \<longleftrightarrow> sy_key s = Some k \<and> (\<forall>p. daemon_at (sy_procs s p) \<noteq> Some k)"

lemma daemon_at_none: "daemon_at ShmGet = None" "daemon_at CliGet = None" "daemon_at (Gone e) = None"
  by (simp_all add: daemon_at_def pc_at_def is_cli_def)

lemma orphaned_step: "sy_inv s \<Longrightarrow> orphaned k s \<Longrightarrow> orphaned k (sy_step rnd e s)"
proof (cases e)
  case (Run p ok loadavg mem now)
  assume "sy_inv s" and o: "orphaned k s"
  have "daemon_at (sy_procs s p) \<noteq> Some k" "sy_key s = Some k" using o by (auto simp: orphaned_def)
  then have "sy_key (sy_step rnd e s) = Some k \<and> daemon_at (sy_procs (sy_step rnd e s) p) \<noteq> Some k \<and>
      (\<forall>q. q \<noteq> p \<longrightarrow> sy_procs (sy_step rnd e s) q = sy_procs s q)"
    unfolding Run
    by (cases "sy_procs s p")
      (auto simp: is_cli_def cli_step_def daemon_step_def init_daemon_def daemon_at_def pc_at_def split: option.splits)
  then show ?thesis using o by (auto simp: orphaned_def)
qed (auto simp: orphaned_def daemon_at_none)

text \<open>
  A daemon that dies without cleaning up (SIGKILL, SIGTERM or a crash) leaves the key taken, and in every continuation a
  daemon that is started again fails at \<open>shmget\<close>.
\<close>

theorem dead_daemon_blocks_restart:
  fixes fs :: "sy_event list"
  assumes "s = run_sched (sy_step rnd) es sy_init" and "sy_key s = Some k" and "\<forall>p. daemon_at (sy_procs s p) \<noteq> Some k"
  defines "s' \<equiv> run_sched (sy_step rnd) fs s"
  shows "sy_key s' = Some k" and "sy_procs s' p = ShmGet \<Longrightarrow> sy_procs (sy_step rnd (Run p ok l m now) s') p = Gone Failure"
proof -
  have inv: "sy_inv s" using sy.sched_keeps [OF sy_inv_init] assms(1) by simp
  have "orphaned k s" using assms(2,3) by (simp add: orphaned_def)
  with inv have "sy_inv s' \<and> orphaned k s'"
    unfolding s'_def
  proof (induction fs rule: rev_induct)
    case (snoc f fs)
    then show ?case using sy_inv_step orphaned_step by simp
  qed simp
  then show key: "sy_key s' = Some k" by (simp add: orphaned_def)
  show "sy_procs (sy_step rnd (Run p ok l m now) s') p = Gone Failure" if "sy_procs s' p = ShmGet"
    using that key by (simp add: is_cli_def daemon_step_def init_daemon_def)
qed

lemma dead_daemon_blocks_restart_witness:
  "\<exists>s. sy_procs s 0 = Gone Killed \<and> (\<forall>fs. sy_key (run_sched (sy_step id) fs s) = Some 0)"
proof -
  let ?es = "[StartDaemon 0, Run 0 True None None 0, Run 0 True None None 0, Sigkill 0]"
  have s: "sy_key (run_sched (sy_step id) ?es sy_init) = Some 0" "sy_procs (run_sched (sy_step id) ?es sy_init) 0 = Gone Killed"
    "\<forall>p. daemon_at (sy_procs (run_sched (sy_step id) ?es sy_init) p) \<noteq> Some 0"
    by (simp_all add: sy_init_def is_cli_def daemon_step_def init_daemon_def sy_ended_def daemon_at_def pc_at_def)
  show ?thesis using dead_daemon_blocks_restart(1) [OF refl s(1,3)] s(2) by blast
qed

text \<open>After SIGINT the daemon removes its segment and exits with success.\<close>

lemma daemon_clean_exit:
  fixes rnd :: "rat \<Rightarrow> rat" and l :: "string option" and m :: "string list option" and t :: int
  assumes "sy_procs s p = Loop k" and "sy_key s = Some k"
  defines "s' \<equiv> run_sched (sy_step rnd) [Sigint p, Run p True l m t, Run p True l m t, Run p True l m t] s"
  shows "sy_procs s' p = Gone Success \<and> sy_key s' = None"
  using assms(1,2) by (simp add: s'_def sy_ended_def is_cli_def daemon_step_def)

section \<open>The measurements\<close>

text \<open>The load as the kernel writes it: whole part, point, hundredths, a blank.\<close>

lemma digits_only:
  assumes "list_all is_digit ds" and "\<not> is_digit c"
  shows "takeWhile is_digit (ds @ c # rest) = ds" and "dropWhile is_digit (ds @ c # rest) = c # rest"
  using assms by (induction ds) auto

lemma digit_starts: "is_digit c \<Longrightarrow> \<not> is_space c \<and> c \<noteq> CHR ''-'' \<and> c \<noteq> CHR ''+''"
  by (auto simp: is_digit_def is_space_def)

lemma read_loadavg_decimal:
  assumes "list_all is_digit whole" and "whole \<noteq> []" and "list_all is_digit part"
  shows "read_loadavg rnd (Some (whole @ CHR ''.'' # part @ CHR '' '' # rest)) =
    Some (rnd (of_int (digits_value (whole @ part)) / 10 ^ length part))"
proof -
  have no: "\<not> is_digit CHR ''.''" "\<not> is_digit CHR '' ''" by code_simp+
  obtain c cs where w: "whole = c # cs" using assms(2) by (cases whole) auto
  then have "is_digit c" using assms(1) by simp
  then have "dropWhile is_space (whole @ CHR ''.'' # part @ CHR '' '' # rest) = whole @ CHR ''.'' # part @ CHR '' '' # rest"
    and "scan_sign (whole @ CHR ''.'' # part @ CHR '' '' # rest) = (1, whole @ CHR ''.'' # part @ CHR '' '' # rest)"
    using digit_starts [of c] by (simp_all add: w scan_sign_def)
  then show ?thesis using assms digits_only [OF assms(1) no(1)] digits_only [OF assms(3) no(2)]
    by (simp add: read_loadavg_def scan_lf_def scan_exponent_def)
qed

text \<open>
  With any monotone rounding that is exact on 0, 1 and 100, the percentage written for a file with
  0 \<le> MemFree \<le> MemTotal is between 0 and 100.
\<close>

theorem ram_percentage_bounds:
  assumes "meminfo lines = (mem_total, mem_free)" and "0 \<le> mem_free" and "mem_free \<le> mem_total" and "0 < mem_total"
    and "mono rnd" and "rnd 0 = 0" and "rnd 1 = 1" and "rnd 100 = 100"
  shows "\<exists>r. read_meminfo rnd (Some lines) = Some r \<and> 0 \<le> r \<and> r \<le> 100"
proof -
  note le = monoD [OF assms(5)]
  define a b q where "a = rnd (of_int (mem_total - mem_free))" and "b = rnd (of_int mem_total)" and "q = rnd (a / b)"
  have b: "1 \<le> b" using le [of 1 "of_int mem_total"] assms(4,7) by (simp add: b_def)
  have a: "0 \<le> a" "a \<le> b"
    using le [of 0 "of_int (mem_total - mem_free)"] le [of "of_int (mem_total - mem_free)" "of_int mem_total"] assms(2,3,6) by (simp_all add: a_def b_def)
  have "0 \<le> a / b" "a / b \<le> 1" using a b by (simp_all add: divide_le_eq_1)
  then have q: "0 \<le> q" "q \<le> 1" using le [of 0 "a / b"] le [of "a / b" 1] assms(6,7) by (simp_all add: q_def)
  have "0 \<le> rnd (q * 100)" "rnd (q * 100) \<le> 100"
    using le [of 0 "q * 100"] le [of "q * 100" 100] q assms(6,8) by simp_all
  then show ?thesis using assms(1,4) by (simp add: read_meminfo_def a_def b_def q_def)
qed

lemma meminfo_lines: "meminfo mem_lines = (1000, 250)"
  by code_simp

lemma ram_percentage_bounds_witness: "\<exists>r. read_meminfo id (Some mem_lines) = Some r \<and> 0 \<le> r \<and> r \<le> 100"
  by (rule ram_percentage_bounds [OF meminfo_lines]) (simp_all add: mono_def)

end
