(* ===== verification/EventTimers.thy ===== *)
theory EventTimers
  imports Prelude
begin

text \<open>
  Timers of coroutines: \<open>EventLoop\<close> (modern_cpp_core/coroutines/event_loop.hpp, event_loop.cpp) and \<open>AsyncTimer\<close>
  (coroutines/async_timer.hpp).

  The kernel's side is what the code uses of it: the interest list of the epoll instance, in which an entry is enabled or,
  after its one shot, disabled, and the list of timers that have expired and not been read.  File descriptors and coroutine
  handles are numbers.  A step is one system call or one critical section of one thread; what a resumed
  coroutine does is steps of its own (its calls are events of the thread that resumes it or of others).  \<open>el_taken\<close> is a ghost: the
  handles that lookups have taken from the map; \<open>el_registered\<close> those that were put into it.
\<close>

section \<open>AsyncTimer\<close>

text \<open>The constructor, for a timeout in milliseconds: the division of C++ truncates towards zero.\<close>

definition c_div :: "int \<Rightarrow> int \<Rightarrow> int" where
  "c_div a b = sgn a * (\<bar>a\<bar> div b)"

definition c_mod :: "int \<Rightarrow> int \<Rightarrow> int" where
  "c_mod a b = a - b * c_div a b"

record timespec =
  tv_sec :: int
  tv_nsec :: int

definition timer_value :: "int \<Rightarrow> timespec" where
  "timer_value timeout = \<lparr>tv_sec = c_div timeout 1000, tv_nsec = c_mod timeout 1000 * 1000000\<rparr>"

datatype timer = TimerError | Disarmed | ExpiresIn int \<comment> \<open>nanoseconds\<close>

text \<open>\<open>timerfd_settime\<close>: an invalid time is refused, zero disarms the timer.\<close>

definition timerfd_settime :: "timespec \<Rightarrow> timer" where
  "timerfd_settime v =
     (if tv_sec v < 0 \<or> tv_nsec v < 0 \<or> 999999999 < tv_nsec v then TimerError
      else if tv_sec v = 0 \<and> tv_nsec v = 0 then Disarmed
      else ExpiresIn (tv_sec v * 1000000000 + tv_nsec v))"

definition async_timer :: "bool \<Rightarrow> int \<Rightarrow> timer" where
  "async_timer created timeout = (if created then timerfd_settime (timer_value timeout) else TimerError)"

text \<open>
  A timer for a positive number of milliseconds expires after exactly that time; a negative one is refused; a timer for zero
  milliseconds is disarmed, so that it never expires and its coroutine is not resumed.
\<close>

theorem async_timer_expiry:
  "async_timer True timeout =
     (if timeout < 0 then TimerError else if timeout = 0 then Disarmed else ExpiresIn (timeout * 1000000))"
proof -
  consider "timeout < 0" | "timeout = 0" | "0 < timeout" by linarith
  then show ?thesis
  proof cases
    case 1
    have "c_div timeout 1000 = - ((- timeout) div 1000)" using 1 by (simp add: c_div_def)
    moreover have "0 \<le> (- timeout) div 1000" using 1 by (simp add: pos_imp_zdiv_nonneg_iff)
    moreover have "- timeout = 1000 * ((- timeout) div 1000) + (- timeout) mod 1000" by simp
    ultimately have "c_div timeout 1000 < 0 \<or> c_mod timeout 1000 < 0"
      using 1 unfolding c_mod_def by linarith
    then show ?thesis using 1 by (auto simp: async_timer_def timerfd_settime_def timer_value_def)
  next
    case 2
    then show ?thesis by (simp add: async_timer_def timerfd_settime_def timer_value_def c_div_def c_mod_def)
  next
    case 3
    have d: "c_div timeout 1000 = timeout div 1000" and m: "c_mod timeout 1000 = timeout mod 1000"
      using 3 by (simp_all add: c_div_def c_mod_def minus_mult_div_eq_mod)
    define q r where "q = timeout div 1000" and "r = timeout mod 1000"
    have r: "0 \<le> r" "r < 1000" "0 \<le> q" using 3 by (simp_all add: q_def r_def pos_imp_zdiv_nonneg_iff)
    have t: "timeout = 1000 * q + r" by (simp add: q_def r_def)
    have "timer_value timeout = \<lparr>tv_sec = q, tv_nsec = r * 1000000\<rparr>" by (simp add: timer_value_def d m q_def r_def)
    moreover have "r * 1000000 \<le> 999999999" using r by linarith
    moreover have "timeout * 1000000 = q * 1000000000 + r * 1000000" "\<not> (q = 0 \<and> r = 0)" using t 3 by linarith+
    ultimately show ?thesis using 3 r by (auto simp: async_timer_def timerfd_settime_def)
  qed
qed

section \<open>EventLoop\<close>

datatype el_call = Register nat nat | Unregister nat | RunLoop | Poll | Stop

text \<open>The flag says whether the thread is in \<open>run\<close>.\<close>

datatype el_pc =
    EIdle
  | RegInsert nat nat            \<comment> \<open>added to epoll, not yet in the map\<close>
  | UnregErase nat
  | RunCheck
  | PollWait bool
  | Batch "nat list" bool
  | ReadFd nat nat "nat list" bool
  | DelFd nat nat "nat list" bool
  | Resume nat "nat list" bool

datatype el_event =
    Call nat el_call
  | Step nat bool   \<comment> \<open>a step of a thread; whether \<open>epoll_wait\<close> is not interrupted\<close>
  | WaitFails nat   \<comment> \<open>\<open>epoll_wait\<close> fails, and \<open>poll\<close> throws\<close>
  | Expire nat
  | CloseFd nat     \<comment> \<open>the destructor of the \<open>AsyncTimer\<close>\<close>

record event_loop =
  el_epoll :: "nat \<Rightarrow> bool option"
  el_expired :: "nat list"
  el_timers :: "(nat \<times> nat) list"
  el_running :: bool
  el_pcs :: "nat \<Rightarrow> el_pc"
  el_threw :: "nat list"
  el_resumed :: "nat list"
  el_taken :: "nat list"
  el_registered :: "nat list"

definition el_new :: event_loop where
  "el_new = \<lparr>el_epoll = (\<lambda>_. None), el_expired = [], el_timers = [], el_running = False, el_pcs = (\<lambda>_. EIdle), el_threw = [],
     el_resumed = [], el_taken = [], el_registered = []\<rparr>"

definition el_go :: "nat \<Rightarrow> el_pc \<Rightarrow> event_loop \<Rightarrow> event_loop" where
  "el_go t pc s = s\<lparr>el_pcs := (el_pcs s)(t := pc)\<rparr>"

definition kMaxEvents :: nat where
  "kMaxEvents = 16"

text \<open>\<open>epoll_wait\<close>: at most 16 enabled entries whose timer has expired; \<open>EPOLLONESHOT\<close> disables them.\<close>

definition ready :: "event_loop \<Rightarrow> nat list" where
  "ready s = filter (\<lambda>fd. el_epoll s fd = Some True) (el_expired s)"

lemma ready_go [simp]: "ready (el_go t pc s) = ready s"
  by (simp add: ready_def el_go_def)

definition epoll_wait :: "nat \<Rightarrow> bool \<Rightarrow> bool \<Rightarrow> event_loop \<Rightarrow> event_loop" where
  "epoll_wait t in_run ok s =
     (let fds = (if ok then take kMaxEvents (ready s) else [])
      in el_go t (Batch fds in_run) (s\<lparr>el_epoll := (\<lambda>fd. if fd \<in> set fds then Some False else el_epoll s fd)\<rparr>))"

definition erase :: "nat \<Rightarrow> (nat \<times> nat) list \<Rightarrow> (nat \<times> nat) list" where
  "erase fd m = filter (\<lambda>(k, c). k \<noteq> fd) m"

text \<open>The body of the loop over the events, up to the resumption.\<close>

definition take_event :: "nat \<Rightarrow> nat list \<Rightarrow> bool \<Rightarrow> event_loop \<Rightarrow> event_loop" where
  "take_event t fds in_run s =
     (case fds of
        [] \<Rightarrow> el_go t (if in_run then RunCheck else EIdle) s
      | fd # rest \<Rightarrow>
          (case map_of (el_timers s) fd of
             None \<Rightarrow> el_go t (Batch rest in_run) s
           | Some coro \<Rightarrow>
               el_go t (ReadFd fd coro rest in_run) (s\<lparr>el_timers := erase fd (el_timers s), el_taken := coro # el_taken s\<rparr>)))"

definition el_begin :: "nat \<Rightarrow> el_call \<Rightarrow> event_loop \<Rightarrow> event_loop" where
  "el_begin t c s =
     (case c of
        Register fd coro \<Rightarrow>
          if el_epoll s fd = None then el_go t (RegInsert fd coro) (s\<lparr>el_epoll := (el_epoll s)(fd := Some True)\<rparr>)
          else s\<lparr>el_threw := t # el_threw s\<rparr>
      | Unregister fd \<Rightarrow> el_go t (UnregErase fd) (s\<lparr>el_epoll := (el_epoll s)(fd := None)\<rparr>)
      | RunLoop \<Rightarrow> el_go t RunCheck (s\<lparr>el_running := True\<rparr>)
      | Poll \<Rightarrow> el_go t (PollWait False) s
      | Stop \<Rightarrow> s\<lparr>el_running := False\<rparr>)"

fun el_step :: "el_event \<Rightarrow> event_loop \<Rightarrow> event_loop" where
  "el_step (Call t c) s = (if el_pcs s t = EIdle then el_begin t c s else s)"
| "el_step (Step t ok) s =
     (case el_pcs s t of
        EIdle \<Rightarrow> s
      | RegInsert fd coro \<Rightarrow>
          el_go t EIdle (s\<lparr>el_timers := (fd, coro) # erase fd (el_timers s), el_registered := coro # el_registered s\<rparr>)
      | UnregErase fd \<Rightarrow> el_go t EIdle (s\<lparr>el_timers := erase fd (el_timers s)\<rparr>)
      | RunCheck \<Rightarrow> el_go t (if el_running s then PollWait True else EIdle) s
      | PollWait in_run \<Rightarrow> epoll_wait t in_run ok s
      | Batch fds in_run \<Rightarrow> take_event t fds in_run s
      | ReadFd fd coro rest in_run \<Rightarrow>
          el_go t (DelFd fd coro rest in_run) (s\<lparr>el_expired := filter (\<lambda>x. x \<noteq> fd) (el_expired s)\<rparr>)
      | DelFd fd coro rest in_run \<Rightarrow>
          el_go t (Resume coro rest in_run) (s\<lparr>el_epoll := (el_epoll s)(fd := None)\<rparr>)
      | Resume coro rest in_run \<Rightarrow> el_go t (Batch rest in_run) (s\<lparr>el_resumed := coro # el_resumed s\<rparr>))"
| "el_step (WaitFails t) s =
     (case el_pcs s t of PollWait in_run \<Rightarrow> el_go t EIdle (s\<lparr>el_threw := t # el_threw s\<rparr>) | _ \<Rightarrow> s)"
| "el_step (Expire fd) s = (if fd \<in> set (el_expired s) then s else s\<lparr>el_expired := el_expired s @ [fd]\<rparr>)"
| "el_step (CloseFd fd) s =
     s\<lparr>el_epoll := (el_epoll s)(fd := None), el_expired := filter (\<lambda>x. x \<noteq> fd) (el_expired s)\<rparr>"

lemma el_go_simps [simp]:
  "el_pcs (el_go t pc s) = (el_pcs s)(t := pc)" "el_epoll (el_go t pc s) = el_epoll s" "el_expired (el_go t pc s) = el_expired s"
  "el_timers (el_go t pc s) = el_timers s" "el_running (el_go t pc s) = el_running s" "el_resumed (el_go t pc s) = el_resumed s"
  "el_taken (el_go t pc s) = el_taken s" "el_registered (el_go t pc s) = el_registered s" "el_threw (el_go t pc s) = el_threw s"
  by (simp_all add: el_go_def)

section \<open>No coroutine is resumed twice\<close>

lemma erase_simps [simp]: "erase fd [] = []" "fd \<notin> fst ` set (erase fd m)"
  by (force simp: erase_def)+

lemma erase_taken:
  "distinct (map fst m) \<Longrightarrow> map_of m fd = Some c \<Longrightarrow> add_mset c (mset (map snd (erase fd m))) = mset (map snd m)"
proof (induction m)
  case (Cons kc m)
  obtain k d where kc: "kc = (k, d)" by (cases kc)
  show ?case
  proof (cases "k = fd")
    case True
    have "fd \<notin> fst ` set m" using Cons.prems(1) True kc by auto
    then have "erase fd m = m" unfolding erase_def filter_id_conv by force
    with Cons.prems(2) True kc show ?thesis by (simp add: erase_def)
  next
    case False
    with Cons kc show ?thesis by (simp add: erase_def)
  qed
qed simp

lemma erase_less: "mset (map snd (erase fd m)) \<subseteq># mset (map snd m)"
  by (induction m) (auto simp: erase_def intro: subset_mset.le_imp_diff_is_add subset_mset.order_trans [OF _ multi_psub_of_add_self [THEN subset_mset.less_imp_le]])

lemma erase_distinct: "distinct (map fst m) \<Longrightarrow> distinct (map fst (erase fd m))"
  unfolding erase_def by (rule distinct_map_filter)

definition el_inv :: "event_loop \<Rightarrow> bool" where
  "el_inv s \<longleftrightarrow> distinct (map fst (el_timers s)) \<and> distinct (el_expired s) \<and>
     mset (el_taken s) + mset (map snd (el_timers s)) \<subseteq># mset (el_registered s)"

lemma el_inv_new: "el_inv el_new"
  by (simp add: el_inv_def el_new_def)

lemma el_inv_step: "el_inv s \<Longrightarrow> el_inv (el_step e s)"
proof (cases e)
  case (Call t c)
  assume "el_inv s"
  then show ?thesis by (simp add: Call el_begin_def el_inv_def split: el_call.split)
next
  case (Step t ok)
  assume inv: "el_inv s"
  show ?thesis
  proof (cases "el_pcs s t")
    case (RegInsert fd coro)
    have "mset (map snd (erase fd (el_timers s))) \<subseteq># mset (map snd (el_timers s))" by (rule erase_less)
    then have "mset (el_taken s) + mset (map snd (erase fd (el_timers s))) \<subseteq># mset (el_registered s)"
      using inv unfolding el_inv_def by (meson mset_subset_eq_mono_add_left_cancel subset_mset.order_trans)
    then show ?thesis using inv erase_distinct by (simp add: Step RegInsert el_inv_def)
  next
    case (UnregErase fd)
    have "mset (map snd (erase fd (el_timers s))) \<subseteq># mset (map snd (el_timers s))" by (rule erase_less)
    then have "mset (el_taken s) + mset (map snd (erase fd (el_timers s))) \<subseteq># mset (el_registered s)"
      using inv unfolding el_inv_def by (meson mset_subset_eq_mono_add_left_cancel subset_mset.order_trans)
    then show ?thesis using inv erase_distinct by (simp add: Step UnregErase el_inv_def)
  next
    case (Batch fds in_run)
    show ?thesis
    proof (cases fds)
      case Nil
      then show ?thesis using inv by (simp add: Step Batch take_event_def el_inv_def)
    next
      case (Cons fd rest)
      show ?thesis
      proof (cases "map_of (el_timers s) fd")
        case None
        then show ?thesis using inv by (simp add: Step Batch Cons take_event_def el_inv_def)
      next
        case (Some coro)
        have "add_mset coro (mset (map snd (erase fd (el_timers s)))) = mset (map snd (el_timers s))"
          using inv Some by (intro erase_taken) (simp_all add: el_inv_def)
        then have "add_mset coro (mset (el_taken s) + mset (map snd (erase fd (el_timers s)))) \<subseteq># mset (el_registered s)"
          using inv unfolding el_inv_def by (metis union_mset_add_mset_right)
        then show ?thesis using inv Some erase_distinct by (simp add: Step Batch Cons take_event_def el_inv_def)
      qed
    qed
  qed (use inv in \<open>simp_all add: Step el_inv_def epoll_wait_def Let_def\<close>)
next
  case (WaitFails t)
  assume "el_inv s"
  then show ?thesis by (simp add: WaitFails el_inv_def split: el_pc.split)
next
  case (Expire fd)
  assume "el_inv s"
  then show ?thesis by (simp add: Expire el_inv_def)
next
  case (CloseFd fd)
  assume "el_inv s"
  then show ?thesis by (simp add: CloseFd el_inv_def)
qed

interpretation el: interleaving el_step el_inv
  by unfold_locales (rule el_inv_step)

text \<open>
  In every interleaving of registrations, polls and expirations, the handles taken out for resumption, together with
  those still in the map, are among those registered, each at most as often: no registration resumes its coroutine twice.
\<close>

theorem timers_resume_at_most_once:
  "mset (el_taken (run_sched el_step es el_new)) + mset (map snd (el_timers (run_sched el_step es el_new)))
     \<subseteq># mset (el_registered (run_sched el_step es el_new))"
  using el.sched_keeps [OF el_inv_new, of es] by (simp only: el_inv_def)

section \<open>A poll resumes what is ready\<close>

lemma event_alone:
  assumes "el_pcs s t = Batch (fd # rest) r" and "map_of (el_timers s) fd = Some c"
  shows "run_sched el_step (replicate 4 (Step t True)) s =
    el_go t (Batch rest r) (s\<lparr>el_timers := erase fd (el_timers s), el_taken := c # el_taken s,
      el_expired := filter (\<lambda>x. x \<noteq> fd) (el_expired s), el_epoll := (el_epoll s)(fd := None), el_resumed := c # el_resumed s\<rparr>)"
  using assms by (simp add: eval_nat_numeral take_event_def el_go_def)

lemma map_of_erase: "k \<noteq> fd \<Longrightarrow> map_of (erase fd m) k = map_of m k"
  by (induction m) (auto simp: erase_def)

lemma batch_alone:
  assumes "el_pcs s t = Batch fds r" and "distinct fds" and "\<forall>fd \<in> set fds. map_of (el_timers s) fd \<noteq> None"
  defines "s' \<equiv> run_sched el_step (replicate (4 * length fds) (Step t True)) s"
  shows "el_pcs s' t = Batch [] r \<and> el_resumed s' = rev (map (\<lambda>fd. the (map_of (el_timers s) fd)) fds) @ el_resumed s \<and>
    el_expired s' = filter (\<lambda>x. x \<notin> set fds) (el_expired s) \<and>
    el_epoll s' = (\<lambda>fd. if fd \<in> set fds then None else el_epoll s fd) \<and> el_running s' = el_running s"
  using assms(1-3) unfolding s'_def
proof (induction fds arbitrary: s)
  case Nil
  then show ?case by (simp add: fun_eq_iff)
next
  case (Cons fd fds)
  then obtain c where c: "map_of (el_timers s) fd = Some c" by auto
  define s1 where "s1 = run_sched el_step (replicate 4 (Step t True)) s"
  note s1 = event_alone [OF Cons.prems(1) c, folded s1_def]
  have timers: "map_of (el_timers s1) k = map_of (el_timers s) k" if "k \<in> set fds" for k
    using that Cons.prems(2) by (simp add: s1) (metis map_of_erase)
  have maps: "map (\<lambda>fd. the (map_of (el_timers s1) fd)) fds = map (\<lambda>fd. the (map_of (el_timers s) fd)) fds"
    using timers by (intro map_cong) auto
  have ih: "el_pcs s1 t = Batch fds r" "distinct fds" "\<forall>fd\<in>set fds. map_of (el_timers s1) fd \<noteq> None"
    using Cons.prems(2,3) timers by (simp_all add: s1 del: map_of_eq_None_iff)
  have "replicate (4 * length (fd # fds)) (Step t True) = replicate 4 (Step t True) @ replicate (4 * length fds) (Step t True)"
    by (simp add: replicate_add)
  then have run: "run_sched el_step (replicate (4 * length (fd # fds)) (Step t True)) s =
      run_sched el_step (replicate (4 * length fds) (Step t True)) s1" by (simp add: s1_def del: replicate.simps)
  show ?case unfolding run using Cons.IH [OF ih] c maps
    by (auto simp: s1 fun_eq_iff intro: filter_cong)
qed

text \<open>
  A poll that is not disturbed resumes, in the order of their expiry, the coroutines of the first 16 timers that are ready, if
  they are in the map, and leaves the others ready for the next poll.
\<close>

theorem poll_resumes_ready:
  fixes t :: nat
  assumes "s = run_sched el_step es el_new" and "el_pcs s t = EIdle"
    and "\<forall>fd \<in> set (take kMaxEvents (ready s)). map_of (el_timers s) fd \<noteq> None"
  defines "fds \<equiv> take kMaxEvents (ready s)"
  shows "\<exists>s'. s' = run_sched el_step (Call t Poll # replicate (4 * length fds + 2) (Step t True)) s \<and> el_pcs s' t = EIdle \<and>
    el_resumed s' = rev (map (\<lambda>fd. the (map_of (el_timers s) fd)) fds) @ el_resumed s \<and> ready s' = drop kMaxEvents (ready s)"
proof -
  have inv: "el_inv s" using el.sched_keeps [OF el_inv_new, of es] assms(1) by simp
  then have dist: "distinct (ready s)" by (simp add: ready_def el_inv_def)
  define s1 where "s1 = run_sched el_step [Call t Poll, Step t True] s"
  have s1: "el_pcs s1 t = Batch fds False" "el_timers s1 = el_timers s" "el_resumed s1 = el_resumed s" "el_expired s1 = el_expired s"
    "el_epoll s1 = (\<lambda>fd. if fd \<in> set fds then Some False else el_epoll s fd)"
    using assms(2) by (simp_all add: s1_def el_begin_def epoll_wait_def fds_def Let_def fun_eq_iff)
  define s2 where "s2 = run_sched el_step (replicate (4 * length fds) (Step t True)) s1"
  have "distinct fds" using dist by (simp add: fds_def)
  note s2 = batch_alone [OF s1(1) this, folded s2_def] 
  have s2': "el_pcs s2 t = Batch [] False" "el_resumed s2 = rev (map (\<lambda>fd. the (map_of (el_timers s) fd)) fds) @ el_resumed s"
    "el_expired s2 = filter (\<lambda>x. x \<notin> set fds) (el_expired s)"
    "el_epoll s2 = (\<lambda>fd. if fd \<in> set fds then None else el_epoll s fd)"
    using s2 assms(3) s1 by (auto simp: fds_def fun_eq_iff)
  define s3 where "s3 = el_step (Step t True) s2"
  have s3: "el_pcs s3 t = EIdle" "el_resumed s3 = el_resumed s2" "el_expired s3 = el_expired s2" "el_epoll s3 = el_epoll s2"
    using s2'(1) by (simp_all add: s3_def take_event_def)
  have "ready s3 = filter (\<lambda>fd. fd \<notin> set fds) (ready s)"
    using s2'(3,4) s3(3,4) by (auto simp: ready_def intro: filter_cong)
  also have "\<dots> = drop kMaxEvents (ready s)"
  proof -
    have "ready s = fds @ drop kMaxEvents (ready s)" by (simp add: fds_def)
    moreover have "set fds \<inter> set (drop kMaxEvents (ready s)) = {}" using dist calculation by (metis distinct_append)
    ultimately have "filter (\<lambda>fd. fd \<notin> set fds) (ready s) = filter (\<lambda>fd. fd \<notin> set fds) (drop kMaxEvents (ready s))"
      by (metis (no_types, lifting) append_Nil filter_False filter_append)
    then show ?thesis using \<open>set fds \<inter> _ = {}\<close> by (auto simp: filter_id_conv)
  qed
  finally have "ready s3 = drop kMaxEvents (ready s)" .
  moreover have "Call t Poll # replicate (4 * length fds + 2) (Step t True) =
      [Call t Poll, Step t True] @ replicate (4 * length fds) (Step t True) @ [Step t True]"
    by (simp add: replicate_append_same)
  then have "run_sched el_step (Call t Poll # replicate (4 * length fds + 2) (Step t True)) s = s3"
    by (simp only: run_sched_append s1_def [symmetric] s2_def [symmetric]) (simp add: s3_def)
  ultimately show ?thesis using s2'(2) s3(1,2) by (intro exI [of _ s3]) simp
qed

lemma poll_resumes_ready_witness:
  "\<exists>s'. el_pcs s' 1 = EIdle \<and> el_resumed s' = [77] \<and>
     s' = run_sched el_step (Call 1 Poll # replicate 6 (Step 1 True))
       (run_sched el_step [Call 0 (Register 5 77), Step 0 True, Expire 5] el_new)"
proof -
  define s where "s = run_sched el_step [Call 0 (Register 5 77), Step 0 True, Expire 5] el_new"
  have s: "el_pcs s 1 = EIdle" "ready s = [5]" "map_of (el_timers s) 5 = Some 77" "el_resumed s = []"
    by (simp_all add: s_def el_begin_def el_new_def ready_def)
  have "\<forall>fd \<in> set (take kMaxEvents (ready s)). map_of (el_timers s) fd \<noteq> None" using s(2,3) by (simp add: kMaxEvents_def)
  from poll_resumes_ready [OF s_def s(1) this] s show ?thesis
    unfolding s_def [symmetric] by (simp add: kMaxEvents_def)
qed

section \<open>What goes wrong\<close>

text \<open>The thread that registers has added the timer to epoll, but not yet to the map, when a poll handles its event.\<close>

definition lost_run :: "el_event list" where
  "lost_run = [Call 0 (Register 5 77), Expire 5, Call 1 Poll, Step 1 True, Step 1 True, Step 1 True, Step 0 True]"

definition holds_event :: "nat \<Rightarrow> el_pc \<Rightarrow> bool" where
  "holds_event fd pc =
     (case pc of Batch fds r \<Rightarrow> fd \<in> set fds | ReadFd k c fds r \<Rightarrow> k = fd \<or> fd \<in> set fds
      | DelFd k c fds r \<Rightarrow> k = fd \<or> fd \<in> set fds | Resume c fds r \<Rightarrow> fd \<in> set fds | UnregErase k \<Rightarrow> k = fd | RegInsert k c \<Rightarrow> k = fd
      | _ \<Rightarrow> False)"

definition lost :: "nat \<Rightarrow> nat \<Rightarrow> event_loop \<Rightarrow> bool" where
  "lost fd coro s \<longleftrightarrow> el_epoll s fd = Some False \<and> map_of (el_timers s) fd = Some coro \<and> (\<forall>t. \<not> holds_event fd (el_pcs s t))"

lemma lost_step:
  assumes "lost fd coro s" and "e \<noteq> CloseFd fd" and "\<forall>t. e \<noteq> Call t (Unregister fd)"
  shows "lost fd coro (el_step e s)"
proof (cases e)
  case (Call t c)
  with assms show ?thesis by (cases c) (auto simp: lost_def el_begin_def holds_event_def)
next
  case (Step t ok)
  have pcs: "\<not> holds_event fd (el_pcs s u)" for u using assms(1) by (simp add: lost_def)
  have "fd \<notin> set (take kMaxEvents (ready s))" using assms(1) by (auto simp: lost_def ready_def dest: in_set_takeD)
  then show ?thesis
    using assms(1) pcs [of t]
    by (cases "el_pcs s t")
      (auto simp: Step lost_def holds_event_def epoll_wait_def take_event_def Let_def map_of_erase split: list.split option.split)
next
  case (WaitFails t)
  with assms show ?thesis by (auto simp: lost_def holds_event_def split: el_pc.split)
qed (use assms in \<open>auto simp: lost_def\<close>)

text \<open>
  A timer whose event is handled between its addition to epoll and its insertion into the map is lost: its one shot is
  used up, its coroutine stays in the map, and whatever happens afterwards, polls, expirations or new registrations, it is not taken
  out for resumption until the timer is closed or unregistered.
\<close>

theorem timer_lost_in_registration:
  assumes "\<forall>e \<in> set es. e \<noteq> CloseFd 5 \<and> (\<forall>t. e \<noteq> Call t (Unregister 5))"
  defines "s \<equiv> run_sched el_step (lost_run @ es) el_new"
  shows "map_of (el_timers s) 5 = Some 77 \<and> 5 \<notin> set (ready s)"
proof -
  have "lost 5 77 (run_sched el_step lost_run el_new)"
    by (simp add: lost_run_def lost_def el_begin_def epoll_wait_def take_event_def ready_def el_new_def kMaxEvents_def holds_event_def Let_def)
  then have "lost 5 77 s" unfolding s_def run_sched_append
    using assms(1)
  proof (induction es arbitrary: rule: rev_induct)
    case (snoc e es)
    then show ?case by (simp add: lost_step)
  qed simp
  then show ?thesis by (auto simp: lost_def ready_def)
qed

lemma timer_lost_in_registration_witness:
  "5 \<notin> set (ready (run_sched el_step (lost_run @ [Call 1 Poll, Step 1 True, Expire 5, Call 2 (Register 5 78)]) el_new))"
  using timer_lost_in_registration [of "[Call 1 Poll, Step 1 True, Expire 5, Call 2 (Register 5 78)]"] by simp

text \<open>
  The destructor of \<open>AsyncTimer\<close> closes the descriptor and does not unregister it.  Closing removes it from epoll, but an event that is
  already in the batch is still handled: the coroutine that has been destroyed with its timer is resumed.
\<close>

theorem closed_timer_still_resumed:
  assumes "el_pcs s t = Batch (fd # rest) r" and "map_of (el_timers s) fd = Some coro"
  shows "el_resumed (run_sched el_step (CloseFd fd # replicate 4 (Step t True)) s) = coro # el_resumed s"
proof -
  have "el_pcs (el_step (CloseFd fd) s) t = Batch (fd # rest) r" and "map_of (el_timers (el_step (CloseFd fd) s)) fd = Some coro"
    using assms by simp_all
  from event_alone [OF this] show ?thesis by (simp del: replicate.simps)
qed

text \<open>Two timers expire together; the first coroutine destroys the second.\<close>

lemma closed_timer_still_resumed_witness:
  "el_resumed (run_sched el_step (CloseFd 6 # replicate 4 (Step 0 True))
     (run_sched el_step ([Call 1 (Register 5 77), Step 1 True, Call 1 (Register 6 78), Step 1 True, Expire 5, Expire 6, Call 0 Poll] @
        replicate 5 (Step 0 True)) el_new)) = [78, 77]"
proof -
  define s where "s = run_sched el_step ([Call 1 (Register 5 77), Step 1 True, Call 1 (Register 6 78), Step 1 True, Expire 5, Expire 6,
      Call 0 Poll] @ replicate 5 (Step 0 True)) el_new"
  have b: "el_pcs s 0 = Batch [6] False" and m: "map_of (el_timers s) 6 = Some 78" and r: "el_resumed s = [77]"
    unfolding s_def by code_simp+
  show ?thesis unfolding s_def [symmetric] closed_timer_still_resumed [OF b m] r ..
qed

text \<open>A call of \<open>stop\<close> that comes before \<open>run\<close> sets the flag is overwritten.\<close>

lemma stop_before_run: "el_running (run_sched el_step [Call 1 Stop, Call 0 RunLoop] el_new)"
  by (simp add: el_begin_def el_new_def)

end
