(* ===== verification/Primitives.thy ===== *)
theory Primitives
  imports Prelude "HOL-Library.Word"
begin

text \<open>
  Small components of modern_cpp_core: \<open>Spinlock\<close> (concurrency/spinlock.hpp), \<open>atomic_wait_until\<close>
  (concurrency/atomic_wait.hpp), \<open>RelaxedCounter\<close> (patterns/telemetry.hpp) and \<open>process_sensor_data\<close>
  (patterns/data_pipeline.hpp).
\<close>

section \<open>Spinlock\<close>

text \<open>A thread outside, before \<open>test_and_set\<close>, in the inner loop, or inside the critical section.\<close>

datatype spin_pc = Outside | TestAndSet | Test | Inside

record spinlock =
  sp_flag :: bool
  sp_pcs :: "nat \<Rightarrow> spin_pc"

definition spin_new :: spinlock where
  "spin_new = \<lparr>sp_flag = False, sp_pcs = (\<lambda>_. Outside)\<rparr>"

datatype spin_event = CallLock nat | CallUnlock nat | Spin nat

definition sp_go :: "nat \<Rightarrow> spin_pc \<Rightarrow> spinlock \<Rightarrow> spinlock" where
  "sp_go t pc s = s\<lparr>sp_pcs := (sp_pcs s)(t := pc)\<rparr>"

fun spin_step :: "spin_event \<Rightarrow> spinlock \<Rightarrow> spinlock" where
  "spin_step (CallLock t) s = (if sp_pcs s t = Outside then sp_go t TestAndSet s else s)"
| "spin_step (CallUnlock t) s = (if sp_pcs s t = Inside then sp_go t Outside (s\<lparr>sp_flag := False\<rparr>) else s)"
| "spin_step (Spin t) s =
     (case sp_pcs s t of
        TestAndSet \<Rightarrow> if sp_flag s then sp_go t Test s else sp_go t Inside (s\<lparr>sp_flag := True\<rparr>)
      | Test \<Rightarrow> if sp_flag s then s else sp_go t TestAndSet s
      | _ \<Rightarrow> s)"

definition spin_inv :: "spinlock \<Rightarrow> bool" where
  "spin_inv s \<longleftrightarrow>
     (\<forall>t u. sp_pcs s t = Inside \<longrightarrow> sp_pcs s u = Inside \<longrightarrow> t = u) \<and> (sp_flag s \<longleftrightarrow> (\<exists>t. sp_pcs s t = Inside))"

lemma spin_inv_step: "spin_inv s \<Longrightarrow> spin_inv (spin_step e s)"
  unfolding spin_inv_def
  by (cases e) (auto simp: sp_go_def split: spin_pc.split, (metis spin_pc.distinct)+)

interpretation spin: interleaving spin_step spin_inv
  by unfold_locales (rule spin_inv_step)

lemma spin_inv_new: "spin_inv spin_new"
  by (simp add: spin_inv_def spin_new_def)

text \<open>
  At most one thread is inside; and when nobody is, a thread that is trying to lock gets in with at most two steps of
  its own, if no other thread moves.
\<close>

theorem spinlock_excludes_and_admits:
  assumes "s = run_sched spin_step es spin_new"
  shows "sp_pcs s t = Inside \<Longrightarrow> sp_pcs s u = Inside \<Longrightarrow> t = u"
    and "sp_pcs s t = TestAndSet \<or> sp_pcs s t = Test \<Longrightarrow> \<forall>u. sp_pcs s u \<noteq> Inside \<Longrightarrow>
      sp_pcs (run_sched spin_step [Spin t, Spin t] s) t = Inside"
proof -
  have inv: "spin_inv s" using spin.sched_keeps [OF spin_inv_new, of es] assms by simp
  then show "sp_pcs s t = Inside \<Longrightarrow> sp_pcs s u = Inside \<Longrightarrow> t = u" unfolding spin_inv_def by blast
  assume pc: "sp_pcs s t = TestAndSet \<or> sp_pcs s t = Test" and "\<forall>u. sp_pcs s u \<noteq> Inside"
  with inv have "\<not> sp_flag s" by (simp add: spin_inv_def)
  with pc show "sp_pcs (run_sched spin_step [Spin t, Spin t] s) t = Inside" by (auto simp: sp_go_def)
qed

lemma spinlock_excludes_and_admits_witness:
  "sp_pcs (run_sched spin_step [Spin 1, Spin 1] (run_sched spin_step [CallLock 0, Spin 0, CallLock 1, Spin 1, CallUnlock 0] spin_new)) 1
     = Inside"
  by (rule spinlock_excludes_and_admits(2) [OF refl]) (simp_all add: spin_new_def sp_go_def)

section \<open>atomic_wait_until\<close>

text \<open>
  One waiting thread, and others that store values and then notify; \<open>aw_notify\<close> counts the stores whose notification is
  still to come. The predicate reads the variable.  \<open>Blocked\<close> is inside \<open>wait\<close> after the comparison; a spurious
  wake-up is the event \<open>Wake\<close>.
\<close>

datatype aw_pc = Predicate | Waiting | Blocked | Reload | Returned

record atomic_waiter =
  aw_var :: int
  aw_old :: int
  aw_pc :: aw_pc
  aw_notify :: nat

datatype aw_event = Waiter | Wake | Store int | Notify

fun aw_step :: "(int \<Rightarrow> bool) \<Rightarrow> aw_event \<Rightarrow> atomic_waiter \<Rightarrow> atomic_waiter" where
  "aw_step pred Waiter s =
     (case aw_pc s of
        Predicate \<Rightarrow> s\<lparr>aw_pc := (if pred (aw_var s) then Returned else Waiting)\<rparr>
      | Waiting \<Rightarrow> s\<lparr>aw_pc := (if aw_var s = aw_old s then Blocked else Reload)\<rparr>
      | Reload \<Rightarrow> s\<lparr>aw_old := aw_var s, aw_pc := Predicate\<rparr>
      | _ \<Rightarrow> s)"
| "aw_step pred Wake s = (if aw_pc s = Blocked then s\<lparr>aw_pc := Reload\<rparr> else s)"
| "aw_step pred (Store v) s = s\<lparr>aw_var := v, aw_notify := Suc (aw_notify s)\<rparr>"
| "aw_step pred Notify s =
     (if aw_notify s = 0 then s
      else s\<lparr>aw_notify := aw_notify s - 1, aw_pc := (if aw_pc s = Blocked then Reload else aw_pc s)\<rparr>)"

definition aw_new :: "int \<Rightarrow> int \<Rightarrow> atomic_waiter" where
  "aw_new v old_val = \<lparr>aw_var = v, aw_old = old_val, aw_pc = Predicate, aw_notify = 0\<rparr>"

text \<open>Stores that never turn the predicate from true to false.\<close>

fun keeps_true :: "(int \<Rightarrow> bool) \<Rightarrow> aw_event list \<Rightarrow> int \<Rightarrow> bool" where
  "keeps_true pred [] v = True"
| "keeps_true pred (Store w # es) v = ((pred v \<longrightarrow> pred w) \<and> keeps_true pred es w)"
| "keeps_true pred (e # es) v = keeps_true pred es v"

definition aw_inv :: "(int \<Rightarrow> bool) \<Rightarrow> atomic_waiter \<Rightarrow> bool" where
  "aw_inv pred s \<longleftrightarrow>
     (aw_pc s \<in> {Predicate, Waiting, Blocked} \<longrightarrow> pred (aw_old s) \<longrightarrow> pred (aw_var s) \<and> aw_pc s = Predicate) \<and>
     (aw_pc s = Blocked \<longrightarrow> pred (aw_var s) \<longrightarrow> 0 < aw_notify s)"

lemma aw_inv_step:
  "aw_inv pred s \<Longrightarrow> keeps_true pred [e] (aw_var s) \<Longrightarrow> aw_inv pred (aw_step pred e s)"
  by (cases e; cases "aw_pc s") (auto simp: aw_inv_def)

lemma aw_inv_sched:
  "aw_inv pred s \<Longrightarrow> keeps_true pred es (aw_var s) \<Longrightarrow> aw_inv pred (run_sched (aw_step pred) es s)"
proof (induction es arbitrary: s)
  case (Cons e es)
  have var: "aw_var (aw_step pred e s) = (case e of Store w \<Rightarrow> w | _ \<Rightarrow> aw_var s)"
    by (cases e; cases "aw_pc s") simp_all
  have first: "keeps_true pred [e] (aw_var s)" using Cons.prems(2) by (cases e) simp_all
  have rest: "keeps_true pred es (aw_var (aw_step pred e s))" unfolding var using Cons.prems(2) by (cases e) simp_all
  show ?case using Cons.IH [OF aw_inv_step [OF Cons.prems(1) first] rest] by simp
qed simp

text \<open>
  If no store turns the predicate from true to false, and the caller's \<open>old_val\<close> is a value for which it is false, no wake-up is
  lost: whenever the thread is blocked although the predicate holds, a notification is still to come.
\<close>

theorem atomic_wait_no_lost_wakeup:
  assumes "\<not> pred old_val" and "keeps_true pred es v"
    and "s = run_sched (aw_step pred) es (aw_new v old_val)" and "aw_pc s = Blocked" and "pred (aw_var s)"
  shows "0 < aw_notify s"
proof -
  have "aw_inv pred (aw_new v old_val)" using assms(1) by (simp add: aw_inv_def aw_new_def)
  then have "aw_inv pred s" using aw_inv_sched [of pred "aw_new v old_val" es] assms(2,3) by (simp add: aw_new_def)
  then show ?thesis using assms(4,5) by (simp add: aw_inv_def)
qed

lemma atomic_wait_no_lost_wakeup_witness:
  "0 < aw_notify (run_sched (aw_step (\<lambda>x. 0 < x)) [Waiter, Waiter, Store 5] (aw_new 0 0))"
  by (rule atomic_wait_no_lost_wakeup [where pred = "\<lambda>x. 0 < x" and old_val = 0 and v = 0, OF _ _ refl]) (simp_all add: aw_new_def)

text \<open>
  Without that, one is: \<open>old_val\<close> is loaded before the predicate is evaluated, so it may be a value for which the
  predicate holds. Here the variable goes 1, 0, 1; the thread blocks with every notification behind it.
\<close>

lemma atomic_wait_lost_wakeup:
  "let s = run_sched (aw_step (\<lambda>x. 0 < x))
     [Waiter, Waiter, Store 1, Notify, Waiter, Store 0, Notify, Waiter, Store 1, Notify, Waiter] (aw_new 0 0)
   in aw_pc s = Blocked \<and> aw_var s = 1 \<and> aw_notify s = 0"
  by (simp add: aw_new_def)

section \<open>RelaxedCounter\<close>

text \<open>For an integral type of \<open>'w\<close> bits: \<open>fetch_add\<close> and \<open>fetch_sub\<close> wrap around, for signed types as well.\<close>

datatype 'a counter_op = Increment | Decrement | Add 'a | Reset

fun counter_step :: "('w :: len) word counter_op \<Rightarrow> 'w word \<Rightarrow> 'w word" where
  "counter_step Increment v = v + 1"
| "counter_step Decrement v = v - 1"
| "counter_step (Add d) v = v + d"
| "counter_step Reset v = 0"

fun counter_delta :: "('w :: len) word counter_op \<Rightarrow> int" where
  "counter_delta Increment = 1"
| "counter_delta Decrement = - 1"
| "counter_delta (Add d) = uint d"
| "counter_delta Reset = 0"

lemma counter_sum:
  assumes "Reset \<notin> set ops"
  shows "run_sched counter_step ops v = v + of_int (sum_list (map counter_delta ops))"
  using assms
proof (induction ops arbitrary: v)
  case (Cons e ops)
  then show ?case by (cases e) (simp_all add: algebra_simps)
qed simp

text \<open>
  After any sequence of updates, the counter is the sum of those since the last reset, modulo 2 to the number of bits; and the
  order of updates without a reset does not matter.
\<close>

theorem relaxed_counter_total:
  assumes "Reset \<notin> set (ops :: ('w :: len) word counter_op list)"
  shows "uint (run_sched counter_step (before @ Reset # ops) v) = sum_list (map counter_delta ops) mod 2 ^ LENGTH('w)"
    and "mset ops' = mset ops \<Longrightarrow> run_sched counter_step ops' v = run_sched counter_step ops v"
proof -
  show "uint (run_sched counter_step (before @ Reset # ops) v) = sum_list (map counter_delta ops) mod 2 ^ LENGTH('w)"
    using assms by (simp add: counter_sum uint_word_of_int)
  assume same: "mset ops' = mset ops"
  then have "Reset \<notin> set ops'" using assms by (metis set_mset_mset)
  moreover have "sum_list (map counter_delta ops') = sum_list (map counter_delta ops)"
    using same by (metis mset_map sum_mset_sum_list)
  ultimately show "run_sched counter_step ops' v = run_sched counter_step ops v" using assms by (simp add: counter_sum)
qed

lemma relaxed_counter_total_witness:
  "uint (run_sched counter_step ([Increment] @ Reset # [Decrement, Add 3, Decrement]) (7 :: 8 word)) = 1"
  using relaxed_counter_total(1) [of "[Decrement, Add 3, Decrement] :: 8 word counter_op list" "[Increment]" 7] by simp

section \<open>process_sensor_data\<close>

datatype pipeline_error = InvalidScaleFactor | EmptyInput | ThresholdTooHigh

text \<open>For a type with a total order. Whether the input can be read twice matters: a single-pass range is empty
  when it has been read.\<close>

definition process_sensor_data ::
  "bool \<Rightarrow> 'a list \<Rightarrow> 'a \<Rightarrow> 'a \<Rightarrow> pipeline_error + ('a :: {linorder, times, zero}) list" where
  "process_sensor_data multi_pass input noise_threshold scale_factor =
     (if scale_factor = 0 then Inl InvalidScaleFactor
      else
        let result = map (\<lambda>v. v * scale_factor) (filter (\<lambda>v. noise_threshold \<le> v) input);
            input_after = (if multi_pass then input else [])
        in if result = [] then (if input_after = [] then Inl EmptyInput else Inl ThresholdTooHigh) else Inr result)"

text \<open>
  For a range that can be read twice, the errors are told apart correctly: a zero factor, an empty input, and a threshold above
  every value; otherwise the result is, in order, the values from the threshold on, scaled.
\<close>

theorem process_sensor_data_cases:
  "process_sensor_data True xs thr k = Inl InvalidScaleFactor \<longleftrightarrow> k = 0"
  "process_sensor_data True xs thr k = Inl EmptyInput \<longleftrightarrow> k \<noteq> 0 \<and> xs = []"
  "process_sensor_data True xs thr k = Inl ThresholdTooHigh \<longleftrightarrow> k \<noteq> 0 \<and> xs \<noteq> [] \<and> (\<forall>x \<in> set xs. x < thr)"
  "process_sensor_data True xs thr k = Inr ys \<longleftrightarrow> k \<noteq> 0 \<and> ys \<noteq> [] \<and> ys = map (\<lambda>v. v * k) (filter (\<lambda>v. thr \<le> v) xs)"
  by (auto simp: process_sensor_data_def Let_def filter_empty_conv not_le)

lemma process_sensor_data_single_pass: "process_sensor_data False [1 :: int] 5 2 = Inl EmptyInput"
  by (simp add: process_sensor_data_def)

end
