(* ===== verification/LockFreeQueue.thy ===== *)
theory LockFreeQueue
  imports Prelude "HOL-Library.Word"
begin

text \<open>
  \<open>lock_free_queue\<close> (C++_ConcurrencyInAction/designLockFree/dataStructures.hpp): a linked queue in which threads that are pushing help
  each other, with split reference counts.

  Nodes are addresses and are not handed out again; the two parts of a node's \<open>count\<close> are bit fields of 30 and 2 bits, and
  wrap around; the external count is an \<open>int\<close>, whose overflow is undefined: it sets \<open>lq_overflow\<close> and the thread goes no further.  A step is one access to \<open>head\<close>, \<open>tail\<close> or a member of a node; the flag of an event lets a weak
  compare-exchange fail spuriously.  \<open>lq_fault\<close> records the use or the second deletion of a deleted node.
\<close>

section \<open>State\<close>

text \<open>\<open>counted_node_ptr\<close>: the external count is an \<open>int\<close>, between 0 and \<open>int_max\<close>; only \<open>increase_external_count\<close> changes it.\<close>

type_synonym counted = "int \<times> nat option"

text \<open>What a call does after it has given up a reference.\<close>

datatype 'a lq_then = PushDone | PushAgain counted nat 'a | PopNone | PopSome "'a option" | PopAgain counted

datatype 'a lq_pc =
    QIdle
  | QPopLoad
  | QPopInc counted
  | QPopTail int nat
  | QPopNext int nat
  | QPopCas int nat counted
  | QTake int nat
  | QPushLoad nat 'a
  | QPushInc counted nat 'a
  | QPushData int nat nat 'a
  | QPushNext int nat nat
  | QHelpNext int nat nat 'a
  | QSetTail nat counted counted "'a lq_then"
  | QRelLoad nat "'a lq_then"
  | QRelCas nat "30 word \<times> 2 word" "'a lq_then"
  | QFreeLoad int nat "'a lq_then"
  | QFreeCas int nat "30 word \<times> 2 word" "'a lq_then"
  | QDelete nat "'a lq_then"

record 'a lfqueue =
  lq_head :: counted
  lq_tail :: counted
  lq_data :: "nat \<Rightarrow> 'a option"
  lq_count :: "nat \<Rightarrow> 30 word \<times> 2 word"
  lq_next :: "nat \<Rightarrow> counted"
  lq_alloc :: nat
  lq_freed :: "nat set"
  lq_pcs :: "nat \<Rightarrow> 'a lq_pc"
  lq_fault :: bool
  lq_overflow :: bool
  lq_results :: "(nat \<times> 'a option) list"  \<comment> \<open>what the pops returned, the latest first\<close>

datatype 'a lq_call = QPush 'a | QPop

datatype 'a lq_event = Call nat "'a lq_call" | Run nat bool

section \<open>Operations\<close>

definition qgo :: "nat \<Rightarrow> 'a lq_pc \<Rightarrow> 'a lfqueue \<Rightarrow> 'a lfqueue" where
  "qgo t pc s = s\<lparr>lq_pcs := (lq_pcs s)(t := pc)\<rparr>"

definition touch :: "nat \<Rightarrow> 'a lfqueue \<Rightarrow> 'a lfqueue" where
  "touch p s = s\<lparr>lq_fault := (lq_fault s \<or> p \<in> lq_freed s)\<rparr>"

text \<open>\<open>new node\<close>: no data, no successor, two external counters.\<close>

definition new_node :: "'a lfqueue \<Rightarrow> 'a lfqueue" where
  "new_node s =
     s\<lparr>lq_alloc := Suc (lq_alloc s), lq_data := (lq_data s)(lq_alloc s := None), lq_count := (lq_count s)(lq_alloc s := (0, 2)),
       lq_next := (lq_next s)(lq_alloc s := (0, None))\<rparr>"

definition lq_new :: "'a lfqueue" where
  "lq_new = new_node \<lparr>lq_head = (1, Some 0), lq_tail = (1, Some 0), lq_data = (\<lambda>_. None), lq_count = (\<lambda>_. (0, 0)),
     lq_next = (\<lambda>_. (0, None)), lq_alloc = 0, lq_freed = {}, lq_pcs = (\<lambda>_. QIdle), lq_fault = False, lq_overflow = False, lq_results = []\<rparr>"

definition delete_node :: "nat \<Rightarrow> 'a lfqueue \<Rightarrow> 'a lfqueue" where
  "delete_node p s = (touch p s)\<lparr>lq_freed := insert p (lq_freed s)\<rparr>"

definition and_then :: "nat \<Rightarrow> 'a lq_then \<Rightarrow> 'a lfqueue \<Rightarrow> 'a lfqueue" where
  "and_then t k s =
     (case k of
        PushDone \<Rightarrow> qgo t QIdle s
      | PushAgain old_tail n v \<Rightarrow> qgo t (QPushInc old_tail n v) s
      | PopNone \<Rightarrow> qgo t QIdle (s\<lparr>lq_results := (t, None) # lq_results s\<rparr>)
      | PopSome res \<Rightarrow> qgo t QIdle (s\<lparr>lq_results := (t, res) # lq_results s\<rparr>)
      | PopAgain old_head \<Rightarrow> qgo t (QPopInc old_head) s)"

text \<open>\<open>increase_external_count\<close>: \<open>++new_counter.external_count\<close> and the compare-exchange; if it fails it reloads the counter.\<close>

definition increase_head :: "nat \<Rightarrow> counted \<Rightarrow> 'a lfqueue \<Rightarrow> 'a lfqueue" where
  "increase_head t old s =
     (if fst old = int_max then s\<lparr>lq_overflow := True\<rparr>
      else if lq_head s = old
      then (case snd old of
              Some p \<Rightarrow> qgo t (QPopTail (fst old + 1) p) (s\<lparr>lq_head := (fst old + 1, Some p)\<rparr>)
            | None \<Rightarrow> s\<lparr>lq_fault := True\<rparr>)
      else qgo t (QPopInc (lq_head s)) s)"

definition increase_tail :: "nat \<Rightarrow> counted \<Rightarrow> nat \<Rightarrow> 'a \<Rightarrow> 'a lfqueue \<Rightarrow> 'a lfqueue" where
  "increase_tail t old n v s =
     (if fst old = int_max then s\<lparr>lq_overflow := True\<rparr>
      else if lq_tail s = old
      then (case snd old of
              Some p \<Rightarrow> qgo t (QPushData (fst old + 1) p n v) (s\<lparr>lq_tail := (fst old + 1, Some p)\<rparr>)
            | None \<Rightarrow> s\<lparr>lq_fault := True\<rparr>)
      else qgo t (QPushInc (lq_tail s) n v) s)"

text \<open>The compare-exchange of \<open>release_ref\<close>, and of \<open>free_external_counter\<close>.\<close>

definition drop_count :: "nat \<Rightarrow> nat \<Rightarrow> 30 word \<times> 2 word \<Rightarrow> 30 word \<times> 2 word \<Rightarrow>
    (30 word \<times> 2 word \<Rightarrow> 'a lq_pc) \<Rightarrow> 'a lq_then \<Rightarrow> 'a lfqueue \<Rightarrow> 'a lfqueue" where
  "drop_count t p old new retry k s =
     (let s1 = touch p s in
      if lq_count s p = old then
        (let s2 = s1\<lparr>lq_count := (lq_count s)(p := new)\<rparr>
         in if new = (0, 0) then qgo t (QDelete p k) s2 else and_then t k s2)
      else qgo t (retry (lq_count s p)) s1)"

definition release_cas :: "nat \<Rightarrow> nat \<Rightarrow> 30 word \<times> 2 word \<Rightarrow> 'a lq_then \<Rightarrow> 'a lfqueue \<Rightarrow> 'a lfqueue" where
  "release_cas t p old k s = drop_count t p old (fst old - 1, snd old) (\<lambda>c. QRelCas p c k) k s"

definition free_external_cas :: "nat \<Rightarrow> int \<Rightarrow> nat \<Rightarrow> 30 word \<times> 2 word \<Rightarrow> 'a lq_then \<Rightarrow> 'a lfqueue \<Rightarrow> 'a lfqueue" where
  "free_external_cas t e p old k s =
     drop_count t p old (fst old + of_int (e - 2), snd old - 1) (\<lambda>c. QFreeCas e p c k) k s"

text \<open>\<open>set_new_tail\<close>: a weak compare-exchange, retried while the tail is still the same node.\<close>

definition set_new_tail :: "nat \<Rightarrow> bool \<Rightarrow> nat \<Rightarrow> counted \<Rightarrow> counted \<Rightarrow> 'a lq_then \<Rightarrow> 'a lfqueue \<Rightarrow> 'a lfqueue" where
  "set_new_tail t strong p old_tail new_tail k s =
     (let k' = (\<lambda>old. case k of PushAgain _ n v \<Rightarrow> PushAgain old n v | _ \<Rightarrow> k) in
      if strong \<and> lq_tail s = old_tail then qgo t (QFreeLoad (fst old_tail) p (k' old_tail)) (s\<lparr>lq_tail := new_tail\<rparr>)
      else if snd (lq_tail s) = Some p then qgo t (QSetTail p (lq_tail s) new_tail k) s
      else qgo t (QRelLoad p (k' (lq_tail s))) s)"

text \<open>The end of a push that has stored its data, and the help for a thread that has stalled there.\<close>

definition push_next :: "nat \<Rightarrow> int \<Rightarrow> nat \<Rightarrow> nat \<Rightarrow> 'a lfqueue \<Rightarrow> 'a lfqueue" where
  "push_next t e p n s =
     (let s1 = touch p s in
      if lq_next s p = (0, None)
      then qgo t (QSetTail p (e, Some p) (1, Some n) PushDone) (s1\<lparr>lq_next := (lq_next s)(p := (1, Some n))\<rparr>)
      else qgo t (QSetTail p (e, Some p) (lq_next s p) PushDone) (delete_node n s1))"

definition help_next :: "nat \<Rightarrow> int \<Rightarrow> nat \<Rightarrow> nat \<Rightarrow> 'a \<Rightarrow> 'a lfqueue \<Rightarrow> 'a lfqueue" where
  "help_next t e p n v s =
     (let s1 = touch p s in
      if lq_next s p = (0, None)
      then qgo t (QSetTail p (e, Some p) (1, Some n) (PushAgain (e, Some p) (lq_alloc s) v))
             (new_node (s1\<lparr>lq_next := (lq_next s)(p := (1, Some n))\<rparr>))
      else qgo t (QSetTail p (e, Some p) (lq_next s p) (PushAgain (e, Some p) n v)) s1)"

fun lq_step :: "'a lq_event \<Rightarrow> 'a lfqueue \<Rightarrow> 'a lfqueue" where
  "lq_step (Call t c) s =
     (case lq_pcs s t of
        QIdle \<Rightarrow> (case c of QPush v \<Rightarrow> qgo t (QPushLoad (lq_alloc s) v) (new_node s) | QPop \<Rightarrow> qgo t QPopLoad s)
      | _ \<Rightarrow> s)"
| "lq_step (Run t strong) s =
     (case lq_pcs s t of
        QIdle \<Rightarrow> s
      | QPopLoad \<Rightarrow> qgo t (QPopInc (lq_head s)) s
      | QPopInc old \<Rightarrow> increase_head t old s
      | QPopTail e p \<Rightarrow> qgo t (if snd (lq_tail s) = Some p then QRelLoad p PopNone else QPopNext e p) s
      | QPopNext e p \<Rightarrow> qgo t (QPopCas e p (lq_next s p)) (touch p s)
      | QPopCas e p nxt \<Rightarrow>
          if lq_head s = (e, Some p) then qgo t (QTake e p) (s\<lparr>lq_head := nxt\<rparr>)
          else qgo t (QRelLoad p (PopAgain (lq_head s))) s
      | QTake e p \<Rightarrow> qgo t (QFreeLoad e p (PopSome (lq_data s p))) ((touch p s)\<lparr>lq_data := (lq_data s)(p := None)\<rparr>)
      | QPushLoad n v \<Rightarrow> qgo t (QPushInc (lq_tail s) n v) s
      | QPushInc old n v \<Rightarrow> increase_tail t old n v s
      | QPushData e p n v \<Rightarrow>
          if lq_data s p = None then qgo t (QPushNext e p n) ((touch p s)\<lparr>lq_data := (lq_data s)(p := Some v)\<rparr>)
          else qgo t (QHelpNext e p n v) (touch p s)
      | QPushNext e p n \<Rightarrow> push_next t e p n s
      | QHelpNext e p n v \<Rightarrow> help_next t e p n v s
      | QSetTail p old new k \<Rightarrow> set_new_tail t strong p old new k s
      | QRelLoad p k \<Rightarrow> qgo t (QRelCas p (lq_count s p) k) (touch p s)
      | QRelCas p old k \<Rightarrow> release_cas t p old k s
      | QFreeLoad e p k \<Rightarrow> qgo t (QFreeCas e p (lq_count s p) k) (touch p s)
      | QFreeCas e p old k \<Rightarrow> free_external_cas t e p old k s
      | QDelete p k \<Rightarrow> and_then t k (delete_node p s))"

definition lq_run_call :: "nat \<Rightarrow> 'a lq_call \<Rightarrow> 'a lfqueue \<Rightarrow> 'a lfqueue" where
  "lq_run_call t c s = run_sched lq_step (Call t c # replicate 12 (Run t True)) s"

section \<open>One call after the other\<close>

lemma qgo_simps [simp]:
  "lq_pcs (qgo t pc s) = (lq_pcs s)(t := pc)" "lq_head (qgo t pc s) = lq_head s" "lq_tail (qgo t pc s) = lq_tail s"
  "lq_data (qgo t pc s) = lq_data s" "lq_count (qgo t pc s) = lq_count s" "lq_next (qgo t pc s) = lq_next s"
  "lq_alloc (qgo t pc s) = lq_alloc s" "lq_freed (qgo t pc s) = lq_freed s" "lq_fault (qgo t pc s) = lq_fault s"
  "lq_results (qgo t pc s) = lq_results s" "lq_overflow (qgo t pc s) = lq_overflow s"
  by (simp_all add: qgo_def)

lemma touch_simps [simp]:
  "lq_pcs (touch p s) = lq_pcs s" "lq_head (touch p s) = lq_head s" "lq_tail (touch p s) = lq_tail s"
  "lq_data (touch p s) = lq_data s" "lq_count (touch p s) = lq_count s" "lq_next (touch p s) = lq_next s"
  "lq_alloc (touch p s) = lq_alloc s" "lq_freed (touch p s) = lq_freed s" "lq_results (touch p s) = lq_results s"
  "lq_fault (touch p s) \<longleftrightarrow> lq_fault s \<or> p \<in> lq_freed s" "lq_overflow (touch p s) = lq_overflow s"
  by (simp_all add: touch_def)

lemma new_node_simps [simp]:
  "lq_pcs (new_node s) = lq_pcs s" "lq_head (new_node s) = lq_head s" "lq_tail (new_node s) = lq_tail s"
  "lq_data (new_node s) = (lq_data s)(lq_alloc s := None)" "lq_count (new_node s) = (lq_count s)(lq_alloc s := (0, 2))"
  "lq_next (new_node s) = (lq_next s)(lq_alloc s := (0, None))" "lq_alloc (new_node s) = Suc (lq_alloc s)"
  "lq_freed (new_node s) = lq_freed s" "lq_results (new_node s) = lq_results s" "lq_fault (new_node s) = lq_fault s"
  "lq_overflow (new_node s) = lq_overflow s"
  by (simp_all add: new_node_def)

lemmas lq_ops = increase_head_def increase_tail_def set_new_tail_def push_next_def drop_count_def release_cas_def
  free_external_cas_def and_then_def delete_node_def Let_def

lemma push_alone:
  fixes v :: 'a
  assumes "lq_pcs s t = QIdle" and "lq_tail s = (1, Some l)" and "lq_data s l = None" and "lq_next s l = (0, None)"
    and "lq_count s l = (i, 2)" and "l \<notin> lq_freed s" and "l < lq_alloc s"
  defines "s' \<equiv> lq_run_call t (QPush v) s"
  shows "lq_pcs s' = (lq_pcs s)(t := QIdle) \<and> lq_head s' = lq_head s \<and> lq_tail s' = (1, Some (lq_alloc s)) \<and>
    lq_data s' = (lq_data s)(lq_alloc s := None, l := Some v) \<and> lq_count s' = (lq_count s)(lq_alloc s := (0, 2), l := (i, 1)) \<and>
    lq_next s' = (lq_next s)(lq_alloc s := (0, None), l := (1, Some (lq_alloc s))) \<and> lq_alloc s' = Suc (lq_alloc s) \<and>
    lq_freed s' = lq_freed s \<and> lq_fault s' = lq_fault s \<and> lq_results s' = lq_results s \<and> lq_overflow s' = lq_overflow s"
  using assms(1-7) unfolding s'_def lq_run_call_def by (simp add: eval_nat_numeral lq_ops int_max_def)

lemma pop_alone:
  assumes "lq_pcs s t = QIdle" and "lq_head s = (h, Some p)" and "h < int_max" and "snd (lq_tail s) \<noteq> Some p"
    and "lq_next s p = nxt" and "lq_count s p = (1 - of_int h, 1)" and "p \<notin> lq_freed s"
  defines "s' \<equiv> lq_run_call t QPop s"
  shows "lq_pcs s' = (lq_pcs s)(t := QIdle) \<and> lq_head s' = nxt \<and> lq_tail s' = lq_tail s \<and>
    lq_data s' = (lq_data s)(p := None) \<and> lq_count s' = (lq_count s)(p := (0, 0)) \<and>
    lq_next s' = lq_next s \<and> lq_alloc s' = lq_alloc s \<and>
    lq_freed s' = insert p (lq_freed s) \<and> lq_fault s' = lq_fault s \<and> lq_results s' = (t, lq_data s p) # lq_results s \<and>
    lq_overflow s' = lq_overflow s"
  using assms(1-7) unfolding s'_def lq_run_call_def by (simp add: eval_nat_numeral lq_ops)

lemma pop_empty_alone:
  assumes "lq_pcs s t = QIdle" and "lq_head s = (h, Some p)" and "h < int_max" and "snd (lq_tail s) = Some p"
    and "lq_count s p = (i, 2)" and "p \<notin> lq_freed s"
  defines "s' \<equiv> lq_run_call t QPop s"
  shows "lq_pcs s' = (lq_pcs s)(t := QIdle) \<and> lq_head s' = (h + 1, Some p) \<and> lq_tail s' = lq_tail s \<and>
    lq_data s' = lq_data s \<and> lq_count s' = (lq_count s)(p := (i - 1, 2)) \<and> lq_next s' = lq_next s \<and> lq_alloc s' = lq_alloc s \<and>
    lq_freed s' = lq_freed s \<and> lq_fault s' = lq_fault s \<and> lq_results s' = (t, None) # lq_results s \<and>
    lq_overflow s' = lq_overflow s"
  using assms(1-6) unfolding s'_def lq_run_call_def by (simp add: eval_nat_numeral lq_ops)

text \<open>
  The queue at rest: from the node \<open>p\<close>, whose internal count is \<open>i\<close>, a chain of nodes with a value each, to the tail \<open>l\<close>, which has
  none; \<open>head\<close>'s external count is at most \<open>m\<close>.
\<close>

primrec qchain :: "'a lfqueue \<Rightarrow> 30 word \<Rightarrow> nat \<Rightarrow> ('a \<times> nat) list \<Rightarrow> nat \<Rightarrow> bool" where
  "qchain s i p [] l \<longleftrightarrow> p = l \<and> lq_data s p = None \<and> lq_next s p = (0, None) \<and> lq_count s p = (i, 2)"
| "qchain s i p (vq # rest) l \<longleftrightarrow>
     lq_data s p = Some (fst vq) \<and> lq_next s p = (1, Some (snd vq)) \<and> lq_count s p = (i, 1) \<and> qchain s 0 (snd vq) rest l"

definition at_rest :: "int \<Rightarrow> 'a lfqueue \<Rightarrow> 'a list \<Rightarrow> bool" where
  "at_rest m s xs \<longleftrightarrow>
     (\<forall>t. lq_pcs s t = QIdle) \<and> \<not> lq_fault s \<and> \<not> lq_overflow s \<and>
     (\<exists>h p rest l. h \<le> m \<and> lq_head s = (h, Some p) \<and> lq_tail s = (1, Some l) \<and> qchain s (1 - of_int h) p rest l \<and> map fst rest = xs \<and>
       distinct (p # map snd rest) \<and> set (p # map snd rest) \<inter> lq_freed s = {} \<and>
       set (p # map snd rest) \<union> lq_freed s = {..<lq_alloc s})"

lemma qchain_frame:
  "(\<And>n. n \<in> set (p # map snd rest) \<Longrightarrow> lq_data s' n = lq_data s n \<and> lq_next s' n = lq_next s n \<and> lq_count s' n = lq_count s n) \<Longrightarrow>
     qchain s' i p rest l = qchain s i p rest l"
  by (induction rest arbitrary: i p) auto

lemma qchain_last: "qchain s i p rest l \<Longrightarrow> l = last (p # map snd rest)"
  by (induction rest arbitrary: i p) auto

lemma qchain_end:
  "qchain s i p rest l \<Longrightarrow> lq_data s l = None \<and> lq_next s l = (0, None) \<and> (\<exists>j. lq_count s l = (j, 2))"
  by (induction rest arbitrary: i p) auto

lemma qchain_snoc:
  assumes "qchain s i p rest l" and "distinct (p # map snd rest)" and "n \<notin> set (p # map snd rest)"
    and "lq_data s' = (lq_data s)(n := None, l := Some v)" and "lq_next s' = (lq_next s)(n := (0, None), l := (1, Some n))"
    and "lq_count s' = (lq_count s)(n := (0, 2), l := (fst (lq_count s l), 1))"
  shows "qchain s' i p (rest @ [(v, n)]) n"
  using assms(1-3)
proof (induction rest arbitrary: i p)
  case Nil
  then show ?case using assms(4-6) by auto
next
  case (Cons vq rest)
  have "l \<in> set (snd vq # map snd rest)"
    using qchain_last [of s 0 "snd vq" rest l] Cons.prems(1) by (metis last_in_set list.distinct(1) qchain.simps(2))
  then have "p \<noteq> l" "p \<noteq> n" using Cons.prems(2,3) by auto
  then show ?case using Cons.IH [of 0 "snd vq"] Cons.prems assms(4-6) by auto
qed

lemma at_rest_new: "at_rest 1 lq_new []"
  by (auto simp: at_rest_def lq_new_def new_node_def intro!: exI [of _ "[]"])

lemma push_at_rest:
  assumes "at_rest m s xs"
  shows "at_rest m (lq_run_call t (QPush v) s) (xs @ [v])" and "lq_results (lq_run_call t (QPush v) s) = lq_results s"
proof -
  obtain h p rest l where idle: "\<forall>t. lq_pcs s t = QIdle" "\<not> lq_fault s" "\<not> lq_overflow s" and h: "h \<le> m" and ht: "lq_head s = (h, Some p)" "lq_tail s = (1, Some l)"
    and ch: "qchain s (1 - of_int h) p rest l" and xs: "map fst rest = xs" and d: "distinct (p # map snd rest)"
    and freed: "set (p # map snd rest) \<inter> lq_freed s = {}" and all: "set (p # map snd rest) \<union> lq_freed s = {..<lq_alloc s}"
    using assms by (auto simp: at_rest_def)
  obtain j where e: "lq_data s l = None" "lq_next s l = (0, None)" "lq_count s l = (j, 2)" using qchain_end [OF ch] by blast
  have "l \<in> set (p # map snd rest)" using qchain_last [OF ch] by (metis last_in_set list.distinct(1))
  then have l: "l < lq_alloc s" "l \<notin> lq_freed s" using all freed by auto
  note r = push_alone [OF _ ht(2) e l(2,1), of t v]
  define s' where "s' = lq_run_call t (QPush v) s"
  have fresh: "lq_alloc s \<notin> set (p # map snd rest)" "lq_alloc s \<notin> lq_freed s" using all by auto
  have "qchain s' (1 - of_int h) p (rest @ [(v, lq_alloc s)]) (lq_alloc s)"
    by (rule qchain_snoc [OF ch d fresh(1)]) (use r idle e in \<open>simp_all add: s'_def\<close>)
  moreover have "\<forall>u. lq_pcs s' u = QIdle" "\<not> lq_fault s'" "\<not> lq_overflow s'" "lq_head s' = (h, Some p)" "lq_tail s' = (1, Some (lq_alloc s))"
    "lq_freed s' = lq_freed s" "lq_alloc s' = Suc (lq_alloc s)"
    using r idle ht by (simp_all add: s'_def)
  ultimately show "at_rest m (lq_run_call t (QPush v) s) (xs @ [v])"
    unfolding s'_def [symmetric] at_rest_def
    using d fresh freed all xs h
    by (intro conjI exI [of _ h] exI [of _ p] exI [of _ "rest @ [(v, lq_alloc s)]"] exI [of _ "lq_alloc s"])
      (auto simp: lessThan_Suc)
  show "lq_results (lq_run_call t (QPush v) s) = lq_results s" using r idle by simp
qed

lemma pop_at_rest:
  assumes "at_rest m s xs" and m: "1 \<le> m" "m < int_max"
  shows "at_rest (m + 1) (lq_run_call t QPop s) (tl xs)"
    and "lq_results (lq_run_call t QPop s) = (t, if xs = [] then None else Some (hd xs)) # lq_results s"
proof -
  obtain h p rest l where idle: "\<forall>t. lq_pcs s t = QIdle" "\<not> lq_fault s" "\<not> lq_overflow s" and h: "h \<le> m" and ht: "lq_head s = (h, Some p)" "lq_tail s = (1, Some l)"
    and ch: "qchain s (1 - of_int h) p rest l" and xs: "map fst rest = xs" and d: "distinct (p # map snd rest)"
    and freed: "set (p # map snd rest) \<inter> lq_freed s = {}" and all: "set (p # map snd rest) \<union> lq_freed s = {..<lq_alloc s}"
    using assms(1) by (auto simp: at_rest_def)
  have small: "h < int_max" using h m by simp
  define s' where "s' = lq_run_call t QPop s"
  have p: "p \<notin> lq_freed s" using freed by auto
  have "at_rest (m + 1) s' (tl xs) \<and> lq_results s' = (t, if xs = [] then None else Some (hd xs)) # lq_results s"
  proof (cases rest)
    case Nil
    then have pl: "p = l" "lq_count s p = (1 - of_int h, 2)" using ch by auto
    note r = pop_empty_alone [OF _ ht(1) small _ pl(2) p, of t, folded s'_def]
    have "lq_head s' = (h + 1, Some p)" "lq_tail s' = (1, Some l)" "qchain s' (1 - of_int (h + 1)) p [] l"
      using r idle ht ch pl Nil by (simp_all add: algebra_simps)
    moreover have "\<forall>u. lq_pcs s' u = QIdle" "\<not> lq_fault s'" "\<not> lq_overflow s'" "lq_freed s' = lq_freed s" "lq_alloc s' = lq_alloc s" "h + 1 \<le> m + 1"
      "lq_results s' = (t, None) # lq_results s"
      using r idle ht pl h by simp_all
    ultimately show ?thesis using Nil xs freed all unfolding at_rest_def
      by (auto intro!: exI [of _ "[]"])
  next
    case (Cons vq rest')
    then have c: "lq_data s p = Some (fst vq)" "lq_next s p = (1, Some (snd vq))" "lq_count s p = (1 - of_int h, 1)"
      "qchain s 0 (snd vq) rest' l" using ch by auto
    have "l \<in> set (snd vq # map snd rest')" using qchain_last [OF c(4)] by (metis last_in_set list.distinct(1))
    then have pl: "p \<noteq> l" using d Cons by auto
    note r = pop_alone [OF _ ht(1) small _ c(2,3) p, of t, folded s'_def]
    have r': "\<forall>u. lq_pcs s' u = QIdle" "\<not> lq_fault s'" "lq_head s' = (1, Some (snd vq))" "lq_tail s' = (1, Some l)"
      "lq_data s' = (lq_data s)(p := None)" "lq_count s' = (lq_count s)(p := (0, 0))" "lq_next s' = lq_next s"
      "lq_freed s' = insert p (lq_freed s)" "lq_alloc s' = lq_alloc s" "lq_results s' = (t, Some (fst vq)) # lq_results s"
      "\<not> lq_overflow s'" using r idle ht pl c(1) by simp_all
    have "qchain s' 0 (snd vq) rest' l = qchain s 0 (snd vq) rest' l"
      by (rule qchain_frame) (use r' d Cons in auto)
    then have "qchain s' (1 - of_int 1) (snd vq) rest' l" using c(4) by simp
    moreover have "map fst rest' = tl xs" "hd xs = fst vq" "xs \<noteq> []" using xs Cons by auto
    moreover have "distinct (snd vq # map snd rest')" "set (snd vq # map snd rest') \<inter> lq_freed s' = {}"
      "set (snd vq # map snd rest') \<union> lq_freed s' = {..<lq_alloc s'}"
      using d freed all r'(8,9) Cons by auto
    ultimately show ?thesis using r'(1-4,10,11) m unfolding at_rest_def by auto
  qed
  then show "at_rest (m + 1) (lq_run_call t QPop s) (tl xs)"
    and "lq_results (lq_run_call t QPop s) = (t, if xs = [] then None else Some (hd xs)) # lq_results s"
    by (simp_all add: s'_def)
qed

lemma at_rest_mono: "at_rest m s xs \<Longrightarrow> m \<le> k \<Longrightarrow> at_rest k s xs"
  unfolding at_rest_def using order.trans [of _ m k] by blast

text \<open>Calls one after the other, by any threads, against a queue that is a list.\<close>

definition serial :: "(nat \<times> 'a lq_call) list \<Rightarrow> 'a lfqueue \<Rightarrow> 'a lfqueue" where
  "serial calls s = fold (\<lambda>(t, c). lq_run_call t c) calls s"

fun fifo_calls :: "(nat \<times> 'a lq_call) list \<Rightarrow> 'a list \<Rightarrow> (nat \<times> 'a option) list \<times> 'a list" where
  "fifo_calls [] xs = ([], xs)"
| "fifo_calls ((t, QPush v) # cs) xs = fifo_calls cs (xs @ [v])"
| "fifo_calls ((t, QPop) # cs) xs =
     (let (rs, ys) = fifo_calls cs (tl xs) in ((t, if xs = [] then None else Some (hd xs)) # rs, ys))"

lemma serial_at_rest:
  "at_rest m s xs \<Longrightarrow> 1 \<le> m \<Longrightarrow> m + int (length cs) \<le> int_max \<Longrightarrow>
     at_rest (m + int (length cs)) (serial cs s) (snd (fifo_calls cs xs)) \<and>
     rev (lq_results (serial cs s)) = rev (lq_results s) @ fst (fifo_calls cs xs)"
proof (induction cs xs arbitrary: s m rule: fifo_calls.induct)
  case (2 t v cs xs)
  note p = push_at_rest [OF 2(2), of t v]
  have "at_rest (m + 1) (lq_run_call t (QPush v) s) (xs @ [v])" using at_rest_mono [OF p(1)] by simp
  from 2(1) [OF this] show ?case using 2(3,4) p(2) by (simp add: serial_def algebra_simps)
next
  case (3 t cs xs)
  have m: "1 \<le> m" "m < int_max" using 3(3,4) by simp_all
  note p = pop_at_rest [OF 3(2) m, of t]
  show ?case using 3(1) [OF p(1)] 3(3,4) p(2) by (cases xs; cases "fifo_calls cs (tl xs)") (simp_all add: serial_def algebra_simps)
qed (simp add: serial_def)



text \<open>
  A \<open>pop\<close> that finds the queue empty raises \<open>head\<close>'s external count and leaves it so: after \<open>2^31 - 2\<close> of them the next one overflows the
  \<open>int\<close>.
\<close>

lemma empty_pops_count:
  "at_rest m s [] \<Longrightarrow> lq_head s = (h, Some p) \<Longrightarrow> snd (lq_tail s) = Some p \<Longrightarrow> h \<le> m \<Longrightarrow> 1 \<le> m \<Longrightarrow> h + int k \<le> int_max \<Longrightarrow> m + int k \<le> int_max \<Longrightarrow>
     lq_head (serial (replicate k (t, QPop)) s) = (h + int k, Some p)"
proof (induction k arbitrary: s h m)
  case (Suc k)
  have h: "h < int_max" "m < int_max" using Suc.prems(6,7) by simp_all
  let ?s = "lq_run_call t QPop s"
  have idle: "lq_pcs s t = QIdle" and c: "\<exists>i. lq_count s p = (i, 2)" and p: "p \<notin> lq_freed s"
    using Suc.prems(1-3) by (auto simp: at_rest_def)
  from c obtain i where "lq_count s p = (i, 2)" ..
  note r = pop_empty_alone [OF idle Suc.prems(2) h(1) Suc.prems(3) this p]
  have "at_rest (m + 1) ?s []" using pop_at_rest(1) [OF Suc.prems(1,5) h(2), of t] by simp
  from Suc.IH [OF this, of "h + 1"] show ?case using r Suc.prems by (simp add: serial_def algebra_simps)
qed (simp add: serial_def)

lemma lock_free_queue_empty_pops_overflow:
  fixes t :: nat
  defines "s \<equiv> serial (replicate (nat (int_max - 1)) (t, QPop)) (lq_new :: 'a lfqueue)"
  shows "lq_overflow (lq_run_call t QPop s)"
proof -
  have m: "int_max = 1 + int (nat (int_max - 1))" by (simp add: int_max_def)
  have "lq_head (lq_new :: 'a lfqueue) = (1, Some 0)" "snd (lq_tail (lq_new :: 'a lfqueue)) = Some 0"
    by (simp_all add: lq_new_def)
  from empty_pops_count [OF at_rest_new this, of "nat (int_max - 1)" t] have head: "lq_head s = (int_max, Some 0)"
    using m by (simp add: s_def)
  have "at_rest (1 + int (nat (int_max - 1))) s (snd (fifo_calls (replicate (nat (int_max - 1)) (t, QPop)) []))"
    unfolding s_def using serial_at_rest [OF at_rest_new, of "replicate (nat (int_max - 1)) (t, QPop :: 'a lq_call)"] m by simp
  then have "lq_pcs s t = QIdle" by (simp add: at_rest_def)
  then show ?thesis using head by (simp add: lq_run_call_def eval_nat_numeral increase_head_def)
qed

text \<open>The destructor: \<open>while (pop())\<close>, which makes so many calls, then the last node.\<close>

definition lq_destroy :: "nat \<Rightarrow> nat \<Rightarrow> 'a lfqueue \<Rightarrow> 'a lfqueue" where
  "lq_destroy t pops s =
     (let s' = serial (replicate pops (t, QPop)) s
      in case snd (lq_head s') of None \<Rightarrow> s' | Some p \<Rightarrow> delete_node p s')"

lemma fifo_pops: "snd (fifo_calls (replicate n (t, QPop)) xs) = drop n xs"
  by (induction n arbitrary: xs) (simp_all add: case_prod_beta drop_Suc)

lemma lock_free_queue_destructor_frees_all:
  assumes "at_rest m s xs" and "1 \<le> m" and "m + int (length xs) < int_max"
  shows "lq_freed (lq_destroy t (Suc (length xs)) s) = {..<lq_alloc (lq_destroy t (Suc (length xs)) s)}"
    and "\<not> lq_fault (lq_destroy t (Suc (length xs)) s)"
proof -
  let ?s = "serial (replicate (Suc (length xs)) (t, QPop)) s"
  have "at_rest (m + int (Suc (length xs))) ?s []"
    using serial_at_rest [OF assms(1,2), of "replicate (Suc (length xs)) (t, QPop)"] assms(3) by (simp only: fifo_pops) simp
  then obtain p where "snd (lq_head ?s) = Some p" "p \<notin> lq_freed ?s" "insert p (lq_freed ?s) = {..<lq_alloc ?s}" "\<not> lq_fault ?s"
    by (auto simp: at_rest_def)
  then show "lq_freed (lq_destroy t (Suc (length xs)) s) = {..<lq_alloc (lq_destroy t (Suc (length xs)) s)}"
    and "\<not> lq_fault (lq_destroy t (Suc (length xs)) s)"
    unfolding lq_destroy_def Let_def by (simp_all add: delete_node_def)
qed

section \<open>A value that is lost\<close>

text \<open>
  Thread 0 has raised the count of the tail node and is about to store its value; thread 1 pushes 10 there and pops it, which sets the
  node's data to null again; now thread 0's compare-exchange succeeds, on a node that is no longer in the queue.
\<close>

definition lost_value_run :: "nat lq_event list" where
  "lost_value_run =
     Call 0 (QPush 7) # replicate 2 (Run 0 True) @ Call 1 (QPush 10) # replicate 8 (Run 1 True) @
     Call 1 QPop # replicate 12 (Run 1 True) @ replicate 12 (Run 0 True) @ Call 1 QPop # replicate 12 (Run 1 True)"

text \<open>
  With two threads a value can be lost: after this run both threads have returned, 7 and 10 have been pushed, 10 has
  been popped, and the queue is empty: a further pop finds nothing.
\<close>

theorem lock_free_queue_loses_value:
  "let s = run_sched lq_step lost_value_run lq_new
   in lq_pcs s 0 = QIdle \<and> lq_pcs s 1 = QIdle \<and> rev (lq_results s) = [(1, Some 10), (1, None)] \<and> \<not> lq_fault s"
  by code_simp

end
