(* ===== verification/SmallPrograms.thy ===== *)
theory SmallPrograms
  imports Prelude
begin

text \<open>
  Small programs of C++_ConcurrencyInAction.

  \<^item> \<open>parallel_partial_sum\<close> and its \<open>barrier\<close> (designConcurrentCode/practice/parallelPartialSum.hpp);
  \<^item> guiResponsiveness.cpp: a worker that the user interface cancels;
  \<^item> sharedState.cpp (and taskBased.cpp, which has the same text): a producer and a consumer;
  \<^item> localQueuePool.hpp: \<open>submit\<close> and \<open>run_pending_task\<close> of a pool with a queue per thread.
\<close>

section \<open>parallel_partial_sum\<close>

text \<open>
  The position of a thread in its loop is the step and the stride.  \<open>WaitLoad\<close>, \<open>WaitDec\<close>, \<open>WaitSpaces\<close>, \<open>WaitGen\<close> and \<open>WaitSpin\<close>
  are the accesses of \<open>barrier::wait\<close>.
\<close>

datatype ps_pc =
    Compute nat nat bool
  | WaitLoad nat nat bool
  | WaitDec nat nat nat bool
  | WaitSpaces nat nat bool
  | WaitGen nat nat bool
  | WaitSpin nat nat nat bool
  | Finished

record 'a partial_sum =
  ps_elems :: "'a list"
  ps_buffer :: "'a list"
  ps_spaces :: nat
  ps_generation :: nat
  ps_pcs :: "nat \<Rightarrow> ps_pc"

definition ps_start :: "'a list \<Rightarrow> 'a list \<Rightarrow> 'a partial_sum" where
  "ps_start xs buffer =
     \<lparr>ps_elems = xs, ps_buffer = buffer, ps_spaces = length xs, ps_generation = 0, ps_pcs = (\<lambda>_. Compute 0 1 False)\<rparr>"

definition ps_go :: "nat \<Rightarrow> ps_pc \<Rightarrow> 'a partial_sum \<Rightarrow> 'a partial_sum" where
  "ps_go i pc s = s\<lparr>ps_pcs := (ps_pcs s)(i := pc)\<rparr>"

text \<open>The head of the loop of \<open>process_element\<close>, its addition, and what follows the loop.\<close>

definition process_element :: "nat \<Rightarrow> nat \<Rightarrow> nat \<Rightarrow> bool \<Rightarrow> ('a :: plus) partial_sum \<Rightarrow> 'a partial_sum" where
  "process_element i step stride update_source s =
     (if stride \<le> i then
        (if step mod 2 = 0
         then ps_go i (WaitLoad step stride True)
                (s\<lparr>ps_buffer := (ps_buffer s)[i := ps_elems s ! i + ps_elems s ! (i - stride)]\<rparr>)
         else ps_go i (WaitLoad step stride False)
                (s\<lparr>ps_elems := (ps_elems s)[i := ps_buffer s ! i + ps_buffer s ! (i - stride)]\<rparr>))
      else ps_go i Finished (if update_source then s\<lparr>ps_elems := (ps_elems s)[i := ps_buffer s ! i]\<rparr> else s))"

definition ps_step :: "nat \<Rightarrow> ('a :: plus) partial_sum \<Rightarrow> 'a partial_sum" where
  "ps_step i s =
     (if i < length (ps_elems s) then
        case ps_pcs s i of
          Compute step stride upd \<Rightarrow> process_element i step stride upd s
        | WaitLoad step stride upd \<Rightarrow> ps_go i (WaitDec (ps_generation s) step stride upd) s
        | WaitDec my step stride upd \<Rightarrow>
            (let spaces = ps_spaces s - 1
             in ps_go i (if spaces = 0 then WaitSpaces step stride upd else WaitSpin my step stride upd) (s\<lparr>ps_spaces := spaces\<rparr>))
        | WaitSpaces step stride upd \<Rightarrow> ps_go i (WaitGen step stride upd) (s\<lparr>ps_spaces := length (ps_elems s)\<rparr>)
        | WaitGen step stride upd \<Rightarrow>
            ps_go i (Compute (step + 1) (stride * 2) upd) (s\<lparr>ps_generation := ps_generation s + 1\<rparr>)
        | WaitSpin my step stride upd \<Rightarrow>
            if ps_generation s = my then s else ps_go i (Compute (step + 1) (stride * 2) upd) s
        | Finished \<Rightarrow> s
      else s)"

text \<open>In the first step: the thread 0 never waits, the others get no further than the spinning.\<close>

definition ps_stuck :: "nat \<Rightarrow> 'a partial_sum \<Rightarrow> bool" where
  "ps_stuck n s \<longleftrightarrow>
     length (ps_elems s) = n \<and> ps_generation s = 0 \<and> (ps_pcs s 0 = Compute 0 1 False \<or> ps_pcs s 0 = Finished) \<and>
     (\<forall>i. 0 < i \<longrightarrow> ps_pcs s i \<in> {Compute 0 1 False, WaitLoad 0 1 True, WaitDec 0 0 1 True, WaitSpin 0 0 1 True}) \<and>
     ps_spaces s + card {i. i < n \<and> ps_pcs s i = WaitSpin 0 0 1 True} = n"

lemma spinning_bound:
  assumes "ps_stuck n s" and "0 < n" and "0 < i" and "i < n" and "ps_pcs s i \<noteq> WaitSpin 0 0 1 True"
  shows "2 \<le> ps_spaces s"
proof -
  let ?S = "{j. j < n \<and> ps_pcs s j = WaitSpin 0 0 1 True}"
  have "?S \<subseteq> {..<n} - {0, i}" using assms(1,5) by (auto simp: ps_stuck_def)
  then have "card ?S \<le> card ({..<n} - {0, i})" by (rule card_mono [rotated]) simp
  also have "\<dots> = n - 2" using assms(2-4) by (subst card_Diff_subset) auto
  finally show ?thesis using assms(1-4) by (simp add: ps_stuck_def) linarith
qed

lemma ps_stuck_step:
  assumes "ps_stuck n s" and "0 < n"
  shows "ps_stuck n (ps_step i s)"
proof (cases "i < n")
  case True
  have len: "length (ps_elems s) = n" using assms(1) by (simp add: ps_stuck_def)
  let ?P = "\<lambda>pc. pc = WaitSpin 0 0 1 True"
  have same: "{j. j < n \<and> ?P (((ps_pcs s)(i := pc)) j)} = {j. j < n \<and> ?P (ps_pcs s j)}" if "\<not> ?P (ps_pcs s i)" "\<not> ?P pc" for pc
    using that by auto
  show ?thesis
  proof (cases "i = 0")
    case zero: True
    then have "ps_pcs s 0 = Compute 0 1 False \<or> ps_pcs s 0 = Finished" using assms(1) by (simp add: ps_stuck_def)
    then show ?thesis
    proof
      assume "ps_pcs s 0 = Compute 0 1 False"
      then show ?thesis using assms True len zero same [of Finished]
        by (simp add: ps_stuck_def ps_step_def process_element_def ps_go_def)
    next
      assume "ps_pcs s 0 = Finished"
      then show ?thesis using assms zero by (simp add: ps_step_def)
    qed
  next
    case False
    then have pc: "ps_pcs s i \<in> {Compute 0 1 False, WaitLoad 0 1 True, WaitDec 0 0 1 True, WaitSpin 0 0 1 True}"
      using assms(1) by (simp add: ps_stuck_def)
    consider "ps_pcs s i = Compute 0 1 False" | "ps_pcs s i = WaitLoad 0 1 True" | "ps_pcs s i = WaitDec 0 0 1 True"
      | "ps_pcs s i = WaitSpin 0 0 1 True" using pc by blast
    then show ?thesis
    proof cases
      case 1
      then show ?thesis using assms True False len same [of "WaitLoad 0 1 True"]
        by (simp add: ps_stuck_def ps_step_def process_element_def ps_go_def)
    next
      case 2
      then show ?thesis using assms True False len same [of "WaitDec 0 0 1 True"]
        by (simp add: ps_stuck_def ps_step_def ps_go_def)
    next
      case 3
      have two: "2 \<le> ps_spaces s" by (rule spinning_bound [OF assms _ True]) (use 3 False in simp_all)
      have "{j. j < n \<and> ?P (((ps_pcs s)(i := WaitSpin 0 0 1 True)) j)} = insert i {j. j < n \<and> ?P (ps_pcs s j)}" using True by auto
      then have "card {j. j < n \<and> ?P (((ps_pcs s)(i := WaitSpin 0 0 1 True)) j)} = Suc (card {j. j < n \<and> ?P (ps_pcs s j)})"
        using 3 by simp
      then show ?thesis using assms True False len 3 two
        by (simp add: ps_stuck_def ps_step_def ps_go_def Let_def)
    next
      case 4
      then show ?thesis using assms by (simp add: ps_stuck_def ps_step_def)
    qed
  qed
qed (use assms in \<open>simp add: ps_step_def ps_stuck_def\<close>)

text \<open>
  For two or more elements \<open>parallel_partial_sum\<close> never returns: the barrier is made for all threads, but the first
  one does not wait at all, so no schedule ever completes the first wait of any other thread, the calling thread included.
\<close>

theorem parallel_partial_sum_deadlocks:
  assumes "2 \<le> length xs" and "0 < i" and "i < length xs"
  shows "ps_pcs (run_sched ps_step es (ps_start xs buffer)) i \<noteq> Finished \<and>
    ps_generation (run_sched ps_step es (ps_start xs buffer)) = 0"
proof -
  have "ps_stuck (length xs) (ps_start xs buffer)" by (simp add: ps_stuck_def ps_start_def)
  then have "ps_stuck (length xs) (run_sched ps_step es (ps_start xs buffer))"
    using assms(1) by (induction es rule: rev_induct) (auto intro: ps_stuck_step)
  then have "ps_pcs (run_sched ps_step es (ps_start xs buffer)) i
      \<in> {Compute 0 1 False, WaitLoad 0 1 True, WaitDec 0 0 1 True, WaitSpin 0 0 1 True}"
    and "ps_generation (run_sched ps_step es (ps_start xs buffer)) = 0"
    using assms(2) by (simp_all add: ps_stuck_def)
  then show ?thesis by auto
qed

lemma parallel_partial_sum_deadlocks_witness:
  "ps_pcs (run_sched ps_step [0, 1, 2, 1, 2, 1, 2, 1] (ps_start [1, 2, 3 :: nat] [0, 0, 0])) 2 \<noteq> Finished"
  by (rule parallel_partial_sum_deadlocks [THEN conjunct1]) simp_all

section \<open>guiResponsiveness.cpp\<close>

datatype task_pc = NotSpawned | LoopHead | Sleeping | AfterLoop | StoreComplete | Ended bool \<comment> \<open>cancelled\<close>

datatype gui_pc = ClearCancel | ClearComplete | Spawn | Rendering nat | Cancel | Join | Closed

record gui =
  g_cancelled :: bool
  g_complete :: bool
  g_progress :: nat
  g_worker :: task_pc
  g_ui :: gui_pc
  g_at_cancel :: "nat option"  \<comment> \<open>ghost: the progress when Cancel was clicked\<close>

definition gui_start :: gui where
  "gui_start = \<lparr>g_cancelled = False, g_complete = False, g_progress = 0, g_worker = NotSpawned, g_ui = ClearCancel, g_at_cancel = None\<rparr>"

datatype gui_event = Ui | Worker

definition background_task :: "gui \<Rightarrow> gui" where
  "background_task s =
     (case g_worker s of
        LoopHead \<Rightarrow> s\<lparr>g_worker := (if g_progress s < 10 \<and> \<not> g_cancelled s then Sleeping else AfterLoop)\<rparr>
      | Sleeping \<Rightarrow> s\<lparr>g_progress := g_progress s + 1, g_worker := LoopHead\<rparr>
      | AfterLoop \<Rightarrow> s\<lparr>g_worker := (if g_cancelled s then Ended True else StoreComplete)\<rparr>
      | StoreComplete \<Rightarrow> s\<lparr>g_complete := True, g_worker := Ended False\<rparr>
      | _ \<Rightarrow> s)"

definition gui_thread :: "gui \<Rightarrow> gui" where
  "gui_thread s =
     (case g_ui s of
        ClearCancel \<Rightarrow> s\<lparr>g_cancelled := False, g_ui := ClearComplete\<rparr>
      | ClearComplete \<Rightarrow> s\<lparr>g_complete := False, g_ui := Spawn\<rparr>
      | Spawn \<Rightarrow> s\<lparr>g_worker := LoopHead, g_ui := Rendering 0\<rparr>
      | Rendering i \<Rightarrow> s\<lparr>g_ui := (if i < 3 then Rendering (i + 1) else Cancel)\<rparr>
      | Cancel \<Rightarrow> s\<lparr>g_cancelled := True, g_at_cancel := Some (g_progress s), g_ui := Join\<rparr>
      | Join \<Rightarrow> (case g_worker s of Ended c \<Rightarrow> s\<lparr>g_ui := Closed\<rparr> | _ \<Rightarrow> s)
      | Closed \<Rightarrow> s)"

definition gui_step :: "gui_event \<Rightarrow> gui \<Rightarrow> gui" where
  "gui_step e s = (case e of Ui \<Rightarrow> gui_thread s | Worker \<Rightarrow> background_task s)"

definition gui_inv :: "gui \<Rightarrow> bool" where
  "gui_inv s \<longleftrightarrow>
     (g_worker s = NotSpawned \<longleftrightarrow> g_ui s \<in> {ClearCancel, ClearComplete, Spawn}) \<and>
     (g_cancelled s \<longleftrightarrow> g_at_cancel s \<noteq> None) \<and> (g_at_cancel s \<noteq> None \<longleftrightarrow> g_ui s \<in> {Join, Closed}) \<and>
     g_progress s \<le> 10 \<and> (g_worker s = Sleeping \<longrightarrow> g_progress s < 10) \<and> (g_worker s = NotSpawned \<longrightarrow> g_progress s = 0) \<and>
     (g_worker s \<in> {AfterLoop, StoreComplete} \<longrightarrow> g_progress s = 10 \<or> g_cancelled s) \<and>
     (g_worker s = StoreComplete \<or> g_worker s = Ended False \<longrightarrow> g_progress s = 10) \<and>
     (g_complete s \<longleftrightarrow> g_worker s = Ended False) \<and> (g_ui s = Closed \<longrightarrow> (\<exists>c. g_worker s = Ended c)) \<and>
     (\<forall>k. g_at_cancel s = Some k \<longrightarrow> g_progress s \<le> k + (if g_worker s = Sleeping then 0 else 1))"

lemma gui_inv_step: "gui_inv s \<Longrightarrow> gui_inv (gui_step e s)"
proof (cases e)
  case Ui
  assume "gui_inv s"
  then show ?thesis unfolding Ui gui_step_def gui_event.case
    by (cases "g_ui s"; cases "g_worker s") (auto simp: gui_inv_def gui_thread_def)
next
  case Worker
  assume "gui_inv s"
  then show ?thesis unfolding Worker gui_step_def gui_event.case
    by (cases "g_worker s") (auto simp: gui_inv_def background_task_def split: if_splits)
qed

text \<open>
  After the click on Cancel the worker finishes at most the unit of work it is in; it reports completion exactly if it
  has done all ten units and saw no cancellation, and the application closes only after it has ended.
\<close>

theorem gui_cancel_is_prompt:
  assumes "s = run_sched gui_step es gui_start"
  shows "g_at_cancel s = Some k \<longrightarrow> g_progress s \<le> k + 1"
    and "g_complete s \<longleftrightarrow> g_worker s = Ended False" and "g_complete s \<longrightarrow> g_progress s = 10"
    and "g_ui s = Closed \<longrightarrow> (\<exists>c. g_worker s = Ended c)"
proof -
  have "gui_inv gui_start" by (simp add: gui_inv_def gui_start_def)
  then have "gui_inv s" unfolding assms by (induction es rule: rev_induct) (simp_all add: gui_inv_step)
  then show "g_at_cancel s = Some k \<longrightarrow> g_progress s \<le> k + 1"
    and "g_complete s \<longleftrightarrow> g_worker s = Ended False" and "g_complete s \<longrightarrow> g_progress s = 10"
    and "g_ui s = Closed \<longrightarrow> (\<exists>c. g_worker s = Ended c)"
    by (auto simp: gui_inv_def split: if_splits)
qed

lemma gui_cancel_is_prompt_witness:
  "g_progress (run_sched gui_step (replicate 3 Ui @ [Worker] @ replicate 5 Ui @ replicate 4 Worker) gui_start) \<le> 0 + 1"
proof -
  let ?s = "run_sched gui_step (replicate 3 Ui @ [Worker] @ replicate 5 Ui @ replicate 4 Worker) gui_start"
  have "g_at_cancel ?s = Some 0" by code_simp
  then show ?thesis using gui_cancel_is_prompt(1) [OF refl] by blast
qed

section \<open>sharedState.cpp\<close>

text \<open>Each step is a critical section; \<open>cv.wait\<close> with a predicate checks, and sleeps if the queue is empty.\<close>

datatype reader_pc = Checking | Asleep | Stopped

record shared_state =
  ss_queue :: "nat list"
  ss_produced :: nat
  ss_consumer :: reader_pc
  ss_consumed :: "nat list"

definition ss_start :: shared_state where
  "ss_start = \<lparr>ss_queue = [], ss_produced = 0, ss_consumer = Checking, ss_consumed = []\<rparr>"

datatype ss_event = Producer | Consumer | SpuriousWakeup

definition producer :: "shared_state \<Rightarrow> shared_state" where
  "producer s =
     (if ss_produced s < 5
      then s\<lparr>ss_queue := ss_queue s @ [ss_produced s], ss_produced := ss_produced s + 1,
             ss_consumer := (if ss_consumer s = Asleep then Checking else ss_consumer s)\<rparr>
      else s)"

definition consumer :: "shared_state \<Rightarrow> shared_state" where
  "consumer s =
     (if ss_consumer s = Checking then
        case ss_queue s of
          [] \<Rightarrow> s\<lparr>ss_consumer := Asleep\<rparr>
        | val # rest \<Rightarrow> s\<lparr>ss_queue := rest, ss_consumed := ss_consumed s @ [val],
                           ss_consumer := (if val = 4 then Stopped else Checking)\<rparr>
      else s)"

definition ss_step :: "ss_event \<Rightarrow> shared_state \<Rightarrow> shared_state" where
  "ss_step e s =
     (case e of
        Producer \<Rightarrow> producer s
      | Consumer \<Rightarrow> consumer s
      | SpuriousWakeup \<Rightarrow> if ss_consumer s = Asleep then s\<lparr>ss_consumer := Checking\<rparr> else s)"

definition ss_inv :: "shared_state \<Rightarrow> bool" where
  "ss_inv s \<longleftrightarrow>
     ss_consumed s @ ss_queue s = [0..<ss_produced s] \<and> ss_produced s \<le> 5 \<and> (ss_consumer s = Asleep \<longrightarrow> ss_queue s = []) \<and>
     (ss_consumer s = Stopped \<longleftrightarrow> 4 \<in> set (ss_consumed s))"

lemma ss_inv_step:
  assumes "ss_inv s"
  shows "ss_inv (ss_step e s)"
proof (cases e)
  case Producer
  then show ?thesis using assms by (auto simp: ss_inv_def ss_step_def producer_def)
next
  case Consumer
  then show ?thesis using assms by (cases "ss_queue s") (auto simp: ss_inv_def ss_step_def consumer_def)
next
  case SpuriousWakeup
  then show ?thesis using assms by (auto simp: ss_inv_def ss_step_def)
qed

text \<open>
  The consumer receives 0, 1, 2, ... in order, stops exactly after 4, that is with all five values and an
  empty queue, and until then the producer or the consumer can always move.
\<close>

theorem producer_consumer_delivers:
  assumes "s = run_sched ss_step es ss_start"
  shows "ss_consumed s = [0..<length (ss_consumed s)]"
    and "ss_consumer s = Stopped \<longrightarrow> ss_consumed s = [0, 1, 2, 3, 4] \<and> ss_queue s = []"
    and "ss_consumer s \<noteq> Stopped \<longrightarrow> producer s \<noteq> s \<or> (\<exists>val rest. ss_consumer s = Checking \<and> ss_queue s = val # rest)
      \<or> (ss_consumer s = Checking \<and> ss_produced s < 5)"
proof -
  have "ss_inv ss_start" by (simp add: ss_inv_def ss_start_def)
  then have inv: "ss_inv s" unfolding assms by (induction es rule: rev_induct) (simp_all add: ss_inv_step)
  then have all: "ss_consumed s @ ss_queue s = [0..<ss_produced s]" and five: "ss_produced s \<le> 5" by (simp_all add: ss_inv_def)
  show prefix: "ss_consumed s = [0..<length (ss_consumed s)]"
    using arg_cong [OF all, of "take (length (ss_consumed s))"] arg_cong [OF all, of length] by simp
  show "ss_consumer s = Stopped \<longrightarrow> ss_consumed s = [0, 1, 2, 3, 4] \<and> ss_queue s = []"
  proof
    assume "ss_consumer s = Stopped"
    then have "4 \<in> set (ss_consumed s)" using inv by (simp add: ss_inv_def)
    then have "4 < length (ss_consumed s)" by (subst (asm) prefix) simp
    moreover have "length (ss_consumed s) + length (ss_queue s) \<le> 5" using arg_cong [OF all, of length] five by simp
    ultimately have "length (ss_consumed s) = 5 \<and> length (ss_queue s) = 0" by linarith
    then show "ss_consumed s = [0, 1, 2, 3, 4] \<and> ss_queue s = []" by (subst prefix) (simp add: upt_rec eval_nat_numeral)
  qed
  show "ss_consumer s \<noteq> Stopped \<longrightarrow> producer s \<noteq> s \<or> (\<exists>val rest. ss_consumer s = Checking \<and> ss_queue s = val # rest)
      \<or> (ss_consumer s = Checking \<and> ss_produced s < 5)"
  proof (intro impI)
    assume run: "ss_consumer s \<noteq> Stopped"
    show "producer s \<noteq> s \<or> (\<exists>val rest. ss_consumer s = Checking \<and> ss_queue s = val # rest)
        \<or> (ss_consumer s = Checking \<and> ss_produced s < 5)"
    proof (cases "ss_produced s < 5")
      case True
      then have "ss_produced (producer s) \<noteq> ss_produced s" by (simp add: producer_def)
      then show ?thesis by metis
    next
      case False
      then have "ss_produced s = 5" using five by simp
      then have "4 \<in> set (ss_consumed s @ ss_queue s)" by (simp add: all)
      moreover have "4 \<notin> set (ss_consumed s)" using inv run by (simp add: ss_inv_def)
      ultimately have "ss_queue s \<noteq> []" by auto
      then show ?thesis using inv run by (cases "ss_consumer s"; cases "ss_queue s") (auto simp: ss_inv_def)
    qed
  qed
qed

lemma producer_consumer_delivers_witness:
  "ss_consumed (run_sched ss_step [Consumer, Producer, Producer, Consumer] ss_start) = [0..<1]"
proof -
  have "length (ss_consumed (run_sched ss_step [Consumer, Producer, Producer, Consumer] ss_start)) = 1"
    by (simp add: ss_step_def ss_start_def producer_def consumer_def)
  then show ?thesis using producer_consumer_delivers(1) [OF refl, of "[Consumer, Producer, Producer, Consumer]"] by simp
qed

section \<open>localQueuePool.hpp\<close>

text \<open>
  \<open>local_work_queue\<close> of each thread, null in threads outside the pool; \<open>lp_run\<close> lists the tasks run.
\<close>

record 'a local_pool =
  lp_local :: "nat \<Rightarrow> 'a list option"
  lp_pool :: "'a list"
  lp_run :: "'a list"

definition lp_submit :: "nat \<Rightarrow> 'a \<Rightarrow> 'a local_pool \<Rightarrow> 'a local_pool" where
  "lp_submit t task s =
     (case lp_local s t of
        Some q \<Rightarrow> s\<lparr>lp_local := (lp_local s)(t := Some (q @ [task]))\<rparr>
      | None \<Rightarrow> s\<lparr>lp_pool := lp_pool s @ [task]\<rparr>)"

definition run_pending_task :: "nat \<Rightarrow> 'a local_pool \<Rightarrow> 'a local_pool" where
  "run_pending_task t s =
     (case lp_local s t of
        Some (task # q) \<Rightarrow> s\<lparr>lp_local := (lp_local s)(t := Some q), lp_run := lp_run s @ [task]\<rparr>
      | _ \<Rightarrow>
          (case lp_pool s of
             task # q \<Rightarrow> s\<lparr>lp_pool := q, lp_run := lp_run s @ [task]\<rparr>
           | [] \<Rightarrow> s))"

datatype 'a lp_event = Submit nat 'a | RunPending nat

definition lp_step :: "'a lp_event \<Rightarrow> 'a local_pool \<Rightarrow> 'a local_pool" where
  "lp_step e s = (case e of Submit t task \<Rightarrow> lp_submit t task s | RunPending t \<Rightarrow> run_pending_task t s)"

text \<open>
  A task in a thread's local queue waits for that thread: whatever the other threads do, it stays there, in its order.
\<close>

theorem local_tasks_wait_for_their_thread:
  assumes "lp_local s t = Some q" and "\<forall>e \<in> set es. \<forall>task. e \<noteq> Submit t task \<and> e \<noteq> RunPending t"
  shows "lp_local (run_sched lp_step es s) t = Some q"
  using assms(2)
proof (induction es rule: rev_induct)
  case (snoc e es)
  then show ?case
    by (cases e) (auto simp: lp_step_def lp_submit_def run_pending_task_def split: option.splits list.splits)
qed (use assms(1) in simp)

lemma local_tasks_wait_for_their_thread_witness:
  "lp_local (run_sched lp_step [RunPending 1, RunPending 2] \<lparr>lp_local = [0 \<mapsto> [7 :: nat], 1 \<mapsto> []], lp_pool = [], lp_run = []\<rparr>) 0
     = Some [7]"
  by (rule local_tasks_wait_for_their_thread) simp_all

end
