(* ===== verification/PoolAlgorithms.thy ===== *)
theory PoolAlgorithms
  imports ThreadPool ParallelRanges
begin

text \<open>
  \<open>parallel_for_each\<close> and \<open>parallel_transform\<close> (modern_cpp_core/patterns/parallel_algorithms.hpp) on the
  \<open>JThreadPool\<close> of the theory \<open>ThreadPool\<close>: the calling thread submits one task per chunk and waits for the latch, while the
  workers, other threads and other tasks of the pool go on.  The chunks are those of the theory \<open>ParallelRanges\<close>.

  The call of the function on one element is a step; a task that has passed its last element counts the latch down and
  ends.  The caller is a thread outside the pool, with or without the index of a worker of another pool, or a task that
  a worker of this pool runs: \<open>execute\<close> treats them differently.
\<close>

section \<open>The call and the pool\<close>

datatype 'b pool_task = Chunk nat | Foreign 'b

datatype fe_caller = Outside nat "nat option" | InTask nat

datatype fe_pc = FeSubmit nat | FeNotify nat | FeWait | FeReturned

record 'b for_each_call =
  fe_pool :: "'b pool_task jpool"
  fe_latch :: nat
  fe_pc :: fe_pc
  fe_at :: "nat \<Rightarrow> nat"     \<comment> \<open>by worker: the elements of its chunk it has done\<close>
  fe_visited :: "nat list"  \<comment> \<open>the elements the function was applied to, in order\<close>

definition fe_start :: "nat \<Rightarrow> 'b pool_task jpool \<Rightarrow> 'b for_each_call" where
  "fe_start n p = \<lparr>fe_pool = p, fe_latch = n, fe_pc = FeSubmit 0, fe_at = (\<lambda>_. 0), fe_visited = []\<rparr>"

text \<open>\<open>get_worker_index\<close>, and what \<open>execute\<close> does behind its checks.\<close>

fun worker_index :: "fe_caller \<Rightarrow> nat option" where
  "worker_index (Outside c idx) = idx"
| "worker_index (InTask w) = Some w"

fun submit_event :: "fe_caller \<Rightarrow> 'a \<Rightarrow> 'a jp_event" where
  "submit_event (Outside c idx) f = Caller c idx f"
| "submit_event (InTask w) f = Nested w f"

fun notify_event :: "fe_caller \<Rightarrow> nat \<Rightarrow> 'a jp_event" where
  "notify_event (Outside c idx) choice = CallerNotify c choice"
| "notify_event (InTask w) choice = Worker w choice"

text \<open>The calling thread.  A task that \<open>execute\<close> refuses, because the pool shuts down, is dropped without notice.\<close>

definition fe_call :: "fe_caller \<Rightarrow> nat \<Rightarrow> nat \<Rightarrow> 'b for_each_call \<Rightarrow> 'b for_each_call" where
  "fe_call who n choice s =
     (case fe_pc s of
        FeSubmit i \<Rightarrow>
          if i < n then
            (case jp_enqueue (worker_index who) (Chunk i) (fe_pool s) of
               None \<Rightarrow> s
             | Some (p, accepted) \<Rightarrow>
                 if accepted then s\<lparr>fe_pool := jp_step (submit_event who (Chunk i)) (fe_pool s), fe_pc := FeNotify i\<rparr>
                 else s\<lparr>fe_pc := FeSubmit (Suc i)\<rparr>)
          else s\<lparr>fe_pc := FeWait\<rparr>
      | FeNotify i \<Rightarrow> s\<lparr>fe_pool := jp_step (notify_event who choice) (fe_pool s), fe_pc := FeSubmit (Suc i)\<rparr>
      | FeWait \<Rightarrow> if fe_latch s = 0 then s\<lparr>fe_pc := FeReturned\<rparr> else s
      | FeReturned \<Rightarrow> s)"

text \<open>A worker: the next element of its chunk, the end of the chunk, or a step of \<open>worker_loop\<close>.\<close>

definition fe_worker :: "nat list list \<Rightarrow> nat \<Rightarrow> nat \<Rightarrow> 'b for_each_call \<Rightarrow> 'b for_each_call" where
  "fe_worker ts i choice s =
     (case jp_w (fe_pool s) i of
        WRun (Chunk k) \<Rightarrow>
          if fe_at s i < length (ts ! k)
          then s\<lparr>fe_visited := fe_visited s @ [ts ! k ! fe_at s i], fe_at := (fe_at s)(i := Suc (fe_at s i))\<rparr>
          else s\<lparr>fe_latch := fe_latch s - 1, fe_at := (fe_at s)(i := 0), fe_pool := jp_step (Worker i choice) (fe_pool s)\<rparr>
      | _ \<Rightarrow> s\<lparr>fe_pool := jp_step (Worker i choice) (fe_pool s)\<rparr>)"

text \<open>The other threads and tasks do not take the caller's steps, nor submit its chunks.\<close>

fun is_foreign :: "'b pool_task \<Rightarrow> bool" where
  "is_foreign (Foreign g) = True"
| "is_foreign (Chunk k) = False"

fun outside_thread :: "fe_caller \<Rightarrow> nat option" where
  "outside_thread (Outside c idx) = Some c"
| "outside_thread (InTask w) = None"

fun from_others :: "fe_caller \<Rightarrow> 'b pool_task jp_event \<Rightarrow> bool" where
  "from_others who (Worker i choice) \<longleftrightarrow> who \<noteq> InTask i"
| "from_others who (Nested i f) \<longleftrightarrow> who \<noteq> InTask i \<and> is_foreign f"
| "from_others who (Caller c idx f) \<longleftrightarrow> outside_thread who \<noteq> Some c \<and> is_foreign f"
| "from_others who (CallerNotify c choice) \<longleftrightarrow> outside_thread who \<noteq> Some c"
| "from_others who (Spurious i) \<longleftrightarrow> True"
| "from_others who Destroy \<longleftrightarrow> True"

lemma is_foreign_iff [simp]: "is_foreign f \<longleftrightarrow> (\<exists>g. f = Foreign g)"
  by (cases f) simp_all

datatype 'b fe_event = TheCaller nat | Others "'b pool_task jp_event"

definition fe_step :: "fe_caller \<Rightarrow> nat \<Rightarrow> nat list list \<Rightarrow> 'b fe_event \<Rightarrow> 'b for_each_call \<Rightarrow> 'b for_each_call" where
  "fe_step who n ts e s =
     (case e of
        TheCaller choice \<Rightarrow> fe_call who n choice s
      | Others (Worker i choice) \<Rightarrow>
          if who \<noteq> InTask i \<and> i < workers (fe_pool s) then fe_worker ts i choice s else s
      | Others e \<Rightarrow> if from_others who e then s\<lparr>fe_pool := jp_step e (fe_pool s)\<rparr> else s)"

text \<open>The call can be made: an outside thread is not inside \<open>execute\<close>, a worker runs a task.\<close>

fun may_call :: "fe_caller \<Rightarrow> 'b pool_task jpool \<Rightarrow> bool" where
  "may_call (Outside c idx) p \<longleftrightarrow> c \<notin> jp_pending p"
| "may_call (InTask w) p \<longleftrightarrow> w < workers p \<and> (\<exists>g. jp_w p w = WRun (Foreign g))"

section \<open>Where the chunks are\<close>

fun chunk_of :: "'b pool_task \<Rightarrow> nat option" where
  "chunk_of (Chunk k) = Some k"
| "chunk_of (Foreign g) = None"

definition chunks :: "'b pool_task multiset \<Rightarrow> nat multiset" where
  "chunks M = image_mset (\<lambda>t. the (chunk_of t)) (filter_mset (\<lambda>t. chunk_of t \<noteq> None) M)"

lemma chunks_simps [simp]:
  "chunks {#} = {#}" "chunks (M + N) = chunks M + chunks N"
  "chunks (add_mset (Chunk k) M) = add_mset k (chunks M)" "chunks (add_mset (Foreign g) M) = chunks M"
  by (simp_all add: chunks_def)

text \<open>What the pool's steps do to the tasks: \<open>accepted\<close> grows by the task submitted, \<open>done\<close> by the one finished.\<close>

definition finishing :: "'a jp_event \<Rightarrow> 'a jpool \<Rightarrow> 'a multiset" where
  "finishing e p = (case e of Worker i choice \<Rightarrow>
     if i < workers p then (case jp_w p i of WRun f \<Rightarrow> {#f#} | _ \<Rightarrow> {#}) else {#} | _ \<Rightarrow> {#})"

lemma wake_one_fields [simp]:
  "jp_accepted (wake_one k p) = jp_accepted p" "jp_done (wake_one k p) = jp_done p" "jp_locals (wake_one k p) = jp_locals p"
  "jp_global (wake_one k p) = jp_global p" "jp_pending (wake_one k p) = jp_pending p" "jp_shutdown (wake_one k p) = jp_shutdown p"
  "jp_held (wake_one k p) = jp_held p" "jp_stop (wake_one k p) = jp_stop p" "jp_dtor (wake_one k p) = jp_dtor p"
  by (simp_all add: wake_one_def split: option.splits)

lemma wake_one_pcs: "jp_w (wake_one k p) j = jp_w p j \<or> jp_w p j = WSleep \<and> jp_w (wake_one k p) j = WPred"
  by (rule notify_cases [of k p]) auto

lemma wake_one_carried [simp]: "carried (jp_w (wake_one k p) j) = carried (jp_w p j)"
  using wake_one_pcs [of k p j] by auto

lemma worker_tasks:
  assumes "i < workers p"
  shows "jp_accepted (worker_loop i choice p) = jp_accepted p"
    and "mset (jp_done (worker_loop i choice p)) = mset (jp_done p) + finishing (Worker i choice) p"
    and "workers (worker_loop i choice p) = workers p" and "jp_pending (worker_loop i choice p) = jp_pending p"
  using assms by (auto simp: worker_loop.simps finishing_def Let_def split: worker_pc.splits list.splits)

lemma destroy_tasks:
  "jp_accepted (jp_destroy p) = jp_accepted p" "jp_done (jp_destroy p) = jp_done p" "workers (jp_destroy p) = workers p"
  "jp_pending (jp_destroy p) = jp_pending p"
  by (auto simp: jp_destroy.simps notify_all_def split: dtor_pc.splits)


lemma enqueue_tasks:
  assumes "jp_enqueue idx f p = Some (p', accepted)"
  shows "mset (jp_accepted p') = mset (jp_accepted p) + (if accepted then {#f#} else {#})" and "jp_done p' = jp_done p"
    and "workers p' = workers p" and "jp_w p' = jp_w p" and "jp_pending p' = jp_pending p"
  using assms by (auto simp: jp_enqueue_def split: option.splits if_splits)

lemma nested_cases:
  obtains "jp_step (Nested i f) p = p"
  | g p' where "jp_step (Nested i f) p = wgo i (WNotify g) p'" "i < workers p" "jp_w p i = WRun g"
      "jp_enqueue (Some i) f p = Some (p', True)"
proof (cases "\<exists>g p'. i < workers p \<and> jp_w p i = WRun g \<and> jp_enqueue (Some i) f p = Some (p', True)")
  case True
  then obtain g p' where g: "i < workers p" "jp_w p i = WRun g" "jp_enqueue (Some i) f p = Some (p', True)" by blast
  then have "jp_step (Nested i f) p = wgo i (WNotify g) p'" by simp
  from that(2) [OF this g] show thesis .
next
  case False
  then have "jp_step (Nested i f) p = p" by (auto split: worker_pc.splits option.splits prod.splits bool.splits)
  then show thesis by (rule that(1))
qed

lemma caller_cases:
  obtains "jp_step (Caller c idx f) p = p"
  | p' where "jp_step (Caller c idx f) p = p'\<lparr>jp_pending := insert c (jp_pending p')\<rparr>" "c \<notin> jp_pending p"
      "jp_enqueue idx f p = Some (p', True)"
proof (cases "c \<notin> jp_pending p \<and> (\<exists>p'. jp_enqueue idx f p = Some (p', True))")
  case True
  then obtain p' where c: "c \<notin> jp_pending p" "jp_enqueue idx f p = Some (p', True)" by blast
  then have "jp_step (Caller c idx f) p = p'\<lparr>jp_pending := insert c (jp_pending p')\<rparr>" by simp
  from that(2) [OF this c] show thesis .
next
  case False
  then have "jp_step (Caller c idx f) p = p" by (auto split: option.splits prod.splits bool.splits)
  then show thesis by (rule that(1))
qed

lemma step_workers: "workers (jp_step e p) = workers p"
proof (cases e)
  case (Nested i f)
  then show ?thesis by (simp only:) (rule nested_cases [of i f p]; auto dest: enqueue_tasks)
next
  case (Caller c idx f)
  then show ?thesis by (simp only:) (rule caller_cases [of c idx f p]; auto dest: enqueue_tasks)
qed (auto simp: worker_tasks destroy_tasks)

lemma step_done: "mset (jp_done (jp_step e p)) = mset (jp_done p) + finishing e p"
proof (cases e)
  case (Nested i f)
  then show ?thesis by (simp only: finishing_def) (rule nested_cases [of i f p]; auto dest: enqueue_tasks)
next
  case (Caller c idx f)
  then show ?thesis by (simp only: finishing_def) (rule caller_cases [of c idx f p]; auto dest: enqueue_tasks)
next
  case (Worker i choice)
  then show ?thesis by (cases "i < workers p") (simp_all add: worker_tasks finishing_def)
qed (auto simp: finishing_def destroy_tasks)

lemma others_accepted: "from_others who e \<Longrightarrow> chunks (mset (jp_accepted (jp_step e p))) = chunks (mset (jp_accepted p))"
proof (cases e)
  case (Nested i f)
  assume "from_others who e"
  then show ?thesis unfolding Nested by - (rule nested_cases [of i f p]; auto dest: enqueue_tasks)
next
  case (Caller c idx f)
  assume "from_others who e"
  then show ?thesis unfolding Caller by - (rule caller_cases [of c idx f p]; auto dest: enqueue_tasks)
qed (auto simp: worker_tasks destroy_tasks)

text \<open>What a worker carries changes when it finishes, and when it had nothing.\<close>

lemma step_carried:
  "carried (jp_w (jp_step e p) j) = carried (jp_w p j) \<or> carried (jp_w p j) = {#} \<or>
   (\<exists>choice f. e = Worker j choice \<and> j < workers p \<and> jp_w p j = WRun f \<and> jp_w (jp_step e p) j = WLoop)"
proof (cases e)
  case (Worker i choice)
  show ?thesis
  proof (cases "i < workers p \<and> j = i")
    case True
    then show ?thesis unfolding Worker
      by (auto simp: worker_loop.simps Let_def split: worker_pc.splits list.splits)
  next
    case False
    then have "carried (jp_w (jp_step e p) j) = carried (jp_w p j)" unfolding Worker
      by (auto simp: worker_loop.simps Let_def split: worker_pc.splits list.splits)
    then show ?thesis by blast
  qed
next
  case (Nested i f)
  show ?thesis unfolding Nested by (rule nested_cases [of i f p]) (auto dest: enqueue_tasks)
next
  case (Caller c idx f)
  show ?thesis unfolding Caller by (rule caller_cases [of c idx f p]) (auto dest: enqueue_tasks)
next
  case (CallerNotify c choice)
  show ?thesis unfolding CallerNotify using wake_one_pcs [of choice "p\<lparr>jp_pending := jp_pending p - {c}\<rparr>" j] by auto
next
  case Destroy
  have "jp_w (jp_destroy p) j = jp_w p j \<or> jp_w p j = WSleep"
    by (auto simp: jp_destroy.simps notify_all_def split: dtor_pc.splits)
  then show ?thesis unfolding Destroy by auto
qed auto

text \<open>The others leave the caller alone.\<close>

fun caller_at :: "fe_caller \<Rightarrow> 'b pool_task jpool \<Rightarrow> fe_pc \<Rightarrow> bool" where
  "caller_at (Outside c idx) p pc \<longleftrightarrow> (c \<in> jp_pending p \<longleftrightarrow> (\<exists>i. pc = FeNotify i))"
| "caller_at (InTask w) p pc \<longleftrightarrow> w < workers p \<and>
     (pc \<noteq> FeReturned \<longrightarrow> (\<exists>g. jp_w p w = (if \<exists>i. pc = FeNotify i then WNotify (Foreign g) else WRun (Foreign g))))"

lemma others_keep_pc: "from_others (InTask j) e \<Longrightarrow> jp_w p j \<noteq> WSleep \<Longrightarrow> jp_w (jp_step e p) j = jp_w p j"
proof (cases e)
  case (Worker i choice)
  assume "from_others (InTask j) e" and "jp_w p j \<noteq> WSleep"
  then show ?thesis using wake_one_pcs [of choice "wgo i x p" j for x] unfolding Worker
    by (auto simp: worker_loop.simps Let_def split: worker_pc.splits list.splits)
next
  case (Nested i f)
  assume "from_others (InTask j) e"
  then show ?thesis unfolding Nested by - (rule nested_cases [of i f p]; auto dest: enqueue_tasks)
next
  case (Caller c idx f)
  show ?thesis unfolding Caller by (rule caller_cases [of c idx f p]) (auto dest: enqueue_tasks)
next
  case (CallerNotify c choice)
  assume "jp_w p j \<noteq> WSleep"
  then show ?thesis unfolding CallerNotify using wake_one_pcs [of choice "p\<lparr>jp_pending := jp_pending p - {c}\<rparr>" j] by auto
next
  case Destroy
  assume "jp_w p j \<noteq> WSleep"
  then show ?thesis unfolding Destroy by (auto simp: jp_destroy.simps notify_all_def split: dtor_pc.splits)
qed auto

lemma others_pending: "from_others (Outside c idx) e \<Longrightarrow> c \<in> jp_pending (jp_step e p) \<longleftrightarrow> c \<in> jp_pending p"
proof (cases e)
  case (Nested i f)
  show ?thesis unfolding Nested by (rule nested_cases [of i f p]) (auto dest: enqueue_tasks)
next
  case (Caller d j f)
  assume "from_others (Outside c idx) e"
  then show ?thesis unfolding Caller by - (rule caller_cases [of d j f p]; auto dest: enqueue_tasks)
qed (auto simp: worker_tasks destroy_tasks)

lemma others_caller: "from_others who e \<Longrightarrow> caller_at who p pc \<Longrightarrow> caller_at who (jp_step e p) pc"
  by (cases who) (auto simp: others_pending step_workers others_keep_pc split: if_splits)

section \<open>The invariant\<close>

definition done_chunks :: "'b for_each_call \<Rightarrow> nat multiset" where
  "done_chunks s = chunks (mset (jp_done (fe_pool s)))"

definition partial :: "nat list list \<Rightarrow> 'b for_each_call \<Rightarrow> nat \<Rightarrow> nat multiset" where
  "partial ts s j = (\<Sum>k\<in>#chunks (carried (jp_w (fe_pool s) j)). mset (take (fe_at s j) (ts ! k)))"

fun submitted :: "nat \<Rightarrow> fe_pc \<Rightarrow> nat" where
  "submitted n (FeSubmit i) = min i n"
| "submitted n (FeNotify i) = min (Suc i) n"
| "submitted n _ = n"

definition fe_inv :: "nat \<Rightarrow> fe_caller \<Rightarrow> nat list list \<Rightarrow> 'b for_each_call \<Rightarrow> bool" where
  "fe_inv m who ts s \<longleftrightarrow>
     jp_inv m (fe_pool s) \<and> caller_at who (fe_pool s) (fe_pc s) \<and>
     chunks (mset (jp_accepted (fe_pool s))) \<subseteq># mset [0..<submitted (length ts) (fe_pc s)] \<and>
     fe_latch s + size (done_chunks s) = length ts \<and>
     mset (fe_visited s) = (\<Sum>k\<in>#done_chunks s. mset (ts ! k)) + (\<Sum>j<m. partial ts s j) \<and>
     (\<forall>j<m. chunks (carried (jp_w (fe_pool s) j)) = {#} \<longrightarrow> fe_at s j = 0) \<and>
     (fe_pc s = FeReturned \<longrightarrow> fe_latch s = 0)"

lemma partial_nothing: "chunks (carried (jp_w (fe_pool s) j)) = {#} \<Longrightarrow> partial ts s j = {#}"
  by (simp add: partial_def)

text \<open>A step of the pool in which no chunk ends leaves the elements visited as they are.\<close>

lemma partial_step:
  assumes keep: "carried (jp_w p j) = carried (jp_w (fe_pool s) j) \<or> carried (jp_w (fe_pool s) j) = {#}
      \<or> chunks (carried (jp_w (fe_pool s) j)) = {#} \<and> carried (jp_w p j) = {#}"
    and at: "chunks (carried (jp_w (fe_pool s) j)) = {#} \<longrightarrow> fe_at s j = 0"
  shows "partial ts (s\<lparr>fe_pool := p\<rparr>) j = partial ts s j"
    and "chunks (carried (jp_w p j)) = {#} \<longrightarrow> fe_at s j = 0"
  using keep at by (auto simp: partial_def)

lemma pool_moves:
  assumes inv: "fe_inv m who ts s" and p: "p = jp_step e (fe_pool s)"
    and fin: "chunks (finishing e (fe_pool s)) = {#}"
    and acc: "chunks (mset (jp_accepted p)) \<subseteq># mset [0..<submitted (length ts) pc]"
    and caller: "caller_at who p pc" and pc: "pc = FeReturned \<longrightarrow> fe_latch s = 0"
  shows "fe_inv m who ts (s\<lparr>fe_pool := p, fe_pc := pc\<rparr>)"
proof -
  have jin: "jp_inv m (fe_pool s)" and at: "\<And>j. j < m \<Longrightarrow> chunks (carried (jp_w (fe_pool s) j)) = {#} \<longrightarrow> fe_at s j = 0"
    using inv by (auto simp: fe_inv_def)
  have keep: "jp_inv m p" unfolding p by (rule pool_step_keeps [OF jin])
  have "done_chunks (s\<lparr>fe_pool := p\<rparr>) = done_chunks s" using fin by (simp add: done_chunks_def p step_done)
  moreover have "carried (jp_w p j) = carried (jp_w (fe_pool s) j) \<or> carried (jp_w (fe_pool s) j) = {#}
      \<or> chunks (carried (jp_w (fe_pool s) j)) = {#} \<and> carried (jp_w p j) = {#}" for j
  proof -
    have "chunks (carried (jp_w (fe_pool s) j)) = {#} \<and> carried (jp_w p j) = {#}"
      if "e = Worker j choice" "j < workers (fe_pool s)" "jp_w (fe_pool s) j = WRun f" "jp_w p j = WLoop" for choice f
      using fin that by (simp add: finishing_def)
    then show ?thesis using step_carried [of e "fe_pool s" j] unfolding p by blast
  qed
  note ps = partial_step [OF this at]
  have "(\<Sum>j<m. partial ts (s\<lparr>fe_pool := p\<rparr>) j) = (\<Sum>j<m. partial ts s j)" by (rule sum.cong) (simp_all add: ps(1))
  moreover have "partial ts (s\<lparr>fe_pool := p, fe_pc := pc\<rparr>) j = partial ts (s\<lparr>fe_pool := p\<rparr>) j" for j by (simp add: partial_def)
  moreover have "done_chunks (s\<lparr>fe_pool := p, fe_pc := pc\<rparr>) = done_chunks (s\<lparr>fe_pool := p\<rparr>)" by (simp add: done_chunks_def)
  ultimately show ?thesis using inv keep acc caller pc ps(2) by (simp add: fe_inv_def)
qed

lemma mset_upt_mono: "a \<le> b \<Longrightarrow> mset [0..<a] \<subseteq># mset [0..<b]"
  using upt_add_eq_append [of 0 a "b - a"] by simp

lemma pc_moves:
  assumes "fe_inv m who ts s" and "caller_at who (fe_pool s) pc"
    and "submitted (length ts) (fe_pc s) \<le> submitted (length ts) pc" and "pc = FeReturned \<longrightarrow> fe_latch s = 0"
  shows "fe_inv m who ts (s\<lparr>fe_pc := pc\<rparr>)"
proof -
  have "mset [0..<submitted (length ts) (fe_pc s)] \<subseteq># mset [0..<submitted (length ts) pc]"
    using assms(3) by (rule mset_upt_mono)
  then have "chunks (mset (jp_accepted (fe_pool s))) \<subseteq># mset [0..<submitted (length ts) pc]"
    using assms(1) unfolding fe_inv_def by (meson subset_mset.order_trans)
  then show ?thesis using assms by (simp add: fe_inv_def done_chunks_def partial_def)
qed

lemma submit_effect:
  assumes "caller_at who p (FeSubmit i)" and "jp_enqueue (worker_index who) f p = Some (p', True)"
  shows "mset (jp_accepted (jp_step (submit_event who f) p)) = add_mset f (mset (jp_accepted p))"
    and "caller_at who (jp_step (submit_event who f) p) (FeNotify i)"
    and "finishing (submit_event who f) p = {#}"
  using assms by (cases who; auto simp: finishing_def enqueue_tasks)+

lemma notify_effect:
  assumes "caller_at who p (FeNotify i)"
  shows "jp_accepted (jp_step (notify_event who choice) p) = jp_accepted p"
    and "caller_at who (jp_step (notify_event who choice) p) (FeSubmit j)"
    and "finishing (notify_event who choice) p = {#}"
proof -
  have "jp_accepted (jp_step (notify_event who choice) p) = jp_accepted p \<and>
      caller_at who (jp_step (notify_event who choice) p) (FeSubmit j) \<and> finishing (notify_event who choice) p = {#}"
  proof (cases who)
    case (InTask w)
    with assms obtain g where w: "w < workers p" "jp_w p w = WNotify (Foreign g)" by auto
    have "jp_w (wake_one choice (wgo w (WRun (Foreign g)) p)) w = WRun (Foreign g)"
      using wake_one_pcs [of choice "wgo w (WRun (Foreign g)) p" w] by auto
    then show ?thesis using w InTask by (simp add: finishing_def worker_loop.simps)
  qed (use assms in \<open>simp add: finishing_def\<close>)
  then show "jp_accepted (jp_step (notify_event who choice) p) = jp_accepted p"
    and "caller_at who (jp_step (notify_event who choice) p) (FeSubmit j)" and "finishing (notify_event who choice) p = {#}"
    by simp_all
qed

lemma call_keeps:
  assumes inv: "fe_inv m who ts s"
  shows "fe_inv m who ts (fe_call who (length ts) choice s)"
proof -
  have caller: "caller_at who (fe_pool s) (fe_pc s)"
    and acc: "chunks (mset (jp_accepted (fe_pool s))) \<subseteq># mset [0..<submitted (length ts) (fe_pc s)]"
    using inv by (simp_all add: fe_inv_def)
  have same: "caller_at who (fe_pool s) pc" if "\<And>i. fe_pc s \<noteq> FeNotify i" "\<And>i. pc \<noteq> FeNotify i" "fe_pc s \<noteq> FeReturned" for pc
    using caller that by (cases who) auto
  show ?thesis
  proof (cases "fe_pc s")
    case (FeSubmit i)
    show ?thesis
    proof (cases "i < length ts")
      case True
      let ?q = "jp_enqueue (worker_index who) (Chunk i) (fe_pool s)"
      consider (blocked) "?q = None" | (refused) p where "?q = Some (p, False)" | (taken) p where "?q = Some (p, True)"
        by (cases ?q; simp) (metis (full_types) surj_pair)
      then show ?thesis
      proof cases
        case blocked
        then show ?thesis using inv FeSubmit True by (simp add: fe_call_def)
      next
        case refused
        then show ?thesis using FeSubmit True pc_moves [OF inv same [of "FeSubmit (Suc i)"]] by (simp add: fe_call_def)
      next
        case taken
        have at: "caller_at who (fe_pool s) (FeSubmit i)" using caller FeSubmit by simp
        note eff = submit_effect [OF at taken]
        have "mset [0..<submitted (length ts) (FeNotify i)] = add_mset i (mset [0..<submitted (length ts) (fe_pc s)])"
          using True FeSubmit by (simp add: min_def)
        then have "fe_inv m who ts (s\<lparr>fe_pool := jp_step (submit_event who (Chunk i)) (fe_pool s), fe_pc := FeNotify i\<rparr>)"
          by (intro pool_moves [OF inv refl]) (use eff acc in simp_all)
        then show ?thesis using FeSubmit True taken by (simp add: fe_call_def)
      qed
    next
      case False
      then show ?thesis using FeSubmit pc_moves [OF inv same [of FeWait]] by (simp add: fe_call_def)
    qed
  next
    case (FeNotify i)
    have at: "caller_at who (fe_pool s) (FeNotify i)" using caller FeNotify by simp
    have "fe_inv m who ts (s\<lparr>fe_pool := jp_step (notify_event who choice) (fe_pool s), fe_pc := FeSubmit (Suc i)\<rparr>)"
      by (intro pool_moves [OF inv refl]) (use notify_effect [OF at] acc FeNotify in simp_all)
    then show ?thesis using FeNotify by (simp add: fe_call_def)
  next
    case FeWait
    then show ?thesis using inv pc_moves [OF inv same [of FeReturned]] by (simp add: fe_call_def)
  qed (use inv in \<open>simp add: fe_call_def\<close>)
qed

lemma sum_one:
  fixes f g :: "nat \<Rightarrow> 'a :: comm_monoid_add"
  assumes "i < m" and "\<And>j. j \<noteq> i \<Longrightarrow> g j = f j"
  shows "(\<Sum>j<m. g j) + f i = (\<Sum>j<m. f j) + g i"
proof -
  have "(\<Sum>j<m. h j) = h i + (\<Sum>j\<in>{..<m} - {i}. h j)" for h :: "nat \<Rightarrow> 'a"
    by (rule sum.remove) (use assms(1) in simp_all)
  moreover have "(\<Sum>j\<in>{..<m} - {i}. g j) = (\<Sum>j\<in>{..<m} - {i}. f j)" using assms(2) by (intro sum.cong) simp_all
  ultimately show ?thesis by (simp add: ac_simps)
qed

lemma worker_element:
  assumes inv: "fe_inv m who ts s" and i: "i < m" and w: "jp_w (fe_pool s) i = WRun (Chunk k)" and at: "fe_at s i < length (ts ! k)"
  shows "fe_inv m who ts (s\<lparr>fe_visited := fe_visited s @ [ts ! k ! fe_at s i], fe_at := (fe_at s)(i := Suc (fe_at s i))\<rparr>)"
    (is "fe_inv m who ts ?s")
proof -
  have "partial ts ?s i = add_mset (ts ! k ! fe_at s i) (partial ts s i)"
    using w at by (simp add: partial_def take_Suc_conv_app_nth)
  moreover have "partial ts ?s j = partial ts s j" if "j \<noteq> i" for j using that by (simp add: partial_def)
  ultimately have "(\<Sum>j<m. partial ts ?s j) = add_mset (ts ! k ! fe_at s i) (\<Sum>j<m. partial ts s j)"
    using sum_one [of i m "partial ts ?s" "partial ts s"] i by simp
  then show ?thesis using inv w by (simp add: fe_inv_def done_chunks_def)
qed

lemma worker_chunk_ends:
  assumes inv: "fe_inv m who ts s" and i: "i < m" and who: "who \<noteq> InTask i"
    and w: "jp_w (fe_pool s) i = WRun (Chunk k)" and at: "length (ts ! k) \<le> fe_at s i"
  shows "fe_inv m who ts (s\<lparr>fe_latch := fe_latch s - 1, fe_at := (fe_at s)(i := 0), fe_pool := jp_step (Worker i choice) (fe_pool s)\<rparr>)"
    (is "fe_inv m who ts ?s")
proof -
  let ?p = "jp_step (Worker i choice) (fe_pool s)"
  have jin: "jp_inv m (fe_pool s)" and caller: "caller_at who (fe_pool s) (fe_pc s)"
    and acc: "chunks (mset (jp_accepted (fe_pool s))) \<subseteq># mset [0..<submitted (length ts) (fe_pc s)]"
    using inv by (simp_all add: fe_inv_def)
  have keep: "jp_inv m ?p" by (rule pool_step_keeps [OF jin])
  have m: "i < workers (fe_pool s)" using i jin by (simp add: jp_inv_def)
  have p: "?p = wgo i WLoop (fe_pool s\<lparr>jp_done := jp_done (fe_pool s) @ [Chunk k]\<rparr>)"
    using w m by (simp add: worker_loop.simps)
  have d: "done_chunks ?s = add_mset k (done_chunks s)" using p by (simp add: done_chunks_def)
  have "size (done_chunks ?s) \<le> length ts"
  proof -
    have "done_chunks ?s \<subseteq># chunks (mset (jp_accepted ?p))" using keep by (simp add: jp_inv_def done_chunks_def)
    also have "chunks (mset (jp_accepted ?p)) \<subseteq># mset [0..<submitted (length ts) (fe_pc s)]" using acc p by simp
    finally have "size (done_chunks ?s) \<le> submitted (length ts) (fe_pc s)" by (drule_tac size_mset_mono) simp
    also have "\<dots> \<le> length ts" by (cases "fe_pc s") simp_all
    finally show ?thesis .
  qed
  then have latch: "fe_latch ?s + size (done_chunks ?s) = length ts" using inv d by (simp add: fe_inv_def)
  have "partial ts s i = mset (ts ! k)" using w at by (simp add: partial_def)
  moreover have "partial ts ?s i = {#}" using p by (simp add: partial_def)
  moreover have "partial ts ?s j = partial ts s j" if "j \<noteq> i" for j using that p by (simp add: partial_def)
  ultimately have "(\<Sum>j<m. partial ts ?s j) + mset (ts ! k) = (\<Sum>j<m. partial ts s j)"
    using sum_one [of i m "partial ts ?s" "partial ts s"] i by simp
  then have "mset (fe_visited ?s) = (\<Sum>k\<in>#done_chunks ?s. mset (ts ! k)) + (\<Sum>j<m. partial ts ?s j)"
    using inv d by (simp add: fe_inv_def ac_simps)
  moreover have "caller_at who ?p (fe_pc s)" using who by (intro others_caller [OF _ caller]) simp
  moreover have "\<forall>j<m. chunks (carried (jp_w ?p j)) = {#} \<longrightarrow> fe_at ?s j = 0" using inv p by (simp add: fe_inv_def)
  moreover have "chunks (mset (jp_accepted ?p)) = chunks (mset (jp_accepted (fe_pool s)))" using p by simp
  ultimately show ?thesis using inv keep latch by (simp add: fe_inv_def)
qed

lemma others_keep:
  assumes inv: "fe_inv m who ts s" and e: "from_others who e" and fin: "chunks (finishing e (fe_pool s)) = {#}"
  shows "fe_inv m who ts (s\<lparr>fe_pool := jp_step e (fe_pool s)\<rparr>)"
proof -
  have "fe_inv m who ts (s\<lparr>fe_pool := jp_step e (fe_pool s), fe_pc := fe_pc s\<rparr>)"
    by (rule pool_moves [OF inv refl fin])
      (use inv e in \<open>simp_all add: fe_inv_def others_accepted others_caller\<close>)
  then show ?thesis by simp
qed

lemma worker_keeps_call:
  assumes inv: "fe_inv m who ts s" and i: "i < workers (fe_pool s)" and who: "who \<noteq> InTask i"
  shows "fe_inv m who ts (fe_worker ts i choice s)"
proof -
  have m: "i < m" using inv i by (simp add: fe_inv_def jp_inv_def)
  show ?thesis
  proof (cases "\<exists>k. jp_w (fe_pool s) i = WRun (Chunk k)")
    case True
    then obtain k where k: "jp_w (fe_pool s) i = WRun (Chunk k)" by blast
    then show ?thesis
      using worker_element [OF inv m k] worker_chunk_ends [OF inv m who k, of choice] by (simp add: fe_worker_def)
  next
    case False
    then have step: "fe_worker ts i choice s = s\<lparr>fe_pool := jp_step (Worker i choice) (fe_pool s)\<rparr>"
      by (auto simp: fe_worker_def split: worker_pc.splits pool_task.splits)
    have "chunks (finishing (Worker i choice) (fe_pool s)) = {#}" using False
      by (auto simp: finishing_def split: worker_pc.splits) (metis chunks_simps(1,4) pool_task.exhaust)
    then show ?thesis unfolding step using who by (intro others_keep [OF inv]) simp_all
  qed
qed

lemma fe_step_keeps: "fe_inv m who ts s \<Longrightarrow> fe_inv m who ts (fe_step who (length ts) ts e s)"
  by (cases e) (auto simp: fe_step_def call_keeps worker_keeps_call finishing_def
      intro: others_keep split: jp_event.splits simp del: jp_step.simps)

interpretation fe: interleaving "fe_step who (length ts) ts" "fe_inv m who ts"
  for who ts m
  by unfold_locales (rule fe_step_keeps)

lemma fe_start_inv:
  assumes "jp_inv m p" and "chunks (mset (jp_accepted p)) = {#}" and "may_call who p"
  shows "fe_inv m who ts (fe_start (length ts) p)"
proof -
  have "chunks (mset (jp_done p)) + chunks (queued p) + chunks (in_flight p) = {#}"
    using assms(1,2) by (simp add: jp_inv_def)
  then have none: "chunks (mset (jp_done p)) = {#}" "chunks (in_flight p) = {#}" by simp_all
  have carried: "chunks (carried (jp_w p j)) = {#}" if "j < m" for j
  proof -
    have "carried (jp_w p j) \<subseteq># in_flight p"
      using that assms(1) by (auto simp: in_flight_def jp_inv_def sum.remove [of "{..<m}" j])
    then obtain R where "in_flight p = carried (jp_w p j) + R" by (auto simp: subset_mset.le_iff_add)
    then show ?thesis using none(2) by simp
  qed
  have "caller_at who p (FeSubmit 0)" using assms(3) by (cases who) auto
  then show ?thesis using assms(1,2) none carried
    by (simp add: fe_inv_def fe_start_def done_chunks_def partial_def)
qed

section \<open>Each element once\<close>












section \<open>The call can always be completed\<close>

text \<open>The pool is not being destroyed; callers have no worker index.\<close>

definition calm :: "'a jpool \<Rightarrow> bool" where
  "calm p \<longleftrightarrow> \<not> jp_shutdown p \<and> \<not> jp_held p"

definition undisturbed :: "'a jp_event \<Rightarrow> bool" where
  "undisturbed e \<longleftrightarrow> indexless e \<and> e \<noteq> Destroy"

fun orderly :: "'b fe_event \<Rightarrow> bool" where
  "orderly (TheCaller choice) \<longleftrightarrow> True"
| "orderly (Others e) \<longleftrightarrow> undisturbed e"

text \<open>Steps of the caller, of the workers, and of threads that still have to notify.\<close>

fun own_step :: "'b fe_event \<Rightarrow> bool" where
  "own_step (TheCaller choice) \<longleftrightarrow> True"
| "own_step (Others e) \<longleftrightarrow> (case e of Worker i choice \<Rightarrow> True | CallerNotify c choice \<Rightarrow> True | _ \<Rightarrow> False)"

lemma own_orderly: "own_step e \<Longrightarrow> orderly e"
  by (cases e) (auto simp: undisturbed_def split: jp_event.splits)

lemma enqueue_calm:
  assumes "jp_enqueue idx f p = Some (p', accepted)"
  shows "jp_shutdown p' = jp_shutdown p" and "jp_held p' = jp_held p" and "calm p \<Longrightarrow> accepted"
  using assms by (auto simp: jp_enqueue_def calm_def split: option.splits if_splits)

lemma calm_step:
  assumes "calm p" and "e \<noteq> Destroy"
  shows "calm (jp_step e p)"
proof (cases e)
  case (Worker i choice)
  then show ?thesis using assms
    by (auto simp: calm_def worker_loop.simps Let_def split: worker_pc.splits list.splits)
next
  case (Nested i f)
  show ?thesis unfolding Nested
    by (rule nested_cases [of i f p]) (use assms in \<open>auto simp: calm_def dest: enqueue_calm\<close>)
next
  case (Caller c idx f)
  show ?thesis unfolding Caller
    by (rule caller_cases [of c idx f p]) (use assms in \<open>auto simp: calm_def dest: enqueue_calm\<close>)
qed (use assms in \<open>auto simp: calm_def\<close>)

definition fe_live :: "nat \<Rightarrow> nat \<Rightarrow> nat list list \<Rightarrow> 'b for_each_call \<Rightarrow> bool" where
  "fe_live m c ts s \<longleftrightarrow> fe_inv m (Outside c None) ts s \<and> woken_inv m (fe_pool s) \<and> calm (fe_pool s) \<and>
     chunks (mset (jp_accepted (fe_pool s))) = mset [0..<submitted (length ts) (fe_pc s)]"

abbreviation outside_step :: "nat \<Rightarrow> nat list list \<Rightarrow> 'b fe_event \<Rightarrow> 'b for_each_call \<Rightarrow> 'b for_each_call" where
  "outside_step c ts \<equiv> fe_step (Outside c None) (length ts) ts"

lemma outside_accepts: "calm p \<Longrightarrow> \<exists>p'. jp_enqueue None f p = Some (p', True)"
  by (auto simp: jp_enqueue_def calm_def)

text \<open>The steps of the call on its pool are steps of the pool, or only move on in a chunk.\<close>

lemma fe_worker_pool:
  assumes "i < workers (fe_pool s)"
  shows "fe_pool (fe_worker ts i choice s) = fe_pool s \<or> fe_pool (fe_worker ts i choice s) = jp_step (Worker i choice) (fe_pool s)"
    and "fe_pc (fe_worker ts i choice s) = fe_pc s"
  by (auto simp: fe_worker_def split: worker_pc.splits pool_task.splits)

lemma call_live:
  assumes live: "fe_live m c ts s"
  shows "fe_live m c ts (fe_call (Outside c None) (length ts) choice s)"
proof -
  have inv: "fe_inv m (Outside c None) ts s" and w: "woken_inv m (fe_pool s)" and calm: "calm (fe_pool s)"
    and acc: "chunks (mset (jp_accepted (fe_pool s))) = mset [0..<submitted (length ts) (fe_pc s)]"
    using live by (auto simp: fe_live_def)
  have keep: "fe_inv m (Outside c None) ts (fe_call (Outside c None) (length ts) choice s)" by (rule call_keeps [OF inv])
  show ?thesis
  proof (cases "\<exists>i. fe_pc s = FeSubmit i \<and> i < length ts")
    case True
    then obtain i where i: "fe_pc s = FeSubmit i" "i < length ts" by blast
    obtain p' where p': "jp_enqueue None (Chunk i) (fe_pool s) = Some (p', True)" using outside_accepts [OF calm] by blast
    let ?p = "jp_step (Caller c None (Chunk i)) (fe_pool s)"
    have step: "fe_call (Outside c None) (length ts) choice s = s\<lparr>fe_pool := ?p, fe_pc := FeNotify i\<rparr>"
      using i p' by (simp add: fe_call_def)
    have at: "caller_at (Outside c None) (fe_pool s) (FeSubmit i)" using inv i by (simp add: fe_inv_def)
    have "mset (jp_accepted ?p) = add_mset (Chunk i) (mset (jp_accepted (fe_pool s)))"
      using submit_effect(1) [OF at, of "Chunk i" p'] p' by simp
    then have "chunks (mset (jp_accepted ?p)) = mset [0..<submitted (length ts) (FeNotify i)]" using acc i by (simp add: min_def)
    moreover have "woken_inv m ?p" by (rule woken_step [OF w]) simp
    moreover have "calm ?p" by (rule calm_step [OF calm]) simp
    ultimately show ?thesis using keep unfolding step by (simp add: fe_live_def)
  next
    case False
    have "woken_inv m (jp_step (CallerNotify c choice) (fe_pool s))" by (rule woken_step [OF w]) simp
    moreover have "calm (jp_step (CallerNotify c choice) (fe_pool s))" by (rule calm_step [OF calm]) simp
    moreover have "submitted (length ts) (FeSubmit (Suc i)) = submitted (length ts) (FeNotify i)" for i by simp
    ultimately show ?thesis using False keep w calm acc
      by (auto simp: fe_live_def fe_call_def split: fe_pc.splits)
  qed
qed

lemma live_step:
  assumes live: "fe_live m c ts s" and e: "orderly e"
  shows "fe_live m c ts (outside_step c ts e s)"
proof (cases e)
  case (TheCaller choice)
  then show ?thesis using call_live [OF live] by (simp add: fe_step_def)
next
  case (Others f)
  have inv: "fe_inv m (Outside c None) ts s" and w: "woken_inv m (fe_pool s)" and calm: "calm (fe_pool s)"
    and acc: "chunks (mset (jp_accepted (fe_pool s))) = mset [0..<submitted (length ts) (fe_pc s)]"
    using live by (auto simp: fe_live_def)
  have f: "indexless f" "f \<noteq> Destroy" using e Others by (simp_all add: undisturbed_def)
  have keep: "fe_inv m (Outside c None) ts (outside_step c ts e s)" by (rule fe_step_keeps [OF inv])
  have pool: "fe_pool (outside_step c ts e s) = fe_pool s \<or>
      fe_pool (outside_step c ts e s) = jp_step f (fe_pool s) \<and> from_others (Outside c None) f"
    unfolding Others fe_step_def using fe_worker_pool by (auto split: jp_event.splits simp del: jp_step.simps)
  moreover have "fe_pc (outside_step c ts e s) = fe_pc s"
    unfolding Others fe_step_def using fe_worker_pool by (auto split: jp_event.splits simp del: jp_step.simps)
  moreover have "woken_inv m (jp_step f (fe_pool s))" by (rule woken_step [OF w f(1)])
  moreover have "calm (jp_step f (fe_pool s))" by (rule calm_step [OF calm f(2)])
  ultimately show ?thesis using keep w calm acc others_accepted [of "Outside c None" f "fe_pool s"]
    unfolding fe_live_def by metis
qed

lemma live_run: "fe_live m c ts s \<Longrightarrow> list_all orderly es \<Longrightarrow> fe_live m c ts (run_sched (outside_step c ts) es s)"
  by (induction es arbitrary: s) (simp_all add: live_step)

text \<open>The tasks that are not finished.\<close>

definition tasks_left :: "'a jpool \<Rightarrow> nat" where
  "tasks_left p = size (queued p) + size (in_flight p)"

lemma tasks_left_eq: "jp_inv m p \<Longrightarrow> size (mset (jp_accepted p)) = size (mset (jp_done p)) + tasks_left p"
  by (simp add: jp_inv_def tasks_left_def)

lemma worker_step_left:
  assumes "jp_inv m p" and "i < m"
  shows "tasks_left p = tasks_left (jp_step (Worker i choice) p) + size (finishing (Worker i choice) p)"
proof -
  have "jp_inv m (jp_step (Worker i choice) p)" by (rule pool_step_keeps [OF assms(1)])
  moreover have "jp_accepted (jp_step (Worker i choice) p) = jp_accepted p"
    using assms by (simp add: worker_tasks jp_inv_def)
  moreover have "size (mset (jp_done (jp_step (Worker i choice) p))) = size (mset (jp_done p)) + size (finishing (Worker i choice) p)"
    unfolding step_done by simp
  ultimately show ?thesis using tasks_left_eq [OF assms(1)] tasks_left_eq [of m "jp_step (Worker i choice) p"] by simp
qed

text \<open>An awake worker that finds its wait predicate true takes a task within finitely many steps.\<close>

definition rank :: "'a jpool \<Rightarrow> nat \<Rightarrow> nat" where
  "rank p i =
     (case jp_w p i of
        WLocal \<Rightarrow> if jp_locals p ! i \<noteq> [] then 1 else 2
      | WGlobal \<Rightarrow> if jp_global p \<noteq> [] then 1 else workers p + 10
      | WLoop \<Rightarrow> 3
      | WPred \<Rightarrow> 4
      | WSteal k \<Rightarrow> 5 + (workers p - k)
      | _ \<Rightarrow> 0)"

definition searching :: "'a jpool \<Rightarrow> nat \<Rightarrow> bool" where
  "searching p i \<longleftrightarrow> i < workers p \<and> calm p \<and> jp_stop p = {} \<and> wait_pred i p \<and>
     (case jp_w p i of WLoop \<Rightarrow> True | WLocal \<Rightarrow> True | WGlobal \<Rightarrow> True | WSteal k \<Rightarrow> True | WPred \<Rightarrow> True | _ \<Rightarrow> False)"

lemma searching_step:
  assumes "searching p i"
  shows "carried (jp_w (jp_step (Worker i 0) p) i) \<noteq> {#} \<or>
    searching (jp_step (Worker i 0) p) i \<and> rank (jp_step (Worker i 0) p) i < rank p i"
    and "finishing (Worker i 0) p = {#}"
proof -
  have i: "i < workers p" and stop: "i \<notin> jp_stop p" and calm: "\<not> jp_shutdown p" "\<not> jp_held p"
    and pred: "jp_global p \<noteq> [] \<or> jp_locals p ! i \<noteq> []"
    using assms by (auto simp: searching_def calm_def wait_pred_def)
  consider (loop) "jp_w p i = WLoop" | (local) "jp_w p i = WLocal" | (global) "jp_w p i = WGlobal"
    | (steal) k where "jp_w p i = WSteal k" | (pred) "jp_w p i = WPred"
    using assms by (auto simp: searching_def split: worker_pc.splits)
  then have "(carried (jp_w (jp_step (Worker i 0) p) i) \<noteq> {#} \<or>
      searching (jp_step (Worker i 0) p) i \<and> rank (jp_step (Worker i 0) p) i < rank p i) \<and> finishing (Worker i 0) p = {#}"
  proof cases
    case loop
    then show ?thesis using assms i stop by (auto simp: searching_def rank_def finishing_def worker_loop.simps calm_def wait_pred_def)
  next
    case local
    then show ?thesis using assms i pred
      by (cases "jp_locals p ! i") (simp_all add: searching_def rank_def finishing_def worker_loop.simps calm_def wait_pred_def)
  next
    case global
    then show ?thesis using assms i calm pred
      by (cases "jp_global p") (simp_all add: searching_def rank_def finishing_def worker_loop.simps calm_def wait_pred_def)
  next
    case (steal k)
    show ?thesis
    proof (cases "k < workers p \<and> jp_locals p ! ((i + k + 1) mod workers p) \<noteq> []")
      case True
      then show ?thesis using steal i by (simp add: finishing_def worker_loop.simps Let_def)
    next
      case False
      then have "jp_step (Worker i 0) p = wgo i (if k < workers p then WSteal (Suc k) else WPred) p"
        using steal i by (auto simp: worker_loop.simps Let_def)
      then show ?thesis using steal assms i by (auto simp: searching_def rank_def finishing_def calm_def wait_pred_def)
    qed
  next
    case pred
    then show ?thesis using assms i calm by (simp add: searching_def rank_def finishing_def worker_loop.simps calm_def wait_pred_def)
  qed
  then show "carried (jp_w (jp_step (Worker i 0) p) i) \<noteq> {#} \<or>
      searching (jp_step (Worker i 0) p) i \<and> rank (jp_step (Worker i 0) p) i < rank p i" and "finishing (Worker i 0) p = {#}"
    by blast+
qed

lemma live_facts:
  assumes "fe_live m c ts s"
  shows "jp_inv m (fe_pool s)" and "workers (fe_pool s) = m" and "woken_inv m (fe_pool s)" and "calm (fe_pool s)"
    and "jp_stop (fe_pool s) = {}" and "\<And>i. \<not> leaving (jp_w (fe_pool s) i)"
  using assms by (auto simp: fe_live_def fe_inv_def jp_inv_def calm_def)

lemma worker_turn:
  assumes "fe_live m c ts s" and "i < m"
  shows "outside_step c ts (Others (Worker i 0)) s = fe_worker ts i 0 s"
  using assms live_facts(2) [OF assms(1)] by (simp add: fe_step_def)

abbreviation can_reach :: "nat \<Rightarrow> nat list list \<Rightarrow> ('b for_each_call \<Rightarrow> bool) \<Rightarrow> 'b for_each_call \<Rightarrow> bool" where
  "can_reach c ts \<equiv> reaches own_step (outside_step c ts)"

lemma search_succeeds:
  assumes "fe_live m c ts s" and "searching (fe_pool s) i"
  shows "can_reach c ts (\<lambda>s'. fe_live m c ts s' \<and> carried (jp_w (fe_pool s') i) \<noteq> {#} \<and>
    tasks_left (fe_pool s') = tasks_left (fe_pool s) \<and> fe_pc s' = fe_pc s) s"
  using assms
proof (induction "rank (fe_pool s) i" arbitrary: s rule: less_induct)
  case less
  let ?p = "jp_step (Worker i 0) (fe_pool s)"
  let ?s = "s\<lparr>fe_pool := ?p\<rparr>"
  have i: "i < m" using less.prems live_facts(2) by (auto simp: searching_def)
  have turn: "outside_step c ts (Others (Worker i 0)) s = ?s"
    unfolding worker_turn [OF less.prems(1) i] using less.prems(2)
    by (auto simp: fe_worker_def searching_def split: worker_pc.splits)
  from live_step [OF less.prems(1), of "Others (Worker i 0)"] turn have live: "fe_live m c ts ?s"
    by (simp add: undisturbed_def)
  have left: "tasks_left ?p = tasks_left (fe_pool s)"
    using worker_step_left [OF live_facts(1) [OF less.prems(1)] i, of 0] searching_step(2) [OF less.prems(2)] by simp
  have "can_reach c ts (\<lambda>s'. fe_live m c ts s' \<and> carried (jp_w (fe_pool s') i) \<noteq> {#} \<and>
    tasks_left (fe_pool s') = tasks_left (fe_pool s) \<and> fe_pc s' = fe_pc s) ?s"
    using searching_step(1) [OF less.prems(2)]
  proof
    assume "carried (jp_w ?p i) \<noteq> {#}"
    then show ?thesis using live left by (intro reach_now) simp
  next
    assume "searching ?p i \<and> rank ?p i < rank (fe_pool s) i"
    then show ?thesis using less.hyps [of ?s] live left by simp
  qed
  then show ?case unfolding turn [symmetric] by (rule reach_step [rotated]) simp
qed

lemma carried_finishes:
  assumes "fe_live m c ts s" and "i < m" and "carried (jp_w (fe_pool s) i) \<noteq> {#}"
  shows "can_reach c ts (\<lambda>s'. fe_live m c ts s' \<and> tasks_left (fe_pool s') < tasks_left (fe_pool s) \<and> fe_pc s' = fe_pc s) s"
  using assms
proof (induction "(case jp_w (fe_pool s) i of WNotify f \<Rightarrow> 1 | _ \<Rightarrow> 0) +
    (\<Sum>k\<in>#chunks (carried (jp_w (fe_pool s) i)). length (ts ! k) - fe_at s i)" arbitrary: s rule: less_induct)
  case less
  note inv = live_facts(1,2) [OF less.prems(1)]
  let ?s = "outside_step c ts (Others (Worker i 0)) s"
  let ?p = "jp_step (Worker i 0) (fe_pool s)"
  have turn: "?s = fe_worker ts i 0 s" by (rule worker_turn [OF less.prems(1,2)])
  have live: "fe_live m c ts ?s" by (rule live_step [OF less.prems(1)]) (simp add: undisturbed_def)
  have pc: "fe_pc ?s = fe_pc s" unfolding turn by (rule fe_worker_pool) (use inv less.prems in simp)
  have left: "tasks_left (fe_pool s) = tasks_left ?p + size (finishing (Worker i 0) (fe_pool s))"
    by (rule worker_step_left [OF inv(1) less.prems(2)])
  have "can_reach c ts (\<lambda>s'. fe_live m c ts s' \<and> tasks_left (fe_pool s') < tasks_left (fe_pool s) \<and> fe_pc s' = fe_pc s) ?s"
  proof (cases "jp_w (fe_pool s) i")
    case (WNotify f)
    then have s: "?s = s\<lparr>fe_pool := ?p\<rparr>" unfolding turn by (simp add: fe_worker_def)
    have w: "jp_w ?p i = WRun f"
      using WNotify inv less.prems(2) wake_one_pcs [of 0 "wgo i (WRun f) (fe_pool s)" i] by (auto simp: worker_loop.simps)
    have "finishing (Worker i 0) (fe_pool s) = {#}" using WNotify by (simp add: finishing_def)
    then show ?thesis using less.hyps [of ?s] live left pc less.prems(2) w WNotify by (simp add: s)
  next
    case (WRun f)
    show ?thesis
    proof (cases "\<exists>k. f = Chunk k \<and> fe_at s i < length (ts ! k)")
      case True
      then obtain k where k: "f = Chunk k" "fe_at s i < length (ts ! k)" by blast
      then have "fe_pool ?s = fe_pool s" and "fe_at ?s i = Suc (fe_at s i)" unfolding turn using WRun by (simp_all add: fe_worker_def)
      then show ?thesis using less.hyps [of ?s] live pc less.prems(2,3) WRun k by simp
    next
      case False
      then have "fe_pool ?s = ?p" unfolding turn using WRun by (cases f) (simp_all add: fe_worker_def)
      moreover have "size (finishing (Worker i 0) (fe_pool s)) = 1" using WRun inv less.prems(2) by (simp add: finishing_def)
      ultimately show ?thesis using live pc left by (intro reach_now) simp
    qed
  qed (use less.prems(3) in simp_all)
  then show ?case by (rule reach_step [rotated]) simp
qed

lemma awake_takes:
  assumes live: "fe_live m c ts s" and i: "i < m" and pred: "wait_pred i (fe_pool s)" and awake: "jp_w (fe_pool s) i \<noteq> WSleep"
    and idle: "carried (jp_w (fe_pool s) i) = {#}"
  shows "can_reach c ts (\<lambda>s'. fe_live m c ts s' \<and> tasks_left (fe_pool s') < tasks_left (fe_pool s) \<and> fe_pc s' = fe_pc s) s"
proof -
  have "searching (fe_pool s) i" using live_facts(2,4,5) [OF live] live_facts(6) [OF live, of i] i pred awake idle
    by (auto simp: searching_def split: worker_pc.splits)
  from search_succeeds [OF live this] show ?thesis
  proof (rule reach_trans)
    fix s' assume s': "fe_live m c ts s' \<and> carried (jp_w (fe_pool s') i) \<noteq> {#} \<and> tasks_left (fe_pool s') = tasks_left (fe_pool s) \<and>
      fe_pc s' = fe_pc s"
    then show "can_reach c ts (\<lambda>s'. fe_live m c ts s' \<and> tasks_left (fe_pool s') < tasks_left (fe_pool s) \<and> fe_pc s' = fe_pc s) s'"
      using carried_finishes [of m c ts s' i] i by simp
  qed
qed

lemma a_task_less:
  assumes live: "fe_live m c ts s" and wait: "fe_pc s = FeWait" and left: "0 < tasks_left (fe_pool s)"
  shows "can_reach c ts (\<lambda>s'. fe_live m c ts s' \<and> tasks_left (fe_pool s') < tasks_left (fe_pool s) \<and> fe_pc s' = fe_pc s) s"
    (is "can_reach c ts ?Q s")
proof (cases "\<exists>i<m. carried (jp_w (fe_pool s) i) \<noteq> {#}")
  case True
  then show ?thesis using carried_finishes [OF live] by blast
next
  case False
  let ?p = "fe_pool s"
  note facts = live_facts [OF live]
  have "in_flight ?p = {#}" unfolding in_flight_def by (rule sum.neutral) (use False facts(2) in auto)
  then have "queued ?p \<noteq> {#}" using left by (auto simp: tasks_left_def)
  then consider (global) "jp_global ?p \<noteq> []" | (local) "jp_global ?p = []" "\<exists>q\<in>set (jp_locals ?p). q \<noteq> []"
    by (auto simp: queued_def concat_eq_Nil_conv)
  then show ?thesis
  proof cases
    case global
    then have pred: "wait_pred i ?p" for i by (simp add: wait_pred_def)
    show ?thesis
    proof (cases "all_asleep ?p")
      case True
      then obtain d where d: "d \<in> jp_pending ?p" using facts(3) global by (auto simp: woken_inv_def)
      have "c \<notin> jp_pending ?p" using live wait by (simp add: fe_live_def fe_inv_def)
      then have dc: "d \<noteq> c" using d by blast
      let ?s = "outside_step c ts (Others (CallerNotify d 0)) s"
      have m: "0 < m" using facts(3) by (simp add: woken_inv_def)
      have s: "?s = s\<lparr>fe_pool := wake_one 0 (?p\<lparr>jp_pending := jp_pending ?p - {d}\<rparr>)\<rparr>" using d dc by (simp add: fe_step_def)
      have "jp_w (fe_pool ?s) 0 = WPred"
        using True m facts(2) by (simp add: s wake_one_def all_asleep_def list_all_iff)
      moreover have "jp_global (fe_pool ?s) = jp_global ?p" and "tasks_left (fe_pool ?s) = tasks_left ?p" and "fe_pc ?s = fe_pc s"
        using True by (simp_all add: s tasks_left_def queued_def in_flight_def all_asleep_def)
      moreover have "fe_live m c ts ?s" by (rule live_step [OF live]) (simp add: undisturbed_def)
      ultimately have "can_reach c ts ?Q ?s" using awake_takes [of m c ts ?s 0] m global by (simp add: wait_pred_def)
      then show ?thesis by (rule reach_step [rotated]) simp
    next
      case no: False
      then obtain i where "i < m" "jp_w ?p i \<noteq> WSleep" using facts(2) by (auto simp: all_asleep_def list_all_iff)
      then show ?thesis using awake_takes [OF live _ pred] False by blast
    qed
  next
    case local
    then obtain i where i: "i < m" "jp_locals ?p ! i \<noteq> []" using facts(2) by (auto simp: in_set_conv_nth)
    then have "jp_w ?p i \<noteq> WSleep" using facts(3) by (auto simp: woken_inv_def)
    then show ?thesis using awake_takes [OF live i(1)] i False by (simp add: wait_pred_def)
  qed
qed

lemma waiting_returns:
  assumes "fe_live m c ts s" and "fe_pc s = FeWait"
  shows "can_reach c ts (\<lambda>s. fe_pc s = FeReturned) s"
  using assms
proof (induction "tasks_left (fe_pool s)" arbitrary: s rule: less_induct)
  case less
  show ?case
  proof (cases "tasks_left (fe_pool s) = 0")
    case True
    have jin: "jp_inv m (fe_pool s)" and latch: "fe_latch s + size (done_chunks s) = length ts"
      and acc: "chunks (mset (jp_accepted (fe_pool s))) = mset [0..<submitted (length ts) (fe_pc s)]"
      using less.prems(1) unfolding fe_live_def fe_inv_def by blast+
    have "queued (fe_pool s) = {#}" "in_flight (fe_pool s) = {#}" using True by (simp_all add: tasks_left_def)
    then have "mset (jp_accepted (fe_pool s)) = mset (jp_done (fe_pool s))" using jin by (simp add: jp_inv_def)
    then have "done_chunks s = mset [0..<length ts]" using acc less.prems(2) by (simp add: done_chunks_def)
    then have "fe_latch s = 0" using latch by simp
    then have "fe_pc (outside_step c ts (TheCaller 0) s) = FeReturned" using less.prems(2) by (simp add: fe_step_def fe_call_def)
    then have "can_reach c ts (\<lambda>s. fe_pc s = FeReturned) (outside_step c ts (TheCaller 0) s)" by (rule reach_now)
    then show ?thesis by (rule reach_step [rotated]) simp
  next
    case False
    then have "0 < tasks_left (fe_pool s)" by simp
    from a_task_less [OF less.prems this] show ?thesis
      by (rule reach_trans) (use less.hyps less.prems(2) in simp)
  qed
qed

lemma submitting_waits:
  assumes "fe_live m c ts s" and "fe_pc s = FeSubmit i"
  shows "can_reach c ts (\<lambda>s'. fe_live m c ts s' \<and> fe_pc s' = FeWait) s"
  using assms
proof (induction "length ts - i" arbitrary: i s rule: less_induct)
  case less
  let ?s = "outside_step c ts (TheCaller 0) s"
  have live: "fe_live m c ts ?s" by (rule live_step [OF less.prems(1)]) simp
  have "can_reach c ts (\<lambda>s'. fe_live m c ts s' \<and> fe_pc s' = FeWait) ?s"
  proof (cases "i < length ts")
    case True
    obtain p' where "jp_enqueue None (Chunk i) (fe_pool s) = Some (p', True)"
      using outside_accepts [OF live_facts(4) [OF less.prems(1)], of "Chunk i"] by blast
    then have pc: "fe_pc ?s = FeNotify i" using True less.prems(2) by (simp add: fe_step_def fe_call_def)
    let ?t = "outside_step c ts (TheCaller 0) ?s"
    have "fe_live m c ts ?t" by (rule live_step [OF live]) simp
    moreover have "fe_pc ?t = FeSubmit (Suc i)" using pc by (simp add: fe_step_def fe_call_def)
    moreover have "length ts - Suc i < length ts - i" using True by simp
    ultimately have "can_reach c ts (\<lambda>s'. fe_live m c ts s' \<and> fe_pc s' = FeWait) ?t" by (intro less.hyps) assumption+
    then show ?thesis by (rule reach_step [rotated]) simp
  next
    case False
    then have "fe_pc ?s = FeWait" using less.prems(2) by (simp add: fe_step_def fe_call_def)
    then show ?thesis using live by (intro reach_now) simp
  qed
  then show ?case by (rule reach_step [rotated]) simp
qed

lemma live_returns:
  assumes live: "fe_live m c ts s"
  shows "can_reach c ts (\<lambda>s. fe_pc s = FeReturned) s"
proof -
  have submit: "can_reach c ts (\<lambda>s. fe_pc s = FeReturned) t" if "fe_live m c ts t" "fe_pc t = FeSubmit i" for t i
    by (rule reach_trans [OF submitting_waits [OF that]]) (use waiting_returns in blast)
  show ?thesis
  proof (cases "fe_pc s")
    case (FeNotify i)
    then have "fe_pc (outside_step c ts (TheCaller 0) s) = FeSubmit (Suc i)" by (simp add: fe_step_def fe_call_def)
    moreover have "fe_live m c ts (outside_step c ts (TheCaller 0) s)" by (rule live_step [OF live]) simp
    ultimately have "can_reach c ts (\<lambda>s. fe_pc s = FeReturned) (outside_step c ts (TheCaller 0) s)" using submit by blast
    then show ?thesis by (rule reach_step [rotated]) simp
  next
    case (FeSubmit i)
    show ?thesis by (rule submit [OF live FeSubmit])
  next
    case FeWait
    show ?thesis by (rule waiting_returns [OF live FeWait])
  next
    case FeReturned
    then show ?thesis by (rule reach_now)
  qed
qed

lemma reached_live:
  fixes p :: "'b pool_task jpool" and es :: "'b fe_event list"
  assumes "jp_create os_threads thread_count = Inr p0" and "p = run_sched jp_step before p0" and "list_all undisturbed before"
    and "chunks (mset (jp_accepted p)) = {#}" and "c \<notin> jp_pending p"
    and "for_each_tasks distance chunk_size = Some (n, ts)" and "list_all orderly es"
  obtains m where "fe_live m c ts (run_sched (fe_step (Outside c None) n ts) es (fe_start n p))"
proof -
  obtain m where m: "jp_inv m p0" "woken_inv m p0" using create_inv [OF assms(1)] .
  have calm0: "calm p0" using assms(1) by (auto simp: jp_create_def jp_start_def calm_def Let_def split: if_splits)
  have "jp_inv m p" unfolding assms(2) by (rule jp.sched_keeps [OF m(1)])
  moreover have "woken_inv m p \<and> calm p" unfolding assms(2) using assms(3)
  proof (induction before rule: rev_induct)
    case (snoc e es)
    then show ?case using woken_step [of m "run_sched jp_step es p0" e] calm_step [of "run_sched jp_step es p0" e]
      by (simp add: undisturbed_def)
  qed (simp add: m(2) calm0)
  moreover have n: "n = length ts" using assms(6) by (auto simp: for_each_tasks_def split: if_splits)
  ultimately have "fe_live m c ts (fe_start n p)"
    using fe_start_inv [of m p "Outside c None" ts] assms(4,5) by (simp add: fe_live_def) (simp add: fe_start_def)
  then have "fe_live m c ts (run_sched (fe_step (Outside c None) n ts) es (fe_start n p))" unfolding n using assms(7) by (rule live_run)
  then show thesis by (rule that)
qed

text \<open>
  A call of \<open>parallel_for_each\<close> from a thread outside the pool cannot deadlock: in every state it can reach while
  the pool is alive, the remaining steps of the caller, of the workers and of threads that still have to notify, without any new submission, can be
  scheduled so that it returns.
\<close>

theorem parallel_for_each_can_return:
  fixes p :: "'b pool_task jpool" and es :: "'b fe_event list"
  assumes "jp_create os_threads thread_count = Inr p0" and "p = run_sched jp_step before p0" and "list_all undisturbed before"
    and "chunks (mset (jp_accepted p)) = {#}" and "c \<notin> jp_pending p"
    and "for_each_tasks distance chunk_size = Some (n, ts)" and "list_all orderly es"
  defines "s \<equiv> run_sched (fe_step (Outside c None) n ts) es (fe_start n p)"
  shows "\<exists>fs. list_all own_step fs \<and> fe_pc (run_sched (fe_step (Outside c None) n ts) fs s) = FeReturned"
proof -
  have n: "n = length ts" using assms(6) by (auto simp: for_each_tasks_def split: if_splits)
  obtain m where "fe_live m c ts s" using reached_live [OF assms(1-7)] unfolding s_def by blast
  from live_returns [OF this] show ?thesis unfolding reaches_def n .
qed

lemma parallel_for_each_can_return_witness:
  "\<exists>fs. list_all own_step fs \<and> fe_pc (run_sched (fe_step (Outside 7 None) 2 [[0, 1], [2]]) fs
    (run_sched (fe_step (Outside 7 None) 2 [[0, 1], [2]]) [TheCaller 0, Others (Worker 0 0)] (fe_start 2 (jp_start 1 :: unit pool_task jpool)))) = FeReturned"
proof (rule parallel_for_each_can_return)
  show "jp_create 1 1 = Inr (jp_start 1)" by (simp add: jp_create_def)
  show "jp_start 1 = run_sched jp_step [] (jp_start 1)" by simp
  show "for_each_tasks 3 2 = Some (2, [[0, 1], [2]])"
    by (simp add: for_each_tasks_def num_chunks_def chunk_range_def upt_rec)
qed (simp_all add: jp_start_def undisturbed_def)

section \<open>Calls from a worker, and during shutdown\<close>

text \<open>The other workers sleep, or are about to sleep again; only the caller's own queue can have tasks.\<close>

definition helpless :: "nat \<Rightarrow> 'b pool_task jpool \<Rightarrow> bool" where
  "helpless w p \<longleftrightarrow>
     calm p \<and> jp_stop p = {} \<and> jp_global p = [] \<and> jp_pending p = {} \<and>
     (\<forall>i<workers p. i \<noteq> w \<longrightarrow> (jp_w p i = WSleep \<or> jp_w p i = WPred) \<and> jp_locals p ! i = [])"

definition nobody_helps :: "nat \<Rightarrow> nat \<Rightarrow> 'b for_each_call \<Rightarrow> bool" where
  "nobody_helps w n s \<longleftrightarrow>
     helpless w (fe_pool s) \<and> caller_at (InTask w) (fe_pool s) (fe_pc s) \<and> fe_latch s = n \<and> fe_pc s \<noteq> FeReturned"

fun from_outside :: "'b fe_event \<Rightarrow> bool" where
  "from_outside (TheCaller choice) = False"
| "from_outside (Others e) = (case e of Caller c idx f \<Rightarrow> True | Destroy \<Rightarrow> True | _ \<Rightarrow> False)"

lemma helpless_wake: "helpless w p \<Longrightarrow> jp_w p w \<noteq> WSleep \<Longrightarrow> helpless w (wake_one k p) \<and> jp_w (wake_one k p) w = jp_w p w"
proof -
  assume h: "helpless w p" and w: "jp_w p w \<noteq> WSleep"
  have "jp_w (wake_one k p) i = WSleep \<or> jp_w (wake_one k p) i = WPred" if "jp_w p i = WSleep \<or> jp_w p i = WPred" for i
    using wake_one_pcs [of k p i] that by auto
  then show ?thesis using h w wake_one_pcs [of k p w] by (auto simp: helpless_def calm_def)
qed

lemma helpless_call:
  assumes h: "nobody_helps w n s" and n: "0 < n"
  shows "nobody_helps w n (fe_call (InTask w) n choice s)"
proof -
  let ?p = "fe_pool s"
  have alone: "helpless w ?p" and at: "caller_at (InTask w) ?p (fe_pc s)" and w: "w < workers ?p"
    using h by (simp_all add: nobody_helps_def)
  show ?thesis
  proof (cases "fe_pc s")
    case (FeSubmit i)
    then obtain g where g: "jp_w ?p w = WRun (Foreign g)" using at by auto
    show ?thesis
    proof (cases "i < n")
      case True
      let ?q = "?p\<lparr>jp_locals := (jp_locals ?p)[w := jp_locals ?p ! w @ [Chunk i]], jp_accepted := jp_accepted ?p @ [Chunk i]\<rparr>"
      have "jp_enqueue (Some w) (Chunk i) ?p = Some (?q, True)"
        using w alone by (simp add: jp_enqueue_def helpless_def calm_def)
      then have "fe_call (InTask w) n choice s = s\<lparr>fe_pool := wgo w (WNotify (Foreign g)) ?q, fe_pc := FeNotify i\<rparr>"
        using FeSubmit True g w by (simp add: fe_call_def)
      then show ?thesis using h w by (simp add: nobody_helps_def helpless_def calm_def)
    next
      case False
      then show ?thesis using h FeSubmit by (simp add: fe_call_def nobody_helps_def)
    qed
  next
    case (FeNotify i)
    then obtain g where g: "jp_w ?p w = WNotify (Foreign g)" using at by auto
    let ?q = "wgo w (WRun (Foreign g)) ?p"
    have "helpless w ?q" using alone by (simp add: helpless_def calm_def)
    then have "helpless w (wake_one choice ?q) \<and> jp_w (wake_one choice ?q) w = WRun (Foreign g)"
      using helpless_wake [of w ?q choice] by simp
    moreover have "fe_call (InTask w) n choice s = s\<lparr>fe_pool := wake_one choice ?q, fe_pc := FeSubmit (Suc i)\<rparr>"
      using FeNotify g w by (simp add: fe_call_def worker_loop.simps)
    ultimately show ?thesis using h w by (simp add: nobody_helps_def)
  next
    case FeWait
    then show ?thesis using h n by (simp add: fe_call_def nobody_helps_def)
  qed (use h in \<open>simp add: nobody_helps_def\<close>)
qed

lemma helpless_step:
  assumes h: "nobody_helps w n s" and n: "0 < n" and e: "\<not> from_outside e"
  shows "nobody_helps w n (fe_step (InTask w) n ts e s)"
proof (cases e)
  case (TheCaller choice)
  then show ?thesis using helpless_call [OF h n] by (simp add: fe_step_def)
next
  case (Others f)
  let ?p = "fe_pool s"
  have alone: "helpless w ?p" and at: "caller_at (InTask w) ?p (fe_pc s)" and ret: "fe_pc s \<noteq> FeReturned" "fe_latch s = n"
    using h by (simp_all add: nobody_helps_def)
  have pc: "jp_w ?p i = WSleep \<or> jp_w ?p i = WPred" if "i < workers ?p" "i \<noteq> w" for i
    using alone that by (simp add: helpless_def)
  have unfit: "\<not> wait_pred i ?p" if "i < workers ?p" "i \<noteq> w" for i
    using alone that by (simp add: helpless_def calm_def wait_pred_def)
  have awake: "jp_w ?p w \<noteq> WSleep" using at ret by (auto split: if_splits)
  have "nobody_helps w n (s\<lparr>fe_pool := q\<rparr>)" if "helpless w q" "jp_w q w = jp_w ?p w" "workers q = workers ?p" for q
    using that at ret by (auto simp: nobody_helps_def)
  note keep = this
  show ?thesis
  proof (cases f)
    case (Worker i choice)
    show ?thesis
    proof (cases "i < workers ?p \<and> i \<noteq> w")
      case True
      then have "jp_step f ?p = ?p \<or> jp_step f ?p = wgo i WSleep ?p"
        using pc [of i] unfit [of i] alone by (auto simp: Worker worker_loop.simps helpless_def calm_def)
      moreover have "helpless w (wgo i WSleep ?p)" using alone by (simp add: helpless_def calm_def)
      moreover have "fe_worker ts i choice s = s\<lparr>fe_pool := jp_step f ?p\<rparr>"
        using pc [of i] True by (auto simp: fe_worker_def Worker)
      ultimately show ?thesis using True h keep [of "wgo i WSleep ?p"] unfolding Others Worker fe_step_def
        by (auto simp: Worker)
    qed (use h Others Worker in \<open>auto simp: fe_step_def\<close>)
  next
    case (Nested i g)
    have "jp_step f ?p = ?p" if "i \<noteq> w" using pc [of i] that by (auto simp: Nested)
    then show ?thesis using h unfolding Others Nested fe_step_def by (auto simp: Nested)
  next
    case (CallerNotify d choice)
    then have "jp_step f ?p = ?p" using alone by (simp add: helpless_def)
    then show ?thesis using h unfolding Others CallerNotify fe_step_def by (auto simp: CallerNotify)
  next
    case (Spurious i)
    have "helpless w (wgo i WPred ?p)" if "i \<noteq> w" using alone that by (simp add: helpless_def calm_def)
    then show ?thesis using h awake keep [of "wgo i WPred ?p"] unfolding Others Spurious fe_step_def
      by (cases "i = w") auto
  qed (use e Others in simp_all)
qed

text \<open>
  Called from a task of the pool while the other workers sleep over empty queues, \<open>parallel_for_each\<close> never returns, however many workers the pool
  has: the chunks go into the calling worker's own queue, the workers that are notified find their wait predicate false, and
  nobody steals.  Only a task submitted from outside the pool could end this.
\<close>

theorem parallel_for_each_in_task_blocks:
  fixes es :: "'b fe_event list" and ts :: "nat list list"
  assumes "helpless w p" and "may_call (InTask w) p" and "0 < n" and "\<forall>e\<in>set es. \<not> from_outside e"
  defines "s \<equiv> run_sched (fe_step (InTask w) n ts) es (fe_start n p)"
  shows "fe_pc s \<noteq> FeReturned \<and> fe_latch s = n"
proof -
  have "nobody_helps w n (fe_start n p)" using assms(1,2) by (auto simp: nobody_helps_def fe_start_def)
  then have "nobody_helps w n s" unfolding s_def using assms(4)
    by (induction es rule: rev_induct) (simp_all add: helpless_step [OF _ assms(3)])
  then show ?thesis by (simp add: nobody_helps_def)
qed

definition second_worker_sleeps :: "unit pool_task jp_event list" where
  "second_worker_sleeps =
     replicate 7 (Worker 1 0) @ [Caller 5 None (Foreign ())] @ replicate 3 (Worker 0 0) @ [CallerNotify 5 0]"

lemma parallel_for_each_in_task_blocks_witness:
  "fe_pc (run_sched (fe_step (InTask 0) 1 [[0]]) (replicate 4 (TheCaller 0) @ replicate 9 (Others (Worker 1 0)))
     (fe_start 1 (run_sched jp_step second_worker_sleeps (jp_start 2)))) \<noteq> FeReturned"
proof (rule parallel_for_each_in_task_blocks [THEN conjunct1])
  let ?p = "run_sched jp_step second_worker_sleeps (jp_start 2)"
  show "helpless 0 ?p" by code_simp
  have "jp_w ?p 0 = WRun (Foreign ())" and "workers ?p = 2" by code_simp+
  then show "may_call (InTask 0) ?p" by simp
qed (auto simp: set_replicate_conv_if)

text \<open>
  (C33) When the pool shuts down before the last chunk is submitted, \<open>execute\<close> drops the chunk without an error, and the caller then waits for ever for the latch.
\<close>

theorem parallel_for_each_dropped_chunk_blocks:
  fixes p :: "'b pool_task jpool" and es :: "'b fe_event list"
  assumes "jp_create os_threads thread_count = Inr p0" and "p = run_sched jp_step before p0"
    and "chunks (mset (jp_accepted p)) = {#}" and "may_call who p" and "for_each_tasks distance chunk_size = Some (n, ts)"
    and "s = run_sched (fe_step who n ts) es (fe_start n p)"
    and "fe_pc s = FeWait" and "size (chunks (mset (jp_accepted (fe_pool s)))) < n"
  shows "fe_pc (run_sched (fe_step who n ts) fs s) = FeWait"
proof -
  obtain m where "jp_inv m p0" using create_inv [OF assms(1)] .
  then have "jp_inv m p" unfolding assms(2) by (rule jp.sched_keeps)
  moreover have n: "n = length ts" using assms(5) by (auto simp: for_each_tasks_def split: if_splits)
  ultimately have inv: "fe_inv m who ts s" unfolding assms(6) n by (intro fe.sched_keeps fe_start_inv assms(3,4))
  have step: "fe_inv m who ts (fe_step who n ts e t) \<and> fe_pc (fe_step who n ts e t) = FeWait \<and>
      size (chunks (mset (jp_accepted (fe_pool (fe_step who n ts e t))))) < n"
    if t: "fe_inv m who ts t" "fe_pc t = FeWait" "size (chunks (mset (jp_accepted (fe_pool t)))) < n" for e t
  proof (cases e)
    case (TheCaller choice)
    have "done_chunks t \<subseteq># chunks (mset (jp_accepted (fe_pool t)))"
      using t(1) by (simp add: fe_inv_def jp_inv_def done_chunks_def)
    from size_mset_mono [OF this] have "fe_latch t \<noteq> 0" using t(1,3) n by (simp add: fe_inv_def)
    then show ?thesis using t TheCaller by (simp add: fe_step_def fe_call_def)
  next
    case (Others f)
    have "fe_pool (fe_step who n ts e t) = fe_pool t \<or>
        fe_pool (fe_step who n ts e t) = jp_step f (fe_pool t) \<and> from_others who f"
      unfolding Others fe_step_def using fe_worker_pool by (auto split: jp_event.splits simp del: jp_step.simps)
    moreover have "fe_pc (fe_step who n ts e t) = fe_pc t"
      unfolding Others fe_step_def using fe_worker_pool by (auto split: jp_event.splits simp del: jp_step.simps)
    moreover have "fe_inv m who ts (fe_step who n ts e t)" unfolding n by (rule fe_step_keeps [OF t(1)])
    ultimately show ?thesis using t(2,3) others_accepted [of who f "fe_pool t"] by auto
  qed
  have "fe_inv m who ts (run_sched (fe_step who n ts) fs s) \<and> fe_pc (run_sched (fe_step who n ts) fs s) = FeWait \<and>
      size (chunks (mset (jp_accepted (fe_pool (run_sched (fe_step who n ts) fs s))))) < n"
  proof (induction fs rule: rev_induct)
    case (snoc e fs)
    then show ?case using step [of "run_sched (fe_step who n ts) fs s" e] by simp
  qed (use inv assms(7,8) in simp)
  then show ?thesis by blast
qed

lemma parallel_for_each_dropped_chunk_blocks_witness:
  "fe_pc (run_sched (fe_step (Outside 7 None) 1 [[0]]) (replicate 9 (Others (Worker 0 0)) @ [TheCaller 0])
     (run_sched (fe_step (Outside 7 None) 1 [[0]]) [Others Destroy, TheCaller 0, TheCaller 0] (fe_start 1 (jp_start 1 :: unit pool_task jpool))))
     = FeWait"
proof (rule parallel_for_each_dropped_chunk_blocks [OF _ _ _ _ _ refl])
  show "jp_create 1 1 = Inr (jp_start 1)" by (simp add: jp_create_def)
  show "jp_start 1 = run_sched jp_step [] (jp_start 1)" by simp
  show "for_each_tasks 1 1 = Some (1, [[0]])" by (simp add: for_each_tasks_def num_chunks_def chunk_range_def)
qed (simp_all add: jp_start_def fe_step_def fe_start_def fe_call_def jp_destroy.simps jp_enqueue_def)

end
