(* ===== verification/TaskMemory.thy ===== *)
theory TaskMemory
  imports Coroutines MemoryPools
begin

text \<open>
  The frames of \<open>Task\<close> in the \<open>CoroutinePoolAllocator\<close>: the \<open>operator new\<close> and \<open>operator delete\<close> of its promise
  (modern_cpp_core/coroutines/task.hpp) over the pool of the theory \<open>MemoryPools\<close>, and the specialisation \<open>Task<void>\<close>.

  The handle of a coroutine is the offset of its block.  The size of a coroutine's frame is chosen by the compiler:
  \<open>fsize\<close>, a parameter; what a frame leaves in the bytes where a free block has its \<open>next\<close> is \<open>bytes\<close>.  Calls of coroutines are not
  optimised away.  An exhausted pool throws \<open>bad_alloc\<close> out of the call expression, so the awaiting body sees it as it sees
  an exception of the awaited task.
\<close>

section \<open>Frames in the pool\<close>

record ('v, 'e) pooled =
  p_machine :: "('v, 'e) machine"
  p_pool :: cpool

definition promise_new :: "size_t \<Rightarrow> cpool \<Rightarrow> (pool_error + nat) \<times> cpool" where
  "promise_new sz P = cp_allocate sz P"

definition promise_delete :: "nat \<Rightarrow> cpool \<Rightarrow> cpool" where
  "promise_delete c P = cp_deallocate (Some c) P"

text \<open>Calling a coroutine: the frame is made in its block, and suspended.\<close>

definition make_frame :: "nat \<Rightarrow> ('v, 'e) prog \<Rightarrow> ('v, 'e) machine \<Rightarrow> ('v, 'e) machine" where
  "make_frame c p m = m\<lparr>m_frames := (m_frames m)(c \<mapsto> task_call p)\<rparr>"

definition call_coroutine ::
  "(('v, 'e) prog \<Rightarrow> size_t) \<Rightarrow> (nat \<Rightarrow> nat option) \<Rightarrow> ('v, 'e) prog \<Rightarrow> ('v, 'e) pooled \<Rightarrow> nat option \<times> ('v, 'e) pooled" where
  "call_coroutine fsize bytes p s =
     (case promise_new (fsize p) (p_pool s) of
        (Inl Bad_alloc, P) \<Rightarrow> (None, s\<lparr>p_pool := P\<rparr>)
      | (Inr c, P) \<Rightarrow> (Some c, s\<lparr>p_machine := make_frame c p (p_machine s), p_pool := cp_write c (bytes c) P\<rparr>))"

text \<open>The destructor of the \<open>Task\<close> destroys the frame and gives its block back.\<close>

definition destroy_frame :: "nat \<Rightarrow> ('v, 'e) pooled \<Rightarrow> ('v, 'e) pooled" where
  "destroy_frame c s =
     s\<lparr>p_machine := (p_machine s)\<lparr>m_frames := (m_frames (p_machine s))(c := None)\<rparr>, p_pool := promise_delete c (p_pool s)\<rparr>"

text \<open>One step of the running coroutine, as \<open>task_step\<close>, with the frames in the pool; \<open>bad\<close> is the \<open>bad_alloc\<close> exception.\<close>

definition pooled_step ::
  "(('v, 'e) prog \<Rightarrow> size_t) \<Rightarrow> (nat \<Rightarrow> nat option) \<Rightarrow> 'e \<Rightarrow> ('v, 'e) pooled \<Rightarrow> ('v, 'e) pooled" where
  "pooled_step fsize bytes bad s =
     (let m = p_machine s in
      case m_current m of
        None \<Rightarrow> s
      | Some h \<Rightarrow> (case m_frames m h of
          None \<Rightarrow> s\<lparr>p_machine := m\<lparr>m_ub := True\<rparr>\<rparr>
        | Some fr \<Rightarrow> (case t_code fr of
            At (Co_await p k) \<Rightarrow>
              (case call_coroutine fsize bytes p s of
                 (None, s1) \<Rightarrow> s1\<lparr>p_machine := goes_on h (k (Exc bad)) (p_machine s1)\<rparr>
               | (Some c, s1) \<Rightarrow>
                   let m1 = (p_machine s1)\<lparr>m_frames := (m_frames (p_machine s1))(h \<mapsto> fr\<lparr>t_code := Awaiting c k\<rparr>)\<rparr>
                   in s1\<lparr>p_machine := (if await_ready (Some c) (m_frames m1) = Some True then m1 else await_suspend c (Some h) m1)\<rparr>)
          | Awaiting c k \<Rightarrow>
              (let (r, m1) = await_resume c m; s1 = destroy_frame c (s\<lparr>p_machine := m1\<rparr>)
               in case r of
                 Normal (Full v) \<Rightarrow> s1\<lparr>p_machine := goes_on h (k (Value v)) (p_machine s1)\<rparr>
               | Thrown e \<Rightarrow> s1\<lparr>p_machine := goes_on h (k (Exc e)) (p_machine s1)\<rparr>
               | _ \<Rightarrow> s\<lparr>p_machine := m\<lparr>m_ub := True\<rparr>\<rparr>)
          | _ \<Rightarrow> s\<lparr>p_machine := task_step (\<lambda>_. True) bad m\<rparr>)))"

section \<open>The reference\<close>

text \<open>
  Direct evaluation with \<open>n\<close> blocks left of \<open>bs\<close> bytes: an await that finds no block, or whose frame is too large, throws; while a task is awaited it
  holds a block.
\<close>

primrec within :: "nat \<Rightarrow> (('v, 'e) prog \<Rightarrow> size_t) \<Rightarrow> 'e \<Rightarrow> ('v, 'e) prog \<Rightarrow> nat \<Rightarrow> ('v, 'e) outcome" where
  "within bs fsize bad (Co_return v) = (\<lambda>n. Value v)"
| "within bs fsize bad (Throws e) = (\<lambda>n. Exc e)"
| "within bs fsize bad (Co_await p k) =
     (\<lambda>n. continue_with (\<lambda>r. within bs fsize bad (k r) n)
        (if n = 0 \<or> bs < unat (fsize p) then Exc bad else within bs fsize bad p (n - 1)))"

text \<open>The blocks a body needs, and whether all the frames it makes fit into a block.\<close>

primrec depth :: "('v, 'e) prog \<Rightarrow> nat" where
  "depth (Co_return v) = 0"
| "depth (Throws e) = 0"
| "depth (Co_await p k) = max (Suc (depth p)) (continue_with (\<lambda>r. depth (k r)) (direct p))"

primrec frames_fit :: "nat \<Rightarrow> (('v, 'e) prog \<Rightarrow> size_t) \<Rightarrow> ('v, 'e) prog \<Rightarrow> bool" where
  "frames_fit bs fsize (Co_return v) \<longleftrightarrow> True"
| "frames_fit bs fsize (Throws e) \<longleftrightarrow> True"
| "frames_fit bs fsize (Co_await p k) \<longleftrightarrow>
     unat (fsize p) \<le> bs \<and> frames_fit bs fsize p \<and> continue_with (\<lambda>r. frames_fit bs fsize (k r)) (direct p)"

lemma within_enough: "depth p \<le> n \<Longrightarrow> frames_fit bs fsize p \<Longrightarrow> within bs fsize bad p n = direct p"
proof (induction p arbitrary: n)
  case (Co_await p k)
  then have "within bs fsize bad p (n - 1) = direct p" by (intro Co_await.IH(1)) auto
  moreover have "within bs fsize bad (k (direct p)) n = direct (k (direct p))" using Co_await.prems by (intro Co_await.IH(2)) auto
  moreover have "n \<noteq> 0" "\<not> bs < unat (fsize p)" using Co_await.prems by auto
  ultimately show ?case by simp
qed simp_all

section \<open>Running in the pool\<close>

lemma deallocate_held: "cp_ok n bs P ((c, m) # L) \<Longrightarrow> cp_ok n bs (promise_delete c P) L"
  using cp_deallocate_ok [of n bs P "[]" c m L] by (simp add: promise_delete_def)

lemma held_count:
  assumes ok: "cp_ok n bs P L"
  shows "length L \<le> n"
proof -
  obtain free where dist: "distinct (free @ map fst L)" and all: "set (free @ map fst L) = (\<lambda>i. i * bs) ` {..<n}"
    using ok by (auto simp: cp_ok_def)
  have "length (free @ map fst L) = card ((\<lambda>i. i * bs) ` {..<n})" using distinct_card [OF dist] all by simp
  also have "\<dots> \<le> n" using card_image_le [of "{..<n}" "\<lambda>i. i * bs"] by simp
  finally show ?thesis by simp
qed

lemma new_cases:
  assumes ok: "cp_ok n bs P L"
  obtains (throws) "promise_new sz P = (Inl Bad_alloc, P)" "n - length L = 0 \<or> bs < unat sz"
  | (block) c P' where "promise_new sz P = (Inr c, P')" "cp_ok n bs (cp_write c (x c) P') ((c, bs) # L)" "length L < n" "unat sz \<le> bs"
      "c \<notin> fst ` set L"
proof (cases "fst (cp_allocate sz P)")
  case (Inl e)
  then have e: "fst (cp_allocate sz P) = Inl Bad_alloc" by (cases e) simp
  then have "promise_new sz P = (Inl Bad_alloc, P)"
    using cp_allocate_ok(2) [OF ok, of sz] by (simp add: promise_new_def prod_eq_iff)
  moreover have "n - length L = 0 \<or> bs < unat sz" using e cp_allocate_ok(3) [OF ok, of sz] held_count [OF ok] by auto
  ultimately show thesis by (rule throws)
next
  case (Inr c)
  let ?P = "snd (cp_allocate sz P)"
  have new: "cp_ok n bs ?P ((c, bs) # L)" by (rule cp_allocate_ok(1) [OF ok Inr])
  then have "cp_ok n bs (cp_write c (x c) ?P) ((c, bs) # L)" by (intro cp_write_ok) simp_all
  moreover have "promise_new sz P = (Inr c, ?P)" using Inr by (simp add: promise_new_def prod_eq_iff)
  moreover have "length L < n" "unat sz \<le> bs" using cp_allocate_ok(3) [OF ok, of sz] Inr by auto
  moreover have "c \<notin> fst ` set L" using new by (auto simp: cp_ok_def)
  ultimately show thesis by (intro block)
qed

abbreviation pooled_run ::
  "(('v, 'e) prog \<Rightarrow> size_t) \<Rightarrow> (nat \<Rightarrow> nat option) \<Rightarrow> 'e \<Rightarrow> nat \<Rightarrow> ('v, 'e) pooled \<Rightarrow> ('v, 'e) pooled" where
  "pooled_run fsize bytes bad k s \<equiv> (pooled_step fsize bytes bad ^^ k) s"

text \<open>A coroutine at \<open>p\<close>, with \<open>L\<close> the blocks in use, its own included.\<close>

definition running :: "(nat \<Rightarrow> ('v, 'e) task_frame option) \<Rightarrow> nat \<Rightarrow> ('v, 'e) frame_code \<Rightarrow> nat option \<Rightarrow> nat \<Rightarrow> cpool \<Rightarrow> ('v, 'e) pooled" where
  "running F h code cont nx P =
     \<lparr>p_machine = \<lparr>m_frames = F(h \<mapsto> \<lparr>t_code = code, m_value = Unset, m_exception = None, m_continuation = cont\<rparr>),
        m_current = Some h, m_next = nx, m_ub = False\<rparr>, p_pool = P\<rparr>"

definition ended :: "(nat \<Rightarrow> ('v, 'e) task_frame option) \<Rightarrow> nat \<Rightarrow> ('v, 'e) outcome \<Rightarrow> nat option \<Rightarrow> nat \<Rightarrow> cpool \<Rightarrow> ('v, 'e) pooled" where
  "ended F h r cont nx P =
     \<lparr>p_machine = \<lparr>m_frames = F(h \<mapsto> finished r cont), m_current = cont, m_next = nx, m_ub = False\<rparr>, p_pool = P\<rparr>"

lemma await_throws:
  assumes "promise_new (fsize p) P = (Inl Bad_alloc, P)"
  shows "pooled_step fsize bytes bad (running F h (At (Co_await p k)) cont nx P) = running F h (At (k (Exc bad))) cont nx P"
  using assms by (simp add: pooled_step_def running_def call_coroutine_def goes_on_def Let_def)

lemma await_calls:
  assumes "promise_new (fsize p) P = (Inr c, P')" and "F c = None" and "c \<noteq> h"
  shows "pooled_step fsize bytes bad (running F h (At (Co_await p k)) cont nx P) =
    running (F(h \<mapsto> \<lparr>t_code = Awaiting c k, m_value = Unset, m_exception = None, m_continuation = cont\<rparr>)) c (At p) (Some h) nx
      (cp_write c (bytes c) P')"
  using assms
  by (simp add: pooled_step_def running_def call_coroutine_def make_frame_def task_call_def await_ready_def await_suspend_def
      Let_def fun_upd_twist)

lemma await_ends:
  assumes "F c = None" and "c \<noteq> h"
  shows "pooled_step fsize bytes bad
    (ended (F(h \<mapsto> \<lparr>t_code = Awaiting c k, m_value = Unset, m_exception = None, m_continuation = cont\<rparr>)) c r (Some h) nx P) =
    running F h (At (k r)) cont nx (promise_delete c P)"
proof -
  have "F(h \<mapsto> x, c \<mapsto> y, c := None) = F(h \<mapsto> x)" "F(h \<mapsto> x, c := None) = F(h \<mapsto> x)" for x y using assms by auto
  then show ?thesis using assms
    by (cases r) (simp_all add: pooled_step_def ended_def running_def finished_def await_resume_def destroy_frame_def goes_on_def Let_def)
qed

lemma pooled_runs:
  assumes "cp_ok n bs P L" and "F h = None" and "h \<in> fst ` set L" and "dom F \<subseteq> fst ` set L"
  shows "\<exists>i P'. pooled_run fsize bytes bad i (running F h (At p) cont nx P) =
      ended F h (within bs fsize bad p (n - length L)) cont nx P' \<and> cp_ok n bs P' L"
  using assms
proof (induction p arbitrary: F h cont P L)
  case (Co_return v)
  then show ?case
    by (intro exI [of _ 1] exI [of _ P])
      (simp add: running_def ended_def pooled_step_def task_step_def final_suspend_def finished_def fun_eq_iff)
next
  case (Throws e)
  then show ?case
    by (intro exI [of _ 1] exI [of _ P])
      (simp add: running_def ended_def pooled_step_def task_step_def final_suspend_def finished_def fun_eq_iff)
next
  case (Co_await p k)
  let ?run = "pooled_run fsize bytes bad"
  let ?b = "n - length L"
  from Co_await.prems(1) show ?case
  proof (cases rule: new_cases [where sz = "fsize p" and x = bytes])
    case throws
    obtain i P' where i: "?run i (running F h (At (k (Exc bad))) cont nx P) = ended F h (within bs fsize bad (k (Exc bad)) ?b) cont nx P'"
      and ok: "cp_ok n bs P' L" using Co_await.IH(2) [OF rangeI Co_await.prems] by blast
    have "?run (Suc i) (running F h (At (Co_await p k)) cont nx P) = ended F h (within bs fsize bad (k (Exc bad)) ?b) cont nx P'"
      using i by (simp add: funpow_Suc_right await_throws [where fsize = fsize, OF throws(1)] del: funpow.simps)
    moreover have "within bs fsize bad (Co_await p k) ?b = within bs fsize bad (k (Exc bad)) ?b" using throws(2) by simp
    ultimately show ?thesis using ok by metis
  next
    case (block c P1)
    let ?me = "\<lambda>code. \<lparr>t_code = code, m_value = Unset, m_exception = None, m_continuation = cont\<rparr>"
    let ?G = "F(h \<mapsto> ?me (Awaiting c k))"
    let ?r = "within bs fsize bad p (?b - 1)"
    have c: "c \<noteq> h" "F c = None" using block(5) Co_await.prems(3,4) by auto
    have "\<exists>i P'. ?run i (running ?G c (At p) (Some h) nx (cp_write c (bytes c) P1)) =
        ended ?G c (within bs fsize bad p (n - length ((c, bs) # L))) (Some h) nx P' \<and> cp_ok n bs P' ((c, bs) # L)"
    proof (rule Co_await.IH(1) [OF block(2)])
      have "dom ?G \<subseteq> insert h (dom F)" by auto
      also have "\<dots> \<subseteq> fst ` set ((c, bs) # L)" using Co_await.prems(3,4) by auto
      finally show "dom ?G \<subseteq> fst ` set ((c, bs) # L)" .
    qed (use c in simp_all)
    then obtain i P2 where i: "?run i (running ?G c (At p) (Some h) nx (cp_write c (bytes c) P1)) = ended ?G c ?r (Some h) nx P2"
      and ok2: "cp_ok n bs P2 ((c, bs) # L)" by auto
    have ok3: "cp_ok n bs (promise_delete c P2) L" by (rule deallocate_held [OF ok2])
    obtain j P' where j: "?run j (running F h (At (k ?r)) cont nx (promise_delete c P2)) =
        ended F h (within bs fsize bad (k ?r) ?b) cont nx P'" and ok: "cp_ok n bs P' L"
      using Co_await.IH(2) [OF rangeI ok3 Co_await.prems(2-4)] by blast
    let ?step = "pooled_step fsize bytes bad"
    have "?run (j + Suc (i + 1)) x = ?run j (?step (?run i (?step x)))" for x
      by (simp only: funpow_add funpow.simps comp_apply One_nat_def id_apply)
    then have "?run (j + Suc (i + 1)) (running F h (At (Co_await p k)) cont nx P) =
        ?run j (?step (?run i (?step (running F h (At (Co_await p k)) cont nx P))))" .
    also have "\<dots> = ended F h (within bs fsize bad (k ?r) ?b) cont nx P'"
      unfolding await_calls [where fsize = fsize and p = p and F = F, OF block(1) c(2,1)] i await_ends [where F = F, OF c(2,1)] j ..
    finally have "?run (j + Suc (i + 1)) (running F h (At (Co_await p k)) cont nx P) = ended F h (within bs fsize bad (k ?r) ?b) cont nx P'" .
    moreover have "within bs fsize bad (Co_await p k) ?b = within bs fsize bad (k ?r) ?b" using block(3,4) by simp
    ultimately show ?thesis using ok by metis
  qed
qed

section \<open>Properties\<close>

definition empty_machine :: "('v, 'e) machine" where
  "empty_machine = \<lparr>m_frames = Map.empty, m_current = None, m_next = 0, m_ub = False\<rparr>"

text \<open>Somebody who is not a task, and so has no continuation to give, resumes the task.\<close>

definition start_task :: "nat \<Rightarrow> ('v, 'e) pooled \<Rightarrow> ('v, 'e) pooled" where
  "start_task c s = s\<lparr>p_machine := await_suspend c None (p_machine s)\<rparr>"

text \<open>
  (C32) After \<open>init\<close> for \<open>n\<close> blocks a task, called and resumed, runs to its end with the outcome of the evaluation in which
  exactly those awaits throw \<open>bad_alloc\<close> that are nested deeper than the blocks reach or whose frame is too large, whatever the frames
  write into their blocks; so if the awaits nest less than \<open>n\<close> deep and the frames fit, with the outcome of the direct
  evaluation.  When the \<open>Task\<close> is destroyed no frame is left and all \<open>n\<close> blocks are free again.
\<close>

theorem task_runs_in_pool:
  fixes p :: "('v, 'e) prog" and P :: cpool
  assumes "\<not> s_initialized P0" and "\<not> s_ub P0" and "0 < n" and "unat b \<le> 2 ^ 64 - 16"
    and "n * unat (round_block b) < 2 ^ 64" and "n * unat (round_block b) \<le> heap" and "P = snd (cp_init heap n b P0)"
    and "bs = unat (round_block b)" and "unat (fsize p) \<le> bs"
  shows "\<exists>c s1 i. call_coroutine fsize bytes p \<lparr>p_machine = empty_machine, p_pool = P\<rparr> = (Some c, s1) \<and>
    (let s = pooled_run fsize bytes bad i (start_task c s1); r = within bs fsize bad p (n - 1); s2 = destroy_frame c s in
       m_current (p_machine s) = None \<and> \<not> m_ub (p_machine s) \<and>
       fst (await_resume c (p_machine s)) = (case r of Value v \<Rightarrow> Normal (Full v) | Exc e \<Rightarrow> Thrown e) \<and>
       m_frames (p_machine s2) = Map.empty \<and> cp_ok n bs (p_pool s2) [] \<and>
       (depth p < n \<and> frames_fit bs fsize p \<longrightarrow> r = direct p))"
proof -
  have ok: "cp_ok n bs P []" unfolding assms(7,8) by (rule init_ok(2) [OF assms(1-6)])
  then show ?thesis
  proof (cases rule: new_cases [where sz = "fsize p" and x = bytes])
    case throws
    then show ?thesis using assms(3,9) by simp
  next
    case (block c P1)
    let ?Q = "cp_write c (bytes c) P1"
    let ?s1 = "\<lparr>p_machine = make_frame c p empty_machine, p_pool = ?Q\<rparr> :: ('v, 'e) pooled"
    have call: "call_coroutine fsize bytes p \<lparr>p_machine = empty_machine, p_pool = P\<rparr> = (Some c, ?s1)"
      using block(1) by (simp add: call_coroutine_def)
    have start: "start_task c ?s1 = running Map.empty c (At p) None 0 ?Q"
      by (simp add: start_task_def running_def make_frame_def empty_machine_def task_call_def await_suspend_def)
    obtain i P2 where i: "pooled_run fsize bytes bad i (start_task c ?s1) = ended Map.empty c (within bs fsize bad p (n - 1)) None 0 P2"
      and ok2: "cp_ok n bs P2 [(c, bs)]"
      unfolding start using pooled_runs [OF block(2), of Map.empty c fsize bytes bad p None 0] by auto
    have "depth p < n \<and> frames_fit bs fsize p \<longrightarrow> within bs fsize bad p (n - 1) = direct p"
      by (auto intro: within_enough)
    then show ?thesis using call i deallocate_held [OF ok2]
      by (intro exI [of _ c] exI [of _ ?s1] exI [of _ i])
        (auto simp: Let_def ended_def destroy_frame_def await_resume_def finished_def split: outcome.splits)
  qed
qed

text \<open>A body that awaits a task that awaits a task, and catches what comes out.\<close>

definition nested_body :: "(nat, string) prog" where
  "nested_body =
     Co_await (Co_await (Co_return 7) (\<lambda>r. case r of Value v \<Rightarrow> Co_return (Suc v) | Exc e \<Rightarrow> Throws e))
       (\<lambda>r. case r of Value v \<Rightarrow> Co_return v | Exc e \<Rightarrow> Co_return 0)"

lemma task_runs_in_pool_witness:
  "\<exists>c s1 i. call_coroutine (\<lambda>_. 100) (\<lambda>_. Some 3) nested_body
      \<lparr>p_machine = empty_machine, p_pool = snd (cp_init 4096 2 256 cp_static)\<rparr> = (Some c, s1) \<and>
     fst (await_resume c (p_machine (pooled_run (\<lambda>_. 100) (\<lambda>_. Some 3) ''bad_alloc'' i (start_task c s1)))) = Normal (Full 0)"
proof -
  have bs: "unat (round_block 256) = 256" by (simp add: round_block_nat)
  have r: "within 256 (\<lambda>_. 100) ''bad_alloc'' nested_body (2 - 1) = Value 0" by (simp add: nested_body_def)
  have init: "\<not> s_initialized cp_static" "\<not> s_ub cp_static" by (simp_all add: cp_static_def)
  have args: "0 < (2 :: nat)" "unat (256 :: size_t) \<le> 2 ^ 64 - 16" "2 * unat (round_block 256) < 2 ^ 64"
    "2 * unat (round_block 256) \<le> 4096" using bs by simp_all
  have fits: "unat ((\<lambda>_. 100 :: size_t) nested_body) \<le> 256" by simp
  from task_runs_in_pool [where p = nested_body and fsize = "\<lambda>_. 100" and bytes = "\<lambda>_. Some 3" and bad = "''bad_alloc''",
      OF init args refl bs [symmetric] fits]
  obtain c s1 i where "call_coroutine (\<lambda>_. 100) (\<lambda>_. Some 3) nested_body
      \<lparr>p_machine = empty_machine, p_pool = snd (cp_init 4096 2 256 cp_static)\<rparr> = (Some c, s1)"
    and "fst (await_resume c (p_machine (pooled_run (\<lambda>_. 100) (\<lambda>_. Some 3) ''bad_alloc'' i (start_task c s1)))) =
      (case within 256 (\<lambda>_. 100) ''bad_alloc'' nested_body (2 - 1) of Value v \<Rightarrow> Normal (Full v) | Exc e \<Rightarrow> Thrown e)"
    unfolding Let_def by (elim exE conjE) (rule that)
  then show ?thesis unfolding r outcome.case by blast
qed

end
