(* ===== verification/VoidTask.thy ===== *)
theory VoidTask
  imports Coroutines
begin

text \<open>
  The specialisation \<open>Task<void>\<close> (modern_cpp_core/coroutines/task.hpp): its promise has no value, and its \<open>await_resume\<close> only
  rethrows.  The bodies are those of \<open>Task\<close> with the one value of type \<open>unit\<close>; the machine of \<open>Task<unit>\<close>, with its
  values erased, is the machine of \<open>Task<void>\<close>, as long as no task is awaited twice.
\<close>

record 'e void_frame =
  v_code :: "(unit, 'e) frame_code"
  v_exception :: "'e option"
  v_continuation :: "nat option"

record 'e void_machine =
  v_frames :: "nat \<Rightarrow> 'e void_frame option"
  v_current :: "nat option"
  v_next :: nat
  v_ub :: bool

definition void_call :: "(unit, 'e) prog \<Rightarrow> 'e void_frame" where
  "void_call p = \<lparr>v_code = At p, v_exception = None, v_continuation = None\<rparr>"

definition void_await_ready :: "nat option \<Rightarrow> (nat \<Rightarrow> 'e void_frame option) \<Rightarrow> bool option" where
  "void_await_ready m_coroutine F =
     (case m_coroutine of None \<Rightarrow> None | Some c \<Rightarrow> map_option (\<lambda>fr. v_code fr = Final) (F c))"

definition void_is_ready :: "nat option \<Rightarrow> (nat \<Rightarrow> 'e void_frame option) \<Rightarrow> bool option" where
  "void_is_ready m_coroutine F =
     (case m_coroutine of None \<Rightarrow> Some True | Some c \<Rightarrow> map_option (\<lambda>fr. v_code fr = Final) (F c))"

definition void_await_suspend :: "nat \<Rightarrow> nat option \<Rightarrow> 'e void_machine \<Rightarrow> 'e void_machine" where
  "void_await_suspend c continuation s =
     (case v_frames s c of
        None \<Rightarrow> s\<lparr>v_ub := True\<rparr>
      | Some fr \<Rightarrow> s\<lparr>v_frames := (v_frames s)(c \<mapsto> fr\<lparr>v_continuation := continuation\<rparr>), v_current := Some c\<rparr>)"

definition void_await_resume :: "nat \<Rightarrow> 'e void_machine \<Rightarrow> (unit, 'e) result" where
  "void_await_resume c s =
     (case v_frames s c of
        None \<Rightarrow> Undefined
      | Some fr \<Rightarrow> (case v_exception fr of Some e \<Rightarrow> Thrown e | None \<Rightarrow> Normal ()))"

definition void_final_suspend :: "nat \<Rightarrow> 'e void_frame \<Rightarrow> 'e void_machine \<Rightarrow> 'e void_machine" where
  "void_final_suspend h fr s =
     s\<lparr>v_frames := (v_frames s)(h \<mapsto> fr\<lparr>v_code := Final\<rparr>), v_current := v_continuation fr\<rparr>"

definition void_goes_on :: "nat \<Rightarrow> (unit, 'e) prog \<Rightarrow> 'e void_machine \<Rightarrow> 'e void_machine" where
  "void_goes_on h p s =
     (case v_frames s h of None \<Rightarrow> s\<lparr>v_ub := True\<rparr>
      | Some fr \<Rightarrow> s\<lparr>v_frames := (v_frames s)(h \<mapsto> fr\<lparr>v_code := At p\<rparr>)\<rparr>)"

text \<open>\<open>return_void\<close> stores nothing, \<open>unhandled_exception\<close> the exception.\<close>

definition void_step :: "(nat \<Rightarrow> bool) \<Rightarrow> 'e \<Rightarrow> 'e void_machine \<Rightarrow> 'e void_machine" where
  "void_step alloc bad s =
     (case v_current s of
        None \<Rightarrow> s
      | Some h \<Rightarrow> (case v_frames s h of
          None \<Rightarrow> s\<lparr>v_ub := True\<rparr>
        | Some fr \<Rightarrow> (case v_code fr of
            At (Co_return v) \<Rightarrow> void_final_suspend h fr s
          | At (Throws e) \<Rightarrow> void_final_suspend h (fr\<lparr>v_exception := Some e\<rparr>) s
          | At (Co_await p k) \<Rightarrow>
              if \<not> alloc (v_next s) then void_goes_on h (k (Exc bad)) (s\<lparr>v_next := Suc (v_next s)\<rparr>)
              else
              (let c = v_next s;
                   s1 = s\<lparr>v_frames := (v_frames s)(c \<mapsto> void_call p, h \<mapsto> fr\<lparr>v_code := Awaiting c k\<rparr>), v_next := Suc c\<rparr>
               in if void_await_ready (Some c) (v_frames s1) = Some True then s1 else void_await_suspend c (Some h) s1)
          | Awaiting c k \<Rightarrow>
              (let s2 = s\<lparr>v_frames := (v_frames s)(c := None)\<rparr>
               in case void_await_resume c s of
                 Normal u \<Rightarrow> void_goes_on h (k (Value u)) s2
               | Thrown e \<Rightarrow> void_goes_on h (k (Exc e)) s2
               | Undefined \<Rightarrow> s\<lparr>v_ub := True\<rparr>)
          | Final \<Rightarrow> s\<lparr>v_ub := True\<rparr>)))"

primrec void_steps :: "(nat \<Rightarrow> bool) \<Rightarrow> 'e \<Rightarrow> nat \<Rightarrow> 'e void_machine \<Rightarrow> 'e void_machine" where
  "void_steps alloc bad 0 s = s"
| "void_steps alloc bad (Suc n) s = void_steps alloc bad n (void_step alloc bad s)"

section \<open>Erasing the value\<close>

definition erase_frame :: "(unit, 'e) task_frame \<Rightarrow> 'e void_frame" where
  "erase_frame fr = \<lparr>v_code = t_code fr, v_exception = m_exception fr, v_continuation = m_continuation fr\<rparr>"

definition erase :: "(unit, 'e) machine \<Rightarrow> 'e void_machine" where
  "erase s = \<lparr>v_frames = (\<lambda>c. map_option erase_frame (m_frames s c)), v_current = m_current s, v_next = m_next s, v_ub = m_ub s\<rparr>"

lemma void_erase_simps [simp]:
  "v_code (erase_frame fr) = t_code fr" "v_exception (erase_frame fr) = m_exception fr"
  "v_continuation (erase_frame fr) = m_continuation fr"
  "v_frames (erase s) c = map_option erase_frame (m_frames s c)" "v_current (erase s) = m_current s"
  "v_next (erase s) = m_next s" "v_ub (erase s) = m_ub s"
  by (simp_all add: erase_frame_def erase_def)

lemma erase_step:
  assumes "\<not> m_ub (task_step alloc bad s)"
  shows "void_step alloc bad (erase s) = erase (task_step alloc bad s)"
proof (cases "m_current s")
  case None
  then show ?thesis by (simp add: void_step_def task_step_def)
next
  case (Some h)
  then obtain fr where fr: "m_frames s h = Some fr" using assms by (cases "m_frames s h") (simp_all add: task_step_def)
  show ?thesis
  proof (cases "t_code fr")
    case (At p)
    show ?thesis
    proof (cases p)
      case (Co_return v)
      with At fr Some show ?thesis
        by (auto simp: void_step_def task_step_def void_final_suspend_def final_suspend_def erase_def erase_frame_def)
    next
      case (Throws e)
      with At fr Some show ?thesis
        by (auto simp: void_step_def task_step_def void_final_suspend_def final_suspend_def erase_def erase_frame_def)
    next
      case (Co_await q k)
      with At fr Some show ?thesis
        by (auto simp: void_step_def task_step_def Let_def void_await_ready_def await_ready_def void_await_suspend_def
            await_suspend_def goes_on_def void_goes_on_def erase_def erase_frame_def void_call_def task_call_def fun_eq_iff)
    qed
  next
    case (Awaiting c k)
    with assms fr Some show ?thesis
      by (auto simp: void_step_def task_step_def Let_def void_await_resume_def await_resume_def goes_on_def void_goes_on_def
          erase_def erase_frame_def fun_eq_iff split: option.splits slot.splits)
  next
    case Final
    with assms fr Some show ?thesis by (simp add: task_step_def)
  qed
qed

lemma ub_stays: "m_ub s \<Longrightarrow> m_ub (task_step alloc bad s)"
  by (auto simp: task_step_def final_suspend_def await_suspend_def await_resume_def goes_on_def Let_def
      split: option.splits frame_code.splits prog.splits slot.splits if_splits)

lemma ub_stays_run: "m_ub s \<Longrightarrow> m_ub (run_steps alloc bad n s)"
  by (induction n arbitrary: s) (simp_all add: ub_stays)

lemma erase_run:
  "\<not> m_ub (run_steps alloc bad n s) \<Longrightarrow> void_steps alloc bad n (erase s) = erase (run_steps alloc bad n s)"
proof (induction n arbitrary: s)
  case (Suc n)
  have "\<not> m_ub (task_step alloc bad s)" using Suc.prems ub_stays_run [of "task_step alloc bad s" alloc bad n] by auto
  then show ?case using Suc by (simp add: erase_step)
qed simp

section \<open>Properties\<close>

text \<open>
  (C35) \<open>Task<void>\<close> runs as the direct evaluation of its body: within the steps counted by \<open>steps_of\<close>, and whichever frames find no memory, it ends, without undefined behaviour, with
  every frame made on the way destroyed; \<open>await_resume\<close> returns, or rethrows the body's exception, and, unlike that of
  \<open>Task<T>\<close>, any number of times.  The machine is that of \<open>Task\<close> with the values erased.
\<close>

theorem void_task_is_task_without_value:
  fixes p :: "(unit, 'e) prog" and alloc :: "nat \<Rightarrow> bool" and bad :: 'e
  defines "d \<equiv> calls_direct alloc bad p 1"
  defines "s0 \<equiv> \<lparr>m_frames = [0 \<mapsto> task_call p], m_current = None, m_next = 1, m_ub = False\<rparr>"
  defines "v0 \<equiv> \<lparr>v_frames = [0 \<mapsto> void_call p], v_current = None, v_next = 1, v_ub = False\<rparr>"
  defines "v \<equiv> void_steps alloc bad (steps_of d) (void_await_suspend 0 None v0)"
  shows "v = erase (run_steps alloc bad (steps_of d) (await_suspend 0 None s0)) \<and> v_current v = None \<and> \<not> v_ub v \<and> dom (v_frames v) = {0} \<and>
    void_is_ready (Some 0) (v_frames v) = Some True \<and>
    void_await_resume 0 v = (case outcome_of d of Value u \<Rightarrow> Normal () | Exc e \<Rightarrow> Thrown e)"
proof -
  have start: "await_suspend 0 None s0 = \<lparr>m_frames = Map.empty(0 \<mapsto> \<lparr>t_code = At p, m_value = Unset, m_exception = None,
      m_continuation = None\<rparr>), m_current = Some 0, m_next = 1, m_ub = False\<rparr>"
    by (simp add: await_suspend_def s0_def task_call_def fun_eq_iff)
  have run: "run_steps alloc bad (steps_of d) (await_suspend 0 None s0) =
      \<lparr>m_frames = [0 \<mapsto> finished (outcome_of d) None], m_current = None, m_next = next_call d, m_ub = False\<rparr>"
    unfolding start d_def by (rule task_runs) (simp_all add: fresh_from_def)
  have "void_await_suspend 0 None v0 = erase (await_suspend 0 None s0)"
    by (simp add: start v0_def void_await_suspend_def void_call_def erase_def erase_frame_def fun_eq_iff)
  then have v: "v = erase (run_steps alloc bad (steps_of d) (await_suspend 0 None s0))"
    unfolding v_def using erase_run [of alloc bad "steps_of d" "await_suspend 0 None s0"] run by simp
  show ?thesis unfolding v run
    by (auto simp: erase_def erase_frame_def finished_def void_is_ready_def void_await_resume_def split: outcome.splits if_splits)
qed

text \<open>Awaited twice, a \<open>Task<T>\<close> gives a value that was moved away; a \<open>Task<void>\<close> does not change.\<close>

lemma void_task_can_be_awaited_again:
  "await_resume 0 \<lparr>m_frames = [0 \<mapsto> finished (Value x) None], m_current = None, m_next = 1, m_ub = False\<rparr> = (r, s)
     \<Longrightarrow> r = Normal (Full x) \<and> fst (await_resume 0 s) = Normal MovedFrom"
  by (auto simp: await_resume_def finished_def)

end
