(* ===== verification/TreiberMain.thy ===== *)
theory TreiberMain
  imports TreiberStack
begin

text \<open>
  The program of C++_ConcurrencyInAction/memory_atomicOperation/treiberStack.cpp: \<open>main\<close> starts two workers, each of which
  pushes five values, joins them, and pops and prints until the stack is empty.  The stack is that of the theory
  \<open>TreiberStack\<close>, access by access; the event says which thread moves, and whether a weak compare-exchange fails spuriously.
\<close>

section \<open>The program\<close>

datatype main_pc = Joining | CallPop | InPop | Done

record main_prog =
  mp_stack :: "nat treiber"
  mp_i :: "nat \<Rightarrow> nat"   \<comment> \<open>the pushes a worker has begun\<close>
  mp_pc :: main_pc
  mp_printed :: "nat list"

definition main_start :: main_prog where
  "main_start = \<lparr>mp_stack = tr_new, mp_i = (\<lambda>_. 0), mp_pc = Joining, mp_printed = []\<rparr>"

definition start_val :: "nat \<Rightarrow> nat" where
  "start_val t = 100 * t"

definition worker_turn :: "nat \<Rightarrow> bool \<Rightarrow> main_prog \<Rightarrow> main_prog" where
  "worker_turn t spurious s =
     (if tr_pcs (mp_stack s) t \<noteq> TIdle
      then s\<lparr>mp_stack := tr_step (t, if spurious then TSpurious else TPush 0) (mp_stack s)\<rparr>
      else if mp_i s t < 5
      then s\<lparr>mp_stack := tr_step (t, TPush (start_val t + mp_i s t)) (mp_stack s), mp_i := (mp_i s)(t := Suc (mp_i s t))\<rparr>
      else s)"

definition joined :: "nat \<Rightarrow> main_prog \<Rightarrow> bool" where
  "joined t s \<longleftrightarrow> mp_i s t = 5 \<and> tr_pcs (mp_stack s) t = TIdle"

definition main_turn :: "bool \<Rightarrow> main_prog \<Rightarrow> main_prog" where
  "main_turn spurious s =
     (case mp_pc s of
        Joining \<Rightarrow> if joined 1 s \<and> joined 2 s then s\<lparr>mp_pc := CallPop\<rparr> else s
      | CallPop \<Rightarrow> s\<lparr>mp_stack := tr_step (0, TPop) (mp_stack s), mp_pc := InPop\<rparr>
      | InPop \<Rightarrow>
          if tr_pcs (mp_stack s) 0 \<noteq> TIdle
          then s\<lparr>mp_stack := tr_step (0, if spurious then TSpurious else TPop) (mp_stack s)\<rparr>
          else (case snd (last (tr_out (mp_stack s))) of
                  Some val \<Rightarrow> s\<lparr>mp_printed := mp_printed s @ [val], mp_pc := CallPop\<rparr>
                | None \<Rightarrow> s\<lparr>mp_pc := Done\<rparr>)
      | Done \<Rightarrow> s)"

definition main_step :: "nat \<times> bool \<Rightarrow> main_prog \<Rightarrow> main_prog" where
  "main_step e s = (case e of (t, spurious) \<Rightarrow>
     if t = 0 then main_turn spurious s else if t = 1 \<or> t = 2 then worker_turn t spurious s else s)"

section \<open>The values on the stack\<close>

text \<open>Values of a worker in a list; the number it has pushed.\<close>

definition of_worker :: "nat \<Rightarrow> nat list \<Rightarrow> nat list" where
  "of_worker t xs = filter (\<lambda>v. v div 100 = t) xs"

definition pushed_by :: "nat \<Rightarrow> main_prog \<Rightarrow> nat" where
  "pushed_by t s = (if tr_pcs (mp_stack s) t = TIdle then mp_i s t else mp_i s t - 1)"

text \<open>The value a pop has unlinked, or that it has returned and \<open>main\<close> has not printed.\<close>

definition unprinted :: "main_prog \<Rightarrow> nat list" where
  "unprinted s =
     (if mp_pc s = InPop then
        case tr_pcs (mp_stack s) 0 of
          TFinish p \<Rightarrow> [the (tr_data (mp_stack s) p)]
        | TIdle \<Rightarrow> (case snd (last (tr_out (mp_stack s))) of Some v \<Rightarrow> [v] | None \<Rightarrow> [])
        | _ \<Rightarrow> []
      else [])"

definition produced :: "main_prog \<Rightarrow> nat list" where
  "produced s = mp_printed s @ unprinted s @ tr_list (mp_stack s)"

fun pushing :: "tr_pc \<Rightarrow> nat option" where
  "pushing (TPushLoad n) = Some n"
| "pushing (TPushCas n) = Some n"
| "pushing _ = None"

definition mp_inv :: "main_prog \<Rightarrow> bool" where
  "mp_inv s \<longleftrightarrow> tr_inv 0 (mp_stack s)
     \<and> (\<forall>t \<in> {1, 2}. mp_i s t \<le> 5 \<and>
          (tr_pcs (mp_stack s) t \<noteq> TIdle \<longrightarrow> 0 < mp_i s t \<and>
            (\<exists>n. pushing (tr_pcs (mp_stack s) t) = Some n \<and> tr_data (mp_stack s) n = Some (start_val t + mp_i s t - 1))) \<and>
          of_worker t (produced s) = rev (map (\<lambda>i. start_val t + i) [0..<pushed_by t s]))
     \<and> (\<forall>v \<in> set (produced s). v div 100 = 1 \<or> v div 100 = 2)
     \<and> (mp_pc s = Joining \<or> joined 1 s \<and> joined 2 s)
     \<and> (mp_pc s \<noteq> InPop \<longrightarrow> tr_pcs (mp_stack s) 0 = TIdle)
     \<and> (mp_pc s = Joining \<longrightarrow> mp_printed s = [])
     \<and> (mp_pc s = InPop \<longrightarrow> pushing (tr_pcs (mp_stack s) 0) = None \<and>
          (tr_pcs (mp_stack s) 0 = TPopTest None \<longrightarrow> tr_list (mp_stack s) = []) \<and>
          (tr_pcs (mp_stack s) 0 = TIdle \<longrightarrow> tr_out (mp_stack s) \<noteq> [] \<and>
            (snd (last (tr_out (mp_stack s))) = None \<longrightarrow> tr_list (mp_stack s) = [])))
     \<and> (mp_pc s = Done \<longrightarrow> tr_list (mp_stack s) = [])"

section \<open>Steps of the stack\<close>

lemma stack_sim: "tr_inv 0 st \<Longrightarrow> one_popper 0 (t, call) \<Longrightarrow> tr_sim 0 st (t, call)"
  by (rule tr_step_sim)

lemma stack_frame: "u \<noteq> t \<Longrightarrow> tr_pcs (tr_step (t, call) st) u = tr_pcs st u"
  and stack_data: "n < tr_alloc st \<Longrightarrow> tr_data (tr_step (t, call) st) n = tr_data st n"
  by (auto simp: tr_step.simps tr_call_step_def tr_touch_def tr_answer_def Let_def split: tr_pc.splits tr_call.splits option.splits)

lemma own_allocated: "tr_inv c st \<Longrightarrow> pushing (tr_pcs st t) = Some n \<Longrightarrow> n < tr_alloc st"
proof -
  assume "tr_inv c st" and n: "pushing (tr_pcs st t) = Some n"
  then obtain xs where "tr_ok c st xs" by (auto simp: tr_inv_def)
  moreover have "tr_own (tr_pcs st t) = Some n" using n by (cases "tr_pcs st t") simp_all
  ultimately show "n < tr_alloc st" by (blast dest: tr_okD(4))
qed

lemma empty_list: "tr_head st = None \<Longrightarrow> tr_list st = []"
  by (cases "tr_alloc st") (simp_all add: tr_list_def tr_nodes_def)

lemma begin_push:
  assumes inv: "tr_inv 0 st" and idle: "tr_pcs st t = TIdle" and st': "st' = tr_step (t, TPush v) st"
  shows "tr_inv 0 st'" and "tr_list st' = tr_list st" and "tr_pcs st' t = TPushLoad (tr_alloc st)"
    and "tr_data st' (tr_alloc st) = Some v"
proof -
  have "tr_vis0 (t, TPush v) st = None" using idle by simp
  then show "tr_inv 0 st'" "tr_list st' = tr_list st" using stack_sim [OF inv, of t "TPush v"] by (simp_all add: tr_sim_def st')
  show "tr_pcs st' t = TPushLoad (tr_alloc st)" "tr_data st' (tr_alloc st) = Some v"
    using idle by (simp_all add: st' tr_step.simps tr_call_step_def Let_def)
qed

lemma go_on_push:
  assumes inv: "tr_inv 0 st" and pc: "pushing (tr_pcs st t) = Some n" and v: "tr_data st n = Some v" and call: "call \<noteq> TPop"
    and st': "st' = tr_step (t, call) st"
  shows "tr_inv 0 st'"
    and "pushing (tr_pcs st' t) = Some n \<and> tr_list st' = tr_list st \<or> tr_pcs st' t = TIdle \<and> tr_list st' = v # tr_list st"
    and "tr_data st' n = Some v"
proof -
  have one: "one_popper 0 (t, call)" using call by (cases call) simp_all
  note sim = stack_sim [OF inv one]
  then show "tr_inv 0 st'" by (simp add: tr_sim_def st')
  show "tr_data st' n = Some v" using stack_data [OF own_allocated [OF inv pc]] v by (simp add: st')
  have pcs: "pushing (tr_pcs st' t) = Some n \<and> tr_vis0 (t, call) st = None \<or>
      tr_pcs st' t = TIdle \<and> tr_vis0 (t, call) st = Some (Push v True)"
    using pc v by (cases "tr_pcs st t") (auto simp: st' tr_step.simps Let_def)
  then show "pushing (tr_pcs st' t) = Some n \<and> tr_list st' = tr_list st \<or> tr_pcs st' t = TIdle \<and> tr_list st' = v # tr_list st"
    using sim by (auto simp: tr_sim_def st' split: option.splits)
qed

text \<open>What one step of the popping thread does to the list and to the value in its hands.\<close>

fun unlinked :: "nat treiber \<Rightarrow> nat list" where
  "unlinked st = (case tr_pcs st 0 of TFinish p \<Rightarrow> [the (tr_data st p)] | _ \<Rightarrow> [])"

lemma go_on_pop:
  assumes inv: "tr_inv 0 st" and pc: "tr_pcs st 0 \<noteq> TIdle" "pushing (tr_pcs st 0) = None"
    and empty: "tr_pcs st 0 = TPopTest None \<Longrightarrow> tr_list st = []"
    and st': "st' = tr_step (0, call) st"
  shows "tr_inv 0 st' \<and> pushing (tr_pcs st' 0) = None \<and> (tr_pcs st' 0 = TPopTest None \<longrightarrow> tr_list st' = []) \<and>
    (if tr_pcs st' 0 = TIdle
     then tr_list st' = tr_list st \<and> (\<exists>out r. tr_out st' = out @ [(0, r)] \<and>
       (case r of Some v \<Rightarrow> unlinked st = [v] | None \<Rightarrow> unlinked st = [] \<and> tr_list st = []))
     else unlinked st' @ tr_list st' = unlinked st @ tr_list st)"
proof -
  obtain xs where ok: "tr_ok 0 st xs" using inv by (auto simp: tr_inv_def)
  have one: "one_popper 0 (0, call)" by (cases call) simp_all
  note sim = stack_sim [OF inv one]
  have inv': "tr_inv 0 st'" using sim by (simp add: tr_sim_def st')
  have same: "tr_list st' = tr_list st" if "tr_vis0 (0, call) st = None" using sim that by (simp add: tr_sim_def st')
  have seen: "lifo_spec None l (tr_list st) = Some (tr_list st')" if "tr_vis0 (0, call) st = Some l" for l
    using sim that by (simp add: tr_sim_def st')
  show ?thesis
  proof (cases "tr_pcs st 0")
    case TPopLoad
    then have "tr_list st' = tr_list st" using same seen [of "Pop None"] by (cases "tr_head st = None") (auto split: if_splits)
    moreover have "tr_pcs st' 0 = TPopTest (tr_head st)" using TPopLoad by (simp add: st' tr_step.simps Let_def)
    ultimately show ?thesis using inv' TPopLoad empty_list [of st] by simp
  next
    case (TPopTest r)
    then have "tr_list st' = tr_list st" using same by simp
    then show ?thesis using inv' TPopTest empty
      by (cases r) (auto simp: st' tr_step.simps Let_def tr_answer_def tr_touch_def)
  next
    case (TPopCas p nxt)
    show ?thesis
    proof (cases "tr_vis0 (0, call) st")
      case None
      then have "tr_pcs st' 0 = TPopTest (tr_head st)" using TPopCas by (auto simp: st' tr_step.simps Let_def split: if_splits)
      then show ?thesis using inv' same [OF None] TPopCas empty_list [of st] by simp
    next
      case (Some l)
      then have l: "l = Pop (Some (the (tr_data st p)))" and "tr_pcs st' 0 = TFinish p" and "tr_data st' = tr_data st"
        using TPopCas by (auto simp: st' tr_step.simps Let_def split: if_splits)
      moreover have "tr_list st = the (tr_data st p) # tr_list st'"
        using seen [OF Some] by (cases "tr_list st") (auto simp: l split: if_splits)
      ultimately show ?thesis using inv' TPopCas by simp
    qed
  next
    case (TFinish p)
    then have "tr_list st' = tr_list st" using same by simp
    then show ?thesis using inv' TFinish by (simp add: st' tr_step.simps Let_def tr_answer_def tr_touch_def)
  qed (use pc in simp_all)
qed

section \<open>The invariant\<close>

lemma of_worker_simps [simp]:
  "of_worker t [] = []" "of_worker t (xs @ ys) = of_worker t xs @ of_worker t ys"
  "of_worker t (v # xs) = (if v div 100 = t then v # of_worker t xs else of_worker t xs)"
  by (simp_all add: of_worker_def)

lemma unprinted_simps: "mp_pc s \<noteq> InPop \<Longrightarrow> unprinted s = []"
  by (simp add: unprinted_def)

lemma worker_div: "i < 5 \<Longrightarrow> (start_val t + i) div 100 = t"
  by (simp add: start_val_def)

lemma worker_keeps_mp:
  assumes inv: "mp_inv s" and t: "t = 1 \<or> t = 2"
  shows "mp_inv (worker_turn t spurious s)"
proof (cases "tr_pcs (mp_stack s) t = TIdle \<and> \<not> mp_i s t < 5")
  case True
  then show ?thesis using inv by (simp add: worker_turn_def)
next
  case False
  let ?st = "mp_stack s"
  have tinv: "tr_inv 0 ?st" using inv by (simp add: mp_inv_def)
  have run: "mp_pc s = Joining" using inv False t by (auto simp: mp_inv_def joined_def)
  have facts: "mp_i s u \<le> 5" "tr_pcs ?st u \<noteq> TIdle \<Longrightarrow> 0 < mp_i s u"
    "tr_pcs ?st u \<noteq> TIdle \<Longrightarrow> \<exists>n. pushing (tr_pcs ?st u) = Some n \<and> tr_data ?st n = Some (start_val u + mp_i s u - 1)"
    "of_worker u (tr_list ?st) = rev (map (\<lambda>i. start_val u + i) [0..<pushed_by u s])" if "u = 1 \<or> u = 2" for u
    using inv that run by (auto simp: mp_inv_def produced_def unprinted_simps)
  have vals: "\<forall>v\<in>set (tr_list ?st). v div 100 = 1 \<or> v div 100 = 2" and idle0: "tr_pcs ?st 0 = TIdle" and pr: "mp_printed s = []"
    using inv run by (auto simp: mp_inv_def produced_def)
  define u where "u = (if t = 1 then 2 else 1 :: nat)"
  have u: "u = 1 \<or> u = 2" "u \<noteq> t" using t by (auto simp: u_def)
  have workers: "\<And>P. (\<forall>w \<in> {1, 2}. P w) \<longleftrightarrow> P t \<and> P u" using t by (auto simp: u_def)
  have zero: "t \<noteq> 0" using t by auto
  \<comment> \<open>the other worker's part, whatever the call\<close>
  have other: "tr_pcs (tr_step (t, call) ?st) u = tr_pcs ?st u" "tr_pcs (tr_step (t, call) ?st) 0 = tr_pcs ?st 0"
    "tr_pcs ?st u \<noteq> TIdle \<Longrightarrow> \<exists>n. pushing (tr_pcs ?st u) = Some n \<and> tr_data (tr_step (t, call) ?st) n = Some (start_val u + mp_i s u - 1)"
    for call
    using u zero facts(3) [OF u(1)] own_allocated [OF tinv] by (auto simp: stack_frame stack_data)
  show ?thesis
  proof (cases "tr_pcs ?st t = TIdle")
    case True
    then have i: "mp_i s t < 5" using False by simp
    let ?st' = "tr_step (t, TPush (start_val t + mp_i s t)) ?st"
    have eq: "worker_turn t spurious s = s\<lparr>mp_stack := ?st', mp_i := (mp_i s)(t := Suc (mp_i s t))\<rparr>"
      using True i by (simp add: worker_turn_def)
    note beg = begin_push [OF tinv True refl, of "start_val t + mp_i s t"]
    show ?thesis unfolding eq mp_inv_def workers
      using beg other u i run facts(1) [OF u(1)] facts(2) [OF u(1)] facts(4) [OF u(1)] facts(4) [OF t] vals idle0 pr True
      by (simp add: produced_def unprinted_simps pushed_by_def)
  next
    case busy: False
    define call where "call = (if spurious then TSpurious else TPush (0 :: nat))"
    let ?st' = "tr_step (t, call) ?st"
    let ?v = "start_val t + mp_i s t - 1"
    have eq: "worker_turn t spurious s = s\<lparr>mp_stack := ?st'\<rparr>" using busy by (simp add: worker_turn_def call_def)
    obtain n where n: "pushing (tr_pcs ?st t) = Some n" "tr_data ?st n = Some ?v" using facts(3) [OF t busy] by blast
    have call: "call \<noteq> TPop" by (simp add: call_def)
    note push = go_on_push [OF tinv n call refl]
    obtain i where i: "mp_i s t = Suc i" "i < 5" using facts(1,2) [OF t] busy by (cases "mp_i s t") auto
    have v: "?v div 100 = t" "?v = start_val t + i" using worker_div [OF i(2), of t] i(1) by simp_all
    from push(2) show ?thesis
    proof
      assume go: "pushing (tr_pcs ?st' t) = Some n \<and> tr_list ?st' = tr_list ?st"
      then have "tr_pcs ?st' t \<noteq> TIdle" by auto
      then show ?thesis unfolding eq mp_inv_def workers
        using go push(1,3) other u run i facts(1) [OF u(1)] facts(2) [OF u(1)] facts(4) [OF u(1)] facts(4) [OF t] vals idle0 pr busy
        by (simp add: produced_def unprinted_simps pushed_by_def)
    next
      assume go: "tr_pcs ?st' t = TIdle \<and> tr_list ?st' = ?v # tr_list ?st"
      have "u \<noteq> ?v div 100" using v u by simp
      then show ?thesis unfolding eq mp_inv_def workers
        using go push(1) other u run i v t facts(1) [OF u(1)] facts(2) [OF u(1)] facts(4) [OF u(1)] facts(4) [OF t] vals idle0 pr busy
        by (simp add: produced_def unprinted_simps pushed_by_def)
    qed
  qed
qed

text \<open>A turn of \<open>main\<close> that leaves the workers alone and produces nothing new.\<close>

lemma main_moves:
  assumes inv: "mp_inv s" and started: "mp_pc s \<noteq> Joining \<or> joined 1 s \<and> joined 2 s"
    and frame: "\<And>t. t \<noteq> 0 \<Longrightarrow> tr_pcs st' t = tr_pcs (mp_stack s) t" and st: "tr_inv 0 st'"
    and s': "s' = s\<lparr>mp_stack := st', mp_pc := pc, mp_printed := pr\<rparr>" and prod: "produced s' = produced s"
    and pc: "pc \<noteq> Joining" "pc \<noteq> InPop \<Longrightarrow> tr_pcs st' 0 = TIdle" "pc = Done \<Longrightarrow> tr_list st' = []"
    and pop: "pc = InPop \<Longrightarrow> pushing (tr_pcs st' 0) = None \<and> (tr_pcs st' 0 = TPopTest None \<longrightarrow> tr_list st' = []) \<and>
          (tr_pcs st' 0 = TIdle \<longrightarrow> tr_out st' \<noteq> [] \<and> (snd (last (tr_out st')) = None \<longrightarrow> tr_list st' = []))"
  shows "mp_inv s'"
proof -
  have j: "joined 1 s \<and> joined 2 s" using inv started by (auto simp: mp_inv_def)
  then have j': "joined 1 s' \<and> joined 2 s'" using frame by (simp add: joined_def s')
  have "pushed_by t s' = pushed_by t s" if "t \<in> {1, 2}" for t using that frame by (auto simp: pushed_by_def s')
  then show ?thesis using inv j j' st pc pop prod frame unfolding mp_inv_def
    by (simp add: s' joined_def)
qed

lemma main_keeps_mp:
  assumes inv: "mp_inv s"
  shows "mp_inv (main_turn spurious s)"
proof -
  let ?st = "mp_stack s"
  have tinv: "tr_inv 0 ?st" using inv by (simp add: mp_inv_def)
  show ?thesis
  proof (cases "mp_pc s")
    case Joining
    then have i: "tr_pcs ?st 0 = TIdle" "mp_printed s = []" using inv by (simp_all add: mp_inv_def)
    have "mp_inv (s\<lparr>mp_pc := CallPop\<rparr>)" if "joined 1 s \<and> joined 2 s"
      by (rule main_moves [OF inv, where st' = ?st and pc = CallPop and pr = "mp_printed s"])
        (use that tinv Joining i in \<open>simp_all add: produced_def unprinted_simps\<close>)
    then show ?thesis using inv Joining by (simp add: main_turn_def)
  next
    case CallPop
    let ?st' = "tr_step (0, TPop) ?st"
    have idle: "tr_pcs ?st 0 = TIdle" using inv CallPop by (simp add: mp_inv_def)
    have pc: "tr_pcs ?st' 0 = TPopLoad" using idle by (simp add: tr_step.simps tr_call_step_def)
    have sim: "tr_inv 0 ?st'" "tr_list ?st' = tr_list ?st" using stack_sim [OF tinv, of 0 TPop] idle by (simp_all add: tr_sim_def)
    have "mp_inv (s\<lparr>mp_stack := ?st', mp_pc := InPop\<rparr>)"
      by (rule main_moves [OF inv, where st' = ?st' and pc = InPop and pr = "mp_printed s"])
        (use CallPop pc sim in \<open>simp_all add: stack_frame produced_def unprinted_def\<close>)
    then show ?thesis using CallPop by (simp add: main_turn_def)
  next
    case InPop
    then have p: "pushing (tr_pcs ?st 0) = None" "tr_pcs ?st 0 = TPopTest None \<Longrightarrow> tr_list ?st = []"
      "tr_pcs ?st 0 = TIdle \<Longrightarrow> tr_out ?st \<noteq> [] \<and> (snd (last (tr_out ?st)) = None \<longrightarrow> tr_list ?st = [])"
      using inv by (simp_all add: mp_inv_def)
    show ?thesis
    proof (cases "tr_pcs ?st 0 = TIdle")
      case False
      define st' where "st' = tr_step (0, if spurious then TSpurious else TPop) ?st"
      note pop = go_on_pop [OF tinv False p(1,2) st'_def]
      have frame: "tr_pcs st' t = tr_pcs ?st t" if "t \<noteq> 0" for t using that by (simp add: st'_def stack_frame)
      have un: "unprinted s = unlinked ?st" using InPop False by (simp add: unprinted_def split: tr_pc.splits)
      have "unprinted (s\<lparr>mp_stack := st'\<rparr>) @ tr_list st' = unlinked ?st @ tr_list ?st"
      proof (cases "tr_pcs st' 0 = TIdle")
        case True
        then obtain out r where r: "tr_out st' = out @ [(0, r)]" "tr_list st' = tr_list ?st"
          "case r of Some v \<Rightarrow> unlinked ?st = [v] | None \<Rightarrow> unlinked ?st = [] \<and> tr_list ?st = []" using pop by auto
        then show ?thesis using True InPop by (cases r) (simp_all add: unprinted_def)
      next
        case no: False
        then have "unprinted (s\<lparr>mp_stack := st'\<rparr>) = unlinked st'" using InPop by (simp add: unprinted_def split: tr_pc.splits)
        then show ?thesis using pop no by simp
      qed
      then have prod: "produced (s\<lparr>mp_stack := st'\<rparr>) = produced s" using un by (simp add: produced_def)
      have "mp_inv (s\<lparr>mp_stack := st'\<rparr>)"
        by (rule main_moves [OF inv, where st' = st' and pc = InPop and pr = "mp_printed s"])
          (use InPop prod pop frame in \<open>auto split: option.splits if_splits\<close>)
      then show ?thesis using InPop False by (simp add: main_turn_def st'_def)
    next
      case True
      show ?thesis
      proof (cases "snd (last (tr_out ?st))")
        case None
        have "mp_inv (s\<lparr>mp_pc := Done\<rparr>)"
          by (rule main_moves [OF inv, where st' = ?st and pc = Done and pr = "mp_printed s"])
            (use InPop True None tinv p in \<open>simp_all add: produced_def unprinted_def\<close>)
        then show ?thesis using InPop True None by (simp add: main_turn_def)
      next
        case (Some v)
        have "mp_inv (s\<lparr>mp_printed := mp_printed s @ [v], mp_pc := CallPop\<rparr>)"
          by (rule main_moves [OF inv, where st' = ?st and pc = CallPop and pr = "mp_printed s @ [v]"])
            (use InPop True Some tinv in \<open>simp_all add: produced_def unprinted_def\<close>)
        then show ?thesis using InPop True Some by (simp add: main_turn_def)
      qed
    qed
  qed (use inv in \<open>simp add: main_turn_def\<close>)
qed

interpretation mp: interleaving main_step mp_inv
  by unfold_locales (auto simp: main_step_def main_keeps_mp worker_keeps_mp)

lemma main_start_inv: "mp_inv main_start"
  by (simp add: mp_inv_def main_start_def tr_new_inv produced_def unprinted_def pushed_by_def empty_list tr_new_def)
    (simp add: tr_new_def [symmetric] tr_new_inv)

lemma by_worker: "\<forall>v\<in>set xs. v div 100 = 1 \<or> v div 100 = 2 \<Longrightarrow> mset xs = mset (of_worker 1 xs) + mset (of_worker 2 xs)"
  by (induction xs) auto

section \<open>Properties\<close>

text \<open>
  (C34) In every interleaving, with any spurious failures, the program uses no deleted node, and when it ends it has printed the ten values of the two workers,
  each once, and those of a worker in the reverse of the order in which it pushed them.
\<close>

theorem treiber_program_prints_all:
  assumes "s = run_sched main_step es main_start"
  shows "\<not> tr_fault (mp_stack s) \<and>
    (mp_pc s = Done \<longrightarrow> mset (mp_printed s) = {#100, 101, 102, 103, 104, 200, 201, 202, 203, 204#} \<and>
       of_worker 1 (mp_printed s) = [104, 103, 102, 101, 100] \<and> of_worker 2 (mp_printed s) = [204, 203, 202, 201, 200])"
proof (intro conjI impI)
  have inv: "mp_inv s" unfolding assms by (rule mp.sched_keeps [OF main_start_inv])
  then have "tr_inv 0 (mp_stack s)" by (simp add: mp_inv_def)
  then show "\<not> tr_fault (mp_stack s)" by (auto simp: tr_inv_def dest: tr_okD(8))
  assume d: "mp_pc s = Done"
  then have prod: "produced s = mp_printed s" and j: "joined 1 s" "joined 2 s"
    using inv by (simp_all add: mp_inv_def produced_def unprinted_def)
  have "of_worker t (mp_printed s) = rev (map (\<lambda>i. start_val t + i) [0..<pushed_by t s])" if "t \<in> {1, 2}" for t
    using inv that unfolding mp_inv_def prod by blast
  from this [of 1] this [of 2] j show w: "of_worker 1 (mp_printed s) = [104, 103, 102, 101, 100]"
    "of_worker 2 (mp_printed s) = [204, 203, 202, 201, 200]"
    by (simp_all add: pushed_by_def joined_def start_val_def upt_rec)
  have "\<forall>v\<in>set (mp_printed s). v div 100 = 1 \<or> v div 100 = 2" using inv unfolding mp_inv_def prod by blast
  then have "mset (mp_printed s) = mset (of_worker 1 (mp_printed s)) + mset (of_worker 2 (mp_printed s))"
    by (rule by_worker)
  then show "mset (mp_printed s) = {#100, 101, 102, 103, 104, 200, 201, 202, 203, 204#}" unfolding w by simp
qed

lemma treiber_program_prints_all_witness:
  "mset (mp_printed (run_sched main_step (replicate 15 (1, False) @ replicate 15 (2, False) @ replicate 65 (0, False)) main_start))
     = {#100, 101, 102, 103, 104, 200, 201, 202, 203, 204#}"
proof -
  have "mp_pc (run_sched main_step (replicate 15 (1, False) @ replicate 15 (2, False) @ replicate 65 (0, False)) main_start) = Done"
    by code_simp
  then show ?thesis using treiber_program_prints_all [OF refl] by blast
qed

end
