(* ===== verification/TimedTasks.thy ===== *)
theory TimedTasks
  imports EventTimers Coroutines
begin

text \<open>
  Coroutines, timers and the event loop together: bodies that await tasks (coroutines/task.hpp) and timers
  (coroutines/async_timer.hpp), run by one thread that starts detached coroutines (those of tests/test_coroutines_advanced.cpp), and then
  calls \<open>poll\<close> or \<open>run\<close> (coroutines/event_loop.cpp), and may destroy a coroutine that is suspended.  The loop is that of the theory \<open>EventTimers\<close>: thread 0 is the thread
  in \<open>poll\<close>, and what a resumed coroutine calls of the loop is done under the number 1, while thread 0 stands still.

  An event is the kernel's or the thread's next move: \<open>Turn fd ok\<close> goes on with the coroutine that runs, or with the loop; \<open>fd\<close> is what the coroutine is given when it asks for something: the descriptor that
  \<open>timerfd_create\<close> returns, or, at the call of a task, a block of the frame pool (\<open>None\<close>: there is none, \<open>timerfd_create\<close> fails, \<open>operator new\<close> throws \<open>bad\<close>), and \<open>ok\<close> says whether \<open>epoll_wait\<close> is not interrupted.
  A detached coroutine for which there is no block throws to the thread that calls it and starts nothing.
  Ghosts: \<open>tf_body\<close>, the body a frame was called with; \<open>tt_launched\<close> and \<open>tt_out\<close>, the detached coroutines started, and the
  outcomes of those that have ended.
\<close>

section \<open>Programs and their direct reading\<close>

text \<open>Behind \<open>co_await AsyncTimer(ms)\<close> the body goes on with \<open>True\<close>, or with \<open>False\<close> if the constructor threw.\<close>

datatype ('v, 'e) tprog =
    TReturn 'v
  | TThrow 'e
  | TAwait "('v, 'e) tprog" "('v, 'e) outcome \<Rightarrow> ('v, 'e) tprog"
  | TSleep int "bool \<Rightarrow> ('v, 'e) tprog"

text \<open>
  Awaiting a task is calling it, or, where \<open>failing\<close> allows it, \<open>bad_alloc\<close>; awaiting a timer does nothing but take time (for zero milliseconds for ever), and throws for a negative
  number and, where \<open>failing\<close> allows it, when there is no descriptor left.
\<close>

inductive evaluates :: "bool \<Rightarrow> 'e \<Rightarrow> ('v, 'e) tprog \<Rightarrow> ('v, 'e) outcome \<Rightarrow> bool" for failing :: bool and bad :: 'e where
  ev_return: "evaluates failing bad (TReturn v) (Value v)"
| ev_throw: "evaluates failing bad (TThrow e) (Exc e)"
| ev_await: "evaluates failing bad p r \<Longrightarrow> evaluates failing bad (k r) r' \<Longrightarrow> evaluates failing bad (TAwait p k) r'"
| ev_no_frame: "failing \<Longrightarrow> evaluates failing bad (k (Exc bad)) r \<Longrightarrow> evaluates failing bad (TAwait p k) r"
| ev_slept: "0 \<le> ms \<Longrightarrow> evaluates failing bad (k True) r \<Longrightarrow> evaluates failing bad (TSleep ms k) r"
| ev_failed: "ms < 0 \<or> failing \<Longrightarrow> evaluates failing bad (k False) r \<Longrightarrow> evaluates failing bad (TSleep ms k) r"

inductive_cases evaluates_TReturn: "evaluates failing bad (TReturn v) r"
inductive_cases evaluates_TThrow: "evaluates failing bad (TThrow e) r"
inductive_cases evaluates_TAwait: "evaluates failing bad (TAwait p k) r"
inductive_cases evaluates_TSleep: "evaluates failing bad (TSleep ms k) r"

primrec timed_direct :: "('v, 'e) tprog \<Rightarrow> ('v, 'e) outcome" where
  "timed_direct (TReturn v) = Value v"
| "timed_direct (TThrow e) = Exc e"
| "timed_direct (TAwait p k) = continue_with (\<lambda>r. timed_direct (k r)) (timed_direct p)"
| "timed_direct (TSleep ms k) = continue_with (\<lambda>b. timed_direct (k b)) (0 \<le> ms)"

lemma evaluates_direct: "evaluates False bad p r \<Longrightarrow> r = timed_direct p"
  by (induction rule: evaluates.induct) (auto simp: continue_with_def)

section \<open>The machine\<close>

datatype ('v, 'e) tcode =
    TAt "('v, 'e) tprog"
  | TAwaiting nat "('v, 'e) outcome \<Rightarrow> ('v, 'e) tprog"
  | TSleeping nat "bool \<Rightarrow> ('v, 'e) tprog"
  | TFinal

record ('v, 'e) tframe =
  tf_code :: "('v, 'e) tcode"
  tf_value :: "'v slot"
  tf_exception :: "'e option"
  tf_continuation :: "nat option"
  tf_body :: "('v, 'e) tprog"

record ('v, 'e) timed =
  tt_loop :: event_loop
  tt_frames :: "nat \<Rightarrow> ('v, 'e) tframe option"
  tt_current :: "nat option"  \<comment> \<open>the coroutine that runs\<close>
  tt_next :: nat
  tt_open :: "nat \<Rightarrow> timer option"
  tt_out :: "(('v, 'e) tprog \<times> ('v, 'e) outcome) list"
  tt_launched :: "('v, 'e) tprog list"
  tt_terminated :: bool
  tt_ub :: bool

definition tt_new :: "('v, 'e) timed" where
  "tt_new = \<lparr>tt_loop = el_new, tt_frames = (\<lambda>_. None), tt_current = None, tt_next = 0, tt_open = (\<lambda>_. None), tt_out = [],
     tt_launched = [], tt_terminated = False, tt_ub = False\<rparr>"

definition tframe_call :: "('v, 'e) tprog \<Rightarrow> nat option \<Rightarrow> ('v, 'e) tframe" where
  "tframe_call p cont = \<lparr>tf_code = TAt p, tf_value = Unset, tf_exception = None, tf_continuation = cont, tf_body = p\<rparr>"

text \<open>The end of a body: the promise keeps the outcome and control goes to the continuation.  A detached coroutine has none: its frame is
  destroyed, and an exception terminates the program.\<close>

definition promise_store :: "('v, 'e) outcome \<Rightarrow> ('v, 'e) tframe \<Rightarrow> ('v, 'e) tframe" where
  "promise_store r fr = (case r of Value v \<Rightarrow> fr\<lparr>tf_value := Full v\<rparr> | Exc e \<Rightarrow> fr\<lparr>tf_exception := Some e\<rparr>)"

definition body_ends :: "nat \<Rightarrow> ('v, 'e) outcome \<Rightarrow> ('v, 'e) tframe \<Rightarrow> ('v, 'e) timed \<Rightarrow> ('v, 'e) timed" where
  "body_ends h r fr s =
     (case tf_continuation fr of
        Some c \<Rightarrow> s\<lparr>tt_frames := (tt_frames s)(h \<mapsto> (promise_store r fr)\<lparr>tf_code := TFinal\<rparr>), tt_current := Some c\<rparr>
      | None \<Rightarrow> s\<lparr>tt_frames := (tt_frames s)(h := None), tt_current := None, tt_out := (tf_body fr, r) # tt_out s,
          tt_terminated := (case r of Exc e \<Rightarrow> True | Value v \<Rightarrow> False)\<rparr>)"

text \<open>What \<open>Task::await_resume\<close> finds in the promise of a finished task.\<close>

definition promise_result :: "('v, 'e) tframe \<Rightarrow> ('v, 'e) outcome option" where
  "promise_result fr =
     (case tf_code fr of
        TFinal \<Rightarrow> (case tf_exception fr of
            Some e \<Rightarrow> Some (Exc e)
          | None \<Rightarrow> (case tf_value fr of Full v \<Rightarrow> Some (Value v) | _ \<Rightarrow> None))
      | _ \<Rightarrow> None)"

definition co_goes_on :: "nat \<Rightarrow> ('v, 'e) tprog \<Rightarrow> ('v, 'e) tframe \<Rightarrow> ('v, 'e) timed \<Rightarrow> ('v, 'e) timed" where
  "co_goes_on h p fr s = s\<lparr>tt_frames := (tt_frames s)(h \<mapsto> fr\<lparr>tf_code := TAt p\<rparr>)\<rparr>"

text \<open>\<open>co_await AsyncTimer(ms)\<close>: the constructor, and \<open>await_suspend\<close>, which registers the timer with the loop.\<close>

definition co_sleep :: "nat option \<Rightarrow> nat \<Rightarrow> int \<Rightarrow> (bool \<Rightarrow> ('v, 'e) tprog) \<Rightarrow> ('v, 'e) tframe \<Rightarrow> ('v, 'e) timed \<Rightarrow> ('v, 'e) timed" where
  "co_sleep fd h ms k fr s =
     (case fd of
        None \<Rightarrow> co_goes_on h (k False) fr s
      | Some fd \<Rightarrow>
          if tt_open s fd \<noteq> None then s
          else (case async_timer True ms of
              TimerError \<Rightarrow> co_goes_on h (k False) fr s
            | armed \<Rightarrow>
                if el_epoll (tt_loop s) fd \<noteq> None then co_goes_on h (k False) fr s
                else s\<lparr>tt_loop := run_sched el_step [Call 1 (Register fd h), Step 1 True] (tt_loop s),
                  tt_open := (tt_open s)(fd \<mapsto> armed), tt_frames := (tt_frames s)(h \<mapsto> fr\<lparr>tf_code := TSleeping fd k\<rparr>),
                  tt_current := None\<rparr>))"

definition co_turn :: "'e \<Rightarrow> nat option \<Rightarrow> nat \<Rightarrow> ('v, 'e) timed \<Rightarrow> ('v, 'e) timed" where
  "co_turn bad fd h s =
     (case tt_frames s h of
        None \<Rightarrow> s\<lparr>tt_ub := True\<rparr>
      | Some fr \<Rightarrow> (case tf_code fr of
          TAt (TReturn v) \<Rightarrow> body_ends h (Value v) fr s
        | TAt (TThrow e) \<Rightarrow> body_ends h (Exc e) fr s
        | TAt (TAwait p k) \<Rightarrow>
            if fd = None then co_goes_on h (k (Exc bad)) fr s
            else s\<lparr>tt_frames := (tt_frames s)(h \<mapsto> fr\<lparr>tf_code := TAwaiting (tt_next s) k\<rparr>, tt_next s \<mapsto> tframe_call p (Some h)),
              tt_current := Some (tt_next s), tt_next := Suc (tt_next s)\<rparr>
        | TAt (TSleep ms k) \<Rightarrow> co_sleep fd h ms k fr s
        | TAwaiting c k \<Rightarrow>
            (case Option.bind (tt_frames s c) promise_result of
               None \<Rightarrow> s\<lparr>tt_ub := True\<rparr>
             | Some r \<Rightarrow> co_goes_on h (k r) fr (s\<lparr>tt_frames := (tt_frames s)(c := None)\<rparr>))
        | TSleeping fd k \<Rightarrow>
            co_goes_on h (k True) fr (s\<lparr>tt_loop := el_step (CloseFd fd) (tt_loop s), tt_open := (tt_open s)(fd := None)\<rparr>)
        | TFinal \<Rightarrow> s\<lparr>tt_ub := True\<rparr>))"

text \<open>The loop goes on: one step, or, when it takes an event, the read, the removal and the resumption.\<close>

definition loop_turn :: "bool \<Rightarrow> event_loop \<Rightarrow> event_loop \<times> nat option" where
  "loop_turn ok l =
     (let l' = el_step (Step 0 ok) l
      in (case el_pcs l' 0 of
            ReadFd fd c rest r \<Rightarrow> (run_sched el_step [Step 0 True, Step 0 True, Step 0 True] l', Some c)
          | _ \<Rightarrow> (l', None)))"

definition resume_handle :: "nat \<Rightarrow> ('v, 'e) timed \<Rightarrow> ('v, 'e) timed" where
  "resume_handle h s =
     (case tt_frames s h of
        Some fr \<Rightarrow> (case tf_code fr of TFinal \<Rightarrow> s\<lparr>tt_ub := True\<rparr> | _ \<Rightarrow> s\<lparr>tt_current := Some h\<rparr>)
      | None \<Rightarrow> s\<lparr>tt_ub := True\<rparr>)"

text \<open>The destructor of a suspended coroutine's frame: the temporaries of the \<open>co_await\<close> go with it, the \<open>Task\<close> that it awaits with that task's
  frame, or the \<open>AsyncTimer\<close>, which closes its descriptor and leaves the handle in the loop's map.\<close>

primrec discard_frame :: "nat \<Rightarrow> nat \<Rightarrow> ('v, 'e) timed \<Rightarrow> ('v, 'e) timed" where
  "discard_frame 0 h s = s"
| "discard_frame (Suc n) h s =
     (case tt_frames s h of
        None \<Rightarrow> s\<lparr>tt_ub := True\<rparr>
      | Some fr \<Rightarrow>
          if tt_current s = Some h then s\<lparr>tt_ub := True\<rparr>
          else let s' = s\<lparr>tt_frames := (tt_frames s)(h := None)\<rparr>
            in (case tf_code fr of
                 TAwaiting c k \<Rightarrow> discard_frame n c s'
               | TSleeping fd k \<Rightarrow> s'\<lparr>tt_loop := el_step (CloseFd fd) (tt_loop s), tt_open := (tt_open s)(fd := None)\<rparr>
               | _ \<Rightarrow> s'))"

datatype ('v, 'e) tt_event =
    Launch "('v, 'e) tprog"   \<comment> \<open>the thread calls a detached coroutine\<close>
  | LoopCall bool             \<comment> \<open>it calls \<open>run\<close> or \<open>poll\<close>\<close>
  | StopLoop                  \<comment> \<open>any thread\<close>
  | Turn "nat option" bool
  | Expired nat
  | Abandon nat               \<comment> \<open>the owner of a top-level coroutine destroys it\<close>

definition tt_step :: "'e \<Rightarrow> ('v, 'e) tt_event \<Rightarrow> ('v, 'e) timed \<Rightarrow> ('v, 'e) timed" where
  "tt_step bad e s =
     (if tt_terminated s then s else
      case e of
        Launch p \<Rightarrow>
          if tt_current s = None \<and> el_pcs (tt_loop s) 0 = EIdle
          then s\<lparr>tt_frames := (tt_frames s)(tt_next s \<mapsto> tframe_call p None), tt_current := Some (tt_next s), tt_next := Suc (tt_next s),
            tt_launched := p # tt_launched s\<rparr>
          else s
      | LoopCall run \<Rightarrow>
          if tt_current s = None then s\<lparr>tt_loop := el_step (Call 0 (if run then RunLoop else Poll)) (tt_loop s)\<rparr> else s
      | StopLoop \<Rightarrow> s\<lparr>tt_loop := el_step (Call 1 Stop) (tt_loop s)\<rparr>
      | Turn fd ok \<Rightarrow>
          (case tt_current s of
             Some h \<Rightarrow> co_turn bad fd h s
           | None \<Rightarrow>
               (case loop_turn ok (tt_loop s) of
                  (l, None) \<Rightarrow> s\<lparr>tt_loop := l\<rparr>
                | (l, Some c) \<Rightarrow> resume_handle c (s\<lparr>tt_loop := l\<rparr>)))
      | Expired fd \<Rightarrow>
          (case tt_open s fd of
             Some (ExpiresIn n) \<Rightarrow> s\<lparr>tt_loop := el_step (Expire fd) (tt_loop s), tt_open := (tt_open s)(fd \<mapsto> Disarmed)\<rparr>
           | _ \<Rightarrow> s)
      | Abandon h \<Rightarrow> discard_frame (tt_next s) h s)"

section \<open>The loop in the hands of one thread\<close>

definition batch :: "event_loop \<Rightarrow> nat list" where
  "batch l = (case el_pcs l 0 of Batch fds r \<Rightarrow> fds | _ \<Rightarrow> [])"

fun loop_at :: "el_pc \<Rightarrow> bool" where
  "loop_at (RegInsert fd c) = False"
| "loop_at (UnregErase fd) = False"
| "loop_at (ReadFd fd c fds r) = False"
| "loop_at (DelFd fd c fds r) = False"
| "loop_at (Resume c fds r) = False"
| "loop_at _ = True"

abbreviation pending :: "event_loop \<Rightarrow> nat \<Rightarrow> nat option" where
  "pending l \<equiv> map_of (el_timers l)"

text \<open>A timer is in the map as long as it is in epoll, and enabled unless its event is in the current batch.\<close>

definition loop_ok :: "event_loop \<Rightarrow> bool" where
  "loop_ok l \<longleftrightarrow> loop_at (el_pcs l 0) \<and> el_pcs l 1 = EIdle \<and> distinct (map fst (el_timers l)) \<and> distinct (el_expired l) \<and>
     distinct (batch l) \<and> (\<forall>fd \<in> set (batch l). pending l fd \<noteq> None) \<and>
     (\<forall>fd. el_epoll l fd = (if pending l fd = None then None else Some (fd \<notin> set (batch l))))"

declare map_of_eq_None_iff [simp del] and map_of_eq_Some_iff [simp del]

lemma batch_cong: "el_pcs l' 0 = el_pcs l 0 \<Longrightarrow> batch l' = batch l"
  by (simp add: batch_def)

lemma loop_okD:
  assumes "loop_ok l"
  shows "loop_at (el_pcs l 0)" and "el_pcs l 1 = EIdle" and "el_pcs l (Suc 0) = EIdle" and "distinct (map fst (el_timers l))" and "distinct (el_expired l)"
    and "distinct (batch l)" and "\<And>fd. fd \<in> set (batch l) \<Longrightarrow> pending l fd \<noteq> None"
    and "\<And>fd. el_epoll l fd = (if pending l fd = None then None else Some (fd \<notin> set (batch l)))"
  using assms by (simp_all add: loop_ok_def)

lemma pending_erase: "pending l' = (pending l)(fd := None)" if "el_timers l' = erase fd (el_timers l)"
proof
  fix k
  show "pending l' k = ((pending l)(fd := None)) k" unfolding that
  proof (cases "k = fd")
    case True
    then show "map_of (erase fd (el_timers l)) k = ((pending l)(fd := None)) k" by (simp add: map_of_eq_None_iff)
  qed (simp add: map_of_erase)
qed

lemma loop_new: "loop_ok el_new"
  by (simp add: loop_ok_def el_new_def batch_def)

lemma loop_register:
  fixes h :: nat
  assumes ok: "loop_ok l" and "pending l fd = None"
  defines "l' \<equiv> run_sched el_step [Call 1 (Register fd h), Step 1 True] l"
  shows "loop_ok l' \<and> pending l' = (pending l)(fd \<mapsto> h) \<and> el_expired l' = el_expired l \<and> el_pcs l' 0 = el_pcs l 0"
proof -
  note D = loop_okD [OF ok]
  have "fd \<notin> fst ` set (el_timers l)" using assms(2) by (simp add: map_of_eq_None_iff)
  then have "erase fd (el_timers l) = el_timers l" unfolding erase_def filter_id_conv by force
  then have l': "l' = l\<lparr>el_epoll := (el_epoll l)(fd := Some True), el_pcs := (el_pcs l)(1 := EIdle),
      el_timers := (fd, h) # el_timers l, el_registered := h # el_registered l\<rparr>"
    using D(2,8) assms(2) by (simp add: l'_def el_begin_def el_go_def)
  have pc: "el_pcs l' 0 = el_pcs l 0" by (simp add: l')
  have "fd \<notin> set (batch l)" using D(7) assms(2) by blast
  then show ?thesis using D \<open>fd \<notin> fst ` _\<close> unfolding loop_ok_def batch_cong [OF pc] by (auto simp: l')
qed

lemma loop_close:
  assumes ok: "loop_ok l" and "pending l fd = None"
  shows "loop_ok (el_step (CloseFd fd) l) \<and> pending (el_step (CloseFd fd) l) = pending l \<and>
    el_expired (el_step (CloseFd fd) l) = filter (\<lambda>x. x \<noteq> fd) (el_expired l) \<and> el_pcs (el_step (CloseFd fd) l) = el_pcs l"
proof -
  have "fd \<notin> set (batch l)" using loop_okD(7) [OF ok] assms(2) by blast
  then show ?thesis using loop_okD [OF ok] assms(2) batch_cong [of "el_step (CloseFd fd) l" l] by (simp add: loop_ok_def)
qed

lemma loop_expire:
  assumes "loop_ok l"
  shows "loop_ok (el_step (Expire fd) l) \<and> pending (el_step (Expire fd) l) = pending l \<and>
    set (el_expired (el_step (Expire fd) l)) = insert fd (set (el_expired l)) \<and> el_pcs (el_step (Expire fd) l) = el_pcs l"
  using loop_okD [OF assms] batch_cong [of "el_step (Expire fd) l" l] by (auto simp: loop_ok_def)

lemma loop_call:
  assumes "loop_ok l"
  shows "loop_ok (el_step (Call 0 (if run then RunLoop else Poll)) l) \<and>
    pending (el_step (Call 0 (if run then RunLoop else Poll)) l) = pending l \<and>
    el_expired (el_step (Call 0 (if run then RunLoop else Poll)) l) = el_expired l \<and>
    batch (el_step (Call 0 (if run then RunLoop else Poll)) l) = batch l"
  using loop_okD [OF assms] by (auto simp: loop_ok_def el_begin_def batch_def)

lemma loop_stop:
  assumes "loop_ok l"
  shows "loop_ok (el_step (Call 1 Stop) l) \<and> pending (el_step (Call 1 Stop) l) = pending l \<and>
    el_expired (el_step (Call 1 Stop) l) = el_expired l \<and> el_pcs (el_step (Call 1 Stop) l) = el_pcs l"
  using loop_okD [OF assms] by (auto simp: loop_ok_def el_begin_def batch_def)

text \<open>A turn of the loop, with the timer it takes.\<close>

lemma loop_takes:
  assumes ok: "loop_ok l" and pc: "el_pcs l 0 = Batch (fd # rest) r"
  obtains c where "pending l fd = Some c" and "loop_turn w l = (el_go 0 (Batch rest r) (l\<lparr>el_timers := erase fd (el_timers l),
      el_taken := c # el_taken l, el_expired := filter (\<lambda>x. x \<noteq> fd) (el_expired l), el_epoll := (el_epoll l)(fd := None),
      el_resumed := c # el_resumed l\<rparr>), Some c)"
proof -
  have "pending l fd \<noteq> None" using loop_okD(7) [OF ok] pc by (simp add: batch_def)
  then obtain c where c: "pending l fd = Some c" by auto
  have turn: "loop_turn w l = (el_go 0 (Batch rest r) (l\<lparr>el_timers := erase fd (el_timers l),
      el_taken := c # el_taken l, el_expired := filter (\<lambda>x. x \<noteq> fd) (el_expired l), el_epoll := (el_epoll l)(fd := None),
      el_resumed := c # el_resumed l\<rparr>), Some c)"
    using pc c by (simp add: loop_turn_def take_event_def Let_def el_go_def)
  from c turn show thesis by (rule that)
qed

lemma loop_turn_cases:
  assumes ok: "loop_ok l"
  obtains (quiet) l' where "loop_turn w l = (l', None)" and "loop_ok l'" and "pending l' = pending l" and "el_expired l' = el_expired l"
      and "set (batch l) \<subseteq> set (batch l')"
  | (takes) fd h l' where "loop_turn w l = (l', Some h)" and "loop_ok l'" and "pending l fd = Some h" and "pending l' = (pending l)(fd := None)"
      and "el_expired l' = filter (\<lambda>x. x \<noteq> fd) (el_expired l)" and "batch l = fd # batch l'"
proof -
  note D = loop_okD [OF ok]
  consider fd rest r where "el_pcs l 0 = Batch (fd # rest) r" | r where "el_pcs l 0 = Batch [] r" | r where "el_pcs l 0 = PollWait r"
    | "el_pcs l 0 = RunCheck" | "el_pcs l 0 = EIdle"
    using D(1) by (cases "el_pcs l 0") (auto, metis list.exhaust)
  then show thesis
  proof cases
    case 1
    obtain c where c: "pending l fd = Some c" "loop_turn w l = (el_go 0 (Batch rest r) (l\<lparr>el_timers := erase fd (el_timers l),
      el_taken := c # el_taken l, el_expired := filter (\<lambda>x. x \<noteq> fd) (el_expired l), el_epoll := (el_epoll l)(fd := None),
      el_resumed := c # el_resumed l\<rparr>), Some c)" (is "_ = (?l, _)") by (rule loop_takes [OF ok 1])
    have p: "pending ?l = (pending l)(fd := None)" by (rule pending_erase) simp
    have b: "batch l = fd # rest" "batch ?l = rest" using 1 by (simp_all add: batch_def)
    have "loop_ok ?l" unfolding loop_ok_def p b(2) using D b(1)
      by (auto simp: erase_distinct)
    then show thesis using c(1) p b by (intro takes [OF c(2)]) simp_all
  next
    case 2
    have "loop_turn w l = (el_go 0 (if r then RunCheck else EIdle) l, None)" using 2 by (simp add: loop_turn_def take_event_def Let_def)
    then show thesis by (rule quiet) (use D 2 in \<open>auto simp: loop_ok_def batch_def\<close>)
  next
    case 3
    let ?fds = "if w then take kMaxEvents (ready l) else []"
    let ?l = "el_go 0 (Batch ?fds r) (l\<lparr>el_epoll := (\<lambda>fd. if fd \<in> set ?fds then Some False else el_epoll l fd)\<rparr>)"
    have t: "loop_turn w l = (?l, None)" using 3 by (simp add: loop_turn_def epoll_wait_def Let_def)
    have "set ?fds \<subseteq> set (ready l)" by (auto dest: in_set_takeD)
    then have known: "pending l fd \<noteq> None" if "fd \<in> set ?fds" for fd using that D(8) by (auto simp: ready_def split: if_splits)
    have "distinct ?fds" using D(5) by (simp add: ready_def)
    then have "loop_ok ?l" using D 3 known by (auto simp: loop_ok_def batch_def)
    then show thesis by (rule quiet [OF t]) (use 3 in \<open>simp_all add: batch_def\<close>)
  next
    case 4
    have "loop_turn w l = (el_go 0 (if el_running l then PollWait True else EIdle) l, None)" using 4 by (simp add: loop_turn_def Let_def)
    then show thesis by (rule quiet) (use D 4 in \<open>auto simp: loop_ok_def batch_def\<close>)
  next
    case 5
    have "loop_turn w l = (l, None)" using 5 by (simp add: loop_turn_def Let_def)
    then show thesis by (rule quiet) (use ok in simp_all)
  qed
qed

section \<open>The invariant\<close>

definition tt_frame_ok :: "bool \<Rightarrow> 'e \<Rightarrow> ('v, 'e) timed \<Rightarrow> nat \<Rightarrow> ('v, 'e) tframe \<Rightarrow> bool" where
  "tt_frame_ok failing bad s h fr \<longleftrightarrow>
     (case tf_code fr of
        TAt p \<Rightarrow> tt_current s = Some h \<and> (\<forall>r. evaluates failing bad p r \<longrightarrow> evaluates failing bad (tf_body fr) r)
      | TAwaiting c k \<Rightarrow> (\<exists>fc. tt_frames s c = Some fc \<and> tf_continuation fc = Some h \<and> (tf_code fc = TFinal \<longleftrightarrow> tt_current s = Some h) \<and>
          (\<forall>r r'. evaluates failing bad (tf_body fc) r \<longrightarrow> evaluates failing bad (k r) r' \<longrightarrow> evaluates failing bad (tf_body fr) r'))
      | TSleeping fd k \<Rightarrow> tt_open s fd \<noteq> None \<and> pending (tt_loop s) fd = (if tt_current s = Some h then None else Some h) \<and>
          (\<forall>r. evaluates failing bad (k True) r \<longrightarrow> evaluates failing bad (tf_body fr) r)
      | TFinal \<Rightarrow> tf_continuation fr \<noteq> None \<and> tt_current s = tf_continuation fr \<and>
          (\<exists>r. promise_result fr = Some r \<and> evaluates failing bad (tf_body fr) r)) \<and>
     (tf_code fr \<noteq> TFinal \<longrightarrow> tf_value fr = Unset \<and> tf_exception fr = None) \<and>
     (\<forall>h'. tf_continuation fr = Some h' \<longrightarrow> (\<exists>fh k. tt_frames s h' = Some fh \<and> tf_code fh = TAwaiting h k))"

definition tt_running :: "bool \<Rightarrow> 'e \<Rightarrow> ('v, 'e) timed \<Rightarrow> bool" where
  "tt_running failing bad s \<longleftrightarrow> loop_ok (tt_loop s) \<and> fresh_from (tt_next s) (tt_frames s) \<and>
     (\<forall>h fr. tt_frames s h = Some fr \<longrightarrow> tt_frame_ok failing bad s h fr) \<and>
     (\<forall>h. tt_current s = Some h \<longrightarrow> (\<exists>fr. tt_frames s h = Some fr \<and> tf_code fr \<noteq> TFinal)) \<and>
     (\<forall>fd h. pending (tt_loop s) fd = Some h \<longrightarrow> tt_current s \<noteq> Some h \<and> (\<exists>fr k. tt_frames s h = Some fr \<and> tf_code fr = TSleeping fd k))"

definition tt_ok :: "bool \<Rightarrow> 'e \<Rightarrow> ('v, 'e) timed \<Rightarrow> bool" where
  "tt_ok failing bad s \<longleftrightarrow> (tt_terminated s \<or> tt_running failing bad s) \<and> \<not> tt_ub s \<and> (\<forall>(p, r) \<in> set (tt_out s). evaluates failing bad p r)"

lemma tt_ok_new: "tt_ok failing bad tt_new"
  by (simp add: tt_ok_def tt_running_def tt_new_def loop_new fresh_from_def) (simp add: el_new_def)

lemma tt_runningD:
  assumes "tt_running failing bad s"
  shows "loop_ok (tt_loop s)" and "\<And>c. tt_next s \<le> c \<Longrightarrow> tt_frames s c = None"
    and "\<And>h fr. tt_frames s h = Some fr \<Longrightarrow> tt_frame_ok failing bad s h fr"
    and "\<And>h. tt_current s = Some h \<Longrightarrow> \<exists>fr. tt_frames s h = Some fr \<and> tf_code fr \<noteq> TFinal"
    and "\<And>fd h. pending (tt_loop s) fd = Some h \<Longrightarrow> tt_current s \<noteq> Some h \<and> (\<exists>fr k. tt_frames s h = Some fr \<and> tf_code fr = TSleeping fd k)"
    and "\<And>fd h. tt_current s = Some h \<Longrightarrow> pending (tt_loop s) fd \<noteq> Some h"
  using assms by (auto simp: tt_running_def fresh_from_def)

text \<open>The frame of the running coroutine, seen from the others: one of them awaits it, if it has a continuation, and none is final unless it is the
  one it awaits.\<close>

lemma goes_on_ok:
  assumes run: "tt_running failing bad s" and cur: "tt_current s = Some h" and fr: "tt_frames s h = Some fr"
    and code: "\<exists>p. tf_code fr = TAt p"
    and ev: "\<And>r. evaluates failing bad q r \<Longrightarrow> evaluates failing bad (tf_body fr) r"
  shows "tt_running failing bad (co_goes_on h q fr s)"
proof -
  note D = tt_runningD [OF run]
  note me = D(3) [OF fr]
  let ?s = "co_goes_on h q fr s"
  have "tt_frame_ok failing bad ?s g fg" if "tt_frames ?s g = Some fg" for g fg
  proof (cases "g = h")
    case True
    then have "fg = fr\<lparr>tf_code := TAt q\<rparr>" using that by (simp add: co_goes_on_def)
    then show ?thesis using True me cur code ev fr by (auto simp: tt_frame_ok_def co_goes_on_def split: if_splits)
  next
    case False
    then have g: "tt_frames s g = Some fg" using that by (simp add: co_goes_on_def)
    show ?thesis using D(3) [OF g] False cur fr code
      by (auto simp: tt_frame_ok_def co_goes_on_def split: tcode.splits)
  qed
  then show ?thesis using D(1-5) D(6) [OF cur] fr cur unfolding tt_running_def
    by (auto simp: co_goes_on_def fresh_from_def)
qed

lemma await_ok:
  assumes run: "tt_running failing bad s" and cur: "tt_current s = Some h" and fr: "tt_frames s h = Some fr"
    and code: "tf_code fr = TAt (TAwait p k)"
  defines "n \<equiv> tt_next s"
  shows "tt_running failing bad (s\<lparr>tt_frames := (tt_frames s)(h \<mapsto> fr\<lparr>tf_code := TAwaiting n k\<rparr>, n \<mapsto> tframe_call p (Some h)),
    tt_current := Some n, tt_next := Suc n\<rparr>)" (is "tt_running failing bad ?s")
proof -
  note D = tt_runningD [OF run]
  note me = D(3) [OF fr]
  have n: "tt_frames s n = None" "h \<noteq> n" using D(2) [of n] fr by (auto simp: n_def)
  have "tt_frame_ok failing bad ?s g fg" if "tt_frames ?s g = Some fg" for g fg
  proof -
    consider "g = n" | "g = h" | "g \<noteq> n" "g \<noteq> h" by blast
    then show ?thesis
    proof cases
      case 1
      then have "fg = tframe_call p (Some h)" using that by simp
      then show ?thesis using 1 n by (auto simp: tt_frame_ok_def tframe_call_def)
    next
      case 2
      then have "fg = fr\<lparr>tf_code := TAwaiting n k\<rparr>" using that n by simp
      then show ?thesis using 2 me code fr n by (auto simp: tt_frame_ok_def tframe_call_def intro: ev_await)
    next
      case 3
      then have g: "tt_frames s g = Some fg" using that by simp
      show ?thesis using D(3) [OF g] 3 n cur fr code
        by (auto simp: tt_frame_ok_def split: tcode.splits if_splits)
    qed
  qed
  moreover have "pending (tt_loop s) fd \<noteq> Some n" for fd using D(5) [of fd n] n by auto
  ultimately show ?thesis using D(1-5) D(6) [OF cur] fr cur n code unfolding tt_running_def
    by (auto simp: fresh_from_def tframe_call_def n_def)
qed

lemma resumed_ok:
  assumes run: "tt_running failing bad s" and cur: "tt_current s = Some h" and fr: "tt_frames s h = Some fr"
    and code: "tf_code fr = TAwaiting c k"
  obtains fc r where "tt_frames s c = Some fc" and "promise_result fc = Some r"
    and "tt_running failing bad (co_goes_on h (k r) fr (s\<lparr>tt_frames := (tt_frames s)(c := None)\<rparr>))"
proof -
  note D = tt_runningD [OF run]
  note me = D(3) [OF fr]
  obtain fc where fc: "tt_frames s c = Some fc" "tf_continuation fc = Some h" "tf_code fc = TFinal"
      "\<And>r r'. evaluates failing bad (tf_body fc) r \<Longrightarrow> evaluates failing bad (k r) r' \<Longrightarrow> evaluates failing bad (tf_body fr) r'"
    using me code cur by (auto simp: tt_frame_ok_def)
  obtain r where r: "promise_result fc = Some r" "evaluates failing bad (tf_body fc) r"
    using D(3) [OF fc(1)] fc(3) by (auto simp: tt_frame_ok_def)
  have "c \<noteq> h" using fc fr code by auto
  let ?s = "co_goes_on h (k r) fr (s\<lparr>tt_frames := (tt_frames s)(c := None)\<rparr>)"
  have "tt_frame_ok failing bad ?s g fg" if "tt_frames ?s g = Some fg" for g fg
  proof (cases "g = h")
    case True
    then have "fg = fr\<lparr>tf_code := TAt (k r)\<rparr>" using that by (simp add: co_goes_on_def)
    then show ?thesis using True me code cur fr fc(1,3) fc(4) [OF r(2)] \<open>c \<noteq> h\<close> by (auto simp: tt_frame_ok_def co_goes_on_def)
  next
    case False
    then have g: "tt_frames s g = Some fg" "g \<noteq> c" using that by (auto simp: co_goes_on_def split: if_splits)
    show ?thesis using D(3) [OF g(1)] False g(2) cur fr code fc
      by (auto simp: tt_frame_ok_def co_goes_on_def split: tcode.splits if_splits)
  qed
  moreover have "tt_frames s g = Some fg \<Longrightarrow> tf_code fg = TSleeping fd q \<Longrightarrow> g \<noteq> c" for g fg fd q using fc by auto
  ultimately have "tt_running failing bad ?s" using D(1-5) D(6) [OF cur] fr cur code \<open>c \<noteq> h\<close> unfolding tt_running_def
    by (fastforce simp: co_goes_on_def fresh_from_def)
  with fc(1) r(1) show thesis by (rule that)
qed

lemma ends_ok:
  assumes run: "tt_running failing bad s" and cur: "tt_current s = Some h" and fr: "tt_frames s h = Some fr"
    and code: "tf_code fr = TAt p" and r: "evaluates failing bad p r" and cont: "tf_continuation fr = Some c"
  shows "tt_running failing bad (s\<lparr>tt_frames := (tt_frames s)(h \<mapsto> (promise_store r fr)\<lparr>tf_code := TFinal\<rparr>), tt_current := Some c\<rparr>)"
    (is "tt_running failing bad ?s")
proof -
  note D = tt_runningD [OF run]
  note me = D(3) [OF fr]
  obtain fh k where fh: "tt_frames s c = Some fh" "tf_code fh = TAwaiting h k" using me cont by (auto simp: tt_frame_ok_def)
  have "c \<noteq> h" using fh fr code by auto
  let ?fr = "(promise_store r fr)\<lparr>tf_code := TFinal\<rparr>"
  have same: "tf_continuation ?fr = tf_continuation fr" "tf_body ?fr = tf_body fr" "promise_result ?fr = Some r" "tf_code ?fr = TFinal"
    using me code by (auto simp: promise_store_def promise_result_def tt_frame_ok_def split: outcome.split)
  have "tt_frame_ok failing bad ?s g fg" if "tt_frames ?s g = Some fg" for g fg
  proof (cases "g = h")
    case True
    then have "fg = ?fr" using that by simp
    then show ?thesis using True me code cur fr fh r \<open>c \<noteq> h\<close> same cont by (auto simp: tt_frame_ok_def)
  next
    case False
    then have g: "tt_frames s g = Some fg" using that by simp
    show ?thesis
    proof (cases "g = c")
      case True
      then show ?thesis using D(3) [OF g] fh same cont g cur fr code \<open>c \<noteq> h\<close> by (auto simp: tt_frame_ok_def)
    next
      case other: False
      show ?thesis using D(3) [OF g] False other cur fr code fh same cont
        by (auto simp: tt_frame_ok_def split: tcode.splits if_splits)
    qed
  qed
  moreover have "pending (tt_loop s) fd \<noteq> Some c" for fd using D(5) [of fd c] fh by auto
  ultimately show ?thesis using D(1-5) D(6) [OF cur] fr cur code fh \<open>c \<noteq> h\<close> unfolding tt_running_def
    by (fastforce simp: fresh_from_def)
qed

lemma detached_ok:
  assumes run: "tt_running failing bad s" and cur: "tt_current s = Some h" and fr: "tt_frames s h = Some fr"
    and code: "tf_code fr = TAt p" and cont: "tf_continuation fr = None"
  shows "tt_running failing bad (s\<lparr>tt_frames := (tt_frames s)(h := None), tt_current := None, tt_out := out, tt_terminated := b\<rparr>)"
    (is "tt_running failing bad ?s")
proof -
  note D = tt_runningD [OF run]
  have "tt_frame_ok failing bad ?s g fg" if "tt_frames ?s g = Some fg" for g fg
  proof -
    have g: "tt_frames s g = Some fg" "g \<noteq> h" using that by (auto split: if_splits)
    show ?thesis using D(3) [OF g(1)] g(2) cur fr code cont
      by (auto simp: tt_frame_ok_def split: tcode.splits if_splits)
  qed
  then show ?thesis using D(1-5) D(6) [OF cur] fr cur code unfolding tt_running_def
    by (fastforce simp: fresh_from_def)
qed

lemma sleep_ok:
  assumes run: "tt_running failing bad s" and cur: "tt_current s = Some h" and fr: "tt_frames s h = Some fr"
    and code: "tf_code fr = TAt (TSleep ms k)" and ms: "0 \<le> ms" and "tt_open s fd = None"
  shows "tt_running failing bad (s\<lparr>tt_loop := run_sched el_step [Call 1 (Register fd h), Step 1 True] (tt_loop s),
      tt_open := (tt_open s)(fd \<mapsto> armed), tt_frames := (tt_frames s)(h \<mapsto> fr\<lparr>tf_code := TSleeping fd k\<rparr>), tt_current := None\<rparr>)"
    (is "tt_running failing bad ?s")
    and "el_epoll (tt_loop s) fd = None"
proof -
  note D = tt_runningD [OF run]
  note me = D(3) [OF fr]
  have unused: "\<not> (tt_frames s g = Some fg \<and> tf_code fg = TSleeping fd q)" for g fg q
    using D(3) [of g fg] assms(6) by (auto simp: tt_frame_ok_def)
  then have "pending (tt_loop s) fd = None" using D(5) [of fd] by (cases "pending (tt_loop s) fd") blast+
  then have l: "loop_ok (tt_loop ?s)" "pending (tt_loop ?s) = (pending (tt_loop s))(fd \<mapsto> h)"
    and epoll: "el_epoll (tt_loop s) fd = None"
    using loop_register [OF D(1), of fd h] loop_okD(8) [OF D(1), of fd] by simp_all
  have "tt_frame_ok failing bad ?s g fg" if "tt_frames ?s g = Some fg" for g fg
  proof (cases "g = h")
    case True
    then have "fg = fr\<lparr>tf_code := TSleeping fd k\<rparr>" using that by simp
    then show ?thesis using True me code fr ms l(2) unfolding tt_frame_ok_def
      by (auto intro: ev_slept simp del: run_sched.simps)
  next
    case False
    then have g: "tt_frames s g = Some fg" using that by simp
    show ?thesis using D(3) [OF g] unused [of g fg] False g cur fr code l(2) unfolding tt_frame_ok_def
      by (auto split: tcode.splits if_splits simp del: run_sched.simps)
  qed
  moreover have "\<exists>fg q. tt_frames ?s g = Some fg \<and> tf_code fg = TSleeping fd' q" if "pending (tt_loop ?s) fd' = Some g" for fd' g
    using D(5) [of fd' g] D(6) [OF cur, of fd'] that l(2) by (cases "fd' = fd") (auto simp del: run_sched.simps)
  ultimately show "tt_running failing bad ?s" using D(2) fr l(1) unfolding tt_running_def
    by (simp add: fresh_from_def del: run_sched.simps fun_upd_apply) auto
  show "el_epoll (tt_loop s) fd = None" by (rule epoll)
qed

lemma woken_ok:
  assumes run: "tt_running failing bad s" and cur: "tt_current s = Some h" and fr: "tt_frames s h = Some fr"
    and code: "tf_code fr = TSleeping fd k"
  shows "tt_running failing bad (co_goes_on h (k True) fr (s\<lparr>tt_loop := el_step (CloseFd fd) (tt_loop s), tt_open := (tt_open s)(fd := None)\<rparr>))"
    (is "tt_running failing bad ?s")
proof -
  note D = tt_runningD [OF run]
  note me = D(3) [OF fr]
  have none: "pending (tt_loop s) fd = None" using me cur code by (simp add: tt_frame_ok_def)
  define l where "l = el_step (CloseFd fd) (tt_loop s)"
  have l: "loop_ok l" "pending l = pending (tt_loop s)" using loop_close [OF D(1) none] by (simp_all only: l_def)
  have "tt_frame_ok failing bad ?s g fg" if "tt_frames ?s g = Some fg" for g fg
  proof (cases "g = h")
    case True
    then have "fg = fr\<lparr>tf_code := TAt (k True)\<rparr>" using that by (simp add: co_goes_on_def)
    then show ?thesis using True me code cur fr by (auto simp: tt_frame_ok_def co_goes_on_def)
  next
    case False
    then have g: "tt_frames s g = Some fg" using that by (simp add: co_goes_on_def)
    show ?thesis using D(3) [OF g] False cur fr code l(2) none unfolding l_def [symmetric]
      by (auto simp: tt_frame_ok_def co_goes_on_def split: tcode.splits if_splits)
  qed
  moreover have "pending l fd' = Some g \<Longrightarrow> h \<noteq> g \<and> (\<exists>fg q. tt_frames s g = Some fg \<and> tf_code fg = TSleeping fd' q)" for fd' g
    using D(5) [of fd' g] cur l(2) by simp
  ultimately show ?thesis using D(2,4) fr cur l(1) unfolding tt_running_def l_def [symmetric]
    by (simp add: co_goes_on_def fresh_from_def del: fun_upd_apply) (auto simp: co_goes_on_def)
qed

lemma launch_ok:
  assumes run: "tt_running failing bad s" and cur: "tt_current s = None"
  defines "n \<equiv> tt_next s"
  shows "tt_running failing bad (s\<lparr>tt_frames := (tt_frames s)(n \<mapsto> tframe_call p None), tt_current := Some n, tt_next := Suc n,
      tt_launched := ps\<rparr>)"
    (is "tt_running failing bad ?s")
proof -
  note D = tt_runningD [OF run]
  have n: "tt_frames s n = None" using D(2) [of n] by (simp add: n_def)
  have "tt_frame_ok failing bad ?s g fg" if "tt_frames ?s g = Some fg" for g fg
  proof (cases "g = n")
    case True
    then have "fg = tframe_call p None" using that by simp
    then show ?thesis using True by (auto simp: tt_frame_ok_def tframe_call_def)
  next
    case False
    then have g: "tt_frames s g = Some fg" using that by simp
    show ?thesis using D(3) [OF g] False n cur by (auto simp: tt_frame_ok_def split: tcode.splits if_splits)
  qed
  moreover have "pending (tt_loop s) fd \<noteq> Some n" for fd using D(5) [of fd n] n by auto
  ultimately show ?thesis using D(1-5) n unfolding tt_running_def
    by (fastforce simp: fresh_from_def tframe_call_def n_def)
qed

lemma taken_ok:
  assumes run: "tt_running failing bad s" and cur: "tt_current s = None" and h: "pending (tt_loop s) fd = Some h"
    and l: "loop_ok l" "pending l = (pending (tt_loop s))(fd := None)"
  shows "tt_running failing bad (resume_handle h (s\<lparr>tt_loop := l\<rparr>)) \<and> resume_handle h (s\<lparr>tt_loop := l\<rparr>) = s\<lparr>tt_loop := l, tt_current := Some h\<rparr>"
proof -
  note D = tt_runningD [OF run]
  obtain fr k where fr: "tt_frames s h = Some fr" "tf_code fr = TSleeping fd k" using D(5) [OF h] by auto
  let ?s = "s\<lparr>tt_loop := l, tt_current := Some h\<rparr>"
  have eq: "resume_handle h (s\<lparr>tt_loop := l\<rparr>) = ?s" using fr by (simp add: resume_handle_def)
  have one: "pending (tt_loop s) fd' = Some h \<Longrightarrow> fd' = fd" for fd' using D(5) [of fd' h] fr by auto
  have "tt_frame_ok failing bad ?s g fg" if "tt_frames s g = Some fg" for g fg
  proof (cases "g = h")
    case True
    then show ?thesis using D(3) [OF that] that cur fr l(2) by (auto simp: tt_frame_ok_def)
  next
    case False
    show ?thesis using D(3) [OF that] False that fr cur l(2) h by (auto simp: tt_frame_ok_def split: tcode.splits if_splits)
  qed
  then have "tt_running failing bad ?s" using D(1-5) fr l one unfolding tt_running_def by (auto simp: fresh_from_def)
  then show ?thesis by (simp add: eq)
qed

lemma loop_moves_ok:
  assumes run: "tt_running failing bad s" and l: "loop_ok l" "pending l = pending (tt_loop s)" and "\<And>fd. opened fd = None \<longleftrightarrow> tt_open s fd = None"
  shows "tt_running failing bad (s\<lparr>tt_loop := l, tt_open := opened\<rparr>)"
proof -
  note D = tt_runningD [OF run]
  let ?s = "s\<lparr>tt_loop := l, tt_open := opened\<rparr>"
  have "tt_frame_ok failing bad ?s g fg \<longleftrightarrow> tt_frame_ok failing bad s g fg" for g fg
    by (cases "tf_code fg") (simp_all add: tt_frame_ok_def l(2) assms(4) del: not_None_eq)
  then show ?thesis using D l unfolding tt_running_def by (simp add: fresh_from_def)
qed

section \<open>Every step keeps the invariant\<close>

fun tt_allowed :: "bool \<Rightarrow> ('v, 'e) tt_event \<Rightarrow> bool" where
  "tt_allowed failing (Turn None ok) = failing"
| "tt_allowed failing (Abandon h) = False"
| "tt_allowed failing e = True"

lemma tt_okI: "tt_running failing bad s \<Longrightarrow> \<not> tt_ub s \<Longrightarrow> \<forall>(p, r) \<in> set (tt_out s). evaluates failing bad p r \<Longrightarrow> tt_ok failing bad s"
  by (simp add: tt_ok_def)

text \<open>What a turn of the running coroutine is.\<close>

lemma co_turn_cases:
  assumes run: "tt_running failing bad s" and cur: "tt_current s = Some h"
  obtains
    (ends) fr p r c where "tt_frames s h = Some fr" and "tf_code fr = TAt p" and "evaluates failing bad p r" and "tf_continuation fr = Some c"
      and "co_turn bad fd h s = s\<lparr>tt_frames := (tt_frames s)(h \<mapsto> (promise_store r fr)\<lparr>tf_code := TFinal\<rparr>), tt_current := Some c\<rparr>"
  | (detached) fr p r b where "tt_frames s h = Some fr" and "tf_code fr = TAt p" and "evaluates failing bad p r" and "tf_continuation fr = None"
      and "co_turn bad fd h s = s\<lparr>tt_frames := (tt_frames s)(h := None), tt_current := None, tt_out := (tf_body fr, r) # tt_out s, tt_terminated := b\<rparr>"
      and "b \<longleftrightarrow> (\<exists>e. r = Exc e)"
  | (awaits) fr p k where "tt_frames s h = Some fr" and "tf_code fr = TAt (TAwait p k)" and "fd \<noteq> None"
      and "co_turn bad fd h s = s\<lparr>tt_frames := (tt_frames s)(h \<mapsto> fr\<lparr>tf_code := TAwaiting (tt_next s) k\<rparr>, tt_next s \<mapsto> tframe_call p (Some h)),
              tt_current := Some (tt_next s), tt_next := Suc (tt_next s)\<rparr>"
  | (resumed) fr c k fc r where "tt_frames s h = Some fr" and "tf_code fr = TAwaiting c k" and "tt_frames s c = Some fc" and "promise_result fc = Some r"
      and "co_turn bad fd h s = co_goes_on h (k r) fr (s\<lparr>tt_frames := (tt_frames s)(c := None)\<rparr>)"
      and "tt_running failing bad (co_goes_on h (k r) fr (s\<lparr>tt_frames := (tt_frames s)(c := None)\<rparr>))"
  | (fails) fr ms k where "tt_frames s h = Some fr" and "tf_code fr = TAt (TSleep ms k)" and "ms < 0 \<or> fd = None"
      and "co_turn bad fd h s = co_goes_on h (k False) fr s"
  | (starved) fr p k where "tt_frames s h = Some fr" and "tf_code fr = TAt (TAwait p k)" and "fd = None"
      and "co_turn bad fd h s = co_goes_on h (k (Exc bad)) fr s"
  | (refused) n where "fd = Some n" and "tt_open s n \<noteq> None" and "co_turn bad fd h s = s"
  | (sleeps) fr ms k n where "tt_frames s h = Some fr" and "tf_code fr = TAt (TSleep ms k)" and "0 \<le> ms" and "fd = Some n" and "tt_open s n = None"
      and "co_turn bad fd h s = s\<lparr>tt_loop := run_sched el_step [Call 1 (Register n h), Step 1 True] (tt_loop s),
                tt_open := (tt_open s)(n \<mapsto> async_timer True ms), tt_frames := (tt_frames s)(h \<mapsto> fr\<lparr>tf_code := TSleeping n k\<rparr>), tt_current := None\<rparr>"
  | (woken) fr n k where "tt_frames s h = Some fr" and "tf_code fr = TSleeping n k"
      and "co_turn bad fd h s = co_goes_on h (k True) fr (s\<lparr>tt_loop := el_step (CloseFd n) (tt_loop s), tt_open := (tt_open s)(n := None)\<rparr>)"
proof -
  obtain fr where fr: "tt_frames s h = Some fr" "tf_code fr \<noteq> TFinal" using tt_runningD(4) [OF run cur] by auto
  have finish: thesis if code: "tf_code fr = TAt p" and r: "evaluates failing bad p r" and turn: "co_turn bad fd h s = body_ends h r fr s" for p r
  proof (cases "tf_continuation fr")
    case None
    then show thesis by (intro detached [OF fr(1) code r]) (simp_all add: turn body_ends_def split: outcome.split)
  next
    case (Some c)
    then show thesis by (intro ends [OF fr(1) code r]) (simp_all add: turn body_ends_def)
  qed
  show thesis
  proof (cases "tf_code fr")
    case (TAt p)
    show thesis
    proof (cases p)
      case (TReturn v)
      show thesis by (rule finish [OF TAt, of "Value v"]) (use fr TAt TReturn in \<open>simp_all add: co_turn_def ev_return\<close>)
    next
      case (TThrow e)
      show thesis by (rule finish [OF TAt, of "Exc e"]) (use fr TAt TThrow in \<open>simp_all add: co_turn_def ev_throw\<close>)
    next
      case (TAwait q k)
      then have code: "tf_code fr = TAt (TAwait q k)" using TAt by simp
      show thesis
      proof (cases "fd = None")
        case True
        show thesis by (rule starved [OF fr(1) code True]) (use fr code True in \<open>simp add: co_turn_def\<close>)
      next
        case False
        show thesis by (rule awaits [OF fr(1) code False]) (use fr code False in \<open>auto simp add: co_turn_def\<close>)
      qed
    next
      case (TSleep ms k)
      have code: "tf_code fr = TAt (TSleep ms k)" using TAt TSleep by simp
      have turn: "co_turn bad fd h s = co_sleep fd h ms k fr s" using fr code by (simp add: co_turn_def)
      show thesis
      proof (cases "\<exists>n. fd = Some n \<and> tt_open s n \<noteq> None")
        case True
        then obtain n where n: "fd = Some n" "tt_open s n \<noteq> None" by blast
        then have "co_turn bad fd h s = s" unfolding turn by (simp add: co_sleep_def)
        with n show thesis by (rule refused)
      next
        case free: False
        show thesis
        proof (cases "ms < 0 \<or> fd = None")
          case True
          then show thesis using free by (intro fails [OF fr(1) code]) (auto simp: turn co_sleep_def async_timer_expiry split: option.split)
        next
          case False
          then obtain n where n: "fd = Some n" "tt_open s n = None" "0 \<le> ms" using free by (cases fd) auto
          have "async_timer True ms \<noteq> TimerError" using n(3) by (simp add: async_timer_expiry)
          moreover have "el_epoll (tt_loop s) n = None" by (rule sleep_ok(2) [OF run cur fr(1) code n(3,2)])
          ultimately show thesis
            by (intro sleeps [OF fr(1) code n(3,1,2)], unfold turn)
              (simp add: co_sleep_def n split: timer.split del: run_sched.simps)
        qed
      qed
    qed
  next
    case (TAwaiting c k)
    obtain fc r where "tt_frames s c = Some fc" "promise_result fc = Some r"
      "tt_running failing bad (co_goes_on h (k r) fr (s\<lparr>tt_frames := (tt_frames s)(c := None)\<rparr>))"
      by (rule resumed_ok [OF run cur fr(1) TAwaiting])
    then show thesis by (intro resumed [OF fr(1) TAwaiting]) (use fr TAwaiting in \<open>simp_all add: co_turn_def\<close>)
  next
    case (TSleeping n k)
    then show thesis by (intro woken [OF fr(1)]) (use fr in \<open>simp_all add: co_turn_def\<close>)
  next
    case TFinal
    then show thesis using fr(2) by simp
  qed
qed

lemma co_turn_ok:
  assumes run: "tt_running failing bad s" and ub: "\<not> tt_ub s" and out: "\<forall>(p, r) \<in> set (tt_out s). evaluates failing bad p r"
    and cur: "tt_current s = Some h" and fd: "fd = None \<Longrightarrow> failing"
  shows "tt_ok failing bad (co_turn bad fd h s)"
  using run cur
proof (cases rule: co_turn_cases [where fd = fd])
  case (ends fr p r c)
  then show ?thesis using ends_ok [OF run cur ends(1-4)] ub out by (simp add: tt_ok_def)
next
  case (detached fr p r b)
  then have "evaluates failing bad (tf_body fr) r" using tt_runningD(3) [OF run detached(1)] by (simp add: tt_frame_ok_def)
  then show ?thesis using detached_ok [OF run cur detached(1,2,4)] detached(5) ub out by (simp add: tt_ok_def)
next
  case (awaits fr p k)
  then show ?thesis using await_ok [OF run cur awaits(1,2)] ub out by (simp add: tt_ok_def)
next
  case (resumed fr c k fc r)
  then show ?thesis using ub out by (simp add: tt_ok_def co_goes_on_def)
next
  case (fails fr ms k)
  have "tt_running failing bad (co_goes_on h (k False) fr s)"
    by (rule goes_on_ok [OF run cur fails(1)])
      (use fails tt_runningD(3) [OF run fails(1)] fd in \<open>auto simp: tt_frame_ok_def intro: ev_failed\<close>)
  then show ?thesis using fails(4) ub out by (simp add: tt_ok_def co_goes_on_def)
next
  case (starved fr p k)
  have "tt_running failing bad (co_goes_on h (k (Exc bad)) fr s)"
    by (rule goes_on_ok [OF run cur starved(1)])
      (use starved tt_runningD(3) [OF run starved(1)] fd in \<open>auto simp: tt_frame_ok_def intro: ev_no_frame\<close>)
  then show ?thesis using starved(4) ub out by (simp add: tt_ok_def co_goes_on_def)
next
  case (refused n)
  then show ?thesis using run ub out by (simp add: tt_ok_def)
next
  case (sleeps fr ms k n)
  show ?thesis unfolding sleeps(6)
    by (rule tt_okI [OF sleep_ok(1) [OF run cur sleeps(1-3,5)]]) (use ub out in simp_all)
next
  case (woken fr n k)
  then show ?thesis using woken_ok [OF run cur woken(1,2)] ub out by (simp add: tt_ok_def co_goes_on_def)
qed

lemma tt_step_keeps:
  assumes ok: "tt_ok failing bad s" and e: "tt_allowed failing e"
  shows "tt_ok failing bad (tt_step bad e s)"
proof (cases "tt_terminated s")
  case True
  then show ?thesis using ok by (simp add: tt_step_def)
next
  case False
  then have run: "tt_running failing bad s" and ub: "\<not> tt_ub s" and out: "\<forall>(p, r) \<in> set (tt_out s). evaluates failing bad p r"
    using ok by (simp_all add: tt_ok_def)
  note l = tt_runningD(1) [OF run]
  have moves: "tt_ok failing bad (s\<lparr>tt_loop := l'\<rparr>)" if "loop_ok l'" "pending l' = pending (tt_loop s)" for l'
    using loop_moves_ok [OF run that, of "tt_open s"] ub out by (simp add: tt_ok_def)
  show ?thesis
  proof (cases e)
    case (Launch p)
    show ?thesis
    proof (cases "tt_current s = None")
      case True
      then show ?thesis using launch_ok [OF run True, where p = p and ps = "p # tt_launched s"] ok ub out False by (simp add: Launch tt_step_def tt_ok_def)
    qed (use ok False in \<open>auto simp: Launch tt_step_def\<close>)
  next
    case (LoopCall r)
    then show ?thesis using moves loop_call [OF l, of r] ok False by (simp add: tt_step_def del: el_step.simps)
  next
    case StopLoop
    then show ?thesis using moves loop_stop [OF l] False by (simp add: tt_step_def del: el_step.simps)
  next
    case (Turn fd w)
    show ?thesis
    proof (cases "tt_current s")
      case (Some h)
      then show ?thesis using co_turn_ok [OF run ub out Some, of fd] e False by (cases fd) (simp_all add: Turn tt_step_def)
    next
      case None
      from l show ?thesis
      proof (cases rule: loop_turn_cases [where w = w])
        case (quiet l')
        then show ?thesis using moves None False by (simp add: Turn tt_step_def)
      next
        case (takes n h l')
        note tk = taken_ok [OF run None takes(3,2,4)]
        have "tt_running failing bad (s\<lparr>tt_loop := l', tt_current := Some h\<rparr>)" using tk by (metis (no_types))
        moreover have "tt_step bad e s = s\<lparr>tt_loop := l', tt_current := Some h\<rparr>" using tk takes(1) None False by (simp add: Turn tt_step_def)
        ultimately show ?thesis using ub out by (simp add: tt_ok_def)
      qed
    qed
  next
    case (Expired n)
    show ?thesis
    proof (cases "\<exists>t. tt_open s n = Some (ExpiresIn t)")
      case True
      then obtain t where t: "tt_open s n = Some (ExpiresIn t)" by blast
      let ?l = "el_step (Expire n) (tt_loop s)"
      have "tt_running failing bad (s\<lparr>tt_loop := ?l, tt_open := (tt_open s)(n \<mapsto> Disarmed)\<rparr>)"
        by (rule loop_moves_ok [OF run]) (use loop_expire [OF l, of n] t in \<open>simp_all del: el_step.simps\<close>)
      then show ?thesis using ub out False by (simp add: Expired tt_step_def t tt_ok_def del: el_step.simps)
    next
      case False
      then have "tt_step bad e s = s" by (auto simp: Expired tt_step_def split: option.splits timer.splits)
      then show ?thesis using ok by simp
    qed
  next
    case (Abandon h)
    then show ?thesis using e by simp
  qed
qed

interpretation tt: interleaving "\<lambda>e s. if tt_allowed failing e then tt_step bad e s else s" "tt_ok failing bad" for failing bad
  by unfold_locales (simp add: tt_step_keeps)

lemma tt_reachable_ok:
  assumes "\<forall>e \<in> set es. tt_allowed failing e"
  shows "tt_ok failing bad (run_sched (tt_step bad) es tt_new)"
proof -
  have "run_sched (tt_step bad) es tt_new = run_sched (\<lambda>e s. if tt_allowed failing e then tt_step bad e s else s) es tt_new"
    by (rule run_sched_cong) (use assms in simp)
  then show ?thesis using tt.sched_keeps [OF tt_ok_new] by simp
qed

section \<open>Results\<close>

text \<open>
  (C29) Coroutines that await tasks and timers, any number of them interleaved by the event loop of one thread, compute what their bodies say, as long as none is
  destroyed while it is suspended: in every such
  run, whatever the order in which timers expire and descriptors are reused, and whenever descriptors or the blocks of the frame pool run out, no coroutine is resumed that is done or destroyed and no result is taken from an unfinished
  task, and a detached coroutine that ends has an outcome of its body read directly, in which the calls for which something was missing threw; if nothing was ever missing it is the one
  outcome of that reading.
\<close>

theorem timed_tasks_run_as_direct:
  fixes es :: "('v, 'e) tt_event list"
  assumes "\<forall>e \<in> set es. tt_allowed failing e" and "s = run_sched (tt_step bad) es tt_new"
  shows "\<not> tt_ub s \<and> (\<forall>(p, r) \<in> set (tt_out s). evaluates failing bad p r \<and> (failing \<or> r = timed_direct p))"
proof -
  have "tt_ok failing bad s" using tt_reachable_ok [OF assms(1)] assms(2) by simp
  then have "\<not> tt_ub s" and out: "\<forall>(p, r) \<in> set (tt_out s). evaluates failing bad p r" by (simp_all add: tt_ok_def)
  moreover have "failing \<or> r = timed_direct p" if "evaluates failing bad p r" for p :: "('v, 'e) tprog" and r
    using that evaluates_direct [of bad p r] by (metis (full_types))
  ultimately show ?thesis by blast
qed

definition nap :: "int \<Rightarrow> nat \<Rightarrow> (nat, string) tprog" where
  "nap ms v = TSleep ms (\<lambda>ok. if ok then TReturn v else TThrow ''timer'')"

definition two_naps :: "(nat, string) tprog" where
  "two_naps = TAwait (nap 5 3) (\<lambda>r. case r of Value v \<Rightarrow> nap 7 (Suc v) | Exc e \<Rightarrow> TThrow e)"

definition naps_run :: "(nat, string) tt_event list" where
  "naps_run = [Launch two_naps, Turn (Some 4) True, Turn (Some 4) True, Launch (nap 1 8), Turn (Some 5) True, LoopCall True,
     Expired 5, Turn (Some 6) True, Turn (Some 6) True, Turn (Some 6) True, Turn (Some 6) True, Turn (Some 6) True] @
     replicate 4 (Turn (Some 6) True) @ [Expired 4] @ replicate 12 (Turn (Some 5) True) @ [Expired 5] @ replicate 12 (Turn (Some 6) True)"

lemma naps_run_out: "map snd (tt_out (run_sched (tt_step bad) naps_run tt_new)) = [Value 4, Value 8]"
  by code_simp

lemma timed_tasks_run_as_direct_witness:
  "\<not> tt_ub (run_sched (tt_step ''bad_alloc'') naps_run tt_new) \<and> (\<exists>p. (p, Value 4) \<in> set (tt_out (run_sched (tt_step ''bad_alloc'') naps_run tt_new)) \<and> timed_direct p = Value 4)"
proof -
  have "\<forall>e \<in> set naps_run. tt_allowed False e" by (simp add: naps_run_def)
  note direct = timed_tasks_run_as_direct [OF this refl, of "''bad_alloc''"]
  have "(Value 4 :: (nat, string) outcome) \<in> set (map snd (tt_out (run_sched (tt_step ''bad_alloc'') naps_run tt_new)))" unfolding naps_run_out by simp
  then obtain p where p: "(p, Value 4) \<in> set (tt_out (run_sched (tt_step ''bad_alloc'') naps_run tt_new))" by auto
  with direct have "timed_direct p = Value 4" by fastforce
  with direct p show ?thesis by blast
qed

text \<open>
  (C31) On one thread that destroys no suspended coroutine every reachable state is well formed, whatever fails or is interrupted: a frame belongs to the coroutine that runs, or to one that awaits a living task which will continue it, or to
  one that sleeps on an open timer under whose descriptor the loop keeps just its handle, or it is a finished task whose awaiting coroutine runs; and
  the loop's map holds no handle of anything but a coroutine that sleeps on that timer.
\<close>

theorem timed_frames_well_formed:
  fixes es :: "('v, 'e) tt_event list"
  assumes "s = run_sched (tt_step bad) es tt_new" and "\<not> tt_terminated s" and "\<forall>e \<in> set es. tt_allowed True e"
  shows "(\<forall>h fr. tt_frames s h = Some fr \<longrightarrow>
      (case tf_code fr of
         TAt p \<Rightarrow> tt_current s = Some h
       | TAwaiting c k \<Rightarrow> \<exists>fc. tt_frames s c = Some fc \<and> tf_continuation fc = Some h \<and> (tf_code fc = TFinal \<longleftrightarrow> tt_current s = Some h)
       | TSleeping fd k \<Rightarrow> tt_open s fd \<noteq> None \<and> map_of (el_timers (tt_loop s)) fd = (if tt_current s = Some h then None else Some h)
       | TFinal \<Rightarrow> \<exists>g. tf_continuation fr = Some g \<and> tt_current s = Some g)) \<and>
    (\<forall>fd h. map_of (el_timers (tt_loop s)) fd = Some h \<longrightarrow> (\<exists>fr k. tt_frames s h = Some fr \<and> tf_code fr = TSleeping fd k)) \<and>
    (\<forall>fd. el_epoll (tt_loop s) fd \<noteq> None \<longleftrightarrow> map_of (el_timers (tt_loop s)) fd \<noteq> None)"
proof -
  have "tt_ok True bad s" unfolding assms(1) by (rule tt_reachable_ok [OF assms(3)])
  then have "tt_running True bad s" using assms(2) by (simp add: tt_ok_def)
  note D = tt_runningD [OF this]
  have "case tf_code fr of
         TAt p \<Rightarrow> tt_current s = Some h
       | TAwaiting c k \<Rightarrow> \<exists>fc. tt_frames s c = Some fc \<and> tf_continuation fc = Some h \<and> (tf_code fc = TFinal \<longleftrightarrow> tt_current s = Some h)
       | TSleeping fd k \<Rightarrow> tt_open s fd \<noteq> None \<and> map_of (el_timers (tt_loop s)) fd = (if tt_current s = Some h then None else Some h)
       | TFinal \<Rightarrow> \<exists>g. tf_continuation fr = Some g \<and> tt_current s = Some g" if "tt_frames s h = Some fr" for h fr
    using D(3) [OF that] by (auto simp: tt_frame_ok_def split: tcode.splits)
  moreover have "el_epoll (tt_loop s) fd \<noteq> None \<longleftrightarrow> map_of (el_timers (tt_loop s)) fd \<noteq> None" for fd
    using loop_okD(8) [OF D(1), of fd] by simp
  ultimately show ?thesis using D(5) by blast
qed

lemma timed_frames_well_formed_witness:
  "\<exists>fr k. tt_frames (run_sched (tt_step ''bad_alloc'') (take 6 naps_run) tt_new) 1 = Some fr \<and> tf_code fr = TSleeping 4 k"
proof -
  have "map_of (el_timers (tt_loop (run_sched (tt_step ''bad_alloc'') (take 6 naps_run) tt_new))) 4 = Some 1"
    and "\<not> tt_terminated (run_sched (tt_step ''bad_alloc'') (take 6 naps_run) tt_new)" by code_simp+
  moreover have "\<forall>e \<in> set (take 6 naps_run). tt_allowed True e" by (simp add: naps_run_def)
  ultimately show ?thesis using timed_frames_well_formed [of _ "''bad_alloc''" "take 6 naps_run", OF refl] by blast
qed

text \<open>The frame pool runs out at the call of the awaited task: the caller sees \<open>bad_alloc\<close>.\<close>

lemma starved_call_throws:
  "map snd (tt_out (run_sched (tt_step ''bad_alloc'')
     [Launch (TAwait (nap 5 3) (\<lambda>r. case r of Value v \<Rightarrow> TReturn v | Exc e \<Rightarrow> TReturn (length e))), Turn None True, Turn (Some 4) True] tt_new)) = [Value 9]"
  by code_simp

text \<open>
  Why no suspended coroutine may be destroyed: two timers are in one batch, the first coroutine is resumed, and its owner destroys the second; the loop still
  finds the handle in its map.
\<close>

lemma destroyed_coroutine_resumed:
  "tt_ub (run_sched (tt_step ''bad_alloc'')
     ([Launch (nap 1 7), Turn (Some 4) True, Launch (nap 1 8), Turn (Some 5) True, Expired 4, Expired 5, LoopCall False] @
      replicate 2 (Turn (Some 6) True) @ [Abandon 1] @ replicate 3 (Turn (Some 6) True)) tt_new)"
  by code_simp

end
