(* ===== verification/TimedProgress.thy ===== *)
theory TimedProgress
  imports TimedTasks
begin

text \<open>
  Progress of the machine of the theory \<open>TimedTasks\<close>: what is left to do of the bodies, as a multiset that each turn of a coroutine makes smaller; the
  loop reaches the next resumption; every coroutine can end.
\<close>

section \<open>What is left to do\<close>

datatype ('v, 'e) work = WProg "('v, 'e) tprog" | WCont "('v, 'e) outcome \<Rightarrow> ('v, 'e) tprog" | WSleep "bool \<Rightarrow> ('v, 'e) tprog"

inductive_set part_of :: "(('v, 'e) work \<times> ('v, 'e) work) set" where
  awaited: "(WProg p, WProg (TAwait p k)) \<in> part_of"
| behind: "(WCont k, WProg (TAwait p k)) \<in> part_of"
| resumed: "(WProg (k r), WCont k) \<in> part_of"
| asleep: "(WSleep k, WProg (TSleep ms k)) \<in> part_of"
| woken: "(WProg (k b), WSleep k) \<in> part_of"

inductive_simps part_of_simps: "(x, WProg (TReturn v)) \<in> part_of" "(x, WProg (TThrow e)) \<in> part_of"
  "(x, WProg (TAwait p k)) \<in> part_of" "(x, WProg (TSleep ms k)) \<in> part_of" "(x, WCont k) \<in> part_of" "(x, WSleep f) \<in> part_of"

lemma wf_part_of: "wf (part_of :: (('v, 'e) work \<times> ('v, 'e) work) set)"
proof (rule wfUNIVI)
  fix P :: "('v, 'e) work \<Rightarrow> bool" and x
  assume step: "\<forall>x. (\<forall>y. (y, x) \<in> part_of \<longrightarrow> P y) \<longrightarrow> P x"
  have cont: "P (WCont k)" if "\<And>r. P (WProg (k r))" for k
    by (rule step [rule_format]) (use that in \<open>auto simp: part_of_simps\<close>)
  have sleep: "P (WSleep k)" if "\<And>b. P (WProg (k b))" for k
    by (rule step [rule_format]) (use that in \<open>auto simp: part_of_simps\<close>)
  have prog: "P (WProg p)" for p
  proof (induction p)
    case (TAwait p k)
    have "P (WCont k)" by (rule cont) (use TAwait.IH(2) in auto)
    with TAwait.IH(1) show ?case by (intro step [rule_format, of "WProg (TAwait p k)"]) (auto simp: part_of_simps)
  next
    case (TSleep ms k)
    have "P (WSleep k)" by (rule sleep) (use TSleep.IH in auto)
    then show ?case by (intro step [rule_format, of "WProg (TSleep ms k)"]) (auto simp: part_of_simps)
  qed (rule step [rule_format], simp add: part_of_simps)+
  show "P x" by (cases x) (use prog cont sleep in auto)
qed

abbreviation less_work :: "(('v, 'e) work multiset \<times> ('v, 'e) work multiset) set" where
  "less_work \<equiv> mult (part_of\<^sup>+)"

lemma wf_less_work: "wf less_work"
  by (intro wf_mult wf_trancl wf_part_of)

lemma less_workI: "(\<And>b. b \<in># B \<Longrightarrow> (b, a) \<in> part_of\<^sup>+) \<Longrightarrow> (X + B, X + {#a#}) \<in> less_work"
  by (rule one_step_implies_mult) auto

section \<open>Sums over the frames\<close>

definition opt :: "('f \<Rightarrow> 'a multiset) \<Rightarrow> 'f option \<Rightarrow> 'a multiset" where
  "opt f x = (case x of None \<Rightarrow> {#} | Some fr \<Rightarrow> f fr)"

definition frame_sum :: "('f \<Rightarrow> 'a multiset) \<Rightarrow> nat \<Rightarrow> (nat \<Rightarrow> 'f option) \<Rightarrow> 'a multiset" where
  "frame_sum f n F = (\<Sum>h<n. opt f (F h))"

lemma opt_simps [simp]: "opt f None = {#}" "opt f (Some fr) = f fr"
  by (simp_all add: opt_def)

lemma frame_sum_at:
  assumes "h < n"
  obtains X where "frame_sum f n F = X + opt f (F h)" and "\<And>x. frame_sum f n (F(h := x)) = X + opt f x"
proof -
  let ?X = "\<Sum>g\<in>{..<n} - {h}. opt f (F g)"
  have "(\<Sum>g\<in>{..<n} - {h}. opt f ((F(h := x)) g)) = ?X" for x by (rule sum.cong) auto
  then have upd: "frame_sum f n (F(h := x)) = ?X + opt f x" for x
    using assms sum.remove [of "{..<n}" h "\<lambda>g. opt f ((F(h := x)) g)"] by (simp add: frame_sum_def)
  from upd [of "F h"] have "frame_sum f n F = ?X + opt f (F h)" by simp
  then show thesis using upd by (rule that)
qed

lemma frame_sum_Suc: "frame_sum f (Suc n) F = frame_sum f n F + opt f (F n)"
  by (simp add: frame_sum_def)

lemma frame_sum_same: "opt f x = opt f (F h) \<Longrightarrow> frame_sum f n (F(h := x)) = frame_sum f n F"
  by (simp add: frame_sum_def) (rule sum.cong, auto)

definition work_of :: "('v, 'e) tframe \<Rightarrow> ('v, 'e) work multiset" where
  "work_of fr = (case tf_code fr of TAt p \<Rightarrow> {#WProg p#} | TAwaiting c k \<Rightarrow> {#WCont k#} | TSleeping fd k \<Rightarrow> {#WSleep k#} | TFinal \<Rightarrow> {#})"

definition tt_work :: "('v, 'e) timed \<Rightarrow> ('v, 'e) work multiset" where
  "tt_work s = frame_sum work_of (tt_next s) (tt_frames s)"

definition root_of :: "('v, 'e) tframe \<Rightarrow> ('v, 'e) tprog multiset" where
  "root_of fr = (if tf_continuation fr = None then {#tf_body fr#} else {#})"

definition tt_roots :: "('v, 'e) timed \<Rightarrow> ('v, 'e) tprog multiset" where
  "tt_roots s = frame_sum root_of (tt_next s) (tt_frames s)"

lemma work_of_simps [simp]:
  "tf_code fr = TAt p \<Longrightarrow> work_of fr = {#WProg p#}" "tf_code fr = TAwaiting c k \<Longrightarrow> work_of fr = {#WCont k#}"
  "tf_code fr = TSleeping fd b \<Longrightarrow> work_of fr = {#WSleep b#}" "tf_code fr = TFinal \<Longrightarrow> work_of fr = {#}"
  by (simp_all add: work_of_def)

lemma frame_sum_beyond: "n \<le> c \<Longrightarrow> frame_sum f n (F(c := x)) = frame_sum f n F"
  unfolding frame_sum_def by (rule sum.cong) auto

lemma root_of_simps [simp]: "root_of (fr\<lparr>tf_code := c\<rparr>) = root_of fr" "root_of (promise_store r fr) = root_of fr"
  "root_of (tframe_call p (Some h)) = {#}" "root_of (tframe_call p None) = {#p#}"
  by (simp_all add: root_of_def promise_store_def tframe_call_def split: outcome.split)

lemma in_use:
  assumes "tt_running failing bad s" and "tt_frames s h = Some fr"
  shows "h < tt_next s"
  using tt_runningD(2) [OF assms(1), of h] assms(2) by (cases "tt_next s \<le> h") auto

text \<open>A turn of a coroutine leaves less to do, and loses no detached coroutine.\<close>

lemma exchange_work:
  assumes "h < tt_next s" and "tt_frames s h = Some fr" and "work_of fr = {#a#}" and "\<And>b. b \<in># opt work_of x \<Longrightarrow> (b, a) \<in> part_of\<^sup>+"
  shows "(frame_sum work_of (tt_next s) ((tt_frames s)(h := x)), tt_work s) \<in> less_work"
proof -
  obtain X where X: "frame_sum work_of (tt_next s) (tt_frames s) = X + opt work_of (tt_frames s h)"
      "\<And>x. frame_sum work_of (tt_next s) ((tt_frames s)(h := x)) = X + opt work_of x"
    using frame_sum_at [OF assms(1)] by blast
  show ?thesis unfolding tt_work_def X(1) X(2) [of x] using less_workI [of "opt work_of x" a X] assms(2-4) by simp
qed

lemma turn_works:
  assumes run: "tt_running failing bad s" and cur: "tt_current s = Some h" and n: "tt_open s n = None"
  shows "(tt_work (co_turn bad (Some n) h s), tt_work s) \<in> less_work"
  using run cur
proof (cases rule: co_turn_cases [where fd = "Some n"])
  case (ends fr p r c)
  show ?thesis
    using exchange_work [OF in_use [OF run ends(1)] ends(1), of "WProg p" "Some ((promise_store r fr)\<lparr>tf_code := TFinal\<rparr>)"] ends(2,5)
    by (simp add: tt_work_def)
next
  case (detached fr p r b)
  then show ?thesis using exchange_work [OF in_use [OF run detached(1)] detached(1), of "WProg p" None] by (simp add: tt_work_def)
next
  case (awaits fr p k)
  let ?F = "(tt_frames s)(h \<mapsto> fr\<lparr>tf_code := TAwaiting (tt_next s) k\<rparr>)"
  have h: "h < tt_next s" by (rule in_use [OF run awaits(1)])
  obtain X where X: "frame_sum work_of (tt_next s) (tt_frames s) = X + opt work_of (tt_frames s h)"
      "\<And>x. frame_sum work_of (tt_next s) ((tt_frames s)(h := x)) = X + opt work_of x"
    using frame_sum_at [OF h] by blast
  have "tt_work (co_turn bad (Some n) h s) = X + {#WCont k, WProg p#}" unfolding awaits(4)
    by (simp add: tt_work_def frame_sum_Suc frame_sum_beyond X(2) tframe_call_def)
  moreover have "tt_work s = X + {#WProg (TAwait p k)#}" using X(1) awaits(1,2) by (simp add: tt_work_def)
  moreover have "(X + {#WCont k, WProg p#}, X + {#WProg (TAwait p k)#}) \<in> less_work"
    by (rule less_workI) (auto intro: part_of.intros)
  ultimately show ?thesis by simp
next
  case (resumed fr c k fc r)
  have fc: "tf_code fc = TFinal" using resumed(4) by (auto simp: promise_result_def split: tcode.splits)
  let ?s = "s\<lparr>tt_frames := (tt_frames s)(c := None)\<rparr>"
  have "c \<noteq> h" using fc resumed(1-3) by auto
  have "tt_work ?s = tt_work s" unfolding tt_work_def using fc resumed(3) by (simp add: frame_sum_same)
  moreover have "(frame_sum work_of (tt_next ?s) ((tt_frames ?s)(h \<mapsto> fr\<lparr>tf_code := TAt (k r)\<rparr>)), tt_work ?s) \<in> less_work"
    by (rule exchange_work [where a = "WCont k" and fr = fr])
      (use in_use [OF run resumed(1)] resumed(1,2) \<open>c \<noteq> h\<close> in \<open>auto intro: part_of.intros\<close>)
  ultimately show ?thesis unfolding resumed(5) by (simp add: tt_work_def co_goes_on_def)
next
  case (fails fr ms k)
  have "(WProg (k False), WProg (TSleep ms k)) \<in> part_of\<^sup>+"
    by (rule trancl_into_trancl [OF r_into_trancl]) (rule part_of.woken part_of.asleep)+
  then show ?thesis using exchange_work [OF in_use [OF run fails(1)] fails(1), of _ "Some (fr\<lparr>tf_code := TAt (k False)\<rparr>)"] fails(2,4)
    by (simp add: tt_work_def co_goes_on_def)
next
  case (starved fr p k)
  then show ?thesis by simp
next
  case (refused m)
  then show ?thesis using n by simp
next
  case (sleeps fr ms k m)
  have "(WSleep k, WProg (TSleep ms k)) \<in> part_of\<^sup>+" by (blast intro: part_of.asleep)
  then show ?thesis using exchange_work [OF in_use [OF run sleeps(1)] sleeps(1), of _ "Some (fr\<lparr>tf_code := TSleeping m k\<rparr>)"] sleeps(2,6)
    by (simp add: tt_work_def del: run_sched.simps)
next
  case (woken fr m k)
  have "(WProg (k True), WSleep k) \<in> part_of\<^sup>+" by (blast intro: part_of.woken)
  then show ?thesis using exchange_work [OF in_use [OF run woken(1)] woken(1), of _ "Some (fr\<lparr>tf_code := TAt (k True)\<rparr>)"] woken(2,3)
    by (simp add: tt_work_def co_goes_on_def)
qed

definition tt_conserved :: "('v, 'e) timed \<Rightarrow> bool" where
  "tt_conserved s \<longleftrightarrow> mset (map fst (tt_out s)) + tt_roots s = mset (tt_launched s) \<and>
     (tt_terminated s \<longrightarrow> (\<exists>p e. (p, Exc e) \<in> set (tt_out s)))"

lemma turn_conserves:
  assumes run: "tt_running failing bad s" and cur: "tt_current s = Some h" and cons: "tt_conserved s"
  shows "tt_conserved (co_turn bad fd h s)"
  using run cur
proof (cases rule: co_turn_cases [where fd = fd])
  case (detached fr p r b)
  obtain X where X: "frame_sum root_of (tt_next s) (tt_frames s) = X + opt root_of (tt_frames s h)"
      "\<And>x. frame_sum root_of (tt_next s) ((tt_frames s)(h := x)) = X + opt root_of x"
    using frame_sum_at [OF in_use [OF run detached(1)]] by blast
  then show ?thesis using cons detached by (auto simp: tt_conserved_def tt_roots_def root_of_def)
next
  case (awaits fr p k)
  then have same: "frame_sum root_of n ((tt_frames s)(h \<mapsto> fr\<lparr>tf_code := TAwaiting (tt_next s) k\<rparr>)) = frame_sum root_of n (tt_frames s)" for n
    by (intro frame_sum_same) simp
  show ?thesis using cons unfolding awaits(4)
    by (simp add: tt_conserved_def tt_roots_def frame_sum_Suc frame_sum_beyond same)
next
  case (resumed fr c k fc r)
  have fc: "tf_code fc = TFinal" using resumed(4) by (auto simp: promise_result_def split: tcode.splits)
  have "c \<noteq> h" using fc resumed(1-3) by auto
  have "tf_continuation fc \<noteq> None" using tt_runningD(3) [OF run resumed(3)] fc by (simp add: tt_frame_ok_def)
  then have 1: "frame_sum root_of (tt_next s) ((tt_frames s)(c := None)) = frame_sum root_of (tt_next s) (tt_frames s)"
    using resumed(3) by (intro frame_sum_same) (simp add: root_of_def)
  have 2: "frame_sum root_of (tt_next s) ((tt_frames s)(c := None, h \<mapsto> fr\<lparr>tf_code := TAt (k r)\<rparr>)) =
      frame_sum root_of (tt_next s) ((tt_frames s)(c := None))"
    using resumed(1) \<open>c \<noteq> h\<close> by (intro frame_sum_same) simp
  show ?thesis using cons 1 2 unfolding resumed(5) by (simp add: tt_conserved_def tt_roots_def co_goes_on_def)
qed (use cons in \<open>simp_all add: tt_conserved_def tt_roots_def co_goes_on_def frame_sum_same del: run_sched.simps\<close>)

section \<open>Timers that will expire\<close>

text \<open>All timers a body may wait for are for a positive time.\<close>

primrec positive :: "('v, 'e) tprog \<Rightarrow> bool" where
  "positive (TReturn v) \<longleftrightarrow> True"
| "positive (TThrow e) \<longleftrightarrow> True"
| "positive (TAwait p k) \<longleftrightarrow> positive p \<and> (\<forall>r. positive (k r))"
| "positive (TSleep ms k) \<longleftrightarrow> ms \<noteq> 0 \<and> (\<forall>b. positive (k b))"

definition due :: "('v, 'e) timed \<Rightarrow> nat \<Rightarrow> bool" where
  "due s fd \<longleftrightarrow> fd \<in> set (batch (tt_loop s)) \<or> fd \<in> set (el_expired (tt_loop s)) \<or> (\<exists>t. tt_open s fd = Some (ExpiresIn t))"

definition frame_live :: "('v, 'e) timed \<Rightarrow> nat \<Rightarrow> ('v, 'e) tframe \<Rightarrow> bool" where
  "frame_live s h fr \<longleftrightarrow>
     (case tf_code fr of
        TAt p \<Rightarrow> positive p
      | TAwaiting c k \<Rightarrow> h < c \<and> (\<forall>r. positive (k r))
      | TSleeping fd k \<Rightarrow> (\<forall>b. positive (k b)) \<and> (tt_current s = Some h \<or> due s fd)
      | TFinal \<Rightarrow> True)"

definition tt_live :: "('v, 'e) timed \<Rightarrow> bool" where
  "tt_live s \<longleftrightarrow> finite {fd. tt_open s fd \<noteq> None} \<and> (\<forall>h fr. tt_frames s h = Some fr \<longrightarrow> frame_live s h fr)"

lemma tt_liveI:
  assumes "finite {fd. tt_open s fd \<noteq> None}" and "\<And>h fr. tt_frames s h = Some fr \<Longrightarrow> frame_live s h fr"
  shows "tt_live s"
  using assms by (auto simp: tt_live_def)

lemma tt_liveD: "tt_live s \<Longrightarrow> tt_frames s h = Some fr \<Longrightarrow> frame_live s h fr"
  by (simp add: tt_live_def)

text \<open>The other frames, after a step of the running coroutine or of the loop.\<close>

lemma stays_live:
  assumes "frame_live s g fg" and "\<And>fd k. tf_code fg = TSleeping fd k \<Longrightarrow> tt_current s \<noteq> Some g \<Longrightarrow> due s fd \<Longrightarrow> due s' fd"
    and "tt_current s \<noteq> Some g \<or> tt_current s' = Some g"
  shows "frame_live s' g fg"
  using assms by (auto simp: frame_live_def split: tcode.splits)

lemma finite_open: "finite {fd. f fd \<noteq> None} \<Longrightarrow> finite {fd. (f(n := x)) fd \<noteq> None}"
  by (rule finite_subset [of _ "insert n {fd. f fd \<noteq> None}"]) auto

lemma live_turn:
  assumes live: "tt_live s" and cur: "tt_current s = Some h" and fin: "tt_open s' = tt_open s \<or> (\<exists>n x. tt_open s' = (tt_open s)(n := x))"
    and me: "\<And>fr. tt_frames s' h = Some fr \<Longrightarrow> frame_live s' h fr"
    and others: "\<And>g fg. tt_frames s' g = Some fg \<Longrightarrow> g \<noteq> h \<Longrightarrow> frame_live s' g fg \<or>
      tt_frames s g = Some fg \<and> (\<forall>fd k. tf_code fg = TSleeping fd k \<longrightarrow> due s fd \<longrightarrow> due s' fd)"
  shows "tt_live s'"
proof (rule tt_liveI)
  have "finite {fd. tt_open s fd \<noteq> None}" using live by (simp add: tt_live_def)
  then show "finite {fd. tt_open s' fd \<noteq> None}" using fin
    by (elim disjE exE) (simp_all only: finite_open)
  fix g fg assume g: "tt_frames s' g = Some fg"
  show "frame_live s' g fg"
  proof (cases "g = h")
    case True
    then show ?thesis using me g by simp
  next
    case False
    from others [OF g False] show ?thesis
    proof
      assume old: "tt_frames s g = Some fg \<and> (\<forall>fd k. tf_code fg = TSleeping fd k \<longrightarrow> due s fd \<longrightarrow> due s' fd)"
      show ?thesis by (rule stays_live [OF tt_liveD [OF live]]) (use old False cur in auto)
    qed
  qed
qed

lemma turn_stays_live:
  assumes run: "tt_running failing bad s" and cur: "tt_current s = Some h" and live: "tt_live s"
  shows "tt_live (co_turn bad fd h s)"
  using run cur
proof (cases rule: co_turn_cases [where fd = fd])
  case (ends fr p r c)
  show ?thesis unfolding ends(5) by (rule live_turn [OF live cur]) (auto simp: frame_live_def due_def)
next
  case (detached fr p r b)
  show ?thesis unfolding detached(5) by (rule live_turn [OF live cur]) (auto simp: due_def)
next
  case (awaits fr p k)
  have "positive p" "\<And>r. positive (k r)" using tt_liveD [OF live awaits(1)] awaits(2) by (simp_all add: frame_live_def)
  with in_use [OF run awaits(1)] show ?thesis unfolding awaits(4)
    by (intro live_turn [OF live cur]) (auto simp: frame_live_def tframe_call_def due_def split: if_splits)
next
  case (resumed fr c k fc r)
  have "positive (k r)" using tt_liveD [OF live resumed(1)] resumed(2) by (simp add: frame_live_def)
  then show ?thesis unfolding resumed(5)
    by (intro live_turn [OF live cur]) (auto simp: frame_live_def co_goes_on_def due_def split: if_splits)
next
  case (fails fr ms k)
  have "positive (k False)" using tt_liveD [OF live fails(1)] fails(2) by (simp add: frame_live_def)
  then show ?thesis unfolding fails(4)
    by (intro live_turn [OF live cur]) (auto simp: frame_live_def co_goes_on_def due_def)
next
  case (starved fr p k)
  have "positive (k (Exc bad))" using tt_liveD [OF live starved(1)] starved(2) by (simp add: frame_live_def)
  then show ?thesis unfolding starved(4)
    by (intro live_turn [OF live cur]) (auto simp: frame_live_def co_goes_on_def due_def)
next
  case (refused n)
  then show ?thesis using live by simp
next
  case (sleeps fr ms k n)
  have pos: "ms \<noteq> 0" "\<And>b. positive (k b)" using tt_liveD [OF live sleeps(1)] sleeps(2) by (simp_all add: frame_live_def)
  define l where "l = run_sched el_step [Call 1 (Register n h), Step 1 True] (tt_loop s)"
  note ok = tt_runningD(1) [OF run]
  have "pending (tt_loop s) n = None" using sleep_ok(2) [OF run cur sleeps(1-3,5)] loop_okD(8) [OF ok, of n]
    by (simp split: if_splits)
  then have l: "batch l = batch (tt_loop s)" "el_expired l = el_expired (tt_loop s)"
    using loop_register [OF ok, of n h, folded l_def] batch_cong [of l "tt_loop s"] by blast+
  have "async_timer True ms = ExpiresIn (ms * 1000000)" using sleeps(3) pos(1) by (simp add: async_timer_expiry)
  with pos show ?thesis unfolding sleeps(6) l_def [symmetric]
    by (intro live_turn [OF live cur]) (auto simp: frame_live_def due_def l)
next
  case (woken fr n k)
  note ok = tt_runningD(1) [OF run]
  have pos: "positive (k True)" using tt_liveD [OF live woken(1)] woken(2) by (simp add: frame_live_def)
  have none: "pending (tt_loop s) n = None" using tt_runningD(3) [OF run woken(1)] woken(2) cur by (simp add: tt_frame_ok_def)
  define l where "l = el_step (CloseFd n) (tt_loop s)"
  have l: "batch l = batch (tt_loop s)" "el_expired l = filter (\<lambda>x. x \<noteq> n) (el_expired (tt_loop s))"
    using loop_close [OF ok none, folded l_def] batch_cong [of l "tt_loop s"] by auto
  have other: "m \<noteq> n" if "tt_frames s g = Some fg" "g \<noteq> h" "tf_code fg = TSleeping m q" for g fg m q
    using tt_runningD(3) [OF run that(1)] none that cur by (auto simp: tt_frame_ok_def)
  from pos show ?thesis unfolding woken(3) l_def [symmetric]
    by (intro live_turn [OF live cur]) (auto simp: frame_live_def co_goes_on_def due_def l dest: other)
qed

section \<open>The full invariant\<close>

definition tt_full :: "'e \<Rightarrow> ('v, 'e) timed \<Rightarrow> bool" where
  "tt_full bad s \<longleftrightarrow> tt_ok True bad s \<and> tt_live s \<and> tt_conserved s"

fun launches_positive :: "('v, 'e) tt_event \<Rightarrow> bool" where
  "launches_positive (Launch p) = positive p"
| "launches_positive (Abandon h) = False"
| "launches_positive e = True"

lemma tt_full_new: "tt_full bad tt_new"
  by (simp add: tt_full_def tt_ok_new) (simp add: tt_live_def tt_conserved_def tt_new_def tt_roots_def frame_sum_def)

text \<open>Steps of the loop and of the kernel.\<close>

lemma loop_stays_live:
  assumes live: "tt_live s" and s': "tt_frames s' = tt_frames s" and cur: "tt_current s' = tt_current s \<or> tt_current s = None"
    and opened: "tt_open s' = tt_open s \<or> (\<exists>n x. tt_open s' = (tt_open s)(n := x))"
    and due: "\<And>g fg fd k. tt_frames s g = Some fg \<Longrightarrow> tf_code fg = TSleeping fd k \<Longrightarrow> tt_current s' \<noteq> Some g \<Longrightarrow> due s fd \<Longrightarrow> due s' fd"
  shows "tt_live s'"
proof (rule tt_liveI)
  have "finite {fd. tt_open s fd \<noteq> None}" using live by (simp add: tt_live_def)
  then show "finite {fd. tt_open s' fd \<noteq> None}" using opened by (elim disjE exE) (simp_all only: finite_open)
  fix g fg assume "tt_frames s' g = Some fg"
  then have g: "tt_frames s g = Some fg" by (simp add: s')
  show "frame_live s' g fg" using tt_liveD [OF live g] cur due [OF g] by (auto simp: frame_live_def split: tcode.splits)
qed

lemma conserved_cong:
  "tt_frames s' = tt_frames s \<Longrightarrow> tt_next s' = tt_next s \<Longrightarrow> tt_out s' = tt_out s \<Longrightarrow> tt_launched s' = tt_launched s \<Longrightarrow>
    tt_terminated s' = tt_terminated s \<Longrightarrow> tt_conserved s' = tt_conserved s"
  by (simp add: tt_conserved_def tt_roots_def)

lemma quiet_loop_live:
  assumes "tt_live s" and "set (batch (tt_loop s)) \<subseteq> set (batch l)" and "set (el_expired (tt_loop s)) \<subseteq> set (el_expired l)"
  shows "tt_live (s\<lparr>tt_loop := l\<rparr>)"
  by (rule loop_stays_live [OF assms(1)]) (use assms in \<open>auto simp: due_def\<close>)

lemma launch_live:
  assumes live: "tt_live s" and idle: "tt_current s = None" and p: "positive p"
  shows "tt_live (s\<lparr>tt_frames := (tt_frames s)(tt_next s \<mapsto> tframe_call p None), tt_current := Some (tt_next s), tt_next := Suc (tt_next s),
    tt_launched := p # tt_launched s\<rparr>)" (is "tt_live ?s")
proof (rule tt_liveI)
  fix g fg assume g: "tt_frames ?s g = Some fg"
  show "frame_live ?s g fg"
  proof (cases "g = tt_next s")
    case True
    then show ?thesis using g p by (auto simp: frame_live_def tframe_call_def)
  next
    case False
    then have "tt_frames s g = Some fg" using g by simp
    from tt_liveD [OF live this] show ?thesis by (rule stays_live) (use idle in \<open>auto simp: due_def\<close>)
  qed
qed (use live in \<open>simp add: tt_live_def\<close>)

lemma taken_live:
  assumes run: "tt_running failing bad s" and idle: "tt_current s = None" and live: "tt_live s" and n: "pending (tt_loop s) n = Some h"
    and l: "el_expired l = filter (\<lambda>x. x \<noteq> n) (el_expired (tt_loop s))" "batch (tt_loop s) = n # batch l"
  shows "tt_live (s\<lparr>tt_loop := l, tt_current := Some h\<rparr>)"
proof -
  have other: "m \<noteq> n" if "tt_frames s g = Some fg" "tf_code fg = TSleeping m q" "g \<noteq> h" for g fg m q
    using tt_runningD(3) [OF run that(1)] that idle n by (auto simp: tt_frame_ok_def)
  show ?thesis by (rule loop_stays_live [OF live]) (use idle other l in \<open>auto simp: due_def\<close>)
qed

lemma turn_full:
  assumes run: "tt_running failing bad s" and alive: "\<not> tt_terminated s" and live: "tt_live s" and cons: "tt_conserved s"
  shows "tt_live (tt_step bad (Turn fd w) s) \<and> tt_conserved (tt_step bad (Turn fd w) s)"
proof (cases "tt_current s")
  case (Some h)
  then show ?thesis using turn_stays_live [OF run Some live] turn_conserves [OF run Some cons] alive by (simp add: tt_step_def)
next
  case None
  from tt_runningD(1) [OF run] show ?thesis
  proof (cases rule: loop_turn_cases [where w = w])
    case (quiet l')
    have "tt_live (s\<lparr>tt_loop := l'\<rparr>)" by (rule quiet_loop_live [OF live]) (use quiet in simp_all)
    then show ?thesis using quiet alive None cons conserved_cong [of "s\<lparr>tt_loop := l'\<rparr>" s] by (simp add: tt_step_def)
  next
    case (takes n h l')
    let ?s = "s\<lparr>tt_loop := l', tt_current := Some h\<rparr>"
    have eq: "tt_step bad (Turn fd w) s = ?s" using taken_ok [OF run None takes(3,2,4)] takes(1) alive None by (simp add: tt_step_def)
    have "tt_live ?s" by (rule taken_live [OF run None live takes(3,5,6)])
    then show ?thesis using cons conserved_cong [of ?s s] by (simp add: eq)
  qed
qed

lemma expired_full:
  assumes ok: "loop_ok (tt_loop s)" and alive: "\<not> tt_terminated s" and live: "tt_live s" and cons: "tt_conserved s"
  shows "tt_live (tt_step bad (Expired n) s) \<and> tt_conserved (tt_step bad (Expired n) s)"
proof (cases "\<exists>t. tt_open s n = Some (ExpiresIn t)")
  case True
  then obtain t where t: "tt_open s n = Some (ExpiresIn t)" by blast
  define l where "l = el_step (Expire n) (tt_loop s)"
  let ?s = "s\<lparr>tt_loop := l, tt_open := (tt_open s)(n \<mapsto> Disarmed)\<rparr>"
  have eq: "tt_step bad (Expired n) s = ?s" using alive by (simp add: tt_step_def t l_def del: el_step.simps)
  note x = loop_expire [OF ok, of n, folded l_def]
  have "tt_live ?s" by (rule loop_stays_live [OF live]) (use x batch_cong [of l "tt_loop s"] in \<open>auto simp: due_def\<close>)
  then show ?thesis using cons conserved_cong [of ?s s] by (simp add: eq)
next
  case False
  then have "tt_step bad (Expired n) s = s" by (auto simp: tt_step_def split: option.splits timer.splits)
  then show ?thesis using live cons by simp
qed

lemma tt_full_step:
  assumes full: "tt_full bad s" and e: "launches_positive e"
  shows "tt_full bad (tt_step bad e s)"
proof (cases "tt_terminated s")
  case True
  then show ?thesis using full by (simp add: tt_step_def)
next
  case False
  then have ok: "tt_ok True bad s" and run: "tt_running True bad s" and live: "tt_live s" and cons: "tt_conserved s"
    using full by (simp_all add: tt_full_def tt_ok_def)
  note l = tt_runningD(1) [OF run]
  have ok': "tt_ok True bad (tt_step bad e s)" by (rule tt_step_keeps [OF ok]) (use e in \<open>cases "(True, e)" rule: tt_allowed.cases; simp\<close>)
  have "tt_live (tt_step bad e s) \<and> tt_conserved (tt_step bad e s)"
  proof (cases e)
    case (Launch p)
    then show ?thesis using launch_live [OF live, of p] e False live cons
      by (simp add: tt_step_def tt_conserved_def tt_roots_def frame_sum_Suc frame_sum_beyond)
  next
    case (LoopCall r)
    let ?l = "el_step (Call 0 (if r then RunLoop else Poll)) (tt_loop s)"
    have "tt_live (s\<lparr>tt_loop := ?l\<rparr>)" by (rule quiet_loop_live [OF live]) (use loop_call [OF l, of r] in \<open>simp_all del: el_step.simps\<close>)
    then show ?thesis using False live cons conserved_cong [of "s\<lparr>tt_loop := ?l\<rparr>" s]
      by (simp add: LoopCall tt_step_def del: el_step.simps)
  next
    case StopLoop
    let ?l = "el_step (Call 1 Stop) (tt_loop s)"
    have "tt_live (s\<lparr>tt_loop := ?l\<rparr>)"
      by (rule quiet_loop_live [OF live]) (use loop_stop [OF l] batch_cong [of ?l "tt_loop s"] in \<open>simp_all del: el_step.simps\<close>)
    then show ?thesis using False cons conserved_cong [of "s\<lparr>tt_loop := ?l\<rparr>" s]
      by (simp add: StopLoop tt_step_def del: el_step.simps)
  next
    case (Turn fd w)
    then show ?thesis using turn_full [OF run False live cons] by simp
  next
    case (Expired n)
    then show ?thesis using expired_full [OF l False live cons] by simp
  next
    case (Abandon h)
    then show ?thesis using e by simp
  qed
  with ok' show ?thesis by (simp add: tt_full_def)
qed

lemma tt_full_run: "tt_full bad s \<Longrightarrow> list_all launches_positive es \<Longrightarrow> tt_full bad (run_sched (tt_step bad) es s)"
  by (induction es arbitrary: s) (simp_all add: tt_full_step)

section \<open>Every coroutine can end\<close>

text \<open>The program's own moves and the kernel's, without new coroutines, a stop of the loop, or a shortage of descriptors or memory.\<close>

fun carries_on :: "('v, 'e) tt_event \<Rightarrow> bool" where
  "carries_on (Launch p) = False"
| "carries_on StopLoop = False"
| "carries_on (Abandon h) = False"
| "carries_on (Turn None ok) = False"
| "carries_on e = True"

lemma carries_on_positive: "carries_on e \<Longrightarrow> launches_positive e"
  by (cases e) simp_all

lemma someone_sleeps:
  assumes full: "tt_full bad s" and "\<not> tt_terminated s" and idle: "tt_current s = None" and h: "tt_frames s h \<noteq> None"
  obtains fd where "pending (tt_loop s) fd \<noteq> None" and "due s fd"
proof -
  have run: "tt_running True bad s" and live: "tt_live s" using assms by (simp_all add: tt_full_def tt_ok_def)
  let ?H = "{h. tt_frames s h \<noteq> None}"
  have "?H \<subseteq> {..<tt_next s}" using in_use [OF run] by auto
  then have fin: "finite ?H" by (rule finite_subset) simp
  define m where "m = Max ?H"
  have "m \<in> ?H" unfolding m_def by (rule Max_in [OF fin]) (use h in auto)
  then obtain fr where fr: "tt_frames s m = Some fr" by auto
  have top: "tt_frames s c = None" if "m < c" for c
  proof (rule ccontr)
    assume "tt_frames s c \<noteq> None"
    then have "c \<le> m" unfolding m_def using fin by (intro Max_ge) simp_all
    with that show False by simp
  qed
  note ok = tt_runningD(3) [OF run fr] and lv = tt_liveD [OF live fr]
  show thesis
  proof (cases "tf_code fr")
    case (TAwaiting c k)
    then have "m < c" "tt_frames s c \<noteq> None" using ok lv by (auto simp: tt_frame_ok_def frame_live_def)
    then show thesis using top by simp
  next
    case (TSleeping fd k)
    then show thesis using ok lv idle by (intro that [of fd]) (auto simp: tt_frame_ok_def frame_live_def)
  qed (use ok idle in \<open>auto simp: tt_frame_ok_def\<close>)
qed

text \<open>Control is in the loop, or not yet in it, and some coroutine has not ended.\<close>

definition waiting :: "'e \<Rightarrow> ('v, 'e) work multiset \<Rightarrow> ('v, 'e) timed \<Rightarrow> bool" where
  "waiting bad W s \<longleftrightarrow> tt_full bad s \<and> \<not> tt_terminated s \<and> tt_current s = None \<and> (\<exists>h. tt_frames s h \<noteq> None) \<and> tt_work s = W"

definition resuming :: "'e \<Rightarrow> ('v, 'e) work multiset \<Rightarrow> ('v, 'e) timed \<Rightarrow> bool" where
  "resuming bad W s \<longleftrightarrow> tt_full bad s \<and> \<not> tt_terminated s \<and> tt_current s \<noteq> None \<and> tt_work s = W"

lemma waitingD:
  assumes "waiting bad W s"
  shows "tt_full bad s" and "\<not> tt_terminated s" and "tt_current s = None" and "loop_ok (tt_loop s)" and "tt_running True bad s"
  using assms by (auto simp: waiting_def tt_full_def tt_ok_def tt_running_def)

lemma waiting_step:
  assumes w: "waiting bad W s" and e: "carries_on e" and "tt_step bad e s = s\<lparr>tt_loop := l, tt_open := opened\<rparr>"
  shows "waiting bad W (tt_step bad e s)"
  using w tt_full_step [OF waitingD(1) [OF w] carries_on_positive [OF e]]
  by (simp add: assms(3) waiting_def tt_work_def)

lemma waiting_turn:
  assumes w: "waiting bad W s" and "loop_turn True (tt_loop s) = (l, None)"
  shows "waiting bad W (s\<lparr>tt_loop := l\<rparr>)" and "tt_step bad (Turn (Some 0) True) s = s\<lparr>tt_loop := l\<rparr>"
proof -
  show step: "tt_step bad (Turn (Some 0) True) s = s\<lparr>tt_loop := l\<rparr>" using assms(2) waitingD(2,3) [OF w] by (simp add: tt_step_def)
  then have "tt_step bad (Turn (Some 0) True) s = s\<lparr>tt_loop := l, tt_open := tt_open s\<rparr>" by simp
  from waiting_step [OF w _ this] step show "waiting bad W (s\<lparr>tt_loop := l\<rparr>)" by simp
qed

lemma reach_turn:
  assumes "waiting bad W s" and "loop_turn True (tt_loop s) = (l, None)" and "waiting bad W (s\<lparr>tt_loop := l\<rparr>) \<Longrightarrow> reaches carries_on (tt_step bad) Q (s\<lparr>tt_loop := l\<rparr>)"
  shows "reaches carries_on (tt_step bad) Q s"
  by (rule reach_step [of _ "Turn (Some 0) True"]) (use assms(3) waiting_turn [OF assms(1,2)] in simp_all)

lemma batch_resumes:
  assumes w: "waiting bad W s" and pc: "el_pcs (tt_loop s) 0 = Batch (fd # rest) r"
  shows "reaches carries_on (tt_step bad) (resuming bad W) s"
proof -
  note D = waitingD [OF w]
  have some: "snd (loop_turn True (tt_loop s)) \<noteq> None" by (rule loop_takes [OF D(4) pc, of True]) simp
  from D(4) show ?thesis
  proof (cases rule: loop_turn_cases [where w = True])
    case (quiet l')
    then show ?thesis using some by simp
  next
    case (takes n h l')
    have step: "tt_step bad (Turn (Some 0) True) s = s\<lparr>tt_loop := l', tt_current := Some h\<rparr>"
      using taken_ok [OF D(5,3) takes(3,2,4)] takes(1) D(2,3) by (simp add: tt_step_def)
    have "tt_full bad (tt_step bad (Turn (Some 0) True) s)" by (rule tt_full_step [OF D(1)]) simp
    then have "resuming bad W (tt_step bad (Turn (Some 0) True) s)" using w by (simp add: step resuming_def waiting_def tt_work_def)
    then have "reaches carries_on (tt_step bad) (resuming bad W) (tt_step bad (Turn (Some 0) True) s)" by (rule reach_now)
    then show ?thesis by (rule reach_step [rotated]) simp
  qed
qed

lemma poll_resumes:
  assumes w: "waiting bad W s" and pc: "el_pcs (tt_loop s) 0 = PollWait r"
  shows "reaches carries_on (tt_step bad) (resuming bad W) s"
proof -
  have go: "reaches carries_on (tt_step bad) (resuming bad W) t" if w: "waiting bad W t" and pc: "el_pcs (tt_loop t) 0 = PollWait r" and ne: "ready (tt_loop t) \<noteq> []" for t
  proof -
    obtain fd rest where some: "take kMaxEvents (ready (tt_loop t)) = fd # rest"
      using ne by (cases "ready (tt_loop t)") (simp_all add: kMaxEvents_def)
    obtain l where l: "loop_turn True (tt_loop t) = (l, None)" "el_pcs l 0 = Batch (fd # rest) r"
      using pc some by (simp add: loop_turn_def epoll_wait_def Let_def)
    show ?thesis by (rule reach_turn [OF w l(1)]) (use l(2) in \<open>auto intro: batch_resumes\<close>)
  qed
  note D = waitingD [OF w]
  show ?thesis
  proof (cases "ready (tt_loop s) = []")
    case False
    with w pc show ?thesis by (rule go)
  next
    case True
    obtain h where "tt_frames s h \<noteq> None" using w unfolding waiting_def by blast
    then obtain fd where fd: "pending (tt_loop s) fd \<noteq> None" "due s fd" by (rule someone_sleeps [OF D(1-3)])
    have "batch (tt_loop s) = []" using pc by (simp add: batch_def)
    then have enabled: "el_epoll (tt_loop s) fd = Some True" using loop_okD(8) [OF D(4), of fd] fd(1) by simp
    then have "fd \<notin> set (el_expired (tt_loop s))" using True by (auto simp: ready_def filter_empty_conv)
    then obtain t where t: "tt_open s fd = Some (ExpiresIn t)" using fd(2) \<open>batch _ = []\<close> by (auto simp: due_def)
    define l where "l = el_step (Expire fd) (tt_loop s)"
    have step: "tt_step bad (Expired fd) s = s\<lparr>tt_loop := l, tt_open := (tt_open s)(fd \<mapsto> Disarmed)\<rparr>"
      using t D(2) by (simp add: tt_step_def l_def del: el_step.simps)
    have "waiting bad W (tt_step bad (Expired fd) s)" by (rule waiting_step [OF w _ step]) simp
    moreover have "el_pcs l 0 = PollWait r" using pc by (simp add: l_def)
    moreover have "ready l \<noteq> []" using enabled by (auto simp: l_def ready_def filter_empty_conv)
    ultimately have "reaches carries_on (tt_step bad) (resuming bad W) (tt_step bad (Expired fd) s)" by (intro go) (simp_all add: step)
    then show ?thesis by (rule reach_step [rotated]) simp
  qed
qed

lemma idle_resumes:
  assumes w: "waiting bad W s" and pc: "el_pcs (tt_loop s) 0 = EIdle"
  shows "reaches carries_on (tt_step bad) (resuming bad W) s"
proof -
  define l where "l = el_step (Call 0 Poll) (tt_loop s)"
  have step: "tt_step bad (LoopCall False) s = s\<lparr>tt_loop := l, tt_open := tt_open s\<rparr>"
    using waitingD(2,3) [OF w] by (simp add: tt_step_def l_def del: el_step.simps)
  have "waiting bad W (tt_step bad (LoopCall False) s)" by (rule waiting_step [OF w _ step]) simp
  moreover have "el_pcs l 0 = PollWait False" using pc by (simp add: l_def el_begin_def)
  ultimately have "reaches carries_on (tt_step bad) (resuming bad W) (tt_step bad (LoopCall False) s)" by (intro poll_resumes [where r = False]) (simp_all add: step)
  then show ?thesis by (rule reach_step [rotated]) simp
qed

lemma waiting_resumes:
  assumes w: "waiting bad W s"
  shows "reaches carries_on (tt_step bad) (resuming bad W) s"
proof -
  have check: "reaches carries_on (tt_step bad) (resuming bad W) t" if w: "waiting bad W t" and pc: "el_pcs (tt_loop t) 0 = RunCheck" for t
  proof -
    let ?l = "el_go 0 (if el_running (tt_loop t) then PollWait True else EIdle) (tt_loop t)"
    have "loop_turn True (tt_loop t) = (?l, None)" using pc by (simp add: loop_turn_def Let_def)
    then show ?thesis
      by (rule reach_turn [OF w]) (cases "el_running (tt_loop t)"; auto intro: poll_resumes idle_resumes)
  qed
  consider fd rest r where "el_pcs (tt_loop s) 0 = Batch (fd # rest) r" | r where "el_pcs (tt_loop s) 0 = Batch [] r"
    | r where "el_pcs (tt_loop s) 0 = PollWait r" | "el_pcs (tt_loop s) 0 = RunCheck" | "el_pcs (tt_loop s) 0 = EIdle"
    using loop_okD(1) [OF waitingD(4) [OF w]] by (cases "el_pcs (tt_loop s) 0") (auto, metis list.exhaust)
  then show ?thesis
  proof cases
    case 1
    then show ?thesis by (rule batch_resumes [OF w])
  next
    case 2
    let ?l = "el_go 0 (if r then RunCheck else EIdle) (tt_loop s)"
    have "loop_turn True (tt_loop s) = (?l, None)" using 2 by (simp add: loop_turn_def take_event_def Let_def)
    then show ?thesis by (rule reach_turn [OF w]) (cases r; auto intro: check idle_resumes)
  next
    case 3
    then show ?thesis by (rule poll_resumes [OF w])
  next
    case 4
    then show ?thesis by (rule check [OF w])
  next
    case 5
    then show ?thesis by (rule idle_resumes [OF w])
  qed
qed

lemma some_unused: "finite {fd. f fd \<noteq> None} \<Longrightarrow> \<exists>n :: nat. f n = None"
proof (rule ccontr)
  assume fin: "finite {fd. f fd \<noteq> None}" and "\<not> (\<exists>n. f n = None)"
  then have "{fd. f fd \<noteq> None} = (UNIV :: nat set)" by auto
  with fin show False by simp
qed

definition all_ended :: "'e \<Rightarrow> ('v, 'e) timed \<Rightarrow> bool" where
  "all_ended bad s \<longleftrightarrow> tt_full bad s \<and> (tt_terminated s \<or> tt_current s = None \<and> (\<forall>h. tt_frames s h = None))"

lemma reaches_end: "tt_full bad s \<Longrightarrow> reaches carries_on (tt_step bad) (all_ended bad) s"
proof (induction "tt_work s" arbitrary: s rule: wf_induct_rule [OF wf_less_work])
  case 1
  have turn: "reaches carries_on (tt_step bad) (all_ended bad) t" if t: "resuming bad (tt_work s) t" for t
  proof -
    have full: "tt_full bad t" and live: "tt_live t" and alive: "\<not> tt_terminated t" and run: "tt_running True bad t"
      and work: "tt_work t = tt_work s" using t by (auto simp: resuming_def tt_full_def tt_ok_def)
    obtain h where h: "tt_current t = Some h" using t by (auto simp: resuming_def)
    obtain n where n: "tt_open t n = None" using live some_unused [of "tt_open t"] unfolding tt_live_def by blast
    have step: "tt_step bad (Turn (Some n) True) t = co_turn bad (Some n) h t" using alive h by (simp add: tt_step_def)
    have "(tt_work (tt_step bad (Turn (Some n) True) t), tt_work s) \<in> less_work" unfolding step using turn_works [OF run h n] work by simp
    moreover have "tt_full bad (tt_step bad (Turn (Some n) True) t)" by (rule tt_full_step [OF full]) simp
    ultimately have "reaches carries_on (tt_step bad) (all_ended bad) (tt_step bad (Turn (Some n) True) t)" by (rule 1(1))
    then show ?thesis by (rule reach_step [rotated]) simp
  qed
  consider "all_ended bad s" | "resuming bad (tt_work s) s" | "waiting bad (tt_work s) s"
    using 1(2) by (cases "tt_terminated s"; cases "tt_current s = None"; cases "\<exists>h. tt_frames s h \<noteq> None")
      (simp_all add: all_ended_def resuming_def waiting_def)
  then show ?case
  proof cases
    case 1
    then show ?thesis by (rule reach_now)
  next
    case 2
    then show ?thesis by (rule turn)
  next
    case 3
    from waiting_resumes [OF this] show ?thesis by (rule reach_trans) (rule turn)
  qed
qed

lemma no_launch: "carries_on e \<Longrightarrow> tt_launched (tt_step bad e s) = tt_launched s"
  by (cases e)
    (auto simp: tt_step_def co_turn_def co_sleep_def co_goes_on_def body_ends_def resume_handle_def simp del: el_step.simps run_sched.simps
      split: option.split tcode.split tprog.split timer.split prod.split)

lemma no_launches: "list_all carries_on fs \<Longrightarrow> tt_launched (run_sched (tt_step bad) fs s) = tt_launched s"
  by (induction fs arbitrary: s) (simp_all add: no_launch)

section \<open>Results\<close>

text \<open>
  (C30) No wake-up is lost on one thread, as long as no coroutine awaits a timer for zero milliseconds and none is destroyed while it is suspended: from every state that any number of such coroutines can reach, with any
  failures and interruptions behind them, the remaining moves of the program and the expirations can be ordered so that each coroutine ends and its frame is
  destroyed, or an exception that leaves a detached coroutine terminates the program.
\<close>

theorem timed_tasks_can_end:
  assumes "list_all launches_positive es" and "s = run_sched (tt_step bad) es tt_new"
  shows "\<exists>fs s'. list_all carries_on fs \<and> s' = run_sched (tt_step bad) fs s \<and>
    (if tt_terminated s' then \<exists>p e. (p, Exc e) \<in> set (tt_out s')
     else tt_current s' = None \<and> (\<forall>h. tt_frames s' h = None) \<and> mset (map fst (tt_out s')) = mset (tt_launched s))"
proof -
  have "tt_full bad s" unfolding assms(2) by (rule tt_full_run [OF tt_full_new assms(1)])
  from reaches_end [OF this] obtain fs where fs: "list_all carries_on fs" "all_ended bad (run_sched (tt_step bad) fs s)"
    by (auto simp: reaches_def)
  let ?s = "run_sched (tt_step bad) fs s"
  have cons: "tt_conserved ?s" using fs(2) by (simp add: all_ended_def tt_full_def)
  have "tt_roots ?s = {#}" if "\<forall>h. tt_frames ?s h = None" using that by (simp add: tt_roots_def frame_sum_def)
  then show ?thesis using fs cons no_launches [OF fs(1), of bad s]
    by (intro exI [of _ fs] exI [of _ ?s]) (auto simp: all_ended_def tt_conserved_def)
qed

lemma timed_tasks_can_end_witness:
  "\<exists>fs s'. list_all carries_on fs \<and> s' = run_sched (tt_step ''bad_alloc'') fs (run_sched (tt_step ''bad_alloc'') (take 9 naps_run) tt_new) \<and>
    (if tt_terminated s' then \<exists>p e. (p, Exc e) \<in> set (tt_out s')
     else tt_current s' = None \<and> (\<forall>h. tt_frames s' h = None) \<and>
       mset (map fst (tt_out s')) = mset (tt_launched (run_sched (tt_step ''bad_alloc'') (take 9 naps_run) tt_new)))"
proof (rule timed_tasks_can_end [OF _ refl])
  show "list_all launches_positive (take 9 naps_run)"
    by (simp add: naps_run_def two_naps_def nap_def split: outcome.split)
qed

end
