(* ===== verification/HardwareSupport.thy ===== *)
theory HardwareSupport
  imports Prelude "HOL-Library.Word"
begin

text \<open>
  The two pieces of modern_cpp_core that deal with the machine: \<open>AlignedCacheLine\<close> (memory/aligned_cache_line.hpp), as the layout of its
  objects and the effect of its operators on memory, and the wrappers of concurrency/thread_affinity.cpp.  The calls of pthread are parameters, with
  what their manual promises as hypotheses.
\<close>

unbundle bit_operations_syntax

section \<open>AlignedCacheLine\<close>

text \<open>The size of a cache line, if the library defines \<open>hardware_destructive_interference_size\<close>, and 64 otherwise.\<close>

definition kCacheLineSize :: "nat option \<Rightarrow> nat" where
  "kCacheLineSize hardware_destructive_interference_size =
     (case hardware_destructive_interference_size of Some n \<Rightarrow> n | None \<Rightarrow> 64)"

record layout =
  sizeof :: nat
  alignof :: nat

text \<open>
  The struct has one member, at offset 0; its size is rounded up to a multiple of its alignment.  An \<open>alignas\<close> weaker than the member's own
  alignment is not allowed (\<open>None\<close>).
\<close>

definition aligned_cache_line :: "nat \<Rightarrow> layout \<Rightarrow> layout option" where
  "aligned_cache_line line T =
     (if line < alignof T then None
      else Some \<lparr>sizeof = (sizeof T + (line - 1)) div line * line, alignof = line\<rparr>)"

text \<open>Memory holds a value of the wrapped type at the address of its first byte.\<close>

type_synonym 'v memory = "nat \<Rightarrow> 'v option"

definition element :: "nat \<Rightarrow> layout \<Rightarrow> nat \<Rightarrow> nat" where
  "element base A i = base + i * sizeof A"

definition acl_construct :: "('a \<Rightarrow> 'v) \<Rightarrow> 'a \<Rightarrow> nat \<Rightarrow> 'v memory \<Rightarrow> 'v memory" where
  "acl_construct T args this m = m(this \<mapsto> T args)"

definition acl_assign :: "'v \<Rightarrow> nat \<Rightarrow> 'v memory \<Rightarrow> 'v memory" where
  "acl_assign v this m = m(this \<mapsto> v)"

text \<open>The conversions to \<open>T&\<close> and the address of the member.\<close>

definition acl_value :: "nat \<Rightarrow> 'v memory \<Rightarrow> 'v option" where
  "acl_value this m = m this"

definition acl_address :: "nat \<Rightarrow> nat" where
  "acl_address this = this + 0"

definition lines_of :: "nat \<Rightarrow> nat \<Rightarrow> nat \<Rightarrow> nat set" where
  "lines_of line a n = (\<lambda>b. b div line) ` {a ..< a + n}"

lemma round_up:
  fixes n line :: nat
  assumes "0 < line" and "0 < n"
  shows "n \<le> (n + (line - 1)) div line * line" and "(n + (line - 1)) div line * line < n + line"
    and "0 < (n + (line - 1)) div line"
proof -
  have "n + (line - 1) = (n + (line - 1)) div line * line + (n + (line - 1)) mod line" by simp
  moreover have "(n + (line - 1)) mod line < line" using assms(1) by simp
  ultimately show "n \<le> (n + (line - 1)) div line * line" using assms by linarith
  have "(n + (line - 1)) div line * line \<le> n + (line - 1)" by simp
  then show "(n + (line - 1)) div line * line < n + line" using assms by linarith
  show "0 < (n + (line - 1)) div line" using assms by (simp add: div_greater_zero_iff)
qed

lemma lines_between:
  assumes "0 < line" and "k * line \<le> a" and "a + n \<le> l * line"
  shows "lines_of line a n \<subseteq> {k ..< l}"
proof
  fix x assume "x \<in> lines_of line a n"
  then obtain b where b: "x = b div line" "a \<le> b" "b < a + n" by (auto simp: lines_of_def)
  have "k \<le> b div line" using assms b by (simp add: less_eq_div_iff_mult_less_eq)
  moreover have "b div line < l" using assms b by (simp add: div_less_iff_less_mult)
  ultimately show "x \<in> {k ..< l}" using b by simp
qed

text \<open>
  The elements of an array of \<open>AlignedCacheLine<T>\<close> that starts at an aligned address are independent variables whose values never share a
  cache line, whatever the type and the size of a line; each costs less than a line of padding, and none when the size of \<open>T\<close> is a multiple of a line.
\<close>

theorem aligned_elements_share_no_line:
  assumes A: "aligned_cache_line line T = Some A" and line: "0 < line" and T: "0 < sizeof T"
    and base: "base mod alignof A = 0" and ij: "i \<noteq> j"
  shows "lines_of line (acl_address (element base A i)) (sizeof T) \<inter> lines_of line (acl_address (element base A j)) (sizeof T) = {} \<and>
    acl_value (element base A j) (acl_assign v (element base A i) m) = acl_value (element base A j) m \<and>
    acl_value (element base A i) (acl_assign v (element base A i) m) = Some v \<and>
    sizeof T \<le> sizeof A \<and> sizeof A < sizeof T + line \<and> (line dvd sizeof T \<longrightarrow> sizeof A = sizeof T)"
proof -
  define q where "q = (sizeof T + (line - 1)) div line"
  have al: "alignof A = line" and sz: "sizeof A = q * line" using A by (auto simp: aligned_cache_line_def q_def split: if_splits)
  note r = round_up [OF line T, folded q_def]
  obtain b where b: "base = b * line" using base al by (metis mod_0_imp_dvd dvd_div_mult_self)
  have at: "element base A n = (b + n * q) * line" for n by (simp add: element_def b sz algebra_simps)
  have lines: "lines_of line (element base A n) (sizeof T) \<subseteq> {b + n * q ..< b + Suc n * q}" for n
    by (rule lines_between [OF line]) (use r(1) in \<open>simp_all add: at algebra_simps\<close>)
  have apart: "{b + n * q ..< b + Suc n * q} \<inter> {b + k * q ..< b + Suc k * q} = {}" if "n < k" for n k
  proof -
    have "Suc n * q \<le> k * q" using that by (intro mult_le_mono1) simp
    then show ?thesis by auto
  qed
  have disjoint: "lines_of line (element base A i) (sizeof T) \<inter> lines_of line (element base A j) (sizeof T) = {}"
    using lines [of i] lines [of j] apart [of i j] apart [of j i] ij by (cases i j rule: linorder_cases) blast+
  have "element base A i \<noteq> element base A j" using ij line r(3) by (simp add: at)
  moreover have "sizeof A = sizeof T" if "line dvd sizeof T"
  proof -
    obtain c where c: "sizeof T = line * c" using \<open>line dvd sizeof T\<close> by (auto elim: dvdE)
    have "(line * c + (line - 1)) div line = c"
      by (rule div_nat_eqI) (use line in \<open>simp_all add: algebra_simps\<close>)
    then show ?thesis by (simp add: sz q_def c)
  qed
  ultimately show ?thesis using disjoint r sz by (simp add: acl_address_def acl_value_def acl_assign_def)
qed

lemma aligned_elements_share_no_line_witness:
  "lines_of 64 (acl_address (element 128 \<lparr>sizeof = 64, alignof = 64\<rparr> 0)) 4 \<inter>
     lines_of 64 (acl_address (element 128 \<lparr>sizeof = 64, alignof = 64\<rparr> 1)) 4 = {}"
proof -
  have "aligned_cache_line (kCacheLineSize None) \<lparr>sizeof = 4, alignof = 4\<rparr> = Some \<lparr>sizeof = 64, alignof = 64\<rparr>"
    by (simp add: aligned_cache_line_def kCacheLineSize_def)
  from aligned_elements_share_no_line [OF this, of 128 0 1 "7::nat" Map.empty] show ?thesis by (simp add: kCacheLineSize_def)
qed

section \<open>Thread affinity\<close>

text \<open>A \<open>cpu_set_t\<close> has 1024 bits; \<open>CPU_SET\<close> converts the number to \<open>size_t\<close> and ignores it when it is too large.\<close>

type_synonym cpu_set_t = "1024 word"

definition CPU_SET :: "32 word \<Rightarrow> cpu_set_t \<Rightarrow> cpu_set_t" where
  "CPU_SET cpu cpuset =
     (let n = unat (scast cpu :: 64 word) in if n < 1024 then cpuset OR push_bit n 1 else cpuset)"

definition cpus :: "cpu_set_t \<Rightarrow> nat set" where
  "cpus cpuset = {n. bit cpuset n}"

definition set_thread_affinity ::
  "('t \<Rightarrow> cpu_set_t \<Rightarrow> 'os \<Rightarrow> int \<times> 'os) \<Rightarrow> 't \<Rightarrow> 32 word \<Rightarrow> 'os \<Rightarrow> (int + unit) \<times> 'os" where
  "set_thread_affinity pthread_setaffinity_np t core_id os =
     (let cpuset = CPU_SET core_id 0; (rc, os') = pthread_setaffinity_np t cpuset os
      in (if rc \<noteq> 0 then Inl rc else Inr (), os'))"

datatype policy = SCHED_OTHER | SCHED_FIFO | SCHED_RR

definition set_thread_realtime_priority ::
  "('t \<Rightarrow> policy \<Rightarrow> 32 word \<Rightarrow> 'os \<Rightarrow> int \<times> 'os) \<Rightarrow> 't \<Rightarrow> 32 word \<Rightarrow> 'os \<Rightarrow> (int + unit) \<times> 'os" where
  "set_thread_realtime_priority pthread_setschedparam t priority os =
     (let (rc, os') = pthread_setschedparam t SCHED_FIFO priority os
      in (if rc \<noteq> 0 then Inl rc else Inr (), os'))"

definition EINVAL :: int where
  "EINVAL = 22"

lemma cpu_set_one: "cpus (CPU_SET cpu 0) = (if sint cpu \<in> {0 ..< 1024} then {nat (sint cpu)} else {})"
proof -
  have wide: "uint (scast cpu :: 64 word) = sint cpu mod 2 ^ 64"
  proof -
    have "uint (word_of_int k :: 64 word) = k mod 2 ^ 64" for k
      using uint_word_of_int [of k, where ?'a = 64] by simp
    then show ?thesis by (simp only: scast_eq)
  qed
  have range: "- (2 ^ 31) \<le> sint cpu" "sint cpu < 2 ^ 31" using sint_ge [of cpu] sint_lt [of cpu] by simp_all
  have big: "unat (scast cpu :: 64 word) = nat (sint cpu)" if "0 \<le> sint cpu"
    unfolding unat_eq_nat_uint wide using that range by (subst mod_pos_pos_trivial) simp_all
  have neg: "\<not> unat (scast cpu :: 64 word) < 1024" if "sint cpu < 0"
  proof -
    have "sint cpu mod 2 ^ 64 = (sint cpu + 2 ^ 64) mod 2 ^ 64" by simp
    also have "\<dots> = sint cpu + 2 ^ 64" using that range by (intro mod_pos_pos_trivial) simp_all
    finally have "uint (scast cpu :: 64 word) = sint cpu + 2 ^ 64" unfolding wide .
    then have "int (unat (scast cpu :: 64 word)) = sint cpu + 2 ^ 64" by simp
    moreover have "(2 :: int) ^ 31 + 1024 \<le> 2 ^ 64" by simp
    ultimately show ?thesis using range by linarith
  qed
  have one: "{k. bit (push_bit n 1 :: cpu_set_t) k} = {n}" if "n < 1024" for n
    using that by (auto simp: bit_simps)
  show ?thesis
  proof (cases "sint cpu < 0")
    case True
    then show ?thesis using neg by (simp add: CPU_SET_def cpus_def Let_def)
  next
    case False
    then show ?thesis using big one [of "nat (sint cpu)"] by (auto simp: CPU_SET_def cpus_def Let_def nat_less_iff)
  qed
qed

text \<open>
  \<open>set_thread_affinity\<close> succeeds only when the core is one of the first 1024 and online, and then the thread runs on this core alone; any other number, negative ones
  included, gives \<open>EINVAL\<close>; a failure leaves every thread where it was.  The hypotheses are the manual of \<open>pthread_setaffinity_np\<close>.
\<close>

theorem set_thread_affinity_pins:
  fixes call :: "'t \<Rightarrow> cpu_set_t \<Rightarrow> 'os \<Rightarrow> int \<times> 'os" and affinity :: "'os \<Rightarrow> 't \<Rightarrow> nat set" and online :: "nat set"
  assumes sets: "\<And>t c os os'. call t c os = (0, os') \<Longrightarrow> affinity os' = (affinity os)(t := cpus c \<inter> online)"
    and invalid: "\<And>t c os. cpus c \<inter> online = {} \<Longrightarrow> fst (call t c os) = EINVAL"
    and fails: "\<And>t c os rc os'. call t c os = (rc, os') \<Longrightarrow> rc \<noteq> 0 \<Longrightarrow> affinity os' = affinity os"
  shows "(case set_thread_affinity call t core_id os of
      (Inr _, os') \<Rightarrow> sint core_id \<in> {0 ..< 1024} \<and> nat (sint core_id) \<in> online \<and> affinity os' = (affinity os)(t := {nat (sint core_id)})
    | (Inl rc, os') \<Rightarrow> affinity os' = affinity os \<and> rc \<noteq> 0 \<and>
        (sint core_id \<in> {0 ..< 1024} \<and> nat (sint core_id) \<in> online \<or> rc = EINVAL))"
proof -
  obtain rc os' where c: "call t (CPU_SET core_id 0) os = (rc, os')" by (cases "call t (CPU_SET core_id 0) os")
  let ?ok = "sint core_id \<in> {0 ..< 1024} \<and> nat (sint core_id) \<in> online"
  have set: "cpus (CPU_SET core_id 0) \<inter> online = (if ?ok then {nat (sint core_id)} else {})" by (auto simp: cpu_set_one)
  have bad: "rc = EINVAL" if "\<not> ?ok" using invalid [of "CPU_SET core_id 0" t os] that set c by simp
  show ?thesis
  proof (cases "rc = 0")
    case True
    have ok: ?ok using bad True by (auto simp: EINVAL_def)
    then show ?thesis using sets [of t "CPU_SET core_id 0" os os'] c True set
      by (simp add: set_thread_affinity_def Let_def)
  next
    case False
    then show ?thesis using fails [OF c] bad c by (auto simp: set_thread_affinity_def Let_def)
  qed
qed

text \<open>An operating system with four cores.\<close>

definition four_cores :: "nat \<Rightarrow> cpu_set_t \<Rightarrow> (nat \<Rightarrow> nat set) \<Rightarrow> int \<times> (nat \<Rightarrow> nat set)" where
  "four_cores t c os = (if cpus c \<inter> {0 ..< 4} = {} then (EINVAL, os) else (0, os(t := cpus c \<inter> {0 ..< 4})))"

lemma set_thread_affinity_pins_witness:
  "fst (set_thread_affinity four_cores 0 (-1) (\<lambda>_. {0 ..< 4})) = Inl EINVAL \<and> sint (-1 :: 32 word) \<notin> {0 ..< 1024}"
proof -
  let ?r = "set_thread_affinity four_cores 0 (-1) (\<lambda>_. {0 ..< 4})"
  have "case ?r of
      (Inr _, os') \<Rightarrow> sint (-1 :: 32 word) \<in> {0 ..< 1024} \<and> nat (sint (-1 :: 32 word)) \<in> {0 ..< 4} \<and>
        os' = (\<lambda>_. {0 ..< 4})(0 := {nat (sint (-1 :: 32 word))})
    | (Inl rc, os') \<Rightarrow> os' = (\<lambda>_. {0 ..< 4}) \<and> rc \<noteq> 0 \<and>
        (sint (-1 :: 32 word) \<in> {0 ..< 1024} \<and> nat (sint (-1 :: 32 word)) \<in> {0 ..< 4} \<or> rc = EINVAL)"
    by (rule set_thread_affinity_pins [where affinity = "\<lambda>os. os"])
      (auto simp: four_cores_def EINVAL_def split: if_splits)
  then show ?thesis by (auto split: prod.splits sum.splits)
qed

end
