(* ===== verification/FairRuns.thy ===== *)
theory FairRuns
  imports Prelude
begin

text \<open>
  Progress under fair scheduling.  A round is a piece of a schedule in which every participant takes at least one step, in any
  order and number.  The locale \<open>fair_progress\<close> is the contract of a component that finishes under every fair schedule: a weight
  that no step increases, and, while the weight is positive, a participant whose own steps bring it closer to a
  step that decreases the weight, whatever the others do meanwhile.  \<open>fair_finish\<close> bounds the rounds.
\<close>

locale fair_progress =
  fixes step :: "'e \<Rightarrow> 's \<Rightarrow> 's"
    and inner :: "'e \<Rightarrow> bool"                \<comment> \<open>the steps of a round\<close>
    and alive :: "'s \<Rightarrow> bool"
    and settled :: "'s \<Rightarrow> bool"
    and weight :: "'s \<Rightarrow> nat"
    and target :: "'s \<Rightarrow> 'i \<Rightarrow> bool"
    and moves :: "'s \<Rightarrow> 'i \<Rightarrow> nat"
    and acts :: "'i \<Rightarrow> 'e \<Rightarrow> bool"           \<comment> \<open>the steps of a participant\<close>
    and fair_round :: "'s \<Rightarrow> 'e list \<Rightarrow> bool"
    and bound :: nat
  assumes alive_step: "alive s \<Longrightarrow> inner e \<Longrightarrow> alive (step e s)"
    and settled_step: "alive s \<Longrightarrow> settled s \<Longrightarrow> inner e \<Longrightarrow> settled (step e s)"
    and weight_step: "alive s \<Longrightarrow> inner e \<Longrightarrow> weight (step e s) \<le> weight s"
    and target_step: "alive s \<Longrightarrow> target s i \<Longrightarrow> inner e \<Longrightarrow>
      weight (step e s) < weight s \<or> target (step e s) i \<and> moves (step e s) i \<le> moves s i"
    and own_closer: "alive s \<Longrightarrow> target s i \<Longrightarrow> inner e \<Longrightarrow> acts i e \<Longrightarrow>
      weight (step e s) < weight s \<or> target (step e s) i \<and> moves (step e s) i < moves s i"
    and round_inner: "fair_round s r \<Longrightarrow> list_all inner r"
    and round_acts: "alive s \<Longrightarrow> target s i \<Longrightarrow> fair_round s r \<Longrightarrow> \<exists>e\<in>set r. acts i e"
    and round_later: "alive s \<Longrightarrow> inner e \<Longrightarrow> fair_round s r \<Longrightarrow> fair_round (step e s) r"
    and moves_bound: "alive s \<Longrightarrow> target s i \<Longrightarrow> moves s i < bound"
    and has_target: "alive s \<Longrightarrow> settled s \<Longrightarrow> 0 < weight s \<Longrightarrow> \<exists>i. target s i"
begin

lemma fair_run_keeps:
  assumes "alive s" and "list_all inner es"
  shows "alive (run_sched step es s) \<and> weight (run_sched step es s) \<le> weight s
    \<and> (settled s \<longrightarrow> settled (run_sched step es s)) \<and> (fair_round s r \<longrightarrow> fair_round (run_sched step es s) r)"
  using assms
proof (induction es arbitrary: s)
  case (Cons e es)
  then have e: "inner e" "list_all inner es" and a: "alive (step e s)" using alive_step by simp_all
  have "weight (step e s) \<le> weight s" using weight_step [OF Cons.prems(1) e(1)] .
  then show ?case using Cons.IH [OF a e(2)] settled_step [OF Cons.prems(1) _ e(1)] round_later [OF Cons.prems(1) e(1)] by auto
qed simp

lemma run_target:
  assumes "alive s" and "target s i" and "list_all inner es"
  shows "weight (run_sched step es s) < weight s \<or>
    target (run_sched step es s) i \<and> moves (run_sched step es s) i \<le> moves s i"
  using assms
proof (induction es arbitrary: s)
  case (Cons e es)
  let ?s = "step e s"
  have e: "inner e" "list_all inner es" using Cons.prems(3) by simp_all
  have a: "alive ?s" by (rule alive_step [OF Cons.prems(1) e(1)])
  have le: "weight (run_sched step es ?s) \<le> weight ?s" "weight ?s \<le> weight s"
    using fair_run_keeps [OF a e(2)] weight_step [OF Cons.prems(1) e(1)] by simp_all
  from target_step [OF Cons.prems(1,2) e(1)]
  consider (less) "weight ?s < weight s" | (on) "target ?s i" "moves ?s i \<le> moves s i" by blast
  then show ?case
  proof cases
    case on
    from Cons.IH [OF a on(1) e(2)] show ?thesis using on(2) le by auto
  qed (use le in simp)
qed simp

lemma round_closer:
  assumes live: "alive s" and target: "target s i" and r: "fair_round s r"
  shows "weight (run_sched step r s) < weight s \<or>
    target (run_sched step r s) i \<and> moves (run_sched step r s) i < moves s i"
proof -
  obtain e where e: "e \<in> set r" "acts i e" using round_acts [OF live target r] by blast
  then obtain us vs where split: "r = us @ e # vs" by (auto dest: split_list)
  have inner: "list_all inner us" "inner e" "list_all inner vs" using round_inner [OF r] split by simp_all
  let ?a = "run_sched step us s"
  let ?b = "step e ?a"
  have q: "run_sched step r s = run_sched step vs ?b" by (simp add: split)
  have a: "alive ?a" using fair_run_keeps [OF live inner(1)] by blast
  have b: "alive ?b" by (rule alive_step [OF a inner(2)])
  have le: "weight (run_sched step r s) \<le> weight ?b" "weight ?b \<le> weight ?a" "weight ?a \<le> weight s"
    unfolding q using fair_run_keeps [OF live inner(1)] fair_run_keeps [OF b inner(3)] weight_step [OF a inner(2)] by simp_all
  from run_target [OF live target inner(1)]
  consider (less) "weight ?a < weight s" | (on) "target ?a i" "moves ?a i \<le> moves s i" by blast
  then show ?thesis
  proof cases
    case on
    from own_closer [OF a on(1) inner(2) e(2)] run_target [OF b _ inner(3)] show ?thesis
      unfolding q [symmetric] using on le by (meson dual_order.strict_trans1 le_less_trans order.trans)
  qed (use le in simp)
qed

lemma rounds_inner: "list_all (fair_round s) rs \<Longrightarrow> list_all inner (concat rs)"
  using round_inner by (auto simp: list_all_iff)

lemma target_reached:
  assumes "alive s" and "target s i" and "list_all (fair_round s) rs" and "moves s i < length rs"
  shows "weight (run_sched step (concat rs) s) < weight s"
  using assms
proof (induction rs arbitrary: s)
  case (Cons r rs)
  let ?q = "run_sched step r s"
  have r: "fair_round s r" "list_all inner r" using Cons.prems(3) round_inner by auto
  note keep = fair_run_keeps [OF Cons.prems(1) r(2)]
  have rs: "list_all (fair_round ?q) rs" using Cons.prems(3) keep by (simp add: list_all_iff)
  have live: "alive ?q" and le: "weight ?q \<le> weight s" using keep by simp_all
  from round_closer [OF Cons.prems(1,2) r(1)]
  consider (less) "weight ?q < weight s" | (on) "target ?q i" "moves ?q i < moves s i" by blast
  then show ?case
  proof cases
    case less
    then show ?thesis using fair_run_keeps [OF live rounds_inner [OF rs]] by (auto intro: le_less_trans)
  next
    case on
    then show ?thesis using Cons.IH [OF live on(1) rs] Cons.prems(4) le by simp
  qed
qed simp

lemma fair_finish:
  assumes "alive s" and "settled s" and "list_all (fair_round s) rs" and "weight s * bound \<le> length rs"
  shows "weight (run_sched step (concat rs) s) = 0"
  using assms
proof (induction "weight s" arbitrary: s rs rule: less_induct)
  case less
  show ?case
  proof (cases "weight s = 0")
    case True
    then show ?thesis using fair_run_keeps [OF less.prems(1) rounds_inner [OF less.prems(3)]] by simp
  next
    case False
    then obtain i where i: "target s i" using has_target [OF less.prems(1,2)] by auto
    have "bound \<le> weight s * bound" using False by (cases "weight s") auto
    then have len: "bound \<le> length rs" using less.prems(4) by linarith
    let ?as = "take bound rs" and ?bs = "drop bound rs"
    let ?q = "run_sched step (concat ?as) s"
    have as: "list_all (fair_round s) ?as" and bs: "list_all (fair_round s) ?bs"
      using less.prems(3) by (auto simp: list_all_iff dest: in_set_takeD in_set_dropD)
    have inner: "list_all inner (concat ?as)" by (rule rounds_inner [OF as])
    note keep = fair_run_keeps [OF less.prems(1) inner]
    have "moves s i < length ?as" using moves_bound [OF less.prems(1) i] len by simp
    from target_reached [OF less.prems(1) i as this] have dec: "weight ?q < weight s" .
    have rest: "list_all (fair_round ?q) ?bs" using bs keep by (simp add: list_all_iff)
    have "Suc (weight ?q) * bound \<le> weight s * bound" using dec by (intro mult_right_mono) simp_all
    then have "weight ?q * bound \<le> length ?bs" using less.prems(4) by simp
    from less.hyps [OF dec _ _ rest this] keep less.prems(2) have "weight (run_sched step (concat ?bs) ?q) = 0" by blast
    moreover have "concat rs = concat ?as @ concat ?bs" by (metis append_take_drop_id concat_append)
    ultimately show ?thesis by simp
  qed
qed

end

end
