(* ===== verification/PoolLiveness.thy ===== *)
theory PoolLiveness
  imports PoolAlgorithms FairRuns
begin

text \<open>
  Progress of \<open>JThreadPool\<close> under every fair scheduler.  A round is a piece of a schedule in which every worker takes at least
  one step and every caller that is between the unlock of \<open>execute\<close> and \<open>notify_one\<close> notifies; within it steps may come in
  any order and number, spurious wake-ups included, and \<open>try_to_lock\<close> may fail as it likes.  While no task is submitted, a bounded
  number of rounds finishes all tasks the pool has accepted.

  The proof follows one worker: in every state with unfinished tasks some worker is a \<open>target\<close>, it carries a task or is awake and has
  its wait predicate true, and each of its own steps brings it closer to taking or finishing a task, unless another
  worker has taken one meanwhile.
\<close>

section \<open>Rounds\<close>

text \<open>Steps that submit nothing and do not destroy the pool.\<close>

fun inner_step :: "'a jp_event \<Rightarrow> bool" where
  "inner_step (Worker i choice) = True"
| "inner_step (CallerNotify c choice) = True"
| "inner_step (Spurious i) = True"
| "inner_step _ = False"

definition pool_round :: "'a jpool \<Rightarrow> 'a jp_event list \<Rightarrow> bool" where
  "pool_round p r \<longleftrightarrow> list_all inner_step r \<and>
     (\<forall>i<workers p. \<exists>choice. Worker i choice \<in> set r) \<and> (\<forall>c\<in>jp_pending p. \<exists>choice. CallerNotify c choice \<in> set r)"

definition alive :: "nat \<Rightarrow> 'a jpool \<Rightarrow> bool" where
  "alive m p \<longleftrightarrow> woken_inv m p \<and> calm p"

lemma alive_facts:
  assumes "alive m p"
  shows "jp_inv m p" and "workers p = m" and "calm p" and "jp_stop p = {}" and "\<And>i. \<not> leaving (jp_w p i)" and "0 < m"
  using assms by (auto simp: alive_def woken_inv_def jp_inv_def calm_def)

lemma alive_step: "alive m p \<Longrightarrow> undisturbed e \<Longrightarrow> alive m (jp_step e p)"
  by (auto simp: alive_def undisturbed_def intro: woken_step calm_step)

lemma inner_undisturbed: "inner_step e \<Longrightarrow> undisturbed e"
  by (cases e) (simp_all add: undisturbed_def)

lemma alive_run: "alive m p \<Longrightarrow> list_all undisturbed es \<Longrightarrow> alive m (run_sched jp_step es p)"
  by (induction es arbitrary: p) (simp_all add: alive_step)

lemma inner_run: "alive m p \<Longrightarrow> list_all inner_step es \<Longrightarrow> alive m (run_sched jp_step es p)"
  by (rule alive_run) (auto simp: list_all_iff inner_undisturbed)

lemma created_alive:
  assumes "jp_create os_threads thread_count = Inr p"
  obtains m where "alive m p"
proof -
  obtain m where "woken_inv m p" using create_inv [OF assms] by blast
  moreover have "calm p" using assms by (auto simp: jp_create_def jp_start_def calm_def Let_def split: if_splits)
  ultimately show thesis by (intro that) (simp add: alive_def)
qed

section \<open>The work that is left\<close>

definition work_left :: "'a jpool \<Rightarrow> nat" where
  "work_left p = 2 * size (queued p) + size (in_flight p)"

lemma work_left_bound: "work_left p \<le> 2 * tasks_left p"
  by (simp add: work_left_def tasks_left_def)

text \<open>A step that takes or finishes no task.\<close>

definition same_work :: "'a jpool \<Rightarrow> 'a jpool \<Rightarrow> bool" where
  "same_work p q \<longleftrightarrow> jp_locals q = jp_locals p \<and> jp_global q = jp_global p \<and> (\<forall>i. carried (jp_w q i) = carried (jp_w p i))"

lemma same_work_left: "same_work p q \<Longrightarrow> work_left q = work_left p"
  by (simp add: same_work_def work_left_def queued_def in_flight_def)

lemma queued_same: "jp_locals q = jp_locals p \<Longrightarrow> jp_global q = jp_global p \<Longrightarrow> queued q = queued p"
  by (simp add: queued_def)

lemma in_flight_upd:
  assumes "i < workers p" and "jp_w q = (jp_w p)(i := pc)" and "workers q = workers p"
  shows "size (in_flight q) + size (carried (jp_w p i)) = size (in_flight p) + size (carried pc)"
proof -
  have "in_flight q + carried (jp_w p i) = in_flight p + carried pc"
    using sum_threads_upd [OF assms(1), of carried "jp_w p" pc] assms(2,3) by (simp add: in_flight_def)
  from arg_cong [OF this, of size] show ?thesis by simp
qed

lemma worker_work:
  assumes "i < workers p"
  shows "same_work p (worker_loop i choice p) \<or> work_left (worker_loop i choice p) < work_left p"
proof -
  have took: "work_left q < work_left p"
    if "jp_w q = (jp_w p)(i := WRun f)" "workers q = workers p" "carried (jp_w p i) = {#}"
      "size (queued p) = Suc (size (queued q))" for q f
    using in_flight_upd [OF assms that(1,2)] that(3,4) by (simp add: work_left_def)
  show ?thesis
  proof (cases "jp_w p i")
    case WLocal
    show ?thesis
    proof (cases "jp_locals p ! i")
      case (Cons f fs)
      then have "mset (concat (jp_locals p)) = add_mset f (mset (concat ((jp_locals p)[i := fs])))"
        using queued_take [OF assms, of f fs] by simp
      then show ?thesis using WLocal Cons by (intro disjI2 took [where f = f]) (simp_all add: worker_loop.simps queued_def)
    qed (use WLocal in \<open>simp add: worker_loop.simps same_work_def\<close>)
  next
    case WGlobal
    then show ?thesis
      by (cases "jp_held p"; cases "jp_global p")
        (auto simp: worker_loop.simps same_work_def queued_def intro!: took [where f = "hd (jp_global p)"])
  next
    case (WSteal k)
    define j where "j = (i + k + 1) mod workers p"
    have j: "j < workers p" unfolding j_def by (rule mod_less_divisor) (use assms in linarith)
    show ?thesis
    proof (cases "k < workers p \<and> choice = 0 \<and> jp_locals p ! j \<noteq> []")
      case True
      let ?q = "jp_locals p ! j"
      have "mset ?q = add_mset (last ?q) (mset (butlast ?q))"
        using True by (metis append_butlast_last_id mset_append mset.simps add_mset_add_single)
      note taken = queued_take [OF j this]
      have "worker_loop i choice p = wgo i (WRun (last ?q)) (p\<lparr>jp_locals := (jp_locals p)[j := butlast ?q]\<rparr>)"
        using WSteal True unfolding worker_loop.simps j_def by (simp add: Let_def)
      then show ?thesis using taken WSteal by (intro disjI2 took [where f = "last ?q"]) (simp_all add: queued_def)
    next
      case False
      then show ?thesis using WSteal by (auto simp: worker_loop.simps same_work_def Let_def j_def)
    qed
  next
    case (WRun f)
    let ?q = "worker_loop i choice p"
    have w: "jp_w ?q = (jp_w p)(i := WLoop)" "workers ?q = workers p" and "queued ?q = queued p"
      using WRun by (simp_all add: worker_loop.simps queued_def)
    then have "work_left ?q < work_left p" using in_flight_upd [OF assms w] WRun by (simp add: work_left_def)
    then show ?thesis ..
  qed (auto simp: worker_loop.simps same_work_def)
qed

lemma inner_work:
  assumes "inner_step e"
  shows "same_work p (jp_step e p) \<or> work_left (jp_step e p) < work_left p"
proof (cases e)
  case (Worker i choice)
  then show ?thesis using worker_work [of i p choice] by (cases "i < workers p") (simp_all add: same_work_def)
qed (use assms in \<open>auto simp: same_work_def\<close>)

lemma inner_run_work:
  assumes "list_all inner_step es"
  shows "work_left (run_sched jp_step es p) \<le> work_left p"
  using assms
proof (induction es arbitrary: p)
  case (Cons e es)
  then have "work_left (jp_step e p) \<le> work_left p"
    using inner_work [of e p] same_work_left [of p "jp_step e p"] by auto
  moreover have "work_left (run_sched jp_step es (jp_step e p)) \<le> work_left (jp_step e p)" using Cons by simp
  ultimately show ?case by simp
qed simp

section \<open>A worker that comes closer\<close>

definition target :: "'a jpool \<Rightarrow> nat \<Rightarrow> bool" where
  "target p i \<longleftrightarrow> i < workers p \<and> (carried (jp_w p i) \<noteq> {#} \<or> wait_pred i p \<and> jp_w p i \<noteq> WSleep)"

definition moves_left :: "'a jpool \<Rightarrow> nat \<Rightarrow> nat" where
  "moves_left p i = (case jp_w p i of WNotify f \<Rightarrow> 1 | _ \<Rightarrow> rank p i)"

lemma moves_left_bound: "moves_left p i \<le> workers p + 10"
  by (auto simp: moves_left_def rank_def split: worker_pc.splits)

text \<open>Outside the search through the other queues a worker that is looking for a task does not use its choice.\<close>

lemma search_any_choice:
  assumes "searching p i"
  shows "carried (jp_w (jp_step (Worker i choice) p) i) \<noteq> {#} \<or>
    searching (jp_step (Worker i choice) p) i \<and> rank (jp_step (Worker i choice) p) i < rank p i"
proof (cases "\<exists>k. jp_w p i = WSteal k \<and> choice \<noteq> 0")
  case True
  then obtain k where k: "jp_w p i = WSteal k" "choice \<noteq> 0" by blast
  then have "jp_step (Worker i choice) p = wgo i (if k < workers p then WSteal (Suc k) else WPred) p"
    using assms by (simp add: searching_def worker_loop.simps Let_def)
  then show ?thesis using k assms by (auto simp: searching_def rank_def calm_def wait_pred_def)
next
  case False
  then have "jp_step (Worker i choice) p = jp_step (Worker i 0) p"
    using assms by (cases "jp_w p i") (auto simp: searching_def worker_loop.simps)
  then show ?thesis using searching_step(1) [OF assms] by simp
qed

lemma searching_target: "searching p i \<Longrightarrow> target p i" "searching p i \<Longrightarrow> moves_left p i = rank p i"
  by (auto simp: searching_def target_def moves_left_def split: worker_pc.splits)

lemma idle_target_searches:
  assumes "alive m p" and "target p i" and "carried (jp_w p i) = {#}"
  shows "searching p i"
  using assms alive_facts(3,4) [OF assms(1)] alive_facts(5) [OF assms(1), of i]
  by (auto simp: target_def searching_def split: worker_pc.splits)

lemma own_step_closer:
  fixes choice :: nat
  assumes live: "alive m p" and target: "target p i"
  defines "q \<equiv> jp_step (Worker i choice) p"
  shows "work_left q < work_left p \<or> target q i \<and> moves_left q i < moves_left p i"
proof -
  have i: "i < workers p" using target by (simp add: target_def)
  have same: "work_left q < work_left p" if "carried (jp_w q i) \<noteq> carried (jp_w p i)"
    using inner_work [of "Worker i choice" p] that unfolding q_def same_work_def by (auto simp del: jp_step.simps)
  show ?thesis
  proof (cases "jp_w p i")
    case (WRun f)
    then have "jp_w q i = WLoop" using i by (simp add: q_def worker_loop.simps)
    then show ?thesis using same WRun by simp
  next
    case (WNotify f)
    then have "jp_w q i = WRun f"
      using i wake_one_pcs [of choice "wgo i (WRun f) p" i] by (auto simp: q_def worker_loop.simps)
    then show ?thesis using i WNotify unfolding q_def by (simp add: target_def moves_left_def rank_def step_workers del: jp_step.simps)
  qed (use search_any_choice [OF idle_target_searches [OF live target], of choice, folded q_def] same i
      searching_target [OF idle_target_searches [OF live target]] searching_target [of q i] in \<open>auto simp del: jp_step.simps\<close>)
qed

lemma others_leave_awake:
  assumes "inner_step e" and "\<And>choice. e \<noteq> Worker i choice" and "jp_w p i \<noteq> WSleep"
  shows "jp_w (jp_step e p) i = jp_w p i"
proof (cases e)
  case (Worker j choice)
  then have "j \<noteq> i" using assms(2) by blast
  then show ?thesis using assms(3) wake_one_pcs [of choice "wgo j x p" i for x] unfolding Worker
    by (auto simp: worker_loop.simps Let_def split: worker_pc.splits list.splits)
next
  case (CallerNotify c choice)
  then show ?thesis using assms(3) wake_one_pcs [of choice "p\<lparr>jp_pending := jp_pending p - {c}\<rparr>" i] by auto
qed (use assms in auto)

lemma inner_fields:
  assumes "inner_step e"
  shows "jp_shutdown (jp_step e p) = jp_shutdown p" and "jp_pending (jp_step e p) \<subseteq> jp_pending p"
proof -
  have "jp_shutdown (jp_step e p) = jp_shutdown p \<and> jp_pending (jp_step e p) \<subseteq> jp_pending p"
  proof (cases e)
    case (Worker j choice)
    then show ?thesis by (auto simp: worker_loop.simps Let_def split: worker_pc.splits list.splits)
  qed (use assms in auto)
  then show "jp_shutdown (jp_step e p) = jp_shutdown p" and "jp_pending (jp_step e p) \<subseteq> jp_pending p" by auto
qed

lemma other_step_keeps:
  assumes target: "target p i" and e: "inner_step e" "\<And>choice. e \<noteq> Worker i choice"
  defines "q \<equiv> jp_step e p"
  shows "work_left q < work_left p \<or> target q i \<and> moves_left q i = moves_left p i"
proof (cases "same_work p q")
  case True
  have awake: "jp_w p i \<noteq> WSleep" using target by (auto simp: target_def)
  have "jp_w q i = jp_w p i" unfolding q_def by (rule others_leave_awake [OF e awake])
  moreover have "jp_shutdown q = jp_shutdown p" unfolding q_def by (rule inner_fields(1) [OF e(1)])
  moreover have "workers q = workers p" unfolding q_def by (rule step_workers)
  ultimately show ?thesis using True target
    by (auto simp: target_def moves_left_def rank_def same_work_def wait_pred_def split: worker_pc.splits)
next
  case False
  then show ?thesis using inner_work [OF e(1), of p] by (simp add: q_def)
qed

lemma inner_target:
  assumes "alive m p" and "target p i" and "inner_step e"
  shows "work_left (jp_step e p) < work_left p \<or> target (jp_step e p) i \<and> moves_left (jp_step e p) i \<le> moves_left p i"
proof (cases "\<exists>choice. e = Worker i choice")
  case True
  then show ?thesis using own_step_closer [OF assms(1,2)] less_imp_le by (metis (no_types))
next
  case False
  then show ?thesis using other_step_keeps [OF assms(2,3)] by auto
qed

section \<open>Every fair run finishes\<close>

lemma inner_run_fields:
  assumes "list_all inner_step es"
  shows "jp_accepted (run_sched jp_step es p) = jp_accepted p \<and> workers (run_sched jp_step es p) = workers p
    \<and> jp_pending (run_sched jp_step es p) \<subseteq> jp_pending p"
  using assms
proof (induction es arbitrary: p)
  case (Cons e es)
  have "jp_accepted (jp_step e p) = jp_accepted p" using Cons.prems by (cases e) (simp_all add: worker_tasks)
  moreover have "inner_step e" using Cons.prems by simp
  ultimately show ?case using Cons.IH [of "jp_step e p"] Cons.prems step_workers [of e p] inner_fields(2) [of e p] by auto
qed simp

lemma round_for_later:
  assumes "pool_round p r" and "list_all inner_step es"
  shows "pool_round (run_sched jp_step es p) r"
  using assms(1) inner_run_fields [OF assms(2), of p] by (auto simp: pool_round_def)

lemma round_notifies:
  assumes "pool_round p r"
  shows "jp_pending (run_sched jp_step r p) = {}"
proof (rule ccontr)
  assume "jp_pending (run_sched jp_step r p) \<noteq> {}"
  then obtain c where c: "c \<in> jp_pending (run_sched jp_step r p)" by blast
  have r: "list_all inner_step r" using assms by (simp add: pool_round_def)
  then have "c \<in> jp_pending p" using c inner_run_fields [OF r, of p] by blast
  then obtain choice where "CallerNotify c choice \<in> set r" using assms by (auto simp: pool_round_def)
  then obtain us vs where split: "r = us @ CallerNotify c choice # vs" by (auto dest: split_list)
  let ?q = "jp_step (CallerNotify c choice) (run_sched jp_step us p)"
  have "list_all inner_step vs" using r split by simp
  then have "jp_pending (run_sched jp_step r p) \<subseteq> jp_pending ?q"
    unfolding split run_sched_append run_sched.simps using inner_run_fields by blast
  moreover have "c \<notin> jp_pending ?q" by simp
  ultimately show False using c by blast
qed

lemma some_target:
  assumes live: "alive m p" and pending: "jp_pending p = {}" and left: "0 < work_left p"
  shows "\<exists>i. target p i"
proof (rule ccontr)
  assume no: "\<not> ?thesis"
  note facts = alive_facts [OF live]
  have woken: "woken_inv m p" using live by (simp add: alive_def)
  have idle: "\<And>i. i < m \<Longrightarrow> carried (jp_w p i) = {#}" using no facts(2) by (auto simp: target_def)
  then have "in_flight p = {#}" unfolding in_flight_def facts(2) by (intro sum.neutral) simp
  then have queued: "queued p \<noteq> {#}" using left by (auto simp: work_left_def)
  have asleep: "jp_w p i = WSleep" if "i < m" "wait_pred i p" for i using no facts(2) that by (auto simp: target_def)
  have local: "jp_locals p ! i = []" if "i < m" for i
  proof (rule ccontr)
    assume "jp_locals p ! i \<noteq> []"
    then show False using asleep [OF that] woken that by (auto simp: wait_pred_def woken_inv_def)
  qed
  then have global: "jp_global p \<noteq> []"
    using queued facts(2) by (auto simp: queued_def concat_eq_Nil_conv in_set_conv_nth)
  then have "all_asleep p" using asleep facts(2) by (auto simp: all_asleep_def list_all_iff wait_pred_def)
  then show False using woken global pending by (simp add: woken_inv_def)
qed

fun moves_worker :: "nat \<Rightarrow> 'a jp_event \<Rightarrow> bool" where
  "moves_worker i (Worker j choice) \<longleftrightarrow> i = j"
| "moves_worker i _ \<longleftrightarrow> False"

interpretation pool_fair: fair_progress "jp_step :: 'a jp_event \<Rightarrow> 'a jpool \<Rightarrow> 'a jpool" inner_step "alive m" "\<lambda>p. jp_pending p = {}" work_left target moves_left
    moves_worker pool_round "m + 11"
  for m
proof
  fix p :: "'a jpool" and e :: "'a jp_event" and i r
  assume live: "alive m p"
  show "moves_left p i < m + 11" using moves_left_bound [of p i] alive_facts(2) [OF live] by simp
  assume e: "inner_step e"
  show "alive m (jp_step e p)" by (rule alive_step [OF live inner_undisturbed [OF e]])
  show "jp_pending (jp_step e p) = {}" if "jp_pending p = {}" using inner_fields(2) [OF e, of p] that by simp
  show "work_left (jp_step e p) \<le> work_left p" using inner_run_work [of "[e]" p] e by simp
  show "work_left (jp_step e p) < work_left p \<or> target (jp_step e p) i \<and> moves_left (jp_step e p) i \<le> moves_left p i" if "target p i"
    by (rule inner_target [OF live that e])
  show "work_left (jp_step e p) < work_left p \<or> target (jp_step e p) i \<and> moves_left (jp_step e p) i < moves_left p i"
    if "target p i" and "moves_worker i e" using own_step_closer [OF live that(1)] that(2) by (cases e) (metis moves_worker.simps)+
  show "pool_round (jp_step e p) r" if "pool_round p r" using round_for_later [OF that, of "[e]"] e by simp
next
  fix p :: "'a jpool" and r :: "'a jp_event list" and i
  assume "target p i" and "pool_round p r"
  then have "i < workers p" and "\<forall>i<workers p. \<exists>choice. Worker i choice \<in> set r" by (simp_all add: target_def pool_round_def)
  then obtain choice where "Worker i choice \<in> set r" by blast
  then show "\<exists>e\<in>set r. moves_worker i e" by (intro bexI [of _ "Worker i choice"]) simp_all
qed (use some_target in \<open>auto simp: pool_round_def\<close>)

lemma all_done:
  assumes "jp_inv m p" and "work_left p = 0"
  shows "mset (jp_accepted p) = mset (jp_done p)"
  using assms by (simp add: work_left_def jp_inv_def)

text \<open>
  (C6) Under every fair scheduler the pool runs all it has accepted: from any state it reaches in steps that do not destroy it and in which no
  caller has the index of a worker of another pool (\<open>undisturbed\<close>), however callers, tasks, workers, wake-ups and failing \<open>try_lock\<close>s have
  interleaved, once neither threads nor tasks submit any more (\<open>pool_round\<close>),
  every run of \<open>1 + 2 k (n + 11)\<close> rounds, with \<open>k\<close> tasks unfinished and \<open>n\<close> workers, finishes every
  task.  The two conditions are needed: \<open>jthread_pool_foreign_task_stranded\<close>, \<open>self_submitting_task_starves_others\<close>.
\<close>

theorem jthread_pool_fair_runs_finish:
  fixes es :: "'a jp_event list" and rs :: "'a jp_event list list"
  assumes "jp_create os_threads thread_count = Inr p0" and "list_all undisturbed es"
  defines "p \<equiv> run_sched jp_step es p0"
  assumes "list_all (pool_round p) rs" and "2 * tasks_left p * (workers p + 11) < length rs"
  defines "s \<equiv> run_sched jp_step (concat rs) p"
  shows "jp_accepted s = jp_accepted p \<and> mset (jp_done s) = mset (jp_accepted p)"
proof -
  obtain m where "alive m p0" using created_alive [OF assms(1)] .
  then have live: "alive m p" unfolding p_def using assms(2) by (rule alive_run)
  obtain r rs' where rs: "rs = r # rs'" using assms(5) by (cases rs) simp_all
  let ?q = "run_sched jp_step r p"
  have r: "pool_round p r" "list_all inner_step r" using assms(4) rs by (simp_all add: pool_round_def)
  have q: "alive m ?q" by (rule inner_run [OF live r(2)])
  have rest: "list_all (pool_round ?q) rs'" using assms(4) round_for_later [OF _ r(2)] rs by (simp add: list_all_iff)
  have "work_left ?q \<le> 2 * tasks_left p" using inner_run_work [OF r(2), of p] work_left_bound [of p] by simp
  then have "work_left ?q * (m + 11) \<le> 2 * tasks_left p * (m + 11)" by (rule mult_right_mono) simp
  moreover have "2 * tasks_left p * (m + 11) < Suc (length rs')" using assms(5) alive_facts(2) [OF live] unfolding rs by simp
  ultimately have "work_left ?q * (m + 11) \<le> length rs'" by linarith
  from pool_fair.fair_finish [OF q round_notifies [OF r(1)] rest this] have none: "work_left s = 0" by (simp add: s_def rs)
  have inner: "list_all inner_step (concat rs)" by (rule pool_fair.rounds_inner [OF assms(4)])
  have "jp_inv m s" unfolding s_def by (rule alive_facts(1) [OF inner_run [OF live inner]])
  from all_done [OF this none] inner_run_fields [OF inner, of p] show ?thesis by (simp add: s_def)
qed

lemma jthread_pool_fair_runs_finish_witness:
  "mset (jp_done (run_sched jp_step (concat (replicate 25 [CallerNotify 0 0, Worker 0 (1 :: nat)]))
     (run_sched jp_step [Caller 0 None ''a''] (jp_start 1)))) = {#''a''#}"
proof -
  let ?p = "run_sched jp_step [Caller 0 None ''a''] (jp_start 1)"
  have p: "?p = (jp_start 1)\<lparr>jp_global := [''a''], jp_accepted := [''a''], jp_pending := {0}\<rparr>"
    by (simp add: jp_start_def jp_enqueue_def)
  have left: "tasks_left ?p = 1" unfolding p by (simp add: tasks_left_def queued_def in_flight_def jp_start_def)
  have "jp_create 1 1 = Inr (jp_start 1 :: string jpool)" by (simp add: jp_create_def)
  moreover have "list_all undisturbed [Caller 0 None ''a'']" by (simp add: undisturbed_def)
  moreover have "list_all (pool_round ?p) (replicate 25 [CallerNotify 0 0, Worker 0 1])"
    unfolding p by (simp add: list_all_iff pool_round_def jp_start_def)
  moreover have "2 * tasks_left ?p * (workers ?p + 11) < length (replicate 25 [CallerNotify 0 0 :: string jp_event, Worker 0 1])"
    unfolding left unfolding p by (simp add: jp_start_def)
  ultimately have "mset (jp_done (run_sched jp_step (concat (replicate 25 [CallerNotify 0 0, Worker 0 1])) ?p)) = mset (jp_accepted ?p)"
    using jthread_pool_fair_runs_finish by blast
  then show ?thesis unfolding p by simp
qed

section \<open>Starvation\<close>

text \<open>A worker takes from its own queue first, and \<open>execute\<close> puts the tasks of a task there: a task that always submits another one keeps a task in
  the shared queue waiting for as long as it does so, in a pool of one worker, and in a fair schedule.\<close>

definition resubmit :: "'a \<Rightarrow> 'a jp_event list" where
  "resubmit f = [Nested 0 f, Worker 0 0, Worker 0 0, Worker 0 0, Worker 0 0]"

lemma wake_one_running: "workers p = 1 \<Longrightarrow> jp_w p 0 = WRun f \<Longrightarrow> wake_one 0 p = p"
  by (simp add: wake_one_def)

lemma resubmit_round:
  assumes "jp_w p 0 = WRun f" and "jp_locals p = [[]]" and "\<not> jp_shutdown p" and "jp_stop p = {}"
  shows "run_sched jp_step (resubmit f) p =
    p\<lparr>jp_accepted := jp_accepted p @ [f], jp_done := jp_done p @ [f]\<rparr>"
proof -
  let ?q = "p\<lparr>jp_locals := [[f]], jp_accepted := jp_accepted p @ [f]\<rparr>"
  have "jp_step (Nested 0 f) p = wgo 0 (WNotify f) ?q" using assms by (simp add: jp_enqueue_def)
  moreover have "jp_step (Worker 0 0) (wgo 0 (WNotify f) ?q) = wgo 0 (WRun f) ?q"
    using wake_one_running [of "wgo 0 (WRun f) ?q" f] by (simp add: worker_loop.simps)
  moreover have "jp_step (Worker 0 0) (wgo 0 (WRun f) ?q) = wgo 0 WLoop (?q\<lparr>jp_done := jp_done p @ [f]\<rparr>)"
    by (simp add: worker_loop.simps)
  moreover have "jp_step (Worker 0 0) (wgo 0 WLoop (?q\<lparr>jp_done := jp_done p @ [f]\<rparr>)) = wgo 0 WLocal (?q\<lparr>jp_done := jp_done p @ [f]\<rparr>)"
    using assms by (simp add: worker_loop.simps)
  moreover have "jp_step (Worker 0 0) (wgo 0 WLocal (?q\<lparr>jp_done := jp_done p @ [f]\<rparr>)) =
      wgo 0 (WRun f) (p\<lparr>jp_accepted := jp_accepted p @ [f], jp_done := jp_done p @ [f]\<rparr>)"
    using assms by (simp add: worker_loop.simps)
  moreover have "(jp_w p)(0 := WRun f) = jp_w p" using assms(1) by (rule fun_upd_idem)
  ultimately show ?thesis by (simp add: resubmit_def del: jp_step.simps)
qed

theorem self_submitting_task_starves_others:
  "let p = run_sched jp_step [Caller 0 None f, CallerNotify 0 0, Worker 0 0, Worker 0 0, Worker 0 0, Caller 1 None x, CallerNotify 1 0] (jp_start 1);
       s = run_sched jp_step (concat (replicate n (resubmit f))) p
   in jp_global s = [x] \<and> jp_done s = replicate n f \<and> jp_w s 0 = WRun f"
proof -
  define p where "p = run_sched jp_step [Caller 0 None f, CallerNotify 0 0, Worker 0 0, Worker 0 0, Worker 0 0, Caller 1 None x, CallerNotify 1 0] (jp_start 1)"
  have p: "p = (jp_start 1)\<lparr>jp_w := (\<lambda>_. WLoop)(0 := WRun f), jp_global := [x], jp_accepted := [f, x]\<rparr>"
    by (simp add: p_def pool_eval)
  have "run_sched jp_step (concat (replicate n (resubmit f))) p =
      p\<lparr>jp_accepted := [f, x] @ replicate n f, jp_done := replicate n f\<rparr>"
  proof (induction n)
    case (Suc n)
    have "replicate (Suc n) (resubmit f) = replicate n (resubmit f) @ [resubmit f]" by (simp add: replicate_append_same)
    then have "run_sched jp_step (concat (replicate (Suc n) (resubmit f))) p =
        run_sched jp_step (resubmit f) (p\<lparr>jp_accepted := [f, x] @ replicate n f, jp_done := replicate n f\<rparr>)"
      by (simp only: concat_append run_sched_append Suc.IH) simp
    also have "\<dots> = p\<lparr>jp_accepted := [f, x] @ replicate (Suc n) f, jp_done := replicate (Suc n) f\<rparr>"
      by (subst resubmit_round) (simp_all add: p jp_start_def replicate_append_same)
    finally show ?case .
  qed (simp add: p jp_start_def)
  then show ?thesis unfolding Let_def p_def [symmetric] by (simp add: p)
qed

end
