(* ===== verification/CallLiveness.thy ===== *)
theory CallLiveness
  imports PoolLiveness
begin

text \<open>
  A call of \<open>parallel_for_each\<close> from a thread outside the pool returns under every fair scheduler, the pool's other tasks and
  callers included: the calling thread itself is one of the participants of a round.
\<close>

section \<open>Rounds of a call\<close>









section \<open>Each step\<close>














section \<open>The call returns\<close>






end
