(* ===== verification/WorkStealingLiveness.thy ===== *)
theory WorkStealingLiveness
  imports WorkStealing FairRuns
begin

text \<open>
  Progress of the work-stealing pool (advancedThreadsManagement/workStealingPool.hpp) under every fair scheduler: a round is a piece of a
  schedule in which every worker takes at least one step.  The workers never sleep, so a worker follows one of three goals: to come back to a task that it has
  begun, to reach the pool's queue, or to reach a certain worker's queue, for which it may have to go round its loop once more.  The tasks may call \<open>run_pending_task\<close> and \<open>submit\<close> a bounded number of times.
\<close>

section \<open>The pool at work\<close>

text \<open>The workers that have been started, each with its queue; only \<open>done\<close> ends their loops.\<close>

definition ws_full :: "nat \<Rightarrow> ('a, 'g) ws_pool \<Rightarrow> bool" where
  "ws_full n s \<longleftrightarrow>
     (case ws_ctor s of
        CQueue i \<Rightarrow> i \<le> n \<and> length (ws_queues s) = i \<and> (\<forall>j<i. ws_phase s j \<noteq> PNotStarted)
      | CPushing i \<Rightarrow> i < n \<and> length (ws_queues s) = i \<and> (\<forall>j<i. ws_phase s j \<noteq> PNotStarted)
      | CThread i \<Rightarrow> i < n \<and> length (ws_queues s) = Suc i \<and> (\<forall>j<i. ws_phase s j \<noteq> PNotStarted)
      | CDone \<Rightarrow> length (ws_queues s) = n \<and> (\<forall>j<n. ws_phase s j \<noteq> PNotStarted)
      | CFailed \<Rightarrow> True) \<and>
     (\<forall>i. ws_phase s i = PExit \<longrightarrow> ws_done s)"

lemma ws_worker_shape:
  "ws_ctor (ws_worker gq i s) = ws_ctor s" "length (ws_queues (ws_worker gq i s)) = length (ws_queues s)" "ws_done (ws_worker gq i s) = ws_done s"
  "ws_submitted (ws_worker gq i s) = ws_submitted s"
  "ws_phase (ws_worker gq i s) j = PNotStarted \<longleftrightarrow> ws_phase s j = PNotStarted"
  "ws_phase (ws_worker gq i s) j = PExit \<Longrightarrow> ws_phase s j = PExit \<or> ws_done s"
  "ws_ctor s = CDone \<Longrightarrow> ws_race (ws_worker gq i s) = ws_race s"
  by (auto simp: ws_worker_def begin_task_def back_phase_def reads_queues_def Let_def
      split: phase.splits option.splits list.splits if_splits prod.splits)

lemma ws_full_step: "ws_full n s \<Longrightarrow> ws_full n (ws_step gq n e s)"
proof (cases "ws_race s")
  case False
  assume full: "ws_full n s"
  show ?thesis
  proof (cases e)
    case (Worker i)
    then have "ws_step gq n e s = ws_worker gq i s" using False by (simp add: ws_step_def)
    then show ?thesis using full ws_worker_shape(1-6) [of gq i s] unfolding ws_full_def by (auto split: ctor_pc.splits)
  next
    case (Construct ok)
    then have "ws_step gq n e s = ws_construct n ok s" using False by (simp add: ws_step_def)
    then show ?thesis using full by (auto simp: ws_construct_def ws_full_def less_Suc_eq split: ctor_pc.splits)
  qed (use False full in \<open>auto simp: ws_step_def ws_full_def ws_destroy_def submit_local_def submit_global_def split: ctor_pc.splits\<close>)
qed (simp add: ws_step_def)

interpretation ws_full: interleaving "ws_step gq n" "ws_full n"
  for gq n
  by unfold_locales (rule ws_full_step)

definition ws_alive :: "('a, 'g) shared_queue \<Rightarrow> nat \<Rightarrow> ('a, 'g) ws_pool \<Rightarrow> bool" where
  "ws_alive gq n s \<longleftrightarrow> 0 < n \<and> ws_inv gq n s \<and> ws_full n s \<and> ws_ctor s = CDone \<and> \<not> ws_done s \<and> \<not> ws_race s"

lemma ws_alive_facts:
  assumes "ws_alive gq n s"
  shows "0 < n" and "length (ws_queues s) = n" and "\<And>i. i < n \<Longrightarrow> ws_phase s i \<noteq> PNotStarted" and "\<And>i. ws_phase s i \<noteq> PExit"
    and "\<And>i. ws_phase s i = PLoop \<Longrightarrow> ws_stack s i = []" and "\<And>i. ws_phase s i = PTask \<Longrightarrow> ws_stack s i \<noteq> []"
    and "\<And>i. ws_phase s i \<noteq> PNotStarted \<Longrightarrow> i < n" and "\<not> ws_done s" and "\<And>i. ws_phase s i = PStart \<Longrightarrow> ws_stack s i = []"
    and "\<And>i k. ws_phase s i = PVictim k \<Longrightarrow> k < n" and "queue_laws gq"
proof -
  have inv: "ws_inv gq n s" and full: "ws_full n s" and "0 < n" "\<not> ws_done s" "ws_ctor s = CDone" using assms by (simp_all add: ws_alive_def)
  then show "0 < n" and "\<not> ws_done s" and len: "length (ws_queues s) = n" and "\<And>i. i < n \<Longrightarrow> ws_phase s i \<noteq> PNotStarted" and "\<And>i. ws_phase s i \<noteq> PExit"
    by (auto simp: ws_full_def)
  show "\<And>i. ws_phase s i = PLoop \<Longrightarrow> ws_stack s i = []" and "\<And>i. ws_phase s i = PTask \<Longrightarrow> ws_stack s i \<noteq> []"
    and "\<And>i. ws_phase s i \<noteq> PNotStarted \<Longrightarrow> i < n" and "\<And>i. ws_phase s i = PStart \<Longrightarrow> ws_stack s i = []"
    and "\<And>i k. ws_phase s i = PVictim k \<Longrightarrow> k < n" and "queue_laws gq" using inv len by (auto simp: ws_inv_def)
qed

lemma ws_alive_worker: "ws_alive gq n s \<Longrightarrow> ws_alive gq n (ws_worker gq i s)"
  using ws_full_step [of n s gq "Worker i"] by (simp add: ws_alive_def ws_step_def ws_worker_keeps ws_worker_shape)

section \<open>The work that is left\<close>

definition ws_left :: "('a, 'g) shared_queue \<Rightarrow> nat \<Rightarrow> ('a, 'g) ws_pool \<Rightarrow> nat" where
  "ws_left gq n s = 2 * (size (gq_tasks gq (ws_global s)) + length (concat (ws_queues s))) + (\<Sum>i<n. length (ws_stack s i))"

definition ws_same :: "nat \<Rightarrow> ('a, 'g) ws_pool \<Rightarrow> ('a, 'g) ws_pool \<Rightarrow> bool" where
  "ws_same i s t \<longleftrightarrow> ws_global t = ws_global s \<and> ws_queues t = ws_queues s \<and> ws_stack t = ws_stack s \<and> (\<forall>j. j \<noteq> i \<longrightarrow> ws_phase t j = ws_phase s j)"

lemma stack_sum:
  fixes f :: "nat \<Rightarrow> 'a list"
  assumes "i < n"
  shows "(\<Sum>j<n. length ((f(i := xs)) j)) + length (f i) = (\<Sum>j<n. length (f j)) + length xs"
proof -
  have rest: "(\<Sum>j\<in>{..<n} - {i}. length ((f(i := xs)) j)) = (\<Sum>j\<in>{..<n} - {i}. length (f j))" by (rule sum.cong) auto
  have "(\<Sum>j<n. length ((f(i := xs)) j)) = length xs + (\<Sum>j\<in>{..<n} - {i}. length (f j))"
    using sum.remove [of "{..<n}" i "\<lambda>j. length ((f(i := xs)) j)"] assms by (simp add: rest)
  moreover have "(\<Sum>j<n. length (f j)) = length (f i) + (\<Sum>j\<in>{..<n} - {i}. length (f j))"
    using sum.remove [of "{..<n}" i "\<lambda>j. length (f j)"] assms by simp
  ultimately show ?thesis by simp
qed

lemma queue_shrinks:
  assumes "j < length qs" and "mset (qs ! j) = add_mset f (mset q)"
  shows "length (concat qs) = Suc (length (concat (qs[j := q])))"
  using arg_cong [OF take_from_queue [OF assms], of size] by simp

lemma begin_left:
  assumes "i < n" and "size (gq_tasks gq (ws_global s)) + length (concat (ws_queues s)) = Suc (size (gq_tasks gq (ws_global t)) + length (concat (ws_queues t)))"
    and "ws_stack t = ws_stack s"
  shows "ws_left gq n (begin_task i f t) < ws_left gq n s"
  using stack_sum [OF assms(1), of "ws_stack s" "f # ws_stack s i"] assms(2,3) by (simp add: ws_left_def begin_task_def)

lemma ws_worker_work:
  assumes live: "ws_alive gq n s"
  shows "ws_left gq n (ws_worker gq i s) < ws_left gq n s \<or> ws_same i s (ws_worker gq i s)"
proof (cases "i < n")
  case False
  then have "ws_phase s i = PNotStarted" using ws_alive_facts(7) [OF live] by blast
  then show ?thesis by (simp add: ws_worker_def ws_same_def)
next
  case i: True
  note facts = ws_alive_facts [OF live]
  show ?thesis
  proof (cases "ws_phase s i")
    case PLocal
    show ?thesis
    proof (cases "wsq_try_pop (ws_queues s ! i)")
      case (Some fq)
      obtain f q where fq: "fq = (f, q)" by (cases fq)
      have "length (concat (ws_queues s)) = Suc (length (concat ((ws_queues s)[i := q])))"
        by (rule queue_shrinks [OF _ pop_front_mset]) (use Some fq i facts(2) in simp_all)
      then have "ws_left gq n (begin_task i f (s\<lparr>ws_queues := (ws_queues s)[i := q]\<rparr>)) < ws_left gq n s" by (intro begin_left i) simp_all
      then show ?thesis using PLocal Some fq by (simp add: ws_worker_def)
    qed (use PLocal in \<open>simp add: ws_worker_def ws_same_def\<close>)
  next
    case PGlobal
    show ?thesis
    proof (cases "gq_try_pop gq (ws_global s)")
      case (Some fg)
      obtain f g where fg: "fg = (f, g)" by (cases fg)
      have "gq_tasks gq (ws_global s) = add_mset f (gq_tasks gq g)" using queue_lawsD(4) [OF facts(11)] Some fg by blast
      then have "ws_left gq n (begin_task i f (s\<lparr>ws_global := g\<rparr>)) < ws_left gq n s" by (intro begin_left i) simp_all
      then show ?thesis using PGlobal Some fg by (simp add: ws_worker_def)
    qed (use PGlobal in \<open>simp add: ws_worker_def ws_same_def\<close>)
  next
    case (PVictim k)
    define j where "j = (i + k + 1) mod length (ws_queues s)"
    have j: "j < length (ws_queues s)" unfolding j_def by (rule mod_less_divisor) (use facts(1,2) in simp)
    have eq: "ws_worker gq i s = (case wsq_try_steal (ws_queues s ! j) of
        None \<Rightarrow> pgo i (PSteal (Suc k)) (reads_queues s)
      | Some (f, q) \<Rightarrow> begin_task i f ((reads_queues s)\<lparr>ws_queues := (ws_queues s)[j := q]\<rparr>))"
      by (simp only: ws_worker_def PVictim phase.case Let_def j_def)
    show ?thesis
    proof (cases "wsq_try_steal (ws_queues s ! j)")
      case (Some fq)
      obtain f q where fq: "fq = (f, q)" by (cases fq)
      have "length (concat (ws_queues s)) = Suc (length (concat ((ws_queues s)[j := q])))"
        by (rule queue_shrinks [OF j steal_back_mset]) (use Some fq in simp)
      then have "ws_left gq n (begin_task i f ((reads_queues s)\<lparr>ws_queues := (ws_queues s)[j := q]\<rparr>)) < ws_left gq n s"
        by (intro begin_left i) simp_all
      then show ?thesis using eq Some fq by simp
    qed (use eq in \<open>simp add: ws_same_def\<close>)
  next
    case PTask
    then obtain f fs where st: "ws_stack s i = f # fs" using facts(6) [of i] by (cases "ws_stack s i") auto
    then have "ws_left gq n (ws_worker gq i s) < ws_left gq n s"
      using stack_sum [OF i, of "ws_stack s" fs] PTask by (simp add: ws_worker_def ws_left_def)
    then show ?thesis ..
  qed (simp_all add: ws_worker_def ws_same_def)
qed

lemma ws_same_left: "ws_same i s t \<Longrightarrow> ws_left gq n t = ws_left gq n s"
  by (simp add: ws_same_def ws_left_def)

section \<open>Goals\<close>

datatype goal = Return nat | TakeGlobal nat | TakeFrom nat nat

fun goal_worker :: "goal \<Rightarrow> nat" where
  "goal_worker (Return i) = i"
| "goal_worker (TakeGlobal i) = i"
| "goal_worker (TakeFrom i d) = i"

fun ws_target :: "('a, 'g) shared_queue \<Rightarrow> nat \<Rightarrow> ('a, 'g) ws_pool \<Rightarrow> goal \<Rightarrow> bool" where
  "ws_target gq n s (Return i) \<longleftrightarrow> i < n \<and> ws_stack s i \<noteq> []"
| "ws_target gq n s (TakeGlobal i) \<longleftrightarrow> i < n \<and> ws_stack s i = [] \<and> gq_tasks gq (ws_global s) \<noteq> {#}"
| "ws_target gq n s (TakeFrom i d) \<longleftrightarrow> i < n \<and> d < n \<and> ws_stack s i = [] \<and> ws_queues s ! ((i + d + 1) mod n) \<noteq> []"

text \<open>How many steps of its own the worker is away from the step that takes or finishes a task.\<close>

fun ws_moves :: "nat \<Rightarrow> ('a, 'g) ws_pool \<Rightarrow> goal \<Rightarrow> nat" where
  "ws_moves n s (Return i) =
     (case ws_phase s i of PSteal k \<Rightarrow> 2 * (n - k) + 1 | PVictim k \<Rightarrow> 2 * (n - k) | PGlobal \<Rightarrow> 2 * n + 2 | PLocal \<Rightarrow> 2 * n + 3 | _ \<Rightarrow> 0)"
| "ws_moves n s (TakeGlobal i) =
     (case ws_phase s i of PLocal \<Rightarrow> 1 | PLoop \<Rightarrow> 2 | PStart \<Rightarrow> 3 | PSteal k \<Rightarrow> 2 * (n - k) + 3 | PVictim k \<Rightarrow> 2 * (n - k) + 2 | _ \<Rightarrow> 0)"
| "ws_moves n s (TakeFrom i d) =
     (case ws_phase s i of PGlobal \<Rightarrow> 2 * d + 2 | PLocal \<Rightarrow> 2 * d + 3 | PLoop \<Rightarrow> 2 * d + 4 | PStart \<Rightarrow> 2 * d + 5
      | PSteal k \<Rightarrow> (if k \<le> d then 2 * (d - k) + 1 else 2 * (n - k) + 2 * d + 5)
      | PVictim k \<Rightarrow> (if k \<le> d then 2 * (d - k) else 2 * (n - k) + 2 * d + 4) | _ \<Rightarrow> 0)"

lemma ws_moves_bound: "ws_target gq n s g \<Longrightarrow> ws_moves n s g < 2 * n + 4"
  by (cases g) (auto split: phase.splits)

lemma ws_target_kept:
  assumes "ws_same i s t" and "goal_worker g \<noteq> i" and "ws_target gq n s g"
  shows "ws_target gq n t g \<and> ws_moves n t g = ws_moves n s g"
  using assms by (cases g) (auto simp: ws_same_def)

lemma ws_own_closer:
  assumes live: "ws_alive gq n s" and target: "ws_target gq n s g" and i: "goal_worker g = i"
  shows "ws_left gq n (ws_worker gq i s) < ws_left gq n s \<or> ws_target gq n (ws_worker gq i s) g \<and> ws_moves n (ws_worker gq i s) g < ws_moves n s g"
proof -
  note facts = ws_alive_facts [OF live]
  have lt: "i < n" using target i by (cases g) auto
  have less: "ws_left gq n (ws_worker gq i s) < ws_left gq n s" if "ws_stack (ws_worker gq i s) i \<noteq> ws_stack s i"
    using ws_worker_work [OF live, of i] that by (auto simp: ws_same_def)
  show ?thesis
  proof (cases "ws_phase s i")
    case PLoop
    then have "ws_worker gq i s = pgo i PLocal s" using facts(8) by (simp add: ws_worker_def)
    then show ?thesis using PLoop target i facts(5) [OF PLoop] by (cases g) auto
  next
    case PLocal
    show ?thesis
    proof (cases "wsq_try_pop (ws_queues s ! i)")
      case None
      then have "ws_worker gq i s = pgo i PGlobal s" using PLocal by (simp add: ws_worker_def)
      then show ?thesis using PLocal target i by (cases g) auto
    next
      case (Some fq)
      then show ?thesis using PLocal by (intro disjI1 less) (simp add: ws_worker_def begin_task_def split: prod.split)
    qed
  next
    case PGlobal
    show ?thesis
    proof (cases "gq_try_pop gq (ws_global s)")
      case None
      then have "ws_worker gq i s = pgo i (PSteal 0) s" using PGlobal by (simp add: ws_worker_def)
      moreover have "gq_tasks gq (ws_global s) = {#}" by (rule queue_lawsD(3) [OF facts(11) None])
      ultimately show ?thesis using PGlobal target i by (cases g) auto
    next
      case (Some fg)
      then show ?thesis using PGlobal by (intro disjI1 less) (simp add: ws_worker_def begin_task_def split: prod.split)
    qed
  next
    case PStart
    then have "ws_worker gq i s = pgo i PLoop (reads_queues s)" by (simp add: ws_worker_def)
    then show ?thesis using PStart target i facts(9) [OF PStart] by (cases g) auto
  next
    case (PSteal k)
    then have "ws_worker gq i s = pgo i (if k < n then PVictim k else back_phase (ws_stack s i)) (reads_queues s)"
      using facts(2) by (simp add: ws_worker_def)
    then show ?thesis using PSteal target i by (cases g) (auto simp: back_phase_def)
  next
    case (PVictim k)
    have k: "k < n" by (rule facts(10) [OF PVictim])
    let ?q = "ws_queues s ! ((i + k + 1) mod n)"
    show ?thesis
    proof (cases "?q = []")
      case True
      then have "ws_worker gq i s = pgo i (PSteal (Suc k)) (reads_queues s)"
        using PVictim facts(2) by (simp add: ws_worker_def Let_def wsq_try_steal_def wsq_empty_def)
      moreover have "k \<noteq> d" if "g = TakeFrom i d" for d using target True that by auto
      ultimately show ?thesis using PVictim target i k by (cases g) auto
    next
      case False
      then have "ws_stack (ws_worker gq i s) i \<noteq> ws_stack s i"
        using PVictim facts(2) by (simp add: ws_worker_def Let_def wsq_try_steal_def wsq_empty_def begin_task_def)
      then show ?thesis using less by blast
    qed
  next
    case PTask
    then obtain f fs where "ws_stack s i = f # fs" using facts(6) [of i] by (cases "ws_stack s i") auto
    then show ?thesis using PTask by (intro disjI1 less) (simp add: ws_worker_def)
  qed (use facts(3,4) lt in auto)
qed

lemma ws_has_target:
  assumes live: "ws_alive gq n s" and left: "0 < ws_left gq n s"
  shows "\<exists>g. ws_target gq n s g"
proof (cases "\<exists>i<n. ws_stack s i \<noteq> []")
  case True
  then obtain i where "i < n" "ws_stack s i \<noteq> []" by blast
  then show ?thesis by (intro exI [of _ "Return i"]) simp
next
  case False
  note facts = ws_alive_facts [OF live]
  have none: "ws_stack s i = []" if "i < n" for i using False that by blast
  then have "(\<Sum>i<n. length (ws_stack s i)) = 0" by simp
  then have "gq_tasks gq (ws_global s) \<noteq> {#} \<or> concat (ws_queues s) \<noteq> []" using left by (auto simp: ws_left_def)
  then consider (global) "gq_tasks gq (ws_global s) \<noteq> {#}" | (queue) j where "j < n" "ws_queues s ! j \<noteq> []"
    using facts(2) by (auto simp: concat_eq_Nil_conv in_set_conv_nth)
  then show ?thesis
  proof cases
    case global
    then show ?thesis using none facts(1) by (intro exI [of _ "TakeGlobal 0"]) simp
  next
    case queue
    obtain d where "d < n" "(0 + d + 1) mod n = j" using some_offset [OF facts(1) queue(1)] by blast
    then show ?thesis using none facts(1) queue(2) by (intro exI [of _ "TakeFrom 0 d"]) simp
  qed
qed

section \<open>Every fair run finishes\<close>

text \<open>The steps of a round, and those among them in which a task makes new work; a budget counts the latter.\<close>

fun makes_work :: "'a ws_event \<Rightarrow> bool" where
  "makes_work (TaskSubmits i f) = True"
| "makes_work (TaskPolls i) = True"
| "makes_work _ = False"

fun round_step :: "'a ws_event \<Rightarrow> bool" where
  "round_step (Worker i) = True"
| "round_step e = makes_work e"

definition ws_round :: "nat \<Rightarrow> 'a ws_event list \<Rightarrow> bool" where
  "ws_round n r \<longleftrightarrow> list_all round_step r \<and> (\<forall>i<n. Worker i \<in> set r)"

definition budget_step :: "('a, 'g) shared_queue \<Rightarrow> nat \<Rightarrow> 'a ws_event \<Rightarrow> nat \<times> ('a, 'g) ws_pool \<Rightarrow> nat \<times> ('a, 'g) ws_pool" where
  "budget_step gq n e ms =
     (if makes_work e then (if fst ms = 0 then ms else (fst ms - 1, ws_step gq n e (snd ms))) else (fst ms, ws_step gq n e (snd ms)))"

lemma budget_run:
  "length (filter makes_work es) \<le> m \<Longrightarrow>
    run_sched (budget_step gq n) es (m, s) = (m - length (filter makes_work es), run_sched (ws_step gq n) es s)"
proof (induction es arbitrary: m s)
  case (Cons e es)
  then show ?case by (cases "makes_work e") (auto simp: budget_step_def)
qed simp

definition ws_weight :: "('a, 'g) shared_queue \<Rightarrow> nat \<Rightarrow> nat \<times> ('a, 'g) ws_pool \<Rightarrow> nat" where
  "ws_weight gq n ms = (if ws_left gq n (snd ms) = 0 then 0 else ws_left gq n (snd ms) + 3 * fst ms)"

lemma nothing_left:
  assumes live: "ws_alive gq n s" and none: "ws_left gq n s = 0" and e: "makes_work e"
  shows "ws_step gq n e s = s"
proof -
  have "ws_phase s i \<noteq> PTask" for i
  proof
    assume task: "ws_phase s i = PTask"
    then have "i < n" "ws_stack s i \<noteq> []" using ws_alive_facts(6,7) [OF live] by simp_all
    then show False using none by (auto simp: ws_left_def)
  qed
  then show ?thesis using e by (cases e) (simp_all add: ws_step_def)
qed

lemma ws_alive_new_work:
  assumes live: "ws_alive gq n s" and e: "makes_work e"
  shows "ws_alive gq n (ws_step gq n e s) \<and> ws_left gq n (ws_step gq n e s) \<le> ws_left gq n s + 2"
proof -
  have keep: "ws_inv gq n (ws_step gq n e s)" "ws_full n (ws_step gq n e s)"
    using live ws_step_keeps [of gq n s e] ws_full_step [of n s gq e] by (simp_all add: ws_alive_def)
  then have "ws_alive gq n (ws_step gq n e s)" using live e
    by (cases e) (auto simp: ws_alive_def ws_step_def submit_local_def)
  moreover have "ws_left gq n (ws_step gq n e s) \<le> ws_left gq n s + 2"
  proof (cases e)
    case (TaskSubmits i f)
    show ?thesis
    proof (cases "ws_phase s i = PTask \<and> \<not> ws_race s")
      case True
      then have "i < length (ws_queues s)" using ws_alive_facts(2,7) [OF live] by auto
      from mset_concat_update [OF this, of "f # ws_queues s ! i"]
      have "mset (concat ((ws_queues s)[i := f # ws_queues s ! i])) = add_mset f (mset (concat (ws_queues s)))" by simp
      from arg_cong [OF this, of size] show ?thesis using True
        by (simp add: TaskSubmits ws_step_def submit_local_def wsq_push_def ws_left_def)
    qed (auto simp: TaskSubmits ws_step_def)
  qed (use e in \<open>auto simp: ws_step_def ws_left_def\<close>)
  ultimately show ?thesis ..
qed

lemma work_event: "makes_work e \<Longrightarrow> (fst (budget_step gq n e (m, s)), snd (budget_step gq n e (m, s))) = (if m = 0 then (m, s) else (m - 1, ws_step gq n e s))"
  by (simp add: budget_step_def)

lemma work_lighter:
  assumes live: "ws_alive gq n s" and e: "makes_work e"
  shows "budget_step gq n e (m, s) = (m, s) \<or> snd (budget_step gq n e (m, s)) = s \<and> ws_left gq n s = 0 \<or>
    ws_weight gq n (budget_step gq n e (m, s)) < ws_weight gq n (m, s)"
  using ws_alive_new_work [OF live e] nothing_left [OF live _ e] e by (auto simp: budget_step_def ws_weight_def)

interpretation ws_fair: fair_progress "budget_step gq n :: 'a ws_event \<Rightarrow> nat \<times> ('a, 'g) ws_pool \<Rightarrow> nat \<times> ('a, 'g) ws_pool" round_step
    "\<lambda>ms. ws_alive gq n (snd ms)" "\<lambda>_. True" "ws_weight gq n" "\<lambda>ms. ws_target gq n (snd ms)" "\<lambda>ms. ws_moves n (snd ms)"
    "\<lambda>g e. e = Worker (goal_worker g)" "\<lambda>_. ws_round n" "2 * n + 4"
  for gq :: "('a, 'g) shared_queue" and n
proof
  fix ms :: "nat \<times> ('a, 'g) ws_pool" and e :: "'a ws_event" and g
  obtain m s where ms: "ms = (m, s)" by (cases ms)
  assume "ws_alive gq n (snd ms)"
  then have live: "ws_alive gq n s" by (simp add: ms)
  assume "round_step e"
  then consider (worker) i where "e = Worker i" | (work) "makes_work e" by (cases e) auto
  note kind = this
  let ?t = "budget_step gq n e ms"
  have stepped: "?t = (m, ws_worker gq i s)" if "e = Worker i" for i
    using live that by (simp add: ms budget_step_def ws_step_def ws_alive_def)
  have lighter: "ws_weight gq n (m, s') < ws_weight gq n (m, s)" if "ws_left gq n s' < ws_left gq n s" for s'
    using that by (auto simp: ws_weight_def)
  show "ws_alive gq n (snd ?t)" using kind
  proof cases
    case (worker i)
    show ?thesis unfolding stepped [OF worker] using ws_alive_worker [OF live] by simp
  next
    case work
    then show ?thesis using ws_alive_new_work [OF live work] live by (simp add: ms budget_step_def)
  qed
  show le: "ws_weight gq n ?t \<le> ws_weight gq n ms" using kind
  proof cases
    case (worker i)
    have "ws_left gq n (ws_worker gq i s) < ws_left gq n s \<or> ws_left gq n (ws_worker gq i s) = ws_left gq n s"
      using ws_worker_work [OF live, of i] ws_same_left by blast
    then show ?thesis using lighter [of "ws_worker gq i s"] unfolding stepped [OF worker] by (auto simp: ms ws_weight_def)
  next
    case work
    have "ws_weight gq n p = 0" if "snd p = s" "ws_left gq n s = 0" for p using that by (simp add: ws_weight_def)
    then show ?thesis using work_lighter [OF live work, of m] unfolding ms by (metis le_refl less_imp_le zero_le)
  qed
  assume "ws_target gq n (snd ms) g"
  then have target: "ws_target gq n s g" by (simp add: ms)
  show "ws_weight gq n ?t < ws_weight gq n ms \<or> ws_target gq n (snd ?t) g \<and> ws_moves n (snd ?t) g < ws_moves n (snd ms) g"
    if "e = Worker (goal_worker g)" using ws_own_closer [OF live target refl] lighter unfolding stepped [OF that] by (auto simp: ms)
  show "ws_weight gq n ?t < ws_weight gq n ms \<or> ws_target gq n (snd ?t) g \<and> ws_moves n (snd ?t) g \<le> ws_moves n (snd ms) g"
    using kind
  proof cases
    case (worker i)
    show ?thesis
    proof (cases "goal_worker g = i")
      case True
      then show ?thesis using ws_own_closer [OF live target True] lighter
        unfolding stepped [OF worker] by (auto simp: ms)
    next
      case False
      then show ?thesis using ws_worker_work [OF live, of i] ws_target_kept [OF _ False target] lighter
        unfolding stepped [OF worker] by (auto simp: ms)
    qed
  next
    case work
    then show ?thesis using work_lighter [OF live work, of m] target by (auto simp: ms)
  qed
next
  fix ms :: "nat \<times> ('a, 'g) ws_pool" and r :: "'a ws_event list" and g
  assume "ws_target gq n (snd ms) g" and "ws_round n r"
  then show "\<exists>e\<in>set r. e = Worker (goal_worker g)" by (cases g) (auto simp: ws_round_def)
qed (auto simp: ws_round_def ws_has_target ws_moves_bound ws_weight_def split: if_splits)

text \<open>
  (C18) Under every fair scheduler the work-stealing pool runs all tasks it has been given: from any state it can reach once it is built, without the data race of its
  constructor, and before it is destroyed,
  however the constructor, the workers, the tasks and other threads have interleaved and whatever global queue keeps its tasks, every run of \<open>(w + 3 m) (2 n + 4)\<close> rounds without a submission by
  another thread, in which the tasks call \<open>run_pending_task\<close> and \<open>submit\<close> at most \<open>m\<close> times,
  finishes every task, the new ones too, where each queued task counts two and each begun task one in \<open>w\<close>.
\<close>

theorem work_stealing_fair_runs_finish:
  fixes gq :: "('a, 'g) shared_queue" and es :: "'a ws_event list" and rs :: "'a ws_event list list" and n m :: nat
  assumes "queue_laws gq"
  defines "s \<equiv> run_sched (ws_step gq n) es (ws_new gq)"
  assumes "0 < n" and "ws_ctor s = CDone" and "\<not> ws_done s" and "\<not> ws_race s"
    and "list_all (ws_round n) rs" and "length (filter makes_work (concat rs)) \<le> m"
    and "(ws_left gq n s + 3 * m) * (2 * n + 4) \<le> length rs"
  defines "t \<equiv> run_sched (ws_step gq n) (concat rs) s"
  shows "mset (ws_finished t) = mset (ws_submitted t) \<and> mset (ws_submitted s) \<subseteq># mset (ws_finished t)"
proof -
  have "ws_full n (ws_new gq)" by (simp add: ws_full_def ws_new_def)
  then have "ws_full n s" unfolding s_def by (rule ws_full.sched_keeps)
  moreover have "ws_inv gq n s" unfolding s_def by (rule ws.sched_keeps [OF ws_new_inv [OF assms(1)]])
  ultimately have live: "ws_alive gq n (snd (m, s))" using assms(3-6) by (simp add: ws_alive_def)
  have inner: "list_all round_step (concat rs)" by (rule ws_fair.rounds_inner [OF assms(7)])
  have sub: "mset (ws_submitted q) \<subseteq># mset (ws_submitted (run_sched (ws_step gq n) fs q))" if "list_all round_step fs" for fs q
    using that
  proof (induction fs arbitrary: q)
    case (Cons f fs)
    have "mset (ws_submitted q) \<subseteq># mset (ws_submitted (ws_step gq n f q))" using Cons.prems
      by (cases f) (auto simp: ws_step_def ws_worker_shape submit_local_def)
    also have "\<dots> \<subseteq># mset (ws_submitted (run_sched (ws_step gq n) fs (ws_step gq n f q)))" using Cons by simp
    finally show ?case by simp
  qed simp
  have "ws_weight gq n (m, s) \<le> ws_left gq n s + 3 * m" by (simp add: ws_weight_def)
  then have "ws_weight gq n (m, s) * (2 * n + 4) \<le> (ws_left gq n s + 3 * m) * (2 * n + 4)" by (rule mult_right_mono) simp
  then have len: "ws_weight gq n (m, s) * (2 * n + 4) \<le> length rs" using assms(9) by linarith
  let ?u = "run_sched (budget_step gq n) (concat rs) (m, s)"
  have t: "snd ?u = t" using budget_run [OF assms(8), of gq n s] by (simp add: t_def)
  have "ws_weight gq n ?u = 0" by (rule ws_fair.fair_finish [OF live TrueI assms(7) len])
  then have "ws_left gq n t = 0" by (simp add: ws_weight_def t split: if_splits)
  then have "ws_held gq n t = {#}" by (simp add: ws_left_def ws_held_def)
  moreover have "ws_alive gq n (snd ?u)" using ws_fair.fair_run_keeps [OF live inner] by blast
  ultimately have "mset (ws_submitted t) = mset (ws_finished t)" unfolding t by (simp add: ws_alive_def ws_inv_def)
  then show ?thesis using sub [OF inner, of s] by (simp add: t_def)
qed

text \<open>Two workers; a task submits another one and polls while it runs.\<close>

definition busy_rounds :: "string ws_event list list" where
  "busy_rounds = [[Worker 1, Worker 0], [Worker 0, Worker 1, TaskSubmits 1 ''c'', TaskPolls 1]] @ replicate 80 [Worker 1, Worker 0]"

lemma work_stealing_fair_runs_finish_witness:
  "mset (ws_finished (run_sched (ws_step fifo_queue 2) (concat busy_rounds)
     (run_sched (ws_step fifo_queue 2) (replicate 7 (Construct True) @ [Outside ''a'', Worker 1, Worker 1, Outside ''b'']) (ws_new fifo_queue)))) =
   {#''a'', ''b'', ''c''#}"
proof -
  let ?es = "replicate 7 (Construct True) @ [Outside ''a'', Worker 1, Worker 1, Outside ''b'']"
  let ?s = "run_sched (ws_step fifo_queue 2) ?es (ws_new fifo_queue) :: (string, string list) ws_pool"
  let ?t = "run_sched (ws_step fifo_queue 2) (concat busy_rounds) ?s"
  have s: "ws_ctor ?s = CDone" "\<not> ws_done ?s" "\<not> ws_race ?s" "ws_left fifo_queue 2 ?s = 4" by code_simp+
  have rs: "list_all (ws_round 2) busy_rounds" "length (filter makes_work (concat busy_rounds)) \<le> 2" "length busy_rounds = 82"
    by (simp_all add: busy_rounds_def ws_round_def less_2_cases_iff filter_concat list_all_iff)
  have "mset (ws_finished ?t) = mset (ws_submitted ?t)"
    using work_stealing_fair_runs_finish [OF fifo_queue_laws _ s(1-3) rs(1,2)] s(4) rs(3) by simp
  moreover have "ws_submitted ?t = [''a'', ''b'', ''c'']" by code_simp
  ultimately show ?thesis by simp
qed

end
