(* ===== verification/Concepts.thy ===== *)
theory Concepts
  imports Primitives
begin

text \<open>
  The concepts that the templates of modern_cpp_core ask of a type: \<open>numeric\<close>, \<open>lockable\<close> and \<open>shared_lockable\<close>
  (patterns/core_concepts.hpp), and which of the types at hand satisfy them.
\<close>

text \<open>The fundamental types, and the two standard concepts that \<open>numeric\<close> joins.\<close>

datatype cpp_type = BoolT | CharT | IntT | UnsignedT | FloatT | DoubleT | PointerT | ClassT

definition integral :: "cpp_type \<Rightarrow> bool" where
  "integral T \<longleftrightarrow> T \<in> {BoolT, CharT, IntT, UnsignedT}"

definition floating_point :: "cpp_type \<Rightarrow> bool" where
  "floating_point T \<longleftrightarrow> T \<in> {FloatT, DoubleT}"

definition numeric :: "cpp_type \<Rightarrow> bool" where
  "numeric T \<longleftrightarrow> integral T \<or> floating_point T"

text \<open>What a class declares: the result types of its member functions that take no argument.\<close>

datatype member = MLock | MTryLock | MUnlock | MLockShared | MTryLockShared | MUnlockShared

datatype result_type = RVoid | RBool | ROther

type_synonym class_members = "member \<Rightarrow> result_type option"

definition lockable :: "class_members \<Rightarrow> bool" where
  "lockable T \<longleftrightarrow> T MLock = Some RVoid \<and> T MTryLock = Some RBool \<and> T MUnlock = Some RVoid"

definition shared_lockable :: "class_members \<Rightarrow> bool" where
  "shared_lockable T \<longleftrightarrow> lockable T \<and> T MLockShared = Some RVoid \<and> T MTryLockShared = Some RBool \<and> T MUnlockShared = Some RVoid"

definition std_mutex :: class_members where
  "std_mutex = [MLock \<mapsto> RVoid, MTryLock \<mapsto> RBool, MUnlock \<mapsto> RVoid]"

definition std_shared_mutex :: class_members where
  "std_shared_mutex = std_mutex(MLockShared \<mapsto> RVoid, MTryLockShared \<mapsto> RBool, MUnlockShared \<mapsto> RVoid)"

definition spinlock_members :: class_members where
  "spinlock_members = [MLock \<mapsto> RVoid, MUnlock \<mapsto> RVoid]"

text \<open>The standard mutexes satisfy the concepts they should; \<open>Spinlock\<close>, which the comment at \<open>lockable\<close> names among its
  models, has no \<open>try_lock\<close> and satisfies neither.\<close>

theorem lockable_models:
  "lockable std_mutex \<and> \<not> shared_lockable std_mutex \<and> shared_lockable std_shared_mutex \<and> lockable std_shared_mutex \<and>
   \<not> lockable spinlock_members"
  by (simp add: lockable_def shared_lockable_def std_mutex_def std_shared_mutex_def spinlock_members_def)

lemma numeric_types: "numeric T \<longleftrightarrow> T \<noteq> PointerT \<and> T \<noteq> ClassT"
  by (cases T) (simp_all add: numeric_def integral_def floating_point_def)

end
