(* ===== verification/GeneratorMemory.thy ===== *)
theory GeneratorMemory
  imports TaskMemory
begin

text \<open>
  The frames of \<open>Generator\<close> in the \<open>CoroutinePoolAllocator\<close>: the \<open>operator new\<close> and \<open>operator delete\<close> of its promise
  (modern_cpp_core/coroutines/generator.hpp) over the pool of the theory \<open>MemoryPools\<close>, around the loop of the theory \<open>Coroutines\<close>.
  As for tasks, the handle is the offset of the block, \<open>fsize\<close> the size of the coroutine's frame and \<open>bytes\<close> what the frame leaves in its block.
\<close>

record ('st, 'v, 'e) pooled_gens =
  pg_frames :: "('st, 'v, 'e) gen_heap"
  pg_pool :: cpool

definition generator_new :: "size_t \<Rightarrow> cpool \<Rightarrow> (pool_error + nat) \<times> cpool" where
  "generator_new sz P = cp_allocate sz P"

definition generator_delete :: "nat \<Rightarrow> cpool \<Rightarrow> cpool" where
  "generator_delete c P = cp_deallocate (Some c) P"

text \<open>The call of the generator function: \<open>None\<close> is \<open>bad_alloc\<close>, thrown out of the call.\<close>

definition call_generator ::
  "size_t \<Rightarrow> (nat \<Rightarrow> nat option) \<Rightarrow> 'st \<Rightarrow> ('st, 'v, 'e) pooled_gens \<Rightarrow> nat option \<times> ('st, 'v, 'e) pooled_gens" where
  "call_generator fsize bytes st s =
     (case generator_new fsize (pg_pool s) of
        (Inl Bad_alloc, P) \<Rightarrow> (None, s\<lparr>pg_pool := P\<rparr>)
      | (Inr c, P) \<Rightarrow> (Some c, \<lparr>pg_frames = (pg_frames s)(c \<mapsto> gen_call st), pg_pool = cp_write c (bytes c) P\<rparr>))"

text \<open>The destructor of a \<open>Generator\<close> that owns \<open>c\<close>.\<close>

definition destroy_generator :: "nat \<Rightarrow> ('st, 'v, 'e) pooled_gens \<Rightarrow> ('st, 'v, 'e) pooled_gens" where
  "destroy_generator c s = \<lparr>pg_frames = (pg_frames s)(c := None), pg_pool = generator_delete c (pg_pool s)\<rparr>"

text \<open>\<open>for (auto& x : generate(...))\<close>: the generator lives as long as the loop, and is
  destroyed also when the loop ends with an exception or is left by a \<open>break\<close>, which is how the fuel ends it.\<close>

datatype ('v, 'e) loop_result = NoMemory | Looped "'v list" "'e ending"

definition pooled_for ::
  "size_t \<Rightarrow> (nat \<Rightarrow> nat option) \<Rightarrow> ('st \<Rightarrow> ('st, 'v, 'e) resumption) \<Rightarrow> nat \<Rightarrow> 'st \<Rightarrow> ('st, 'v, 'e) pooled_gens
     \<Rightarrow> ('v, 'e) loop_result \<times> ('st, 'v, 'e) pooled_gens" where
  "pooled_for fsize bytes body fuel st s =
     (case call_generator fsize bytes st s of
        (None, s1) \<Rightarrow> (NoMemory, s1)
      | (Some c, s1) \<Rightarrow>
          (let (vs, r, F) = range_for body fuel (Some c) (pg_frames s1)
           in (Looped vs r, destroy_generator c (s1\<lparr>pg_frames := F\<rparr>))))"

section \<open>The loop touches its own frame only\<close>

lemma resume_frame: "gen_resume body c F = Some F' \<Longrightarrow> d \<noteq> c \<Longrightarrow> F' d = F d"
  by (auto simp: gen_resume_def split: option.splits if_splits)

lemma next_frame: "it_next body (Some c) F = (res, F') \<Longrightarrow> d \<noteq> c \<Longrightarrow> F' d = F d"
  using resume_frame [of body c F _ d] by (auto simp: it_next_def split: option.splits)

lemma after_resume_iterator: "after_resume c F = Normal it \<Longrightarrow> it = None \<or> it = Some c"
  by (auto simp: after_resume_def split: option.splits if_splits)

lemma next_iterator: "it_next body (Some c) F = (Normal it, F') \<Longrightarrow> it = None \<or> it = Some c"
  using after_resume_iterator by (auto simp: it_next_def split: option.splits)

lemma loop_frame:
  assumes "range_loop body fuel (res, F) = (vs, r, F')" and "\<And>it. res = Normal it \<Longrightarrow> it = None \<or> it = Some c" and "d \<noteq> c"
  shows "F' d = F d"
  using assms
proof (induction fuel arbitrary: res F vs)
  case 0
  then show ?case by (cases res) (auto split: if_splits option.splits)
next
  case (Suc n)
  show ?case
  proof (cases "\<exists>it. res = Normal it \<and> it \<noteq> it_end \<and> it_deref it F \<noteq> None")
    case True
    then obtain it where it: "res = Normal it" "it \<noteq> it_end" "it_deref it F \<noteq> None" by blast
    then have c: "it = Some c" using Suc.prems(2) by (auto simp: it_end_def)
    obtain res1 F1 where nx: "it_next body (Some c) F = (res1, F1)" by (cases "it_next body (Some c) F")
    obtain vs1 where "range_loop body n (res1, F1) = (vs1, r, F')"
      using Suc.prems(1) it nx c by (auto split: prod.splits option.splits)
    from Suc.IH [OF this _ Suc.prems(3)] have "F' d = F1 d" using next_iterator nx by blast
    then show ?thesis using next_frame [OF nx Suc.prems(3)] by simp
  next
    case False
    then show ?thesis using Suc.prems(1) by (cases res) (auto split: if_splits option.splits)
  qed
qed

lemma range_for_frame:
  assumes "range_for body fuel (Some c) F = (vs, r, F')" and "d \<noteq> c"
  shows "F' d = F d"
proof -
  obtain res F1 where nx: "it_next body (Some c) F = (res, F1)" by (cases "it_next body (Some c) F")
  have "range_loop body fuel (res, F1) = (vs, r, F')" using assms(1) by (simp add: range_for_def begin_is_next nx)
  then have "F' d = F1 d" by (rule loop_frame [OF _ _ assms(2)]) (use next_iterator nx in blast)
  then show ?thesis using next_frame [OF nx assms(2)] by simp
qed

section \<open>Properties\<close>

text \<open>
  (C39) With \<open>n\<close> blocks of \<open>bs\<close> bytes, of which \<open>L\<close> are in use, a loop over a new generator runs exactly if a block is free and the frame fits, and
  throws \<open>bad_alloc\<close> before its first element otherwise; if it runs, its elements and its end are those of the generator's body, and whether it
  completes or throws, afterwards the frames are those from before and the pool has the same blocks in use.
\<close>

theorem generator_loop_in_pool:
  fixes s :: "('st, 'v, 'e) pooled_gens"
  assumes "cp_ok n bs (pg_pool s) L" and "dom (pg_frames s) \<subseteq> fst ` set L"
  shows "fst (pooled_for fsize bytes body fuel st s) =
      (if length L < n \<and> unat fsize \<le> bs then (case body_yields body fuel st of (vs, r) \<Rightarrow> Looped vs r) else NoMemory) \<and>
    pg_frames (snd (pooled_for fsize bytes body fuel st s)) = pg_frames s \<and>
    cp_ok n bs (pg_pool (snd (pooled_for fsize bytes body fuel st s))) L"
  using assms(1)
proof (cases rule: new_cases [where sz = fsize and x = bytes])
  case throws
  then have "call_generator fsize bytes st s = (None, s)" by (simp add: call_generator_def generator_new_def promise_new_def)
  then show ?thesis using throws(2) assms(1) by (auto simp: pooled_for_def)
next
  case (block c P)
  let ?F = "(pg_frames s)(c \<mapsto> gen_call st)"
  have call: "call_generator fsize bytes st s = (Some c, \<lparr>pg_frames = ?F, pg_pool = cp_write c (bytes c) P\<rparr>)"
    using block(1) by (simp add: call_generator_def generator_new_def promise_new_def)
  obtain vs r F where loop: "range_for body fuel (Some c) ?F = (vs, r, F)" by (cases "range_for body fuel (Some c) ?F") 
  have fresh: "pg_frames s c = None" using block(5) assms(2) by auto
  have "(F(c := None)) d = pg_frames s d" for d using range_for_frame [OF loop, of d] fresh by (cases "d = c") simp_all
  then have frames: "F(c := None) = pg_frames s" by (simp only: fun_eq_iff) simp
  have "body_yields body fuel st = (vs, r)" using range_for_yields [of ?F c st body fuel] loop by (simp add: prod_eq_iff)
  moreover have "cp_ok n bs (generator_delete c (cp_write c (bytes c) P)) L"
    using deallocate_held [OF block(2)] by (simp add: generator_delete_def promise_delete_def)
  ultimately show ?thesis using block(3,4) by (simp add: pooled_for_def call loop destroy_generator_def frames)
qed

lemma generator_loop_in_pool_witness:
  "let s = \<lparr>pg_frames = Map.empty, pg_pool = snd (cp_init 4096 2 256 cp_static)\<rparr>;
       (r, s') = pooled_for 100 (\<lambda>_. Some 3) (count_to 3) 9 0 s
   in r = Looped [0, 1, 2] Completed \<and> pg_frames s' = Map.empty \<and> cp_ok 2 256 (pg_pool s') []"
proof -
  let ?s = "\<lparr>pg_frames = Map.empty, pg_pool = snd (cp_init 4096 2 256 cp_static)\<rparr> :: (nat, nat, string) pooled_gens"
  have bs: "unat (round_block 256) = 256" by (simp add: round_block_nat)
  have "cp_ok 2 (unat (round_block 256)) (snd (cp_init 4096 2 256 cp_static)) []"
    by (rule init_ok(2)) (simp_all add: cp_static_def bs)
  then have ok: "cp_ok 2 256 (pg_pool ?s) []" unfolding bs by simp
  have body: "body_yields (count_to 3) 9 0 = ([0, 1, 2], Completed)"
    by (simp add: body_yields.simps count_to_def eval_nat_numeral)
  from generator_loop_in_pool [where fsize = 100 and bytes = "\<lambda>_. Some 3" and body = "count_to 3" and fuel = 9 and st = 0, OF ok]
  show ?thesis by (simp add: body split_beta)
qed

end
