(* ===== verification/ListLiveness.thy ===== *)
theory ListLiveness
  imports HandOverList FairRuns
begin

text \<open>
  Under every fair scheduler the calls that are under way on a \<open>threadsafe_list\<close>
  (C++_ConcurrencyInAction/designLockBase/dataStructures.hpp) return, provided no new ones are made.  A thread's
  turn is its next step (\<open>hl_turn\<close>); a round gives every thread of \<open>T\<close> a turn.  \<open>pc_left\<close> bounds the steps a
  call still takes by the nodes behind its cursor: hand-over-hand locking lets no node be put behind the cursor of
  a traversal, since \<open>push_front\<close> needs the mutex of \<open>head\<close>.
\<close>

section \<open>What a call has left\<close>

definition hl_turn :: "nat \<Rightarrow> 'a hlist \<Rightarrow> 'a hlist" where
  "hl_turn t s = (if hl_pcs s t = LIdle then s else hl_step (t, LTraverse (Remove (\<lambda>_. False))) s)"

definition behind :: "nat list \<Rightarrow> nat \<Rightarrow> nat" where
  "behind cs c = length (tl (dropWhile (\<lambda>d. d \<noteq> c) cs))"

lemma behind_split [simp]: "c \<notin> set us \<Longrightarrow> behind (us @ c # vs) c = length vs"
  by (auto simp: behind_def dropWhile_append)

lemma behind_first [simp]: "behind (c # vs) c = length vs"
  by (simp add: behind_def)

text \<open>\<open>cs\<close> are the linked nodes, \<open>p\<close> counts the calls of \<open>push_front\<close> that have not linked their node.\<close>

fun pc_left :: "nat list \<Rightarrow> nat \<Rightarrow> 'a hl_pc \<Rightarrow> nat" where
  "pc_left cs p LIdle = 0"
| "pc_left cs p (LPush n v) = 1"
| "pc_left cs p (LStart op) = 5 * (length cs + p)"
| "pc_left cs p (LAt op cur) = 5 * behind cs cur + 1"
| "pc_left cs p (LWant op cur n) = 5 * behind cs cur"
| "pc_left cs p (LBoth op cur n) = 5 * behind cs cur - 1"
| "pc_left cs p (LOn op n) = 5 * behind cs n + 2"
| "pc_left cs p (LDel op cur n) = 5 * behind cs cur + 3"
| "pc_left cs p (LFree op cur n) = 5 * behind cs cur + 2"

fun cursor :: "'a hl_pc \<Rightarrow> nat set" where
  "cursor (LAt op cur) = {cur}"
| "cursor (LWant op cur n) = {cur}"
| "cursor (LBoth op cur n) = {cur}"
| "cursor (LOn op n) = {n}"
| "cursor (LDel op cur n) = {cur}"
| "cursor (LFree op cur n) = {cur}"
| "cursor _ = {}"

definition pushing :: "nat set \<Rightarrow> 'a hlist \<Rightarrow> nat set" where
  "pushing T s = {t \<in> T. \<exists>n v. hl_pcs s t = LPush n v}"

definition hl_left :: "nat set \<Rightarrow> 'a hlist \<Rightarrow> nat" where
  "hl_left T s = (\<Sum>t\<in>T. pc_left (0 # hl_nodes s) (card (pushing T s)) (hl_pcs s t))"

lemma pc_left_mono:
  assumes "length cs' + p' \<le> length cs + p" and "\<And>c. c \<in> cursor pc \<Longrightarrow> behind cs' c \<le> behind cs c"
  shows "pc_left cs' p' pc \<le> pc_left cs p pc"
  using assms by (cases pc) (auto intro: diff_le_mono)

lemma cursor_anchor: "cursor pc \<subseteq> anchors pc"
  by (cases pc) auto

lemma cursor_holds: "cursor pc \<subseteq> holds pc"
  by (cases pc) auto

lemma hl_left_less:
  assumes T: "finite T" "t \<in> T" and pcs: "hl_pcs s' = (hl_pcs s)(t := pc)"
    and other: "\<And>u. u \<noteq> t \<Longrightarrow> pc_left (0 # hl_nodes s') (card (pushing T s')) (hl_pcs s u)
      \<le> pc_left (0 # hl_nodes s) (card (pushing T s)) (hl_pcs s u)"
    and own: "pc_left (0 # hl_nodes s') (card (pushing T s')) pc
      < pc_left (0 # hl_nodes s) (card (pushing T s)) (hl_pcs s t)"
  shows "hl_left T s' < hl_left T s"
  unfolding hl_left_def pcs by (rule sum_strict_mono_ex1) (use assms in \<open>auto simp: less_imp_le intro!: bexI [of _ t]\<close>)

section \<open>Every step of a call brings it closer to its return\<close>

lemma pushing_same:
  assumes "hl_pcs s' = (hl_pcs s)(t := pc)" and "\<And>n v. pc \<noteq> LPush n v" and "\<And>n v. hl_pcs s t \<noteq> LPush n v"
  shows "pushing T s' = pushing T s"
  using assms by (auto simp: pushing_def)

lemma hl_step_pcs: "hl_pcs (hl_step (t, call) s) = (hl_pcs s)(t := hl_pcs (hl_step (t, call) s) t)"
proof
  show "hl_pcs (hl_step (t, call) s) u = ((hl_pcs s)(t := hl_pcs (hl_step (t, call) s) t)) u" for u
    by (cases "u = t") (auto simp: hl_step.simps hl_finish_def hl_body_def hl_use_def hl_unlock_def hl_acquire_def
      hl_touch_def Let_def split: hl_pc.splits hl_call.splits hl_op.splits option.splits)
qed

lemma links_behind:
  assumes ok: "hl_ok s xs" and "hl_next s c = Some n" and "c \<in> set (0 # xs)"
  shows "behind (0 # xs) c = Suc (behind (0 # xs) n)"
proof -
  obtain us vs where sp: "0 # xs = us @ c # n # vs"
    using chain_pred [OF hl_okD(1) [OF ok] assms(2,3)] .
  have "distinct (us @ c # n # vs)" using hl_distinct [OF ok] sp by metis
  then have "behind (us @ c # n # vs) c = Suc (length vs)" "behind ((us @ [c]) @ n # vs) n = length vs"
    by (subst behind_split; simp)+
  then show ?thesis unfolding sp by simp
qed

lemma hl_quiet_closer:
  assumes ok: "hl_ok s xs" and q: "\<not> changes_links s (hl_pcs s t) call" and busy: "hl_pcs s t \<noteq> LIdle"
  shows "hl_step (t, call) s = s \<or>
    pc_left (0 # xs) p (hl_pcs (hl_step (t, call) s) t) < pc_left (0 # xs) p (hl_pcs s t)"
proof -
  have lin: "c \<in> anchors (hl_pcs s t) \<Longrightarrow> c \<in> set (0 # xs)" for c using hl_okD(5) [OF ok, of t] by blast
  show ?thesis
  proof (cases "hl_pcs s t")
    case (LWant op cur n)
    then have "hl_next s cur = Some n" "cur \<in> set (0 # xs)" using hl_okD(8) [OF ok, of t] lin [of cur] by simp_all
    from links_behind [OF ok this] have "behind (0 # xs) cur = Suc (behind (0 # xs) n)" .
    then show ?thesis using LWant by (simp add: hl_step.simps)
  next
    case (LBoth op cur n)
    then have "hl_next s cur = Some n" "cur \<in> set (0 # xs)" using hl_okD(8) [OF ok, of t] lin [of cur] by simp_all
    from links_behind [OF ok this] have "behind (0 # xs) cur = Suc (behind (0 # xs) n)" .
    then show ?thesis using LBoth q by (cases op) (simp_all add: hl_step.simps hl_body_def hl_touch_def)
  next
    case (LOn op n)
    then show ?thesis using hl_okD(8) [OF ok, of t]
      by (cases op) (simp_all add: hl_step.simps hl_use_def hl_touch_def)
  qed (use q busy in \<open>auto simp: hl_step.simps hl_finish_def hl_touch_def split: option.splits\<close>)
qed

lemma hl_closer:
  assumes ok: "hl_ok s xs" and T: "finite T" "t \<in> T" and busy: "hl_pcs s t \<noteq> LIdle"
  shows "hl_step (t, call) s = s \<or> hl_left T (hl_step (t, call) s) < hl_left T s"
proof -
  let ?s = "hl_step (t, call) s"
  define pc where "pc = hl_pcs ?s t"
  have pcs: "hl_pcs ?s = (hl_pcs s)(t := pc)" unfolding pc_def by (rule hl_step_pcs)
  note nodes = hl_nodes_eq [OF ok]
  have fin: "finite (pushing T s)" using T by (simp add: pushing_def)
  consider (quiet) "\<not> changes_links s (hl_pcs s t) call"
    | (push) n v where "hl_pcs s t = LPush n v"
    | (unlink) p cur n where "hl_pcs s t = LBoth (Remove p) cur n" "p (hl_data s n)"
    | (free) op cur n where "hl_pcs s t = LFree op cur n"
    using busy by (cases "(s, hl_pcs s t, call)" rule: changes_links.cases) auto
  then show ?thesis
  proof cases
    case quiet
    have nopush: "pc \<noteq> LPush n v" "hl_pcs s t \<noteq> LPush n v" for n v
    proof -
      show *: "hl_pcs s t \<noteq> LPush n v" for n v using quiet by auto
      have "hl_pcs ?s t \<noteq> LPush n v" using busy *
        by (auto simp: hl_step.simps hl_finish_def hl_body_def hl_use_def hl_touch_def
            split: hl_pc.splits hl_op.splits option.splits)
      then show "pc \<noteq> LPush n v" by (simp add: pcs)
    qed
    have same: "0 # hl_nodes ?s = 0 # xs" "pushing T ?s = pushing T s"
      using hl_nodes_eq [OF hl_quiet_step [OF ok quiet]] pushing_same [OF pcs nopush] by simp_all
    from hl_quiet_closer [OF ok quiet busy, of "card (pushing T s)"] show ?thesis
      using hl_left_less [OF T pcs] by (auto simp: same nodes pcs)
  next
    case (push n v)
    show ?thesis
    proof (cases "hl_lock s 0")
      case None
      have ok': "hl_ok ?s (n # xs)" using hl_push_step [OF ok push None] by blast
      have "hl_pcs ?s = (hl_pcs s)(t := LIdle)" using push None by (simp add: hl_step.simps)
      note idle = this
      have "pushing T ?s = pushing T s - {t}" by (auto simp: pushing_def idle)
      moreover have "t \<in> pushing T s" using T push by (simp add: pushing_def)
      ultimately have P: "card (pushing T s) = Suc (card (pushing T ?s))" using fin by (metis card_Suc_Diff1)
      have n: "n \<notin> set (0 # xs)" using hl_okD(6) [OF ok, of t n] push by simp
      have far: "behind (0 # n # xs) c = behind (0 # xs) c" if "c \<in> cursor (hl_pcs s u)" for u c
      proof -
        have "c \<in> set (0 # xs)" using that cursor_anchor hl_okD(5) [OF ok, of u] by blast
        then have "c \<noteq> n" using n by metis
        have "c \<in> holds (hl_pcs s u)" using that cursor_holds by blast
        then have "c \<noteq> 0" using hl_okD(4) [OF ok, of c u] None by (cases "c = 0") auto
        with \<open>c \<noteq> n\<close> show ?thesis by (simp add: behind_def)
      qed
      show ?thesis
        by (rule disjI2, rule hl_left_less [OF T idle])
          (use push far in \<open>simp_all add: nodes hl_nodes_eq [OF ok'] P pc_left_mono\<close>)
    qed (use push in \<open>simp add: hl_step.simps\<close>)
  next
    case (unlink p cur n)
    obtain us vs where u: "xs = us @ n # vs" "hl_ok ?s (us @ vs)" by (rule hl_unlink_step [OF ok unlink])
    have "hl_pcs ?s = (hl_pcs s)(t := LDel (Remove p) cur n)"
      using unlink by (simp add: hl_step.simps hl_body_def hl_touch_def)
    note del = this
    have push: "pushing T ?s = pushing T s" by (rule pushing_same [OF del]) (use unlink in auto)
    have nx: "hl_next s cur = Some n" "cur \<in> set (0 # xs)"
      using hl_okD(5,8) [OF ok, of t] unlink(1) by simp_all
    obtain as bs where sp: "0 # xs = as @ cur # n # bs" using chain_pred [OF hl_okD(1) [OF ok] nx] .
    have dist: "distinct (as @ cur # n # bs)" using hl_distinct [OF ok] sp by metis
    have "(0 # us) @ n # vs = (as @ [cur]) @ n # bs" using sp u by simp
    moreover have "n \<notin> set (as @ [cur])" "n \<notin> set bs" using dist by auto
    ultimately have "0 # us = as @ [cur] \<and> vs = bs" by (metis append_Cons_eq_iff)
    then have "0 # us @ vs = as @ cur # bs" by simp
    then have near: "behind (0 # xs) cur = Suc (behind (0 # us @ vs) cur)" using dist unfolding sp by simp
    have other: "behind (0 # us @ vs) c \<le> behind (0 # xs) c" if "v \<noteq> t" "c \<in> cursor (hl_pcs s v)" for v c
    proof -
      have "c \<noteq> n" using hl_holder [OF ok, of n v t] that cursor_holds [of "hl_pcs s v"] unlink by auto
      then show ?thesis by (auto simp: u behind_def dropWhile_append)
    qed
    show ?thesis
      by (rule disjI2, rule hl_left_less [OF T del])
        (use near unlink other in \<open>simp_all add: nodes hl_nodes_eq [OF u(2)] push pc_left_mono u(1)\<close>)
  next
    case (free op cur n)
    have ok': "hl_ok ?s xs" using hl_free_step [OF ok free] by blast
    have "hl_pcs ?s = (hl_pcs s)(t := LAt op cur)" using free by (simp add: hl_step.simps hl_touch_def)
    note at = this
    have "pushing T ?s = pushing T s" by (rule pushing_same [OF at]) (use free in auto)
    then show ?thesis using hl_left_less [OF T at] free by (simp add: nodes hl_nodes_eq [OF ok'])
  qed
qed

section \<open>Every node has a place\<close>

definition hl_placed :: "'a hlist \<Rightarrow> bool" where
  "hl_placed s \<longleftrightarrow> hl_inv s \<and> (\<forall>c. 0 < c \<longrightarrow> c < hl_alloc s \<longrightarrow>
     c \<in> set (hl_nodes s) \<or> c \<in> hl_freed s \<or> (\<exists>t. mine (hl_pcs s t) = Some c))"

lemma placedI:
  assumes "hl_placed s" and ok: "hl_ok s' xs"
    and "\<And>c. 0 < c \<Longrightarrow> c < hl_alloc s' \<Longrightarrow> c < hl_alloc s \<or> (\<exists>t. mine (hl_pcs s' t) = Some c)"
    and "\<And>c. c \<in> set (hl_nodes s) \<Longrightarrow> c \<in> set xs \<or> (\<exists>t. mine (hl_pcs s' t) = Some c)"
    and "hl_freed s \<subseteq> hl_freed s'"
    and "\<And>c t. mine (hl_pcs s t) = Some c \<Longrightarrow> c \<in> set xs \<or> c \<in> hl_freed s' \<or> (\<exists>t. mine (hl_pcs s' t) = Some c)"
  shows "hl_placed s'"
  using assms unfolding hl_placed_def hl_inv_def hl_nodes_eq [OF ok] by blast

lemma hl_placed_step:
  assumes p: "hl_placed s"
  shows "hl_placed (hl_step (t, call) s)"
proof -
  let ?s = "hl_step (t, call) s"
  obtain xs where ok: "hl_ok s xs" using p by (auto simp: hl_placed_def hl_inv_def)
  note nodes = hl_nodes_eq [OF ok]
  have others: "\<exists>u. mine (hl_pcs ?s u) = Some c" if "mine (hl_pcs s v) = Some c" "v \<noteq> t" for v c
    using that hl_step_pcs [of t call s] by (metis fun_upd_other)
  consider (quiet) "\<not> changes_links s (hl_pcs s t) call"
    | (alloc) x where "hl_pcs s t = LIdle" "call = LPushFront x"
    | (push) n v where "hl_pcs s t = LPush n v"
    | (unlink) p cur n where "hl_pcs s t = LBoth (Remove p) cur n" "p (hl_data s n)"
    | (free) op cur n where "hl_pcs s t = LFree op cur n"
    by (cases "(s, hl_pcs s t, call)" rule: changes_links.cases) auto
  then show ?thesis
  proof cases
    case quiet
    have "hl_alloc ?s = hl_alloc s" "hl_freed ?s = hl_freed s" "mine (hl_pcs s t) = Some c \<Longrightarrow> mine (hl_pcs ?s t) = Some c" for c
      using quiet by (auto simp: hl_step.simps hl_finish_def hl_body_def hl_use_def hl_unlock_def hl_acquire_def
        hl_touch_def Let_def split: hl_pc.splits hl_call.splits hl_op.splits option.splits)
    then show ?thesis using others
      by (intro placedI [OF p hl_quiet_step [OF ok quiet]]) (auto simp: nodes, metis)
  next
    case alloc
    then have "hl_alloc ?s = Suc (hl_alloc s)" "hl_freed ?s = hl_freed s" "mine (hl_pcs ?s t) = Some (hl_alloc s)" "mine (hl_pcs s t) = None"
      by (simp_all add: hl_step.simps Let_def)
    then show ?thesis using others hl_alloc_step [OF ok alloc(1)] alloc(2)
      by (intro placedI [OF p, of _ xs]) (auto simp: nodes less_Suc_eq, metis option.distinct(1))
  next
    case (push n v)
    show ?thesis
    proof (cases "hl_lock s 0")
      case None
      then have "hl_alloc ?s = hl_alloc s" "hl_freed ?s = hl_freed s" using push by (simp_all add: hl_step.simps)
      then show ?thesis using others push hl_push_step [OF ok push None]
        by (intro placedI [OF p, of _ "n # xs"]) (auto simp: nodes, metis mine.simps(1) option.inject)
    qed (use push p in \<open>simp add: hl_step.simps\<close>)
  next
    case (unlink q cur n)
    obtain us vs where u: "xs = us @ n # vs" "hl_ok ?s (us @ vs)" by (rule hl_unlink_step [OF ok unlink])
    have "hl_alloc ?s = hl_alloc s" "hl_freed ?s = hl_freed s" "mine (hl_pcs ?s t) = Some n" "mine (hl_pcs s t) = None"
      using unlink by (simp_all add: hl_step.simps hl_body_def hl_touch_def)
    then show ?thesis using others u(1)
      by (intro placedI [OF p u(2)]) (auto simp: nodes, metis option.distinct(1))
  next
    case (free op cur n)
    have "hl_alloc ?s = hl_alloc s" "hl_freed ?s = insert n (hl_freed s)"
      using free by (simp_all add: hl_step.simps hl_touch_def)
    then show ?thesis using others free hl_free_step [OF ok free]
      by (intro placedI [OF p, of _ xs]) (auto simp: nodes, metis mine.simps(3) option.inject)
  qed
qed

interpretation placed: interleaving hl_step hl_placed
  by unfold_locales (auto simp: hl_placed_step)

section \<open>Fair runs\<close>

definition calls_of :: "nat set \<Rightarrow> 'a hlist \<Rightarrow> bool" where
  "calls_of T s \<longleftrightarrow> hl_placed s \<and> finite T \<and> (\<forall>t. t \<notin> T \<longrightarrow> hl_pcs s t = LIdle)"

lemma calls_turn: "calls_of T s \<Longrightarrow> calls_of T (hl_turn t s)"
  using hl_step_pcs [of t "LTraverse (Remove (\<lambda>_. False))" s]
  by (auto simp: calls_of_def hl_turn_def hl_placed_step) (metis fun_upd_other)

lemma turn_closer:
  assumes "calls_of T s"
  shows "hl_turn t s = s \<or> hl_left T (hl_turn t s) < hl_left T s"
proof (cases "hl_pcs s t = LIdle")
  case False
  obtain xs where "hl_ok s xs" using assms by (auto simp: calls_of_def hl_placed_def hl_inv_def)
  from hl_closer [OF this _ _ False, of T] False assms show ?thesis by (auto simp: hl_turn_def calls_of_def)
qed (simp add: hl_turn_def)

lemma can_turn:
  assumes "calls_of T s" and "can_step s t"
  shows "hl_left T (hl_turn t s) < hl_left T s"
  using turn_closer [OF assms(1), of t] assms(2) by (auto simp: hl_turn_def can_step_def) metis

interpretation list_fair: fair_progress "hl_turn :: nat \<Rightarrow> 'a hlist \<Rightarrow> 'a hlist" "\<lambda>_. True" "calls_of T" "\<lambda>_. True"
    "hl_left T" "\<lambda>s. can_step s" "\<lambda>_ _. 0" "\<lambda>t e. e = t" "\<lambda>_ r. T \<subseteq> set r" "1"
  for T
proof
  fix s :: "'a hlist" and e i
  assume live: "calls_of T s"
  show "calls_of T (hl_turn e s)" by (rule calls_turn [OF live])
  show "hl_left T (hl_turn e s) \<le> hl_left T s" using turn_closer [OF live, of e] by auto
  assume can: "can_step s i"
  show "hl_left T (hl_turn e s) < hl_left T s \<or> can_step (hl_turn e s) i \<and> (0::nat) \<le> 0"
    using turn_closer [OF live, of e] can by auto
  show "hl_left T (hl_turn e s) < hl_left T s \<or> can_step (hl_turn e s) i \<and> (0::nat) < 0" if "e = i"
    using can_turn [OF live can] that by simp
  show "\<exists>e\<in>set r. e = i" if "T \<subseteq> set r" for r
    using live can that by (auto simp: calls_of_def can_step_def)
next
  fix s :: "'a hlist"
  assume live: "calls_of T s" and "0 < hl_left T s"
  then obtain t where "hl_pcs s t \<noteq> LIdle" by (fastforce simp: hl_left_def)
  moreover obtain xs where "hl_ok s xs" using live by (auto simp: calls_of_def hl_placed_def hl_inv_def)
  ultimately show "\<exists>i. can_step s i" using hl_progress by blast
qed (simp_all add: list_all_iff)

lemma none_left:
  assumes live: "calls_of T s" and "hl_left T s = 0"
  shows "hl_pcs s t = LIdle"
proof (rule ccontr)
  assume busy: "hl_pcs s t \<noteq> LIdle"
  obtain xs where ok: "hl_ok s xs" using live by (auto simp: calls_of_def hl_placed_def hl_inv_def)
  then obtain u where "can_step s u" using hl_progress [OF _ busy] by blast
  from can_turn [OF live this] show False using assms(2) by simp
qed

lemma pc_left_bound:
  assumes "\<And>c. behind cs c < length cs" and "p \<le> q"
  shows "pc_left cs p pc \<le> 5 * (length cs + q)"
  using assms(1) [of "the_elem (cursor pc)"] assms(2) by (cases pc) simp_all

lemma hl_left_bound:
  assumes "finite T"
  shows "hl_left T s \<le> card T * (5 * (length (hl_list s) + card T + 1))"
proof -
  have "card (pushing T s) \<le> card T" by (rule card_mono [OF assms]) (auto simp: pushing_def)
  moreover have "behind (0 # hl_nodes s) c < length (0 # hl_nodes s)" for c
    using length_dropWhile_le [of "\<lambda>d. d \<noteq> c" "0 # hl_nodes s"]
    by (simp add: behind_def less_Suc_eq_le del: dropWhile.simps)
  ultimately have "pc_left (0 # hl_nodes s) (card (pushing T s)) pc \<le> 5 * (length (0 # hl_nodes s) + card T)" for pc :: "'a hl_pc"
    by (intro pc_left_bound)
  then have "hl_left T s \<le> of_nat (card T) * (5 * (length (0 # hl_nodes s) + card T))"
    unfolding hl_left_def by (intro sum_bounded_above)
  then show ?thesis by (simp add: hl_list_def)
qed

text \<open>
  (C40) Every call on a \<open>threadsafe_list\<close> returns under every fair scheduler.  From any state that any number of threads
  reach with \<open>push_front\<close>, \<open>for_each\<close>, \<open>find_first_if\<close> and \<open>remove_if\<close> in any interleaving, if only the threads of \<open>T\<close>
  are inside a call and no new calls are made, then after \<open>5 |T| (n + |T| + 1)\<close> rounds, for the \<open>n\<close> elements of the list, all calls
  have returned; then every node ever allocated is either on the list or deleted, and not both.
\<close>

theorem list_fair_runs_return:
  fixes es :: "(nat \<times> 'a hl_call) list" and any :: 'a
  defines "s \<equiv> run_sched hl_step es (hl_new any)"
  assumes "finite T" and "\<And>t. t \<notin> T \<Longrightarrow> hl_pcs s t = LIdle"
    and "list_all (\<lambda>r. T \<subseteq> set r) rs" and "card T * (5 * (length (hl_list s) + card T + 1)) \<le> length rs"
  defines "s' \<equiv> run_sched hl_turn (concat rs) s"
  shows "(\<forall>t. hl_pcs s' t = LIdle) \<and>
    (\<forall>c. 0 < c \<longrightarrow> c < hl_alloc s' \<longrightarrow> (c \<in> set (hl_nodes s')) \<noteq> (c \<in> hl_freed s'))"
proof -
  have "hl_placed (hl_new any)" by (auto simp: hl_placed_def hl_reachable_inv [of "[]", simplified]) (simp add: hl_new_def)
  then have "hl_placed s" unfolding s_def by (rule placed.sched_keeps)
  then have live: "calls_of T s" using assms(2,3) by (simp add: calls_of_def)
  have "hl_left T s * 1 \<le> length rs" using hl_left_bound [OF assms(2), of s] assms(5) by simp
  from list_fair.fair_finish [OF live TrueI assms(4) this] have "hl_left T s' = 0" by (simp add: s'_def)
  moreover have live': "calls_of T s'" unfolding s'_def using list_fair.fair_run_keeps [OF live] by (simp add: list_all_iff)
  ultimately have idle: "hl_pcs s' t = LIdle" for t by (rule none_left [rotated])
  moreover obtain xs where ok: "hl_ok s' xs" and "hl_placed s'" using live' by (auto simp: calls_of_def hl_placed_def hl_inv_def)
  ultimately show ?thesis using hl_okD(2) [OF ok] by (auto simp: hl_placed_def hl_nodes_eq [OF ok])
qed

theorem list_fair_runs_return_witness:
  "hl_pcs (run_sched hl_turn (concat (replicate 40 [1, 0]))
     (run_sched hl_step [(0, LPushFront 7), (0, LPushFront 7), (0, LTraverse (Remove (\<lambda>x. x = 7))), (1, LPushFront 2), (0, LPushFront 7)]
       (hl_new (0::nat)))) 1 = LIdle"
proof -
  let ?s = "run_sched hl_step [(0, LPushFront 7), (0, LPushFront 7), (0, LTraverse (Remove (\<lambda>x. x = 7))), (1, LPushFront 2), (0, LPushFront 7)]
    (hl_new (0::nat))"
  have s: "hl_pcs ?s = (\<lambda>_. LIdle)(0 := LAt (Remove (\<lambda>x. x = 7)) 0, 1 := LPush 2 2)" "length (hl_list ?s) = 1"
    by (simp_all add: hl_step.simps hl_new_def hl_acquire_def hl_list_def hl_nodes_def fun_eq_iff)
  have "\<forall>t. hl_pcs (run_sched hl_turn (concat (replicate 40 [1, 0])) ?s) t = LIdle"
    by (rule list_fair_runs_return [of "{0, 1}", THEN conjunct1]) (unfold s, simp_all add: list_all_iff)
  then show ?thesis ..
qed

end
