(* ===== verification/Spec2Isabelle.thy ===== *)
theory Spec2Isabelle
  imports SpscQueue TaggedStack Rcu HashMaps WaitQueues FineQueue HandOverList SplitCountStack TreiberStack MemoryPools
    Channel ThreadPool MoveOnly Coroutines DeviceConfig WorkStealing QuickSort ParallelRanges HazardPointers
    DeviceControl SensorShm EventTimers Primitives LockFreeQueue
    SmallPrograms PoolAlgorithms TaskMemory VoidTask TreiberMain TimedTasks TimedProgress HardwareSupport
    FairRuns PoolLiveness CallLiveness WorkStealingLiveness Concepts GeneratorMemory ListLiveness
begin

text \<open>
  Verification of the concurrency library modern_cpp_core, of the data structures of
  C++_ConcurrencyInAction, and of the two-process programs of tran-danh-quang/session-09.

  \<^bold>\<open>The programs.\<close>  modern_cpp_core has lock-free containers and memory reclamation
  (data_structures/), pools of memory (memory/, coroutines/coroutine_pool), coroutines and the channel between them and the event loop (coroutines/), a thread pool and small synchronisation primitives (concurrency/), parallel algorithms and a data
  pipeline (patterns/).  C++_ConcurrencyInAction is a collection of lock-based and
  lock-free structures, of thread-pool building blocks and of parallel algorithms.  session-09 has pairs of C programs that share a
  file, a System V segment or a POSIX shared-memory object.

  \<^bold>\<open>How concurrency is modelled.\<close>  A component is a record of its shared memory and of each thread's program counter and
  locals.  \<open>step event state\<close> is one access to shared memory (for lock-based code: one critical section) by the
  thread the event names; a schedule is a list of events and \<open>run_sched\<close> (theory Prelude) runs it, so a statement about all lists of
  events is a statement about all interleavings.  Memory is sequentially consistent: the effects of weaker orderings are not modelled.
  Ghost components (logs, the abstract contents, flags for undefined behaviour) are named in each theory.

  \<^bold>\<open>Theories.\<close>
  \<^item> Prelude: schedules and traces, reachability (\<open>reaches\<close>), the locales \<open>interleaving\<close>, \<open>counted_interleaving\<close> and \<open>linearizable\<close>, the
    specifications of queues and stacks, linked structures.
  \<^item> FairRuns: the locale \<open>fair_progress\<close>, the contract of a component that finishes under every fair scheduler, with a bound on the rounds.
  \<^item> SpscQueue: \<open>LockFreeQueue\<close> (data_structures/lock_free_queue.hpp), one producer and one consumer: bounded FIFO, no access
    outside or to the other side's slot.
  \<^item> TaggedStack: \<open>LockFreeStack\<close> (lock_free_stack.hpp) with 32-bit version tags: linearizable as long as no tag wraps around; the
    failure when one does.
  \<^item> Rcu: \<open>rcu_domain\<close> and \<open>RcuPtr\<close> (rcu.hpp), with 64-bit epochs: no use after free when readers are not nested
    and stay on one domain; the two schedules that show why both conditions are needed.
  \<^item> HashMaps: \<open>ThreadSafeHashMap\<close> and \<open>threadsafe_lookup_table\<close>: refinement of a finite map, progress of the bucket locks.
  \<^item> WaitQueues: \<open>threadsafe_stack\<close>, \<open>threadsafe_queue_single_mutex\<close> and \<open>ThreadSafeQueue\<close>.
  \<^item> FineQueue: \<open>threadsafe_queue_fine_grained\<close>, with its lost wake-up.
  \<^item> HandOverList: \<open>threadsafe_list\<close> with hand-over-hand locking; ListLiveness: every fair run completes all its calls, within a bound.
  \<^item> SplitCountStack: \<open>lock_free_stack\<close> of designLockFree with its counts as the source's \<open>int\<close>s: linearizable and free of leaks until the external
    count overflows, which pops of the empty stack bring about.  TreiberStack: the stack of treiberStack.cpp.
  \<^item> MemoryPools: \<open>CoroutinePoolAllocator\<close> and \<open>MonotonicMemoryPool\<close>.
  \<^item> Channel: \<open>Channel\<close> (channel.hpp): bounded FIFO on one thread, defects across threads.
  \<^item> ThreadPool: \<open>JThreadPool\<close> (thread_pool.hpp, .cpp): conservation of tasks, no lost wake-up for submissions
    from outside, the tasks that are stranded or dropped.
  \<^item> PoolLiveness: every fair run of \<open>JThreadPool\<close> finishes all it has accepted, within a bound; the starvation of the shared queue.
  \<^item> MoveOnly: \<open>FixedTask\<close>, \<open>function_wrapper\<close> and the ownership of \<open>Generator\<close> and \<open>Task\<close>: one contract, the locale \<open>move_only\<close>.
  \<^item> Coroutines: \<open>Generator\<close> iteration and \<open>Task\<close> execution against direct evaluation; a call whose frame \<open>operator new\<close> finds no memory for throws,
    in the machine and in the evaluation.
  \<^item> WorkStealing: \<open>work_stealing_queue\<close> and its \<open>thread_pool\<close>: conservation of tasks, the search for work, the order of the deque.
    WorkStealingLiveness: every fair run of the pool finishes all tasks, within a bound, also those that tasks submit meanwhile.  The pool's global
    queue, a class outside the repository, is a parameter; the constructor's \<open>push_back\<close>s race with the workers' reads of the vector, which is undefined behaviour here.
  \<^item> QuickSort: \<open>parallel_quick_sort\<close> (designConcurrentCode/quickSort.hpp): it sorts, its waiting never deadlocks, and the caller alone finishes; threads that
    cannot be created; the data race on the vector of threads, after which nothing is claimed.
  \<^item> ParallelRanges: \<open>parallel_for_each\<close>, \<open>parallel_transform\<close> (patterns/parallel_algorithms.hpp), the recursive
    \<open>parallel_for_each\<close> and \<open>parallel_find\<close> (designConcurrentCode/practice), \<open>parallel_accumulate\<close> (exceptionSafety.cpp) and the
    two loops of falseSharing.cpp: every element once, the right result, the exact conditions for exceptions.
  \<^item> HazardPointers: hazard_pointer.hpp: a protected object is not deleted, and no retired object is lost or deleted twice.
  \<^item> LockFreeQueue: \<open>lock_free_queue\<close> of designLockFree, each access of it: a FIFO queue that deletes each node once when calls do not
    overlap and are fewer than the \<open>int\<close> external counts can hold; a schedule of two threads in which a value is lost.
  \<^item> EventTimers: \<open>EventLoop\<close> and \<open>AsyncTimer\<close>: which timers a poll resumes, at most one resumption each, the lost registration.
  \<^item> Primitives: \<open>Spinlock\<close>, \<open>atomic_wait_until\<close>, \<open>RelaxedCounter\<close>, \<open>process_sensor_data\<close>.
  \<^item> Concepts: the concepts of core_concepts.hpp and which types satisfy them.
  \<^item> SmallPrograms: \<open>parallel_partial_sum\<close> and its barrier (it deadlocks), guiResponsiveness.cpp, sharedState.cpp, localQueuePool.hpp.
  \<^item> PoolAlgorithms: \<open>parallel_for_each\<close> running on \<open>JThreadPool\<close>, caller, workers and other threads element by element: every element once; it
    can return when called from outside, and does so in every fair run (CallLiveness); it blocks when called in a task or when a chunk is dropped at shutdown.
  \<^item> TaskMemory, GeneratorMemory: the frames of \<open>Task\<close> and of \<open>Generator\<close> in \<open>CoroutinePoolAllocator\<close>.  VoidTask: \<open>Task<void>\<close> against \<open>Task\<close>.
  \<^item> TimedTasks, TimedProgress: \<open>Task\<close>, \<open>AsyncTimer\<close> and \<open>EventLoop\<close> together on one thread, with frames and descriptors that may not be available: well-formed
    states, the results of the bodies, and that every coroutine can end, as long as none is destroyed while it is suspended (\<open>destroyed_coroutine_resumed\<close>)
    and, for the last, no timer is set to 0 ms.
  \<^item> TreiberMain: the program of treiberStack.cpp with its two workers and its output.
  \<^item> HardwareSupport: \<open>AlignedCacheLine\<close> (layout and operators) and the wrappers of thread_affinity.cpp.
  \<^item> DeviceControl: controller.c and device.c of Exercise_3: the status is a register for any number of processes, and a device prints, behind its
    unlock, what it has read; the session of a controller; what a process that dies with the lock does to the others.
  \<^item> SensorShm: daemon.c and cli.c of Exercise_1: the age of what a report shows, the segment a dead daemon leaves, the RAM percentage.
  \<^item> CInput, DeviceConfig: line input of the C programs; config-writer and config-reader on the bytes of their file.

  \<^bold>\<open>Bounds and fuel.\<close>  TaggedStack is linearizable for schedules of at most \<open>2 ^ 32\<close> steps and Rcu safe for at most
  \<open>2 ^ 64 - 2\<close>, because their counters wrap around; the reference counts of SplitCountStack and LockFreeQueue are \<open>int\<close>s, whose overflow is
  undefined, and fewer than \<open>2 ^ 31 - 1\<close> steps (or calls) cannot reach it.  The range-for of a generator takes the number of resumptions as fuel, and the
  theorem holds for every fuel.  The loops of config-writer take fuel; one more than the length of the input is enough when no read
  is interrupted, and no fuel is enough in the case the theorem describes.

  The recursion of \<open>parallel_accumulate\<close> and \<open>parallel_quick_sort\<close> and the loops of the event loop are bounded by the data.

  \<^bold>\<open>Parameters.\<close>  The client's code is a parameter: hash functions, predicates, comparison and partition, the bodies of coroutines, the
  tasks of a pool (values that are run once).  The results of system calls, the contents of /proc/meminfo and /proc/loadavg and the rounding of the
  processor are inputs of the C programs.  The pthread calls of thread_affinity.cpp are functions with the manual's promises as hypotheses.

  \<^bold>\<open>Findings.\<close>  Where the code fails, the theorem states the schedule or input and what happens; the theories keep those
  lemmas beside the properties that hold, and the manifest lists them.

  \<^bold>\<open>Not modelled.\<close>  Weak memory orderings; \<open>std::bad_alloc\<close> outside the coroutine frames and the memory pools; \<open>std::thread\<close> start and join beyond the
  pools and the device programs; the types that are only other names of standard classes (latch_barrier.hpp, semaphore.hpp); deadlockFreePool.hpp, which does not compile and works
  on a pool outside the repository; the unit tests.  The
  manifest lists every component with its status.

  \<^bold>\<open>Open.\<close>  Invariants of \<open>lock_free_queue\<close> for overlapping calls (its reference counts, apart from the lost value); coroutines that are destroyed while their timer is registered
  (EventTimers shows one that is resumed afterwards); tasks and timers with several threads in \<open>run\<close>.
\<close>

end
